(* ===== verification/Prelude.thy ===== *)
theory Prelude
  imports Main "HOL-Library.Word" "HOL-Library.Char_ord"
begin

unbundle bit_operations_syntax

text \<open>
  What every other theory of the development shares: the bytes and string views of the C++
  code, the results of fallible functions, and generic facts about lists, bits and characters.

  A \<^verbatim>\<open>std::string_view\<close> or \<^verbatim>\<open>std::string\<close> of the code is a HOL
  \<^typ>\<open>string\<close>: a list of bytes, one \<^typ>\<open>char\<close> each. A position inside a view is either
  a \<^typ>\<open>nat\<close> offset, where the code returns or stores it, or the suffix that starts there.
  A \<^verbatim>\<open>std::expected<T, E>\<close> is the sum \<^verbatim>\<open>E + T\<close>: \<^const>\<open>Inl\<close> the
  error, \<^const>\<open>Inr\<close> the value.
\<close>

section \<open>Bytes\<close>

text \<open>The value of a byte as an \<^verbatim>\<open>unsigned char\<close>.\<close>

abbreviation uchar :: "char \<Rightarrow> nat" where
  "uchar c \<equiv> of_char c"

text \<open>The cast of an integer to \<^verbatim>\<open>char\<close>, which keeps its low eight bits.\<close>

abbreviation to_char :: "nat \<Rightarrow> char" where
  "to_char n \<equiv> char_of n"

text \<open>Whether a byte is in a range.\<close>

abbreviation between :: "char \<Rightarrow> char \<Rightarrow> char \<Rightarrow> bool" where
  "between low c high \<equiv> low \<le> c \<and> c \<le> high"

named_theorems byte_simps \<open>arithmetic of bytes, shifts and masks\<close>
named_theorems view_simps \<open>searching and cutting string views\<close>

lemma and_mask_nat:
  "(x::nat) AND 7 = x mod 8" "(x::nat) AND 15 = x mod 16" "(x::nat) AND 31 = x mod 32"
  "(x::nat) AND 63 = x mod 64" "(x::nat) AND 1023 = x mod 1024"
  using take_bit_eq_mask [of 3 x] take_bit_eq_mask [of 4 x] take_bit_eq_mask [of 5 x]
    take_bit_eq_mask [of 6 x] take_bit_eq_mask [of 10 x]
  by (simp_all add: take_bit_eq_mod mask_eq_exp_minus_1)

lemma push_bit_or_nat:
  assumes "b < 2 ^ n"
  shows "push_bit n a OR b = a * 2 ^ n + (b::nat)"
proof -
  have "push_bit n a AND b = push_bit n a AND take_bit n b"
    using assms by (simp add: take_bit_nat_eq_self)
  also have "\<dots> = 0"
    by (rule bit_eqI) (auto simp: bit_simps)
  finally have "push_bit n a + b = push_bit n a OR b"
    by (rule disjunctive_add_eq_or)
  then show ?thesis by (simp add: push_bit_eq_mult)
qed

lemma or_disjoint_nat:
  assumes "b < 2 ^ n" "2 ^ n dvd a"
  shows "a OR b = a + (b::nat)"
proof -
  from assms(2) obtain k where "a = push_bit n k"
    by (auto simp: push_bit_eq_mult mult.commute elim!: dvdE)
  with push_bit_or_nat [OF assms(1), of k] show ?thesis
    by (simp add: push_bit_eq_mult)
qed

lemma top_bit_nat:
  assumes "x < 256"
  shows "bit (x::nat) 7 \<longleftrightarrow> 128 \<le> x"
proof (cases "128 \<le> x")
  case True
  with assms have "x div 128 = 1" by (intro div_nat_eqI) auto
  with True show ?thesis by (simp add: bit_iff_odd)
next
  case False
  then show ?thesis by (simp add: bit_iff_odd)
qed

lemmas shift_nat = push_bit_eq_mult drop_bit_eq_div

declare and_mask_nat [byte_simps] shift_nat [byte_simps]

section \<open>Output accumulated in front\<close>

text \<open>
  A loop that appends to an output and gives the rest of its input is a recursive function
  that adds the output of a step in front of that of the steps after it.
\<close>

lemma apfst_append_Nil [simp]: "apfst ((@) []) p = p"
  by (cases p) simp

lemma apfst_append_append [simp]: "apfst ((@) xs) (apfst ((@) ys) p) = apfst ((@) (xs @ ys)) p"
  by (cases p) simp

lemma apfst_Cons_append [simp]: "apfst ((#) x) (apfst ((@) ys) p) = apfst ((@) (x # ys)) p"
  by (cases p) simp

lemma apfst_append_Cons [simp]: "apfst ((@) xs) (apfst ((#) y) p) = apfst ((@) (xs @ [y])) p"
  by (cases p) simp

lemma takeWhile_eq_replicate: "takeWhile (\<lambda>y. y = x) ys = replicate (length (takeWhile (\<lambda>y. y = x) ys)) x"
  by (induction ys) auto

end
