(* ===== verification/Swar.thy ===== *)
theory Swar
  imports Prelude
begin

unbundle bit_operations_syntax

text \<open>
  The word-at-a-time byte scans of \<^verbatim>\<open>include/kotatsu/support/swar.h\<close>. A
  \<^verbatim>\<open>std::uint64_t\<close> is a \<^typ>\<open>64 word\<close>, so the subtraction of \<^verbatim>\<open>bytes_below\<close>
  wraps around as the code's does. What \<^verbatim>\<open>std::memcpy\<close> puts into a word depends on the
  byte order of the machine, which is an argument (\<^verbatim>\<open>big\<close>) of the definitions that load
  words: the theorems hold for both orders.
\<close>

type_synonym uint64 = "64 word"

section \<open>Loading words\<close>

text \<open>The value of bytes of which the first is the lowest.\<close>

fun le_value :: "string \<Rightarrow> nat" where
  "le_value [] = 0"
| "le_value (c # cs) = uchar c + 256 * le_value cs"

text \<open>\<^verbatim>\<open>std::memcpy(&word, bytes, sizeof(word))\<close> on a machine of the given byte order.\<close>

definition memcpy_word :: "bool \<Rightarrow> string \<Rightarrow> uint64" where
  "memcpy_word big bytes = of_nat (le_value (if big then rev bytes else bytes))"

text \<open>The bytes of a word, lowest first.\<close>

definition word_byte :: "uint64 \<Rightarrow> nat \<Rightarrow> nat" where
  "word_byte w i = unat (take_bit 8 (drop_bit (8 * i) w))"

definition byteswap :: "uint64 \<Rightarrow> uint64" where
  "byteswap w = of_nat (le_value (map (\<lambda>i. to_char (word_byte w (7 - i))) [0..<8]))"

definition load_word :: "bool \<Rightarrow> string \<Rightarrow> uint64" where
  "load_word big bytes =
     (let word = memcpy_word big bytes in if big then byteswap word else word)"

section \<open>The byte-wise tests\<close>

definition byte_ones :: uint64 where
  "byte_ones = 0x0101010101010101"

definition bytes_below :: "uint64 \<Rightarrow> nat \<Rightarrow> uint64" where
  "bytes_below word n = (word - byte_ones * of_nat n) AND NOT word AND (byte_ones * 0x80)"

definition bytes_equal :: "uint64 \<Rightarrow> char \<Rightarrow> uint64" where
  "bytes_equal word c = bytes_below (word XOR (byte_ones * of_nat (uchar c))) 1"

definition has_byte :: "uint64 \<Rightarrow> char \<Rightarrow> bool" where
  "has_byte word c \<longleftrightarrow> bytes_equal word c \<noteq> 0"

text \<open>\<^verbatim>\<open>std::countr_zero\<close> of a 64-bit value.\<close>

definition countr_zero :: "uint64 \<Rightarrow> nat" where
  "countr_zero w = length (takeWhile (\<lambda>i. \<not> bit w i) [0..<64])"

definition first_byte_index :: "uint64 \<Rightarrow> nat" where
  "first_byte_index found = countr_zero found div 8"

definition has_non_ascii :: "uint64 \<Rightarrow> bool" where
  "has_non_ascii word \<longleftrightarrow> word AND (byte_ones * 0x80) \<noteq> 0"

section \<open>The scan\<close>

text \<open>
  \<^verbatim>\<open>any_word\<close>: eight bytes at a time with an overlapping last word; four to seven bytes
  as two overlapping halves; one to three bytes with the first, the middle and the last of them
  in the low bytes of a word whose other bytes are those of \<^verbatim>\<open>filler\<close>. The loop runs over
  the suffix of the text at \<^verbatim>\<open>at\<close>; \<^verbatim>\<open>text\<close> is the whole of it.
\<close>

definition memcpy_half :: "bool \<Rightarrow> string \<Rightarrow> 32 word" where
  "memcpy_half big bytes = of_nat (le_value (if big then rev bytes else bytes))"

fun any_word_loop :: "bool \<Rightarrow> string \<Rightarrow> (uint64 \<Rightarrow> bool) \<Rightarrow> string \<Rightarrow> bool" where
  "any_word_loop big text test rest =
     (if length rest \<ge> 8
      then if test (memcpy_word big (take 8 rest)) then True
           else any_word_loop big text test (drop 8 rest)
      else if rest = [] then False
      else test (memcpy_word big (drop (length text - 8) text)))"

declare any_word_loop.simps [simp del]

definition any_word :: "bool \<Rightarrow> string \<Rightarrow> uint64 \<Rightarrow> (uint64 \<Rightarrow> bool) \<Rightarrow> bool" where
  "any_word big text filler test =
     (let size = length text;
          byte = (\<lambda>at. of_nat (uchar (text ! at)) :: uint64)
      in if size \<ge> 8 then any_word_loop big text test text
         else if size \<ge> 4 then
           (let head = memcpy_half big (take 4 text);
                tail = memcpy_half big (drop (size - 4) text)
            in test (ucast head OR push_bit 32 (ucast tail)))
         else if size = 0 then False
         else test ((filler AND NOT 0xFFFFFF) OR byte 0 OR push_bit 8 (byte (size div 2))
                    OR push_bit 16 (byte (size - 1))))"

section \<open>Bytes of a word\<close>

lemma le_value_less: "le_value cs < 256 ^ length cs"
proof (induction cs)
  case (Cons c cs)
  have "uchar c < 256" by simp
  moreover from Cons have "256 * le_value cs + 256 \<le> 256 * 256 ^ length cs" by linarith
  ultimately have "uchar c + 256 * le_value cs < 256 * 256 ^ length cs" by linarith
  then show ?case by simp
qed simp

lemma le_value_append: "le_value (cs @ ds) = le_value cs + 256 ^ length cs * le_value ds"
  by (induction cs) (simp_all add: algebra_simps)

lemma not_bit_uchar: "8 \<le> n \<Longrightarrow> \<not> bit (uchar c) n"
proof -
  assume n: "8 \<le> n"
  have "take_bit 8 (uchar c) = uchar c"
    by (simp add: take_bit_nat_eq_self)
  then have "bit (uchar c) n \<longleftrightarrow> bit (take_bit 8 (uchar c)) n" by simp
  with n show ?thesis by (simp add: bit_take_bit_iff)
qed

text \<open>A bit of the value of some bytes is a bit of one of them.\<close>

lemma bit_le_value:
  "bit (le_value cs) n \<longleftrightarrow> n div 8 < length cs \<and> bit (uchar (cs ! (n div 8))) (n mod 8)"
proof (induction cs arbitrary: n)
  case Nil
  then show ?case by simp
next
  case (Cons c cs)
  have eq: "le_value (c # cs) = push_bit 8 (le_value cs) OR uchar c"
    using push_bit_or_nat [of "uchar c" 8 "le_value cs"] by simp
  show ?case
  proof (cases "n < 8")
    case True
    then show ?thesis by (simp only: eq) (auto simp: bit_simps)
  next
    case False
    then have "n div 8 = Suc ((n - 8) div 8)" and "n mod 8 = (n - 8) mod 8"
      by (auto simp: le_div_geq le_mod_geq)
    with False Cons.IH [of "n - 8"] not_bit_uchar [of n c] show ?thesis
      by (simp only: eq) (auto simp: bit_simps)
  qed
qed


lemma bit_memcpy_word:
  assumes "length bs = 8"
  shows "bit (memcpy_word big bs) n \<longleftrightarrow>
    n < 64 \<and> bit (uchar ((if big then rev bs else bs) ! (n div 8))) (n mod 8)"
  using assms by (auto simp: memcpy_word_def bit_of_nat_iff possible_bit_def bit_le_value)

lemma bit_memcpy_half:
  assumes "length bs = 4"
  shows "bit (memcpy_half big bs) n \<longleftrightarrow>
    n < 32 \<and> bit (uchar ((if big then rev bs else bs) ! (n div 8))) (n mod 8)"
  using assms by (auto simp: memcpy_half_def bit_of_nat_iff possible_bit_def bit_le_value)

text \<open>A byte is determined by its eight bits.\<close>

lemma word_byte_eqI:
  assumes "\<And>j. j < 8 \<Longrightarrow> bit w (8 * i + j) \<longleftrightarrow> bit (uchar c) j" and "i < 8"
  shows "word_byte w i = uchar c"
proof (rule bit_eqI)
  fix j
  show "bit (word_byte w i) j \<longleftrightarrow> bit (uchar c) j"
    using assms not_bit_uchar [of j c]
    by (cases "j < 8") (auto simp: word_byte_def bit_simps)
qed

lemma word_byte_memcpy_word:
  assumes "length bs = 8" "i < 8"
  shows "word_byte (memcpy_word big bs) i = uchar ((if big then rev bs else bs) ! i)"
  using assms by (intro word_byte_eqI) (auto simp: bit_memcpy_word)

lemma bit_byte_ones_80: "bit (byte_ones * 0x80) n \<longleftrightarrow> n < 64 \<and> n mod 8 = 7"
proof -
  have r: "replicate 8 (CHR 0x80) = [CHR 0x80, CHR 0x80, CHR 0x80, CHR 0x80,
      CHR 0x80, CHR 0x80, CHR 0x80, CHR 0x80]"
    by (simp add: numeral_eq_Suc)
  have e: "byte_ones * 0x80 = memcpy_word False (replicate 8 (CHR 0x80))"
    unfolding r by (simp add: byte_ones_def memcpy_word_def)
  have b: "bit (128 :: nat) m \<longleftrightarrow> m = 7" for m
    using bit_exp_iff [where 'a = nat, of 7 m] by (simp add: possible_bit_def)
  have c: "uchar (CHR 0x80) = 128" by simp
  have "bit (byte_ones * 0x80) n \<longleftrightarrow>
      n < 64 \<and> bit (uchar (replicate 8 (CHR 0x80) ! (n div 8))) (n mod 8)"
    unfolding e by (simp only: bit_memcpy_word length_replicate if_False)
  also have "\<dots> \<longleftrightarrow> n < 64 \<and> n mod 8 = 7"
  proof (cases "n < 64")
    case True
    then have "replicate 8 (CHR 0x80) ! (n div 8) = CHR 0x80"
      by (intro nth_replicate) simp
    then show ?thesis by (simp only: b c)
  qed simp
  finally show ?thesis .
qed

theorem has_non_ascii_iff: "has_non_ascii w \<longleftrightarrow> (\<exists>i<8. 0x80 \<le> word_byte w i)"
proof -
  have top: "0x80 \<le> word_byte w i \<longleftrightarrow> bit w (8 * i + 7)" if "i < 8" for i
  proof -
    have "word_byte w i < 2 ^ 8"
      by (simp only: word_byte_def unsigned_take_bit_eq take_bit_nat_less_exp)
    then have "bit (word_byte w i) 7 \<longleftrightarrow> 0x80 \<le> word_byte w i"
      by (intro top_bit_nat) simp
    with that show ?thesis by (simp add: word_byte_def bit_simps)
  qed
  have "has_non_ascii w \<longleftrightarrow> (\<exists>n<64. bit (w AND (byte_ones * 0x80)) n)"
    by (simp add: has_non_ascii_def bit_eq_iff)
  also have "\<dots> \<longleftrightarrow> (\<exists>n<64. n mod 8 = 7 \<and> bit w n)"
    by (auto simp only: bit_and_iff bit_byte_ones_80)
  also have "\<dots> \<longleftrightarrow> (\<exists>i<8. bit w (8 * i + 7))"
  proof
    assume "\<exists>n<64. n mod 8 = 7 \<and> bit w n"
    then obtain n where n: "n < 64" "n mod 8 = 7" "bit w n" by blast
    then have "8 * (n div 8) + 7 = n" "n div 8 < 8" by (presburger, simp)
    with n show "\<exists>i<8. bit w (8 * i + 7)" by metis
  next
    assume "\<exists>i<8. bit w (8 * i + 7)"
    then obtain i where "i < 8" "bit w (8 * i + 7)" by blast
    then show "\<exists>n<64. n mod 8 = 7 \<and> bit w n"
      by (intro exI [of _ "8 * i + 7"]) auto
  qed
  finally show ?thesis using top by auto
qed

text \<open>\<^verbatim>\<open>load_word\<close> reads the same word on both kinds of machine.\<close>

lemma load_word_eq:
  assumes "length bs = 8"
  shows "load_word big bs = memcpy_word False bs"
proof (cases big)
  case True
  have "map (\<lambda>i. to_char (word_byte (memcpy_word True bs) (7 - i))) [0..<8] = bs"
    using assms by (intro nth_equalityI) (auto simp: word_byte_memcpy_word rev_nth)
  with True show ?thesis
    by (simp add: load_word_def byteswap_def memcpy_word_def)
qed (simp add: load_word_def)

section \<open>The exactness of the subtraction trick\<close>

text \<open>
  The subtraction is studied on \<^typ>\<open>int\<close>, one byte after the other: up to the first byte
  below \<^verbatim>\<open>n\<close> no byte borrows from the next.
\<close>

fun ones_value :: "nat \<Rightarrow> int" where
  "ones_value 0 = 0"
| "ones_value (Suc k) = 1 + 256 * ones_value k"

lemma bit_int_low:
  assumes "m < 8"
  shows "bit (a + 256 * (z::int)) m \<longleftrightarrow> bit (a mod 256) m"
proof -
  have "bit (a + 256 * z) m \<longleftrightarrow> bit (take_bit 8 (a + 256 * z)) m"
    using assms by (simp add: bit_take_bit_iff)
  then show ?thesis by (simp add: take_bit_eq_mod)
qed

lemma bit_int_high:
  assumes "0 \<le> a" "a < 256"
  shows "bit (a + 256 * (z::int)) (8 + m) \<longleftrightarrow> bit z m"
proof -
  have "drop_bit 8 (a + 256 * z) = z"
    using assms by (simp add: drop_bit_eq_div)
  then show ?thesis by (metis bit_drop_bit_eq comp_apply)
qed

lemma borrow_bit:
  assumes "i < length bs" "\<forall>j<i. n \<le> uchar (bs ! j)" "n \<le> 128"
  shows "bit (int (le_value bs) - int n * ones_value (length bs)) (8 * i + 7)
           \<and> uchar (bs ! i) < 128 \<longleftrightarrow> uchar (bs ! i) < n"
  using assms
proof (induction i arbitrary: bs)
  case 0
  then obtain b cs where bs: "bs = b # cs" by (cases bs) auto
  let ?a = "int (uchar b) - int n" and ?z = "int (le_value cs) - int n * ones_value (length cs)"
  have split: "int (le_value bs) - int n * ones_value (length bs) = ?a + 256 * ?z"
    by (simp add: bs algebra_simps)
  have "bit (?a mod 256) 7 \<longleftrightarrow> 128 \<le> nat (?a mod 256)"
    using top_bit_nat [of "nat (?a mod 256)"] by (simp add: bit_nat_iff)
  moreover have "uchar b < 128 \<Longrightarrow> 128 \<le> nat (?a mod 256) \<longleftrightarrow> uchar b < n"
  proof (cases "uchar b < n")
    case True
    with \<open>n \<le> 128\<close> have "(?a + 256) mod 256 = ?a + 256"
      by (intro mod_pos_pos_trivial) linarith+
    with True \<open>n \<le> 128\<close> show ?thesis by simp
  qed simp
  moreover have "bit (int (le_value bs) - int n * ones_value (length bs)) 7 \<longleftrightarrow>
      bit (?a mod 256) 7"
    by (simp only: split) (rule bit_int_low, simp)
  ultimately show ?case
    using \<open>n \<le> 128\<close> by (simp only: bs nth_Cons_0 mult_0_right add_0) linarith
next
  case (Suc i)
  then obtain b cs where bs: "bs = b # cs" by (cases bs) auto
  let ?a = "int (uchar b) - int n" and ?z = "int (le_value cs) - int n * ones_value (length cs)"
  have split: "int (le_value bs) - int n * ones_value (length bs) = ?a + 256 * ?z"
    by (simp add: bs algebra_simps)
  have "n \<le> uchar b" using Suc.prems(2) by (auto simp: bs)
  moreover have "uchar b < 256" by simp
  ultimately have "bit (?a + 256 * ?z) (8 + (8 * i + 7)) \<longleftrightarrow> bit ?z (8 * i + 7)"
    by (intro bit_int_high) linarith+
  moreover have "bit ?z (8 * i + 7) \<and> uchar (cs ! i) < 128 \<longleftrightarrow> uchar (cs ! i) < n"
    using Suc.prems by (intro Suc.IH) (auto simp: bs)
  moreover have "8 * Suc i + 7 = 8 + (8 * i + 7)" by simp
  ultimately show ?case unfolding split by (simp only: bs nth_Cons_Suc)
qed

lemma ones_value_8: "ones_value 8 = 0x0101010101010101"
  by (simp add: eval_nat_numeral)

lemma bit_bytes_below:
  assumes bs: "length bs = 8" and i: "i < 8" and pre: "\<forall>j<i. n \<le> uchar (bs ! j)"
    and n: "n \<le> 128"
  shows "bit (bytes_below (memcpy_word False bs) n) (8 * i + 7) \<longleftrightarrow> uchar (bs ! i) < n"
proof -
  let ?w = "memcpy_word False bs"
  have "?w - byte_ones * of_nat n = word_of_int (int (le_value bs) - int n * ones_value 8)"
    by (simp add: memcpy_word_def byte_ones_def ones_value_8)
  then have "bit (?w - byte_ones * of_nat n) (8 * i + 7) \<longleftrightarrow>
      bit (int (le_value bs) - int n * ones_value (length bs)) (8 * i + 7)"
    using i bs by (simp only: bit_word_of_int_iff) simp
  moreover have "bit ?w (8 * i + 7) \<longleftrightarrow> 128 \<le> uchar (bs ! i)"
    using i bs top_bit_nat [of "uchar (bs ! i)"] by (simp add: bit_memcpy_word)
  ultimately show ?thesis
    using borrow_bit [of i bs n] assms
    by (auto simp: bytes_below_def bit_and_iff bit_not_iff bit_byte_ones_80)
qed

lemma bit_bytes_below_top:
  "bit (bytes_below w n) m \<Longrightarrow> m < 64 \<and> m mod 8 = 7"
  by (simp add: bytes_below_def bit_and_iff bit_byte_ones_80)

lemma bytes_below_memcpy_zero_iff:
  assumes bs: "length bs = 8" and n: "n \<le> 128"
  shows "bytes_below (memcpy_word False bs) n = 0 \<longleftrightarrow> (\<forall>c\<in>set bs. n \<le> uchar c)"
proof
  assume zero: "bytes_below (memcpy_word False bs) n = 0"
  have "n \<le> uchar (bs ! i)" if "i < 8" for i
    using that
  proof (induction i rule: less_induct)
    case (less i)
    with bit_bytes_below [OF bs less.prems _ n] show ?case
      by (simp add: zero)
  qed
  with bs show "\<forall>c\<in>set bs. n \<le> uchar c" by (auto simp: in_set_conv_nth)
next
  assume all: "\<forall>c\<in>set bs. n \<le> uchar c"
  have "\<not> bit (bytes_below (memcpy_word False bs) n) m" for m
  proof
    assume m: "bit (bytes_below (memcpy_word False bs) n) m"
    have "m < 64" "m mod 8 = 7"
      using bit_bytes_below_top [OF m] by auto
    then have m8: "8 * (m div 8) + 7 = m" by presburger
    from \<open>m < 64\<close> have "m div 8 < 8" by simp
    moreover from this have "\<forall>j\<le>m div 8. n \<le> uchar (bs ! j)"
      using all bs by (metis le_trans less_imp_le_nat linorder_not_less nth_mem order_le_less_trans)
    ultimately have "\<not> bit (bytes_below (memcpy_word False bs) n) (8 * (m div 8) + 7)"
      using bit_bytes_below [OF bs _ _ n, of "m div 8"] by auto
    with m m8 show False by simp
  qed
  then show "bytes_below (memcpy_word False bs) n = 0"
    by (intro bit_word_eqI) simp
qed

lemma countr_zero_eqI:
  assumes "bit w k" "\<And>i. i < k \<Longrightarrow> \<not> bit w i"
  shows "countr_zero w = k"
proof -
  have k: "k < 64" using assms(1) bit_imp_le_length [of w k] by simp
  have "takeWhile (\<lambda>i. \<not> bit w i) [0..<64] = take k [0..<64]"
    using assms k by (intro takeWhile_eq_take_P_nth) auto
  with k show ?thesis by (simp add: countr_zero_def)
qed

text \<open>
  The first byte below \<^verbatim>\<open>n\<close> of eight bytes. On a machine of either byte order,
  \<^verbatim>\<open>bytes_below\<close> of the loaded word is nonzero exactly when one of the bytes is below
  \<^verbatim>\<open>n\<close> (at most 0x80), and then \<^verbatim>\<open>first_byte_index\<close> is the index of the first
  of them, whatever false marks the borrows leave behind it.
\<close>

theorem first_byte_index_bytes_below:
  assumes bs: "length bs = 8" and n: "n \<le> 128" and k: "k < 8"
    and hit: "uchar (bs ! k) < n" and first: "\<forall>j<k. n \<le> uchar (bs ! j)"
  shows "bytes_below (load_word big bs) n \<noteq> 0
    \<and> first_byte_index (bytes_below (load_word big bs) n) = k"
proof -
  let ?m = "bytes_below (memcpy_word False bs) n"
  have set: "bit ?m (8 * k + 7)"
    using bit_bytes_below [OF bs k first n] hit by simp
  have unset: "\<not> bit ?m m" if m: "m < 8 * k + 7" for m
  proof
    assume b: "bit ?m m"
    then have "m mod 8 = 7" using bit_bytes_below_top by blast
    then have m8: "8 * (m div 8) + 7 = m" by presburger
    with m have "m div 8 < k" by linarith
    then have "\<not> bit ?m (8 * (m div 8) + 7)"
      using bit_bytes_below [OF bs _ _ n, of "m div 8"] first k by auto
    with b m8 show False by simp
  qed
  have "countr_zero ?m = 8 * k + 7" by (rule countr_zero_eqI [OF set unset])
  then have "first_byte_index ?m = k" by (simp add: first_byte_index_def)
  moreover have "?m \<noteq> 0" using set by auto
  ultimately show ?thesis by (simp add: load_word_eq [OF bs])
qed

theorem first_byte_index_bytes_below_witness:
  "first_byte_index (bytes_below (load_word True ''abc\<newline>d e '') 0x20) = 3"
proof -
  have "bytes_below (load_word True ''abc\<newline>d e '') 0x20 \<noteq> 0
    \<and> first_byte_index (bytes_below (load_word True ''abc\<newline>d e '') 0x20) = 3"
    by (rule first_byte_index_bytes_below) (simp_all add: less_Suc_eq numeral_3_eq_3)
  then show ?thesis by simp
qed

section \<open>Byte-wise tests\<close>

lemma word_byte_halves:
  assumes "length h = 4" "length t = 4" "i < 8"
  shows "word_byte (ucast (memcpy_half big h) OR push_bit 32 (ucast (memcpy_half big t))) i
    = uchar (((if big then rev h else h) @ (if big then rev t else t)) ! i)"
proof (rule word_byte_eqI)
  fix j :: nat assume j: "j < 8"
  show "bit (ucast (memcpy_half big h) OR push_bit 32 (ucast (memcpy_half big t)) :: uint64)
      (8 * i + j) \<longleftrightarrow>
    bit (uchar (((if big then rev h else h) @ (if big then rev t else t)) ! i)) j"
  proof (cases "i < 4")
    case True
    with assms j show ?thesis
      by (simp add: bit_or_iff bit_push_bit_iff bit_unsigned_iff bit_memcpy_half nth_append)
  next
    case False
    then obtain k where k: "i = 4 + k" by (metis le_Suc_ex not_less)
    with assms j show ?thesis
      by (simp add: bit_or_iff bit_push_bit_iff bit_unsigned_iff bit_memcpy_half nth_append)
  qed
qed (rule assms(3))

text \<open>
  What \<^verbatim>\<open>any_word\<close> asks of its test: it holds for a word when it holds for one of its
  bytes, and never for the bytes of the filler.
\<close>

locale bytewise_test =
  fixes test :: "uint64 \<Rightarrow> bool" and hit :: "nat \<Rightarrow> bool" and filler :: uint64
  assumes test_iff: "test w \<longleftrightarrow> (\<exists>i<8. hit (word_byte w i))"
    and filler_misses: "i < 8 \<Longrightarrow> \<not> hit (word_byte filler i)"
begin

lemma test_memcpy:
  assumes "length bs = 8"
  shows "test (memcpy_word big bs) \<longleftrightarrow> (\<exists>c\<in>set bs. hit (uchar c))"
proof -
  have "test (memcpy_word big bs) \<longleftrightarrow> (\<exists>i<8. hit (uchar ((if big then rev bs else bs) ! i)))"
    using assms by (auto simp: test_iff word_byte_memcpy_word)
  also have "\<dots> \<longleftrightarrow> (\<exists>c\<in>set (if big then rev bs else bs). hit (uchar c))"
    using assms by (auto simp: Bex_def in_set_conv_nth)
  finally show ?thesis by auto
qed

lemma any_word_loop_iff:
  assumes "text = front @ rest" "length text \<ge> 8" "\<forall>c\<in>set front. \<not> hit (uchar c)"
  shows "any_word_loop big text test rest \<longleftrightarrow> (\<exists>c\<in>set rest. hit (uchar c))"
  using assms
proof (induction rest arbitrary: front rule: length_induct)
  case (1 rest)
  consider (long) "length rest \<ge> 8" | (empty) "rest = []" | (last) "rest \<noteq> []" "length rest < 8"
    by fastforce
  then show ?case
  proof cases
    case long
    have parts: "set rest = set (take 8 rest) \<union> set (drop 8 rest)"
      by (metis append_take_drop_id set_append)
    have step: "any_word_loop big text test rest \<longleftrightarrow>
        test (memcpy_word big (take 8 rest)) \<or> any_word_loop big text test (drop 8 rest)"
      using long by (subst any_word_loop.simps) simp
    show ?thesis
    proof (cases "\<exists>c\<in>set (take 8 rest). hit (uchar c)")
      case True
      with long parts show ?thesis by (auto simp: step test_memcpy)
    next
      case False
      have "any_word_loop big text test (drop 8 rest) \<longleftrightarrow> (\<exists>c\<in>set (drop 8 rest). hit (uchar c))"
        using 1 long False
        by (intro "1.IH" [rule_format, of _ "front @ take 8 rest"]) auto
      with long parts False show ?thesis by (auto simp: step test_memcpy)
    qed
  next
    case empty
    then show ?thesis by (subst any_word_loop.simps) simp
  next
    case last
    let ?last8 = "drop (length text - 8) text"
    have "set ?last8 \<subseteq> set front \<union> set rest" and "set rest \<subseteq> set ?last8"
      using 1 last by (auto simp: dest: in_set_dropD)
    then have "(\<exists>c\<in>set ?last8. hit (uchar c)) \<longleftrightarrow> (\<exists>c\<in>set rest. hit (uchar c))"
      using 1 by blast
    moreover have "any_word_loop big text test rest = test (memcpy_word big ?last8)"
      using last by (subst any_word_loop.simps) simp
    ultimately show ?thesis using "1.prems"(2) by (simp add: test_memcpy)
  qed
qed

lemma bit_short_word:
  assumes "i < 8" "j < 8"
  shows "bit ((filler AND NOT 0xFFFFFF) OR of_nat (uchar a) OR push_bit 8 (of_nat (uchar b))
      OR push_bit 16 (of_nat (uchar c)) :: uint64) (8 * i + j) \<longleftrightarrow>
    (if i = 0 then bit (uchar a) j else if i = 1 then bit (uchar b) j
     else if i = 2 then bit (uchar c) j else bit filler (8 * i + j))"
proof -
  define low where "low = (0xFFFFFF :: uint64)"
  have m: "bit low n \<longleftrightarrow> n < 24" for n
    unfolding low_def
    using bit_mask_iff [where 'a = "64 word", of 24 n] by (simp add: mask_eq_exp_minus_1) auto
  consider "i = 0" | "i = 1" | "i = 2" | "3 \<le> i" by linarith
  then show ?thesis
    unfolding low_def [symmetric] using assms not_bit_uchar
    by cases (auto simp: bit_and_iff bit_or_iff bit_not_iff bit_push_bit_iff m bit_of_nat_iff
        possible_bit_def)
qed

lemma word_byte_short:
  assumes "i < 8"
  shows "word_byte ((filler AND NOT 0xFFFFFF) OR of_nat (uchar a) OR push_bit 8 (of_nat (uchar b))
      OR push_bit 16 (of_nat (uchar c))) i =
    (if i = 0 then uchar a else if i = 1 then uchar b else if i = 2 then uchar c
     else word_byte filler i)" (is "word_byte ?w i = _")
proof -
  have bits: "bit ?w (8 * i + j) \<longleftrightarrow>
      (if i = 0 then bit (uchar a) j else if i = 1 then bit (uchar b) j
       else if i = 2 then bit (uchar c) j else bit filler (8 * i + j))" if "j < 8" for j
    by (rule bit_short_word [OF assms that])
  show ?thesis
  proof (cases "i < 3")
    case True
    have "word_byte ?w i = uchar (if i = 0 then a else if i = 1 then b else c)"
      using assms by (intro word_byte_eqI) (simp_all only: bits, use True in auto)
    with True show ?thesis by auto
  next
    case False
    then have "i \<noteq> 0" "i \<noteq> 1" "i \<noteq> 2" by auto
    with bits have "bit ?w (8 * i + j) \<longleftrightarrow> bit filler (8 * i + j)" if "j < 8" for j
      using that by (simp only: if_False)
    then have "take_bit 8 (drop_bit (8 * i) ?w) = take_bit 8 (drop_bit (8 * i) filler)"
      by (intro bit_word_eqI) (auto simp only: bit_take_bit_iff bit_drop_bit_eq comp_def)
    with False show ?thesis by (simp add: word_byte_def)
  qed
qed

lemma any_word_iff: "any_word big text filler test \<longleftrightarrow> (\<exists>c\<in>set text. hit (uchar c))"
proof -
  consider (word) "8 \<le> length text" | (halves) "4 \<le> length text" "length text < 8"
    | (few) "0 < length text" "length text < 4" | (none) "text = []"
    by fastforce
  then show ?thesis
  proof cases
    case word
    then show ?thesis using any_word_loop_iff [of "text" "[]" "text" big] by (simp add: any_word_def)
  next
    case halves
    let ?h = "take 4 text" and ?t = "drop (length text - 4) text"
    let ?bs = "(if big then rev ?h else ?h) @ (if big then rev ?t else ?t)"
    let ?w = "ucast (memcpy_half big ?h) OR push_bit 32 (ucast (memcpy_half big ?t)) :: uint64"
    have len: "length ?h = 4" "length ?t = 4" "length ?bs = 8" using halves by auto
    have "word_byte ?w i = uchar (?bs ! i)" if "i < 8" for i
      using word_byte_halves [OF len(1,2) that] .
    then have "test ?w \<longleftrightarrow> (\<exists>c\<in>set ?bs. hit (uchar c))"
      unfolding test_iff using len(3) by (metis in_set_conv_nth)
    moreover have "set ?bs = set text"
    proof -
      have "set (drop 4 text) \<subseteq> set ?t"
        using halves by (intro set_drop_subset_set_drop) linarith
      moreover have "set text = set ?h \<union> set (drop 4 text)" "set ?t \<subseteq> set text"
        by (metis append_take_drop_id set_append, rule set_drop_subset)
      ultimately show ?thesis by auto
    qed
    ultimately show ?thesis using halves by (simp add: any_word_def Let_def)
  next
    case few
    let ?a = "text ! 0" and ?b = "text ! (length text div 2)" and ?c = "text ! (length text - 1)"
    let ?w = "(filler AND NOT 0xFFFFFF) OR of_nat (uchar ?a) OR push_bit 8 (of_nat (uchar ?b))
        OR push_bit 16 (of_nat (uchar ?c)) :: uint64"
    have bytes: "word_byte ?w 0 = uchar ?a" "word_byte ?w 1 = uchar ?b" "word_byte ?w 2 = uchar ?c"
      by (simp_all only: word_byte_short) simp_all
    have rest: "word_byte ?w i = word_byte filler i" if "3 \<le> i" "i < 8" for i
      using that by (simp only: word_byte_short) simp
    have idx: "i < 8 \<longleftrightarrow> i = 0 \<or> i = 1 \<or> i = 2 \<or> 3 \<le> i \<and> i < (8::nat)" for i by linarith
    have "test ?w \<longleftrightarrow> hit (uchar ?a) \<or> hit (uchar ?b) \<or> hit (uchar ?c)"
      unfolding test_iff using bytes rest filler_misses idx by metis
    moreover have "set text = {?a, ?b, ?c}"
    proof -
      have "length text = 1 \<or> length text = 2 \<or> length text = 3" using few by linarith
      then consider x where "text = [x]" | x y where "text = [x, y]" | x y z where "text = [x, y, z]"
        by (auto simp: length_Suc_conv numeral_eq_Suc)
      then show ?thesis by cases auto
    qed
    ultimately show ?thesis using few by (simp add: any_word_def Let_def)
  next
    case none
    then show ?thesis by (simp add: any_word_def)
  qed
qed

end

text \<open>The two tests of the code.\<close>

interpretation non_ascii: bytewise_test has_non_ascii "\<lambda>b. 0x80 \<le> b" 0
  by unfold_locales (auto simp: has_non_ascii_iff word_byte_def)

lemma bytes_of_word: "memcpy_word False (map (\<lambda>i. to_char (word_byte w i)) [0..<8]) = w"
proof (rule bit_word_eqI)
  fix n assume "n < LENGTH(64)"
  then have n: "n < 64" by simp
  then have "n div 8 < 8" "n mod 8 < 8" "8 * (n div 8) + n mod 8 = n" by simp_all
  with n show "bit (memcpy_word False (map (\<lambda>i. to_char (word_byte w i)) [0..<8])) n \<longleftrightarrow> bit w n"
    by (simp add: bit_memcpy_word bit_take_bit_iff word_byte_def bit_simps
        flip: take_bit_eq_mod [of 8, simplified]) (use n in simp)
qed

lemma bytes_below_zero_iff:
  assumes "n \<le> 128"
  shows "bytes_below w n = 0 \<longleftrightarrow> (\<forall>i<8. n \<le> word_byte w i)"
proof -
  let ?bs = "map (\<lambda>i. to_char (word_byte w i)) [0..<8]"
  have "word_byte w i < 256" for i
    using take_bit_nat_less_exp [of 8 "unat (drop_bit (8 * i) w)"]
    by (simp add: word_byte_def unsigned_take_bit_eq)
  then have "(\<forall>c\<in>set ?bs. n \<le> uchar c) \<longleftrightarrow> (\<forall>i<8. n \<le> word_byte w i)" by auto
  with bytes_below_memcpy_zero_iff [OF _ assms, of ?bs] show ?thesis
    by (simp only: bytes_of_word) simp
qed

lemma word_byte_xor_repeat:
  assumes "i < 8"
  shows "word_byte (w XOR (byte_ones * of_nat (uchar c))) i = word_byte w i XOR uchar c"
proof -
  have r: "replicate 8 c = [c, c, c, c, c, c, c, c]"
    by (simp add: numeral_eq_Suc)
  have e: "byte_ones * of_nat (uchar c) = memcpy_word False (replicate 8 c)"
    unfolding r by (simp add: byte_ones_def memcpy_word_def algebra_simps)
  have "bit (memcpy_word False (replicate 8 c)) (8 * i + j) \<longleftrightarrow> bit (uchar c) j" if "j < 8" for j
    using assms that by (simp add: bit_memcpy_word)
  then show ?thesis
    unfolding e word_byte_def using assms not_bit_uchar
    by (intro bit_eqI) (auto simp: bit_simps)
qed

lemma has_byte_iff: "has_byte w c \<longleftrightarrow> (\<exists>i<8. word_byte w i = uchar c)"
proof -
  have "has_byte w c \<longleftrightarrow> (\<exists>i<8. word_byte (w XOR (byte_ones * of_nat (uchar c))) i = 0)"
    by (auto simp: has_byte_def bytes_equal_def bytes_below_zero_iff Suc_le_eq)
  also have "\<dots> \<longleftrightarrow> (\<exists>i<8. word_byte w i = uchar c)"
    by (auto simp: word_byte_xor_repeat) (metis xor.left_neutral xor.assoc xor_self_eq)+
  finally show ?thesis .
qed

interpretation backslash: bytewise_test "\<lambda>w. has_byte w CHR 0x5C" "\<lambda>b. b = 0x5C" 0
  by unfold_locales (auto simp: has_byte_iff word_byte_def)

end
