(* ===== verification/Utf8.thy ===== *)
theory Utf8
  imports Swar
begin

unbundle bit_operations_syntax

text \<open>
  The UTF-8 decoder of \<^verbatim>\<open>include/kotatsu/support/utf8.h\<close>. A code point
  (\<^verbatim>\<open>char32_t\<close>) is a \<^typ>\<open>nat\<close>: the decoder never builds one past 0x1FFFFF, so nothing
  wraps around. The loops over an offset \<^verbatim>\<open>at\<close> run over the suffix of the text there.
\<close>

section \<open>The decoder\<close>

record UTF8Sequence =
  code_point :: nat
  seq_length :: nat
  seq_valid :: bool

text \<open>
  The loop of \<^verbatim>\<open>decode_sequence\<close>: takes continuation bytes from the rest of the text
  while fewer than \<^verbatim>\<open>need\<close> bytes are taken and they lie in the range; the range narrows
  the first of them only. Gives the code point and the length so far.
\<close>

fun continue_sequence :: "nat \<Rightarrow> nat \<Rightarrow> nat \<Rightarrow> nat \<Rightarrow> nat \<Rightarrow> string \<Rightarrow> nat \<times> nat" where
  "continue_sequence need len cp low high [] = (cp, len)"
| "continue_sequence need len cp low high (next # rest) =
     (if len < need
      then if uchar next < low \<or> uchar next > high then (cp, len)
           else continue_sequence need (len + 1)
                  (push_bit 6 cp OR (uchar next AND 0x3F)) 0x80 0xBF rest
      else (cp, len))"

text \<open>
  The bytes the lead asks for, the bits of the code point it holds and the range of the byte
  after it, or nothing for a byte that starts no sequence.
\<close>

definition lead_range :: "nat \<Rightarrow> bool \<Rightarrow> (nat \<times> nat \<times> nat \<times> nat) option" where
  "lead_range lead surrogates =
     (if 0xC2 \<le> lead \<and> lead \<le> 0xDF then Some (2, lead AND 0x1F, 0x80, 0xBF)
      else if 0xE0 \<le> lead \<and> lead \<le> 0xEF then
        Some (3, lead AND 0x0F, if lead = 0xE0 then 0xA0 else 0x80,
              if lead = 0xED \<and> \<not> surrogates then 0x9F else 0xBF)
      else if 0xF0 \<le> lead \<and> lead \<le> 0xF4 then
        Some (4, lead AND 0x07, if lead = 0xF0 then 0x90 else 0x80,
              if lead = 0xF4 then 0x8F else 0xBF)
      else None)"

text \<open>
  \<^verbatim>\<open>detail::decode_sequence\<close>. Its text is not empty; the equation for the empty text,
  which the code's precondition excludes, only makes the function total.
\<close>

fun decode_sequence :: "string \<Rightarrow> bool \<Rightarrow> UTF8Sequence" where
  "decode_sequence [] surrogates = \<lparr>code_point = 0xFFFD, seq_length = 0, seq_valid = False\<rparr>"
| "decode_sequence (c # rest) surrogates =
     (if uchar c < 0x80 then \<lparr>code_point = uchar c, seq_length = 1, seq_valid = True\<rparr>
      else case lead_range (uchar c) surrogates of
        None \<Rightarrow> \<lparr>code_point = 0xFFFD, seq_length = 1, seq_valid = False\<rparr>
      | Some (need, cp, low, high) \<Rightarrow>
          (let (cp', len) = continue_sequence need 1 cp low high rest
           in if len \<noteq> need
              then \<lparr>code_point = 0xFFFD, seq_length = len, seq_valid = False\<rparr>
              else \<lparr>code_point = cp', seq_length = len, seq_valid = True\<rparr>))"

definition decode_utf8 :: "string \<Rightarrow> UTF8Sequence" where
  "decode_utf8 text = decode_sequence text False"

lemma continue_sequence_length:
  "len \<le> snd (continue_sequence need len cp low high rest)
   \<and> snd (continue_sequence need len cp low high rest) \<le> len + length rest
   \<and> (len \<le> need \<longrightarrow> snd (continue_sequence need len cp low high rest) \<le> need)"
  by (induction need len cp low high rest rule: continue_sequence.induct) auto

lemma lead_range_need:
  "lead_range lead s = Some (need, cp, low, high) \<Longrightarrow> 2 \<le> need \<and> need \<le> 4"
  by (auto simp: lead_range_def split: if_splits)

lemma seq_length_multi:
  assumes "\<not> uchar c < 0x80" "lead_range (uchar c) s = Some (need, cp, low, high)"
  shows "seq_length (decode_sequence (c # rest) s) = snd (continue_sequence need 1 cp low high rest)"
  using assms by (simp add: Let_def split: prod.splits)

lemma decode_sequence_length:
  assumes "text \<noteq> []"
  shows "1 \<le> seq_length (decode_sequence text s)
     \<and> seq_length (decode_sequence text s) \<le> length text
     \<and> seq_length (decode_sequence text s) \<le> 4"
proof -
  obtain c rest where t: "text = c # rest" using assms by (cases "text") auto
  show ?thesis
  proof (cases "uchar c < 0x80 \<or> lead_range (uchar c) s = None")
    case True
    then show ?thesis by (auto simp: t)
  next
    case False
    then obtain need cp low high where r: "lead_range (uchar c) s = Some (need, cp, low, high)"
      by auto
    then have "seq_length (decode_sequence text s) = snd (continue_sequence need 1 cp low high rest)"
      using False seq_length_multi [OF _ r] by (simp add: t del: decode_sequence.simps)
    with continue_sequence_length [of 1 need cp low high rest] lead_range_need [OF r] show ?thesis
      by (simp add: t)
  qed
qed

lemma decode_utf8_length:
  "text \<noteq> [] \<Longrightarrow> 1 \<le> seq_length (decode_utf8 text)
     \<and> seq_length (decode_utf8 text) \<le> length text"
  using decode_sequence_length by (simp add: decode_utf8_def)

section \<open>Validation and repair\<close>

function is_utf8_loop :: "bool \<Rightarrow> string \<Rightarrow> bool" where
  "is_utf8_loop big rest =
     (if rest = [] then True
      else if length rest \<ge> 8 \<and> \<not> has_non_ascii (memcpy_word big (take 8 rest))
      then is_utf8_loop big (drop 8 rest)
      else let sequence = decode_utf8 rest in
           if \<not> seq_valid sequence then False
           else is_utf8_loop big (drop (seq_length sequence) rest))"
  by pat_completeness auto
termination
  by (relation "measure (\<lambda>(big, rest). length rest)")
    (use decode_utf8_length in \<open>auto simp: Suc_le_eq\<close>)

declare is_utf8_loop.simps [simp del]

definition is_utf8 :: "bool \<Rightarrow> string \<Rightarrow> bool" where
  "is_utf8 big text =
     (if \<not> any_word big text 0 has_non_ascii then True else is_utf8_loop big text)"

function replace_invalid_utf8 :: "string \<Rightarrow> string" where
  "replace_invalid_utf8 rest =
     (if rest = [] then []
      else let sequence = decode_utf8 rest in
           (if seq_valid sequence then take (seq_length sequence) rest
            else [CHR 0xEF, CHR 0xBF, CHR 0xBD])
           @ replace_invalid_utf8 (drop (seq_length sequence) rest))"
  by pat_completeness auto
termination
  by (relation "measure length") (use decode_utf8_length in \<open>auto simp: Suc_le_eq\<close>)

declare replace_invalid_utf8.simps [simp del]

section \<open>The encoding the decoder inverts\<close>

text \<open>
  The bytes of a code point: the reference for the decoder, and what \<^verbatim>\<open>from_utf16\<close>
  writes for one (\<^verbatim>\<open>put\<close> in \<^verbatim>\<open>support/utf16.h\<close>).
\<close>

definition encode_code_point :: "nat \<Rightarrow> string" where
  "encode_code_point cp =
     (if cp < 0x80 then [to_char cp]
      else if cp < 0x800 then
        [to_char (0xC0 OR drop_bit 6 cp), to_char (0x80 OR (cp AND 0x3F))]
      else if cp < 0x10000 then
        [to_char (0xE0 OR drop_bit 12 cp), to_char (0x80 OR (drop_bit 6 cp AND 0x3F)),
         to_char (0x80 OR (cp AND 0x3F))]
      else
        [to_char (0xF0 OR drop_bit 18 cp), to_char (0x80 OR (drop_bit 12 cp AND 0x3F)),
         to_char (0x80 OR (drop_bit 6 cp AND 0x3F)), to_char (0x80 OR (cp AND 0x3F))])"

text \<open>A Unicode scalar value, or a surrogate too when those are let through (WTF-8).\<close>

definition is_code_point :: "bool \<Rightarrow> nat \<Rightarrow> bool" where
  "is_code_point surrogates cp \<longleftrightarrow>
     cp \<le> 0x10FFFF \<and> (surrogates \<or> cp < 0xD800 \<or> 0xDFFF < cp)"

text \<open>The same bytes as arithmetic.\<close>

lemma or_mark:
  "b < 64 \<Longrightarrow> (0x80::nat) OR b = 0x80 + b" "b < 32 \<Longrightarrow> (0xC0::nat) OR b = 0xC0 + b"
  "b < 16 \<Longrightarrow> (0xE0::nat) OR b = 0xE0 + b" "b < 8 \<Longrightarrow> (0xF0::nat) OR b = 0xF0 + b"
  using or_disjoint_nat [of b 6 "0x80"] or_disjoint_nat [of b 5 "0xC0"]
    or_disjoint_nat [of b 4 "0xE0"] or_disjoint_nat [of b 3 "0xF0"]
  by simp_all

lemma encode_code_point_arith:
  assumes "cp \<le> 0x10FFFF"
  shows "encode_code_point cp =
    (if cp < 0x80 then [to_char cp]
     else if cp < 0x800 then [to_char (0xC0 + cp div 64), to_char (0x80 + cp mod 64)]
     else if cp < 0x10000 then
       [to_char (0xE0 + cp div 4096), to_char (0x80 + cp div 64 mod 64), to_char (0x80 + cp mod 64)]
     else [to_char (0xF0 + cp div 262144), to_char (0x80 + cp div 4096 mod 64),
       to_char (0x80 + cp div 64 mod 64), to_char (0x80 + cp mod 64)])"
  using assms by (simp add: encode_code_point_def byte_simps or_mark less_mult_imp_div_less)

section \<open>The decoder inverts the encoding\<close>

lemma accumulate_bits: "push_bit 6 cp OR (x AND 0x3F) = cp * 64 + x mod (64::nat)"
  using push_bit_or_nat [of "x AND 0x3F" 6 cp] by (simp add: byte_simps)

lemma continue_sequence_full [simp]: "continue_sequence need need cp low high rest = (cp, need)"
  by (cases rest) auto

lemma continue_sequence_take:
  assumes "len < need" "low \<le> uchar n" "uchar n \<le> high"
  shows "continue_sequence need len cp low high (n # rest) =
    continue_sequence need (len + 1) (cp * 64 + uchar n mod 64) 0x80 0xBF rest"
  using assms by (simp add: accumulate_bits)

lemma continue_sequence_takeE:
  assumes "continue_sequence need len cp low high rest = (cp', need)" "len < need"
  obtains n rest' where "rest = n # rest'" "low \<le> uchar n" "uchar n \<le> high"
    "continue_sequence need (len + 1) (cp * 64 + uchar n mod 64) 0x80 0xBF rest' = (cp', need)"
proof (cases rest)
  case Nil
  with assms show ?thesis by simp
next
  case (Cons n rest')
  with assms that show ?thesis
    by (cases "uchar n < low \<or> uchar n > high") (auto simp: accumulate_bits)
qed

declare continue_sequence.simps(2) [simp del]

lemma digits_64:
  "b < 64 \<Longrightarrow> (a * 64 + b) div 64 = (a::nat)" "b < 64 \<Longrightarrow> (a * 64 + b) mod 64 = (b::nat)"
  "x div 4096 = x div 64 div (64::nat)" "x div 262144 = x div 64 div 64 div (64::nat)"
  by (simp_all flip: div_mult2_eq)

lemma encode_two:
  assumes "2 \<le> a" "a < 32" "b < 64"
  shows "encode_code_point (a * 64 + b) = [to_char (0xC0 + a), to_char (0x80 + b)]"
  using assms by (subst encode_code_point_arith) auto

lemma encode_three:
  assumes "a < 16" "b < 64" "c < 64" "32 \<le> a * 64 + b"
  shows "encode_code_point ((a * 64 + b) * 64 + c) =
    [to_char (0xE0 + a), to_char (0x80 + b), to_char (0x80 + c)]"
proof -
  have "\<not> (a * 64 + b) * 64 + c < 0x80" "\<not> (a * 64 + b) * 64 + c < 0x800"
    "(a * 64 + b) * 64 + c < 0x10000" "(a * 64 + b) * 64 + c \<le> 0x10FFFF"
    using assms by simp_all
  then show ?thesis
    using assms by (simp only: encode_code_point_arith digits_64 if_False if_True)
qed

lemma encode_four:
  assumes "b < 64" "c < 64" "d < 64" "16 \<le> a * 64 + b" "a * 64 + b < 0x110"
  shows "encode_code_point (((a * 64 + b) * 64 + c) * 64 + d) =
    [to_char (0xF0 + a), to_char (0x80 + b), to_char (0x80 + c), to_char (0x80 + d)]"
proof -
  have "\<not> ((a * 64 + b) * 64 + c) * 64 + d < 0x80" "\<not> ((a * 64 + b) * 64 + c) * 64 + d < 0x800"
    "\<not> ((a * 64 + b) * 64 + c) * 64 + d < 0x10000" "((a * 64 + b) * 64 + c) * 64 + d \<le> 0x10FFFF"
    using assms by simp_all
  then show ?thesis
    using assms by (simp only: encode_code_point_arith digits_64 if_False)
qed

text \<open>What each length of sequence spells.\<close>

lemma code_point_cases:
  fixes cp :: nat
  assumes "cp \<le> 0x10FFFF"
  obtains (one) "cp < 0x80"
  | (two) a b where "cp = a * 64 + b" "2 \<le> a" "a < 32" "b < 64"
  | (three) a b c where "cp = (a * 64 + b) * 64 + c" "a < 16" "b < 64" "c < 64" "32 \<le> a * 64 + b"
  | (four) a b c d where "cp = ((a * 64 + b) * 64 + c) * 64 + d" "b < 64" "c < 64" "d < 64"
      "16 \<le> a * 64 + b" "a * 64 + b < 0x110"
proof -
  have d1: "cp = cp div 64 * 64 + cp mod 64" by simp
  have d2: "cp div 64 = cp div 64 div 64 * 64 + cp div 64 mod 64" by simp
  have d3: "cp div 64 div 64 = cp div 64 div 64 div 64 * 64 + cp div 64 div 64 mod 64" by simp
  have m: "cp mod 64 < 64" "cp div 64 mod 64 < 64" "cp div 64 div 64 mod 64 < 64" by simp_all
  consider "cp < 0x80" | "0x80 \<le> cp" "cp < 0x800" | "0x800 \<le> cp" "cp < 0x10000" | "0x10000 \<le> cp"
    by linarith
  then show thesis
  proof cases
    case 1
    then show thesis by (rule one)
  next
    case 2
    then have "2 \<le> cp div 64" "cp div 64 < 32" by simp_all
    with d1 m(1) show thesis by (rule_tac two)
  next
    case 3
    then have "32 \<le> cp div 64" "cp div 64 div 64 < 16" by simp_all
    with d1 d2 m show thesis by (intro three [of "cp div 64 div 64" "cp div 64 mod 64" "cp mod 64"]) auto
  next
    case 4
    then have "16 \<le> cp div 64 div 64" "cp div 64 div 64 < 0x110" using assms by simp_all
    with d1 d2 d3 m show thesis
      by (intro four [of "cp div 64 div 64 div 64" "cp div 64 div 64 mod 64"
            "cp div 64 mod 64" "cp mod 64"]) auto
  qed
qed

lemma mod_marks:
  "b < 64 \<Longrightarrow> (0x80 + b) mod 64 = (b::nat)" "b < 32 \<Longrightarrow> (0xC0 + b) mod 32 = b"
  "b < 16 \<Longrightarrow> (0xE0 + b) mod 16 = b" "b < 8 \<Longrightarrow> (0xF0 + b) mod 8 = b"
  by (auto intro!: mod_nat_eqI)

lemma uchar_continuation: "b < 64 \<Longrightarrow> uchar (to_char (0x80 + b)) = 0x80 + b"
  by simp

lemma continue_sequence_next:
  assumes "b < 64" "low \<le> 0x80 + b" "0x80 + b \<le> high" "len < need" "len' = len + 1"
  shows "continue_sequence need len cp low high (to_char (0x80 + b) # rest) =
    continue_sequence need len' (cp * 64 + b) 0x80 0xBF rest"
proof -
  note u = uchar_continuation [OF assms(1)]
  have "low \<le> uchar (to_char (0x80 + b))" "uchar (to_char (0x80 + b)) \<le> high"
    using assms(2,3) by (simp_all only: u)
  from continue_sequence_take [OF assms(4) this] show ?thesis
    by (simp only: u mod_marks(1) [OF assms(1)] assms(5))
qed

lemma continue_sequence_last:
  assumes "b < 64"
  shows "continue_sequence (Suc len) len cp 0x80 0xBF (to_char (0x80 + b) # rest) =
    (cp * 64 + b, Suc len)"
  using assms by (subst continue_sequence_next [where len' = "Suc len"]) auto

lemma decode_two:
  assumes "2 \<le> a" "a < 32" "b < 64"
  shows "decode_sequence (to_char (0xC0 + a) # to_char (0x80 + b) # rest) s
    = \<lparr>code_point = a * 64 + b, seq_length = 2, seq_valid = True\<rparr>"
proof -
  have "lead_range (0xC0 + a) s = Some (2, a, 0x80, 0xBF)"
    using assms mod_marks(2) [of a] by (simp add: lead_range_def byte_simps)
  moreover have "continue_sequence 2 1 a 0x80 0xBF (to_char (0x80 + b) # rest) = (a * 64 + b, 2)"
    using assms continue_sequence_last [of b 1] by (simp add: numeral_2_eq_2)
  ultimately show ?thesis using assms by simp
qed

lemma decode_three:
  assumes "a < 16" "b < 64" "c < 64" "32 \<le> a * 64 + b" "a = 13 \<Longrightarrow> s \<or> b < 32"
  shows "decode_sequence (to_char (0xE0 + a) # to_char (0x80 + b) # to_char (0x80 + c) # rest) s
    = \<lparr>code_point = (a * 64 + b) * 64 + c, seq_length = 3, seq_valid = True\<rparr>"
proof -
  let ?low = "if a = 0 then 0xA0 else 0x80 :: nat"
    and ?high = "if a = 13 \<and> \<not> s then 0x9F else 0xBF :: nat"
  have "lead_range (0xE0 + a) s = Some (3, a, ?low, ?high)"
    using assms(1) mod_marks(3) [of a] by (simp add: lead_range_def byte_simps)
  moreover have "continue_sequence 3 1 a ?low ?high
      (to_char (0x80 + b) # to_char (0x80 + c) # rest) =
      continue_sequence 3 2 (a * 64 + b) 0x80 0xBF (to_char (0x80 + c) # rest)"
    using assms by (intro continue_sequence_next) auto
  moreover have "\<dots> = ((a * 64 + b) * 64 + c, 3)"
    using continue_sequence_last [OF assms(3), of 2] by simp
  ultimately show ?thesis using assms(1) by simp
qed

lemma decode_four:
  assumes "b < 64" "c < 64" "d < 64" "16 \<le> a * 64 + b" "a * 64 + b < 0x110"
  shows "decode_sequence (to_char (0xF0 + a) # to_char (0x80 + b) # to_char (0x80 + c)
      # to_char (0x80 + d) # rest) s
    = \<lparr>code_point = ((a * 64 + b) * 64 + c) * 64 + d, seq_length = 4, seq_valid = True\<rparr>"
proof -
  let ?low = "if a = 0 then 0x90 else 0x80 :: nat" and ?high = "if a = 4 then 0x8F else 0xBF :: nat"
  have a: "a \<le> 4" using assms(5) by linarith
  then have "lead_range (0xF0 + a) s = Some (4, a, ?low, ?high)"
    using mod_marks(4) [of a] by (simp add: lead_range_def byte_simps)
  moreover have "continue_sequence 4 1 a ?low ?high
      (to_char (0x80 + b) # to_char (0x80 + c) # to_char (0x80 + d) # rest) =
      continue_sequence 4 2 (a * 64 + b) 0x80 0xBF (to_char (0x80 + c) # to_char (0x80 + d) # rest)"
    using assms by (intro continue_sequence_next) auto
  moreover have "\<dots> = continue_sequence 4 3 ((a * 64 + b) * 64 + c) 0x80 0xBF
      (to_char (0x80 + d) # rest)"
    using assms by (intro continue_sequence_next) auto
  moreover have "\<dots> = (((a * 64 + b) * 64 + c) * 64 + d, 4)"
    using continue_sequence_last [OF assms(3), of 3] by simp
  ultimately show ?thesis using a by simp
qed

lemma decode_encode:
  assumes "is_code_point s cp"
  shows "decode_sequence (encode_code_point cp @ rest) s
    = \<lparr>code_point = cp, seq_length = length (encode_code_point cp), seq_valid = True\<rparr>"
proof -
  have "cp \<le> 0x10FFFF" using assms by (simp add: is_code_point_def)
  then show ?thesis
  proof (cases rule: code_point_cases)
    case one
    then show ?thesis by (simp add: encode_code_point_def)
  next
    case (two a b)
    then show ?thesis by (simp add: encode_two decode_two del: decode_sequence.simps)
  next
    case (three a b c)
    have "a = 13 \<Longrightarrow> s \<or> b < 32"
      using assms three by (auto simp: is_code_point_def)
    then show ?thesis
      unfolding three(1) encode_three [OF three(2-5)]
      using decode_three [OF three(2-5)] by simp
  next
    case (four a b c d)
    show ?thesis
      unfolding four(1) encode_four [OF four(2-6)]
      using decode_four [OF four(2-6)] by simp
  qed
qed

lemma continuation_byte:
  assumes "0x80 \<le> uchar n" "uchar n \<le> 0xBF"
  obtains b where "b < 64" "n = to_char (0x80 + b)" "uchar n = 0x80 + b" "uchar n mod 64 = b"
proof -
  obtain b where b: "uchar n = 0x80 + b" using assms(1) by (metis le_Suc_ex)
  moreover from b have "n = to_char (0x80 + b)" by (metis char_of_char)
  moreover from b assms(2) have "b < 64" by simp
  ultimately show thesis using that mod_marks(1) by simp
qed

text \<open>A valid sequence is the encoding of the code point it gives.\<close>

definition spells :: "bool \<Rightarrow> string \<Rightarrow> UTF8Sequence \<Rightarrow> bool" where
  "spells s text q \<longleftrightarrow> is_code_point s (code_point q)
     \<and> seq_length q = length (encode_code_point (code_point q))
     \<and> take (seq_length q) text = encode_code_point (code_point q)"

lemma decode_valid_two:
  assumes lead: "0xC2 \<le> uchar c" "uchar c \<le> 0xDF"
    and valid: "seq_valid (decode_sequence (c # rest) s)"
  shows "spells s (c # rest) (decode_sequence (c # rest) s)"
proof -
  obtain a where a: "uchar c = 0xC0 + a" by (rule that [of "uchar c - 0xC0"]) (use lead in simp)
  then have c: "c = to_char (0xC0 + a)" by (metis char_of_char)
  have r: "lead_range (uchar c) s = Some (2, a, 0x80, 0xBF)"
    using lead mod_marks(2) [of a] a by (simp add: lead_range_def byte_simps)
  obtain cp' where "continue_sequence 2 1 a 0x80 0xBF rest = (cp', 2)"
    using valid lead r by (auto simp: Let_def split: prod.splits if_splits)
  then obtain n rest' where n: "rest = n # rest'" "0x80 \<le> uchar n" "uchar n \<le> 0xBF"
    by (rule continue_sequence_takeE) auto
  from n(2,3) obtain b where b: "b < 64" "n = to_char (0x80 + b)"
    by (rule continuation_byte)
  have ab: "2 \<le> a" "a < 32" using a lead by simp_all
  show ?thesis
    unfolding c n(1) b(2) spells_def decode_two [OF ab b(1)]
    using ab b encode_two [OF ab b(1)] by (simp add: is_code_point_def)
qed

lemma decode_valid_three:
  assumes lead: "0xE0 \<le> uchar c" "uchar c \<le> 0xEF"
    and valid: "seq_valid (decode_sequence (c # rest) s)"
  shows "spells s (c # rest) (decode_sequence (c # rest) s)"
proof -
  obtain a where a: "uchar c = 0xE0 + a" by (rule that [of "uchar c - 0xE0"]) (use lead in simp)
  then have c: "c = to_char (0xE0 + a)" by (metis char_of_char)
  let ?low = "if a = 0 then 0xA0 else 0x80 :: nat"
    and ?high = "if a = 13 \<and> \<not> s then 0x9F else 0xBF :: nat"
  have r: "lead_range (uchar c) s = Some (3, a, ?low, ?high)"
    using lead mod_marks(3) [of a] a by (simp add: lead_range_def byte_simps)
  obtain cp' where "continue_sequence 3 1 a ?low ?high rest = (cp', 3)"
    using valid lead r by (auto simp: Let_def split: prod.splits if_splits)
  then obtain n rest' where n: "rest = n # rest'" "?low \<le> uchar n" "uchar n \<le> ?high"
    and "continue_sequence 3 (1 + 1) (a * 64 + uchar n mod 64) 0x80 0xBF rest' = (cp', 3)"
    by (rule continue_sequence_takeE) auto
  from this(4) obtain m rest'' where m: "rest' = m # rest''" "0x80 \<le> uchar m" "uchar m \<le> 0xBF"
    by (rule continue_sequence_takeE) auto
  have "0x80 \<le> uchar n" "uchar n \<le> 0xBF" using n by (auto split: if_splits)
  then obtain b where b: "b < 64" "n = to_char (0x80 + b)" "uchar n = 0x80 + b"
    by (rule continuation_byte)
  from m(2,3) obtain d where d: "d < 64" "m = to_char (0x80 + d)" by (rule continuation_byte)
  have ab: "a < 16" "32 \<le> a * 64 + b" "a = 13 \<Longrightarrow> s \<or> b < 32"
    using a lead n(2,3) b(3) by (auto split: if_splits)
  have "is_code_point s ((a * 64 + b) * 64 + d)"
    using ab b(1) d(1) by (cases "a = 13"; cases "a < 13") (auto simp: is_code_point_def)
  moreover have dec: "decode_sequence (to_char (0xE0 + a) # to_char (0x80 + b) # to_char (0x80 + d)
      # rest'') s = \<lparr>code_point = (a * 64 + b) * 64 + d, seq_length = 3, seq_valid = True\<rparr>"
    using ab b(1) d(1) by (intro decode_three)
  ultimately show ?thesis
    unfolding c n(1) m(1) b(2) d(2) spells_def dec
    using encode_three [OF ab(1) b(1) d(1) ab(2)] by simp
qed

lemma decode_valid_four:
  assumes lead: "0xF0 \<le> uchar c" "uchar c \<le> 0xF4"
    and valid: "seq_valid (decode_sequence (c # rest) s)"
  shows "spells s (c # rest) (decode_sequence (c # rest) s)"
proof -
  obtain a where a: "uchar c = 0xF0 + a" by (rule that [of "uchar c - 0xF0"]) (use lead in simp)
  then have c: "c = to_char (0xF0 + a)" by (metis char_of_char)
  let ?low = "if a = 0 then 0x90 else 0x80 :: nat" and ?high = "if a = 4 then 0x8F else 0xBF :: nat"
  have r: "lead_range (uchar c) s = Some (4, a, ?low, ?high)"
    using lead mod_marks(4) [of a] a by (simp add: lead_range_def byte_simps)
  obtain cp' where "continue_sequence 4 1 a ?low ?high rest = (cp', 4)"
    using valid lead r by (auto simp: Let_def split: prod.splits if_splits)
  then obtain n rest' where n: "rest = n # rest'" "?low \<le> uchar n" "uchar n \<le> ?high"
    and "continue_sequence 4 (1 + 1) (a * 64 + uchar n mod 64) 0x80 0xBF rest' = (cp', 4)"
    by (rule continue_sequence_takeE) auto
  from this(4) obtain m rest'' where m: "rest' = m # rest''" "0x80 \<le> uchar m" "uchar m \<le> 0xBF"
    and "continue_sequence 4 (1 + 1 + 1) ((a * 64 + uchar n mod 64) * 64 + uchar m mod 64)
      0x80 0xBF rest'' = (cp', 4)"
    by (rule continue_sequence_takeE) auto
  from this(4) obtain l tail where l: "rest'' = l # tail" "0x80 \<le> uchar l" "uchar l \<le> 0xBF"
    by (rule continue_sequence_takeE) auto
  have "0x80 \<le> uchar n" "uchar n \<le> 0xBF" using n by (auto split: if_splits)
  then obtain b where b: "b < 64" "n = to_char (0x80 + b)" "uchar n = 0x80 + b"
    by (rule continuation_byte)
  from m(2,3) obtain d where d: "d < 64" "m = to_char (0x80 + d)" by (rule continuation_byte)
  from l(2,3) obtain e where e: "e < 64" "l = to_char (0x80 + e)" by (rule continuation_byte)
  have ab: "16 \<le> a * 64 + b" "a * 64 + b < 0x110"
    using a lead n(2,3) b(1,3) by (auto split: if_splits)
  have "is_code_point s (((a * 64 + b) * 64 + d) * 64 + e)"
    using ab b(1) d(1) e(1) by (auto simp: is_code_point_def)
  then show ?thesis
    unfolding c n(1) m(1) l(1) b(2) d(2) e(2) spells_def decode_four [OF b(1) d(1) e(1) ab]
    using encode_four [OF b(1) d(1) e(1) ab] by simp
qed

lemma lead_range_None:
  "lead_range lead s = None \<longleftrightarrow> \<not> (0xC2 \<le> lead \<and> lead \<le> 0xDF) \<and> \<not> (0xE0 \<le> lead \<and> lead \<le> 0xEF)
     \<and> \<not> (0xF0 \<le> lead \<and> lead \<le> 0xF4)"
  by (auto simp: lead_range_def)

lemma decode_valid:
  assumes valid: "seq_valid (decode_sequence text s)"
  shows "spells s text (decode_sequence text s)"
proof -
  obtain c rest where t: "text = c # rest" using valid by (cases "text") auto
  show ?thesis
  proof (cases "uchar c < 0x80 \<or> lead_range (uchar c) s = None")
    case True
    with valid show ?thesis
      by (auto simp: t spells_def is_code_point_def encode_code_point_def split: if_splits)
  next
    case False
    then have "0xC2 \<le> uchar c \<and> uchar c \<le> 0xDF \<or> 0xE0 \<le> uchar c \<and> uchar c \<le> 0xEF
        \<or> 0xF0 \<le> uchar c \<and> uchar c \<le> 0xF4"
      by (simp only: lead_range_None) blast
    with valid show ?thesis
      unfolding t using decode_valid_two decode_valid_three decode_valid_four by blast
  qed
qed

lemma encode_code_point_nonempty [simp]: "encode_code_point cp \<noteq> []"
  by (simp add: encode_code_point_def)

text \<open>
  C34: the decoder and the encoding are inverse. The sequence decoded at
  the start of a text is valid exactly when the text starts with the encoding of some code point
  (a Unicode scalar value, or any surrogate too when \<^verbatim>\<open>surrogates\<close> lets them through),
  and then it gives exactly that code point and its length.
\<close>

theorem decode_sequence_correct:
  "(seq_valid (decode_sequence text s) \<longleftrightarrow>
      (\<exists>cp rest. is_code_point s cp \<and> text = encode_code_point cp @ rest))
   \<and> (\<forall>cp rest. is_code_point s cp \<longrightarrow> decode_sequence (encode_code_point cp @ rest) s
        = \<lparr>code_point = cp, seq_length = length (encode_code_point cp), seq_valid = True\<rparr>)"
proof -
  have "\<exists>cp rest. is_code_point s cp \<and> text = encode_code_point cp @ rest"
    if "seq_valid (decode_sequence text s)"
    using decode_valid [OF that] unfolding spells_def by (metis append_take_drop_id)
  then show ?thesis by (auto simp: decode_encode)
qed

theorem decode_sequence_correct_witness:
  "decode_sequence (encode_code_point 0x20AC @ ''!'') False
     = \<lparr>code_point = 0x20AC, seq_length = 3, seq_valid = True\<rparr>"
proof -
  have "is_code_point False 0x20AC" by (simp add: is_code_point_def)
  then have "decode_sequence (encode_code_point 0x20AC @ ''!'') False
      = \<lparr>code_point = 0x20AC, seq_length = length (encode_code_point 0x20AC), seq_valid = True\<rparr>"
    using decode_sequence_correct [of "[]" False] by blast
  then show ?thesis by (simp add: encode_code_point_def)
qed

section \<open>Well-formed texts\<close>

text \<open>The texts that are whole encodings of code points: UTF-8, or WTF-8 with surrogates.\<close>

definition well_formed :: "bool \<Rightarrow> string \<Rightarrow> bool" where
  "well_formed s text \<longleftrightarrow>
     (\<exists>cps. (\<forall>cp\<in>set cps. is_code_point s cp) \<and> text = concat (map encode_code_point cps))"

lemma well_formed_Nil [simp]: "well_formed s []"
  unfolding well_formed_def by (rule exI [of _ "[]"]) simp

lemma well_formed_encode:
  assumes "is_code_point s cp"
  shows "well_formed s (encode_code_point cp @ rest) \<longleftrightarrow> well_formed s rest"
proof
  assume "well_formed s rest"
  then obtain cps where "\<forall>cp\<in>set cps. is_code_point s cp" "rest = concat (map encode_code_point cps)"
    by (auto simp: well_formed_def)
  with assms show "well_formed s (encode_code_point cp @ rest)"
    unfolding well_formed_def by (intro exI [of _ "cp # cps"]) simp
next
  assume "well_formed s (encode_code_point cp @ rest)"
  then obtain cps where cps: "\<forall>cp\<in>set cps. is_code_point s cp"
    "encode_code_point cp @ rest = concat (map encode_code_point cps)"
    by (auto simp: well_formed_def)
  then obtain cp' cps' where "cps = cp' # cps'" by (cases cps) auto
  with cps have eq: "encode_code_point cp @ rest
      = encode_code_point cp' @ concat (map encode_code_point cps')"
    and cp': "is_code_point s cp'" "\<forall>cp\<in>set cps'. is_code_point s cp" by auto
  have "code_point (decode_sequence (encode_code_point cp @ rest) s) = cp"
    "code_point (decode_sequence (encode_code_point cp @ rest) s) = cp'"
    using decode_encode [OF assms, of rest] decode_encode [OF cp'(1)] by (simp_all add: eq)
  with eq cp'(2) show "well_formed s rest"
    by (auto simp: well_formed_def)
qed

lemma well_formed_step:
  assumes "text \<noteq> []"
  shows "well_formed s text \<longleftrightarrow> seq_valid (decode_sequence text s)
    \<and> well_formed s (drop (seq_length (decode_sequence text s)) text)"
proof (cases "seq_valid (decode_sequence text s)")
  case True
  from decode_valid [OF True] have
    "is_code_point s (code_point (decode_sequence text s))"
    "text = encode_code_point (code_point (decode_sequence text s))
       @ drop (seq_length (decode_sequence text s)) text"
    by (auto simp: spells_def) (metis append_take_drop_id)
  with well_formed_encode True show ?thesis by metis
next
  case False
  have "\<not> well_formed s text"
  proof
    assume "well_formed s text"
    then obtain cp cps where "is_code_point s cp"
      "text = encode_code_point cp @ concat (map encode_code_point cps)"
      using assms unfolding well_formed_def by (metis concat.simps(1) list.exhaust list.map(1)
          list.set_intros(1) concat.simps(2) list.map(2))
    with False show False by (simp add: decode_encode)
  qed
  with False show ?thesis by simp
qed

lemma encode_ascii: "uchar c < 0x80 \<Longrightarrow> encode_code_point (uchar c) = [c]"
  by (simp add: encode_code_point_def)

lemma well_formed_ascii:
  "\<forall>c\<in>set front. uchar c < 0x80 \<Longrightarrow> well_formed s (front @ rest) \<longleftrightarrow> well_formed s rest"
proof (induction front)
  case (Cons c front)
  then have "is_code_point s (uchar c)" by (auto simp: is_code_point_def)
  from well_formed_encode [OF this, of "front @ rest"] Cons show ?case
    by (simp add: encode_ascii)
qed simp

lemma is_utf8_loop_iff: "is_utf8_loop big text \<longleftrightarrow> well_formed False text"
proof (induction big "text" rule: is_utf8_loop.induct)
  case (1 big rest)
  let ?word = "length rest \<ge> 8 \<and> \<not> has_non_ascii (memcpy_word big (take 8 rest))"
  consider (empty) "rest = []" | (word) "rest \<noteq> []" ?word | (sequence) "rest \<noteq> []" "\<not> ?word" by blast
  then show ?case
  proof cases
    case empty
    then show ?thesis by (simp add: is_utf8_loop.simps)
  next
    case word
    then have "\<forall>c\<in>set (take 8 rest). uchar c < 0x80"
      using non_ascii.test_memcpy [of "take 8 rest" big] by (auto simp: not_le)
    from well_formed_ascii [OF this, of False "drop 8 rest"]
    have "well_formed False rest \<longleftrightarrow> well_formed False (drop 8 rest)" by simp
    with word 1 show ?thesis by (simp add: is_utf8_loop.simps [of big rest])
  next
    case sequence
    with 1 well_formed_step [of rest False] show ?thesis
      by (auto simp: is_utf8_loop.simps [of big rest] Let_def decode_utf8_def)
  qed
qed

lemma is_utf8_well_formed: "is_utf8 big text \<longleftrightarrow> well_formed False text"
proof (cases "\<exists>c\<in>set text. 0x80 \<le> uchar c")
  case True
  then show ?thesis by (simp add: is_utf8_def non_ascii.any_word_iff is_utf8_loop_iff)
next
  case False
  then have "well_formed False (text @ [])"
    by (subst well_formed_ascii) (auto simp: not_le)
  with False show ?thesis by (simp add: is_utf8_def non_ascii.any_word_iff)
qed

text \<open>
  C33: \<^verbatim>\<open>is_utf8\<close>, which skips ASCII eight bytes at a time and on
  a machine of either byte order, accepts exactly the concatenations of encodings of Unicode
  scalar values: none overlong, a surrogate, cut short or past U+10FFFF.
\<close>

theorem is_utf8_correct:
  "is_utf8 big text \<longleftrightarrow>
     (\<exists>cps. list_all (\<lambda>cp. cp \<le> 0x10FFFF \<and> (cp < 0xD800 \<or> 0xDFFF < cp)) cps
        \<and> text = concat (map encode_code_point cps))"
  unfolding is_utf8_well_formed well_formed_def is_code_point_def by (simp add: list_all_iff)

lemma well_formed_take:
  assumes "seq_valid (decode_sequence text s)"
  shows "well_formed s (take (seq_length (decode_sequence text s)) text @ rest) \<longleftrightarrow> well_formed s rest"
  using decode_valid [OF assms] unfolding spells_def by (metis well_formed_encode)

lemma replacement_character: "encode_code_point 0xFFFD = [CHR 0xEF, CHR 0xBF, CHR 0xBD]"
  by (simp add: encode_code_point_def) code_simp

lemma well_formed_replace: "well_formed False (replace_invalid_utf8 text)"
proof (induction "text" rule: replace_invalid_utf8.induct)
  case (1 rest)
  show ?case
  proof (cases "rest = []")
    case True
    then show ?thesis by (simp add: replace_invalid_utf8.simps)
  next
    case False
    have "is_code_point False 0xFFFD" by (simp add: is_code_point_def)
    from well_formed_encode [OF this] False 1 show ?thesis
      by (auto simp: replace_invalid_utf8.simps [of rest] Let_def well_formed_take
          replacement_character decode_utf8_def)
  qed
qed

lemma replace_well_formed: "well_formed False text \<Longrightarrow> replace_invalid_utf8 text = text"
proof (induction "text" rule: replace_invalid_utf8.induct)
  case (1 rest)
  show ?case
  proof (cases "rest = []")
    case True
    then show ?thesis by (simp add: replace_invalid_utf8.simps)
  next
    case False
    with 1 well_formed_step [of rest False] show ?thesis
      by (auto simp: replace_invalid_utf8.simps [of rest] Let_def decode_utf8_def)
  qed
qed

text \<open>
  \<^verbatim>\<open>replace_invalid_utf8\<close> always gives UTF-8, leaves
  exactly the texts that are UTF-8 already as they are, and is idempotent.
\<close>

lemma replace_invalid_utf8_correct:
  "is_utf8 big (replace_invalid_utf8 text)
   \<and> (replace_invalid_utf8 text = text \<longleftrightarrow> is_utf8 big text)
   \<and> replace_invalid_utf8 (replace_invalid_utf8 text) = replace_invalid_utf8 text"
  unfolding is_utf8_well_formed using well_formed_replace replace_well_formed by metis

end
