(* ===== verification/Utf16.thy ===== *)
theory Utf16
  imports Utf8
begin

unbundle bit_operations_syntax

text \<open>
  The conversions between WTF-8 and UTF-16 of \<^verbatim>\<open>include/kotatsu/support/utf16.h\<close>.
  A \<^verbatim>\<open>char16_t\<close> (or a Windows \<^verbatim>\<open>wchar_t\<close>) is a \<^typ>\<open>nat\<close> below 0x10000. The
  output buffer is the list written so far; \<^verbatim>\<open>to_utf16\<close> leaves in it what came before
  the bytes it refuses.
\<close>

section \<open>The conversions\<close>

fun from_utf16 :: "nat list \<Rightarrow> string" where
  "from_utf16 [] = []"
| "from_utf16 [unit] = encode_code_point unit"
| "from_utf16 (unit # next # rest) =
     (if 0xD800 \<le> unit \<and> unit \<le> 0xDBFF \<and> 0xDC00 \<le> next \<and> next \<le> 0xDFFF
      then encode_code_point (0x10000 + push_bit 10 (unit - 0xD800) + (next - 0xDC00))
             @ from_utf16 rest
      else encode_code_point unit @ from_utf16 (next # rest))"

text \<open>The units \<^verbatim>\<open>to_utf16\<close> writes for a code point.\<close>

definition units_of :: "nat \<Rightarrow> nat list" where
  "units_of cp =
     (if cp < 0x10000 then [cp]
      else [0xD800 + drop_bit 10 (cp - 0x10000), 0xDC00 + ((cp - 0x10000) AND 0x3FF)])"

datatype utf16_error = IllegalByteSequence

text \<open>
  The result of \<^verbatim>\<open>to_utf16\<close>: the error, if any, and the units in the buffer then. A
  high surrogate right before the bytes of a low one (CESU-8) is refused.
\<close>

function to_utf16 :: "string \<Rightarrow> utf16_error option \<times> nat list" where
  "to_utf16 text =
     (if text = [] then (None, [])
      else let sequence = decode_sequence text True in
        if \<not> seq_valid sequence then (Some IllegalByteSequence, [])
        else let rest = drop (seq_length sequence) text; cp = code_point sequence in
          if 0xD800 \<le> cp \<and> cp \<le> 0xDBFF \<and> length rest \<ge> 2
             \<and> uchar (rest ! 0) = 0xED \<and> uchar (rest ! 1) AND 0xF0 = 0xB0
          then (Some IllegalByteSequence, [])
          else let (error, later) = to_utf16 rest in (error, units_of cp @ later))"
  by pat_completeness auto
termination
  by (relation "measure length") (use decode_sequence_length in \<open>auto simp: Suc_le_eq\<close>)

declare to_utf16.simps [simp del]

section \<open>Surrogates\<close>

abbreviation high_surrogate :: "nat \<Rightarrow> bool" where
  "high_surrogate u \<equiv> 0xD800 \<le> u \<and> u \<le> 0xDBFF"

abbreviation low_surrogate :: "nat \<Rightarrow> bool" where
  "low_surrogate u \<equiv> 0xDC00 \<le> u \<and> u \<le> 0xDFFF"

text \<open>Whether bytes start like the encoding of a low surrogate, as the CESU-8 check asks.\<close>

definition starts_low :: "string \<Rightarrow> bool" where
  "starts_low rest \<longleftrightarrow> length rest \<ge> 2 \<and> uchar (rest ! 0) = 0xED \<and> uchar (rest ! 1) AND 0xF0 = 0xB0"

lemma and_push_mask: "(x::nat) AND push_bit n (mask m) = push_bit n (take_bit m (drop_bit n x))"
  by (rule bit_eqI) (auto simp: bit_simps)

lemma and_high_nibble: "(x::nat) AND 0xF0 = 16 * (x div 16 mod 16)"
  using and_push_mask [of x 4 4]
  by (simp add: push_bit_eq_mult drop_bit_eq_div take_bit_eq_mod mask_eq_exp_minus_1)

lemma starts_low_encode:
  assumes "cp \<le> 0x10FFFF"
  shows "starts_low (encode_code_point cp @ rest) \<longleftrightarrow> low_surrogate cp"
  using assms
proof (cases rule: code_point_cases)
  case one
  then show ?thesis by (simp add: encode_code_point_def starts_low_def)
next
  case (two a b)
  then show ?thesis by (simp add: encode_two starts_low_def)
next
  case (three a b c)
  have "starts_low (encode_code_point cp @ rest) \<longleftrightarrow> a = 13 \<and> (0x80 + b) div 16 mod 16 = 11"
    unfolding three(1) encode_three [OF three(2-5)]
    using three(2,3) by (auto simp: starts_low_def and_high_nibble)
  also have "(0x80 + b) div 16 mod 16 = 11 \<longleftrightarrow> 48 \<le> b"
  proof -
    have "(0x80 + b) div 16 = 8 + b div 16" by simp
    moreover have "b div 16 < 4" using three(3) by simp
    moreover have "b div 16 = 3 \<longleftrightarrow> 48 \<le> b" using three(3) by auto
    ultimately show ?thesis by simp
  qed
  also have "a = 13 \<and> 48 \<le> b \<longleftrightarrow> low_surrogate cp"
    using three by (cases a "13::nat" rule: linorder_cases) auto
  finally show ?thesis .
next
  case (four a b c d)
  then have "a \<le> 4" by linarith
  then show ?thesis
    unfolding four(1) encode_four [OF four(2-6)]
    using four by (auto simp: starts_low_def)
qed

lemma to_utf16_Nil [simp]: "to_utf16 [] = (None, [])"
  by (simp add: to_utf16.simps)

lemma to_utf16_encode:
  assumes "cp \<le> 0x10FFFF"
  shows "to_utf16 (encode_code_point cp @ rest) =
    (if high_surrogate cp \<and> starts_low rest then (Some IllegalByteSequence, [])
     else apsnd ((@) (units_of cp)) (to_utf16 rest))"
proof -
  have "decode_sequence (encode_code_point cp @ rest) True
      = \<lparr>code_point = cp, seq_length = length (encode_code_point cp), seq_valid = True\<rparr>"
    using assms by (intro decode_encode) (simp add: is_code_point_def)
  then show ?thesis
    by (subst to_utf16.simps)
      (auto simp: Let_def starts_low_def apsnd_def map_prod_def split: prod.split)
qed

text \<open>A pair of units and the code point it spells.\<close>

lemma pair_units:
  assumes "high_surrogate hi" "low_surrogate lo"
  shows "units_of (0x10000 + push_bit 10 (hi - 0xD800) + (lo - 0xDC00)) = [hi, lo]"
    and "0x10000 + push_bit 10 (hi - 0xD800) + (lo - 0xDC00) \<le> 0x10FFFF"
proof -
  obtain h l where hl: "hi = 0xD800 + h" "lo = 0xDC00 + l" "h < 1024" "l < 1024"
    by (rule that [of "hi - 0xD800" "lo - 0xDC00"]) (use assms in auto)
  then show "units_of (0x10000 + push_bit 10 (hi - 0xD800) + (lo - 0xDC00)) = [hi, lo]"
    by (simp add: units_of_def byte_simps)
  from hl show "0x10000 + push_bit 10 (hi - 0xD800) + (lo - 0xDC00) \<le> 0x10FFFF"
    by (simp add: byte_simps)
qed

section \<open>The round trips\<close>

text \<open>What \<^verbatim>\<open>from_utf16\<close> writes starts with the encoding of a low surrogate only for a low
  surrogate unit at the front.\<close>

lemma starts_low_from_utf16:
  assumes "unit < 0x10000"
  shows "starts_low (from_utf16 (unit # units)) \<longleftrightarrow> low_surrogate unit"
proof (cases units)
  case Nil
  with assms starts_low_encode [of unit "[]"] show ?thesis by simp
next
  case (Cons next_unit rest)
  show ?thesis
  proof (cases "high_surrogate unit \<and> low_surrogate next_unit")
    case True
    with Cons starts_low_encode [OF pair_units(2), of unit next_unit "from_utf16 rest"]
    show ?thesis by simp
  next
    case False
    with Cons assms starts_low_encode [of unit] show ?thesis by auto
  qed
qed

lemma to_from_utf16:
  "\<forall>u\<in>set units. u < 0x10000 \<Longrightarrow> to_utf16 (from_utf16 units) = (None, units)"
proof (induction units rule: from_utf16.induct)
  case (2 unit)
  then show ?case
    using to_utf16_encode [of unit "[]"] by (simp add: starts_low_def units_of_def)
next
  case (3 unit next_unit rest)
  show ?case
  proof (cases "high_surrogate unit \<and> low_surrogate next_unit")
    case True
    with 3 to_utf16_encode [OF pair_units(2), of unit next_unit "from_utf16 rest"]
      pair_units(1) [of unit next_unit] show ?thesis by simp
  next
    case False
    then have "\<not> (high_surrogate unit \<and> starts_low (from_utf16 (next_unit # rest)))"
      using 3 starts_low_from_utf16 [of next_unit rest] by auto
    moreover have "to_utf16 (from_utf16 (next_unit # rest)) = (None, next_unit # rest)"
      using 3 False by auto
    moreover have "from_utf16 (unit # next_unit # rest) = encode_code_point unit @ from_utf16 (next_unit # rest)"
      using False by auto
    ultimately show ?thesis
      using 3(3) to_utf16_encode [of unit "from_utf16 (next_unit # rest)"] by (simp add: units_of_def)
  qed
qed simp

lemma from_utf16_units:
  assumes "cp \<le> 0x10FFFF" "high_surrogate cp \<Longrightarrow> \<not> starts_low (from_utf16 later)"
    "\<forall>u\<in>set later. u < 0x10000"
  shows "from_utf16 (units_of cp @ later) = encode_code_point cp @ from_utf16 later"
proof (cases "cp < 0x10000")
  case True
  show ?thesis
  proof (cases later)
    case (Cons u us)
    with assms True starts_low_from_utf16 [of u us] show ?thesis
      by (auto simp: units_of_def)
  qed (use True in \<open>simp add: units_of_def\<close>)
next
  case False
  let ?v = "cp - 0x10000"
  have v: "?v < 0x100000" using assms(1) by simp
  have "drop_bit 10 ?v < 1024" using v by (simp add: byte_simps less_mult_imp_div_less)
  moreover have "?v AND 0x3FF < 1024" by (simp add: byte_simps)
  moreover have "0x10000 + push_bit 10 (drop_bit 10 ?v) + (?v AND 0x3FF) = cp"
    using False by (simp add: byte_simps)
  ultimately show ?thesis using False by (simp add: units_of_def)
qed

lemma units_of_bound: "cp \<le> 0x10FFFF \<Longrightarrow> \<forall>u\<in>set (units_of cp). u < 0x10000"
  by (auto simp: units_of_def byte_simps less_mult_imp_div_less)

lemma from_to_utf16:
  "to_utf16 text = (None, units) \<Longrightarrow> from_utf16 units = text \<and> (\<forall>u\<in>set units. u < 0x10000)"
proof (induction "text" arbitrary: units rule: to_utf16.induct)
  case (1 "text")
  show ?case
  proof (cases "text = []")
    case False
    let ?q = "decode_sequence text True"
    let ?rest = "drop (seq_length ?q) text"
    have valid: "seq_valid ?q"
      using 1(2) False by (auto simp: to_utf16.simps [of "text"] Let_def split: if_splits)
    from decode_valid [OF valid] have cp: "code_point ?q \<le> 0x10FFFF"
      and eq: "text = encode_code_point (code_point ?q) @ ?rest"
      unfolding spells_def is_code_point_def by (blast, metis append_take_drop_id)
    have ok: "\<not> (high_surrogate (code_point ?q) \<and> starts_low ?rest)"
      and "apsnd ((@) (units_of (code_point ?q))) (to_utf16 ?rest) = (None, units)"
      using to_utf16_encode [OF cp, of ?rest] 1(2) eq by (auto split: if_splits)
    then obtain later where later: "to_utf16 ?rest = (None, later)"
      "units = units_of (code_point ?q) @ later"
      by (cases "to_utf16 ?rest") auto
    have "from_utf16 later = ?rest \<and> (\<forall>u\<in>set later. u < 0x10000)"
      using 1(1) [OF False refl _ refl refl] valid ok later(1) by (auto simp: starts_low_def)
    with from_utf16_units [OF cp, of later] units_of_bound [OF cp] ok eq later(2) show ?thesis
      by auto
  qed (use 1 in \<open>simp add: to_utf16.simps\<close>)
qed

text \<open>
  C32: \<^verbatim>\<open>to_utf16\<close> succeeds with some units exactly when the text is
  what \<^verbatim>\<open>from_utf16\<close> writes for these 16-bit units. So every sequence of units, lone
  surrogates included (as a Windows name may hold them), survives the way through WTF-8 and
  back, a text that converts is restored from its units, and no two texts share their units.
\<close>

theorem utf16_bijection:
  "to_utf16 text = (None, units) \<longleftrightarrow>
     text = from_utf16 units \<and> list_all (\<lambda>u. u < 0x10000) units"
  using to_from_utf16 [of units] from_to_utf16 [of "text" units] by (auto simp: list_all_iff)

end
