(* ===== verification/Cmd.thy ===== *)
theory Cmd
  imports Utf16
begin

unbundle bit_operations_syntax

text \<open>
  Command lines, of \<^verbatim>\<open>src/sys/cmd.cpp\<close> and \<^verbatim>\<open>include/kotatsu/sys/cmd.h\<close>:
  quoting (\<^verbatim>\<open>join\<close>), splitting (\<^verbatim>\<open>split_view\<close>) and the expansion of response
  files (\<^verbatim>\<open>expand_view\<close>). An iterator of the code is its state after the construction or
  the last \<^verbatim>\<open>++\<close>; an index into the line is the suffix of the line there.
\<close>

section \<open>Quoting\<close>

datatype Quoting = QWindows | QPOSIX

abbreviation backslash :: char where "backslash \<equiv> CHR 0x5C"
abbreviation dquote :: char where "dquote \<equiv> CHR 0x22"
abbreviation squote :: char where "squote \<equiv> CHR 0x27"
abbreviation blank :: char where "blank \<equiv> CHR 0x20"
abbreviation tab :: char where "tab \<equiv> CHR 0x09"
abbreviation newline :: char where "newline \<equiv> CHR 0x0A"
abbreviation vtab :: char where "vtab \<equiv> CHR 0x0B"
abbreviation creturn :: char where "creturn \<equiv> CHR 0x0D"

text \<open>The program must hold no quote, which the code asserts.\<close>

definition append_windows_program :: "string \<Rightarrow> string \<Rightarrow> string" where
  "append_windows_program out program =
     (let quote = (program = [] \<or> (\<exists>c\<in>set program. c \<in> {blank, tab}))
      in out @ (if quote then [dquote] else []) @ program @ (if quote then [dquote] else []))"

text \<open>
  The loop of \<^verbatim>\<open>append_windows\<close>, with the count of backslashes read and not yet written.
\<close>

fun windows_quoted :: "nat \<Rightarrow> string \<Rightarrow> string" where
  "windows_quoted backslashes [] = replicate (backslashes * 2) backslash"
| "windows_quoted backslashes (c # cs) =
     (if c = backslash then windows_quoted (backslashes + 1) cs
      else replicate (if c = dquote then backslashes * 2 + 1 else backslashes) backslash
             @ c # windows_quoted 0 cs)"

definition append_windows :: "string \<Rightarrow> string \<Rightarrow> string" where
  "append_windows out argument =
     (if argument \<noteq> [] \<and> (\<forall>c\<in>set argument. c \<notin> {blank, tab, newline, vtab, dquote})
      then out @ argument
      else out @ dquote # windows_quoted 0 argument @ [dquote])"

definition posix_plain :: "char \<Rightarrow> bool" where
  "posix_plain c \<longleftrightarrow> 0x80 \<le> uchar c \<or> (CHR ''a'' \<le> c \<and> c \<le> CHR ''z'')
     \<or> (CHR ''A'' \<le> c \<and> c \<le> CHR ''Z'') \<or> (CHR ''0'' \<le> c \<and> c \<le> CHR ''9'')
     \<or> c \<in> set ''@%+=:,./_-''"

definition posix_quoted :: "char \<Rightarrow> string" where
  "posix_quoted c =
     (if c = newline then [squote, newline, squote]
      else if posix_plain c then [c] else [backslash, c])"

definition append_posix :: "string \<Rightarrow> string \<Rightarrow> string" where
  "append_posix out argument =
     (if argument = [] then out @ [squote, squote] else out @ concat (map posix_quoted argument))"

text \<open>The loop of \<^verbatim>\<open>join\<close> from argument \<^verbatim>\<open>i\<close> on.\<close>

fun join_from :: "string \<Rightarrow> nat \<Rightarrow> string list \<Rightarrow> Quoting \<Rightarrow> string" where
  "join_from out i [] quoting = out"
| "join_from out i (argument # arguments) quoting =
     (let out1 = (if i \<noteq> 0 then out @ [blank] else out);
          out2 = (if quoting = QPOSIX then append_posix out1 argument
                  else if i = 0 then append_windows_program out1 argument
                  else append_windows out1 argument)
      in join_from out2 (i + 1) arguments quoting)"

definition join :: "string list \<Rightarrow> Quoting \<Rightarrow> string" where
  "join arguments quoting = join_from [] 0 arguments quoting"

section \<open>Splitting\<close>

datatype Reading = Windows | WindowsFile | POSIX | POSIXFile

fun separates :: "Reading \<Rightarrow> char \<Rightarrow> bool" where
  "separates Windows c = (c \<in> {blank, tab})"
| "separates WindowsFile c = (c \<in> {blank, tab, creturn, newline, CHR 0x00})"
| "separates POSIX c = (c \<in> {blank, tab, creturn, newline})"
| "separates POSIXFile c = (c \<in> {blank, tab, creturn, newline})"

definition posix :: "Reading \<Rightarrow> bool" where
  "posix reading \<longleftrightarrow> reading = POSIX \<or> reading = POSIXFile"

text \<open>
  \<^verbatim>\<open>read_backslashes\<close>: what the backslashes at the front of the line add to the
  argument, and the line from the first character they do not take.
\<close>

definition read_backslashes :: "string \<Rightarrow> string \<times> string" where
  "read_backslashes line =
     (let count = length (takeWhile (\<lambda>c. c = backslash) line);
          after = dropWhile (\<lambda>c. c = backslash) line
      in if after = [] \<or> hd after \<noteq> dquote then (replicate count backslash, after)
         else if count mod 2 = 0 then (replicate (count div 2) backslash, after)
         else (replicate (count div 2) backslash @ [dquote], tl after))"

lemma length_dropWhile_Suc: "P c \<Longrightarrow> length (dropWhile P (c # cs)) < Suc (length cs)"
  by (simp add: length_dropWhile_le le_imp_less_Suc)

lemma read_backslashes_shorter:
  "(out, after) = read_backslashes (backslash # cs) \<Longrightarrow> length after < Suc (length cs)"
  using length_dropWhile_Suc [of "\<lambda>c. c = backslash" backslash cs]
  by (auto simp: read_backslashes_def Let_def split: if_splits)

function unquote_windows :: "Reading \<Rightarrow> bool \<Rightarrow> bool \<Rightarrow> string \<Rightarrow> string \<times> string" where
  "unquote_windows reading program quoted [] = ([], [])"
| "unquote_windows reading program quoted (c # cs) =
     (if \<not> quoted \<and> separates reading c then ([], c # cs)
      else if c = backslash \<and> \<not> program
      then let (out, after) = read_backslashes (c # cs)
           in apfst ((@) out) (unquote_windows reading program quoted after)
      else if c \<noteq> dquote then apfst ((#) c) (unquote_windows reading program quoted cs)
      else if quoted \<and> \<not> program \<and> cs \<noteq> [] \<and> hd cs = dquote
      then apfst ((#) dquote) (unquote_windows reading program quoted (tl cs))
      else unquote_windows reading program (\<not> quoted) cs)"
  by pat_completeness auto
termination
  by (relation "measure (\<lambda>(reading, program, quoted, rest). length rest)")
    (auto dest!: read_backslashes_shorter)

fun unquote_posix :: "Reading \<Rightarrow> char option \<Rightarrow> string \<Rightarrow> string \<times> string" where
  "unquote_posix reading quote [] = ([], [])"
| "unquote_posix reading quote (c # cs) =
     (if quote = None \<and> separates reading c then ([], c # cs)
      else if quote = Some squote \<and> reading = POSIX
      then if c = squote then unquote_posix reading None cs
           else apfst ((#) c) (unquote_posix reading quote cs)
      else if c = backslash \<and> cs \<noteq> []
      then apfst ((#) (hd cs)) (unquote_posix reading quote (tl cs))
      else if quote = Some c then unquote_posix reading None cs
      else if quote = None \<and> (c = squote \<or> c = dquote) then unquote_posix reading (Some c) cs
      else apfst ((#) c) (unquote_posix reading quote cs))"

text \<open>
  The argument up to the first character to unquote (\<^verbatim>\<open>operator++\<close>): its characters,
  and the line from there. Windows backslashes are literal but before a quote; a program's,
  always.
\<close>

function scan_plain :: "Reading \<Rightarrow> bool \<Rightarrow> string \<Rightarrow> string \<times> string" where
  "scan_plain reading program [] = ([], [])"
| "scan_plain reading program (c # cs) =
     (if separates reading c then ([], c # cs)
      else if c = dquote \<or> posix reading \<and> (c = squote \<or> c = backslash) then ([], c # cs)
      else if c = backslash \<and> \<not> program
      then let after = dropWhile (\<lambda>c. c = backslash) (c # cs)
           in if after \<noteq> [] \<and> hd after = dquote then ([], c # cs)
              else apfst ((@) (takeWhile (\<lambda>c. c = backslash) (c # cs)))
                     (scan_plain reading program after)
      else apfst ((#) c) (scan_plain reading program cs))"
  by pat_completeness auto
termination
  by (relation "measure (\<lambda>(reading, program, rest). length rest)")
    (auto simp: length_dropWhile_le le_imp_less_Suc)

record split_iterator =
  it_rest :: string
  it_argument :: string
  it_reading :: Reading
  it_program :: bool
  it_borrowed :: bool
  it_done :: bool

text \<open>The line from the argument on: the C runtime's program starts at the first character, a
  blank too.\<close>

definition skip_separators :: "split_iterator \<Rightarrow> string" where
  "skip_separators it =
     (if it_program it then it_rest it else dropWhile (separates (it_reading it)) (it_rest it))"

text \<open>\<^verbatim>\<open>operator++\<close>. The argument is what \<^verbatim>\<open>operator*\<close> gives, from the line or
  from the unquoted buffer.\<close>

definition split_next :: "split_iterator \<Rightarrow> split_iterator" where
  "split_next it =
     (let line = skip_separators it
      in if line = [] then it\<lparr>it_done := True\<rparr>
         else let (plain, at) = scan_plain (it_reading it) (it_program it) line;
                  borrows = (at = [] \<or> separates (it_reading it) (hd at))
              in if borrows
                 then it\<lparr>it_rest := at, it_argument := plain, it_program := False,
                         it_borrowed := True\<rparr>
                 else let (unquoted, after) =
                            (if posix (it_reading it) then unquote_posix (it_reading it) None at
                             else unquote_windows (it_reading it) (it_program it) False at)
                      in it\<lparr>it_rest := after, it_argument := plain @ unquoted,
                            it_program := False, it_borrowed := False\<rparr>)"

definition split_iterator_of :: "string \<Rightarrow> Reading \<Rightarrow> split_iterator" where
  "split_iterator_of line reading =
     split_next \<lparr>it_rest = line, it_argument = [], it_reading = reading,
                 it_program = (reading = Windows), it_borrowed = True, it_done = False\<rparr>"

section \<open>The scan agrees with the unquoting\<close>

text \<open>What is left of the line ends at a separator or the end.\<close>

abbreviation at_end :: "Reading \<Rightarrow> string \<Rightarrow> bool" where
  "at_end reading line \<equiv> line = [] \<or> separates reading (hd line)"

lemma unquote_at_end:
  "at_end reading line \<Longrightarrow> unquote_posix reading None line = ([], line)"
  "at_end reading line \<Longrightarrow> unquote_windows reading program False line = ([], line)"
  by (cases line; simp)+

lemma scan_posix:
  "posix reading \<Longrightarrow> unquote_posix reading None line =
     apfst ((@) (fst (scan_plain reading program line)))
       (unquote_posix reading None (snd (scan_plain reading program line)))"
proof (induction reading program line rule: scan_plain.induct)
  case (2 reading program c cs)
  then show ?case by (auto simp: Let_def)
qed simp

lemma not_posix_backslash: "\<not> separates reading backslash"
  by (cases reading) auto

lemma separates_not_quote: "\<not> separates reading dquote"
  by (cases reading) auto

lemma scan_windows:
  "\<not> posix reading \<Longrightarrow> unquote_windows reading program False line =
     apfst ((@) (fst (scan_plain reading program line)))
       (unquote_windows reading program False (snd (scan_plain reading program line)))"
proof (induction reading program line rule: scan_plain.induct)
  case (2 reading program c cs)
  let ?after = "dropWhile (\<lambda>c. c = backslash) (c # cs)"
  show ?case
  proof (cases "c = backslash \<and> \<not> program \<and> \<not> (?after \<noteq> [] \<and> hd ?after = dquote)")
    case True
    then have "read_backslashes (c # cs) =
        (replicate (length (takeWhile (\<lambda>c. c = backslash) (c # cs))) backslash, ?after)"
      by (simp only: read_backslashes_def Let_def) auto
    then have "read_backslashes (c # cs) = (takeWhile (\<lambda>c. c = backslash) (c # cs), ?after)"
      using takeWhile_eq_replicate [of backslash "c # cs"] by (simp only:)
    with True 2 show ?thesis by (auto simp: not_posix_backslash)
  next
    case False
    with 2 show ?thesis by (auto simp: Let_def)
  qed
qed simp

text \<open>The argument at the front of a line, always unquoted, and the line after it.\<close>

definition unquote :: "Reading \<Rightarrow> bool \<Rightarrow> string \<Rightarrow> string \<times> string" where
  "unquote reading program line =
     (if posix reading then unquote_posix reading None line
      else unquote_windows reading program False line)"

lemma split_next_unquote:
  "split_next it =
     (let line = skip_separators it;
          (plain, at) = scan_plain (it_reading it) (it_program it) line;
          (unquoted, after) = unquote (it_reading it) (it_program it) line
      in if line = [] then it\<lparr>it_done := True\<rparr>
         else it\<lparr>it_rest := after, it_argument := unquoted, it_program := False,
                 it_borrowed := at_end (it_reading it) at\<rparr>)"
proof -
  let ?r = "it_reading it" and ?p = "it_program it"
  let ?line = "skip_separators it"
  obtain plain at where scan: "scan_plain ?r ?p ?line = (plain, at)" by fastforce
  have u: "unquote ?r ?p ?line = apfst ((@) plain) (unquote ?r ?p at)"
    using scan_posix [of ?r ?line ?p] scan_windows [of ?r ?p ?line] scan by (auto simp: unquote_def)
  show ?thesis
  proof (cases "at_end ?r at")
    case True
    then have "unquote ?r ?p at = ([], at)" by (simp add: unquote_def unquote_at_end)
    with True u scan show ?thesis by (simp add: split_next_def Let_def)
  next
    case False
    with u scan show ?thesis
      by (cases "unquote ?r ?p at") (auto simp: split_next_def Let_def unquote_def split: if_splits)
  qed
qed

lemma unquote_posix_length: "length (snd (unquote_posix reading quote line)) \<le> length line"
proof (induction line arbitrary: quote rule: length_induct)
  case (1 line)
  show ?case
  proof (cases line)
    case (Cons c cs)
    have "length (snd (unquote_posix reading q cs)) \<le> length cs"
      "length (snd (unquote_posix reading q (tl cs))) \<le> length cs" for q
      using 1 [rule_format, of cs q] 1 [rule_format, of "tl cs" q] Cons
      by (simp_all add: less_Suc_eq_le le_diff_conv)
    then show ?thesis by (simp add: Cons le_SucI) (auto simp: le_SucI)
  qed simp
qed

lemma unquote_posix_shorter:
  assumes "line \<noteq> []" "\<not> (quote = None \<and> separates reading (hd line))"
  shows "length (snd (unquote_posix reading quote line)) < length line"
proof -
  obtain c cs where line: "line = c # cs" using assms(1) by (cases line) auto
  have "length (snd (unquote_posix reading quote' cs)) \<le> length cs"
    "length (snd (unquote_posix reading quote' (tl cs))) \<le> length cs" for quote'
    using unquote_posix_length [of reading quote' cs] unquote_posix_length [of reading quote' "tl cs"]
    by simp_all
  then show ?thesis using assms(2) by (simp add: line less_Suc_eq_le) auto
qed

lemma unquote_windows_backslash:
  "unquote_windows reading False quoted (backslash # cs) =
     apfst ((@) (fst (read_backslashes (backslash # cs))))
       (unquote_windows reading False quoted (snd (read_backslashes (backslash # cs))))"
  by (simp add: not_posix_backslash split: prod.split)

lemma unquote_windows_other:
  assumes "c \<noteq> backslash \<or> program"
  shows "unquote_windows reading program quoted (c # cs) =
    (if \<not> quoted \<and> separates reading c then ([], c # cs)
     else if c \<noteq> dquote then apfst ((#) c) (unquote_windows reading program quoted cs)
     else if quoted \<and> \<not> program \<and> cs \<noteq> [] \<and> hd cs = dquote
     then apfst ((#) dquote) (unquote_windows reading program quoted (tl cs))
     else unquote_windows reading program (\<not> quoted) cs)"
  using assms by auto

declare unquote_windows.simps(2) [simp del]

lemma read_backslashes_length: "length (snd (read_backslashes (backslash # cs))) \<le> length cs"
  using read_backslashes_shorter by (metis less_Suc_eq_le prod.collapse)

lemma unquote_windows_length: "length (snd (unquote_windows reading program quoted line)) \<le> length line"
proof (induction line arbitrary: quoted rule: length_induct)
  case (1 line)
  show ?case
  proof (cases line)
    case (Cons c cs)
    have IH: "length ys \<le> length cs \<Longrightarrow> length (snd (unquote_windows reading program q ys)) \<le> length cs"
      for ys q
      using 1 [rule_format, of ys q] Cons by simp
    show ?thesis
    proof (cases "c = backslash \<and> \<not> program")
      case True
      with IH [OF read_backslashes_length [of cs]] Cons show ?thesis
        by (simp add: unquote_windows_backslash le_SucI)
    next
      case False
      then have "c \<noteq> backslash \<or> program" by simp
      from unquote_windows_other [OF this] IH [of cs] IH [of "tl cs"] Cons show ?thesis
        by (simp add: le_SucI) (auto simp: le_SucI)
    qed
  qed simp
qed

lemma unquote_windows_shorter:
  assumes "line \<noteq> []" "quoted \<or> \<not> separates reading (hd line)"
  shows "length (snd (unquote_windows reading program quoted line)) < length line"
proof -
  obtain c cs where line: "line = c # cs" using assms(1) by (cases line) auto
  have L: "length ys \<le> length cs \<Longrightarrow> length (snd (unquote_windows reading program q ys)) \<le> length cs"
    for ys q
    using unquote_windows_length le_trans by blast
  show ?thesis
  proof (cases "c = backslash \<and> \<not> program")
    case True
    with L [OF read_backslashes_length [of cs]] show ?thesis
      by (simp add: line unquote_windows_backslash less_Suc_eq_le)
  next
    case False
    then have "c \<noteq> backslash \<or> program" by simp
    from unquote_windows_other [OF this] L [of cs] L [of "tl cs"] assms(2) show ?thesis
      by (simp add: line less_Suc_eq_le) auto
  qed
qed

lemma unquote_shorter:
  "line \<noteq> [] \<Longrightarrow> \<not> separates reading (hd line) \<Longrightarrow>
     length (snd (unquote reading program line)) < length line"
  "length (snd (unquote reading program line)) \<le> length line"
  using unquote_posix_shorter unquote_windows_shorter unquote_posix_length unquote_windows_length
  by (auto simp: unquote_def)

text \<open>
  The arguments a loop over the view gives: the one at hand, then those after it. The measure
  bounds the \<^verbatim>\<open>++\<close> left: a step takes a character of the line, or turns from the program
  to the arguments after it, or ends.
\<close>

definition steps_left :: "split_iterator \<Rightarrow> nat" where
  "steps_left it =
     (if it_done it then 0 else 1 + 2 * length (it_rest it) + (if it_program it then 1 else 0))"

lemma steps_left_next: "\<not> it_done it \<Longrightarrow> steps_left (split_next it) < steps_left it"
proof -
  assume run: "\<not> it_done it"
  let ?r = "it_reading it" and ?p = "it_program it"
  let ?line = "skip_separators it"
  show ?thesis
  proof (cases "?line = []")
    case True
    then have "split_next it = it\<lparr>it_done := True\<rparr>"
      by (simp only: split_next_def Let_def) simp
    with run show ?thesis by (simp add: steps_left_def)
  next
    case False
    have "length (snd (unquote ?r ?p ?line)) < length (it_rest it) + (if ?p then 1 else 0)"
    proof (cases ?p)
      case True
      then have "length ?line = length (it_rest it)" by (simp add: skip_separators_def)
      with True unquote_shorter(2) [of ?r ?p ?line] show ?thesis by simp
    next
      case program: False
      then have e: "?line = dropWhile (separates ?r) (it_rest it)"
        by (simp add: skip_separators_def)
      have "\<not> separates ?r (hd ?line)" "length ?line \<le> length (it_rest it)"
        using False hd_dropWhile [of "separates ?r" "it_rest it"]
        by (simp_all add: e length_dropWhile_le)
      with False unquote_shorter(1) [of ?line ?r ?p] program show ?thesis by simp
    qed
    then show ?thesis
      using run False
      by (subst split_next_unquote) (auto simp: steps_left_def Let_def split: prod.split)
  qed
qed

function split_collect :: "split_iterator \<Rightarrow> string list" where
  "split_collect it = (if it_done it then [] else it_argument it # split_collect (split_next it))"
  by pat_completeness auto
termination
  by (relation "measure steps_left") (auto simp: steps_left_next)

declare split_collect.simps [simp del]

definition split :: "string \<Rightarrow> Quoting \<Rightarrow> string list" where
  "split line quoting =
     split_collect (split_iterator_of line (if quoting = QWindows then Windows else POSIX))"

section \<open>The reference: every argument unquoted\<close>

function arguments_of :: "Reading \<Rightarrow> bool \<Rightarrow> string \<Rightarrow> string list" where
  "arguments_of reading program line =
     (let line' = (if program then line else dropWhile (separates reading) line)
      in if line' = [] then []
         else fst (unquote reading program line')
                # arguments_of reading False (snd (unquote reading program line')))"
  by pat_completeness auto
termination
proof (relation "measure (\<lambda>(reading, program, line). 2 * length line + (if program then 1 else 0))")
  fix reading program line x
  assume x: "x = (if program then line else dropWhile (separates reading) line)" "x \<noteq> []"
  show "((reading, False, snd (unquote reading program x)), reading, program, line)
      \<in> measure (\<lambda>(reading, program, line). 2 * length line + (if program then 1 else 0))"
  proof (cases program)
    case True
    with x unquote_shorter(2) [of reading program line] show ?thesis by simp
  next
    case False
    then have "\<not> separates reading (hd x)" "length x \<le> length line"
      using x hd_dropWhile [of "separates reading" line] by (simp_all add: length_dropWhile_le)
    with unquote_shorter(1) [of x reading program] x False show ?thesis by simp
  qed
qed simp

declare arguments_of.simps [simp del]

lemma split_collect_next:
  assumes "\<not> it_done it"
  shows "split_collect (split_next it) = arguments_of (it_reading it) (it_program it) (it_rest it)"
  using assms
proof (induction it rule: measure_induct_rule [of steps_left])
  case (less it)
  let ?r = "it_reading it" and ?p = "it_program it"
  let ?line = "skip_separators it"
  have ref: "arguments_of ?r ?p (it_rest it) =
      (if ?line = [] then [] else fst (unquote ?r ?p ?line)
         # arguments_of ?r False (snd (unquote ?r ?p ?line)))"
    by (subst arguments_of.simps) (simp add: skip_separators_def Let_def)
  show ?case
  proof (cases "?line = []")
    case True
    then have "split_next it = it\<lparr>it_done := True\<rparr>" by (simp only: split_next_def Let_def) simp
    with True show ?thesis by (simp add: ref split_collect.simps)
  next
    case False
    obtain a after where u: "unquote ?r ?p ?line = (a, after)" by fastforce
    obtain b where step: "split_next it = it\<lparr>it_rest := after, it_argument := a,
        it_program := False, it_borrowed := b\<rparr>"
      using False u split_next_unquote [of it] by (auto simp: Let_def split: prod.splits)
    have "split_collect (split_next (split_next it)) = arguments_of ?r False after"
      using less.IH [of "split_next it"] steps_left_next [OF less.prems] less.prems
      by (simp add: step)
    then show ?thesis
      using less.prems False by (subst split_collect.simps) (simp add: step ref u)
  qed
qed

lemma split_arguments:
  "split line QWindows = arguments_of Windows True line"
  "split line QPOSIX = arguments_of POSIX False line"
  by (simp_all add: split_def split_iterator_of_def split_collect_next)

section \<open>What join writes is read back\<close>

text \<open>What follows an argument in the line \<^verbatim>\<open>join\<close> writes: nothing, or a blank.\<close>

abbreviation follows :: "string \<Rightarrow> bool" where
  "follows t \<equiv> t = [] \<or> hd t = blank"

lemma posix_plain_not_special:
  "posix_plain c \<Longrightarrow> \<not> separates POSIX c \<and> c \<noteq> squote \<and> c \<noteq> dquote \<and> c \<noteq> backslash"
  by (auto simp: posix_plain_def)

lemma unquote_posix_quoted:
  "follows t \<Longrightarrow> unquote_posix POSIX None (concat (map posix_quoted a) @ t) = (a, t)"
proof (induction a)
  case Nil
  then show ?case by (cases t) auto
next
  case (Cons c a)
  consider "c = newline" | "c \<noteq> newline" "posix_plain c" | "c \<noteq> newline" "\<not> posix_plain c" by blast
  then show ?case
  proof cases
    case 2
    with posix_plain_not_special [of c] Cons show ?thesis by (simp add: posix_quoted_def)
  qed (use Cons in \<open>simp_all add: posix_quoted_def\<close>)
qed

lemma unquote_posix_appended:
  "follows t \<Longrightarrow> unquote_posix POSIX None (append_posix [] a @ t) = (a, t)"
  using unquote_posix_quoted [of t a] by (cases "a = []"; cases t) (auto simp: append_posix_def)

lemma append_posix_start: "append_posix [] a @ t \<noteq> [] \<and> \<not> separates POSIX (hd (append_posix [] a @ t))"
  using posix_plain_not_special [of "hd a"]
  by (cases a) (auto simp: append_posix_def posix_quoted_def)

text \<open>The Windows arguments.\<close>

lemma read_backslashes_quote:
  "read_backslashes (replicate n backslash @ dquote # t) =
     (if n mod 2 = 0 then (replicate (n div 2) backslash, dquote # t)
      else (replicate (n div 2) backslash @ [dquote], t))"
  by (simp add: read_backslashes_def Let_def takeWhile_tail dropWhile_append3 takeWhile_append)

lemma read_backslashes_other:
  assumes "t = [] \<or> hd t \<noteq> dquote \<and> hd t \<noteq> backslash"
  shows "read_backslashes (replicate n backslash @ t) = (replicate n backslash, t)"
proof -
  have "takeWhile (\<lambda>c. c = backslash) t = []" "dropWhile (\<lambda>c. c = backslash) t = t"
    using assms by (cases t; auto)+
  then show ?thesis
    using assms by (auto simp: read_backslashes_def Let_def takeWhile_append dropWhile_append)
qed

lemma unquote_windows_run:
  assumes "0 < n"
  shows "unquote_windows reading False quoted (replicate n backslash @ t) =
    apfst ((@) (fst (read_backslashes (replicate n backslash @ t))))
      (unquote_windows reading False quoted (snd (read_backslashes (replicate n backslash @ t))))"
  using assms unquote_windows_backslash by (cases n) auto

lemma unquote_windows_closed:
  "follows t \<Longrightarrow> unquote_windows Windows False True (dquote # t) = ([], t)"
  by (cases t) (auto simp: unquote_windows_other)

lemma unquote_windows_quoted:
  "follows t \<Longrightarrow> unquote_windows Windows False True (windows_quoted n a @ dquote # t)
     = (replicate n backslash @ a, t)"
proof (induction a arbitrary: n)
  case Nil
  show ?case
  proof (cases "n = 0")
    case True
    with Nil show ?thesis by (simp add: unquote_windows_closed)
  next
    case False
    then show ?thesis
      using unquote_windows_closed [OF Nil] unquote_windows_run [of "n * 2" Windows True "dquote # t"]
      by (simp add: read_backslashes_quote)
  qed
next
  case (Cons c a)
  consider (slash) "c = backslash" | (quote) "c = dquote" | (other) "c \<noteq> backslash" "c \<noteq> dquote" by blast
  then show ?case
  proof cases
    case slash
    with Cons.IH [OF Cons.prems, of "n + 1"] show ?thesis by (simp add: replicate_app_Cons_same)
  next
    case quote
    have "Suc (n * 2) mod 2 = 1" by presburger
    with quote Cons.IH [OF Cons.prems, of 0] show ?thesis
      using unquote_windows_run [of "n * 2 + 1" Windows True "dquote # windows_quoted 0 a @ dquote # t"]
      by (simp add: read_backslashes_quote del: replicate.simps)
  next
    case other
    let ?rest = "c # windows_quoted 0 a @ dquote # t"
    have rest: "unquote_windows Windows False True ?rest = (c # a, t)"
      using Cons.IH [OF Cons.prems, of 0] other by (simp add: unquote_windows_other)
    show ?thesis
    proof (cases n)
      case 0
      with rest other show ?thesis by simp
    next
      case (Suc k)
      with other rest show ?thesis
        using unquote_windows_run [of n Windows True ?rest] read_backslashes_other [of ?rest n]
        by (simp del: replicate.simps)
    qed
  qed
qed

lemma unquote_windows_bare:
  assumes "follows t" "\<forall>c\<in>set a. c \<notin> {blank, tab, newline, vtab, dquote}"
  shows "unquote_windows Windows False False (a @ t) = (a, t)"
  using assms(2)
proof (induction a rule: length_induct)
  case (1 a)
  show ?case
  proof (cases a)
    case Nil
    with assms(1) show ?thesis by (cases t) (auto simp: unquote_windows_other)
  next
    case (Cons c cs)
    show ?thesis
    proof (cases "c = backslash")
      case False
      with 1 Cons show ?thesis by (auto simp: unquote_windows_other)
    next
      case True
      define n where "n = length (takeWhile (\<lambda>c. c = backslash) a)"
      define b where "b = dropWhile (\<lambda>c. c = backslash) a"
      have a: "a = replicate n backslash @ b"
        using takeWhile_eq_replicate [of backslash a] unfolding n_def b_def
        by (metis takeWhile_dropWhile_id)
      have n: "0 < n" using Cons True by (simp add: n_def)
      have "length b < length a"
        using Cons True by (simp add: b_def length_dropWhile_le le_imp_less_Suc)
      moreover have allowed: "\<forall>c\<in>set b. c \<notin> {blank, tab, newline, vtab, dquote}"
        using 1(2) unfolding b_def by (blast dest: set_dropWhileD)
      ultimately have bare: "unquote_windows Windows False False (b @ t) = (b, t)"
        using 1(1) by blast
      have "b \<noteq> [] \<Longrightarrow> hd b \<noteq> backslash" unfolding b_def by (rule hd_dropWhile)
      with assms(1) allowed have "b @ t = [] \<or> hd (b @ t) \<noteq> dquote \<and> hd (b @ t) \<noteq> backslash"
        by (cases b; cases t) auto
      from read_backslashes_other [OF this, of n] bare show ?thesis
        unfolding a using unquote_windows_run [OF n, of Windows False "b @ t"] by simp
    qed
  qed
qed

lemma unquote_windows_appended:
  assumes "follows t"
  shows "unquote_windows Windows False False (append_windows [] a @ t) = (a, t)"
proof (cases "a \<noteq> [] \<and> (\<forall>c\<in>set a. c \<notin> {blank, tab, newline, vtab, dquote})")
  case True
  with unquote_windows_bare [OF assms, of a] show ?thesis by (simp add: append_windows_def)
next
  case False
  then have e: "append_windows [] a @ t = dquote # windows_quoted 0 a @ dquote # t"
    by (auto simp: append_windows_def)
  show ?thesis
    unfolding e using unquote_windows_quoted [OF assms, of 0 a]
    by (simp add: unquote_windows_other)
qed

lemma append_windows_start:
  "append_windows [] a @ t \<noteq> [] \<and> \<not> separates Windows (hd (append_windows [] a @ t))"
  by (cases a) (auto simp: append_windows_def)

lemma unquote_windows_program:
  assumes "follows t" "dquote \<notin> set p"
  shows "unquote_windows Windows True False (append_windows_program [] p @ t) = (p, t)"
proof -
  have quoted: "unquote_windows Windows True True (q @ dquote # t) = (q, t)" if "dquote \<notin> set q" for q
    using that assms(1)
    by (induction q) (cases t; auto simp: unquote_windows_other)+
  have bare: "unquote_windows Windows True False (q @ t) = (q, t)"
    if "\<forall>c\<in>set q. c \<notin> {blank, tab, dquote}" for q
    using that assms(1)
    by (induction q) (cases t; auto simp: unquote_windows_other)+
  show ?thesis
  proof (cases "p = [] \<or> (\<exists>c\<in>set p. c \<in> {blank, tab})")
    case True
    then have "append_windows_program [] p @ t = dquote # p @ dquote # t"
      by (simp add: append_windows_program_def)
    with quoted [OF assms(2)] show ?thesis by (simp add: unquote_windows_other)
  next
    case False
    with assms(2) have "\<forall>c\<in>set p. c \<notin> {blank, tab, dquote}" by auto
    with False bare [of p] show ?thesis by (auto simp: append_windows_program_def)
  qed
qed

text \<open>
  What a way of quoting promises the reader of the line: quoted arguments separated by blanks
  are read back as they were.
\<close>

locale readable_quoting =
  fixes reading :: Reading and quoted :: "string \<Rightarrow> string"
  assumes unquote_quoted: "follows t \<Longrightarrow> unquote reading False (quoted a @ t) = (a, t)"
    and quoted_start: "quoted a @ t \<noteq> [] \<and> \<not> separates reading (hd (quoted a @ t))"
    and blank_separates: "separates reading blank"
begin

definition after_first :: "string list \<Rightarrow> string" where
  "after_first arguments = concat (map (\<lambda>a. blank # quoted a) arguments)"

lemma follows_after_first: "follows (after_first arguments)"
  by (cases arguments) (simp_all add: after_first_def)

lemma arguments_of_quoted:
  assumes "follows t"
  shows "arguments_of reading False (quoted a @ t) = a # arguments_of reading False t"
proof -
  have "dropWhile (separates reading) (quoted a @ t) = quoted a @ t"
    using quoted_start [of a t] by (cases "quoted a @ t") auto
  with quoted_start [of a t] show ?thesis
    by (subst arguments_of.simps) (simp add: Let_def unquote_quoted [OF assms])
qed

lemma arguments_of_blank: "arguments_of reading False (blank # t) = arguments_of reading False t"
  by (simp add: arguments_of.simps [of reading False "blank # t"]
      arguments_of.simps [of reading False t] blank_separates)

lemma arguments_of_after_first: "arguments_of reading False (after_first arguments) = arguments"
proof (induction arguments)
  case Nil
  then show ?case by (simp add: after_first_def arguments_of.simps)
next
  case (Cons a arguments)
  have "after_first (a # arguments) = blank # quoted a @ after_first arguments"
    by (simp add: after_first_def)
  with Cons show ?case
    by (simp add: arguments_of_blank arguments_of_quoted follows_after_first)
qed

end

interpretation posix_quoting: readable_quoting POSIX "append_posix []"
  by unfold_locales (use unquote_posix_appended append_posix_start in \<open>auto simp: unquote_def posix_def\<close>)

interpretation windows_quoting: readable_quoting Windows "append_windows []"
  by unfold_locales
    (use unquote_windows_appended append_windows_start in \<open>auto simp: unquote_def posix_def\<close>)

lemma append_out:
  "append_posix out a = out @ append_posix [] a"
  "append_windows out a = out @ append_windows [] a"
  "append_windows_program out a = out @ append_windows_program [] a"
  by (simp_all add: append_posix_def append_windows_def append_windows_program_def Let_def)

lemma join_from_posix:
  "0 < i \<Longrightarrow> join_from out i arguments QPOSIX = out @ posix_quoting.after_first arguments"
proof (induction arguments arbitrary: out i)
  case (Cons a arguments)
  then show ?case
    by (simp add: posix_quoting.after_first_def append_out(1) [of "out @ [blank]"] Let_def)
qed (simp add: posix_quoting.after_first_def)

lemma join_from_windows:
  "0 < i \<Longrightarrow> join_from out i arguments QWindows = out @ windows_quoting.after_first arguments"
proof (induction arguments arbitrary: out i)
  case (Cons a arguments)
  then show ?case
    by (simp add: windows_quoting.after_first_def append_out(2) [of "out @ [blank]"] Let_def)
qed (simp add: windows_quoting.after_first_def)

text \<open>
  C18: \<^verbatim>\<open>split\<close> reads back, for POSIX quoting, every list of arguments
  \<^verbatim>\<open>join\<close> writes, whatever bytes they hold: empty ones, quotes, backslashes, newlines.
\<close>

theorem split_join_posix: "split (join arguments QPOSIX) QPOSIX = arguments"
proof (cases arguments)
  case Nil
  then show ?thesis by (simp add: split_arguments join_def arguments_of.simps)
next
  case (Cons a rest)
  have "join arguments QPOSIX = append_posix [] a @ posix_quoting.after_first rest"
    by (simp add: join_def Cons Let_def join_from_posix)
  then show ?thesis
    by (simp add: split_arguments Cons posix_quoting.arguments_of_quoted
        posix_quoting.follows_after_first posix_quoting.arguments_of_after_first)
qed

text \<open>
  C19: for Windows quoting, \<^verbatim>\<open>split\<close> reads back the program, which holds
  no quote, and every argument after it: backslashes before quotes and at the end included.
\<close>

theorem split_join_windows:
  assumes "arguments \<noteq> [] \<Longrightarrow> dquote \<notin> set (hd arguments)"
  shows "split (join arguments QWindows) QWindows = arguments"
proof (cases arguments)
  case Nil
  then show ?thesis by (simp add: split_arguments join_def arguments_of.simps)
next
  case (Cons p rest)
  have line: "join (p # rest) QWindows = append_windows_program [] p @ windows_quoting.after_first rest"
    by (simp add: join_def Let_def join_from_windows)
  have "unquote Windows True (join (p # rest) QWindows) = (p, windows_quoting.after_first rest)"
    using assms Cons windows_quoting.follows_after_first
    by (simp add: line unquote_def posix_def unquote_windows_program)
  moreover have "join (p # rest) QWindows \<noteq> []"
    by (auto simp: line append_windows_program_def Let_def)
  ultimately show ?thesis
    by (simp add: split_arguments arguments_of.simps [of Windows True] Let_def
        windows_quoting.arguments_of_after_first Cons)
qed

theorem split_join_windows_witness:
  "split (join [''a b'', [backslash, dquote], ''c'' @ [backslash, blank, backslash]] QWindows) QWindows
     = [''a b'', [backslash, dquote], ''c'' @ [backslash, blank, backslash]]"
  by (rule split_join_windows) simp

section \<open>Response files\<close>

text \<open>The units of UTF-16 text of an even number of bytes (the loop of \<^verbatim>\<open>decode\<close>).\<close>

fun utf16_units :: "bool \<Rightarrow> string \<Rightarrow> nat list" where
  "utf16_units little (first # second # rest) =
     (if little then uchar first OR push_bit 8 (uchar second)
      else push_bit 8 (uchar first) OR uchar second) # utf16_units little rest"
| "utf16_units little rest = []"

text \<open>\<^verbatim>\<open>decode\<close>: the text it leaves, or nothing where it returns false.\<close>

definition decode_file :: "string \<Rightarrow> string option" where
  "decode_file text =
     (if take 3 text = [CHR 0xEF, CHR 0xBB, CHR 0xBF] then Some (drop 3 text)
      else let little = (take 2 text = [CHR 0xFF, CHR 0xFE])
           in if \<not> little \<and> take 2 text \<noteq> [CHR 0xFE, CHR 0xFF] then Some text
              else if length text mod 2 \<noteq> 0 then None
              else Some (from_utf16 (utf16_units little (drop 2 text))))"

definition max_depth :: nat where
  "max_depth = 8"

text \<open>
  The state of \<^verbatim>\<open>expand_view::iterator\<close> beside what it was made with: the command's
  arguments, the quoting and the callback \<^verbatim>\<open>read\<close>, which gives the text of a file or
  nothing for an error. The files are innermost first.
\<close>

record expand_iterator =
  ex_index :: nat
  ex_files :: "split_iterator list"
  ex_argument :: string
  ex_done :: bool

definition file_arguments :: "Quoting \<Rightarrow> string \<Rightarrow> split_iterator" where
  "file_arguments quoting text =
     split_iterator_of text (if quoting = QWindows then WindowsFile else POSIXFile)"

fun advance :: "expand_iterator \<Rightarrow> expand_iterator" where
  "advance ex =
     (case ex_files ex of
        [] \<Rightarrow> ex\<lparr>ex_index := ex_index ex + 1\<rparr>
      | f # fs \<Rightarrow> ex\<lparr>ex_files := split_next f # fs\<rparr>)"

text \<open>The response file an argument names, its text decoded: \<^verbatim>\<open>@name\<close>, read without an
  error.\<close>

definition response_file :: "(string \<Rightarrow> string option) \<Rightarrow> string \<Rightarrow> string option" where
  "response_file read a =
     (if a = [] \<or> hd a \<noteq> CHR ''@'' then None
      else case read (tl a) of None \<Rightarrow> None | Some text \<Rightarrow> decode_file text)"

text \<open>
  The work left, which each turn of \<^verbatim>\<open>settle\<close> shrinks: an argument counts for itself, and
  a response file for all it holds, so long as it is not too deep to be read.
\<close>

fun expand_weight :: "Quoting \<Rightarrow> (string \<Rightarrow> string option) \<Rightarrow> nat \<Rightarrow> string \<Rightarrow> nat" where
  "expand_weight quoting read 0 a = 1"
| "expand_weight quoting read (Suc k) a =
     (case response_file read a of
        None \<Rightarrow> 1
      | Some text \<Rightarrow>
          2 + sum_list (map (expand_weight quoting read k)
                         (split_collect (file_arguments quoting text))))"

abbreviation weight_of :: "Quoting \<Rightarrow> (string \<Rightarrow> string option) \<Rightarrow> nat \<Rightarrow> string list \<Rightarrow> nat" where
  "weight_of quoting read k as \<equiv> sum_list (map (expand_weight quoting read k) as)"

fun outer_weight :: "Quoting \<Rightarrow> (string \<Rightarrow> string option) \<Rightarrow> split_iterator list \<Rightarrow> string list \<Rightarrow> nat" where
  "outer_weight quoting read [] later = Suc (weight_of quoting read max_depth later)"
| "outer_weight quoting read (f # fs) later =
     Suc (weight_of quoting read (max_depth - Suc (length fs)) (tl (split_collect f)))
       + outer_weight quoting read fs later"

definition work_left :: "string list \<Rightarrow> Quoting \<Rightarrow> (string \<Rightarrow> string option) \<Rightarrow> expand_iterator \<Rightarrow> nat" where
  "work_left arguments quoting read ex =
     (case ex_files ex of
        [] \<Rightarrow> weight_of quoting read max_depth (drop (ex_index ex) arguments)
      | f # fs \<Rightarrow> weight_of quoting read (max_depth - Suc (length fs)) (split_collect f)
                    + outer_weight quoting read fs (drop (Suc (ex_index ex)) arguments))"

lemma split_collect_tl:
  "split_collect (split_next f) = tl (split_collect f)" if "\<not> it_done f"
  using that by (simp add: split_collect.simps [of f])

lemma split_collect_done: "it_done f \<Longrightarrow> split_collect f = []"
  by (simp add: split_collect.simps)

lemma split_next_done: "it_done f \<Longrightarrow> it_done (split_next f)"
  by (subst split_next_unquote) (auto simp: Let_def split: prod.split)

lemma split_collect_next_tl: "split_collect (split_next f) = tl (split_collect f)"
  using split_collect_tl split_collect_done split_next_done by (cases "it_done f") auto

lemma work_left_pop:
  assumes "ex_files ex = f # fs" "it_done f"
  shows "work_left arguments quoting read (advance (ex\<lparr>ex_files := fs\<rparr>)) < work_left arguments quoting read ex"
  using assms
  by (cases fs) (simp_all add: work_left_def split_collect_done split_collect_next_tl)

lemma work_left_push:
  assumes room: "length (ex_files ex) < max_depth" and found: "response_file read a = Some text"
    and at_hand: "case ex_files ex of [] \<Rightarrow> ex_index ex < length arguments \<and> a = arguments ! ex_index ex
      | f # fs \<Rightarrow> \<not> it_done f \<and> a = it_argument f"
  shows "work_left arguments quoting read
      (ex\<lparr>ex_argument := b, ex_files := file_arguments quoting text # ex_files ex\<rparr>)
    < work_left arguments quoting read ex"
proof -
  let ?w = "weight_of quoting read" and ?as = "split_collect (file_arguments quoting text)"
  obtain k where k: "max_depth - length (ex_files ex) = Suc k"
    using room by (metis Suc_diff_Suc)
  then have k': "max_depth - Suc (length (ex_files ex)) = k" by simp
  have w: "expand_weight quoting read (Suc k) a = 2 + ?w k ?as"
    using found by simp
  show ?thesis
  proof (cases "ex_files ex")
    case Nil
    then have "drop (ex_index ex) arguments = a # drop (Suc (ex_index ex)) arguments"
      using at_hand by (simp add: Cons_nth_drop_Suc)
    with Nil k k' w show ?thesis by (simp add: work_left_def)
  next
    case (Cons f fs)
    then have "split_collect f = a # split_collect (split_next f)"
      using at_hand by (subst split_collect.simps) simp
    with Cons k k' w show ?thesis by (simp add: work_left_def)
  qed
qed


text \<open>
  \<^verbatim>\<open>settle\<close>. The index never passes the number of arguments, nor the depth
  \<^verbatim>\<open>max_depth\<close>: the code tests each for equality.
\<close>

function settle :: "string list \<Rightarrow> Quoting \<Rightarrow> (string \<Rightarrow> string option) \<Rightarrow> expand_iterator \<Rightarrow> expand_iterator" where
  "settle arguments quoting read ex =
     (if ex_files ex \<noteq> [] \<and> it_done (hd (ex_files ex))
      then settle arguments quoting read (advance (ex\<lparr>ex_files := tl (ex_files ex)\<rparr>))
      else if ex_files ex = [] \<and> length arguments \<le> ex_index ex then ex\<lparr>ex_done := True\<rparr>
      else let a = (if ex_files ex = [] then arguments ! ex_index ex else it_argument (hd (ex_files ex)));
               ex = ex\<lparr>ex_argument := a\<rparr>
           in if max_depth \<le> length (ex_files ex) then ex
              else case response_file read a of
                     None \<Rightarrow> ex
                   | Some text \<Rightarrow>
                       settle arguments quoting read
                         (ex\<lparr>ex_files := file_arguments quoting text # ex_files ex\<rparr>))"
  by pat_completeness auto
termination
proof (relation "measure (\<lambda>(arguments, quoting, read, ex). work_left arguments quoting read ex)", goal_cases)
  case (2 arguments quoting read ex)
  then show ?case
    using work_left_pop [of ex "hd (ex_files ex)" "tl (ex_files ex)" arguments quoting read]
    by (simp del: advance.simps)
next
  case (3 arguments quoting read ex a ex' t)
  have "case ex_files ex of [] \<Rightarrow> ex_index ex < length arguments \<and> a = arguments ! ex_index ex
      | f # fs \<Rightarrow> \<not> it_done f \<and> a = it_argument f"
    using 3 by (cases "ex_files ex") auto
  with 3 show ?case
    using work_left_push [of ex read a t arguments quoting a] by simp
qed simp

declare settle.simps [simp del]

definition expand_iterator_of :: "string list \<Rightarrow> Quoting \<Rightarrow> (string \<Rightarrow> string option) \<Rightarrow> expand_iterator" where
  "expand_iterator_of arguments quoting read =
     settle arguments quoting read
       \<lparr>ex_index = 0, ex_files = [], ex_argument = [], ex_done = False\<rparr>"

definition expand_next :: "string list \<Rightarrow> Quoting \<Rightarrow> (string \<Rightarrow> string option) \<Rightarrow> expand_iterator \<Rightarrow> expand_iterator" where
  "expand_next arguments quoting read ex = settle arguments quoting read (advance ex)"

text \<open>
  The reference: an argument expands to those of the response file it names, each expanded in
  turn, to a depth of \<open>k\<close>.
\<close>

fun expanded :: "Quoting \<Rightarrow> (string \<Rightarrow> string option) \<Rightarrow> nat \<Rightarrow> string \<Rightarrow> string list" where
  "expanded quoting read 0 a = [a]"
| "expanded quoting read (Suc k) a =
     (case response_file read a of
        None \<Rightarrow> [a]
      | Some text \<Rightarrow>
          concat (map (expanded quoting read k) (split_collect (file_arguments quoting text))))"

abbreviation all_expanded :: "Quoting \<Rightarrow> (string \<Rightarrow> string option) \<Rightarrow> nat \<Rightarrow> string list \<Rightarrow> string list" where
  "all_expanded quoting read k as \<equiv> concat (map (expanded quoting read k) as)"

fun outer_pending :: "Quoting \<Rightarrow> (string \<Rightarrow> string option) \<Rightarrow> split_iterator list \<Rightarrow> string list \<Rightarrow> string list" where
  "outer_pending quoting read [] later = all_expanded quoting read max_depth later"
| "outer_pending quoting read (f # fs) later =
     all_expanded quoting read (max_depth - Suc (length fs)) (tl (split_collect f))
       @ outer_pending quoting read fs later"

text \<open>What an iterator that is not done has yet to give.\<close>

definition pending :: "string list \<Rightarrow> Quoting \<Rightarrow> (string \<Rightarrow> string option) \<Rightarrow> expand_iterator \<Rightarrow> string list" where
  "pending arguments quoting read ex =
     (case ex_files ex of
        [] \<Rightarrow> all_expanded quoting read max_depth (drop (ex_index ex) arguments)
      | f # fs \<Rightarrow> all_expanded quoting read (max_depth - Suc (length fs)) (split_collect f)
                    @ outer_pending quoting read fs (drop (Suc (ex_index ex)) arguments))"

text \<open>An iterator on an argument it gives as it is.\<close>

definition settled :: "string list \<Rightarrow> (string \<Rightarrow> string option) \<Rightarrow> expand_iterator \<Rightarrow> bool" where
  "settled arguments read ex \<longleftrightarrow>
     length (ex_files ex) \<le> max_depth
     \<and> (length (ex_files ex) = max_depth \<or> response_file read (ex_argument ex) = None)
     \<and> (case ex_files ex of
          [] \<Rightarrow> ex_index ex < length arguments \<and> ex_argument ex = arguments ! ex_index ex
        | f # fs \<Rightarrow> \<not> it_done f \<and> ex_argument ex = it_argument f)"

lemma expanded_plain: "response_file read a = None \<Longrightarrow> expanded quoting read k a = [a]"
  by (cases k) simp_all

lemma pending_pop:
  assumes "ex_files ex = f # fs" "it_done f"
  shows "pending arguments quoting read (advance (ex\<lparr>ex_files := fs\<rparr>)) = pending arguments quoting read ex"
  using assms
  by (cases fs) (simp_all add: pending_def split_collect_done split_collect_next_tl)

lemma pending_at_hand:
  assumes "case ex_files ex of [] \<Rightarrow> ex_index ex < length arguments \<and> a = arguments ! ex_index ex
      | f # fs \<Rightarrow> \<not> it_done f \<and> a = it_argument f"
  shows "pending arguments quoting read ex
    = expanded quoting read (max_depth - length (ex_files ex)) a
        @ outer_pending quoting read (ex_files ex) (drop (Suc (ex_index ex)) arguments)"
proof (cases "ex_files ex")
  case Nil
  then have "drop (ex_index ex) arguments = a # drop (Suc (ex_index ex)) arguments"
    using assms by (simp add: Cons_nth_drop_Suc)
  with Nil show ?thesis by (simp add: pending_def)
next
  case (Cons f fs)
  then have "split_collect f = a # split_collect (split_next f)"
    using assms by (subst split_collect.simps) simp
  with Cons show ?thesis by (simp add: pending_def)
qed

lemma pending_push:
  assumes room: "length (ex_files ex) < max_depth" and found: "response_file read a = Some text"
    and at_hand: "case ex_files ex of [] \<Rightarrow> ex_index ex < length arguments \<and> a = arguments ! ex_index ex
      | f # fs \<Rightarrow> \<not> it_done f \<and> a = it_argument f"
  shows "pending arguments quoting read
      (ex\<lparr>ex_argument := b, ex_files := file_arguments quoting text # ex_files ex\<rparr>)
    = pending arguments quoting read ex"
proof -
  obtain k where k: "max_depth - length (ex_files ex) = Suc k"
    using room by (metis Suc_diff_Suc)
  then have "max_depth - Suc (length (ex_files ex)) = k" by simp
  then show ?thesis
    using found k by (simp add: pending_at_hand [OF at_hand]) (simp add: pending_def)
qed

lemma pending_advance:
  assumes "settled arguments read ex"
  shows "pending arguments quoting read ex
    = ex_argument ex # pending arguments quoting read (advance ex)"
proof -
  have "expanded quoting read (max_depth - length (ex_files ex)) (ex_argument ex) = [ex_argument ex]"
    using assms by (auto simp: settled_def expanded_plain)
  moreover have "outer_pending quoting read (ex_files ex) (drop (Suc (ex_index ex)) arguments)
      = pending arguments quoting read (advance ex)"
    by (cases "ex_files ex") (simp_all add: pending_def split_collect_next_tl)
  ultimately show ?thesis
    using assms pending_at_hand [of ex arguments "ex_argument ex"] by (simp add: settled_def)
qed

lemma settle_correct:
  assumes "\<not> ex_done ex" "length (ex_files ex) \<le> max_depth"
  shows "if ex_done (settle arguments quoting read ex) then pending arguments quoting read ex = []
    else settled arguments read (settle arguments quoting read ex)
         \<and> pending arguments quoting read (settle arguments quoting read ex) = pending arguments quoting read ex
         \<and> work_left arguments quoting read (settle arguments quoting read ex) \<le> work_left arguments quoting read ex"
  using assms
proof (induction arguments quoting read ex rule: settle.induct)
  case (1 arguments quoting read ex)
  let ?files = "ex_files ex"
  define a where "a = (if ?files = [] then arguments ! ex_index ex else it_argument (hd ?files))"
  consider (pop) "?files \<noteq> []" "it_done (hd ?files)"
    | (over) "?files = []" "length arguments \<le> ex_index ex"
    | (at) "\<not> (?files \<noteq> [] \<and> it_done (hd ?files))" "\<not> (?files = [] \<and> length arguments \<le> ex_index ex)"
    by blast
  then show ?case
  proof cases
    case pop
    let ?ex = "advance (ex\<lparr>ex_files := tl ?files\<rparr>)"
    have files: "?files = hd ?files # tl ?files" using pop by simp
    have "Suc (length (tl ?files)) \<le> max_depth"
      using "1.prems"(2) pop(1) by (cases ?files) auto
    then have "\<not> ex_done ?ex" "length (ex_files ?ex) \<le> max_depth"
      using "1.prems"(1) by (cases "tl ?files"; simp del: length_tl)+
    from "1.IH"(1) [OF conjI [OF pop] this] show ?thesis
      using pending_pop [OF files pop(2), of arguments quoting read]
        work_left_pop [OF files pop(2), of arguments quoting read] pop
      by (simp add: settle.simps [of arguments quoting read ex] del: advance.simps split: if_splits)
  next
    case over
    then show ?thesis by (simp add: settle.simps [of arguments quoting read ex] pending_def)
  next
    case at
    have at_hand: "case ?files of [] \<Rightarrow> ex_index ex < length arguments \<and> a = arguments ! ex_index ex
        | f # fs \<Rightarrow> \<not> it_done f \<and> a = it_argument f"
      using at by (cases ?files) (auto simp: a_def)
    have same: "pending arguments quoting read (ex\<lparr>ex_argument := a\<rparr>) = pending arguments quoting read ex"
        "work_left arguments quoting read (ex\<lparr>ex_argument := a\<rparr>) = work_left arguments quoting read ex"
      by (simp_all add: pending_def work_left_def split: list.split)
    show ?thesis
    proof (cases "max_depth \<le> length ?files \<or> response_file read a = None")
      case True
      then have "settle arguments quoting read ex = ex\<lparr>ex_argument := a\<rparr>"
        using at by (auto simp: settle.simps [of arguments quoting read ex] a_def Let_def)
      with True at_hand "1.prems" same show ?thesis by (auto simp: settled_def split: list.splits)
    next
      case False
      then obtain t where t: "response_file read a = Some t" and room: "length ?files < max_depth"
        by auto
      let ?ex = "ex\<lparr>ex_argument := a, ex_files := file_arguments quoting t # ?files\<rparr>"
      have eq: "settle arguments quoting read ex = settle arguments quoting read ?ex"
        using at t room by (auto simp: settle.simps [of arguments quoting read ex] a_def Let_def)
      have "\<not> ex_done ?ex" "length (ex_files ?ex) \<le> max_depth" using "1.prems" room by simp_all
      with "1.IH"(2) [OF at a_def refl _ t] show ?thesis
        using pending_push [OF room t at_hand, of quoting a]
          work_left_push [OF room t at_hand, of quoting a] room
        unfolding eq by (simp split: if_splits)
    qed
  qed
qed

text \<open>Every argument an iterator gives, as a \<^verbatim>\<open>for\<close> over the view does.\<close>

partial_function (option) expand_collect ::
    "string list \<Rightarrow> Quoting \<Rightarrow> (string \<Rightarrow> string option) \<Rightarrow> expand_iterator \<Rightarrow> string list option" where
  "expand_collect arguments quoting read ex =
     (if ex_done ex then Some []
      else Option.bind (expand_collect arguments quoting read (expand_next arguments quoting read ex))
             (\<lambda>later. Some (ex_argument ex # later)))"

definition expand :: "string list \<Rightarrow> Quoting \<Rightarrow> (string \<Rightarrow> string option) \<Rightarrow> string list option" where
  "expand arguments quoting read =
     expand_collect arguments quoting read (expand_iterator_of arguments quoting read)"

lemma advance_kept: "ex_done (advance ex) = ex_done ex" "length (ex_files (advance ex)) = length (ex_files ex)"
  by (auto split: list.split)

lemma expand_collect_settle:
  assumes "\<not> ex_done ex" "length (ex_files ex) \<le> max_depth"
  shows "expand_collect arguments quoting read (settle arguments quoting read ex)
    = Some (pending arguments quoting read ex)"
  using assms
proof (induction "length (pending arguments quoting read ex)" arbitrary: ex)
  case 0
  then have "ex_done (settle arguments quoting read ex)"
    using settle_correct [OF 0(2,3), of arguments quoting read] pending_advance
    by (fastforce split: if_splits)
  with 0 show ?case by (simp add: expand_collect.simps)
next
  case (Suc n)
  let ?ex = "settle arguments quoting read ex"
  have "\<not> ex_done ?ex" and at: "settled arguments read ?ex"
    and same: "pending arguments quoting read ?ex = pending arguments quoting read ex"
    using settle_correct [OF Suc(3,4), of arguments quoting read] Suc(2) by (auto split: if_splits)
  note step = pending_advance [OF at, of quoting, unfolded same]
  have "expand_collect arguments quoting read (settle arguments quoting read (advance ?ex))
      = Some (pending arguments quoting read (advance ?ex))"
    using Suc(2) step \<open>\<not> ex_done ?ex\<close> at
    by (intro Suc(1)) (simp_all add: advance_kept settled_def del: advance.simps)
  then show ?case
    using \<open>\<not> ex_done ?ex\<close> step
    by (subst expand_collect.simps) (simp add: expand_next_def)
qed

text \<open>
  C12: the iteration of \<^verbatim>\<open>expand\<close> ends, whatever the response files hold
  (files that name one another in a circle included), and gives the arguments of the command
  with each \<^verbatim>\<open>@name\<close> replaced, in its place, by the expanded arguments of the file it
  names, eight files deep; one whose file is not read, or is too deep, stays as written.
\<close>

theorem expand_correct:
  "expand arguments quoting read = Some (concat (map (expanded quoting read 8) arguments))"
  unfolding expand_def expand_iterator_of_def
  by (subst expand_collect_settle) (simp_all add: pending_def max_depth_def)

end
