(* ===== verification/Views.thy ===== *)
theory Views
  imports Prelude
begin

text \<open>
  What the code uses of the standard library's text: searching a \<^verbatim>\<open>std::string_view\<close>
  (\<^verbatim>\<open>find\<close>, \<^verbatim>\<open>starts_with\<close>, \<^verbatim>\<open>ends_with\<close>), and reading and writing a
  \<^verbatim>\<open>std::size_t\<close> in decimal (\<^verbatim>\<open>std::from_chars\<close>, \<^verbatim>\<open>std::format\<close>). A
  position is \<^const>\<open>None\<close> for \<^verbatim>\<open>npos\<close>.
\<close>

section \<open>Searching\<close>

definition starts_with :: "string \<Rightarrow> string \<Rightarrow> bool" where
  "starts_with s p \<longleftrightarrow> take (length p) s = p"

definition ends_with :: "string \<Rightarrow> string \<Rightarrow> bool" where
  "ends_with s p \<longleftrightarrow> length p \<le> length s \<and> drop (length s - length p) s = p"

fun find_text :: "string \<Rightarrow> string \<Rightarrow> nat option" where
  "find_text p [] = (if p = [] then Some 0 else None)"
| "find_text p (c # s) = (if starts_with (c # s) p then Some 0 else map_option Suc (find_text p s))"

fun find_char :: "(char \<Rightarrow> bool) \<Rightarrow> string \<Rightarrow> nat option" where
  "find_char P [] = None"
| "find_char P (c # s) = (if P c then Some 0 else map_option Suc (find_char P s))"

definition find_last_char :: "(char \<Rightarrow> bool) \<Rightarrow> string \<Rightarrow> nat option" where
  "find_last_char P s = map_option (\<lambda>i. length s - 1 - i) (find_char P (rev s))"

lemma starts_with_iff [view_simps]: "starts_with s p \<longleftrightarrow> (\<exists>t. s = p @ t)"
  unfolding starts_with_def by (metis append_eq_conv_conj append_take_drop_id)

lemma starts_with_append [simp]: "starts_with (p @ t) p"
  by (auto simp: starts_with_iff)

lemma starts_with_mono: "starts_with s p \<Longrightarrow> starts_with (s @ t) p"
  by (auto simp: starts_with_iff)

lemma starts_with_length: "starts_with s p \<Longrightarrow> length p \<le> length s"
  by (auto simp: starts_with_iff)

lemma starts_with_append_iff: "length p \<le> length s \<Longrightarrow> starts_with (s @ t) p \<longleftrightarrow> starts_with s p"
  by (simp add: starts_with_def)

lemma ends_with_iff [view_simps]: "ends_with s p \<longleftrightarrow> (\<exists>t. s = t @ p)"
proof
  assume "ends_with s p"
  then show "\<exists>t. s = t @ p" unfolding ends_with_def by (metis append_take_drop_id)
qed (auto simp: ends_with_def)

text \<open>\<^verbatim>\<open>find\<close> gives the first occurrence, if any.\<close>

lemma find_text_Some:
  "find_text p s = Some i \<longleftrightarrow> i \<le> length s \<and> starts_with (drop i s) p \<and> (\<forall>j<i. \<not> starts_with (drop j s) p)"
proof (induction s arbitrary: i)
  case Nil
  then show ?case by (auto simp: starts_with_def)
next
  case (Cons c s)
  show ?case
  proof (cases i)
    case 0
    then show ?thesis by (auto split: option.split)
  next
    case (Suc k)
    have "(\<forall>j<Suc k. \<not> starts_with (drop j (c # s)) p)
        \<longleftrightarrow> \<not> starts_with (c # s) p \<and> (\<forall>j<k. \<not> starts_with (drop j s) p)"
      by (auto simp: less_Suc_eq_0_disj)
    with Cons Suc show ?thesis by auto
  qed
qed

lemma find_text_None:
  "find_text p s = None \<longleftrightarrow> (\<forall>j\<le>length s. \<not> starts_with (drop j s) p)"
proof (induction s)
  case Nil
  then show ?case by (simp add: starts_with_def)
next
  case (Cons c s)
  have "(\<forall>j\<le>length (c # s). \<not> starts_with (drop j (c # s)) p)
      \<longleftrightarrow> \<not> starts_with (c # s) p \<and> (\<forall>j\<le>length s. \<not> starts_with (drop j s) p)"
    by (metis (no_types, lifting) drop0 drop_Suc_Cons le0 length_Cons not0_implies_Suc Suc_le_mono)
  with Cons show ?case by simp
qed

lemma find_text_end: "find_text p s = Some i \<Longrightarrow> i + length p \<le> length s"
  using starts_with_length by (fastforce simp: find_text_Some)

lemma find_text_append:
  assumes "find_text p s = Some i"
  shows "find_text p (s @ t) = Some i"
proof -
  have end_: "i + length p \<le> length s" by (rule find_text_end [OF assms])
  then have "starts_with (drop i s @ t) p" "\<forall>j<i. \<not> starts_with (drop j s @ t) p"
    using assms by (auto simp: find_text_Some starts_with_append_iff)
  then show ?thesis using end_ by (simp add: find_text_Some)
qed

lemma find_text_append_None:
  assumes "find_text p s = None" "find_text p (s @ t) = Some i"
  shows "length s < i + length p"
proof (rule ccontr)
  assume "\<not> ?thesis"
  then have "i + length p \<le> length s" by simp
  then have "starts_with (drop i s) p" using assms(2)
    by (simp add: find_text_Some starts_with_append_iff)
  with assms(1) \<open>i + length p \<le> length s\<close> show False by (auto simp: find_text_None)
qed

lemma find_text_take:
  assumes "find_text p s = Some i" "i + length p \<le> n"
  shows "find_text p (take n s) = Some i"
proof (cases "find_text p (take n s)")
  case None
  have "find_text p (take n s @ drop n s) = Some i" using assms by simp
  from find_text_append_None [OF None this] show ?thesis
    using assms find_text_end [OF assms(1)] by simp
next
  case (Some k)
  from find_text_append [OF this, of "drop n s"] assms show ?thesis using Some by simp
qed

lemma find_char_iff:
  "find_char P s = Some i \<longleftrightarrow> i < length s \<and> P (s ! i) \<and> (\<forall>j<i. \<not> P (s ! j))"
proof (induction s arbitrary: i)
  case (Cons c s)
  show ?case
  proof (cases i)
    case (Suc k)
    have "(\<forall>j<Suc k. \<not> P ((c # s) ! j)) \<longleftrightarrow> \<not> P c \<and> (\<forall>j<k. \<not> P (s ! j))"
      by (auto simp: less_Suc_eq_0_disj)
    with Cons Suc show ?thesis by auto
  qed (auto split: option.split)
qed simp

lemma find_char_None: "find_char P s = None \<longleftrightarrow> (\<forall>c\<in>set s. \<not> P c)"
  by (induction s) auto

lemma find_char_takeWhile: "find_char P s = Some i \<Longrightarrow> take i s = takeWhile (\<lambda>c. \<not> P c) s"
  by (induction s arbitrary: i) (auto split: if_splits)

lemma find_char_append:
  "find_char P (s @ t) = (case find_char P s of Some i \<Rightarrow> Some i | None \<Rightarrow> map_option ((+) (length s)) (find_char P t))"
proof (induction s)
  case Nil
  then show ?case by (cases "find_char P t") auto
next
  case (Cons c s)
  then show ?case
    by (cases "find_char P s"; cases "find_char P t") (auto split: if_splits)
qed

lemma find_char_length: "find_char P s = Some i \<Longrightarrow> i < length s"
  by (simp add: find_char_iff)

section \<open>Numbers in decimal\<close>

definition is_decimal :: "char \<Rightarrow> bool" where
  "is_decimal c \<longleftrightarrow> between CHR ''0'' c CHR ''9''"

fun decimal :: "nat \<Rightarrow> string" where
  "decimal n = (if n < 10 then [to_char (48 + n)] else decimal (n div 10) @ [to_char (48 + n mod 10)])"

declare decimal.simps [simp del]

definition decimal_value :: "string \<Rightarrow> nat" where
  "decimal_value = foldl (\<lambda>n c. n * 10 + (uchar c - 48)) 0"

text \<open>
  \<^verbatim>\<open>std::from_chars\<close> of a \<^verbatim>\<open>std::size_t\<close>: the digits at the front, the number and
  what follows them; nothing where there are none, or where the number has no 64 bits.
\<close>

definition from_chars :: "string \<Rightarrow> (nat \<times> string) option" where
  "from_chars s =
     (let digits = takeWhile is_decimal s
      in if digits = [] \<or> 2 ^ 64 \<le> decimal_value digits then None
         else Some (decimal_value digits, dropWhile is_decimal s))"

lemma is_decimal_iff: "is_decimal c \<longleftrightarrow> 48 \<le> uchar c \<and> uchar c \<le> 57"
  by (simp add: is_decimal_def less_eq_char_def)

lemma uchar_digit: "k < 10 \<Longrightarrow> uchar (to_char (48 + k)) = 48 + k"
  by (simp add: of_char_of)

lemma decimal_digits: "list_all is_decimal (decimal n)"
proof (induction n rule: decimal.induct)
  case (1 n)
  then show ?case
    by (cases "n < 10") (simp_all add: decimal.simps [of n] is_decimal_iff uchar_digit list_all_iff)
qed

lemma decimal_not_Nil [simp]: "decimal n \<noteq> []"
  by (subst decimal.simps) simp

lemma decimal_value_decimal [simp]: "decimal_value (decimal n) = n"
proof (induction n rule: decimal.induct)
  case (1 n)
  show ?case
  proof (cases "n < 10")
    case True
    then show ?thesis by (simp add: decimal.simps [of n] decimal_value_def uchar_digit)
  next
    case False
    then show ?thesis using 1 by (simp add: decimal.simps [of n] decimal_value_def uchar_digit)
  qed
qed

lemma decimal_length: "n < 10 ^ k \<Longrightarrow> 0 < k \<Longrightarrow> length (decimal n) \<le> k"
proof (induction k arbitrary: n)
  case (Suc k)
  then show ?case
    by (cases "n < 10"; cases k) (auto simp: decimal.simps [of n] intro!: Suc.IH)
qed simp

lemma from_chars_decimal:
  assumes "n < 2 ^ 64" "t = [] \<or> \<not> is_decimal (hd t)"
  shows "from_chars (decimal n @ t) = Some (n, t)"
proof -
  have "takeWhile is_decimal t = []" "dropWhile is_decimal t = t"
    using assms(2) by (cases t; simp)+
  then have "takeWhile is_decimal (decimal n @ t) = decimal n" "dropWhile is_decimal (decimal n @ t) = t"
    using decimal_digits [of n] by (auto simp: list_all_iff takeWhile_append2 dropWhile_append2)
  with assms(1) show ?thesis by (simp add: from_chars_def)
qed

end
