(* ===== verification/Naming.thy ===== *)
theory Naming
  imports Views
begin

text \<open>
  The naming policies of \<^verbatim>\<open>support/naming.h\<close>: the character classes, which no locale
  changes, \<^verbatim>\<open>normalize_identifier\<close>, and the policies that spell a declared name in snake
  and camel case, each writing into a buffer with room for twice the name. The buffer is the
  list of the characters written so far.
\<close>

section \<open>Characters\<close>

definition is_lower :: "char \<Rightarrow> bool" where
  "is_lower c \<longleftrightarrow> between CHR ''a'' c CHR ''z''"

definition is_upper :: "char \<Rightarrow> bool" where
  "is_upper c \<longleftrightarrow> between CHR ''A'' c CHR ''Z''"

definition is_digit :: "char \<Rightarrow> bool" where
  "is_digit c \<longleftrightarrow> between CHR ''0'' c CHR ''9''"

definition is_alpha :: "char \<Rightarrow> bool" where
  "is_alpha c \<longleftrightarrow> is_lower c \<or> is_upper c"

definition is_alnum :: "char \<Rightarrow> bool" where
  "is_alnum c \<longleftrightarrow> is_alpha c \<or> is_digit c"

definition to_lower :: "char \<Rightarrow> char" where
  "to_lower c = (if is_upper c then to_char (uchar c - uchar CHR ''A'' + uchar CHR ''a'') else c)"

definition to_upper :: "char \<Rightarrow> char" where
  "to_upper c = (if is_lower c then to_char (uchar c - uchar CHR ''a'' + uchar CHR ''A'') else c)"

definition is_non_ascii :: "char \<Rightarrow> bool" where
  "is_non_ascii c \<longleftrightarrow> 128 \<le> uchar c"

abbreviation underscore :: char where
  "underscore \<equiv> CHR ''_''"

named_theorems char_class \<open>the character classes as ranges of bytes\<close>

lemma class_iff [char_class]:
  "is_lower c \<longleftrightarrow> 97 \<le> uchar c \<and> uchar c \<le> 122"
  "is_upper c \<longleftrightarrow> 65 \<le> uchar c \<and> uchar c \<le> 90"
  "is_digit c \<longleftrightarrow> 48 \<le> uchar c \<and> uchar c \<le> 57"
  by (simp_all add: is_lower_def is_upper_def is_digit_def less_eq_char_def)

declare is_alpha_def [char_class] is_alnum_def [char_class] is_non_ascii_def [char_class]

lemma uchar_to_lower [char_class]: "uchar (to_lower c) = (if is_upper c then uchar c + 32 else uchar c)"
  by (simp add: to_lower_def char_class of_char_of)

lemma uchar_to_upper [char_class]: "uchar (to_upper c) = (if is_lower c then uchar c - 32 else uchar c)"
  by (auto simp: to_upper_def char_class of_char_of)

lemma to_lower_id: "\<not> is_upper c \<Longrightarrow> to_lower c = c"
  by (simp add: to_lower_def)

lemma to_lower_is_lower: "is_upper c \<Longrightarrow> is_lower (to_lower c)"
  by (simp add: char_class)

section \<open>Identifiers\<close>

text \<open>A step of the loop of \<^verbatim>\<open>normalize_identifier\<close>.\<close>

definition identifier_step :: "string \<Rightarrow> char \<Rightarrow> string" where
  "identifier_step out c =
     (if is_alnum c then out @ [c]
      else if out = [] \<or> last out \<noteq> underscore then out @ [underscore]
      else out)"

definition normalize_identifier :: "string \<Rightarrow> string" where
  "normalize_identifier text =
     (let out = foldl identifier_step [] text;
          out = rev (dropWhile (\<lambda>c. c = underscore) (rev out))
      in if out = [] then ''unnamed''
         else if is_digit (hd out) then underscore # out
         else out)"

section \<open>Rename policies\<close>

text \<open>
  A step of \<^verbatim>\<open>lower_snake::write\<close>, for the character at \<open>i\<close>. Where \<open>in_word\<close> holds, a
  character was written, so \<open>i\<close> is not the first.
\<close>

definition lower_snake_step :: "string \<Rightarrow> string \<Rightarrow> nat \<Rightarrow> string" where
  "lower_snake_step text out i =
     (let c = text ! i
      in if is_upper c then
           let in_word = (out \<noteq> [] \<and> last out \<noteq> underscore);
               out = (if in_word \<and> (is_lower (text ! (i - 1)) \<or> is_non_ascii (text ! (i - 1))
                                     \<or> is_digit (text ! (i - 1))
                                     \<or> i + 1 < length text \<and> is_lower (text ! (i + 1)))
                      then out @ [underscore] else out)
           in out @ [to_lower c]
         else if is_lower c \<or> is_digit c \<or> is_non_ascii c then out @ [c]
         else if out \<noteq> [] \<and> last out \<noteq> underscore then out @ [underscore]
         else out)"

definition lower_snake :: "string \<Rightarrow> string" where
  "lower_snake text =
     (let out = foldl (lower_snake_step text) [] [0..<length text]
      in if out \<noteq> [] \<and> last out = underscore then butlast out else out)"

text \<open>
  \<^verbatim>\<open>camel::write\<close> writes the camel case name over the snake case one in the same buffer:
  its state is the buffer, how much of it is written, and the two flags.
\<close>

record camel_state =
  cs_out :: string
  cs_n :: nat
  cs_capitalize_next :: bool
  cs_seen_output :: bool

definition camel_step :: "bool \<Rightarrow> camel_state \<Rightarrow> nat \<Rightarrow> camel_state" where
  "camel_step upper_first cs i =
     (let c = cs_out cs ! i
      in if c = underscore then cs\<lparr>cs_capitalize_next := True\<rparr>
         else let d = (if cs_capitalize_next cs \<and> is_alpha c then to_upper c
                       else if \<not> cs_seen_output cs
                            then (if upper_first then to_upper c else to_lower c)
                       else c)
              in cs\<lparr>cs_out := (cs_out cs)[cs_n cs := d], cs_n := cs_n cs + 1,
                    cs_capitalize_next := False, cs_seen_output := True\<rparr>)"

definition camel :: "bool \<Rightarrow> string \<Rightarrow> string" where
  "camel upper_first text =
     (let out = lower_snake text;
          cs = foldl (camel_step upper_first)
                 \<lparr>cs_out = out, cs_n = 0, cs_capitalize_next = upper_first, cs_seen_output = False\<rparr>
                 [0..<length out]
      in take (cs_n cs) (cs_out cs))"

definition upper_snake :: "string \<Rightarrow> string" where
  "upper_snake text = map to_upper (lower_snake text)"

datatype Casing = Identity | LowerSnake | LowerCamel | UpperCamel | UpperSnake

fun casing_fn :: "Casing \<Rightarrow> string \<Rightarrow> string" where
  "casing_fn Identity name = name"
| "casing_fn LowerSnake name = lower_snake name"
| "casing_fn LowerCamel name = camel False name"
| "casing_fn UpperCamel name = camel True name"
| "casing_fn UpperSnake name = upper_snake name"

fun distinct_names :: "string list \<Rightarrow> bool" where
  "distinct_names [] \<longleftrightarrow> True"
| "distinct_names (n # ns) \<longleftrightarrow> list_all (\<lambda>m. n \<noteq> m) ns \<and> distinct_names ns"

lemma distinct_names_iff: "distinct_names ns \<longleftrightarrow> distinct ns"
  by (induction ns) (auto simp: list_all_iff)

section \<open>Every spelling is an identifier\<close>

definition word_char :: "char \<Rightarrow> bool" where
  "word_char c \<longleftrightarrow> is_lower c \<or> is_digit c \<or> is_non_ascii c"

text \<open>
  A name in lower snake case: words of lower case letters, digits and bytes of UTF-8, joined by
  single underscores.
\<close>

fun snake_from :: "bool \<Rightarrow> string \<Rightarrow> bool" where
  "snake_from in_word [] \<longleftrightarrow> in_word"
| "snake_from in_word (c # s) \<longleftrightarrow>
     (if c = underscore then in_word \<and> snake_from False s else word_char c \<and> snake_from True s)"

definition snake_case :: "string \<Rightarrow> bool" where
  "snake_case s \<longleftrightarrow> s = [] \<or> snake_from False s"

text \<open>What the loop has written: a name in snake case, an underscore after it or not.\<close>

definition drafted :: "string \<Rightarrow> bool" where
  "drafted out \<longleftrightarrow> out = [] \<or> snake_from False (if last out = underscore then butlast out else out)"

lemma word_char_underscore [simp]: "\<not> word_char underscore"
  by (simp add: word_char_def char_class)

lemma snake_from_snoc:
  "snake_from w (s @ [c]) \<longleftrightarrow> c \<noteq> underscore \<and> word_char c
     \<and> (snake_from w s \<or> (s \<noteq> [] \<and> last s = underscore \<and> snake_from w (butlast s)) \<or> s = [])"
  by (induction s arbitrary: w) auto

lemma drafted_snoc_word: "drafted out \<Longrightarrow> word_char c \<Longrightarrow> drafted (out @ [c])"
  by (auto simp: drafted_def snake_from_snoc split: if_splits)

lemma drafted_snoc_underscore:
  "drafted out \<Longrightarrow> out \<noteq> [] \<Longrightarrow> last out \<noteq> underscore \<Longrightarrow> drafted (out @ [underscore])"
  by (simp add: drafted_def)

lemma word_char_cases: "is_upper c \<Longrightarrow> word_char (to_lower c)"
  "is_lower c \<or> is_digit c \<or> is_non_ascii c \<Longrightarrow> word_char c"
  by (simp_all add: word_char_def to_lower_is_lower)

lemma drafted_snoc_two:
  "drafted out \<Longrightarrow> out \<noteq> [] \<Longrightarrow> last out \<noteq> underscore \<Longrightarrow> word_char c \<Longrightarrow> drafted (out @ [underscore, c])"
  using drafted_snoc_word [OF drafted_snoc_underscore] by simp

lemma drafted_step: "drafted out \<Longrightarrow> drafted (lower_snake_step text out i)"
  by (simp add: lower_snake_step_def Let_def word_char_cases(1) word_char_cases(2) [unfolded disj_imp]
      drafted_snoc_word drafted_snoc_two drafted_snoc_underscore)

lemma length_lower_snake_step: "length (lower_snake_step text out i) \<le> length out + 2"
  by (simp add: lower_snake_step_def Let_def)

lemma lower_snake_loop:
  "drafted (foldl (lower_snake_step text) [] [0..<k]) \<and> length (foldl (lower_snake_step text) [] [0..<k]) \<le> 2 * k"
proof (induction k)
  case 0
  then show ?case by (simp add: drafted_def)
next
  case (Suc k)
  then show ?case
    using drafted_step length_lower_snake_step [of "text" "foldl (lower_snake_step text) [] [0..<k]" k]
    by (simp add: le_trans)
qed

lemma snake_case_nth:
  assumes "snake_case s" "k < length s"
  shows "word_char (s ! k) \<or> s ! k = underscore \<and> 0 < k \<and> s ! (k - 1) \<noteq> underscore"
proof -
  have "word_char (s ! k) \<or> s ! k = underscore \<and> (k = 0 \<longrightarrow> w) \<and> (0 < k \<longrightarrow> s ! (k - 1) \<noteq> underscore)"
    if "snake_from w s" "k < length s" for w
    using that
  proof (induction s arbitrary: w k)
    case (Cons c s)
    show ?case
    proof (cases k)
      case 0
      then show ?thesis using Cons.prems by (auto split: if_splits)
    next
      case (Suc j)
      with Cons.IH [of _ j] Cons.prems show ?thesis
        by (cases j) (auto split: if_splits)
    qed
  qed simp
  from this [of False] assms show ?thesis by (cases "s = []") (auto simp: snake_case_def)
qed

lemma snake_case_last: "snake_case s \<Longrightarrow> s \<noteq> [] \<Longrightarrow> last s \<noteq> underscore"
  by (cases s rule: rev_cases) (auto simp: snake_case_def snake_from_snoc)

lemma lower_snake_keeps:
  assumes "snake_case s" "k \<le> length s"
  shows "foldl (lower_snake_step s) [] [0..<k] = take k s"
  using assms(2)
proof (induction k)
  case (Suc k)
  then have k: "k < length s" by simp
  have take: "take (Suc k) s = take k s @ [s ! k]" by (simp add: take_Suc_conv_app_nth k)
  from snake_case_nth [OF assms(1) k] show ?case
  proof
    assume "word_char (s ! k)"
    then show ?case using Suc take
      by (auto simp: lower_snake_step_def word_char_def char_class Let_def)
  next
    assume *: "s ! k = underscore \<and> 0 < k \<and> s ! (k - 1) \<noteq> underscore"
    then have "take k s \<noteq> []" using k by (cases s) auto
    moreover from this have "last (take k s) = s ! (k - 1)" using k by (simp add: last_conv_nth)
    ultimately have "last (take k s) = s ! (k - 1)" "take k s \<noteq> []" by simp_all
    then show ?case using Suc take *
      by (simp add: lower_snake_step_def Let_def char_class)
  qed
qed simp

lemma lower_snake_snake_case: "snake_case (lower_snake name)"
  using lower_snake_loop [of name "length name"]
  by (auto simp: lower_snake_def snake_case_def drafted_def Let_def split: if_splits)

text \<open>
  \<^verbatim>\<open>lower_snake\<close> spells every name as words of lower case letters,
  digits and bytes of UTF-8 joined by single underscores, with none at either end; keeps exactly
  the names so spelled as they are, so that spelling twice changes nothing; and never writes
  past the buffer's room of twice the name.
\<close>

theorem lower_snake_correct:
  "snake_case (lower_snake name)
   \<and> (lower_snake name = name) = snake_case name
   \<and> lower_snake (lower_snake name) = lower_snake name
   \<and> length (foldl (lower_snake_step name) [] [0..<length name]) \<le> 2 * length name"
proof -
  have keeps: "lower_snake s = s" if "snake_case s" for s
    using lower_snake_keeps [OF that, of "length s"] snake_case_last [OF that]
    by (auto simp: lower_snake_def)
  show ?thesis
    using keeps [of "lower_snake name"] keeps [of name] lower_snake_loop [of name "length name"]
      lower_snake_snake_case [of name] by metis
qed

section \<open>Camel case in place\<close>

text \<open>The camel case name, read from the snake case one without writing over it.\<close>

fun camel_of :: "bool \<Rightarrow> bool \<Rightarrow> bool \<Rightarrow> string \<Rightarrow> string" where
  "camel_of upper_first capitalize seen [] = []"
| "camel_of upper_first capitalize seen (c # s) =
     (if c = underscore then camel_of upper_first True seen s
      else (if capitalize \<and> is_alpha c then to_upper c
            else if \<not> seen then (if upper_first then to_upper c else to_lower c)
            else c) # camel_of upper_first False True s)"

lemma camel_loop:
  assumes "drop i (cs_out cs) = s" "cs_n cs \<le> i" "i \<le> length (cs_out cs)"
  shows "let cs' = foldl (camel_step upper_first) cs [i..<length (cs_out cs)]
    in cs_n cs' \<le> length (cs_out cs)
       \<and> take (cs_n cs') (cs_out cs')
           = take (cs_n cs) (cs_out cs) @ camel_of upper_first (cs_capitalize_next cs) (cs_seen_output cs) s"
  using assms
proof (induction s arbitrary: cs i)
  case Nil
  then show ?case by simp
next
  case (Cons c s)
  then have i: "i < length (cs_out cs)" "cs_out cs ! i = c" "drop (Suc i) (cs_out cs) = s"
    by (metis drop_eq_Nil list.simps(3) not_le) (metis Cons.prems(1) nth_via_drop, metis Cons.prems(1) drop_Suc list.sel(3) tl_drop)
  let ?cs = "camel_step upper_first cs i"
  have len: "length (cs_out ?cs) = length (cs_out cs)" by (simp add: camel_step_def Let_def)
  have upt: "[i..<length (cs_out cs)] = i # [Suc i..<length (cs_out cs)]"
    using i(1) by (rule upt_conv_Cons)
  have "drop (Suc i) (cs_out ?cs) = s" "cs_n ?cs \<le> Suc i"
    using i Cons.prems(2) by (auto simp: camel_step_def Let_def)
  from Cons.IH [OF this] i(1) len show ?case
    using i Cons.prems(2)
    by (auto simp: upt camel_step_def Let_def take_Suc_conv_app_nth)
qed

lemma camel_in_place: "camel upper_first name = camel_of upper_first upper_first False (lower_snake name)"
  using camel_loop [of 0 "\<lparr>cs_out = lower_snake name, cs_n = 0, cs_capitalize_next = upper_first,
      cs_seen_output = False\<rparr>" "lower_snake name" upper_first]
  by (simp add: camel_def Let_def)

lemma uchar_underscore: "c = underscore \<Longrightarrow> uchar c = 95"
  by simp

lemma case_underscore:
  "to_upper c = underscore \<longleftrightarrow> c = underscore" "to_lower c = underscore \<longleftrightarrow> c = underscore"
proof -
  have "to_upper c \<noteq> underscore" if "is_lower c"
    using that uchar_underscore [of "to_upper c"] uchar_to_upper [of c] by (auto simp: class_iff)
  then show "to_upper c = underscore \<longleftrightarrow> c = underscore"
    by (auto simp: to_upper_def [of c] class_iff to_upper_def [of underscore])
  have "to_lower c \<noteq> underscore" if "is_upper c"
    using that uchar_underscore [of "to_lower c"] uchar_to_lower [of c] by (auto simp: class_iff)
  then show "to_lower c = underscore \<longleftrightarrow> c = underscore"
    by (auto simp: to_lower_def [of c] class_iff to_lower_def [of underscore])
qed

lemma camel_of_chars:
  assumes "c \<in> set (camel_of upper_first capitalize seen s)"
  shows "c \<noteq> underscore \<and> (\<exists>d\<in>set s. c = d \<or> c = to_upper d \<or> c = to_lower d)"
  using assms
proof (induction upper_first capitalize seen s rule: camel_of.induct)
  case (2 upper_first capitalize seen d s)
  then show ?case
    by (auto simp: case_underscore split: if_splits)
qed simp

lemma camel_of_length: "length (camel_of upper_first capitalize seen s) = length (filter (\<lambda>c. c \<noteq> underscore) s)"
  by (induction upper_first capitalize seen s rule: camel_of.induct) simp_all

lemma snake_case_chars: "snake_case s \<Longrightarrow> c \<in> set s \<Longrightarrow> word_char c \<or> c = underscore"
  by (metis in_set_conv_nth snake_case_nth)

text \<open>
  The camel case spelling, written in place over the snake case one, reads
  every character of it before it is overwritten: it is the words of the snake case name
  capitalised, all but the first when \<^verbatim>\<open>UpperFirst\<close> is false, with the underscores and
  only them gone.
\<close>

lemma camel_correct:
  "camel upper_first name = camel_of upper_first upper_first False (lower_snake name)
   \<and> length (camel upper_first name) = length (filter (\<lambda>c. c \<noteq> underscore) (lower_snake name))
   \<and> list_all (\<lambda>c. is_alnum c \<or> is_non_ascii c) (camel upper_first name)"
proof (intro conjI)
  have "is_alnum c \<or> is_non_ascii c" if "c \<in> set (camel upper_first name)" for c
  proof -
    from that have "c \<noteq> underscore"
      and "\<exists>d\<in>set (lower_snake name). c = d \<or> c = to_upper d \<or> c = to_lower d"
      using camel_of_chars [of c upper_first upper_first False "lower_snake name"]
      by (simp_all add: camel_in_place)
    then obtain d where "word_char d" "c = d \<or> c = to_upper d \<or> c = to_lower d"
      using snake_case_chars [OF lower_snake_snake_case]
      by (metis case_underscore)
    then show ?thesis
      by (auto simp: word_char_def char_class split: if_splits)
  qed
  then show "list_all (\<lambda>c. is_alnum c \<or> is_non_ascii c) (camel upper_first name)"
    by (auto simp: list_all_iff)
qed (simp_all add: camel_in_place camel_of_length)

section \<open>Identifiers are identifiers\<close>

text \<open>What the loop of \<^verbatim>\<open>normalize_identifier\<close> keeps.\<close>

lemma identifier_chars:
  "list_all (\<lambda>c. is_alnum c \<or> c = underscore) out \<Longrightarrow>
   list_all (\<lambda>c. is_alnum c \<or> c = underscore) (foldl identifier_step out text)"
  by (induction "text" arbitrary: out) (simp_all add: identifier_step_def)

text \<open>
  \<^verbatim>\<open>normalize_identifier\<close> turns any text into an
  identifier: it is not empty, starts with no digit, and holds only letters, digits and
  underscores.
\<close>

theorem normalize_identifier_correct:
  "normalize_identifier name \<noteq> []
   \<and> \<not> is_digit (hd (normalize_identifier name))
   \<and> list_all (\<lambda>c. is_alnum c \<or> c = underscore) (normalize_identifier name)"
proof -
  define out where "out = rev (dropWhile (\<lambda>c. c = underscore) (rev (foldl identifier_step [] name)))"
  have "set out \<subseteq> set (foldl identifier_step [] name)"
    by (auto simp: out_def dest: set_dropWhileD)
  with identifier_chars [of "[]" name] have chars: "list_all (\<lambda>c. is_alnum c \<or> c = underscore) out"
    by (auto simp: list_all_iff)
  have eq: "normalize_identifier name
      = (if out = [] then ''unnamed'' else if is_digit (hd out) then underscore # out else out)"
    by (simp add: normalize_identifier_def out_def Let_def)
  show ?thesis
    using chars unfolding eq by (simp add: char_class)
qed

end
