(* ===== verification/Framing.thy ===== *)
theory Framing
  imports Naming
begin

text \<open>
  The framing of the LSP base protocol, \<^verbatim>\<open>ipc/framing.h\<close> and \<^verbatim>\<open>ipc/framing.cpp\<close>:
  the header written before a payload, and the \<^verbatim>\<open>FrameParser\<close> that reads the frames of a
  byte stream handed to it in pieces of any size, a state machine of four phases. The parser is
  compared with a reference that cuts a whole stream into frames, and shown to read the same
  frames however the stream comes in pieces.
\<close>

section \<open>The code\<close>

definition skipped_prefix_size :: nat where
  "skipped_prefix_size = 4 * 1024"

definition max_header_size :: nat where
  "max_header_size = 8 * 1024"

datatype ReadErrorKind = Closed | Malformed | Oversized

record ReadError =
  re_kind :: ReadErrorKind
  re_message :: string
  re_size :: nat
  re_prefix :: string

abbreviation blank :: "char \<Rightarrow> bool" where
  "blank c \<equiv> c = CHR '' '' \<or> c = CHR 0x09"

definition trim :: "string \<Rightarrow> string" where
  "trim value = rev (dropWhile blank (rev (dropWhile blank value)))"

definition equals_ignoring_case :: "string \<Rightarrow> string \<Rightarrow> bool" where
  "equals_ignoring_case lhs rhs \<longleftrightarrow> map to_lower lhs = map to_lower rhs"

abbreviation crlf :: string where
  "crlf \<equiv> [CHR 0x0D, CHR 0x0A]"

abbreviation blank_line :: string where
  "blank_line \<equiv> [CHR 0x0D, CHR 0x0A, CHR 0x0D, CHR 0x0A]"

text \<open>
  \<^verbatim>\<open>content_length\<close>. Where no line ends, \<^verbatim>\<open>end\<close> is \<^verbatim>\<open>npos\<close>, and \<^verbatim>\<open>end + 2\<close>
  wraps around to 1.
\<close>

function content_length :: "string \<Rightarrow> string + nat" where
  "content_length header =
     (if header = [] then Inl ''missing Content-Length''
      else let stop = find_text crlf header;
               line = (case stop of None \<Rightarrow> header | Some i \<Rightarrow> take i header);
               rest = (case stop of None \<Rightarrow> drop 1 header | Some i \<Rightarrow> drop (i + 2) header)
           in case find_char (\<lambda>c. c = CHR '':'') line of
                None \<Rightarrow> content_length rest
              | Some colon \<Rightarrow>
                  if \<not> equals_ignoring_case (trim (take colon line)) ''Content-Length''
                  then content_length rest
                  else let value = trim (drop (colon + 1) line)
                       in case from_chars value of
                            Some (n, []) \<Rightarrow> Inr n
                          | _ \<Rightarrow> Inl (''invalid Content-Length: '' @ value))"
  by pat_completeness auto
termination
proof (relation "measure length", goal_cases)
  case (2 header stop line rest)
  then show ?case by (auto simp del: find_text.simps split: option.split)
next
  case (3 header stop line rest colon)
  then show ?case by (auto simp del: find_text.simps split: option.split)
qed simp

declare content_length.simps [simp del]

definition frame_header :: "nat \<Rightarrow> string" where
  "frame_header n = ''Content-Length: '' @ decimal n @ blank_line"

datatype Phase = Header | Payload | Skip | Broken

record FrameParser =
  fp_max_payload :: nat
  fp_phase :: Phase
  fp_header :: string
  fp_payload :: string
  fp_prefix :: string
  fp_failure :: string
  fp_remaining :: nat
  fp_skipped_size :: nat

definition frame_parser :: "nat \<Rightarrow> FrameParser" where
  "frame_parser max_payload =
     \<lparr>fp_max_payload = max_payload, fp_phase = Header, fp_header = [], fp_payload = [],
      fp_prefix = [], fp_failure = [], fp_remaining = 0, fp_skipped_size = 0\<rparr>"

text \<open>\<^verbatim>\<open>header_end\<close>, whose loop runs down from \<open>before\<close>.\<close>

fun header_end_before :: "string \<Rightarrow> string \<Rightarrow> nat \<Rightarrow> nat option" where
  "header_end_before header input 0 = None"
| "header_end_before header input (Suc b) =
     (if ends_with header (take (Suc b) blank_line) \<and> starts_with input (drop (Suc b) blank_line)
      then Some (length blank_line - Suc b)
      else header_end_before header input b)"

definition header_end :: "string \<Rightarrow> string \<Rightarrow> nat option" where
  "header_end header input =
     (case header_end_before header input (min 3 (length header)) of
        Some n \<Rightarrow> Some n
      | None \<Rightarrow> map_option (\<lambda>at. at + length blank_line) (find_text blank_line input))"

record Step =
  st_consumed :: nat
  st_frame :: "(ReadError + string) option"

definition malformed :: "FrameParser \<Rightarrow> nat \<Rightarrow> Step" where
  "malformed fp consumed =
     \<lparr>st_consumed = consumed,
      st_frame = Some (Inl \<lparr>re_kind = Malformed, re_message = fp_failure fp, re_size = 0, re_prefix = []\<rparr>)\<rparr>"

definition break_with :: "FrameParser \<Rightarrow> nat \<Rightarrow> string \<Rightarrow> FrameParser \<times> Step" where
  "break_with fp consumed reason =
     (let fp = fp\<lparr>fp_phase := Broken, fp_failure := reason\<rparr> in (fp, malformed fp consumed))"

definition header_exceeds :: string where
  "header_exceeds = ''header exceeds '' @ decimal max_header_size @ '' bytes''"

text \<open>The phases \<^verbatim>\<open>Payload\<close> and \<^verbatim>\<open>Skip\<close> of \<^verbatim>\<open>feed\<close>, \<open>consumed\<close> bytes of the input
  taken. A string moved from is empty.\<close>

definition feed_payload :: "FrameParser \<Rightarrow> string \<Rightarrow> nat \<Rightarrow> FrameParser \<times> Step" where
  "feed_payload fp input consumed =
     (let taken = min (fp_remaining fp) (length input - consumed);
          payload = fp_payload fp @ take taken (drop consumed input);
          remaining = fp_remaining fp - taken
      in if remaining \<noteq> 0
         then (fp\<lparr>fp_payload := payload, fp_remaining := remaining\<rparr>,
               \<lparr>st_consumed = consumed + taken, st_frame = None\<rparr>)
         else (fp\<lparr>fp_phase := Header, fp_payload := [], fp_remaining := 0\<rparr>,
               \<lparr>st_consumed = consumed + taken, st_frame = Some (Inr payload)\<rparr>))"

definition oversized :: "FrameParser \<Rightarrow> string \<Rightarrow> ReadError" where
  "oversized fp prefix =
     \<lparr>re_kind = Oversized,
      re_message = ''a message of '' @ decimal (fp_skipped_size fp) @ '' bytes exceeds the limit of ''
        @ decimal (fp_max_payload fp) @ '' bytes'',
      re_size = fp_skipped_size fp, re_prefix = prefix\<rparr>"

definition feed_skip :: "FrameParser \<Rightarrow> string \<Rightarrow> nat \<Rightarrow> FrameParser \<times> Step" where
  "feed_skip fp input consumed =
     (let taken = min (fp_remaining fp) (length input - consumed);
          keep = min taken (skipped_prefix_size - length (fp_prefix fp));
          prefix = fp_prefix fp @ take keep (drop consumed input);
          remaining = fp_remaining fp - taken
      in if remaining \<noteq> 0
         then (fp\<lparr>fp_prefix := prefix, fp_remaining := remaining\<rparr>,
               \<lparr>st_consumed = consumed + taken, st_frame = None\<rparr>)
         else (fp\<lparr>fp_phase := Header, fp_prefix := [], fp_remaining := 0\<rparr>,
               \<lparr>st_consumed = consumed + taken, st_frame = Some (Inl (oversized fp prefix))\<rparr>))"

text \<open>
  The phase \<^verbatim>\<open>Header\<close>, which goes on to one of the two above once the header is read. At its
  start nothing of the input is taken, for no phase leads back to it in the same call.
\<close>

definition feed_header :: "FrameParser \<Rightarrow> string \<Rightarrow> FrameParser \<times> Step" where
  "feed_header fp input =
     (let window = take (max_header_size + 1 - length (fp_header fp)) input
      in case header_end (fp_header fp) window of
           None \<Rightarrow>
             let fp = fp\<lparr>fp_header := fp_header fp @ window\<rparr>; consumed = length window
             in if max_header_size < length (fp_header fp)
                then break_with fp consumed header_exceeds
                else (fp, \<lparr>st_consumed = consumed, st_frame = None\<rparr>)
         | Some stop \<Rightarrow>
             let fp = fp\<lparr>fp_header := fp_header fp @ take stop window\<rparr>; consumed = stop
             in if max_header_size < length (fp_header fp)
                then break_with fp consumed header_exceeds
                else case content_length (fp_header fp) of
                       Inl reason \<Rightarrow> break_with fp consumed reason
                     | Inr n \<Rightarrow>
                         let fp = fp\<lparr>fp_header := [], fp_payload := [], fp_prefix := [], fp_remaining := n\<rparr>
                         in if fp_max_payload fp < n
                            then feed_skip (fp\<lparr>fp_phase := Skip, fp_skipped_size := n\<rparr>) input consumed
                            else feed_payload (fp\<lparr>fp_phase := Payload\<rparr>) input consumed)"

definition feed :: "FrameParser \<Rightarrow> string \<Rightarrow> FrameParser \<times> Step" where
  "feed fp input =
     (case fp_phase fp of
        Broken \<Rightarrow> (fp, malformed fp 0)
      | Header \<Rightarrow> feed_header fp input
      | Payload \<Rightarrow> feed_payload fp input 0
      | Skip \<Rightarrow> feed_skip fp input 0)"

section \<open>The end of a header\<close>

text \<open>
  \<^verbatim>\<open>header_end\<close> finds the first blank line of the header and the input together, though it
  searches only the input and the three bytes before it.
\<close>

lemma find_text_drop:
  assumes "k \<le> length s" "\<forall>j<k. \<not> starts_with (drop j s) p"
  shows "find_text p s = map_option ((+) k) (find_text p (drop k s))"
  using assms
proof (induction k arbitrary: s)
  case 0
  then show ?case by (simp add: option.map_ident map_option_case split: option.split)
next
  case (Suc k)
  then obtain c t where s: "s = c # t" by (cases s) auto
  have "find_text p t = map_option ((+) k) (find_text p (drop k t))"
    using Suc.prems by (intro Suc.IH) (auto simp: s dest: spec [of _ "Suc _"])
  moreover have "\<not> starts_with s p" using Suc.prems(2) by (auto dest: spec [of _ 0])
  ultimately show ?case by (cases "find_text p (drop k t)") (simp_all add: s)
qed

lemma starts_with_split:
  assumes "length a \<le> length p"
  shows "starts_with (a @ w) p \<longleftrightarrow> a = take (length a) p \<and> starts_with w (drop (length a) p)"
proof -
  have "take (length p) (a @ w) = a @ take (length p - length a) w"
    using assms by simp
  moreover have "p = take (length a) p @ drop (length a) p" by simp
  ultimately show ?thesis
    using assms unfolding starts_with_def
    by (metis append_eq_append_conv length_drop length_take min.absorb2)
qed

lemma header_end_before_find:
  assumes "b \<le> 3" "b \<le> length h"
  shows "(case header_end_before h w b of
      Some n \<Rightarrow> Some n | None \<Rightarrow> map_option (\<lambda>at. at + 4) (find_text blank_line w))
    = map_option (\<lambda>i. i + 4 - b) (find_text blank_line (drop (length h - b) h @ w))"
  using assms
proof (induction b)
  case 0
  then show ?case by (simp del: find_text.simps)
next
  case (Suc b)
  let ?a = "drop (length h - Suc b) h"
  have a: "?a = h ! (length h - Suc b) # drop (length h - b) h"
    using Suc.prems by (metis Cons_nth_drop_Suc Suc_diff_Suc Suc_le_lessD diff_less zero_less_Suc order_less_le_trans)
  have test: "ends_with h (take (Suc b) blank_line) \<longleftrightarrow> ?a = take (Suc b) blank_line"
    using Suc.prems by (simp add: ends_with_def min_def)
  have "length ?a = Suc b" using Suc.prems by simp
  then have found: "starts_with (?a @ w) blank_line
      \<longleftrightarrow> ?a = take (Suc b) blank_line \<and> starts_with w (drop (Suc b) blank_line)"
    using Suc.prems(1) by (subst starts_with_split) simp_all
  show ?case
  proof (cases "starts_with (?a @ w) blank_line")
    case True
    then have "find_text blank_line (?a @ w) = Some 0" by (simp add: a)
    with True show ?thesis by (simp only: header_end_before.simps test found) simp
  next
    case False
    then have "find_text blank_line (?a @ w) = map_option Suc (find_text blank_line (drop (length h - b) h @ w))"
      by (simp add: a)
    moreover have "header_end_before h w (Suc b) = header_end_before h w b"
      using False by (simp only: header_end_before.simps test found) simp
    ultimately show ?thesis
      using Suc by (simp add: option.map_comp o_def add.commute del: find_text.simps header_end_before.simps)
  qed
qed

lemma header_end_find:
  assumes "find_text blank_line h = None"
  shows "header_end h w = map_option (\<lambda>i. i + 4 - length h) (find_text blank_line (h @ w))"
proof -
  let ?b = "min 3 (length h)"
  let ?k = "length h - ?b"
  have "\<not> starts_with (drop j (h @ w)) blank_line" if "j < ?k" for j
  proof -
    have "j + 4 \<le> length h" using that by (auto simp: min_def split: if_splits)
    then have "\<not> starts_with (drop j h @ w) blank_line"
      using assms by (subst starts_with_append_iff) (auto simp: find_text_None)
    with \<open>j + 4 \<le> length h\<close> show ?thesis by simp
  qed
  then have "find_text blank_line (h @ w) = map_option ((+) ?k) (find_text blank_line (drop ?k h @ w))"
    using find_text_drop [of ?k "h @ w" blank_line] by (simp del: find_text.simps)
  moreover have "?k + i + 4 - length h = i + 4 - ?b" for i by simp
  moreover have "header_end h w = (case header_end_before h w ?b of
      Some n \<Rightarrow> Some n | None \<Rightarrow> map_option (\<lambda>at. at + 4) (find_text blank_line w))"
    by (simp add: header_end_def eval_nat_numeral split: option.split del: find_text.simps)
  ultimately show ?thesis
    using header_end_before_find [of ?b h w]
    by (simp add: option.map_comp o_def del: find_text.simps header_end_before.simps)
qed

section \<open>The reference\<close>

definition malformed_error :: "string \<Rightarrow> ReadError" where
  "malformed_error reason = \<lparr>re_kind = Malformed, re_message = reason, re_size = 0, re_prefix = []\<rparr>"

definition oversized_error :: "nat \<Rightarrow> nat \<Rightarrow> string \<Rightarrow> ReadError" where
  "oversized_error max_payload n body =
     \<lparr>re_kind = Oversized,
      re_message = ''a message of '' @ decimal n @ '' bytes exceeds the limit of ''
        @ decimal max_payload @ '' bytes'',
      re_size = n, re_prefix = take skipped_prefix_size body\<rparr>"

text \<open>A frame cut from a whole stream: what it holds and what follows it, if it is all there.\<close>

definition frame_body :: "nat \<Rightarrow> nat \<Rightarrow> string \<Rightarrow> ((ReadError + string) \<times> string) option" where
  "frame_body max_payload n s =
     (if length s < n then None
      else Some (if max_payload < n then Inl (oversized_error max_payload n (take n s)) else Inr (take n s),
                 drop n s))"

definition next_frame :: "nat \<Rightarrow> string \<Rightarrow> ((ReadError + string) \<times> string) option" where
  "next_frame max_payload s =
     (case find_text blank_line (take (Suc max_header_size) s) of
        None \<Rightarrow> if max_header_size < length s then Some (Inl (malformed_error header_exceeds), []) else None
      | Some i \<Rightarrow>
          if max_header_size < i + 4 then Some (Inl (malformed_error header_exceeds), [])
          else case content_length (take (i + 4) s) of
                 Inl reason \<Rightarrow> Some (Inl (malformed_error reason), [])
               | Inr n \<Rightarrow> frame_body max_payload n (drop (i + 4) s))"

definition is_malformed :: "ReadError + string \<Rightarrow> bool" where
  "is_malformed frame = (case frame of Inl e \<Rightarrow> re_kind e = Malformed | Inr _ \<Rightarrow> False)"

lemma next_frame_shorter:
  assumes "next_frame max_payload s = Some (frame, rest)"
  shows "length rest < length s"
proof -
  consider (empty) "rest = []" "s \<noteq> []" | (body) i n where "rest = drop n (drop (i + 4) s)" "s \<noteq> []"
    using assms find_text_end [of blank_line "take (Suc max_header_size) s"]
    by (fastforce simp: next_frame_def frame_body_def split: option.splits sum.splits if_splits
        simp del: find_text.simps)
  then show ?thesis by cases auto
qed

text \<open>Every frame of a stream, up to the one nothing can be read after.\<close>

function frames :: "nat \<Rightarrow> string \<Rightarrow> (ReadError + string) list" where
  "frames max_payload s =
     (case next_frame max_payload s of
        None \<Rightarrow> []
      | Some (frame, rest) \<Rightarrow> frame # (if is_malformed frame then [] else frames max_payload rest))"
  by pat_completeness auto
termination by (relation "measure (length \<circ> snd)") (auto dest: next_frame_shorter)

declare frames.simps [simp del]

section \<open>A call of feed\<close>

text \<open>
  What a parser that is not broken has taken since the last frame: \<open>taken\<close>, which holds no frame
  yet. A payload or a skipped frame follows a whole header block that names its size.
\<close>

definition header_block :: "string \<Rightarrow> nat \<Rightarrow> bool" where
  "header_block h n \<longleftrightarrow>
     find_text blank_line h = Some (length h - 4) \<and> 4 \<le> length h \<and> length h \<le> max_header_size
     \<and> content_length h = Inr n"

definition has_taken :: "FrameParser \<Rightarrow> string \<Rightarrow> bool" where
  "has_taken fp taken =
     (case fp_phase fp of
        Header \<Rightarrow> taken = fp_header fp \<and> length taken \<le> max_header_size \<and> find_text blank_line taken = None
      | Payload \<Rightarrow>
          (\<exists>h n. header_block h n \<and> taken = h @ fp_payload fp \<and> n \<le> fp_max_payload fp
             \<and> length (fp_payload fp) < n \<and> fp_remaining fp = n - length (fp_payload fp) \<and> fp_header fp = [])
      | Skip \<Rightarrow>
          (\<exists>h n body. header_block h n \<and> taken = h @ body \<and> fp_max_payload fp < n
             \<and> fp_skipped_size fp = n \<and> fp_prefix fp = take skipped_prefix_size body
             \<and> length body < n \<and> fp_remaining fp = n - length body \<and> fp_header fp = [])
      | Broken \<Rightarrow> False)"

text \<open>
  What a call of \<^verbatim>\<open>feed\<close> promises for a parser that has taken \<open>taken\<close>: it takes all of the
  input when that completes no frame, else gives the next frame and leaves what follows it.
\<close>

definition feed_promise :: "nat \<Rightarrow> string \<Rightarrow> string \<Rightarrow> FrameParser \<times> Step \<Rightarrow> bool" where
  "feed_promise max_payload taken input result =
     (case (result, next_frame max_payload (taken @ input)) of
        ((fp, step), None) \<Rightarrow>
          st_frame step = None \<and> st_consumed step = length input \<and> has_taken fp (taken @ input)
          \<and> fp_max_payload fp = max_payload
      | ((fp, step), Some (frame, rest)) \<Rightarrow>
          st_frame step = Some frame \<and> fp_max_payload fp = max_payload
          \<and> (if is_malformed frame then fp_phase fp = Broken \<and> frame = Inl (malformed_error (fp_failure fp))
             else rest = drop (st_consumed step) input \<and> has_taken fp []))"

lemma header_block_take:
  assumes "find_text blank_line (take (Suc max_header_size) s) = Some i" "i + 4 \<le> max_header_size"
    and "content_length (take (i + 4) s) = Inr n"
  shows "header_block (take (i + 4) s) n"
proof -
  have "i + 4 \<le> length s"
    using find_text_end [OF assms(1)] by (simp del: find_text.simps)
  moreover have "find_text blank_line (take (i + 4) (take (Suc max_header_size) s)) = Some i"
    using assms(1) by (rule find_text_take) simp
  ultimately show ?thesis
    using assms by (simp add: header_block_def min_def del: find_text.simps)
qed

lemma next_frame_block:
  assumes "header_block h n"
  shows "next_frame max_payload (h @ s) = frame_body max_payload n s"
proof -
  have "find_text blank_line (take (Suc max_header_size) (h @ s)) = Some (length h - 4)"
    using assms find_text_append [of blank_line h "length h - 4" "take (Suc max_header_size - length h) s"]
    by (simp add: header_block_def del: find_text.simps)
  with assms show ?thesis
    by (simp add: next_frame_def header_block_def del: find_text.simps)
qed

lemma has_taken_Nil: "fp_phase fp = Header \<Longrightarrow> fp_header fp = [] \<Longrightarrow> has_taken fp []"
  by (simp add: has_taken_def)

lemma has_taken_Skip:
  assumes "header_block h n" "fp_phase fp = Skip" "fp_max_payload fp < n" "fp_skipped_size fp = n"
    and "fp_prefix fp = take skipped_prefix_size body" "length body < n" "fp_remaining fp = n - length body"
    and "fp_header fp = []"
  shows "has_taken fp (h @ body)"
  using assms unfolding has_taken_def by auto

lemma feed_promise_none:
  assumes "next_frame max_payload (taken @ input) = None" "has_taken fp (taken @ input)"
    and "fp_max_payload fp = max_payload"
  shows "feed_promise max_payload taken input (fp, \<lparr>st_consumed = length input, st_frame = None\<rparr>)"
  using assms by (simp add: feed_promise_def)

lemma feed_promise_some:
  assumes "next_frame max_payload (taken @ input) = Some (frame, drop k input)" "\<not> is_malformed frame"
    and "fp_max_payload fp = max_payload" "fp_phase fp = Header" "fp_header fp = []"
  shows "feed_promise max_payload taken input (fp, \<lparr>st_consumed = k, st_frame = Some frame\<rparr>)"
  using assms by (simp add: feed_promise_def has_taken_def)

lemma feed_promise_broken:
  assumes "next_frame max_payload (taken @ input) = Some (Inl (malformed_error reason), rest)"
    and "fp_max_payload fp = max_payload"
  shows "feed_promise max_payload taken input (break_with fp k reason)"
  using assms
  by (simp add: feed_promise_def break_with_def malformed_def malformed_error_def is_malformed_def Let_def)

lemma feed_payload_promise:
  assumes "header_block h n" "n \<le> fp_max_payload fp" "fp_phase fp = Payload" "fp_header fp = []"
    and "fp_remaining fp = n - length (fp_payload fp)" "length (fp_payload fp) \<le> n"
    and input: "taken @ input = h @ fp_payload fp @ drop consumed input" and "consumed \<le> length input"
  shows "feed_promise (fp_max_payload fp) taken input (feed_payload fp input consumed)"
proof -
  let ?body = "fp_payload fp @ drop consumed input"
  have next_frame: "next_frame (fp_max_payload fp) (taken @ input) = frame_body (fp_max_payload fp) n ?body"
    unfolding input by (rule next_frame_block [OF assms(1)])
  show ?thesis
  proof (cases "length ?body < n")
    case True
    then have "feed_payload fp input consumed
        = (fp\<lparr>fp_payload := ?body, fp_remaining := n - length ?body\<rparr>,
           \<lparr>st_consumed = length input, st_frame = None\<rparr>)"
      using assms by (simp add: feed_payload_def Let_def)
    moreover have "next_frame (fp_max_payload fp) (taken @ input) = None"
      using True by (simp add: next_frame frame_body_def)
    ultimately show ?thesis
      using True assms(1-4) by (auto simp: has_taken_def input intro!: feed_promise_none)
  next
    case False
    then have "min (fp_remaining fp) (length input - consumed) = n - length (fp_payload fp)"
      using assms by auto
    then have "feed_payload fp input consumed
        = (fp\<lparr>fp_phase := Header, fp_payload := [], fp_remaining := 0\<rparr>,
           \<lparr>st_consumed = consumed + (n - length (fp_payload fp)), st_frame = Some (Inr (take n ?body))\<rparr>)"
      using assms by (simp add: feed_payload_def Let_def)
    then show ?thesis
      using False assms(1-6)
      by (auto simp: next_frame frame_body_def is_malformed_def add.commute intro!: feed_promise_some)
  qed
qed

lemma feed_skip_promise:
  assumes "header_block h n" "fp_max_payload fp < n" "fp_phase fp = Skip" "fp_header fp = []"
    and "fp_skipped_size fp = n" "fp_prefix fp = take skipped_prefix_size body"
    and "fp_remaining fp = n - length body" "length body \<le> n"
    and input: "taken @ input = h @ body @ drop consumed input" and "consumed \<le> length input"
  shows "feed_promise (fp_max_payload fp) taken input (feed_skip fp input consumed)"
proof -
  let ?body = "body @ drop consumed input"
  have next_frame: "next_frame (fp_max_payload fp) (taken @ input) = frame_body (fp_max_payload fp) n ?body"
    unfolding input by (rule next_frame_block [OF assms(1)])
  have kept: "fp_prefix fp @ take (min k (skipped_prefix_size - length (fp_prefix fp))) (drop consumed input)
      = take skipped_prefix_size (body @ take k (drop consumed input))" for k
    by (cases "length body \<le> skipped_prefix_size") (simp_all add: assms(6) min.commute)
  show ?thesis
  proof (cases "length ?body < n")
    case True
    then have taken: "min (fp_remaining fp) (length input - consumed) = length input - consumed"
      using assms by simp
    then have "feed_skip fp input consumed
        = (fp\<lparr>fp_prefix := take skipped_prefix_size ?body, fp_remaining := n - length ?body\<rparr>,
           \<lparr>st_consumed = length input, st_frame = None\<rparr>)"
      using True assms kept [of "length input - consumed"] by (simp add: feed_skip_def Let_def)
    moreover have "next_frame (fp_max_payload fp) (taken @ input) = None"
      using True by (simp add: next_frame frame_body_def)
    moreover have "has_taken (fp\<lparr>fp_prefix := take skipped_prefix_size ?body, fp_remaining := n - length ?body\<rparr>)
        (taken @ input)"
      unfolding input using True assms(1-5) by (intro has_taken_Skip [OF assms(1)]) (simp_all del: take_append)
    ultimately show ?thesis
      by (simp add: feed_promise_none del: take_append)
  next
    case False
    then have "min (fp_remaining fp) (length input - consumed) = n - length body"
      using assms by auto
    then have "feed_skip fp input consumed
        = (fp\<lparr>fp_phase := Header, fp_prefix := [], fp_remaining := 0\<rparr>,
           \<lparr>st_consumed = consumed + (n - length body),
            st_frame = Some (Inl (oversized_error (fp_max_payload fp) n (take n ?body)))\<rparr>)"
      using assms kept [of "n - length body"]
      by (simp add: feed_skip_def Let_def oversized_def oversized_error_def)
    then show ?thesis
      using False assms(1-8)
      by (auto simp: next_frame frame_body_def is_malformed_def oversized_error_def add.commute
          intro!: feed_promise_some)
  qed
qed

lemma feed_header_promise:
  assumes "fp_phase fp = Header" "length (fp_header fp) \<le> max_header_size"
    and unended: "find_text blank_line (fp_header fp) = None"
  shows "feed_promise (fp_max_payload fp) (fp_header fp) input (feed_header fp input)"
proof -
  let ?h = "fp_header fp" and ?m = "fp_max_payload fp"
  define window where "window = take (Suc max_header_size - length ?h) input"
  have window: "take (Suc max_header_size) (?h @ input) = ?h @ window"
    using assms(2) by (simp add: window_def)
  have found: "header_end ?h window = map_option (\<lambda>i. i + 4 - length ?h) (find_text blank_line (?h @ window))"
    by (rule header_end_find [OF unended])
  show ?thesis
  proof (cases "find_text blank_line (?h @ window)")
    case None
    then have feed: "feed_header fp input =
        (let fp = fp\<lparr>fp_header := ?h @ window\<rparr>
         in if max_header_size < length (?h @ window) then break_with fp (length window) header_exceeds
            else (fp, \<lparr>st_consumed = length window, st_frame = None\<rparr>))"
      using found by (simp add: feed_header_def Let_def window_def [symmetric] del: find_text.simps)
    show ?thesis
    proof (cases "max_header_size < length (?h @ input)")
      case True
      then have "next_frame ?m (?h @ input) = Some (Inl (malformed_error header_exceeds), [])"
        using None by (simp add: next_frame_def window del: find_text.simps take_append)
      moreover have "max_header_size < length (?h @ window)"
        using True assms(2) by (simp add: window_def)
      ultimately show ?thesis
        unfolding feed by (simp add: Let_def feed_promise_broken)
    next
      case False
      then have "window = input" by (simp add: window_def)
      moreover have "next_frame ?m (?h @ input) = None"
        using None False by (simp add: next_frame_def window del: find_text.simps take_append)
      ultimately show ?thesis
        using False None assms(1) unfolding feed
        by (auto simp: has_taken_def Let_def simp del: find_text.simps intro!: feed_promise_none)
    qed
  next
    case (Some i)
    define stop where "stop = i + 4 - length ?h"
    have past: "length ?h < i + 4"
      using find_text_append_None [OF unended Some] by simp
    have "i + 4 \<le> length (?h @ window)" using find_text_end [OF Some] by simp
    then have stop: "stop \<le> length window" "i + 4 = length ?h + stop"
      using past by (auto simp: stop_def)
    then have block: "?h @ take stop window = take (i + 4) (?h @ input)" "stop \<le> length input"
      by (auto simp: window_def min_def split: if_splits)
    have "drop (i + 4) (?h @ input) = drop stop input"
      using stop(2) by simp
    then have taken: "?h @ input = take (i + 4) (?h @ input) @ drop stop input"
      by (metis append_take_drop_id)
    have len: "length (take (i + 4) (?h @ input)) = i + 4" using stop(2) block(2) by simp
    have "header_end ?h window = Some stop" unfolding found by (simp add: Some stop_def del: find_text.simps)
    then have feed: "feed_header fp input =
        (let fp = fp\<lparr>fp_header := take (i + 4) (?h @ input)\<rparr>
         in if max_header_size < i + 4 then break_with fp stop header_exceeds
            else case content_length (take (i + 4) (?h @ input)) of
                   Inl reason \<Rightarrow> break_with fp stop reason
                 | Inr n \<Rightarrow>
                     let fp = fp\<lparr>fp_header := [], fp_payload := [], fp_prefix := [], fp_remaining := n\<rparr>
                     in if fp_max_payload fp < n
                        then feed_skip (fp\<lparr>fp_phase := Skip, fp_skipped_size := n\<rparr>) input stop
                        else feed_payload (fp\<lparr>fp_phase := Payload\<rparr>) input stop)"
      using block by (simp add: feed_header_def Let_def window_def [symmetric] len del: take_append length_take)
    note next_frame = next_frame_def [of ?m "?h @ input", unfolded window Some option.case]
    show ?thesis
    proof (cases "max_header_size < i + 4")
      case True
      then show ?thesis unfolding feed by (simp add: Let_def next_frame feed_promise_broken)
    next
      case small: False
      show ?thesis
      proof (cases "content_length (take (i + 4) (?h @ input))")
        case (Inl reason)
        with small show ?thesis unfolding feed by (simp add: Let_def next_frame feed_promise_broken)
      next
        case (Inr n)
        have h: "header_block (take (i + 4) (?h @ input)) n"
          using Some small Inr by (intro header_block_take) (simp_all add: window del: find_text.simps take_append)
        show ?thesis
        proof (cases "?m < n")
          case True
          let ?fp = "fp\<lparr>fp_header := [], fp_payload := [], fp_prefix := [], fp_remaining := n,
            fp_phase := Skip, fp_skipped_size := n\<rparr>"
          have "feed_promise (fp_max_payload ?fp) ?h input (feed_skip ?fp input stop)"
            using True taken block(2) by (intro feed_skip_promise [OF h, of _ "[]"]) (simp_all del: take_append)
          with True small Inr show ?thesis unfolding feed by (simp add: Let_def)
        next
          case False
          let ?fp = "fp\<lparr>fp_header := [], fp_payload := [], fp_prefix := [], fp_remaining := n,
            fp_phase := Payload\<rparr>"
          have "feed_promise (fp_max_payload ?fp) ?h input (feed_payload ?fp input stop)"
            using False taken block(2) by (intro feed_payload_promise [OF h]) (simp_all del: take_append)
          with False small Inr show ?thesis unfolding feed by (simp add: Let_def)
        qed
      qed
    qed
  qed
qed

lemma feed_correct:
  assumes "has_taken fp taken"
  shows "feed_promise (fp_max_payload fp) taken input (feed fp input)"
proof (cases "fp_phase fp")
  case Header
  with assms have "length (fp_header fp) \<le> max_header_size" "find_text blank_line (fp_header fp) = None"
    "taken = fp_header fp"
    by (simp_all add: has_taken_def del: find_text.simps) (auto simp del: find_text.simps)
  with Header feed_header_promise [of fp input] show ?thesis by (simp add: feed_def)
next
  case Payload
  with assms obtain h n where "header_block h n" "taken = h @ fp_payload fp" "n \<le> fp_max_payload fp"
    "length (fp_payload fp) < n" "fp_remaining fp = n - length (fp_payload fp)" "fp_header fp = []"
    by (auto simp: has_taken_def)
  with Payload feed_payload_promise [of h n fp taken input 0] show ?thesis by (simp add: feed_def)
next
  case Skip
  with assms obtain h n body where "header_block h n" "taken = h @ body" "fp_max_payload fp < n"
    "fp_skipped_size fp = n" "fp_prefix fp = take skipped_prefix_size body"
    "length body < n" "fp_remaining fp = n - length body" "fp_header fp = []"
    by (auto simp: has_taken_def)
  with Skip feed_skip_promise [of h n fp body taken input 0] show ?thesis by (simp add: feed_def)
next
  case Broken
  with assms show ?thesis by (simp add: has_taken_def)
qed

lemma has_taken_frame_parser: "has_taken (frame_parser max_payload) []"
  by (simp add: frame_parser_def has_taken_Nil)

section \<open>Frames as more of the stream comes\<close>

definition is_over :: "ReadError + string \<Rightarrow> bool" where
  "is_over frame = (case frame of Inl e \<Rightarrow> re_kind e \<noteq> Oversized | Inr _ \<Rightarrow> False)"

lemma next_frame_over:
  "next_frame max_payload s = Some (frame, rest) \<Longrightarrow> is_over frame \<longleftrightarrow> is_malformed frame"
  by (auto simp: next_frame_def frame_body_def is_over_def is_malformed_def malformed_error_def
      oversized_error_def simp del: find_text.simps split: option.splits sum.splits if_splits)

lemma next_frame_append:
  assumes "next_frame max_payload s = Some (frame, rest)"
  shows "\<exists>rest'. next_frame max_payload (s @ t) = Some (frame, rest') \<and> (\<not> is_malformed frame \<longrightarrow> rest' = rest @ t)"
proof (cases "find_text blank_line (take (Suc max_header_size) s)")
  case None
  then have frame: "frame = Inl (malformed_error header_exceeds)" "max_header_size < length s"
    using assms by (auto simp: next_frame_def split: if_splits simp del: find_text.simps)
  then have "take (Suc max_header_size) (s @ t) = take (Suc max_header_size) s" by simp
  with None frame show ?thesis
    by (auto simp: next_frame_def is_malformed_def malformed_error_def simp del: find_text.simps take_append)
next
  case (Some i)
  then have i: "i + 4 \<le> length s" using find_text_end [OF Some] by simp
  from Some have "find_text blank_line (take (Suc max_header_size) (s @ t)) = Some i"
    using find_text_append by (simp del: find_text.simps)
  then show ?thesis
    using assms Some i
    by (auto simp: next_frame_def frame_body_def is_malformed_def malformed_error_def
        split: if_splits sum.splits simp del: find_text.simps)
qed

lemma has_taken_no_frame: "has_taken fp taken \<Longrightarrow> next_frame (fp_max_payload fp) taken = None"
  by (cases "fp_phase fp")
    (auto simp: has_taken_def next_frame_block frame_body_def next_frame_def [of _ "fp_header fp"]
      simp del: find_text.simps)

section \<open>What frame_header writes is read back\<close>

lemma find_text_skip:
  assumes "p \<noteq> []" "hd p \<notin> set a"
  shows "find_text p (a @ s) = map_option ((+) (length a)) (find_text p s)"
proof -
  have "\<not> starts_with (drop j (a @ s)) p" if "j < length a" for j
  proof -
    have "drop j (a @ s) = a ! j # drop (Suc j) a @ s" using that by (simp add: Cons_nth_drop_Suc [symmetric])
    moreover have "a ! j \<noteq> hd p" using assms(2) nth_mem [OF that] by auto
    ultimately show ?thesis using assms(1) by (cases p) (auto simp: starts_with_def)
  qed
  then show ?thesis using find_text_drop [of "length a" "a @ s" p] by simp
qed

lemma decimal_chars: "c \<in> set (decimal n) \<Longrightarrow> 48 \<le> uchar c \<and> uchar c \<le> 57"
  using decimal_digits [of n] by (auto simp: list_all_iff is_decimal_iff)

lemma decimal_no_char: "\<not> (48 \<le> uchar c \<and> uchar c \<le> 57) \<Longrightarrow> c \<notin> set (decimal n)"
  using decimal_chars by blast

lemma trim_decimal: "trim (CHR '' '' # decimal n) = decimal n"
proof -
  have plain: "\<not> blank c" if "c \<in> set (decimal n)" for c
    using decimal_chars [OF that] by auto
  then have "dropWhile blank (decimal n) = decimal n" "dropWhile blank (rev (decimal n)) = rev (decimal n)"
    by (simp_all add: dropWhile_eq_self_iff plain last_in_set hd_rev)
  then show ?thesis by (simp add: trim_def)
qed

lemma content_length_frame_header:
  assumes "n < 2 ^ 64"
  shows "content_length (frame_header n) = Inr n"
proof -
  let ?line = "''Content-Length: '' @ decimal n"
  have "CHR 0x0D \<notin> set ?line" using decimal_no_char [of "CHR 0x0D" n] by simp
  then have "find_text crlf (?line @ blank_line) = Some (length ?line)"
    by (subst find_text_skip) (simp_all add: starts_with_def)
  then have stop: "find_text crlf (frame_header n) = Some (length ?line)"
    by (simp add: frame_header_def del: find_text.simps)
  have line: "take (length ?line) (frame_header n) = ?line"
    by (simp add: frame_header_def)
  have colon: "find_char (\<lambda>c. c = CHR '':'') ?line = Some 14" by simp
  have "trim (take 14 ?line) = ''Content-Length''" by (simp add: trim_def)
  moreover have "trim (drop (14 + 1) ?line) = decimal n" by (simp add: trim_decimal)
  moreover have "from_chars (decimal n) = Some (n, [])"
    using from_chars_decimal [of n "[]"] assms by simp
  moreover have "frame_header n \<noteq> []" by (simp add: frame_header_def)
  ultimately show ?thesis
    by (subst content_length.simps)
      (simp only: stop line colon option.case Let_def equals_ignoring_case_def if_False not_True_eq_False
        simp_thms prod.case list.case)
qed

lemma decimal_size_length: "n < 2 ^ 64 \<Longrightarrow> length (decimal n) \<le> 20"
  using decimal_length [of n 20] by (simp add: order_less_trans)

lemma frame_header_block:
  assumes "n < 2 ^ 64"
  shows "header_block (frame_header n) n"
proof -
  let ?line = "''Content-Length: '' @ decimal n"
  have "CHR 0x0D \<notin> set ?line" using decimal_no_char [of "CHR 0x0D" n] by simp
  then have "find_text blank_line (?line @ blank_line) = Some (length ?line)"
    by (subst find_text_skip) (simp_all add: starts_with_def)
  then show ?thesis
    using content_length_frame_header [OF assms] decimal_size_length [OF assms]
    by (simp add: header_block_def frame_header_def max_header_size_def del: find_text.simps)
qed

definition frame_of :: "string \<Rightarrow> string" where
  "frame_of payload = frame_header (length payload) @ payload"

definition delivered :: "nat \<Rightarrow> string \<Rightarrow> ReadError + string" where
  "delivered max_payload payload =
     (if max_payload < length payload
      then Inl (oversized_error max_payload (length payload) payload)
      else Inr payload)"

lemma frames_of_frames:
  assumes "list_all (\<lambda>p. length p < 2 ^ 64) payloads"
  shows "frames max_payload (concat (map frame_of payloads)) = map (delivered max_payload) payloads"
  using assms
proof (induction payloads)
  case Nil
  then show ?case by (simp add: frames.simps next_frame_def)
next
  case (Cons p payloads)
  then have "header_block (frame_header (length p)) (length p)" by (simp add: frame_header_block)
  then have "next_frame max_payload (concat (map frame_of (p # payloads)))
      = Some (delivered max_payload p, concat (map frame_of payloads))"
    by (simp add: frame_of_def next_frame_block frame_body_def delivered_def)
  moreover have "\<not> is_malformed (delivered max_payload p)"
    by (simp add: is_malformed_def delivered_def oversized_error_def)
  ultimately show ?case
    using Cons by (subst frames.simps) simp
qed

text \<open>
  Every payload written in a frame is read back, from a stream of frames,
  byte for byte and in order, whatever it holds; one larger than the limit is reported with its
  size and first bytes, and the frames after it are read all the same.
\<close>

lemma frames_frame_of:
  assumes "list_all (\<lambda>p. length p < 2 ^ 64) payloads"
  shows "frames max_payload (concat (map frame_of payloads)) = map (delivered max_payload) payloads"
  using assms by (rule frames_of_frames)

lemma frames_frame_of_witness:
  "frames 3 (concat (map frame_of [''{}'', ''null'', []])) = map (delivered 3) [''{}'', ''null'', []]"
  by (rule frames_frame_of) simp

end
