(* ===== verification/Transport.thy ===== *)
theory Transport
  imports Framing "HOL-Library.Sublist"
begin

text \<open>
  The transports of \<^verbatim>\<open>ipc/transport.cpp\<close> and \<^verbatim>\<open>ipc/blocking_client.cpp\<close>: writing payloads
  in frames, gathered into as few writes as the stream allows, and reading the messages of a
  stream that comes in pieces. What libuv or the system does with a write or a read is a
  parameter: how a write ends, with part of its bytes gone out when it fails, and the pieces a read
  brings.
\<close>

section \<open>Writing\<close>

datatype io_error =
    invalid_argument
  | value_too_large_for_defined_data_type
  | operation_aborted
  | other_error int

definition max_write_size :: nat where
  "max_write_size = 2 ^ 32 - 1"

definition refused_write :: "nat \<Rightarrow> io_error option" where
  "refused_write n =
     (if n = 0 then Some invalid_argument
      else if max_write_size < n then Some value_too_large_for_defined_data_type
      else None)"

text \<open>
  How libuv ends a write: all of its bytes have gone out, or it failed, and then some number of its
  first bytes may have.
\<close>

datatype write_end = Sent | Broke io_error nat

text \<open>
  \<^verbatim>\<open>stream::write_vectored\<close>. What has gone out so far is \<open>written\<close>, a text for each write; it is all a
  stream's behaviour can depend on here, and \<open>stream written\<close> is the stream when a write begins: none
  without its handle (\<^verbatim>\<open>!self\<close>), else how it ends the write of a text.
\<close>

type_synonym write_stream = "string list \<Rightarrow> (string \<Rightarrow> write_end) option"

definition write_vectored :: "write_stream \<Rightarrow> string list \<Rightarrow> string list \<Rightarrow> string list \<times> io_error option" where
  "write_vectored stream written pieces =
     (case stream written of
        None \<Rightarrow> (written, Some invalid_argument)
      | Some write_op \<Rightarrow>
          let bufs = filter (\<lambda>piece. piece \<noteq> []) pieces;
              n = sum_list (map length bufs)
          in case refused_write n of
               Some err \<Rightarrow> (written, Some err)
             | None \<Rightarrow> case write_op (concat bufs) of
                         Broke err sent \<Rightarrow> (written @ [take sent (concat bufs)], Some err)
                       | Sent \<Rightarrow> (written @ [concat bufs], None))"

text \<open>
  The inner loop of \<^verbatim>\<open>write_frames\<close>: the pieces that go in one write, and the payloads left for
  the next. The first frame goes whatever its size (\<open>started\<close> is \<^verbatim>\<open>next > first\<close>).
\<close>

fun gather :: "nat \<Rightarrow> bool \<Rightarrow> string list \<Rightarrow> string list \<times> string list" where
  "gather n started [] = ([], [])"
| "gather n started (p # ps) =
     (let frame = length (frame_header (length p)) + length p
      in if started \<and> max_write_size < n + frame then ([], p # ps)
         else apfst ((@) [frame_header (length p), p]) (gather (n + frame) True ps))"

lemma gather_left: "length (snd (gather n started ps)) \<le> length ps"
  by (induction n started ps rule: gather.induct) (auto simp: Let_def intro: le_SucI)

function write_frames ::
    "write_stream \<Rightarrow> (io_error \<Rightarrow> string) \<Rightarrow> string list \<Rightarrow> string list \<Rightarrow> string list \<times> string option" where
  "write_frames stream message written payloads =
     (if payloads = [] then (written, None)
      else let group = gather 0 False payloads
           in case write_vectored stream written (fst group) of
                (written, None) \<Rightarrow> write_frames stream message written (snd group)
              | (written, Some err) \<Rightarrow>
                  (written, Some (if err = operation_aborted then ''transport closed'' else message err)))"
  by pat_completeness auto
termination
proof (relation "measure (\<lambda>(stream, message, written, payloads). length payloads)", goal_cases)
  case (2 stream message written payloads group a b)
  then obtain p ps where "payloads = p # ps" by (cases payloads) auto
  with 2 gather_left [of _ True ps] show ?case by (simp add: Let_def less_Suc_eq_le)
qed simp

declare write_frames.simps [simp del]

lemma gather_frames:
  "concat (fst (gather n started ps)) @ concat (map frame_of (snd (gather n started ps))) = concat (map frame_of ps)"
  by (induction n started ps rule: gather.induct) (simp_all add: Let_def frame_of_def)

lemma gather_suffix: "\<exists>k\<le>length ps. snd (gather n started ps) = drop k ps"
proof (induction n started ps rule: gather.induct)
  case (2 n started p ps)
  have "\<exists>j\<le>length (p # ps). drop k ps = drop j (p # ps)" if "k \<le> length ps" for k
    using that by (intro exI [of _ "Suc k"]) simp
  with 2 show ?case by (auto simp: Let_def intro: exI [of _ 0])
qed simp

lemma concat_filter_empty: "concat (filter (\<lambda>p. p \<noteq> []) ps) = concat ps"
  by (induction ps) auto

lemma sum_list_length: "sum_list (map length (ps :: 'a list list)) = length (concat ps)"
  by (simp add: length_concat)

lemma write_vectored_cases:
  "write_vectored stream written pieces = (written @ [concat pieces], None)
     \<and> length (concat pieces) \<le> max_write_size
   \<or> (\<exists>err part. write_vectored stream written pieces = (written @ part, Some err)
        \<and> length part \<le> 1 \<and> prefix (concat part) (concat pieces)
        \<and> list_all (\<lambda>w. length w \<le> max_write_size) part)"
proof -
  consider (none) "stream written = None" | (refused) op err where "stream written = Some op"
      "refused_write (length (concat pieces)) = Some err"
    | (writes) op where "stream written = Some op" "refused_write (length (concat pieces)) = None"
    by (cases "stream written"; cases "refused_write (length (concat pieces))") auto
  then show ?thesis
  proof cases
    case (writes op)
    then have "length (concat pieces) \<le> max_write_size" by (auto simp: refused_write_def split: if_splits)
    with writes show ?thesis
      by (cases "op (concat pieces)")
        (auto simp: write_vectored_def Let_def concat_filter_empty sum_list_length take_is_prefix min_def)
  qed (simp_all add: write_vectored_def Let_def concat_filter_empty sum_list_length)
qed

text \<open>
  What has gone out when frames are written: the frames of the first payloads whole, in writes of
  their own, and no more than the first bytes of the rest, in one write, which failed.
\<close>

definition sends_frames :: "string list \<Rightarrow> string option \<Rightarrow> string list \<Rightarrow> bool" where
  "sends_frames payloads failed writes \<longleftrightarrow> (\<exists>whole part k. writes = whole @ part
     \<and> concat whole = concat (map frame_of (take k payloads))
     \<and> prefix (concat part) (concat (map frame_of (drop k payloads)))
     \<and> length part \<le> 1
     \<and> (if failed = None then k = length payloads \<and> part = [] else k < length payloads)
     \<and> list_all (\<lambda>w. length w \<le> max_write_size) writes)"

lemma sends_frames_cons:
  assumes "sends_frames (drop k payloads) failed writes" "k \<le> length payloads"
    and "sent = concat (map frame_of (take k payloads))" "length sent \<le> max_write_size"
  shows "sends_frames payloads failed (sent # writes)"
proof -
  obtain whole part j where w: "writes = whole @ part"
    "concat whole = concat (map frame_of (take j (drop k payloads)))"
    "prefix (concat part) (concat (map frame_of (drop j (drop k payloads))))" "length part \<le> 1"
    "if failed = None then j = length (drop k payloads) \<and> part = [] else j < length (drop k payloads)"
    "list_all (\<lambda>w. length w \<le> max_write_size) writes"
    using assms(1) unfolding sends_frames_def by blast
  have "concat (sent # whole) = concat (map frame_of (take (k + j) payloads))" by (simp add: assms(3) w(2) take_add)
  moreover have "drop j (drop k payloads) = drop (k + j) payloads" by (simp add: add.commute)
  ultimately show ?thesis
    using w(1,3-6) assms(2,4) unfolding sends_frames_def
    by (intro exI [of _ "sent # whole"] exI [of _ part] exI [of _ "k + j"]) (auto split: if_splits)
qed

lemma gather_group:
  obtains k where "k \<le> length payloads" "snd (gather 0 False payloads) = drop k payloads"
    "concat (fst (gather 0 False payloads)) = concat (map frame_of (take k payloads))"
proof -
  obtain k where k: "k \<le> length payloads" "snd (gather 0 False payloads) = drop k payloads"
    using gather_suffix [of payloads 0 False] by blast
  have "concat (fst (gather 0 False payloads)) @ concat (map frame_of (drop k payloads)) = concat (map frame_of payloads)"
    using gather_frames [of 0 False payloads] unfolding k(2) .
  also have "\<dots> = concat (map frame_of (take k payloads)) @ concat (map frame_of (drop k payloads))"
    by (metis append_take_drop_id concat_append map_append)
  finally show thesis using that k by simp
qed

lemma write_frames_writes:
  "\<exists>writes. fst (write_frames stream message written payloads) = written @ writes
     \<and> sends_frames payloads (snd (write_frames stream message written payloads)) writes"
proof (induction stream message written payloads rule: write_frames.induct)
  case (1 stream message written payloads)
  show ?case
  proof (cases "payloads = []")
    case True
    then show ?thesis by (simp add: write_frames.simps sends_frames_def)
  next
    case False
    define group where "group = gather 0 False payloads"
    obtain k where k: "k \<le> length payloads" "snd group = drop k payloads"
      "concat (fst group) = concat (map frame_of (take k payloads))"
      unfolding group_def by (rule gather_group)
    from write_vectored_cases [of stream written "fst group"] show ?thesis
    proof (elim disjE exE conjE)
      fix err part
      assume fails: "write_vectored stream written (fst group) = (written @ part, Some err)" "length part \<le> 1"
        "prefix (concat part) (concat (fst group))" "list_all (\<lambda>w. length w \<le> max_write_size) part"
      have "prefix (concat (fst group)) (concat (map frame_of payloads))"
        unfolding k(3) by (metis append_take_drop_id concat_append map_append prefixI)
      with fails(2-4) False have "sends_frames payloads (Some e) part" for e
        unfolding sends_frames_def
        by (intro exI [of _ "[]"] exI [of _ part] exI [of _ 0]) (auto intro: prefix_order.trans)
      then show ?thesis
        using False fails(1) by (simp add: write_frames.simps [of _ _ _ payloads] group_def Let_def)
    next
      assume ok: "write_vectored stream written (fst group) = (written @ [concat (fst group)], None)"
        and small: "length (concat (fst group)) \<le> max_write_size"
      have step: "write_frames stream message written payloads
          = write_frames stream message (written @ [concat (fst group)]) (snd group)"
        using False ok by (simp add: write_frames.simps [of _ _ _ payloads] group_def Let_def)
      from "1.IH" [OF False group_def ok [symmetric] refl] obtain writes where
        "fst (write_frames stream message (written @ [concat (fst group)]) (snd group))
            = (written @ [concat (fst group)]) @ writes"
        "sends_frames (snd group) (snd (write_frames stream message (written @ [concat (fst group)]) (snd group))) writes"
        by (elim exE conjE) (rule that)
      with sends_frames_cons [OF _ k(1,3) small] show ?thesis
        unfolding step k(2) by (intro exI [of _ "concat (fst group) # writes"]) simp
    qed
  qed
qed

text \<open>
  C30: writing payloads sends their frames in order, and without an error all of
  them. When a write fails, the frames of the writes before it have gone out whole, and of the bytes
  from there on no more than some first ones, with that one write: nothing is sent after it. No write
  is larger than libuv takes.
\<close>

theorem write_frames_correct:
  "\<exists>whole part k. fst (write_frames stream message written payloads) = written @ whole @ part
     \<and> concat whole = concat (map frame_of (take k payloads))
     \<and> prefix (concat part) (concat (map frame_of (drop k payloads)))
     \<and> length part \<le> 1
     \<and> (if snd (write_frames stream message written payloads) = None
        then k = length payloads \<and> part = [] else k < length payloads)
     \<and> list_all (\<lambda>w. length w \<le> max_write_size) (whole @ part)"
  using write_frames_writes [of stream message written payloads] unfolding sends_frames_def by blast

section \<open>Reading\<close>

definition closed :: "string \<Rightarrow> ReadError" where
  "closed reason = \<lparr>re_kind = Closed, re_message = reason, re_size = 0, re_prefix = []\<rparr>"

text \<open>
  \<^verbatim>\<open>StreamTransport::read_message\<close> on a stream that comes in pieces: the bytes at hand are the
  first of \<open>chunks\<close>, of which the parser takes some (\<^verbatim>\<open>stream::consume\<close>). It waits for more until
  a frame is read, and \<open>reason\<close> is why there are no more.
\<close>

definition consume :: "nat \<Rightarrow> string list \<Rightarrow> string list" where
  "consume k chunks =
     (case chunks of [] \<Rightarrow> [] | c # cs \<Rightarrow> if length c \<le> k then cs else drop k c # cs)"

type_synonym stream_reader = "FrameParser \<times> string list"

partial_function (option) read_message ::
    "string \<Rightarrow> stream_reader \<Rightarrow> (stream_reader \<times> (ReadError + string)) option" where
  "read_message reason reader =
     (case snd reader of
        [] \<Rightarrow> Some (reader, Inl (closed reason))
      | chunk # chunks \<Rightarrow>
          let result = feed (fst reader) chunk;
              reader = (fst result, consume (st_consumed (snd result)) (chunk # chunks))
          in case st_frame (snd result) of
               None \<Rightarrow> read_message reason reader
             | Some frame \<Rightarrow> Some (reader, frame))"

text \<open>
  \<^verbatim>\<open>BlockingPipe::read\<close>, whose reads bring the pieces of \<open>reads\<close>: the bytes of each (none once the
  other end has closed), or why it failed. Without a piece left, the other end has closed.
\<close>

record blocking_pipe =
  bp_parser :: FrameParser
  bp_unread :: string
  bp_reads :: "(string + string) list"

fun blocking_fill :: "FrameParser \<Rightarrow> string \<Rightarrow> (string + string) list \<Rightarrow> blocking_pipe \<times> (ReadError + string)" where
  "blocking_fill fp unread [] =
     (\<lparr>bp_parser = fp, bp_unread = unread, bp_reads = []\<rparr>, Inl (closed ''the input ended''))"
| "blocking_fill fp unread (Inl failure # reads) =
     (\<lparr>bp_parser = fp, bp_unread = unread, bp_reads = reads\<rparr>, Inl (closed failure))"
| "blocking_fill fp unread (Inr chunk # reads) =
     (if chunk = []
      then (\<lparr>bp_parser = fp, bp_unread = unread, bp_reads = reads\<rparr>, Inl (closed ''the input ended''))
      else let result = feed fp chunk;
               fp = fst result;
               unread = drop (st_consumed (snd result)) chunk
           in case st_frame (snd result) of
                None \<Rightarrow> blocking_fill fp unread reads
              | Some frame \<Rightarrow> (\<lparr>bp_parser = fp, bp_unread = unread, bp_reads = reads\<rparr>, frame))"

definition blocking_read :: "blocking_pipe \<Rightarrow> blocking_pipe \<times> (ReadError + string)" where
  "blocking_read bp =
     (let result = feed (bp_parser bp) (bp_unread bp);
          unread = drop (st_consumed (snd result)) (bp_unread bp)
      in case st_frame (snd result) of
           None \<Rightarrow> blocking_fill (fst result) unread (bp_reads bp)
         | Some frame \<Rightarrow> (\<lparr>bp_parser = fst result, bp_unread = unread, bp_reads = bp_reads bp\<rparr>, frame))"

text \<open>
  The loop of \<^verbatim>\<open>Peer\<close>'s \<^verbatim>\<open>read_loop\<close> over a transport's reads: every message read, up to
  the one that ends it. An oversized message does not; nor does one that breaks the protocol, as a
  peer tolerates it by default. Under \<^verbatim>\<open>ViolationPolicy::End\<close> the loop stops behind such a message.
\<close>

partial_function (option) read_messages ::
    "('s \<Rightarrow> ('s \<times> (ReadError + string)) option) \<Rightarrow> 's \<Rightarrow> (ReadError + string) list option" where
  "read_messages read s =
     Option.bind (read s)
       (\<lambda>(s, frame).
          if is_over frame then Some [frame]
          else Option.bind (read_messages read s) (\<lambda>later. Some (frame # later)))"

section \<open>What a source of messages promises\<close>

text \<open>
  A source of messages reads the frames of the bytes it has yet to take, one a call, and then
  why they end.
\<close>

locale message_source =
  fixes read :: "'s \<Rightarrow> ('s \<times> (ReadError + string)) option"
    and parser :: "'s \<Rightarrow> FrameParser"
    and unread :: "'s \<Rightarrow> string"
    and ending :: "'s \<Rightarrow> string"
  assumes read_end:
      "has_taken (parser s) [] \<Longrightarrow> next_frame (fp_max_payload (parser s)) (unread s) = None \<Longrightarrow>
       \<exists>s'. read s = Some (s', Inl (closed (ending s)))"
    and read_frame:
      "has_taken (parser s) [] \<Longrightarrow> next_frame (fp_max_payload (parser s)) (unread s) = Some (frame, rest) \<Longrightarrow>
       \<exists>s'. read s = Some (s', frame)
          \<and> (\<not> is_malformed frame \<longrightarrow>
               has_taken (parser s') [] \<and> fp_max_payload (parser s') = fp_max_payload (parser s)
               \<and> unread s' = rest \<and> ending s' = ending s)"
begin

text \<open>The messages read are the frames of the bytes, and then the end.\<close>

lemma read_messages_frames:
  assumes "has_taken (parser s) []"
  shows "read_messages read s
    = Some (let messages = frames (fp_max_payload (parser s)) (unread s)
            in if messages \<noteq> [] \<and> is_malformed (last messages) then messages
               else messages @ [Inl (closed (ending s))])"
  using assms
proof (induction "length (unread s)" arbitrary: s rule: less_induct)
  case less
  show ?case
  proof (cases "next_frame (fp_max_payload (parser s)) (unread s)")
    case None
    then obtain s' where "read s = Some (s', Inl (closed (ending s)))"
      using read_end [OF less.prems] by blast
    then show ?thesis
      by (subst read_messages.simps) (simp add: None frames.simps [of _ "unread s"] is_over_def closed_def)
  next
    case (Some found)
    then obtain frame rest where found: "next_frame (fp_max_payload (parser s)) (unread s) = Some (frame, rest)"
      by (cases found) auto
    then obtain s' where read: "read s = Some (s', frame)"
      and rest: "\<not> is_malformed frame \<Longrightarrow> has_taken (parser s') []
        \<and> fp_max_payload (parser s') = fp_max_payload (parser s) \<and> unread s' = rest \<and> ending s' = ending s"
      using read_frame [OF less.prems] by blast
    note over = next_frame_over [OF found]
    show ?thesis
    proof (cases "is_malformed frame")
      case True
      then show ?thesis
        by (subst read_messages.simps) (simp add: read over frames.simps [of _ "unread s"] found)
    next
      case False
      then have "read_messages read s'
          = Some (let messages = frames (fp_max_payload (parser s)) rest
                  in if messages \<noteq> [] \<and> is_malformed (last messages) then messages
                     else messages @ [Inl (closed (ending s))])"
        using less.hyps [of s'] rest next_frame_shorter [OF found] by (simp add: Let_def)
      with False show ?thesis
        by (subst read_messages.simps) (auto simp: read over frames.simps [of _ "unread s"] found Let_def)
    qed
  qed
qed

end

section \<open>Both transports are sources of messages\<close>

lemma concat_consume [simp]: "concat (consume k (c # cs)) = drop k c @ concat cs"
  by (simp add: consume_def)

lemma consume_all [simp]: "consume (length c) (c # cs) = cs"
  by (simp add: consume_def)

lemma read_message_frame:
  assumes "has_taken fp taken"
  shows "case next_frame (fp_max_payload fp) (taken @ concat chunks) of
      None \<Rightarrow> (\<exists>reader. read_message reason (fp, chunks) = Some (reader, Inl (closed reason)))
    | Some (frame, rest) \<Rightarrow>
        (\<exists>fp' chunks'. read_message reason (fp, chunks) = Some ((fp', chunks'), frame)
           \<and> (\<not> is_malformed frame \<longrightarrow>
                has_taken fp' [] \<and> fp_max_payload fp' = fp_max_payload fp \<and> concat chunks' = rest))"
  using assms
proof (induction chunks arbitrary: fp taken)
  case Nil
  then show ?case using has_taken_no_frame by (simp add: read_message.simps)
next
  case (Cons chunk chunks)
  obtain fp' step where feed: "feed fp chunk = (fp', step)" by (cases "feed fp chunk")
  note promise = feed_correct [OF Cons.prems, of chunk, unfolded feed feed_promise_def prod.case]
  show ?case
  proof (cases "next_frame (fp_max_payload fp) (taken @ chunk)")
    case None
    then have step: "st_frame step = None" "st_consumed step = length chunk"
      and fp': "has_taken fp' (taken @ chunk)" "fp_max_payload fp' = fp_max_payload fp"
      using promise by simp_all
    have "read_message reason (fp, chunk # chunks) = read_message reason (fp', chunks)"
      by (subst read_message.simps) (simp add: feed step)
    with Cons.IH [OF fp'(1)] show ?thesis unfolding fp'(2) concat.simps append_assoc by (simp only:)
  next
    case (Some found)
    then obtain frame rest where found: "next_frame (fp_max_payload fp) (taken @ chunk) = Some (frame, rest)"
      by (cases found) auto
    obtain rest' where "next_frame (fp_max_payload fp) (taken @ concat (chunk # chunks)) = Some (frame, rest')"
      "\<not> is_malformed frame \<Longrightarrow> rest' = rest @ concat chunks"
      using next_frame_append [OF found, of "concat chunks"] by auto
    moreover have "read_message reason (fp, chunk # chunks)
        = Some ((fp', consume (st_consumed step) (chunk # chunks)), frame)"
      using promise found by (subst read_message.simps) (simp add: feed)
    ultimately show ?thesis using promise found by (auto split: if_splits)
  qed
qed

interpretation stream: message_source "read_message reason" fst "\<lambda>reader. concat (snd reader)" "\<lambda>_. reason"
  for reason
proof
  fix s :: stream_reader
  assume "has_taken (fst s) []" "next_frame (fp_max_payload (fst s)) (concat (snd s)) = None"
  then show "\<exists>s'. read_message reason s = Some (s', Inl (closed reason))"
    using read_message_frame [where fp = "fst s" and taken = "[]" and chunks = "snd s" and reason = reason] by simp
next
  fix s :: stream_reader and frame rest
  assume "has_taken (fst s) []" "next_frame (fp_max_payload (fst s)) (concat (snd s)) = Some (frame, rest)"
  then show "\<exists>s'. read_message reason s = Some (s', frame)
      \<and> (\<not> is_malformed frame \<longrightarrow> has_taken (fst s') [] \<and> fp_max_payload (fst s') = fp_max_payload (fst s)
           \<and> concat (snd s') = rest \<and> reason = reason)"
    using read_message_frame [where fp = "fst s" and taken = "[]" and chunks = "snd s" and reason = reason] by auto
qed

text \<open>The bytes the reads of a pipe bring, and why there are no more.\<close>

fun arriving :: "(string + string) list \<Rightarrow> string" where
  "arriving [] = []"
| "arriving (Inl failure # reads) = []"
| "arriving (Inr chunk # reads) = (if chunk = [] then [] else chunk @ arriving reads)"

fun ending_of :: "(string + string) list \<Rightarrow> string" where
  "ending_of [] = ''the input ended''"
| "ending_of (Inl failure # reads) = failure"
| "ending_of (Inr chunk # reads) = (if chunk = [] then ''the input ended'' else ending_of reads)"

lemma blocking_fill_frame:
  assumes "has_taken fp taken"
  shows "case next_frame (fp_max_payload fp) (taken @ arriving reads) of
      None \<Rightarrow> snd (blocking_fill fp unread reads) = Inl (closed (ending_of reads))
    | Some (frame, rest) \<Rightarrow>
        snd (blocking_fill fp unread reads) = frame
        \<and> (\<not> is_malformed frame \<longrightarrow>
             (let bp = fst (blocking_fill fp unread reads)
              in has_taken (bp_parser bp) [] \<and> fp_max_payload (bp_parser bp) = fp_max_payload fp
                 \<and> bp_unread bp @ arriving (bp_reads bp) = rest \<and> ending_of (bp_reads bp) = ending_of reads))"
  using assms
proof (induction fp unread reads arbitrary: taken rule: blocking_fill.induct)
  case (3 fp unread chunk reads)
  show ?case
  proof (cases "chunk = []")
    case True
    then show ?thesis using has_taken_no_frame [OF 3(2)] by simp
  next
    case False
    obtain fp' step where feed: "feed fp chunk = (fp', step)" by (cases "feed fp chunk")
    note promise = feed_correct [OF "3.prems", of chunk, unfolded feed feed_promise_def prod.case]
    show ?thesis
    proof (cases "next_frame (fp_max_payload fp) (taken @ chunk)")
      case None
      then have step: "st_frame step = None" "has_taken fp' (taken @ chunk)"
          "fp_max_payload fp' = fp_max_payload fp"
        using promise by simp_all
      have eq: "blocking_fill fp unread (Inr chunk # reads)
          = blocking_fill fp' (drop (st_consumed step) chunk) reads"
        using False by (simp add: feed step)
      have ih: "taken @ arriving (Inr chunk # reads) = (taken @ chunk) @ arriving reads"
        "ending_of (Inr chunk # reads) = ending_of reads"
        using False by simp_all
      from "3.IH" [OF False refl refl refl, unfolded feed fst_conv snd_conv, OF step(1,2)] step(3)
      show ?thesis unfolding eq ih by (simp only:)
    next
      case (Some found)
      then obtain frame rest where found: "next_frame (fp_max_payload fp) (taken @ chunk) = Some (frame, rest)"
        by (cases found) auto
      obtain rest' where "next_frame (fp_max_payload fp) (taken @ arriving (Inr chunk # reads)) = Some (frame, rest')"
        "\<not> is_malformed frame \<Longrightarrow> rest' = rest @ arriving reads"
        using next_frame_append [OF found, of "arriving reads"] False by auto
      moreover have "blocking_fill fp unread (Inr chunk # reads)
          = (\<lparr>bp_parser = fp', bp_unread = drop (st_consumed step) chunk, bp_reads = reads\<rparr>, frame)"
        using promise found False by (simp add: feed)
      ultimately show ?thesis using promise found False by (auto split: if_splits simp: Let_def)
    qed
  qed
qed (simp_all add: has_taken_no_frame)

lemma blocking_read_fill:
  "bp_unread bp \<noteq> [] \<Longrightarrow> blocking_read bp = blocking_fill (bp_parser bp) [] (Inr (bp_unread bp) # bp_reads bp)"
  by (simp add: blocking_read_def Let_def split: option.split)

lemma blocking_read_frame:
  assumes "has_taken (bp_parser bp) []"
  shows "case next_frame (fp_max_payload (bp_parser bp)) (bp_unread bp @ arriving (bp_reads bp)) of
      None \<Rightarrow> snd (blocking_read bp) = Inl (closed (ending_of (bp_reads bp)))
    | Some (frame, rest) \<Rightarrow>
        snd (blocking_read bp) = frame
        \<and> (\<not> is_malformed frame \<longrightarrow>
             (let bp' = fst (blocking_read bp)
              in has_taken (bp_parser bp') [] \<and> fp_max_payload (bp_parser bp') = fp_max_payload (bp_parser bp)
                 \<and> bp_unread bp' @ arriving (bp_reads bp') = rest \<and> ending_of (bp_reads bp') = ending_of (bp_reads bp)))"
proof (cases "bp_unread bp = []")
  case True
  obtain fp' step where feed: "feed (bp_parser bp) [] = (fp', step)" by (cases "feed (bp_parser bp) []")
  have "st_frame step = None" "has_taken fp' []" "fp_max_payload fp' = fp_max_payload (bp_parser bp)"
    using feed_correct [OF assms, of "[]", unfolded feed feed_promise_def prod.case] has_taken_no_frame [OF assms]
    by simp_all
  moreover from this have "blocking_read bp = blocking_fill fp' [] (bp_reads bp)"
    by (simp add: blocking_read_def True feed)
  ultimately show ?thesis
    using blocking_fill_frame [where fp = fp' and taken = "[]" and reads = "bp_reads bp" and unread = "[]"] True by (simp only: append_Nil)
next
  case False
  from blocking_fill_frame [OF assms, where reads = "Inr (bp_unread bp) # bp_reads bp" and unread = "[]"] False
  show ?thesis
    unfolding blocking_read_fill [OF False] by (simp only: arriving.simps ending_of.simps append_Nil if_False)
qed

interpretation blocking: message_source "\<lambda>bp. Some (blocking_read bp)" bp_parser
  "\<lambda>bp. bp_unread bp @ arriving (bp_reads bp)" "\<lambda>bp. ending_of (bp_reads bp)"
proof
  fix bp :: blocking_pipe
  assume "has_taken (bp_parser bp) []"
    "next_frame (fp_max_payload (bp_parser bp)) (bp_unread bp @ arriving (bp_reads bp)) = None"
  then show "\<exists>bp'. Some (blocking_read bp) = Some (bp', Inl (closed (ending_of (bp_reads bp))))"
    using blocking_read_frame [of bp] by (cases "blocking_read bp") simp
next
  fix bp :: blocking_pipe and frame rest
  assume "has_taken (bp_parser bp) []"
    "next_frame (fp_max_payload (bp_parser bp)) (bp_unread bp @ arriving (bp_reads bp)) = Some (frame, rest)"
  then show "\<exists>bp'. Some (blocking_read bp) = Some (bp', frame)
      \<and> (\<not> is_malformed frame \<longrightarrow> has_taken (bp_parser bp') []
           \<and> fp_max_payload (bp_parser bp') = fp_max_payload (bp_parser bp)
           \<and> bp_unread bp' @ arriving (bp_reads bp') = rest \<and> ending_of (bp_reads bp') = ending_of (bp_reads bp))"
    using blocking_read_frame [of bp] by (cases "blocking_read bp") (simp add: Let_def)
qed

section \<open>Messages\<close>

text \<open>Why a stream is over: a malformed frame, or else its end.\<close>

definition then_end :: "string \<Rightarrow> (ReadError + string) list \<Rightarrow> (ReadError + string) list" where
  "then_end reason messages =
     (if messages \<noteq> [] \<and> is_malformed (last messages) then messages
      else messages @ [Inl (closed reason)])"

text \<open>
  C21: the messages a stream transport reads depend only on the bytes of the
  stream, not on the pieces they come in: they are the frames of the stream cut whole, an
  oversized one reported in its place, up to a malformed one, if any, or else to the end of the
  stream; and reading ends.
\<close>

theorem read_messages_correct:
  "read_messages (read_message reason) (frame_parser max_payload, chunks)
     = Some (then_end reason (frames max_payload (concat chunks)))"
  using stream.read_messages_frames [of "(frame_parser max_payload, chunks)" reason]
  by (simp add: has_taken_frame_parser then_end_def Let_def) (simp add: frame_parser_def)

text \<open>
  C22: a blocking pipe reads the same frames as a stream transport, however
  its reads bring them, and reports a read that fails with why it failed.
\<close>

theorem blocking_messages_correct:
  "read_messages (\<lambda>bp. Some (blocking_read bp))
       \<lparr>bp_parser = frame_parser max_payload, bp_unread = [], bp_reads = reads\<rparr>
     = Some (then_end (ending_of reads) (frames max_payload (arriving reads)))"
  using blocking.read_messages_frames
      [of "\<lparr>bp_parser = frame_parser max_payload, bp_unread = [], bp_reads = reads\<rparr>"]
  by (simp add: has_taken_frame_parser then_end_def Let_def) (simp add: frame_parser_def)

lemma write_frames_sent:
  assumes "write_frames stream message [] payloads = (written, None)"
  shows "concat written = concat (map frame_of payloads)"
  using write_frames_writes [of stream message "[]" payloads] by (auto simp: assms sends_frames_def)

text \<open>What is read of frames of which the last may be cut off: those that came whole.\<close>

lemma next_frame_frame_of:
  assumes "length p < 2 ^ 64"
  shows "next_frame max_payload (frame_of p @ s) = Some (delivered max_payload p, s)"
    "\<not> is_malformed (delivered max_payload p)"
  using frame_header_block [OF assms]
  by (simp_all add: frame_of_def next_frame_block frame_body_def delivered_def is_malformed_def oversized_error_def)

lemma next_frame_cut_off:
  assumes "length p < 2 ^ 64" "strict_prefix s (frame_of p)"
  shows "next_frame max_payload s = None"
proof (rule ccontr)
  obtain t where t: "frame_of p = s @ t" "t \<noteq> []" using assms(2) by (auto elim!: strict_prefixE' simp: prefix_def)
  assume "next_frame max_payload s \<noteq> None"
  then obtain frame rest where "next_frame max_payload s = Some (frame, rest)" by auto
  from next_frame_append [OF this, of t] next_frame_frame_of(1) [OF assms(1), of max_payload "[]"]
    next_frame_frame_of(2) [OF assms(1), of max_payload] t
  show False by auto
qed

lemma frames_cut_off:
  assumes "list_all (\<lambda>p. length p < 2 ^ 64) payloads" "prefix s (concat (map frame_of payloads))"
  shows "\<exists>j rest. j \<le> length payloads \<and> s = concat (map frame_of (take j payloads)) @ rest
     \<and> (if j = length payloads then rest = [] else length rest < length (frame_of (payloads ! j)))
     \<and> frames max_payload s = map (delivered max_payload) (take j payloads)"
  using assms
proof (induction payloads arbitrary: s)
  case Nil
  then show ?case by (simp add: frames.simps next_frame_def)
next
  case (Cons p payloads)
  then have p: "length p < 2 ^ 64" by simp
  from Cons.prems(2) consider (cut) "strict_prefix s (frame_of p)"
    | (whole) s' where "s = frame_of p @ s'" "prefix s' (concat (map frame_of payloads))"
    by (cases "s = frame_of p") (auto simp: prefix_append strict_prefix_def)
  then show ?case
  proof cases
    case cut
    then show ?thesis
      using next_frame_cut_off [OF p cut]
      by (intro exI [of _ 0] exI [of _ s]) (simp add: frames.simps prefix_length_less)
  next
    case (whole s')
    have "list_all (\<lambda>p. length p < 2 ^ 64) payloads" using Cons.prems(1) by simp
    from Cons.IH [OF this whole(2)] obtain j rest where j: "j \<le> length payloads" "s' = concat (map frame_of (take j payloads)) @ rest"
      "if j = length payloads then rest = [] else length rest < length (frame_of (payloads ! j))"
      "frames max_payload s' = map (delivered max_payload) (take j payloads)" by blast
    have "frames max_payload s = delivered max_payload p # frames max_payload s'"
      using next_frame_frame_of [OF p] by (simp add: whole(1) frames.simps [of _ "frame_of p @ s'"])
    with j whole(1) show ?thesis by (intro exI [of _ "Suc j"] exI [of _ rest]) simp
  qed
qed

lemma write_frames_prefix:
  assumes "write_frames stream message [] payloads = (written, failed)"
  shows "prefix (concat written) (concat (map frame_of payloads))"
    "failed = None \<Longrightarrow> concat written = concat (map frame_of payloads)"
proof -
  obtain whole part k where w: "written = whole @ part" "concat whole = concat (map frame_of (take k payloads))"
    "prefix (concat part) (concat (map frame_of (drop k payloads)))"
    using write_frames_writes [of stream message "[]" payloads] by (auto simp: assms sends_frames_def)
  have "concat (map frame_of payloads) = concat (map frame_of (take k payloads)) @ concat (map frame_of (drop k payloads))"
    by (metis append_take_drop_id concat_append map_append)
  with w show "prefix (concat written) (concat (map frame_of payloads))" by simp
  show "concat written = concat (map frame_of payloads)" if "failed = None"
    using write_frames_sent assms that by simp
qed

text \<open>
  C40: when a write fails midway, what the other side reads before the stream
  ends is the payloads whose frames have gone out whole, exactly as they were given and in order; of the
  frame that was cut off it reads nothing. Without a failure it reads them all.
\<close>

theorem whole_messages_delivered:
  assumes "write_frames stream message [] payloads = (written, failed)"
    and "concat chunks = concat written"
    and "list_all (\<lambda>p. length p \<le> max_payload) payloads" "max_payload < 2 ^ 64"
  shows "\<exists>j rest. j \<le> length payloads \<and> concat written = concat (map frame_of (take j payloads)) @ rest
    \<and> (if j = length payloads then rest = [] else length rest < length (frame_of (payloads ! j)))
    \<and> (failed = None \<longrightarrow> j = length payloads)
    \<and> read_messages (read_message reason) (frame_parser max_payload, chunks)
      = Some (map Inr (take j payloads) @ [Inl (closed reason)])"
proof -
  have small: "list_all (\<lambda>p. length p < 2 ^ 64) payloads" using assms(3,4) by (auto simp: list_all_iff)
  obtain j rest where j: "j \<le> length payloads" "concat written = concat (map frame_of (take j payloads)) @ rest"
    "if j = length payloads then rest = [] else length rest < length (frame_of (payloads ! j))"
    "frames max_payload (concat written) = map (delivered max_payload) (take j payloads)"
    using frames_cut_off [OF small write_frames_prefix(1) [OF assms(1)], of max_payload] by blast
  have "map (delivered max_payload) (take j payloads) = map (delivered max_payload) payloads" if "failed = None"
    using j(4) frames_of_frames [OF small, of max_payload] write_frames_prefix(2) [OF assms(1) that] by simp
  from arg_cong [OF this, of length] have all: "failed = None \<longrightarrow> j = length payloads" using j(1) by simp
  have "map (delivered max_payload) (take j payloads) = map Inr (take j payloads)"
    using assms(3) in_set_takeD [of _ j payloads] by (fastforce simp: delivered_def list_all_iff)
  then have "read_messages (read_message reason) (frame_parser max_payload, chunks)
      = Some (map Inr (take j payloads) @ [Inl (closed reason)])"
    using stream.read_messages_frames [of "(frame_parser max_payload, chunks)" reason] j(4) assms(2)
    by (simp add: has_taken_frame_parser Let_def) (auto simp: frame_parser_def is_malformed_def last_map)
  with j(1-3) all show ?thesis by blast
qed

text \<open>A stream that fails every write after thirty bytes.\<close>

definition breaking_stream :: write_stream where
  "breaking_stream written = Some (\<lambda>s. Broke (other_error 32) 30)"

theorem whole_messages_delivered_witness:
  "fst (write_frames breaking_stream (\<lambda>_. ''broken pipe'') [] [''{}'', ''[1]'']) = [take 30 (frame_of ''{}'' @ frame_of ''[1]'')]
   \<and> (\<exists>j. read_messages (read_message ''end'') (frame_parser 64, [take 30 (frame_of ''{}'' @ frame_of ''[1]'')])
     = Some (map Inr (take j [''{}'', ''[1]'']) @ [Inl (closed ''end'')]))"
proof -
  have w: "write_frames breaking_stream (\<lambda>_. ''broken pipe'') [] [''{}'', ''[1]'']
      = ([take 30 (frame_of ''{}'' @ frame_of ''[1]'')], Some ''broken pipe'')"
    by (simp add: write_frames.simps write_vectored_def refused_write_def max_write_size_def Let_def breaking_stream_def
        frame_header_def frame_of_def decimal.simps) blast
  have "list_all (\<lambda>p. length p \<le> 64) [''{}'', ''[1]'']" "(64 :: nat) < 2 ^ 64" by simp_all
  from whole_messages_delivered [OF w refl this] w show ?thesis by auto
qed



end
