(* ===== verification/Path.thy ===== *)
theory Path
  imports Views "HOL-Library.Sublist"
begin

text \<open>
  Paths as text, \<^verbatim>\<open>fs/path.h\<close> and \<^verbatim>\<open>fs/path.cpp\<close>, in both styles: the root a path starts
  with, its components, taking it apart, joining, normalizing, and the relative path between
  two. A view of a path is its text; where the code asks where in the path a view starts, it is
  the pair of offsets it runs between. \<^verbatim>\<open>normalize\<close> writes over the path it reads, and is
  modelled so.
\<close>

section \<open>Roots\<close>

datatype Style = Posix | Windows

datatype Prefix = NoPrefix | Drive | UNC | Device | VerbatimDrive | VerbatimUNC | Verbatim

record Root =
  rt_prefix :: Prefix
  rt_name :: string
  rt_directory :: string

abbreviation slash :: char where
  "slash \<equiv> CHR ''/''"

abbreviation backslash :: char where
  "backslash \<equiv> CHR 0x5C"

definition is_ascii_letter :: "char \<Rightarrow> bool" where
  "is_ascii_letter c \<longleftrightarrow> between CHR ''a'' c CHR ''z'' \<or> between CHR ''A'' c CHR ''Z''"

definition ascii_lower :: "char \<Rightarrow> char" where
  "ascii_lower c =
     (if between CHR ''A'' c CHR ''Z'' then to_char (uchar c - uchar CHR ''A'' + uchar CHR ''a'') else c)"

definition is_verbatim :: "Prefix \<Rightarrow> bool" where
  "is_verbatim kind \<longleftrightarrow> kind = VerbatimDrive \<or> kind = VerbatimUNC \<or> kind = Verbatim"

definition implies_root :: "Prefix \<Rightarrow> bool" where
  "implies_root kind \<longleftrightarrow> kind \<noteq> NoPrefix \<and> kind \<noteq> Drive"

definition is_separator :: "char \<Rightarrow> Style \<Rightarrow> bool" where
  "is_separator c style \<longleftrightarrow> c = slash \<or> style = Windows \<and> c = backslash"

definition separates :: "char \<Rightarrow> Style \<Rightarrow> Prefix \<Rightarrow> bool" where
  "separates c style kind \<longleftrightarrow> (if is_verbatim kind then c = backslash else is_separator c style)"

text \<open>The end of the run of characters from \<open>at\<close> that satisfy \<open>P\<close>.\<close>

definition run_end :: "(char \<Rightarrow> bool) \<Rightarrow> string \<Rightarrow> nat \<Rightarrow> nat" where
  "run_end P p at = at + length (takeWhile P (drop at p))"

definition name_end :: "string \<Rightarrow> nat \<Rightarrow> Style \<Rightarrow> nat" where
  "name_end p at style = run_end (\<lambda>c. \<not> is_separator c style) p at"

text \<open>The lambda \<^verbatim>\<open>prefix_of\<close> of \<^verbatim>\<open>windows_prefix\<close>.\<close>

definition prefix_of :: "string \<Rightarrow> Prefix \<Rightarrow> nat \<Rightarrow> Root" where
  "prefix_of p kind stop =
     \<lparr>rt_prefix = kind,
      rt_name = rev (dropWhile (\<lambda>c. separates c Windows kind) (rev (take stop p))),
      rt_directory = []\<rparr>"

text \<open>The lambda \<^verbatim>\<open>component_end\<close>.\<close>

definition component_end :: "string \<Rightarrow> nat \<Rightarrow> nat" where
  "component_end p at = run_end (\<lambda>c. c \<noteq> backslash) p at"

definition windows_prefix :: "string \<Rightarrow> Root" where
  "windows_prefix p =
     (let sep = (\<lambda>c. c = slash \<or> c = backslash); rest = drop 4 p
      in if starts_with p [backslash, backslash, CHR ''?'', backslash] then
           if map ascii_lower (take 3 rest) = ''unc'' \<and> (length rest = 3 \<or> rest ! 3 = backslash) then
             let server_end = component_end p (min (length p) 8);
                 share_end = (if server_end < length p then component_end p (server_end + 1) else server_end)
             in prefix_of p VerbatimUNC share_end
           else if 2 \<le> length rest \<and> is_ascii_letter (rest ! 0) \<and> rest ! 1 = CHR '':''
                   \<and> (length rest = 2 \<or> rest ! 2 = backslash)
           then prefix_of p VerbatimDrive 6
           else prefix_of p Verbatim (component_end p 4)
         else if 4 \<le> length p \<and> sep (p ! 0) \<and> sep (p ! 1) \<and> (p ! 2 = CHR ''.'' \<or> p ! 2 = CHR ''?'') \<and> sep (p ! 3)
         then prefix_of p Device (name_end p 4 Windows)
         else if 3 \<le> length p \<and> sep (p ! 0) \<and> sep (p ! 1) \<and> \<not> sep (p ! 2) then
           let server_end = name_end p 2 Windows
           in if server_end + 1 < length p \<and> \<not> sep (p ! (server_end + 1))
              then prefix_of p UNC (name_end p (server_end + 1) Windows)
              else prefix_of p UNC server_end
         else if 2 \<le> length p \<and> is_ascii_letter (p ! 0) \<and> p ! 1 = CHR '':''
         then prefix_of p Drive 2
         else \<lparr>rt_prefix = NoPrefix, rt_name = [], rt_directory = []\<rparr>)"

definition root :: "string \<Rightarrow> Style \<Rightarrow> Root" where
  "root p style =
     (let r = (if style = Windows then windows_prefix p
               else \<lparr>rt_prefix = NoPrefix, rt_name = [], rt_directory = []\<rparr>)
      in r\<lparr>rt_directory := takeWhile (\<lambda>c. separates c style (rt_prefix r)) (drop (length (rt_name r)) p)\<rparr>)"

definition root_end :: "Root \<Rightarrow> nat" where
  "root_end r = length (rt_name r) + length (rt_directory r)"

definition rooted :: "Root \<Rightarrow> bool" where
  "rooted r \<longleftrightarrow> implies_root (rt_prefix r) \<or> rt_directory r \<noteq> []"

definition is_absolute :: "string \<Rightarrow> Style \<Rightarrow> bool" where
  "is_absolute p style \<longleftrightarrow>
     (let r = root p style
      in implies_root (rt_prefix r) \<or> rt_prefix r = Drive \<and> rt_directory r \<noteq> []
         \<or> style = Posix \<and> rt_directory r \<noteq> [])"

definition has_root :: "string \<Rightarrow> Style \<Rightarrow> bool" where
  "has_root p style \<longleftrightarrow> rooted (root p style)"

definition same_prefix :: "Root \<Rightarrow> Root \<Rightarrow> Style \<Rightarrow> bool" where
  "same_prefix a b style \<longleftrightarrow>
     rt_prefix a = rt_prefix b \<and> length (rt_name a) = length (rt_name b)
     \<and> list_all2 (\<lambda>x y. separates x style (rt_prefix a) \<and> separates y style (rt_prefix b)
                         \<or> ascii_lower x = ascii_lower y) (rt_name a) (rt_name b)"

definition same_root :: "Root \<Rightarrow> Root \<Rightarrow> Style \<Rightarrow> bool" where
  "same_root a b style \<longleftrightarrow> same_prefix a b style \<and> rooted a = rooted b"

definition separator_of :: "string \<Rightarrow> Root \<Rightarrow> Style \<Rightarrow> char \<Rightarrow> char" where
  "separator_of p r style fallback =
     (if is_verbatim (rt_prefix r) then backslash
      else case filter (\<lambda>c. is_separator c style) p of [] \<Rightarrow> fallback | c # _ \<Rightarrow> c)"

section \<open>Components\<close>

text \<open>
  \<^verbatim>\<open>operator++\<close> of the iterator: from where the last name ends to where the next one starts and
  ends. The names of a path, as offsets: those the iterator gives before the sentinel.
\<close>

definition components_next :: "string \<Rightarrow> Style \<Rightarrow> Prefix \<Rightarrow> nat \<Rightarrow> nat \<times> nat" where
  "components_next p style kind stop =
     (let start = run_end (\<lambda>c. separates c style kind) p stop
      in (start, run_end (\<lambda>c. \<not> separates c style kind) p start))"

lemma run_end_ge: "at \<le> run_end P p at"
  by (simp add: run_end_def)

lemma run_end_le: "at \<le> length p \<Longrightarrow> run_end P p at \<le> length p"
  using length_takeWhile_le [of P "drop at p"] by (simp add: run_end_def)

lemma run_end_stops:
  assumes "run_end P p at < length p"
  shows "\<not> P (p ! run_end P p at)"
proof -
  let ?s = "drop at p"
  from assms have "length (takeWhile P ?s) < length ?s" by (simp add: run_end_def)
  then have "\<not> P (?s ! length (takeWhile P ?s))" by (rule nth_length_takeWhile)
  with assms show ?thesis by (simp add: run_end_def)
qed

lemma run_end_grows: "at < length p \<Longrightarrow> P (p ! at) \<Longrightarrow> at < run_end P p at"
  by (simp add: run_end_def Cons_nth_drop_Suc [symmetric])

function components_from :: "string \<Rightarrow> Style \<Rightarrow> Prefix \<Rightarrow> nat \<Rightarrow> (nat \<times> nat) list" where
  "components_from p style kind stop =
     (let name = components_next p style kind stop
      in if length p \<le> fst name then [] else name # components_from p style kind (snd name))"
  by pat_completeness auto
termination
proof (relation "measure (\<lambda>(p, style, kind, stop). length p - stop)", goal_cases)
  case (2 p style kind stop name)
  let ?sep = "\<lambda>c. separates c style kind"
  let ?start = "run_end ?sep p stop"
  have name: "name = (?start, run_end (\<lambda>c. \<not> ?sep c) p ?start)"
    using 2(1) by (simp add: components_next_def Let_def)
  have start: "?start < length p" using 2(2) by (simp add: name)
  have "?start < run_end (\<lambda>c. \<not> ?sep c) p ?start"
    by (rule run_end_grows [OF start]) (rule run_end_stops [OF start])
  with start run_end_ge [of stop ?sep p] show ?case
    by (simp add: name)
qed simp

declare components_from.simps [simp del]

definition view_at :: "string \<Rightarrow> nat \<times> nat \<Rightarrow> string" where
  "view_at p name = take (snd name - fst name) (drop (fst name) p)"

definition components :: "string \<Rightarrow> Style \<Rightarrow> (nat \<times> nat) list" where
  "components p style = (let r = root p style in components_from p style (rt_prefix r) (root_end r))"

definition names_after :: "string \<Rightarrow> Style \<Rightarrow> string list" where
  "names_after p style = map (view_at p) (components p style)"

section \<open>Taking apart\<close>

text \<open>The start of the run of characters before \<open>stop\<close>, not before \<open>low\<close>, that satisfy \<open>P\<close>.\<close>

fun run_start :: "(char \<Rightarrow> bool) \<Rightarrow> string \<Rightarrow> nat \<Rightarrow> nat \<Rightarrow> nat" where
  "run_start P p low 0 = 0"
| "run_start P p low (Suc stop) =
     (if low < Suc stop \<and> P (p ! stop) then run_start P p low stop else Suc stop)"

definition trimmed_end :: "string \<Rightarrow> Root \<Rightarrow> Style \<Rightarrow> nat" where
  "trimmed_end p r style = run_start (\<lambda>c. separates c style (rt_prefix r)) p (root_end r) (length p)"

definition filename_at :: "string \<Rightarrow> Style \<Rightarrow> nat \<times> nat" where
  "filename_at p style =
     (let r = root p style; stop = trimmed_end p r style
      in (run_start (\<lambda>c. \<not> separates c style (rt_prefix r)) p (root_end r) stop, stop))"

definition filename :: "string \<Rightarrow> Style \<Rightarrow> string" where
  "filename p style = view_at p (filename_at p style)"

definition parent :: "string \<Rightarrow> Style \<Rightarrow> string" where
  "parent p style =
     (if filename p style = [] then []
      else let before = take (fst (filename_at p style)) p
           in take (trimmed_end before (root p style) style) before)"

definition extension_dot :: "string \<Rightarrow> nat option" where
  "extension_dot name =
     (if name = ''.'' \<or> name = ''..'' then None
      else case find_last_char (\<lambda>c. c = CHR ''.'') name of
             Some dot \<Rightarrow> if dot = 0 then None else Some dot
           | None \<Rightarrow> None)"

definition stem :: "string \<Rightarrow> Style \<Rightarrow> string" where
  "stem p style =
     (let name = filename p style
      in case extension_dot name of Some dot \<Rightarrow> take dot name | None \<Rightarrow> name)"

definition extension :: "string \<Rightarrow> Style \<Rightarrow> string" where
  "extension p style =
     (let name = filename p style
      in case extension_dot name of Some dot \<Rightarrow> drop dot name | None \<Rightarrow> [])"

section \<open>Editing\<close>

definition push :: "string \<Rightarrow> string \<Rightarrow> Style \<Rightarrow> string" where
  "push base p style =
     (if base = [] \<or> is_absolute p style then p
      else let b = root base style; r = root p style
           in if rt_prefix r \<noteq> NoPrefix \<and> \<not> same_prefix r b style then p
              else let rest = drop (length (rt_name r)) p;
                       verbatim = is_verbatim (rt_prefix b);
                       path =
                         (if rt_directory r \<noteq> [] then take (length (rt_name b)) base
                          else let ends_in_separator =
                                 (length (rt_name b) < length base \<and> separates (last base) style (rt_prefix b))
                               in if rest \<noteq> [] \<and> \<not> ends_in_separator
                                     \<and> (length (rt_name b) < length base \<or> implies_root (rt_prefix b))
                                  then let sep = foldl (\<lambda>sep c. if is_separator c style then c else sep)
                                                   (separator_of rest r style slash) base
                                       in base @ [if verbatim then backslash else sep]
                                  else base)
                   in path @ (if verbatim then map (\<lambda>c. if c = slash then backslash else c) rest else rest))"

definition pop :: "string \<Rightarrow> Style \<Rightarrow> bool \<times> string" where
  "pop path style =
     (if filename path style = [] then (False, path)
      else (True, take (length (parent path style)) path))"

definition set_file_name :: "string \<Rightarrow> string \<Rightarrow> Style \<Rightarrow> string" where
  "set_file_name path name style = push (snd (pop path style)) name style"

definition set_extension :: "string \<Rightarrow> string \<Rightarrow> Style \<Rightarrow> bool \<times> string" where
  "set_extension path ext style =
     (let name = filename path style
      in if name = [] \<or> name = ''.'' \<or> name = ''..'' then (False, path)
         else let path = take (fst (filename_at path style)
                           + (case extension_dot name of Some dot \<Rightarrow> dot | None \<Rightarrow> length name)) path
              in (True, if ext = [] then path
                        else if starts_with ext ''.'' then path @ ext
                        else path @ ''.'' @ ext))"

datatype DotDot = Fold | Keep

text \<open>A step of the loop of \<^verbatim>\<open>normalize\<close> over the components, kept as views of the path.\<close>

definition keep_step :: "string \<Rightarrow> DotDot \<Rightarrow> bool \<Rightarrow> (nat \<times> nat) list \<Rightarrow> nat \<times> nat \<Rightarrow> (nat \<times> nat) list" where
  "keep_step p dot_dot climbs_stop kept name =
     (if view_at p name = ''.'' then kept
      else if view_at p name = ''..'' \<and> dot_dot = Fold \<and> kept \<noteq> [] \<and> view_at p (last kept) \<noteq> ''..''
      then butlast kept
      else if view_at p name = ''..'' \<and> dot_dot = Fold \<and> climbs_stop then kept
      else kept @ [name])"

text \<open>
  The rest of \<^verbatim>\<open>normalize\<close> writes into the characters of the path, \<open>chars\<close>, which the kept views are
  of: \<open>at\<close> is the length written. \<open>put\<close> is \<^verbatim>\<open>std::memmove\<close> to there.
\<close>

definition put :: "string \<Rightarrow> nat \<times> string \<Rightarrow> nat \<times> string" where
  "put new buf = (let (at, chars) = buf in (at + length new, take at chars @ new @ drop (at + length new) chars))"

definition put_kept :: "char \<Rightarrow> (nat \<times> string) \<times> bool \<Rightarrow> nat \<times> nat \<Rightarrow> (nat \<times> string) \<times> bool" where
  "put_kept sep state name =
     (let (buf, first) = state; buf = (if first then buf else put [sep] buf)
      in (put (view_at (snd buf) name) buf, False))"

definition normalize :: "string \<Rightarrow> DotDot \<Rightarrow> Style \<Rightarrow> string" where
  "normalize p dot_dot style =
     (if p = [] then []
      else let r = root p style;
               kept = foldl (keep_step p dot_dot (rooted r)) [] (components p style);
               sep = separator_of p r style slash;
               name = map (\<lambda>c. if \<not> is_verbatim (rt_prefix r) \<and> is_separator c style then sep else c) (rt_name r);
               buf = put name (0, p);
               buf = (if rt_directory r \<noteq> [] then put [sep] buf else buf);
               buf = fst (foldl (put_kept sep) (buf, True) kept)
           in if fst buf = 0 then ''.'' else take (fst buf) (snd buf))"

section \<open>Between two paths\<close>

fun common_length :: "string list \<Rightarrow> string list \<Rightarrow> nat" where
  "common_length (a # as) (b # bs) = (if a = b then Suc (common_length as bs) else 0)"
| "common_length as bs = 0"

fun join_names :: "char \<Rightarrow> string list \<Rightarrow> string" where
  "join_names sep [] = []"
| "join_names sep [n] = n"
| "join_names sep (n # m # ns) = n @ sep # join_names sep (m # ns)"

definition relative :: "string \<Rightarrow> string \<Rightarrow> Style \<Rightarrow> string option" where
  "relative p base style =
     (let pr = root p style; br = root base style
      in if \<not> same_root pr br style then None
         else let a = names_after p style; b = names_after base style;
                  common = common_length a b
              in if ''..'' \<in> set (drop common b) then None
                 else let climbs = length (filter (\<lambda>n. n \<noteq> ''.'') (drop common b))
                      in if climbs = 0 \<and> common = length a then Some ''.''
                         else let sep = separator_of p pr style (separator_of base br style slash)
                              in Some (join_names sep (replicate climbs ''..'' @ drop common a)))"

definition resolve :: "string \<Rightarrow> string \<Rightarrow> DotDot \<Rightarrow> Style \<Rightarrow> string" where
  "resolve p base dot_dot style = normalize (push base p style) dot_dot style"

definition strip_prefix :: "string \<Rightarrow> string \<Rightarrow> Style \<Rightarrow> string option" where
  "strip_prefix p ancestor style =
     (if \<not> same_root (root p style) (root ancestor style) style then None
      else let names = names_after p style; ancestor = names_after ancestor style
           in if length names < length ancestor \<or> ancestor \<noteq> take (length ancestor) names then None
              else if length ancestor = length names then Some []
              else Some (drop (fst (components p style ! length ancestor)) p))"

definition is_within :: "string \<Rightarrow> string \<Rightarrow> Style \<Rightarrow> bool" where
  "is_within p ancestor style \<longleftrightarrow> strip_prefix p ancestor style \<noteq> None"

definition to_slash :: "string \<Rightarrow> Style \<Rightarrow> string" where
  "to_slash p style =
     (if style = Windows \<and> \<not> is_verbatim (rt_prefix (root p style))
      then map (\<lambda>c. if c = backslash then slash else c) p else p)"

definition lowercase_drive :: "string \<Rightarrow> Style \<Rightarrow> string" where
  "lowercase_drive p style =
     (if rt_prefix (root p style) = Drive then ascii_lower (hd p) # tl p else p)"

definition to_backslash :: "string \<Rightarrow> string" where
  "to_backslash p =
     (if \<not> is_verbatim (rt_prefix (root p Windows))
      then map (\<lambda>c. if c = slash then backslash else c) p else p)"

section \<open>Names between separators\<close>

text \<open>The names of a text, cut at its separators.\<close>

function names_of :: "(char \<Rightarrow> bool) \<Rightarrow> string \<Rightarrow> string list" where
  "names_of sep s =
     (let t = dropWhile sep s
      in if t = [] then []
         else takeWhile (\<lambda>c. \<not> sep c) t # names_of sep (dropWhile (\<lambda>c. \<not> sep c) t))"
  by pat_completeness auto
termination
proof (relation "measure (length \<circ> snd)", goal_cases)
  case (2 sep s t)
  then have t: "t \<noteq> []" "\<not> sep (hd t)" using hd_dropWhile [of sep s] by auto
  then have "length (dropWhile (\<lambda>c. \<not> sep c) t) < length t"
    by (cases t) (simp_all add: less_Suc_eq_le length_dropWhile_le)
  also have "length t \<le> length s" using 2(1) by (simp add: length_dropWhile_le)
  finally show ?case by simp
qed simp

declare names_of.simps [simp del]

lemma drop_run_end: "drop (run_end P p at) p = dropWhile P (drop at p)"
  by (metis add.commute drop_drop dropWhile_eq_drop run_end_def)

lemma view_at_run: "view_at p (at, run_end P p at) = takeWhile P (drop at p)"
  by (simp add: view_at_def run_end_def takeWhile_eq_take [symmetric])

lemma components_from_names:
  "map (view_at p) (components_from p style kind at) = names_of (\<lambda>c. separates c style kind) (drop at p)"
proof (induction p style kind at rule: components_from.induct)
  case (1 p style kind at)
  let ?sep = "\<lambda>c. separates c style kind"
  let ?start = "run_end ?sep p at"
  have drop: "dropWhile ?sep (drop at p) = drop ?start p" by (simp add: drop_run_end)
  show ?case
  proof (cases "length p \<le> ?start")
    case True
    then show ?thesis
      by (simp add: components_from.simps [of _ _ _ at] names_of.simps [of _ "drop at p"]
          components_next_def Let_def drop)
  next
    case False
    let ?stop = "run_end (\<lambda>c. \<not> ?sep c) p ?start"
    have "components_from p style kind at = (?start, ?stop) # components_from p style kind ?stop"
      using False by (simp add: components_from.simps [of _ _ _ at] components_next_def Let_def)
    moreover have "names_of ?sep (drop at p) = view_at p (?start, ?stop) # names_of ?sep (drop ?stop p)"
      using False unfolding view_at_run drop_run_end [of _ _ ?start]
      by (subst names_of.simps) (simp add: Let_def drop)
    moreover have "map (view_at p) (components_from p style kind ?stop) = names_of ?sep (drop ?stop p)"
      using 1 [OF refl] False unfolding components_next_def Let_def fst_conv snd_conv by blast
    ultimately show ?thesis by simp
  qed
qed

text \<open>
  The offsets of the names: each after a separator past the one before it, from \<open>low\<close> on, and not
  empty.
\<close>

fun spaced :: "nat \<Rightarrow> (nat \<times> nat) list \<Rightarrow> bool" where
  "spaced low [] \<longleftrightarrow> True"
| "spaced low (name # names) \<longleftrightarrow> low \<le> fst name \<and> fst name < snd name \<and> spaced (Suc (snd name)) names"

lemma spaced_weaken: "spaced low names \<Longrightarrow> low' \<le> low \<Longrightarrow> spaced low' names"
  by (cases names) auto

lemma spaced_subseq: "subseq kept names \<Longrightarrow> spaced low names \<Longrightarrow> spaced low kept"
proof (induction arbitrary: low rule: list_emb.induct)
  case (list_emb_Cons xs ys y)
  then show ?case using spaced_weaken by fastforce
next
  case (list_emb_Cons2 x y xs ys)
  then show ?case by simp
qed simp

lemma components_from_spaced:
  "spaced at (components_from p style kind at)
   \<and> (\<forall>name\<in>set (components_from p style kind at). snd name \<le> length p)"
proof (induction p style kind at rule: components_from.induct)
  case (1 p style kind at)
  let ?sep = "\<lambda>c. separates c style kind"
  let ?start = "run_end ?sep p at"
  show ?case
  proof (cases "length p \<le> ?start")
    case True
    then show ?thesis by (simp add: components_from.simps [of _ _ _ at] components_next_def Let_def)
  next
    case False
    let ?stop = "run_end (\<lambda>c. \<not> ?sep c) p ?start"
    let ?rest = "components_from p style kind ?stop"
    have start: "?start < length p" using False by simp
    have eq: "components_from p style kind at = (?start, ?stop) # ?rest"
      using False by (simp add: components_from.simps [of _ _ _ at] components_next_def Let_def)
    have ih: "spaced ?stop ?rest" "\<forall>name\<in>set ?rest. snd name \<le> length p"
      using 1 [OF refl] False by (simp_all add: components_next_def Let_def)
    have grows: "?start < ?stop"
      by (rule run_end_grows [OF start]) (rule run_end_stops [OF start])
    have le: "?stop \<le> length p" by (rule run_end_le [OF less_imp_le [OF start]])
    have "spaced (Suc ?stop) ?rest"
    proof (cases ?rest)
      case (Cons name names)
      then have name: "name = components_next p style kind ?stop" "fst name < length p"
        using components_from.simps [of p style kind ?stop] by (simp_all add: Let_def split: if_splits)
      have first: "fst name = run_end ?sep p ?stop"
        by (simp only: name(1) components_next_def Let_def fst_conv)
      have "?stop \<noteq> fst name"
      proof
        assume eq: "?stop = fst name"
        then have stop: "?stop < length p" using name(2) by linarith
        from run_end_stops [OF stop] have "?sep (p ! ?stop)" by blast
        from run_end_grows [of ?stop p ?sep, OF stop this] eq first show False by linarith
      qed
      with ih(1) Cons show ?thesis by simp
    qed simp
    then show ?thesis unfolding eq using ih(2) grows le run_end_ge [of at ?sep p] by simp
  qed
qed

section \<open>Normalizing in place\<close>

text \<open>The names \<^verbatim>\<open>normalize\<close> keeps, of those of a path.\<close>

definition keep_name :: "DotDot \<Rightarrow> bool \<Rightarrow> string list \<Rightarrow> string \<Rightarrow> string list" where
  "keep_name dot_dot climbs_stop kept name =
     (if name = ''.'' then kept
      else if name = ''..'' \<and> dot_dot = Fold \<and> kept \<noteq> [] \<and> last kept \<noteq> ''..'' then butlast kept
      else if name = ''..'' \<and> dot_dot = Fold \<and> climbs_stop then kept
      else kept @ [name])"

definition keep_names :: "DotDot \<Rightarrow> bool \<Rightarrow> string list \<Rightarrow> string list" where
  "keep_names dot_dot climbs_stop names = foldl (keep_name dot_dot climbs_stop) [] names"

lemma keep_step_name:
  "map (view_at p) (keep_step p dot_dot climbs_stop kept name)
    = keep_name dot_dot climbs_stop (map (view_at p) kept) (view_at p name)"
  by (simp add: keep_step_def keep_name_def last_map map_butlast)

lemma keep_steps_names:
  "map (view_at p) (foldl (keep_step p dot_dot climbs_stop) kept names)
    = foldl (keep_name dot_dot climbs_stop) (map (view_at p) kept) (map (view_at p) names)"
  by (induction names arbitrary: kept) (simp_all add: keep_step_name)

lemma subseq_butlast: "subseq kept names \<Longrightarrow> subseq (butlast kept) names"
  by (metis append_butlast_last_id butlast.simps(1) prefixI prefix_imp_subseq subseq_order.order_trans)

lemma keep_steps_subseq:
  assumes "subseq kept before"
  shows "subseq (foldl (keep_step p dot_dot climbs_stop) kept names) (before @ names)"
  using assms
proof (induction names arbitrary: kept before)
  case (Cons name names)
  have "subseq (keep_step p dot_dot climbs_stop kept name) (before @ [name])"
  proof -
    have "subseq before (before @ [name])" by (simp add: prefix_imp_subseq)
    then have "subseq kept (before @ [name])" "subseq (butlast kept) (before @ [name])"
      using Cons.prems subseq_butlast [OF Cons.prems] subseq_order.order_trans by blast+
    moreover have "subseq (kept @ [name]) (before @ [name])"
      using Cons.prems by (intro list_emb_append_mono) simp_all
    ultimately show ?thesis by (simp add: keep_step_def)
  qed
  from Cons.IH [OF this] show ?case by simp
qed simp

text \<open>
  Each piece lands where it is in the path or before, so that what is still to be read stays.
\<close>

lemma put_kept_loop:
  assumes "spaced low kept" "\<forall>name\<in>set kept. snd name \<le> length p"
    and "if first then at \<le> low else at < low" "at \<le> length p"
    and "length chars = length p" "drop at chars = drop at p"
  shows "let (at', chars') = fst (foldl (put_kept sep) ((at, chars), first) kept)
    in at' \<le> length p \<and> length chars' = length p
       \<and> take at' chars' = take at chars @ (if first then join_names sep (map (view_at p) kept)
            else concat (map (\<lambda>n. sep # n) (map (view_at p) kept)))"
  using assms
proof (induction kept arbitrary: low at chars first)
  case Nil
  then show ?case by simp
next
  case (Cons name kept)
  define at1 where "at1 = (if first then at else Suc at)"
  define chars1 where "chars1 = (if first then chars else take at chars @ sep # drop (Suc at) chars)"
  have name: "low \<le> fst name" "fst name < snd name" "snd name \<le> length p" "spaced (Suc (snd name)) kept"
    using Cons.prems by simp_all
  have at1: "at1 \<le> fst name" using Cons.prems(3) name(1) by (auto simp: at1_def split: if_splits)
  have len1: "length chars1 = length p"
    using Cons.prems(3-5) name by (auto simp: chars1_def split: if_splits)
  have later1: "drop at1 chars1 = drop at1 p"
  proof (cases first)
    case False
    have "drop (Suc at) chars = drop (Suc at) p"
      using Cons.prems(6) by (metis drop_drop plus_1_eq_Suc)
    then show ?thesis using False Cons.prems(4,5) by (simp add: at1_def chars1_def)
  qed (use Cons.prems(6) in \<open>simp add: at1_def chars1_def\<close>)
  define n where "n = view_at p name"
  have n: "view_at chars1 name = n"
  proof -
    have "drop (fst name) chars1 = drop (fst name) p"
      using later1 at1 by (metis drop_drop le_add_diff_inverse2)
    then show ?thesis by (simp add: view_at_def n_def)
  qed
  have length_n: "length n = snd name - fst name" using name by (simp add: n_def view_at_def)
  define at2 where "at2 = at1 + length n"
  define chars2 where "chars2 = take at1 chars1 @ n @ drop at2 chars1"
  have "(if first then (at, chars) else put [sep] (at, chars)) = (at1, chars1)"
    by (simp add: put_def at1_def chars1_def)
  then have step: "put_kept sep ((at, chars), first) name = ((at2, chars2), False)"
    unfolding put_kept_def Let_def prod.case by (simp add: n put_def at2_def chars2_def)
  have at2: "at2 \<le> snd name" using at1 name(2) length_n by (simp add: at2_def)
  have len2: "length chars2 = length p" using len1 at2 name(3) by (simp add: chars2_def at2_def)
  have at1p: "at1 \<le> length chars1" using at1 name len1 by linarith
  have later2: "drop at2 chars2 = drop at2 p"
    using later1 at1p by (simp add: chars2_def at2_def) (metis add.commute drop_drop)
  have written: "take at2 chars2 = take at1 chars1 @ n"
    using at1p by (simp add: chars2_def at2_def)
  have before: "take at1 chars1 = take at chars @ (if first then [] else [sep])"
    using Cons.prems(4,5) by (simp add: at1_def chars1_def)
  have "join_names sep (n # ns) = n @ concat (map (\<lambda>n. sep # n) ns)" for ns
    by (induction ns arbitrary: n) simp_all
  moreover note Cons.IH [OF name(4), of False at2 chars2] at2 name(3) Cons.prems(2) len2 later2
  ultimately show ?case
    using written before by (simp add: step n_def [symmetric] Let_def split: prod.splits)
qed

lemma prefix_of_name: "prefix (rt_name (prefix_of p kind stop)) p"
proof -
  have "prefix (rev (dropWhile P (rev q))) q" for P and q :: string
    by (metis append_Nil2 dropWhile_eq_drop prefix_def rev_append rev_rev_ident takeWhile_dropWhile_id)
  moreover have "prefix (take stop p) p" by (rule take_is_prefix)
  ultimately show ?thesis by (simp add: prefix_of_def) (metis prefix_order.trans)
qed

lemma windows_prefix_name: "prefix (rt_name (windows_prefix p)) p"
  by (simp add: windows_prefix_def Let_def prefix_of_name)

lemma root_name: "prefix (rt_name (root p style)) p"
  by (simp add: root_def Let_def windows_prefix_name)

lemma root_directory:
  "rt_directory (root p style)
    = takeWhile (\<lambda>c. separates c style (rt_prefix (root p style))) (drop (length (rt_name (root p style))) p)"
  by (simp add: root_def Let_def)

lemma root_parts: "p = rt_name (root p style) @ rt_directory (root p style) @ drop (root_end (root p style)) p"
proof -
  obtain rest where rest: "p = rt_name (root p style) @ rest" using root_name by (auto simp: prefix_def)
  then have "drop (length (rt_name (root p style))) p = rest" by (metis append_eq_conv_conj)
  then have directory: "rt_directory (root p style) = takeWhile (\<lambda>c. separates c style (rt_prefix (root p style))) rest"
    by (simp add: root_directory)
  then have "rest = rt_directory (root p style) @ drop (length (rt_directory (root p style))) rest"
    by (metis append_eq_conv_conj takeWhile_dropWhile_id)
  then show ?thesis
    using rest \<open>drop (length (rt_name (root p style))) p = rest\<close>
    by (metis add.commute drop_drop root_end_def)
qed

lemma root_end_le: "root_end (root p style) \<le> length p"
  using arg_cong [OF root_parts [of p style], of length] by (simp add: root_end_def)

lemma names_after_of:
  "names_after p style = names_of (\<lambda>c. separates c style (rt_prefix (root p style))) (drop (root_end (root p style)) p)"
  by (simp add: names_after_def components_def Let_def components_from_names)

text \<open>The text \<^verbatim>\<open>normalize\<close> is meant to write.\<close>

definition normalized :: "string \<Rightarrow> DotDot \<Rightarrow> Style \<Rightarrow> string" where
  "normalized p dot_dot style =
     (let r = root p style; sep = separator_of p r style slash;
          out = map (\<lambda>c. if \<not> is_verbatim (rt_prefix r) \<and> is_separator c style then sep else c) (rt_name r)
            @ (if rt_directory r \<noteq> [] then [sep] else [])
            @ join_names sep (keep_names dot_dot (rooted r) (names_after p style))
      in if p = [] then [] else if out = [] then ''.'' else out)"

lemma normalize_normalized: "normalize p dot_dot style = normalized p dot_dot style"
proof (cases "p = []")
  case False
  define r where "r = root p style"
  define kept where "kept = foldl (keep_step p dot_dot (rooted r)) [] (components p style)"
  define sep where "sep = separator_of p r style slash"
  define name where "name = map (\<lambda>c. if \<not> is_verbatim (rt_prefix r) \<and> is_separator c style then sep else c) (rt_name r)"
  define head where "head = name @ (if rt_directory r \<noteq> [] then [sep] else [])"
  define buf where "buf = (if rt_directory r \<noteq> [] then put [sep] (put name (0, p)) else put name (0, p))"
  have names: "map (view_at p) kept = keep_names dot_dot (rooted r) (names_after p style)"
    by (simp add: kept_def keep_steps_names keep_names_def names_after_def)
  have "subseq kept (components p style)"
    unfolding kept_def using keep_steps_subseq [of "[]" "[]"] by simp
  moreover have "spaced (root_end r) (components p style)"
    and ends: "\<forall>name\<in>set (components p style). snd name \<le> length p"
    using components_from_spaced [of "root_end r" p style "rt_prefix r"]
    by (simp_all add: components_def Let_def r_def)
  ultimately have kept: "spaced (root_end r) kept" "\<forall>name\<in>set kept. snd name \<le> length p"
    using spaced_subseq ends by (auto dest: list_emb_set)
  have len: "length head \<le> root_end r" "root_end r \<le> length p"
    using root_end_le [of p style] by (auto simp: head_def name_def root_end_def r_def Suc_le_eq)
  have buf: "buf = (length head, head @ drop (length head) p)"
    using len by (auto simp: buf_def put_def head_def name_def Let_def)
  have "let (at, chars) = fst (foldl (put_kept sep) (buf, True) kept)
      in at \<le> length p \<and> length chars = length p \<and> take at chars = head @ join_names sep (map (view_at p) kept)"
    using put_kept_loop [OF kept, of True "length head" "head @ drop (length head) p" sep] len
    by (simp add: buf)
  then obtain at chars where written: "fst (foldl (put_kept sep) (buf, True) kept) = (at, chars)"
    "at \<le> length chars" "take at chars = head @ join_names sep (map (view_at p) kept)"
    by (cases "fst (foldl (put_kept sep) (buf, True) kept)") auto
  have "normalize p dot_dot style = (if at = 0 then ''.'' else take at chars)"
    using written(1) False
    unfolding normalize_def r_def kept_def sep_def name_def buf_def Let_def by simp
  moreover have "at = 0 \<longleftrightarrow> take at chars = []"
    using written(2) by (cases chars) auto
  moreover have "normalized p dot_dot style
      = (let out = head @ join_names sep (keep_names dot_dot (rooted r) (names_after p style))
         in if out = [] then ''.'' else out)"
    using False unfolding normalized_def r_def sep_def head_def name_def Let_def by simp
  ultimately show ?thesis using written(3) names by (simp add: Let_def)
qed (simp add: normalize_def normalized_def)

text \<open>
  C37: \<^verbatim>\<open>normalize\<close>, which writes over the very path whose names it still
  reads, gives the root and the kept names as they were, in both styles: no name is overwritten
  before it is moved.
\<close>

theorem normalize_in_place:
  "normalize p dot_dot style =
     (let r = root p style; sep = separator_of p r style slash;
          out = map (\<lambda>c. if \<not> is_verbatim (rt_prefix r) \<and> is_separator c style then sep else c) (rt_name r)
            @ (if rt_directory r \<noteq> [] then [sep] else [])
            @ join_names sep (foldl (keep_name dot_dot (rooted r)) [] (names_after p style))
      in if p = [] then [] else if out = [] then ''.'' else out)"
  using normalize_normalized unfolding normalized_def keep_names_def .

section \<open>Names joined are read back\<close>

definition plain_name :: "(char \<Rightarrow> bool) \<Rightarrow> string \<Rightarrow> bool" where
  "plain_name sep n \<longleftrightarrow> n \<noteq> [] \<and> list_all (\<lambda>c. \<not> sep c) n"

lemma names_of_plain: "list_all (plain_name sep) (names_of sep s)"
proof (induction sep s rule: names_of.induct)
  case (1 sep s)
  let ?t = "dropWhile sep s"
  have "plain_name sep (takeWhile (\<lambda>c. \<not> sep c) ?t)" if "?t \<noteq> []"
  proof -
    from that have "\<not> sep (hd ?t)" by (rule hd_dropWhile)
    then have "takeWhile (\<lambda>c. \<not> sep c) ?t \<noteq> []" using that by (cases ?t) auto
    then show ?thesis by (auto simp: plain_name_def list_all_iff dest: set_takeWhileD)
  qed
  with 1 show ?case by (subst names_of.simps) (simp add: Let_def)
qed

lemma names_of_Nil [simp]: "names_of sep [] = []"
  by (simp add: names_of.simps)

lemma names_of_sep [simp]: "sep c \<Longrightarrow> names_of sep (c # s) = names_of sep s"
  by (subst (1 2) names_of.simps) simp

lemma names_of_dropWhile: "names_of sep (dropWhile sep s) = names_of sep s"
  by (subst (1 2) names_of.simps) (simp only: dropWhile_idem)

lemma names_of_seps: "list_all sep s \<Longrightarrow> names_of sep (s @ t) = names_of sep t"
  by (induction s) simp_all

lemma names_of_name:
  assumes "plain_name sep n" "t = [] \<or> sep (hd t)"
  shows "names_of sep (n @ t) = n # names_of sep t"
proof -
  have "dropWhile sep (n @ t) = n @ t"
    using assms(1) by (cases n) (simp_all add: plain_name_def)
  moreover have "takeWhile (\<lambda>c. \<not> sep c) (n @ t) = n" "dropWhile (\<lambda>c. \<not> sep c) (n @ t) = t"
    using assms by (cases t; simp add: plain_name_def list_all_iff takeWhile_append2 dropWhile_append2)+
  moreover have "n @ t \<noteq> []" using assms(1) by (simp add: plain_name_def)
  ultimately show ?thesis by (subst names_of.simps) (simp add: Let_def)
qed

lemma names_of_join:
  assumes "list_all (plain_name P) ns" "P sep"
  shows "names_of P (join_names sep ns) = ns"
  using assms
proof (induction sep ns rule: join_names.induct)
  case (2 sep n)
  then show ?case using names_of_name [of P n "[]"] by simp
next
  case (3 sep n m ns)
  then show ?case using names_of_name [of P n "sep # join_names sep (m # ns)"] by simp
qed simp

lemma names_of_append:
  assumes "s = [] \<or> sep (last s) \<or> t = [] \<or> sep (hd t)"
  shows "names_of sep (s @ t) = names_of sep s @ names_of sep t"
  using assms
proof (induction sep s rule: names_of.induct)
  case (1 sep s)
  let ?t = "dropWhile sep s"
  show ?case
  proof (cases "?t = []")
    case True
    then have "list_all sep s" by (simp add: list_all_iff)
    then show ?thesis using names_of_seps [of sep s] names_of_seps [of sep s "[]"] by simp
  next
    case False
    define a where "a = takeWhile sep s"
    define n where "n = takeWhile (\<lambda>c. \<not> sep c) ?t"
    define u where "u = dropWhile (\<lambda>c. \<not> sep c) ?t"
    have names: "names_of sep s = n # names_of sep u"
      unfolding names_of.simps [of sep s] Let_def if_not_P [OF False] by (simp add: n_def u_def)
    then have plain: "n \<noteq> []" "plain_name sep n" "\<not> sep (last n)"
      using names_of_plain [of sep s] by (auto simp: plain_name_def list_all_iff)
    have s: "s = a @ n @ u" by (simp add: a_def n_def u_def)
    have skip: "names_of sep (a @ x) = names_of sep x" for x
      by (rule names_of_seps) (auto simp: a_def list_all_iff dest: set_takeWhileD)
    have u: "u = [] \<or> sep (hd u)"
      using hd_dropWhile [of "\<lambda>c. \<not> sep c" ?t] by (auto simp: u_def)
    have last: "u = [] \<or> sep (last u) \<or> t = [] \<or> sep (hd t)"
      using "1.prems" by (auto simp: s)
    have edge: "u @ t = [] \<or> sep (hd (u @ t))"
      using "1.prems" plain(1,3) u by (cases "u = []") (auto simp: s)
    have "names_of sep (s @ t) = names_of sep (n @ u @ t)"
      by (simp add: s skip)
    also have "\<dots> = n # names_of sep (u @ t)" using names_of_name [OF plain(2) edge] .
    also have "names_of sep (u @ t) = names_of sep u @ names_of sep t"
      using "1.IH" [OF refl False] last by (simp add: u_def)
    also have "n # names_of sep u @ names_of sep t = names_of sep s @ names_of sep t"
      by (simp add: names)
    finally show ?thesis by simp
  qed
qed

section \<open>The names kept\<close>

text \<open>
  Names as \<^verbatim>\<open>normalize\<close> leaves them: none is \<^verbatim>\<open>.\<close>, and where \<^verbatim>\<open>..\<close> is folded it stands only in
  front, and not at all after a root.
\<close>

fun climbs_first :: "string list \<Rightarrow> bool" where
  "climbs_first [] \<longleftrightarrow> True"
| "climbs_first (n # ns) \<longleftrightarrow> (if n = ''..'' then climbs_first ns else ''..'' \<notin> set ns)"

definition normal :: "DotDot \<Rightarrow> bool \<Rightarrow> string list \<Rightarrow> bool" where
  "normal dot_dot climbs_stop ns \<longleftrightarrow>
     ''.'' \<notin> set ns \<and> (dot_dot = Fold \<longrightarrow> climbs_first ns \<and> (climbs_stop \<longrightarrow> ''..'' \<notin> set ns))"

lemma climbs_first_snoc:
  "climbs_first (ns @ [n]) \<longleftrightarrow> climbs_first ns \<and> (n = ''..'' \<longrightarrow> list_all (\<lambda>m. m = ''..'') ns)"
  by (induction ns) (auto simp: list_all_iff)

lemma climbs_first_last: "climbs_first ns \<Longrightarrow> ns = [] \<or> last ns = ''..'' \<Longrightarrow> list_all (\<lambda>m. m = ''..'') ns"
  by (induction ns rule: rev_induct) (auto simp: climbs_first_snoc)

lemma normal_snoc:
  "normal dot_dot climbs_stop (ns @ [n]) \<longleftrightarrow> normal dot_dot climbs_stop ns \<and> n \<noteq> ''.''
     \<and> (dot_dot = Fold \<and> n = ''..'' \<longrightarrow> \<not> climbs_stop \<and> list_all (\<lambda>m. m = ''..'') ns)"
  by (auto simp: normal_def climbs_first_snoc)

lemma normal_keep_name: "normal dot_dot climbs_stop kept \<Longrightarrow> normal dot_dot climbs_stop (keep_name dot_dot climbs_stop kept name)"
proof -
  assume kept: "normal dot_dot climbs_stop kept"
  then have "normal dot_dot climbs_stop (butlast kept)"
    by (cases kept rule: rev_cases) (simp_all add: normal_snoc)
  moreover have "list_all (\<lambda>m. m = ''..'') kept"
    if "dot_dot = Fold" "kept = [] \<or> last kept = ''..''"
    using that kept climbs_first_last by (simp add: normal_def)
  ultimately show ?thesis
    using kept by (auto simp: keep_name_def normal_snoc)
qed

lemma normal_keep_names: "normal dot_dot climbs_stop (keep_names dot_dot climbs_stop names)"
proof -
  have "normal dot_dot climbs_stop (foldl (keep_name dot_dot climbs_stop) kept names)"
    if "normal dot_dot climbs_stop kept" for kept
    using that by (induction names arbitrary: kept) (simp_all add: normal_keep_name)
  then show ?thesis by (simp add: keep_names_def normal_def)
qed

lemma keep_names_normal: "normal dot_dot climbs_stop ns \<Longrightarrow> keep_names dot_dot climbs_stop ns = ns"
proof (induction ns rule: rev_induct)
  case (snoc n ns)
  then have "keep_names dot_dot climbs_stop ns = ns" by (auto simp: normal_def climbs_first_snoc)
  with snoc.prems show ?case
    by (auto simp: keep_names_def keep_name_def normal_def climbs_first_snoc list_all_iff last_in_set)
qed (simp add: keep_names_def)

lemma keep_names_dot: "keep_names dot_dot climbs_stop [''.''] = []"
  by (simp add: keep_names_def keep_name_def)

lemma keep_names_subset: "set (keep_names dot_dot climbs_stop names) \<subseteq> set names"
proof -
  have "set (foldl (keep_name dot_dot climbs_stop) kept names) \<subseteq> set kept \<union> set names" for kept
  proof (induction names arbitrary: kept)
    case (Cons n names)
    have "set (keep_name dot_dot climbs_stop kept n) \<subseteq> insert n (set kept)"
      by (auto simp: keep_name_def dest: in_set_butlastD)
    with Cons.IH [of "keep_name dot_dot climbs_stop kept n"] show ?case by auto
  qed simp
  from this [of "[]"] show ?thesis by (simp add: keep_names_def)
qed

section \<open>POSIX paths\<close>

abbreviation posix_names :: "string \<Rightarrow> string list" where
  "posix_names \<equiv> names_of (\<lambda>c. c = slash)"

lemma root_posix: "root p Posix = \<lparr>rt_prefix = NoPrefix, rt_name = [], rt_directory = takeWhile (\<lambda>c. c = slash) p\<rparr>"
  by (simp add: root_def separates_def is_verbatim_def is_separator_def)

lemma separates_posix: "separates c Posix NoPrefix \<longleftrightarrow> c = slash"
  by (simp add: separates_def is_verbatim_def is_separator_def)

lemma names_after_posix: "names_after p Posix = posix_names p"
proof -
  have "posix_names (drop (length (takeWhile (\<lambda>c. c = slash) p)) p) = posix_names p"
    by (simp add: dropWhile_eq_drop [symmetric] names_of_dropWhile)
  then show ?thesis by (simp add: names_after_of root_posix root_end_def separates_posix)
qed

lemma is_absolute_posix: "is_absolute p Posix \<longleftrightarrow> p \<noteq> [] \<and> hd p = slash"
  by (cases p) (simp_all add: is_absolute_def root_posix implies_root_def)

lemma rooted_posix: "rooted (root p Posix) \<longleftrightarrow> is_absolute p Posix"
  by (simp add: rooted_def is_absolute_def root_posix implies_root_def)

lemma separator_of_posix: "separator_of p (root q Posix) Posix slash = slash"
  by (auto simp: separator_of_def root_posix is_verbatim_def is_separator_def split: list.split
      dest: filter_eq_ConsD)

definition posix_text :: "bool \<Rightarrow> string list \<Rightarrow> string" where
  "posix_text absolute names =
     (if absolute then slash # join_names slash names
      else if names = [] then ''.'' else join_names slash names)"

lemma join_names_Nil: "list_all (plain_name P) ns \<Longrightarrow> join_names sep ns = [] \<longleftrightarrow> ns = []"
  by (cases "(sep, ns)" rule: join_names.cases) (auto simp: plain_name_def)

lemma posix_names_kept: "list_all (plain_name (\<lambda>c. c = slash)) (keep_names d a (posix_names p))"
  using keep_names_subset [of d a "posix_names p"] names_of_plain [of "\<lambda>c. c = slash" p]
  by (auto simp: list_all_iff)

lemma normalize_posix_text:
  assumes "p \<noteq> []"
  shows "normalize p d Posix = posix_text (is_absolute p Posix) (keep_names d (is_absolute p Posix) (posix_names p))"
  using assms join_names_Nil [OF posix_names_kept [of d "is_absolute p Posix" p], of slash]
  unfolding normalize_normalized normalized_def Let_def separator_of_posix names_after_posix rooted_posix
  by (auto simp: posix_text_def is_absolute_def root_posix implies_root_def)

lemma hd_join_names: "ns \<noteq> [] \<Longrightarrow> hd ns \<noteq> [] \<Longrightarrow> hd (join_names sep ns) = hd (hd ns)"
  by (cases "(sep, ns)" rule: join_names.cases) auto

lemma plain_hd: "list_all (plain_name P) ns \<Longrightarrow> ns \<noteq> [] \<Longrightarrow> hd ns \<noteq> [] \<and> \<not> P (hd (hd ns))"
  by (cases ns) (auto simp: plain_name_def list_all_iff)

lemma posix_text_facts:
  assumes "list_all (plain_name (\<lambda>c. c = slash)) names"
  shows "posix_text a names \<noteq> []"
    "is_absolute (posix_text a names) Posix = a"
    "posix_names (posix_text a names) = (if names = [] \<and> \<not> a then [''.''] else names)"
proof -
  have join: "posix_names (join_names slash names) = names" using names_of_join [OF assms] by simp
  have dot: "posix_names ''.'' = [''.'']"
    using names_of_name [of "\<lambda>c. c = slash" "''.''" "[]"] by (simp add: plain_name_def)
  show "posix_text a names \<noteq> []"
    using join_names_Nil [OF assms] by (simp add: posix_text_def)
  show "is_absolute (posix_text a names) Posix = a"
    using hd_join_names plain_hd [OF assms] join_names_Nil [OF assms]
    by (simp add: is_absolute_posix posix_text_def)
  show "posix_names (posix_text a names) = (if names = [] \<and> \<not> a then [''.''] else names)"
    using join dot by (simp add: posix_text_def)
qed

text \<open>
  C36: normalizing a POSIX path keeps whether it is absolute, leaves no \<^verbatim>\<open>.\<close>, no
  repeated and no trailing separator, and, folding, no \<^verbatim>\<open>..\<close> but in front of a relative path; a
  path so written stays as it is, so that normalizing twice changes nothing.
\<close>

theorem normalize_posix:
  "is_absolute (normalize p dot_dot Posix) Posix = is_absolute p Posix
   \<and> (names_after (normalize p dot_dot Posix) Posix = [''.'']
      \<or> normal dot_dot (is_absolute p Posix) (names_after (normalize p dot_dot Posix) Posix))
   \<and> (p = [] \<or> normalize p dot_dot Posix = ''.''
      \<or> normalize p dot_dot Posix
         = (if is_absolute p Posix then [slash] else [])
             @ join_names slash (names_after (normalize p dot_dot Posix) Posix))
   \<and> normalize (normalize p dot_dot Posix) dot_dot Posix = normalize p dot_dot Posix"
proof (cases "p = []")
  case True
  then show ?thesis by (simp add: normalize_def names_after_posix normal_def)
next
  case False
  let ?a = "is_absolute p Posix"
  let ?names = "keep_names dot_dot ?a (posix_names p)"
  note text_facts = posix_text_facts [OF posix_names_kept [of dot_dot ?a p], of ?a]
  have normal: "normal dot_dot ?a ?names" by (rule normal_keep_names)
  have q: "normalize p dot_dot Posix = posix_text ?a ?names" by (rule normalize_posix_text [OF False])
  have "keep_names dot_dot ?a (if ?names = [] \<and> \<not> ?a then [''.''] else ?names) = ?names"
    using keep_names_normal [OF normal] keep_names_dot by (cases ?a) auto
  then have "normalize (posix_text ?a ?names) dot_dot Posix = posix_text ?a ?names"
    using normalize_posix_text [OF text_facts(1), of dot_dot] unfolding text_facts(2,3) by simp
  then show ?thesis
    unfolding q names_after_posix text_facts(2,3) using normal by (simp add: posix_text_def)
qed

section \<open>The way from one path to another\<close>

lemma names_of_push_posix:
  assumes "base \<noteq> []" "r \<noteq> []" "\<not> is_absolute r Posix"
  shows "push base r Posix \<noteq> []" "is_absolute (push base r Posix) Posix = is_absolute base Posix"
    "posix_names (push base r Posix) = posix_names base @ posix_names r"
proof -
  have relative_r: "takeWhile (\<lambda>c. c = slash) r = []" using assms(2,3) by (cases r) (simp_all add: is_absolute_posix)
  have sep: "foldl (\<lambda>sep c. if is_separator c Posix then c else sep) slash base = slash"
    by (induction base rule: rev_induct) (simp_all add: is_separator_def)
  have first: "separator_of r \<lparr>rt_prefix = NoPrefix, rt_name = [], rt_directory = []\<rparr> Posix slash = slash"
    using separator_of_posix [of r r] relative_r by (simp add: root_posix)
  have push: "push base r Posix = (if last base = slash then base @ r else base @ slash # r)"
    using assms relative_r sep
    by (simp add: push_def Let_def root_posix is_verbatim_def separates_posix first)
  show "push base r Posix \<noteq> []" "is_absolute (push base r Posix) Posix = is_absolute base Posix"
    using assms(1) by (simp_all add: push is_absolute_posix)
  show "posix_names (push base r Posix) = posix_names base @ posix_names r"
    using names_of_append [of base "\<lambda>c. c = slash" r] names_of_append [of base "\<lambda>c. c = slash" "slash # r"]
    by (simp add: push)
qed

lemma fold_dots: "''..'' \<notin> set names \<Longrightarrow>
  foldl (keep_name Fold a) kept (names @ replicate (length (filter (\<lambda>n. n \<noteq> ''.'') names)) ''..'') = kept"
proof (induction names arbitrary: kept)
  case (Cons n names)
  let ?k = "length (filter (\<lambda>n. n \<noteq> ''.'') names)"
  show ?case
  proof (cases "n = ''.''")
    case True
    with Cons show ?thesis by (simp add: keep_name_def)
  next
    case False
    have name: "n \<noteq> ''..''" using Cons.prems by auto
    then have "keep_name Fold a kept n = kept @ [n]" using False by (simp add: keep_name_def)
    moreover have "replicate (Suc ?k) ''..'' = replicate ?k ''..'' @ [''..'']"
      by (simp add: replicate_append_same)
    ultimately have "foldl (keep_name Fold a) kept ((n # names) @ replicate (Suc ?k) ''..'')
        = keep_name Fold a (foldl (keep_name Fold a) (kept @ [n]) (names @ replicate ?k ''..'')) ''..''"
      by (simp del: replicate.simps)
    also have "\<dots> = keep_name Fold a (kept @ [n]) ''..''" using Cons by simp
    also have "\<dots> = kept" using name by (simp add: keep_name_def)
    finally show ?thesis using False by simp
  qed
qed simp

lemma common_length_le: "common_length as bs \<le> length as"
  by (induction as bs rule: common_length.induct) simp_all

lemma common_length_take: "take (common_length as bs) as = take (common_length as bs) bs"
  by (induction as bs rule: common_length.induct) simp_all

lemma fold_detour:
  assumes "''..'' \<notin> set (drop (common_length as bs) bs)"
  shows "keep_names Fold a (bs @ replicate (length (filter (\<lambda>n. n \<noteq> ''.'') (drop (common_length as bs) bs))) ''..''
      @ drop (common_length as bs) as) = keep_names Fold a as"
proof -
  define k where "k = common_length as bs"
  have bs: "bs = take k as @ drop k bs" using common_length_take [of as bs] by (metis append_take_drop_id k_def)
  have "foldl (keep_name Fold a) [] (bs @ replicate (length (filter (\<lambda>n. n \<noteq> ''.'') (drop k bs))) ''..'' @ drop k as)
      = foldl (keep_name Fold a) (foldl (keep_name Fold a) (foldl (keep_name Fold a) [] (take k as))
          (drop k bs @ replicate (length (filter (\<lambda>n. n \<noteq> ''.'') (drop k bs))) ''..'')) (drop k as)"
    by (subst bs) simp
  also have "\<dots> = foldl (keep_name Fold a) (foldl (keep_name Fold a) [] (take k as)) (drop k as)"
    by (simp only: fold_dots [OF assms [folded k_def]])
  also have "\<dots> = foldl (keep_name Fold a) [] (take k as @ drop k as)" by (simp only: foldl_append)
  finally show ?thesis by (simp add: keep_names_def k_def)
qed

text \<open>
  C17: \<^verbatim>\<open>resolve\<close> is the inverse of \<^verbatim>\<open>relative\<close>: the relative path that leads from
  one POSIX path to another, where it can be told, leads from the one to the other, both taken as
  written: with \<^verbatim>\<open>.\<close> and \<^verbatim>\<open>..\<close> in them, repeated and trailing separators.
\<close>

theorem relative_resolve:
  assumes "p \<noteq> []" "relative p base Posix = Some r"
  shows "resolve r base Fold Posix = normalize p Fold Posix"
proof -
  let ?a = "posix_names p" and ?b = "posix_names base"
  define k where "k = common_length ?a ?b"
  define climbs where "climbs = length (filter (\<lambda>n. n \<noteq> ''.'') (drop k ?b))"
  define ns where "ns = replicate climbs ''..'' @ drop k ?a"
  have same: "is_absolute base Posix = is_absolute p Posix" and dots: "''..'' \<notin> set (drop k ?b)"
    and r: "r = (if climbs = 0 \<and> k = length ?a then ''.'' else join_names slash ns)"
    using assms(2)
    by (auto simp: relative_def Let_def names_after_posix k_def climbs_def ns_def same_root_def rooted_posix
        separator_of_posix split: if_splits)
  have "k \<le> length ?a" unfolding k_def by (rule common_length_le)
  then have ns: "ns = [] \<longleftrightarrow> climbs = 0 \<and> k = length ?a" by (auto simp: ns_def)
  have plain: "list_all (plain_name (\<lambda>c. c = slash)) ns"
  proof -
    have "plain_name (\<lambda>c. c = slash) ''..''" by (simp add: plain_name_def)
    moreover have "list_all (plain_name (\<lambda>c. c = slash)) (drop k ?a)"
      using names_of_plain [of "\<lambda>c. c = slash" p] unfolding list_all_iff by (meson in_set_dropD)
    moreover have "n = ''..''" if "n \<in> set (replicate climbs ''..'')" for n
      using that by (auto simp: in_set_replicate)
    ultimately show ?thesis unfolding ns_def list_all_iff set_append by blast
  qed
  have r_text: "r = posix_text False ns" by (simp add: r ns posix_text_def)
  note text_facts = posix_text_facts [OF plain, of False, folded r_text]
  define q where "q = push base r Posix"
  have q: "q \<noteq> []" "is_absolute q Posix = is_absolute p Posix" "posix_names q = ?b @ posix_names r"
    using names_of_push_posix [of base r] text_facts same
    by (cases "base = []"; simp add: q_def push_def is_absolute_posix)+
  have "keep_names Fold (is_absolute p Posix) (?b @ ns) = keep_names Fold (is_absolute p Posix) ?a"
    using fold_detour [of ?a ?b "is_absolute p Posix"] dots by (simp add: k_def climbs_def ns_def)
  then have "keep_names Fold (is_absolute p Posix) (posix_names q) = keep_names Fold (is_absolute p Posix) ?a"
    unfolding q(3) text_facts(3) by (auto simp: keep_names_def keep_name_def)
  then show ?thesis
    using normalize_posix_text [OF q(1), of Fold] normalize_posix_text [OF assms(1), of Fold] q(2)
    by (simp add: resolve_def q_def)
qed

theorem relative_resolve_witness:
  "resolve ''../../c'' ''a/./b/x/'' Fold Posix = normalize ''a//c'' Fold Posix"
  by (rule relative_resolve) (simp, code_simp)

section \<open>What lies under a path\<close>

text \<open>The names from the \<open>k\<close>-th on are those of the path from where that one starts.\<close>

lemma components_from_drop:
  "k < length (components_from p style kind at) \<Longrightarrow>
   names_of (\<lambda>c. separates c style kind) (drop (fst (components_from p style kind at ! k)) p)
     = drop k (map (view_at p) (components_from p style kind at))
   \<and> fst (components_from p style kind at ! k) < length p
   \<and> \<not> separates (p ! fst (components_from p style kind at ! k)) style kind"
proof (induction p style kind at arbitrary: k rule: components_from.induct)
  case (1 p style kind at)
  let ?sep = "\<lambda>c. separates c style kind"
  let ?start = "run_end ?sep p at"
  have start: "?start < length p"
    using "1.prems" by (subst (asm) components_from.simps) (simp add: components_next_def Let_def split: if_splits)
  define name where "name = components_next p style kind at"
  have eq: "components_from p style kind at = name # components_from p style kind (snd name)"
    using start by (simp add: components_from.simps [of _ _ _ at] components_next_def Let_def name_def)
  show ?case
  proof (cases k)
    case 0
    have "drop ?start p = dropWhile ?sep (drop at p)" by (rule drop_run_end)
    then have "names_of ?sep (drop ?start p) = names_of ?sep (drop at p)"
      by (simp only: names_of_dropWhile)
    then have names: "names_of ?sep (drop ?start p) = map (view_at p) (components_from p style kind at)"
      by (simp only: components_from_names)
    have first: "fst (components_from p style kind at ! 0) = ?start"
      by (simp only: eq nth_Cons_0) (simp add: name_def components_next_def Let_def)
    show ?thesis
      unfolding 0 first names drop_0 using start run_end_stops [OF start] by blast
  next
    case (Suc j)
    have "\<not> length p \<le> fst name" using start by (simp add: name_def components_next_def Let_def)
    with "1.IH" [OF name_def, of j] "1.prems" Suc show ?thesis by (simp add: eq)
  qed
qed

text \<open>
  What \<^verbatim>\<open>strip_prefix\<close> leaves of a path, in both styles, is its text from
  a name on, holding exactly the names after those of the ancestor, whose root it has; and a path
  has such a rest exactly when it is within the ancestor.
\<close>

lemma strip_prefix_correct:
  assumes "strip_prefix p ancestor style = Some rest"
  shows "\<exists>k. rest = drop k p
      \<and> names_after p style = names_after ancestor style
          @ names_of (\<lambda>c. separates c style (rt_prefix (root p style))) rest
      \<and> (rest = [] \<or> \<not> separates (hd rest) style (rt_prefix (root p style)))
      \<and> same_root (root p style) (root ancestor style) style"
proof -
  let ?names = "names_after p style" and ?above = "names_after ancestor style"
  let ?r = "root p style"
  have same: "same_root ?r (root ancestor style) style" and above: "?above = take (length ?above) ?names"
    "length ?above \<le> length ?names"
    and rest: "rest = (if length ?above = length ?names then []
      else drop (fst (components p style ! length ?above)) p)"
    using assms by (auto simp: strip_prefix_def Let_def split: if_splits)
  show ?thesis
  proof (cases "length ?above = length ?names")
    case True
    then show ?thesis using above rest same by (intro exI [of _ "length p"]) simp
  next
    case False
    then have "length ?above < length (components p style)"
      using above(2) by (simp add: names_after_def)
    note at = components_from_drop [OF this [unfolded components_def Let_def], folded components_def [of p style, unfolded Let_def]]
    have "?names = ?above @ drop (length ?above) ?names"
      using above(1) by (metis append_take_drop_id)
    then show ?thesis
      using at False rest same
      by (intro exI [of _ "fst (components p style ! length ?above)"]) (simp add: names_after_def hd_drop_conv_nth)
  qed
qed

lemma strip_prefix_correct_witness:
  "\<exists>k. ''b/c'' = drop k ''C:/a/b/c''
      \<and> names_after ''C:/a/b/c'' Windows = names_after (''c:'' @ [backslash] @ ''a'') Windows
          @ names_of (\<lambda>c. separates c Windows (rt_prefix (root ''C:/a/b/c'' Windows))) ''b/c''
      \<and> (''b/c'' = [] \<or> \<not> separates (hd ''b/c'') Windows (rt_prefix (root ''C:/a/b/c'' Windows)))
      \<and> same_root (root ''C:/a/b/c'' Windows) (root (''c:'' @ [backslash] @ ''a'') Windows) Windows"
  by (rule strip_prefix_correct) code_simp

section \<open>The last name\<close>

lemma run_start_eq:
  assumes "low \<le> stop" "stop \<le> length p"
  shows "run_start P p low stop = low + length (dropWhile P (rev (take (stop - low) (drop low p))))"
  using assms
proof (induction stop)
  case (Suc stop)
  show ?case
  proof (cases "low = Suc stop")
    case False
    then have "take (Suc stop - low) (drop low p) = take (stop - low) (drop low p) @ [p ! stop]"
      using Suc.prems by (simp add: Suc_diff_le take_Suc_conv_app_nth)
    with Suc False show ?thesis by simp
  qed simp
qed simp

lemma rev_dropWhile_split: "\<exists>t. s = rev (dropWhile P (rev s)) @ t \<and> list_all P t"
proof
  show "s = rev (dropWhile P (rev s)) @ rev (takeWhile P (rev s)) \<and> list_all P (rev (takeWhile P (rev s)))"
    by (metis (no_types, lifting) list_all_iff rev_append rev_rev_ident set_rev set_takeWhileD takeWhile_dropWhile_id)
qed

text \<open>A path after its root: the names before the last one, the last one and separators.\<close>

lemma filename_split:
  fixes p style
  defines "sep \<equiv> \<lambda>c. separates c style (rt_prefix (root p style))"
  shows "\<exists>v t. drop (root_end (root p style)) p = v @ filename p style @ t \<and> list_all sep t
      \<and> list_all (\<lambda>c. \<not> sep c) (filename p style) \<and> (v = [] \<or> sep (last v))
      \<and> fst (filename_at p style) = root_end (root p style) + length v
      \<and> (filename p style = [] \<longrightarrow> v = [])"
proof -
  define r where "r = root p style"
  define u where "u = drop (root_end r) p"
  define w where "w = rev (dropWhile sep (rev u))"
  define v where "v = rev (dropWhile (\<lambda>c. \<not> sep c) (rev w))"
  obtain t where t: "u = w @ t" "list_all sep t" using rev_dropWhile_split [of u sep] by (auto simp: w_def)
  obtain n where n: "w = v @ n" "list_all (\<lambda>c. \<not> sep c) n"
    using rev_dropWhile_split [of w "\<lambda>c. \<not> sep c"] by (auto simp: v_def)
  have le: "root_end r \<le> length p" by (simp add: r_def root_end_le)
  have "length p - root_end r = length u" by (simp add: u_def)
  then have "trimmed_end p r style = root_end r + length w"
    using run_start_eq [OF le, of p sep] by (simp add: trimmed_end_def sep_def r_def [symmetric] u_def [symmetric] w_def)
  moreover have "run_start (\<lambda>c. \<not> sep c) p (root_end r) (root_end r + length w) = root_end r + length v"
  proof -
    have "length w \<le> length p - root_end r" using t(1) \<open>length p - root_end r = length u\<close> by simp
    moreover have "take (length w) u = w" using t(1) by simp
    ultimately show ?thesis
      using run_start_eq [of "root_end r" "root_end r + length w" p "\<lambda>c. \<not> sep c"] le
      by (simp add: u_def [symmetric] v_def)
  qed
  ultimately have at: "filename_at p style = (root_end r + length v, root_end r + length w)"
    by (simp add: filename_at_def r_def [symmetric] Let_def sep_def)
  have "filename p style = n"
    using t n by (simp add: filename_def at view_at_def u_def [symmetric] add.commute flip: drop_drop)
  moreover have "v = [] \<or> sep (last v)"
    using hd_dropWhile [of "\<lambda>c. \<not> sep c" "rev w"] by (auto simp: v_def last_rev)
  moreover have "v = []" if "n = []"
  proof (rule ccontr)
    assume "v \<noteq> []"
    with that n have "w \<noteq> []" "sep (last w)" using calculation(2) by auto
    then show False using hd_dropWhile [of sep "rev u"] by (auto simp: w_def last_rev)
  qed
  ultimately show ?thesis
    using t n at unfolding u_def r_def
    by - (rule exI [where x = v], rule exI [where x = t], simp)
qed

lemma filename_names:
  "filename p style = (if names_after p style = [] then [] else last (names_after p style))"
proof -
  let ?sep = "\<lambda>c. separates c style (rt_prefix (root p style))"
  obtain v t where u: "drop (root_end (root p style)) p = v @ filename p style @ t" "list_all ?sep t"
      "list_all (\<lambda>c. \<not> ?sep c) (filename p style)" "v = [] \<or> ?sep (last v)" "filename p style = [] \<longrightarrow> v = []"
    using filename_split [of p style] by auto
  show ?thesis
  proof (cases "filename p style = []")
    case True
    then show ?thesis using u names_of_seps [of ?sep t "[]"] by (simp add: names_after_of)
  next
    case False
    then have "plain_name ?sep (filename p style)" using u(3) by (simp add: plain_name_def)
    moreover have "t = [] \<or> ?sep (hd t)" using u(2) by (cases t) simp_all
    moreover have "names_of ?sep t = []" using names_of_seps [OF u(2), of "[]"] by simp
    ultimately have "names_of ?sep (filename p style @ t) = [filename p style]"
      by (simp add: names_of_name)
    then show ?thesis
      using u(1) names_of_append [of v ?sep "filename p style @ t"] u(4) by (auto simp: names_after_of)
  qed
qed

lemma parent_posix:
  assumes "filename p Posix \<noteq> []"
  shows "names_after (parent p Posix) Posix = butlast (names_after p Posix)"
    "is_absolute (parent p Posix) Posix = is_absolute p Posix"
proof -
  let ?r = "root p Posix" and ?sep = "\<lambda>c. c = slash"
  obtain v t where u: "drop (root_end ?r) p = v @ filename p Posix @ t" "list_all ?sep t"
      "list_all (\<lambda>c. \<not> ?sep c) (filename p Posix)" "v = [] \<or> ?sep (last v)"
      "fst (filename_at p Posix) = root_end ?r + length v"
    using filename_split [of p Posix] by (auto simp: separates_posix root_posix)
  define d where "d = rt_directory ?r"
  have d: "root_end ?r = length d" "list_all ?sep d" "p = d @ v @ filename p Posix @ t"
    using root_parts [of p Posix] u(1)
    by (auto simp: d_def root_posix root_end_def list_all_iff dest: set_takeWhileD)
  have v: "hd v \<noteq> slash" if "v \<noteq> []"
  proof -
    have "v @ filename p Posix @ t = dropWhile ?sep p"
      using u(1) by (simp add: root_end_def root_posix dropWhile_eq_drop)
    then show ?thesis using hd_dropWhile [of ?sep p] that by (metis append_is_Nil_conv hd_append2)
  qed
  have before: "take (fst (filename_at p Posix)) p = d @ v"
    using arg_cong [OF d(3), of "take (length d + length v)"] by (simp add: u(5) d(1))
  define w where "w = rev (dropWhile ?sep (rev v))"
  obtain s where s: "v = w @ s" "list_all ?sep s" using rev_dropWhile_split [of v ?sep] by (auto simp: w_def)
  have "trimmed_end (d @ v) ?r Posix = length d + length w"
    using run_start_eq [of "length d" "length (d @ v)" "d @ v" ?sep] d(1)
    by (simp add: trimmed_end_def root_posix separates_posix w_def)
  then have parent: "parent p Posix = d @ w"
    using assms s(1) by (simp add: parent_def before)
  have "plain_name ?sep (filename p Posix)" using u(3) assms by (simp add: plain_name_def)
  moreover have "t = [] \<or> ?sep (hd t)" using u(2) by (cases t) simp_all
  moreover have "names_of ?sep t = []" "names_of ?sep s = []"
    using names_of_seps [OF u(2), of "[]"] names_of_seps [OF s(2), of "[]"] by simp_all
  ultimately have "posix_names p = posix_names v @ [filename p Posix]"
    using names_of_append [of v ?sep "filename p Posix @ t"] u(4)
    by (subst d(3)) (auto simp: names_of_seps [OF d(2)] names_of_name)
  moreover have "posix_names v = posix_names w"
    using names_of_append [of w ?sep s] s \<open>names_of ?sep s = []\<close> by (cases s) auto
  ultimately show "names_after (parent p Posix) Posix = butlast (names_after p Posix)"
    by (simp add: names_after_posix parent names_of_seps [OF d(2)])
  show "is_absolute (parent p Posix) Posix = is_absolute p Posix"
  proof (cases "d = []")
    case True
    then have "\<not> is_absolute p Posix" by (simp add: is_absolute_def root_posix d_def implies_root_def)
    moreover have "w = [] \<or> hd w \<noteq> slash" using v s(1) by (cases w) auto
    ultimately show ?thesis by (auto simp: parent True is_absolute_posix)
  next
    case False
    then have "hd d = slash" using d(2) by (cases d) simp_all
    with False show ?thesis by (subst (2) d(3)) (simp add: parent is_absolute_posix)
  qed
qed

text \<open>
  A name pushed onto a POSIX path is its filename, the path it was pushed onto is
  its parent, and popping it leaves the names and the root as they were.
\<close>

theorem push_pop_posix:
  assumes "base \<noteq> []" "name \<noteq> []" "slash \<notin> set name"
  shows "filename (push base name Posix) Posix = name
    \<and> fst (pop (push base name Posix) Posix)
    \<and> names_after (snd (pop (push base name Posix) Posix)) Posix = names_after base Posix
    \<and> is_absolute (snd (pop (push base name Posix) Posix)) Posix = is_absolute base Posix"
proof -
  let ?q = "push base name Posix"
  have plain: "plain_name (\<lambda>c. c = slash) name" using assms(2,3) by (auto simp: plain_name_def list_all_iff)
  then have "posix_names name = [name]" using names_of_name [of "\<lambda>c. c = slash" name "[]"] by simp
  moreover have "\<not> is_absolute name Posix" using assms(2,3) by (cases name) (auto simp: is_absolute_posix)
  ultimately have names: "posix_names ?q = posix_names base @ [name]"
    and absolute: "is_absolute ?q Posix = is_absolute base Posix"
    using names_of_push_posix [OF assms(1,2)] by simp_all
  have file_name: "filename ?q Posix = name" by (simp add: filename_names names_after_posix names)
  have "take (length (parent ?q Posix)) ?q = parent ?q Posix"
    by (simp add: parent_def Let_def min_def)
  then show ?thesis
    using parent_posix [of ?q] assms(2) by (simp add: file_name pop_def names_after_posix names absolute)
qed

theorem push_pop_posix_witness:
  "filename (push ''/a/'' ''b.c'' Posix) Posix = ''b.c''
    \<and> fst (pop (push ''/a/'' ''b.c'' Posix) Posix)
    \<and> names_after (snd (pop (push ''/a/'' ''b.c'' Posix) Posix)) Posix = names_after ''/a/'' Posix
    \<and> is_absolute (snd (pop (push ''/a/'' ''b.c'' Posix) Posix)) Posix = is_absolute ''/a/'' Posix"
  by (rule push_pop_posix) simp_all

section \<open>Relative Windows paths\<close>

text \<open>
  Normalizing a Windows path may change what it names: where the
  name left in front looks like a drive, a relative path becomes one on that drive, or an
  absolute one. Both \<^verbatim>\<open>a/../C:/x\<close> and \<^verbatim>\<open>./C:x\<close> name something under the current directory.
\<close>

lemma normalize_windows_absolute:
  "\<not> has_root ''a/../C:/x'' Windows \<and> rt_prefix (root ''a/../C:/x'' Windows) = NoPrefix
   \<and> is_absolute (normalize ''a/../C:/x'' Fold Windows) Windows
   \<and> normalize ''a/../C:/x'' Fold Windows = ''C:/x''
   \<and> rt_prefix (root ''./C:x'' Windows) = NoPrefix
   \<and> rt_prefix (root (normalize ''./C:x'' Keep Windows) Windows) = Drive"
  by code_simp

end

