(* ===== verification/Uri.thy ===== *)
theory Uri
  imports Views
begin

text \<open>
  URIs as the LSP uses them, \<^verbatim>\<open>ipc/lsp/uri.h\<close> and \<^verbatim>\<open>ipc/lsp/uri.cpp\<close>: parsing into segments of
  one text, percent-encoding, and the file URIs of paths. Whether the code is built for Windows
  is an argument of the function that asks.
\<close>

section \<open>Characters\<close>

definition is_ascii_alpha :: "char \<Rightarrow> bool" where
  "is_ascii_alpha c \<longleftrightarrow> between CHR ''A'' c CHR ''Z'' \<or> between CHR ''a'' c CHR ''z''"

definition is_ascii_digit :: "char \<Rightarrow> bool" where
  "is_ascii_digit c \<longleftrightarrow> between CHR ''0'' c CHR ''9''"

definition is_ascii_alnum :: "char \<Rightarrow> bool" where
  "is_ascii_alnum c \<longleftrightarrow> is_ascii_alpha c \<or> is_ascii_digit c"

definition to_ascii_lower :: "char \<Rightarrow> char" where
  "to_ascii_lower c =
     (if between CHR ''A'' c CHR ''Z''
      then to_char (uchar c + (uchar CHR ''a'' - uchar CHR ''A'')) else c)"

definition is_ascii_iequal :: "string \<Rightarrow> string \<Rightarrow> bool" where
  "is_ascii_iequal left right \<longleftrightarrow>
     length left = length right \<and> list_all2 (\<lambda>l r. to_ascii_lower l = to_ascii_lower r) left right"

definition is_valid_scheme :: "string \<Rightarrow> bool" where
  "is_valid_scheme scheme \<longleftrightarrow>
     scheme \<noteq> [] \<and> is_ascii_alpha (hd scheme)
     \<and> list_all (\<lambda>c. is_ascii_alnum c \<or> c = CHR ''+'' \<or> c = CHR ''-'' \<or> c = CHR ''.'') (tl scheme)"

definition lower_ascii_in_place :: "string \<Rightarrow> string" where
  "lower_ascii_in_place = map to_ascii_lower"

definition should_encode :: "char \<Rightarrow> bool \<Rightarrow> bool" where
  "should_encode c encode_slash \<longleftrightarrow>
     \<not> (is_ascii_alnum c \<or> c = CHR ''-'' \<or> c = CHR ''.'' \<or> c = CHR ''_'' \<or> c = CHR ''~'')
     \<and> \<not> (\<not> encode_slash \<and> c = CHR ''/'')
     \<and> c \<notin> {CHR '':'', CHR ''@'', CHR ''!'', CHR ''$'', CHR ''&'', CHR 0x27, CHR ''('', CHR '')'',
            CHR ''*'', CHR ''+'', CHR '','', CHR '';'', CHR ''=''}"

text \<open>\<^verbatim>\<open>hex_value\<close>: nothing for -1.\<close>

definition hex_value :: "char \<Rightarrow> nat option" where
  "hex_value c =
     (if between CHR ''0'' c CHR ''9'' then Some (uchar c - uchar CHR ''0'')
      else if between CHR ''a'' c CHR ''f'' then Some (uchar c - uchar CHR ''a'' + 10)
      else if between CHR ''A'' c CHR ''F'' then Some (uchar c - uchar CHR ''A'' + 10)
      else None)"

definition is_windows_drive_prefix :: "string \<Rightarrow> bool" where
  "is_windows_drive_prefix path \<longleftrightarrow> 2 \<le> length path \<and> is_ascii_alpha (path ! 0) \<and> path ! 1 = CHR '':''"

definition is_windows_drive_absolute :: "string \<Rightarrow> bool" where
  "is_windows_drive_absolute path \<longleftrightarrow>
     3 \<le> length path \<and> is_windows_drive_prefix path \<and> path ! 2 = CHR ''/''"

definition is_absolute_fs_path :: "string \<Rightarrow> bool" where
  "is_absolute_fs_path path \<longleftrightarrow>
     starts_with path ''/'' \<or> starts_with path ''//'' \<or> is_windows_drive_absolute path"

section \<open>Percent-encoding\<close>

definition hex :: string where
  "hex = ''0123456789ABCDEF''"

fun percent_encode :: "string \<Rightarrow> bool \<Rightarrow> string" where
  "percent_encode [] encode_slash = []"
| "percent_encode (c # input) encode_slash =
     (if should_encode c encode_slash
      then CHR ''%'' # hex ! (drop_bit 4 (uchar c) AND 0x0F) # hex ! (uchar c AND 0x0F)
             # percent_encode input encode_slash
      else c # percent_encode input encode_slash)"

fun percent_decode :: "string \<Rightarrow> string + string" where
  "percent_decode [] = Inr []"
| "percent_decode (c # input) =
     (if c \<noteq> CHR ''%''
      then case percent_decode input of Inl e \<Rightarrow> Inl e | Inr output \<Rightarrow> Inr (c # output)
      else case input of
             h # l # rest \<Rightarrow>
               (case (hex_value h, hex_value l) of
                  (Some high, Some low) \<Rightarrow>
                    (case percent_decode rest of
                       Inl e \<Rightarrow> Inl e
                     | Inr output \<Rightarrow> Inr (to_char (push_bit 4 high OR low) # output))
                | _ \<Rightarrow> Inl ''invalid percent-encoding: non-hex digit'')
           | _ \<Rightarrow> Inl ''invalid percent-encoding: truncated escape'')"

section \<open>URIs\<close>

text \<open>A segment of the text: an offset, none for \<^verbatim>\<open>missing\<close>, and a size.\<close>

record Segment =
  sg_offset :: "nat option"
  sg_size :: nat

record URI =
  ur_text :: string
  ur_scheme_segment :: Segment
  ur_authority_segment :: Segment
  ur_path_segment :: Segment
  ur_query_segment :: Segment
  ur_fragment_segment :: Segment

definition missing :: Segment where
  "missing = \<lparr>sg_offset = None, sg_size = 0\<rparr>"

definition empty_uri :: URI where
  "empty_uri = \<lparr>ur_text = [], ur_scheme_segment = missing, ur_authority_segment = missing,
     ur_path_segment = missing, ur_query_segment = missing, ur_fragment_segment = missing\<rparr>"

definition exists :: "Segment \<Rightarrow> bool" where
  "exists segment \<longleftrightarrow> sg_offset segment \<noteq> None"

definition view :: "URI \<Rightarrow> Segment \<Rightarrow> string" where
  "view uri segment =
     (case sg_offset segment of None \<Rightarrow> [] | Some offset \<Rightarrow> take (sg_size segment) (drop offset (ur_text uri)))"

text \<open>The lambda \<^verbatim>\<open>append_segment\<close>: the text with the part after it, and the segment of it.\<close>

definition append_text :: "string \<Rightarrow> URI \<Rightarrow> URI" where
  "append_text part uri = uri\<lparr>ur_text := ur_text uri @ part\<rparr>"

definition segment_here :: "string \<Rightarrow> URI \<Rightarrow> Segment" where
  "segment_here part uri = \<lparr>sg_offset = Some (length (ur_text uri)), sg_size = length part\<rparr>"

definition append_scheme :: "string \<Rightarrow> URI \<Rightarrow> URI" where
  "append_scheme part uri = append_text part (uri\<lparr>ur_scheme_segment := segment_here part uri\<rparr>)"

definition append_authority :: "string \<Rightarrow> URI \<Rightarrow> URI" where
  "append_authority part uri = append_text part (uri\<lparr>ur_authority_segment := segment_here part uri\<rparr>)"

definition append_path :: "string \<Rightarrow> URI \<Rightarrow> URI" where
  "append_path part uri = append_text part (uri\<lparr>ur_path_segment := segment_here part uri\<rparr>)"

definition append_query :: "string \<Rightarrow> URI \<Rightarrow> URI" where
  "append_query part uri = append_text part (uri\<lparr>ur_query_segment := segment_here part uri\<rparr>)"

definition append_fragment :: "string \<Rightarrow> URI \<Rightarrow> URI" where
  "append_fragment part uri = append_text part (uri\<lparr>ur_fragment_segment := segment_here part uri\<rparr>)"

text \<open>A text cut at the first \<open>c\<close>: what is before it, and what is after it if there is one.\<close>

definition cut :: "char \<Rightarrow> string \<Rightarrow> string \<times> string option" where
  "cut c s = (case find_char (\<lambda>d. d = c) s of
     None \<Rightarrow> (s, None) | Some i \<Rightarrow> (take i s, Some (drop (i + 1) s)))"

text \<open>The end of \<^verbatim>\<open>parse\<close>, which puts the parts into one text.\<close>

definition assemble ::
    "string \<Rightarrow> string option \<Rightarrow> string \<Rightarrow> string option \<Rightarrow> string option \<Rightarrow> URI" where
  "assemble scheme_text authority path_text query fragment =
     (let uri = append_text '':'' (append_scheme scheme_text empty_uri);
          uri = (case authority of
                   None \<Rightarrow> uri | Some a \<Rightarrow> append_authority a (append_text ''//'' uri));
          uri = append_path path_text uri;
          uri = (case query of None \<Rightarrow> uri | Some q \<Rightarrow> append_query q (append_text ''?'' uri));
          uri = (case fragment of None \<Rightarrow> uri | Some f \<Rightarrow> append_fragment f (append_text ''#'' uri))
      in uri)"

definition parse :: "string \<Rightarrow> string + URI" where
  "parse input =
     (if input = [] then Inl ''uri is empty''
      else case find_char (\<lambda>c. c = CHR '':'') input of
        None \<Rightarrow> Inl (''uri is missing scheme delimiter '' @ [CHR 0x27, CHR '':'', CHR 0x27])
      | Some scheme_end \<Rightarrow>
          if (case find_char (\<lambda>c. c = CHR ''/'' \<or> c = CHR ''?'' \<or> c = CHR ''#'') input of
                None \<Rightarrow> False | Some first_delimiter \<Rightarrow> first_delimiter < scheme_end)
          then Inl ''uri is missing scheme''
          else if \<not> is_valid_scheme (take scheme_end input) then Inl ''uri scheme is invalid''
          else let scheme_text = lower_ascii_in_place (take scheme_end input);
                   remainder = drop (scheme_end + 1) input;
                   (without_fragment, fragment) = cut CHR ''#'' remainder;
                   (hierarchical, query) = cut CHR ''?'' without_fragment;
                   (authority, path_text) =
                     (if starts_with hierarchical ''//''
                      then let authority_and_path = drop 2 hierarchical
                           in case find_char (\<lambda>c. c = CHR ''/'') authority_and_path of
                                None \<Rightarrow> (Some authority_and_path, [])
                              | Some path_pos \<Rightarrow>
                                  (Some (take path_pos authority_and_path), drop path_pos authority_and_path)
                      else (None, hierarchical))
               in Inr (assemble scheme_text authority path_text query fragment))"

definition encode_authority_host :: "string \<Rightarrow> string" where
  "encode_authority_host host =
     (if 2 \<le> length host \<and> hd host = CHR ''['' \<and> last host = CHR '']''
      then ''['' @ percent_encode (take (length host - 2) (drop 1 host)) True @ '']''
      else percent_encode host True)"

abbreviation uri_backslash :: char where
  "uri_backslash \<equiv> CHR 0x5C"

definition to_slashes :: "string \<Rightarrow> string" where
  "to_slashes path = map (\<lambda>c. if c = uri_backslash then CHR ''/'' else c) path"

definition from_file_path :: "string \<Rightarrow> string + URI" where
  "from_file_path path =
     (if path = [] then Inl ''path is empty''
      else let normalized_path = to_slashes path
           in if is_windows_drive_prefix normalized_path \<and> \<not> is_windows_drive_absolute normalized_path
              then Inl ''windows drive path must be absolute''
              else if \<not> is_absolute_fs_path normalized_path then Inl ''path must be absolute''
              else let uri = append_text ''//'' (append_text '':'' (append_scheme ''file'' empty_uri))
                   in if starts_with normalized_path ''//'' then
                        let host_and_rest = drop 2 normalized_path
                        in case find_char (\<lambda>c. c = CHR ''/'') host_and_rest of
                             None \<Rightarrow> Inl ''unc path must include server and share''
                           | Some first_slash \<Rightarrow>
                               if first_slash = 0 then Inl ''unc path must include server and share''
                               else let share_start = first_slash + 1
                                    in if length host_and_rest \<le> share_start \<or> host_and_rest ! share_start = CHR ''/''
                                       then Inl ''unc path must include non-empty share''
                                       else Inr (append_path (percent_encode (drop first_slash host_and_rest) False)
                                              (append_authority (encode_authority_host (take first_slash host_and_rest)) uri))
                      else let normalized_path = (if is_windows_drive_absolute normalized_path
                                 then CHR ''/'' # normalized_path else normalized_path)
                           in Inr (append_path (percent_encode normalized_path False)
                                (uri\<lparr>ur_authority_segment := \<lparr>sg_offset = Some (length (ur_text uri)), sg_size = 0\<rparr>\<rparr>)))"

definition str :: "URI \<Rightarrow> string" where
  "str uri = ur_text uri"

definition scheme :: "URI \<Rightarrow> string" where
  "scheme uri = view uri (ur_scheme_segment uri)"

definition has_authority :: "URI \<Rightarrow> bool" where
  "has_authority uri \<longleftrightarrow> exists (ur_authority_segment uri)"

definition authority :: "URI \<Rightarrow> string" where
  "authority uri = view uri (ur_authority_segment uri)"

definition uri_path :: "URI \<Rightarrow> string" where
  "uri_path uri = view uri (ur_path_segment uri)"

definition has_query :: "URI \<Rightarrow> bool" where
  "has_query uri \<longleftrightarrow> exists (ur_query_segment uri)"

definition query :: "URI \<Rightarrow> string" where
  "query uri = view uri (ur_query_segment uri)"

definition has_fragment :: "URI \<Rightarrow> bool" where
  "has_fragment uri \<longleftrightarrow> exists (ur_fragment_segment uri)"

definition fragment :: "URI \<Rightarrow> string" where
  "fragment uri = view uri (ur_fragment_segment uri)"

definition is_file :: "URI \<Rightarrow> bool" where
  "is_file uri \<longleftrightarrow> scheme uri = ''file''"

definition file_path :: "bool \<Rightarrow> URI \<Rightarrow> string + string" where
  "file_path win uri =
     (if \<not> is_file uri then Inl ''uri scheme is not file''
      else case percent_decode (uri_path uri) of
        Inl e \<Rightarrow> Inl e
      | Inr decoded_path \<Rightarrow>
          if has_authority uri \<and> authority uri \<noteq> [] \<and> \<not> is_ascii_iequal (authority uri) ''localhost''
          then case percent_decode (authority uri) of
                 Inl e \<Rightarrow> Inl e
               | Inr decoded_authority \<Rightarrow>
                   if list_ex (\<lambda>c. c = CHR ''/'' \<or> c = uri_backslash) decoded_authority
                   then Inl ''file uri authority contains path separator''
                   else Inr (''//'' @ decoded_authority @ decoded_path)
          else if decoded_path = [] \<or> hd decoded_path \<noteq> CHR ''/''
          then Inl ''file uri local path must be absolute''
          else if win \<and> 3 \<le> length decoded_path \<and> decoded_path ! 0 = CHR ''/''
                  \<and> is_ascii_alpha (decoded_path ! 1) \<and> decoded_path ! 2 = CHR '':''
          then Inr (drop 1 decoded_path)
          else Inr decoded_path)"

section \<open>Percent-encoding is undone by decoding\<close>

lemma hex_value_hex: "n < 16 \<Longrightarrow> hex_value (hex ! n) = Some n"
proof -
  have "list_all (\<lambda>n. hex_value (hex ! n) = Some n) [0..<16]" by code_simp
  then show "n < 16 \<Longrightarrow> hex_value (hex ! n) = Some n" by (simp add: list_all_iff)
qed

lemma hex_alnum: "n < 16 \<Longrightarrow> is_ascii_alnum (hex ! n)"
proof -
  have "list_all (\<lambda>n. is_ascii_alnum (hex ! n)) [0..<16]" by code_simp
  then show "n < 16 \<Longrightarrow> is_ascii_alnum (hex ! n)" by (simp add: list_all_iff)
qed

lemma nibbles: "drop_bit 4 (uchar c) AND 15 = uchar c div 16" "uchar c AND 15 = uchar c mod 16" "uchar c div 16 < 16"
proof -
  have "uchar c < 256" by simp
  then show "uchar c div 16 < 16" by (simp add: less_mult_imp_div_less)
  then show "drop_bit 4 (uchar c) AND 15 = uchar c div 16" by (simp add: and_mask_nat drop_bit_eq_div)
  show "uchar c AND 15 = uchar c mod 16" by (simp add: and_mask_nat)
qed

lemma nibbles_joined: "to_char (push_bit 4 (uchar c div 16) OR (uchar c mod 16)) = c"
  by (simp add: push_bit_or_nat)

lemma should_encode_percent: "should_encode CHR ''%'' encode_slash"
  by (simp add: should_encode_def is_ascii_alnum_def is_ascii_alpha_def is_ascii_digit_def less_eq_char_def)

lemma percent_decode_encode: "percent_decode (percent_encode s encode_slash @ t)
   = (case percent_decode t of Inl e \<Rightarrow> Inl e | Inr output \<Rightarrow> Inr (s @ output))"
proof (induction s)
  case Nil
  then show ?case by (simp split: sum.split)
next
  case (Cons c s)
  have "c \<noteq> CHR ''%''" if "\<not> should_encode c encode_slash" using that should_encode_percent by auto
  with Cons show ?case
    by (auto simp: nibbles hex_value_hex nibbles_joined split: sum.splits)
qed

text \<open>
  Decoding gives back every byte string that was percent-encoded, slashes
  encoded or kept, and fails for an escape that is cut short or is not of two hexadecimal digits.
\<close>

lemma percent_roundtrip:
  "percent_decode (percent_encode s encode_slash) = Inr s
   \<and> percent_decode (percent_encode s encode_slash @ ''%'') = Inl ''invalid percent-encoding: truncated escape''
   \<and> percent_decode (percent_encode s encode_slash @ ''%4'') = Inl ''invalid percent-encoding: truncated escape''
   \<and> percent_decode (percent_encode s encode_slash @ ''%4g'') = Inl ''invalid percent-encoding: non-hex digit''"
  using percent_decode_encode [of s encode_slash "[]"]
  by (simp add: percent_decode_encode hex_value_def less_eq_char_def)

lemma alnum_kept: "is_ascii_alnum c \<Longrightarrow> \<not> should_encode c encode_slash"
  by (simp add: should_encode_def)

lemma percent_encode_chars:
  "c \<in> set (percent_encode s encode_slash) \<Longrightarrow> c = CHR ''%'' \<or> \<not> should_encode c encode_slash"
proof (induction s)
  case (Cons d s)
  then show ?case
    using hex_alnum [of "uchar d div 16"] hex_alnum [of "uchar d mod 16"] nibbles(3) [of d]
    by (auto simp: nibbles(1,2) split: if_splits dest: alnum_kept)
qed simp

lemma should_encode_delimiters:
  "should_encode CHR ''?'' b" "should_encode CHR ''#'' b" "should_encode CHR ''/'' True"
  by (simp_all add: should_encode_def is_ascii_alnum_def is_ascii_alpha_def is_ascii_digit_def less_eq_char_def)

lemma percent_encode_no:
  "CHR ''?'' \<notin> set (percent_encode s b)" "CHR ''#'' \<notin> set (percent_encode s b)"
  "CHR ''/'' \<notin> set (percent_encode s True)"
  using percent_encode_chars should_encode_delimiters by fastforce+

section \<open>The parts of a URI\<close>

definition uri_text :: "string \<Rightarrow> string option \<Rightarrow> string \<Rightarrow> string option \<Rightarrow> string option \<Rightarrow> string" where
  "uri_text s a p q f =
     s @ '':'' @ (case a of None \<Rightarrow> [] | Some a \<Rightarrow> ''//'' @ a) @ p
       @ (case q of None \<Rightarrow> [] | Some q \<Rightarrow> ''?'' @ q) @ (case f of None \<Rightarrow> [] | Some f \<Rightarrow> ''#'' @ f)"

text \<open>The parts the grammar of a URI has in their places.\<close>

definition uri_parts :: "string \<Rightarrow> string option \<Rightarrow> string \<Rightarrow> string option \<Rightarrow> string option \<Rightarrow> bool" where
  "uri_parts s a p q f \<longleftrightarrow>
     is_valid_scheme s
     \<and> (case a of
          None \<Rightarrow> \<not> starts_with p ''//''
        | Some a \<Rightarrow> CHR ''/'' \<notin> set a \<and> CHR ''?'' \<notin> set a \<and> CHR ''#'' \<notin> set a \<and> (p = [] \<or> hd p = CHR ''/''))
     \<and> CHR ''?'' \<notin> set p \<and> CHR ''#'' \<notin> set p
     \<and> (case q of None \<Rightarrow> True | Some q \<Rightarrow> CHR ''#'' \<notin> set q)"

lemmas append_defs = append_text_def append_scheme_def append_authority_def append_path_def
  append_query_def append_fragment_def segment_here_def empty_uri_def

lemma assemble_text: "str (assemble s a p q f) = uri_text s a p q f"
  by (simp add: assemble_def str_def uri_text_def append_defs Let_def split: option.split)

lemma assemble_segments:
  "ur_scheme_segment (assemble s a p q f) = \<lparr>sg_offset = Some 0, sg_size = length s\<rparr>"
  "ur_authority_segment (assemble s a p q f)
     = (case a of None \<Rightarrow> missing | Some a \<Rightarrow> \<lparr>sg_offset = Some (length s + 3), sg_size = length a\<rparr>)"
  "ur_path_segment (assemble s a p q f)
     = \<lparr>sg_offset = Some (length (uri_text s a [] None None)), sg_size = length p\<rparr>"
  "ur_query_segment (assemble s a p q f)
     = (case q of None \<Rightarrow> missing
        | Some q \<Rightarrow> \<lparr>sg_offset = Some (length (uri_text s a p None None) + 1), sg_size = length q\<rparr>)"
  "ur_fragment_segment (assemble s a p q f)
     = (case f of None \<Rightarrow> missing
        | Some f \<Rightarrow> \<lparr>sg_offset = Some (length (uri_text s a p q None) + 1), sg_size = length f\<rparr>)"
  by (simp_all add: assemble_def append_defs Let_def uri_text_def split: option.split)

lemma assemble_views:
  "scheme (assemble s a p q f) = s"
  "has_authority (assemble s a p q f) = (a \<noteq> None)" "authority (assemble s a p q f) = (case a of None \<Rightarrow> [] | Some a \<Rightarrow> a)"
  "uri_path (assemble s a p q f) = p"
  "has_query (assemble s a p q f) = (q \<noteq> None)" "query (assemble s a p q f) = (case q of None \<Rightarrow> [] | Some q \<Rightarrow> q)"
  "has_fragment (assemble s a p q f) = (f \<noteq> None)" "fragment (assemble s a p q f) = (case f of None \<Rightarrow> [] | Some f \<Rightarrow> f)"
  unfolding scheme_def authority_def uri_path_def query_def fragment_def has_authority_def has_query_def
    has_fragment_def assemble_segments view_def assemble_text [unfolded str_def]
  by (simp_all add: uri_text_def exists_def missing_def split: option.split)

lemma cut_at: "c \<notin> set b \<Longrightarrow> cut c (b @ c # r) = (b, Some r)"
proof -
  assume "c \<notin> set b"
  then have "find_char (\<lambda>d. d = c) b = None" by (auto simp: find_char_None)
  then show ?thesis by (simp add: cut_def find_char_append)
qed

lemma cut_none: "c \<notin> set b \<Longrightarrow> cut c b = (b, None)"
proof -
  assume "c \<notin> set b"
  then have "find_char (\<lambda>d. d = c) b = None" by (auto simp: find_char_None)
  then show ?thesis by (simp add: cut_def)
qed

lemma find_char_split: "find_char P s = Some i \<Longrightarrow> s = take i s @ s ! i # drop (Suc i) s \<and> P (s ! i) \<and> (\<forall>c\<in>set (take i s). \<not> P c)"
  by (auto simp: find_char_iff id_take_nth_drop in_set_conv_nth)

lemma cut_cases:
  obtains "cut c s = (s, None)" "c \<notin> set s"
  | b r where "cut c s = (b, Some r)" "s = b @ c # r" "c \<notin> set b"
proof (cases "find_char (\<lambda>d. d = c) s")
  case None
  then have "c \<notin> set s" by (auto simp: find_char_None)
  with None show thesis by (intro that(1)) (simp_all add: cut_def)
next
  case (Some i)
  from find_char_split [OF Some] have "s = take i s @ c # drop (Suc i) s" "c \<notin> set (take i s)" by auto
  then show thesis using Some by (intro that(2) [of "take i s" "drop (Suc i) s"]) (simp_all add: cut_def)
qed

lemma alnum_delimiters:
  "is_ascii_alnum c \<Longrightarrow> c \<noteq> CHR '':'' \<and> c \<noteq> CHR ''/'' \<and> c \<noteq> CHR ''?'' \<and> c \<noteq> CHR ''#''"
  by (auto simp: is_ascii_alnum_def is_ascii_alpha_def is_ascii_digit_def less_eq_char_def)

lemma valid_scheme_chars:
  assumes "is_valid_scheme s" "c \<in> set s"
  shows "c \<noteq> CHR '':'' \<and> c \<noteq> CHR ''/'' \<and> c \<noteq> CHR ''?'' \<and> c \<noteq> CHR ''#''"
proof -
  have "is_ascii_alnum c \<or> c = CHR ''+'' \<or> c = CHR ''-'' \<or> c = CHR ''.''"
    using assms by (cases s) (auto simp: is_valid_scheme_def is_ascii_alnum_def list_all_iff)
  then show ?thesis using alnum_delimiters by auto
qed

lemma lower_classes:
  "is_ascii_alpha (to_ascii_lower c) \<longleftrightarrow> is_ascii_alpha c" "is_ascii_alnum (to_ascii_lower c) \<longleftrightarrow> is_ascii_alnum c"
  "to_ascii_lower (to_ascii_lower c) = to_ascii_lower c"
proof -
  have "uchar (to_ascii_lower c) = (if 65 \<le> uchar c \<and> uchar c \<le> 90 then uchar c + 32 else uchar c)"
    by (simp add: to_ascii_lower_def less_eq_char_def of_char_of)
  then show "is_ascii_alpha (to_ascii_lower c) \<longleftrightarrow> is_ascii_alpha c"
    "is_ascii_alnum (to_ascii_lower c) \<longleftrightarrow> is_ascii_alnum c" "to_ascii_lower (to_ascii_lower c) = to_ascii_lower c"
    by (auto simp: is_ascii_alpha_def is_ascii_alnum_def is_ascii_digit_def less_eq_char_def
        to_ascii_lower_def [of "to_ascii_lower c"])
qed

lemma valid_scheme_lower: "is_valid_scheme s \<Longrightarrow> is_valid_scheme (lower_ascii_in_place s)"
proof -
  have "to_ascii_lower CHR ''+'' = CHR ''+''" "to_ascii_lower CHR ''-'' = CHR ''-''"
    "to_ascii_lower CHR ''.'' = CHR ''.''"
    by (simp_all add: to_ascii_lower_def less_eq_char_def)
  then show "is_valid_scheme s \<Longrightarrow> is_valid_scheme (lower_ascii_in_place s)"
    by (cases s) (auto simp: is_valid_scheme_def lower_ascii_in_place_def lower_classes list_all_iff)
qed

lemma lower_twice: "lower_ascii_in_place (lower_ascii_in_place s) = lower_ascii_in_place s"
  by (simp add: lower_ascii_in_place_def lower_classes)

lemma starts_with_two: "starts_with (x # y # t) [x', y'] \<longleftrightarrow> x = x' \<and> y = y'"
  by (auto simp: starts_with_def)

lemma parse_uri_text:
  assumes "uri_parts s a p q f"
  shows "parse (uri_text s a p q f) = Inr (assemble (lower_ascii_in_place s) a p q f)"
proof -
  let ?tail = "case f of None \<Rightarrow> [] | Some f \<Rightarrow> ''#'' @ f"
  define hier where "hier = (case a of None \<Rightarrow> [] | Some a \<Rightarrow> ''//'' @ a) @ p"
  define middle where "middle = hier @ (case q of None \<Rightarrow> [] | Some q \<Rightarrow> ''?'' @ q)"
  have input: "uri_text s a p q f = s @ CHR '':'' # middle @ ?tail"
    by (simp add: uri_text_def hier_def middle_def)
  have scheme: "is_valid_scheme s" "s \<noteq> []" using assms by (auto simp: uri_parts_def is_valid_scheme_def)
  have colon: "find_char (\<lambda>c. c = CHR '':'') (uri_text s a p q f) = Some (length s)"
    using find_char_None [of "\<lambda>c. c = CHR '':''" s] valid_scheme_chars [OF scheme(1)]
    by (simp add: input find_char_append)
  have delimiter: "find_char (\<lambda>c. c = CHR ''/'' \<or> c = CHR ''?'' \<or> c = CHR ''#'') s = None"
    using valid_scheme_chars [OF scheme(1)] by (auto simp: find_char_None)
  have plain: "CHR ''?'' \<notin> set hier" "CHR ''#'' \<notin> set middle"
    using assms by (auto simp: uri_parts_def hier_def middle_def split: option.splits)
  have cut1: "cut CHR ''#'' (middle @ ?tail) = (middle, f)"
    using plain(2) by (cases f) (simp_all add: cut_at cut_none)
  have cut2: "cut CHR ''?'' middle = (hier, q)"
    using plain(1) by (cases q) (simp_all add: middle_def cut_at cut_none)
  have hier: "(if starts_with hier ''//''
      then let authority_and_path = drop 2 hier
           in case find_char (\<lambda>c. c = CHR ''/'') authority_and_path of
                None \<Rightarrow> (Some authority_and_path, [])
              | Some path_pos \<Rightarrow> (Some (take path_pos authority_and_path), drop path_pos authority_and_path)
      else (None, hier)) = (a, p)"
  proof (cases a)
    case None
    then show ?thesis using assms by (simp add: uri_parts_def hier_def)
  next
    case (Some b)
    then have "find_char (\<lambda>c. c = CHR ''/'') b = None" "p = [] \<or> hd p = CHR ''/''"
      using assms by (auto simp: uri_parts_def find_char_None)
    with Some show ?thesis
      by (cases p) (simp_all add: hier_def find_char_append starts_with_def)
  qed
  have front: "\<not> (case find_char (\<lambda>c. c = CHR ''/'' \<or> c = CHR ''?'' \<or> c = CHR ''#'') (uri_text s a p q f) of
      None \<Rightarrow> False | Some first \<Rightarrow> first < length s)"
    using delimiter by (auto simp: input find_char_append split: option.split)
  have "uri_text s a p q f \<noteq> []" "take (length s) (uri_text s a p q f) = s"
    "drop (length s + 1) (uri_text s a p q f) = middle @ ?tail"
    by (simp_all add: input)
  then show ?thesis
    unfolding parse_def using colon front scheme(1) by (simp add: cut1 cut2 hier Let_def)
qed

lemma parse_parts:
  assumes "parse input = Inr u"
  shows "\<exists>s a p q f. uri_parts s a p q f \<and> input = uri_text s a p q f"
proof -
  obtain n where n: "find_char (\<lambda>c. c = CHR '':'') input = Some n" and valid: "is_valid_scheme (take n input)"
    using assms by (auto simp: parse_def split: if_splits option.splits)
  define s where "s = take n input"
  define rest where "rest = drop (Suc n) input"
  have input: "input = s @ CHR '':'' # rest"
  proof -
    from find_char_split [OF n] have "input = take n input @ input ! n # drop (Suc n) input"
      and "input ! n = CHR '':''" by blast+
    then show ?thesis by (metis s_def rest_def)
  qed
  obtain middle f where f: "rest = middle @ (case f of None \<Rightarrow> [] | Some f \<Rightarrow> ''#'' @ f)" "CHR ''#'' \<notin> set middle"
    by (rule cut_cases [of "CHR ''#''" rest]) (metis append_Nil2 option.simps(4), metis append_Cons append_Nil option.simps(5))
  obtain hier q where q: "middle = hier @ (case q of None \<Rightarrow> [] | Some q \<Rightarrow> ''?'' @ q)" "CHR ''?'' \<notin> set hier"
    by (rule cut_cases [of "CHR ''?''" middle]) (metis append_Nil2 option.simps(4), metis append_Cons append_Nil option.simps(5))
  have plain: "CHR ''#'' \<notin> set hier" "case q of None \<Rightarrow> True | Some q \<Rightarrow> CHR ''#'' \<notin> set q"
    using f(2) q(1) by (auto split: option.splits)
  show ?thesis
  proof (cases "starts_with hier ''//''")
    case False
    then have "uri_parts s None hier q f"
      using valid plain q(2) by (simp add: uri_parts_def s_def)
    moreover have "input = uri_text s None hier q f"
      using input f(1) q(1) by (simp add: uri_text_def)
    ultimately show ?thesis by blast
  next
    case True
    then obtain u where u: "hier = ''//'' @ u" by (auto simp: starts_with_iff)
    define b where "b = takeWhile (\<lambda>c. c \<noteq> CHR ''/'') u"
    define p where "p = dropWhile (\<lambda>c. c \<noteq> CHR ''/'') u"
    have bp: "u = b @ p" "CHR ''/'' \<notin> set b" "p = [] \<or> hd p = CHR ''/''"
      using hd_dropWhile [of "\<lambda>c. c \<noteq> CHR ''/''" u] by (auto simp: b_def p_def dest: set_takeWhileD)
    then have "uri_parts s (Some b) p q f"
      using valid plain q(2) by (auto simp: uri_parts_def s_def u)
    moreover have "input = uri_text s (Some b) p q f"
      using input f(1) q(1) u bp(1) by (simp add: uri_text_def)
    ultimately show ?thesis by blast
  qed
qed

text \<open>
  C35: a URI that parses keeps its text but for the case of its scheme, its segments
  are those of its parts, none read outside the text, and its normalized text parses to the same
  URI.
\<close>

theorem parse_correct:
  assumes "parse input = Inr u"
  shows "str u = lower_ascii_in_place (takeWhile (\<lambda>c. c \<noteq> CHR '':'') input) @ dropWhile (\<lambda>c. c \<noteq> CHR '':'') input
    \<and> str u = scheme u @ '':'' @ (if has_authority u then ''//'' @ authority u else []) @ uri_path u
        @ (if has_query u then ''?'' @ query u else []) @ (if has_fragment u then ''#'' @ fragment u else [])
    \<and> parse (str u) = Inr u"
proof -
  obtain s a p q f where parts: "uri_parts s a p q f" and input: "input = uri_text s a p q f"
    using parse_parts [OF assms] by auto
  let ?s = "lower_ascii_in_place s"
  have u: "u = assemble ?s a p q f" using assms parse_uri_text [OF parts] by (simp add: input)
  have "uri_parts ?s a p q f" using parts valid_scheme_lower by (simp add: uri_parts_def)
  from parse_uri_text [OF this] have "parse (str u) = Inr u" by (simp add: u assemble_text lower_twice)
  moreover have "CHR '':'' \<notin> set s" using parts valid_scheme_chars by (auto simp: uri_parts_def)
  then have "takeWhile (\<lambda>c. c \<noteq> CHR '':'') input = s" "dropWhile (\<lambda>c. c \<noteq> CHR '':'') input = drop (length s) input"
    by (auto simp: input uri_text_def takeWhile_append dropWhile_append)
  moreover have "uri_text ?s a p q f = ?s @ drop (length s) (uri_text s a p q f)"
    by (simp add: uri_text_def)
  moreover have "uri_text ?s a p q f = scheme u @ '':'' @ (if has_authority u then ''//'' @ authority u else [])
      @ uri_path u @ (if has_query u then ''?'' @ query u else []) @ (if has_fragment u then ''#'' @ fragment u else [])"
    by (simp add: u assemble_views uri_text_def split: option.split)
  ultimately show ?thesis
    by (simp add: u assemble_text input)
qed

theorem parse_correct_witness:
  "\<exists>u. parse ''HTTP://h/a?b#c'' = Inr u
    \<and> str u = lower_ascii_in_place (takeWhile (\<lambda>c. c \<noteq> CHR '':'') ''HTTP://h/a?b#c'')
        @ dropWhile (\<lambda>c. c \<noteq> CHR '':'') ''HTTP://h/a?b#c''
    \<and> parse (str u) = Inr u"
proof -
  have "case parse ''HTTP://h/a?b#c'' of Inl _ \<Rightarrow> False | Inr _ \<Rightarrow> True" by code_simp
  then obtain u where "parse ''HTTP://h/a?b#c'' = Inr u" by (auto split: sum.splits)
  with parse_correct [OF this] show ?thesis by blast
qed

section \<open>File URIs\<close>

lemma authority_host_chars:
  "CHR ''/'' \<notin> set (encode_authority_host host)" "CHR ''?'' \<notin> set (encode_authority_host host)"
  "CHR ''#'' \<notin> set (encode_authority_host host)"
  by (simp_all add: encode_authority_host_def percent_encode_no)

lemma decode_authority_host: "percent_decode (encode_authority_host host) = Inr host"
proof (cases "2 \<le> length host \<and> hd host = CHR ''['' \<and> last host = CHR '']''")
  case True
  then obtain mid where host: "host = ''['' @ mid @ '']''"
    by (cases host; cases "tl host" rule: rev_cases) auto
  then have "encode_authority_host host = CHR ''['' # percent_encode mid True @ '']''"
    by (simp add: encode_authority_host_def)
  then show ?thesis by (simp add: host percent_decode_encode)
next
  case False
  then show ?thesis using percent_decode_encode [of host True "[]"] by (auto simp: encode_authority_host_def)
qed

lemma encode_Nil: "percent_encode s b = [] \<longleftrightarrow> s = []"
  by (cases s) simp_all

lemma hd_encode: "s \<noteq> [] \<Longrightarrow> hd s = CHR ''/'' \<Longrightarrow> hd (percent_encode s False) = CHR ''/''"
  by (cases s) (simp_all add: should_encode_def)

definition file_uri :: "string \<Rightarrow> string \<Rightarrow> URI" where
  "file_uri host path = assemble ''file'' (Some host) (percent_encode path False) None None"

text \<open>The host of a path on a server, and the path there; no host for a local path.\<close>

definition host_and_path :: "string \<Rightarrow> string \<times> string" where
  "host_and_path path =
     (let n = to_slashes path
      in if starts_with n ''//''
         then (takeWhile (\<lambda>c. c \<noteq> CHR ''/'') (drop 2 n), dropWhile (\<lambda>c. c \<noteq> CHR ''/'') (drop 2 n))
         else ([], if is_windows_drive_absolute n then CHR ''/'' # n else n))"

lemma find_char_takeWhile_drop:
  assumes "find_char P s = Some i"
  shows "take i s = takeWhile (\<lambda>c. \<not> P c) s" "drop i s = dropWhile (\<lambda>c. \<not> P c) s"
proof -
  show "take i s = takeWhile (\<lambda>c. \<not> P c) s" by (rule find_char_takeWhile [OF assms])
  then have "i = length (takeWhile (\<lambda>c. \<not> P c) s)"
    using find_char_length [OF assms] by (metis length_take less_imp_le min.absorb2)
  then show "drop i s = dropWhile (\<lambda>c. \<not> P c) s" by (simp add: dropWhile_eq_drop)
qed

lemma from_file_path_uri:
  assumes "from_file_path path = Inr u"
  defines "host \<equiv> fst (host_and_path path)" and "rest \<equiv> snd (host_and_path path)"
  shows "u = file_uri (encode_authority_host host) rest" "rest \<noteq> []" "hd rest = CHR ''/''"
    "CHR ''/'' \<notin> set host" "uri_backslash \<notin> set host"
    "host = [] \<longleftrightarrow> \<not> starts_with (to_slashes path) ''//''"
proof -
  define n where "n = to_slashes path"
  have slashes: "uri_backslash \<notin> set n" by (auto simp: n_def to_slashes_def)
  have base: "append_path p (append_authority a
      (append_text ''//'' (append_text '':'' (append_scheme ''file'' empty_uri)))) = assemble ''file'' (Some a) p None None"
    for a p by (simp add: assemble_def)
  have all: "u = file_uri (encode_authority_host host) rest \<and> rest \<noteq> [] \<and> hd rest = CHR ''/''
      \<and> CHR ''/'' \<notin> set host \<and> uri_backslash \<notin> set host \<and> (host = [] \<longleftrightarrow> \<not> starts_with n ''//'')"
  proof (cases "starts_with n ''//''")
    case True
    obtain i where i: "find_char (\<lambda>c. c = CHR ''/'') (drop 2 n) = Some i" "i \<noteq> 0"
      and u: "u = append_path (percent_encode (drop i (drop 2 n)) False)
        (append_authority (encode_authority_host (take i (drop 2 n)))
          (append_text ''//'' (append_text '':'' (append_scheme ''file'' empty_uri))))"
      using assms(1) True
      by (auto simp: from_file_path_def n_def Let_def split: if_splits option.splits)
    have host: "host = take i (drop 2 n)" and rest: "rest = drop i (drop 2 n)"
      using find_char_takeWhile_drop [OF i(1)] True
      by (simp_all add: host_def rest_def host_and_path_def n_def [symmetric] Let_def)
    have "i < length (drop 2 n)" "drop 2 n ! i = CHR ''/''" "CHR ''/'' \<notin> set (take i (drop 2 n))"
      using i(1) find_char_split [OF i(1)] by (auto simp: find_char_iff)
    moreover have "uri_backslash \<notin> set (take i (drop 2 n))"
      using slashes by (meson in_set_dropD in_set_takeD)
    ultimately show ?thesis
      using u True i(2) by (auto simp: host rest file_uri_def base hd_drop_conv_nth)
  next
    case False
    have host: "host = []" and rest: "rest = (if is_windows_drive_absolute n then CHR ''/'' # n else n)"
      using False by (simp_all add: host_def rest_def host_and_path_def n_def [symmetric] Let_def)
    have given: "path \<noteq> []" "is_absolute_fs_path n"
      using assms(1) by (simp_all add: from_file_path_def n_def [symmetric] Let_def split: if_splits)
    moreover have "\<not> (is_windows_drive_prefix n \<and> \<not> is_windows_drive_absolute n)"
      using assms(1) given by (auto simp: from_file_path_def n_def [symmetric] Let_def split: if_splits)
    moreover have here: "uri\<lparr>ur_authority_segment := \<lparr>sg_offset = Some (length (ur_text uri)), sg_size = 0\<rparr>\<rparr>
        = append_authority [] uri" for uri
      by (simp add: append_defs)
    ultimately have "from_file_path path = Inr (append_path (percent_encode rest False)
        (append_authority [] (append_text ''//'' (append_text '':'' (append_scheme ''file'' empty_uri)))))"
      using False unfolding from_file_path_def n_def [symmetric] Let_def here rest by simp
    then have absolute: "n \<noteq> []" "is_absolute_fs_path n" "u = append_path (percent_encode rest False)
        (append_authority [] (append_text ''//'' (append_text '':'' (append_scheme ''file'' empty_uri))))"
      using assms(1) given by (simp_all add: n_def to_slashes_def)
    moreover have "hd n = CHR ''/''" if "\<not> is_windows_drive_absolute n"
      using that absolute(1,2) False by (auto simp: is_absolute_fs_path_def starts_with_iff)
    ultimately show ?thesis
      using False by (simp add: host rest file_uri_def base encode_authority_host_def)
  qed
  then show "u = file_uri (encode_authority_host host) rest" "rest \<noteq> []" "hd rest = CHR ''/''"
    "CHR ''/'' \<notin> set host" "uri_backslash \<notin> set host"
    "host = [] \<longleftrightarrow> \<not> starts_with (to_slashes path) ''//''"
    by (auto simp: n_def)
qed

text \<open>What a local path is on Windows: one of a drive without the slash in front.\<close>

definition local_path :: "bool \<Rightarrow> string \<Rightarrow> string" where
  "local_path win p = (if win \<and> is_windows_drive_prefix (tl p) then tl p else p)"

lemma iequal_alnum: "is_ascii_iequal s t \<Longrightarrow> list_all is_ascii_alnum t \<Longrightarrow> list_all is_ascii_alnum s"
proof -
  assume "is_ascii_iequal s t" "list_all is_ascii_alnum t"
  then have "list_all2 (\<lambda>l r. to_ascii_lower l = to_ascii_lower r) s t" "list_all is_ascii_alnum t"
    by (simp_all add: is_ascii_iequal_def)
  then show ?thesis by (induction rule: list_all2_induct) (auto, metis lower_classes(2))
qed

lemma percent_not_alnum: "\<not> is_ascii_alnum CHR ''%''" "\<not> is_ascii_alnum CHR ''[''"
  by (simp_all add: is_ascii_alnum_def is_ascii_alpha_def is_ascii_digit_def less_eq_char_def)

lemma percent_encode_alnum: "list_all is_ascii_alnum (percent_encode s b) \<or> list_all is_ascii_alnum s \<Longrightarrow> percent_encode s b = s"
  by (induction s) (auto simp: percent_not_alnum alnum_kept split: if_splits)

lemma encode_host_alnum:
  "list_all is_ascii_alnum (encode_authority_host h) \<or> list_all is_ascii_alnum h \<Longrightarrow> encode_authority_host h = h"
proof (cases "2 \<le> length h \<and> hd h = CHR ''['' \<and> last h = CHR '']''")
  case True
  then have "CHR ''['' \<in> set h" by (cases h) auto
  then show "list_all is_ascii_alnum (encode_authority_host h) \<or> list_all is_ascii_alnum h \<Longrightarrow> encode_authority_host h = h"
    using True percent_not_alnum by (auto simp: encode_authority_host_def list_all_iff)
next
  case False
  then have "encode_authority_host h = percent_encode h True" by (auto simp: encode_authority_host_def)
  then show "list_all is_ascii_alnum (encode_authority_host h) \<or> list_all is_ascii_alnum h \<Longrightarrow> encode_authority_host h = h"
    using percent_encode_alnum [of h True] by simp
qed

lemma encoded_localhost:
  "is_ascii_iequal (encode_authority_host host) ''localhost'' \<longleftrightarrow> is_ascii_iequal host ''localhost''"
proof -
  have alnum: "list_all is_ascii_alnum ''localhost''" by code_simp
  show ?thesis
  proof
    assume *: "is_ascii_iequal (encode_authority_host host) ''localhost''"
    from encode_host_alnum [of host] iequal_alnum [OF this alnum] have "encode_authority_host host = host" by blast
    with * show "is_ascii_iequal host ''localhost''" by (simp only:)
  next
    assume *: "is_ascii_iequal host ''localhost''"
    from encode_host_alnum [of host] iequal_alnum [OF this alnum] have "encode_authority_host host = host" by blast
    with * show "is_ascii_iequal (encode_authority_host host) ''localhost''" by (simp only:)
  qed
qed

text \<open>
  C16: the file URI of an absolute path parses to itself, and its path is the
  one it was made of, with \<^verbatim>\<open>/\<close> for every \<^verbatim>\<open>\\<close>: on a server, unless that is \<^verbatim>\<open>localhost\<close>, whose
  paths are local; and on a drive, with the slash in front that file URIs have where the code is
  not built for Windows.
\<close>

theorem file_path_roundtrip:
  assumes "from_file_path path = Inr u"
  shows "parse (str u) = Inr u
    \<and> file_path win u = Inr (let (host, rest) = host_and_path path
        in if host = [] \<or> is_ascii_iequal host ''localhost'' then local_path win rest
           else to_slashes path)"
proof -
  define host where "host = fst (host_and_path path)"
  define rest where "rest = snd (host_and_path path)"
  note facts = from_file_path_uri [OF assms, folded host_def rest_def]
  have valid: "is_valid_scheme ''file''" "lower_ascii_in_place ''file'' = ''file''" by code_simp+
  have "uri_parts ''file'' (Some (encode_authority_host host)) (percent_encode rest False) None None"
    using facts hd_encode [of rest] valid(1)
    by (simp add: uri_parts_def authority_host_chars percent_encode_no)
  from parse_uri_text [OF this] have parses: "parse (str u) = Inr u"
    by (simp add: facts(1) file_uri_def assemble_text valid(2))
  have views: "is_file u" "has_authority u" "authority u = encode_authority_host host"
    "percent_decode (uri_path u) = Inr rest"
    using percent_decode_encode [of rest False "[]"]
    by (simp_all add: facts(1) file_uri_def is_file_def assemble_views)
  have empty: "encode_authority_host host = [] \<longleftrightarrow> host = []"
    by (auto simp: encode_authority_host_def encode_Nil)
  have local_case: "(win \<and> 3 \<le> length rest \<and> rest ! 0 = CHR ''/'' \<and> is_ascii_alpha (rest ! 1) \<and> rest ! 2 = CHR '':'')
      \<longleftrightarrow> win \<and> is_windows_drive_prefix (tl rest)"
    using facts(2,3) by (cases rest) (auto simp: is_windows_drive_prefix_def numeral_2_eq_2 numeral_3_eq_3)
  have separators: "\<not> list_ex (\<lambda>c. c = CHR ''/'' \<or> c = uri_backslash) host"
    using facts(4,5) by (auto simp: list_ex_iff)
  have unc: "''//'' @ host @ rest = to_slashes path" if "host \<noteq> []"
  proof -
    have "starts_with (to_slashes path) ''//''" using facts(6) that by simp
    then obtain t where "to_slashes path = ''//'' @ t" by (auto simp: starts_with_iff)
    then show ?thesis by (simp add: host_def rest_def host_and_path_def Let_def starts_with_def)
  qed
  have "file_path win u = Inr (if host = [] \<or> is_ascii_iequal host ''localhost'' then local_path win rest
      else to_slashes path)"
    using facts(2,3) unc separators local_case
    by (auto simp: file_path_def views empty encoded_localhost decode_authority_host local_path_def drop_Suc)
  with parses show ?thesis by (simp add: host_def rest_def case_prod_beta)
qed

theorem file_path_roundtrip_witness:
  "\<exists>u. from_file_path ''//server/a b/c'' = Inr u
    \<and> file_path True u = Inr (let (host, rest) = host_and_path ''//server/a b/c''
        in if host = [] \<or> is_ascii_iequal host ''localhost'' then local_path True rest
           else to_slashes ''//server/a b/c'')"
proof -
  have "case from_file_path ''//server/a b/c'' of Inl _ \<Rightarrow> False | Inr _ \<Rightarrow> True" by code_simp
  then obtain u where "from_file_path ''//server/a b/c'' = Inr u" by (auto split: sum.splits)
  with file_path_roundtrip [OF this, of True] show ?thesis by blast
qed

end
