(* ===== verification/Lsp_Text.thy ===== *)
theory Lsp_Text
  imports Utf8 Views
begin

unbundle bit_operations_syntax

text \<open>
  The units that positions of the Language Server Protocol count
  (\<^verbatim>\<open>include/kotatsu/ipc/lsp/text.h\<close>, \<^verbatim>\<open>src/ipc/lsp/text.cpp\<close> and
  \<^verbatim>\<open>src/ipc/lsp/locate.h\<close>). Offsets and counts are \<^typ>\<open>nat\<close>; where the code casts a
  size to \<^verbatim>\<open>std::uint32_t\<close> the model reduces it modulo \<^verbatim>\<open>2 ^ 32\<close>. In a text under
  4 GiB no other count can wrap around, as none passes the size of the text.
\<close>

section \<open>The code\<close>

datatype PositionEncoding = UTF8 | UTF16 | UTF32

definition u32 :: "nat \<Rightarrow> nat" where
  "u32 n = n mod 2 ^ 32"

definition is_continuation :: "char \<Rightarrow> bool" where
  "is_continuation byte \<longleftrightarrow> uchar byte AND 0xC0 = 0x80"

definition next_codepoint_sizes :: "string \<Rightarrow> nat \<Rightarrow> nat \<times> nat" where
  "next_codepoint_sizes text index =
     (let sequence = decode_utf8 (drop index text) in
      if \<not> seq_valid sequence then (1, 1)
      else (seq_length sequence, if code_point sequence < 0x10000 then 1 else 2))"

record Located =
  located :: nat
  exact :: bool

text \<open>The units a code point of the given bytes and UTF-16 units adds to a count.\<close>

fun units_in :: "PositionEncoding \<Rightarrow> nat \<times> nat \<Rightarrow> nat" where
  "units_in encoding (utf8, utf16) = (if encoding = UTF16 then utf16 else 1)"

text \<open>The loop of \<^verbatim>\<open>locate\<close> back to the byte that starts a sequence.\<close>

fun back_to_lead :: "string \<Rightarrow> nat \<Rightarrow> nat \<Rightarrow> nat" where
  "back_to_lead text character lead =
     (if is_continuation (text ! lead) \<and> lead > 0 \<and> character - lead < 3
      then back_to_lead text character (lead - 1) else lead)"

declare back_to_lead.simps [simp del]

lemma next_codepoint_sizes_pos [simp]: "0 < fst (next_codepoint_sizes text index)"
proof (cases "drop index text = []")
  case True
  then show ?thesis by (simp add: next_codepoint_sizes_def decode_utf8_def)
next
  case False
  from decode_utf8_length [OF this] have "0 < seq_length (decode_utf8 (drop index text))"
    by linarith
  then show ?thesis by (simp add: next_codepoint_sizes_def Let_def)
qed

text \<open>The loop of \<^verbatim>\<open>locate\<close> over the code points, for UTF-16 and UTF-32.\<close>

function locate_loop :: "string \<Rightarrow> nat \<Rightarrow> nat \<Rightarrow> PositionEncoding \<Rightarrow> nat \<Rightarrow> nat \<Rightarrow> Located" where
  "locate_loop text bytes character encoding units i =
     (if i < bytes then
        if units = character then \<lparr>located = i, exact = True\<rparr>
        else let sizes = next_codepoint_sizes text i;
                 units = units + units_in encoding sizes
             in if units > character then \<lparr>located = i, exact = False\<rparr>
                else locate_loop text bytes character encoding units (i + fst sizes)
      else \<lparr>located = bytes, exact = units = character\<rparr>)"
  by pat_completeness auto
termination
  by (relation "measure (\<lambda>(t, bytes, c, e, u, i). bytes - i)") (auto intro!: diff_less_mono2)

declare locate_loop.simps [simp del]

definition locate :: "string \<Rightarrow> nat \<Rightarrow> PositionEncoding \<Rightarrow> Located" where
  "locate text character encoding =
     (let size = u32 (length text) in
      if encoding = UTF8 then
        if character \<ge> size then \<lparr>located = size, exact = character = size\<rparr>
        else let lead = back_to_lead text character character in
          if lead \<noteq> character \<and> \<not> is_continuation (text ! lead)
             \<and> lead + fst (next_codepoint_sizes text lead) > character
          then \<lparr>located = lead, exact = False\<rparr>
          else \<lparr>located = character, exact = True\<rparr>
      else locate_loop text size character encoding 0 0)"

fun line_starts_loop :: "string \<Rightarrow> nat \<Rightarrow> nat list" where
  "line_starts_loop [] i = []"
| "line_starts_loop (c # content) i =
     (if c = CHR 0x0A then (i + 1) # line_starts_loop content (i + 1)
      else line_starts_loop content (i + 1))"

definition line_starts :: "string \<Rightarrow> nat list" where
  "line_starts content = 0 # line_starts_loop content 0"

definition is_ascii :: "string \<Rightarrow> bool" where
  "is_ascii text \<longleftrightarrow> foldl (\<lambda>seen byte. seen OR uchar byte) 0 text < 0x80"

text \<open>A vector of 64-bit words and the setting of a bit in it, growing it if need be.\<close>

definition set_line_bit :: "64 word list \<Rightarrow> nat \<Rightarrow> 64 word list" where
  "set_line_bit bits line =
     (let bits = bits @ replicate (max (length bits) (line div 64 + 1) - length bits) 0
      in bits[line div 64 := bits ! (line div 64) OR push_bit (line mod 64) 1])"

function non_ascii_loop :: "64 word list \<Rightarrow> nat \<Rightarrow> string \<Rightarrow> 64 word list" where
  "non_ascii_loop bits line content =
     (case find_char (\<lambda>c. c = CHR 0x0A) content of
        None \<Rightarrow> if is_ascii content then bits else set_line_bit bits line
      | Some newline \<Rightarrow>
          non_ascii_loop (if is_ascii (take newline content) then bits else set_line_bit bits line)
            (line + 1) (drop (newline + 1) content))"
  by pat_completeness auto
termination
  by (relation "measure (\<lambda>(b, l, content). length content)") (auto split: option.splits, case_tac content, auto)

declare non_ascii_loop.simps [simp del]

definition non_ascii_lines :: "string \<Rightarrow> 64 word list" where
  "non_ascii_lines content = non_ascii_loop [] 0 content"

function encoded_length_loop :: "string \<Rightarrow> PositionEncoding \<Rightarrow> nat \<Rightarrow> nat \<Rightarrow> nat" where
  "encoded_length_loop text encoding units i =
     (if i < length text then
        let sizes = next_codepoint_sizes text i
        in encoded_length_loop text encoding (units + units_in encoding sizes) (i + fst sizes)
      else u32 units)"
  by pat_completeness auto
termination
  by (relation "measure (\<lambda>(t, e, u, i). length t - i)") (auto intro!: diff_less_mono2)

declare encoded_length_loop.simps [simp del]

definition encoded_length :: "string \<Rightarrow> PositionEncoding \<Rightarrow> nat" where
  "encoded_length text encoding =
     (if encoding = UTF8 then u32 (length text) else encoded_length_loop text encoding 0 0)"

definition encoded_offset :: "string \<Rightarrow> nat \<Rightarrow> PositionEncoding \<Rightarrow> nat option" where
  "encoded_offset text character encoding =
     (let found = locate text character encoding in
      if \<not> exact found then None else Some (located found))"

lemma u32_id [simp]: "n < 2 ^ 32 \<Longrightarrow> u32 n = n"
  by (simp add: u32_def)

section \<open>The code points of a text\<close>

text \<open>
  The reference: a text cut into its code points from the front, each by its bytes and UTF-16
  units, where a byte that starts no code point is one of its own.
\<close>

function code_points :: "string \<Rightarrow> (nat \<times> nat) list" where
  "code_points text =
     (if text = [] then []
      else let sizes = next_codepoint_sizes text 0 in sizes # code_points (drop (fst sizes) text))"
  by pat_completeness auto
termination
  by (relation "measure length") (auto simp: diff_less)

declare code_points.simps [simp del]

definition width :: "PositionEncoding \<Rightarrow> nat \<times> nat \<Rightarrow> nat" where
  "width encoding p = (case encoding of UTF8 \<Rightarrow> fst p | UTF16 \<Rightarrow> snd p | UTF32 \<Rightarrow> 1)"

definition widths :: "PositionEncoding \<Rightarrow> (nat \<times> nat) list \<Rightarrow> nat" where
  "widths encoding ps = sum_list (map (width encoding) ps)"

lemma widths_simps [simp]:
  "widths e [] = 0" "widths e (p # ps) = width e p + widths e ps"
  "widths e (ps @ qs) = widths e ps + widths e qs"
  by (simp_all add: widths_def)

lemma code_points_Nil [simp]: "code_points [] = []"
  by (simp add: code_points.simps)

lemma is_continuation_iff: "is_continuation c \<longleftrightarrow> 0x80 \<le> uchar c \<and> uchar c < 0xC0"
proof -
  have mask: "(0xC0::nat) = push_bit 6 (mask 2)" by (simp add: push_bit_eq_mult mask_eq_exp_minus_1)
  have "uchar c AND 0xC0 = push_bit 6 (take_bit 2 (drop_bit 6 (uchar c)))"
    unfolding mask by (rule bit_eqI) (auto simp: bit_simps)
  also have "uchar c < 256" by simp
  then have "uchar c div 64 < 4" by (simp add: less_mult_imp_div_less)
  then have "push_bit 6 (take_bit 2 (drop_bit 6 (uchar c))) = uchar c div 64 * 64"
    by (simp add: byte_simps take_bit_eq_mod)
  finally have eq: "uchar c AND 0xC0 = uchar c div 64 * 64" .
  have "uchar c div 64 = 2 \<longleftrightarrow> 0x80 \<le> uchar c \<and> uchar c < (0xC0::nat)"
    by (auto simp: div_nat_eqI)
  then show ?thesis by (simp add: is_continuation_def eq)
qed


lemma next_codepoint_sizes_drop: "next_codepoint_sizes text i = next_codepoint_sizes (drop i text) 0"
  by (simp add: next_codepoint_sizes_def)

lemma all_below_conv:
  "(\<forall>k. 0 < k \<and> k < Suc (Suc 0) \<longrightarrow> P k) \<longleftrightarrow> P 1"
  "(\<forall>k. 0 < k \<and> k < Suc (Suc (Suc 0)) \<longrightarrow> P k) \<longleftrightarrow> P 1 \<and> P 2"
  "(\<forall>k. 0 < k \<and> k < Suc (Suc (Suc (Suc 0))) \<longrightarrow> P k) \<longleftrightarrow> P 1 \<and> P 2 \<and> P 3"
  by (auto simp: less_Suc_eq numeral_eq_Suc)

lemma encode_bytes:
  assumes "cp \<le> 0x10FFFF" "0x80 \<le> cp"
  shows "\<not> is_continuation (hd (encode_code_point cp))
    \<and> (\<forall>k. 0 < k \<and> k < length (encode_code_point cp) \<longrightarrow> is_continuation (encode_code_point cp ! k))
    \<and> 2 \<le> length (encode_code_point cp) \<and> length (encode_code_point cp) \<le> 4"
proof -
  have c: "is_continuation (to_char (0x80 + b))" if "b < 64" for b
    using that by (simp add: is_continuation_iff)
  have l: "\<not> is_continuation (to_char (0xC0 + b))" if "b < 64" for b
    using that by (simp add: is_continuation_iff)
  consider "cp < 0x800" | "0x800 \<le> cp" "cp < 0x10000" | "0x10000 \<le> cp" by linarith
  then show ?thesis
  proof cases
    case 1
    then have "cp div 64 < 64" by (simp add: less_mult_imp_div_less)
    from l [OF this] 1 assms show ?thesis by (simp add: encode_code_point_arith all_below_conv c)
  next
    case 2
    then have "32 + cp div 4096 < 64" by (simp add: less_mult_imp_div_less)
    from l [OF this] 2 assms show ?thesis by (simp add: encode_code_point_arith all_below_conv c)
  next
    case 3
    then have "48 + cp div 262144 < 64" using assms by (simp add: less_mult_imp_div_less)
    from l [OF this] 3 assms show ?thesis
      by (simp add: encode_code_point_arith all_below_conv c numeral_3_eq_3)
  qed
qed

text \<open>
  A code point of a text is one byte, or a lead byte and the continuation bytes after it.
\<close>

lemma next_codepoint_sizes_cases:
  assumes "text \<noteq> []"
  obtains (single) "next_codepoint_sizes text 0 = (1, 1)"
  | (multi) b u where "next_codepoint_sizes text 0 = (b, u)" "2 \<le> b" "b \<le> 4" "b \<le> length text"
      "1 \<le> u" "u \<le> 2" "\<not> is_continuation (text ! 0)" "\<forall>k. 0 < k \<and> k < b \<longrightarrow> is_continuation (text ! k)"
proof (cases "seq_valid (decode_utf8 text) \<and> 0x80 \<le> code_point (decode_utf8 text)")
  case True
  define cp where "cp = code_point (decode_utf8 text)"
  have "spells False text (decode_utf8 text)"
    using True decode_valid by (simp add: decode_utf8_def)
  then have s: "is_code_point False cp" "seq_length (decode_utf8 text) = length (encode_code_point cp)"
    "take (length (encode_code_point cp)) text = encode_code_point cp"
    by (auto simp: spells_def cp_def)
  from s(1) have "cp \<le> 0x10FFFF" by (simp add: is_code_point_def)
  note e = encode_bytes [OF this True [THEN conjunct2, folded cp_def]]
  have nth: "text ! k = encode_code_point cp ! k" if "k < length (encode_code_point cp)" for k
    using that s(3) by (metis nth_take)
  have hd: "text ! 0 = hd (encode_code_point cp)" using nth [of 0] by (simp add: hd_conv_nth)
  show thesis
  proof (rule multi)
    show "next_codepoint_sizes text 0 = (length (encode_code_point cp), if cp < 0x10000 then 1 else 2)"
      using True s(2) by (simp add: next_codepoint_sizes_def cp_def)
    show "length (encode_code_point cp) \<le> length text"
      using s(2) decode_utf8_length [OF assms] by simp
  qed (use e nth hd in auto)
next
  case False
  show thesis
  proof (rule single, cases "seq_valid (decode_utf8 text)")
    case True
    with False have cp: "code_point (decode_utf8 text) < 0x80" by simp
    have "spells False text (decode_utf8 text)"
      using True decode_valid by (simp add: decode_utf8_def)
    with cp have "seq_length (decode_utf8 text) = 1"
      by (auto simp: spells_def encode_code_point_def)
    with True cp show "next_codepoint_sizes text 0 = (1, 1)" by (simp add: next_codepoint_sizes_def)
  qed (simp add: next_codepoint_sizes_def)
qed

lemma next_codepoint_sizes_bounds:
  assumes "text \<noteq> []"
  shows "fst (next_codepoint_sizes text 0) \<le> length text" "fst (next_codepoint_sizes text 0) \<le> 4"
    "0 < snd (next_codepoint_sizes text 0)"
    "snd (next_codepoint_sizes text 0) \<le> fst (next_codepoint_sizes text 0)"
  using assms by (cases rule: next_codepoint_sizes_cases; force simp: Suc_le_eq)+

lemma code_points_Cons:
  assumes "code_points text = p # ps"
  shows "text \<noteq> []" "p = next_codepoint_sizes text 0" "code_points (drop (fst p) text) = ps"
    "0 < width e p" "width e p \<le> fst p" "fst p \<le> length text"
proof -
  show t: "text \<noteq> []" using assms by auto
  with assms show p: "p = next_codepoint_sizes text 0" "code_points (drop (fst p) text) = ps"
    by (auto simp: code_points.simps [of "text"] Let_def)
  show "0 < width e p" "width e p \<le> fst p" "fst p \<le> length text"
    using next_codepoint_sizes_bounds [OF t] next_codepoint_sizes_pos [of "text" 0]
    by (auto simp: p(1) width_def Suc_le_eq split: PositionEncoding.split)
qed

lemma code_points_append:
  assumes "code_points text = ps @ qs"
  shows "code_points (drop (widths UTF8 ps) text) = qs" "widths UTF8 ps \<le> length text"
  using assms
proof (induction ps arbitrary: "text")
  case (Cons p ps)
  { case 1
    then have c: "code_points text = p # ps @ qs" by simp
    from Cons.IH(1) [OF code_points_Cons(3) [OF c]] show ?case
      by (simp add: width_def add.commute [of "fst p"]) }
  { case 2
    then have c: "code_points text = p # ps @ qs" by simp
    from Cons.IH(2) [OF code_points_Cons(3) [OF c]] code_points_Cons(6) [OF c] show ?case
      by (simp add: width_def) }
qed simp_all

lemma widths_code_points: "widths UTF8 (code_points text) = length text"
proof -
  have "code_points (drop (widths UTF8 (code_points text)) text) = []"
    by (rule code_points_append(1)) simp
  then have "drop (widths UTF8 (code_points text)) text = []"
    by (metis code_points.simps list.distinct(1))
  with code_points_append(2) [of "text" "code_points text" "[]"] show ?thesis by simp
qed

lemma code_points_nonempty: "code_points text = [] \<longleftrightarrow> text = []"
  using widths_code_points [of "text"] by (auto simp: code_points.simps [of "text"] Let_def)

lemma code_points_encode:
  assumes "is_code_point False cp"
  shows "code_points (encode_code_point cp @ rest)
    = (length (encode_code_point cp), if cp < 0x10000 then 1 else 2) # code_points rest"
  by (subst code_points.simps)
    (simp add: next_codepoint_sizes_def decode_utf8_def decode_encode [OF assms])

text \<open>A byte that continues no sequence starts a code point: UTF-8 resynchronizes.\<close>

lemma code_point_starts:
  assumes "i < length text" "\<not> is_continuation (text ! i)"
  shows "\<exists>ps qs. code_points text = ps @ qs \<and> widths UTF8 ps = i"
  using assms
proof (induction "text" arbitrary: i rule: code_points.induct)
  case (1 "text")
  then have t: "text \<noteq> []" by auto
  define b where "b = fst (next_codepoint_sizes text 0)"
  show ?case
  proof (cases "i < b")
    case True
    with t 1(3) have "i = 0"
      by (cases rule: next_codepoint_sizes_cases) (auto simp: b_def)
    then show ?thesis by (metis append_Nil widths_simps(1))
  next
    case False
    have "\<exists>ps qs. code_points (drop b text) = ps @ qs \<and> widths UTF8 ps = i - b"
      unfolding b_def by (rule 1(1) [OF t refl]) (use 1(2,3) False in \<open>auto simp: b_def\<close>)
    then obtain ps qs where "code_points (drop b text) = ps @ qs" "widths UTF8 ps = i - b" by auto
    with t False show ?thesis
      by (intro exI [where x = "next_codepoint_sizes text 0 # ps"] exI [where x = qs])
        (auto simp: code_points.simps [of "text"] Let_def b_def width_def)
  qed
qed


section \<open>Placing a unit\<close>

lemma back_to_lead_le: "back_to_lead text character lead \<le> lead"
  by (induction "text" character lead rule: back_to_lead.induct)
    (subst back_to_lead.simps, force)

lemma back_to_lead_found:
  assumes "start \<le> lead" "lead \<le> character" "character \<le> start + 3"
    "\<forall>k. start < k \<and> k \<le> lead \<longrightarrow> is_continuation (text ! k)" "\<not> is_continuation (text ! start)"
  shows "back_to_lead text character lead = start"
  using assms
proof (induction lead)
  case 0
  then show ?case by (simp add: back_to_lead.simps)
next
  case (Suc lead)
  show ?case
  proof (cases "start = Suc lead")
    case True
    with Suc.prems show ?thesis by (simp add: back_to_lead.simps)
  next
    case False
    with Suc have "back_to_lead text character lead = start" by simp
    with False Suc.prems show ?thesis by (subst back_to_lead.simps) simp
  qed
qed

text \<open>The three places of a unit: at a code point, inside one, past the last.\<close>

lemma unit_cases:
  obtains (at) ps qs where "cps = ps @ qs" "n = widths e ps"
  | (inside) ps p qs k where "cps = ps @ p # qs" "0 < k" "k < width e p" "n = widths e ps + k"
  | (past) "widths e cps < n"
proof (induction cps arbitrary: n thesis)
  case Nil
  then show ?case by (cases n) force+
next
  case (Cons p cps)
  show ?case
  proof (cases "n < width e p")
    case True
    then show ?thesis using Cons.prems(1) [of "[]"] Cons.prems(2) [of "[]" p cps n]
      by (cases n) auto
  next
    case False
    show ?thesis
    proof (rule Cons.IH [of "n - width e p"])
      fix ps qs
      assume "cps = ps @ qs" "n - width e p = widths e ps"
      then show ?thesis using False Cons.prems(1) [of "p # ps" qs] by auto
    next
      fix ps p' qs k
      assume "cps = ps @ p' # qs" "0 < k" "k < width e p'" "n - width e p = widths e ps + k"
      then show ?thesis using False Cons.prems(2) [of "p # ps" p' qs k] by auto
    next
      assume "widths e cps < n - width e p"
      then show ?thesis using Cons.prems(3) by auto
    qed
  qed
qed

lemma units_in_width: "e \<noteq> UTF8 \<Longrightarrow> units_in e p = width e p"
  by (cases p; cases e) (auto simp: width_def)

lemma code_points_step:
  assumes "code_points (drop i text) = p # ps"
  shows "i < length text" "next_codepoint_sizes text i = p"
    "code_points (drop (i + fst p) text) = ps"
  using code_points_Cons(1-3) [OF assms] next_codepoint_sizes_drop [of "text" i]
  by (auto simp: add.commute)

lemma locate_loop_at:
  assumes "e \<noteq> UTF8" "code_points (drop i text) = ps @ qs" "i \<le> length text"
  shows "locate_loop text (length text) (u + widths e ps) e u i
    = \<lparr>located = i + widths UTF8 ps, exact = True\<rparr>"
  using assms(2,3)
proof (induction ps arbitrary: u i)
  case Nil
  then show ?case by (subst locate_loop.simps) simp
next
  case (Cons p ps)
  note c = code_points_step [of i "text" p "ps @ qs"]
    code_points_Cons(4) [of "drop i text" p "ps @ qs" e] code_points_Cons(6) [of "drop i text" p "ps @ qs"]
  from Cons show ?case using c Cons.IH [of "i + fst p" "u + width e p"]
    by (subst locate_loop.simps) (simp add: units_in_width [OF assms(1)] width_def [of UTF8] add.assoc)
qed

lemma locate_loop_inside:
  assumes "e \<noteq> UTF8" "code_points (drop i text) = ps @ p # qs" "i \<le> length text"
    "0 < k" "k < width e p"
  shows "locate_loop text (length text) (u + widths e ps + k) e u i
    = \<lparr>located = i + widths UTF8 ps, exact = False\<rparr>"
  using assms(2,3)
proof (induction ps arbitrary: u i)
  case Nil
  then show ?case using code_points_step [of i "text" p qs] assms
    by (subst locate_loop.simps) (simp add: units_in_width)
next
  case (Cons p' ps)
  note c = code_points_step [of i "text" p' "ps @ p # qs"]
    code_points_Cons(4) [of "drop i text" p' "ps @ p # qs" e] code_points_Cons(6) [of "drop i text" p' "ps @ p # qs"]
  from Cons show ?case using c Cons.IH [of "i + fst p'" "u + width e p'"]
    by (subst locate_loop.simps) (simp add: units_in_width [OF assms(1)] width_def [of UTF8] add.assoc)
qed

lemma locate_loop_past:
  assumes "e \<noteq> UTF8" "code_points (drop i text) = ps" "i \<le> length text" "u + widths e ps < n"
  shows "locate_loop text (length text) n e u i = \<lparr>located = length text, exact = False\<rparr>"
  using assms(2-4)
proof (induction ps arbitrary: u i)
  case Nil
  then show ?case by (subst locate_loop.simps) (simp add: code_points_nonempty)
next
  case (Cons p ps)
  note c = code_points_step [of i "text" p ps] code_points_Cons(4) [of "drop i text" p ps e] code_points_Cons(6) [of "drop i text" p ps]
  from Cons show ?case using c Cons.IH [of "i + fst p" "u + width e p"]
    by (subst locate_loop.simps) (simp add: units_in_width [OF assms(1)] width_def [of UTF8] add.assoc)
qed


lemma code_points_boundary_unique:
  assumes "code_points text = ps @ qs" "code_points text = ps' @ p' # qs'"
    "widths UTF8 ps' < widths UTF8 ps"
  shows "widths UTF8 ps' + fst p' \<le> widths UTF8 ps"
proof -
  from assms(1,2) have "ps @ qs = ps' @ p' # qs'" by simp
  then consider us where "ps = ps' @ us" | us where "ps' = ps @ us" by (auto simp: append_eq_append_conv2)
  then show ?thesis
  proof cases
    case 1
    with assms obtain us' where "ps = ps' @ p' # us'"
      by (cases us) auto
    then show ?thesis by (simp add: width_def)
  next
    case 2
    with assms(3) show ?thesis by simp
  qed
qed

lemma locate_utf8_at:
  assumes "length text < 2 ^ 32" "code_points text = ps @ qs"
  shows "locate text (widths UTF8 ps) UTF8 = \<lparr>located = widths UTF8 ps, exact = True\<rparr>"
proof (cases "widths UTF8 ps < length text")
  case False
  with code_points_append(2) [OF assms(2)] assms(1) show ?thesis by (simp add: locate_def Let_def)
next
  case True
  define lead where "lead = back_to_lead text (widths UTF8 ps) (widths UTF8 ps)"
  have le: "lead \<le> widths UTF8 ps" unfolding lead_def by (rule back_to_lead_le)
  have "lead + fst (next_codepoint_sizes text lead) \<le> widths UTF8 ps"
    if c: "lead \<noteq> widths UTF8 ps" "\<not> is_continuation (text ! lead)"
  proof -
    have less: "lead < length text" using le True by simp
    from code_point_starts [OF this c(2)]
    obtain ps' qs' where p: "code_points text = ps' @ qs'" "widths UTF8 ps' = lead" by auto
    with less have "qs' \<noteq> []" using widths_code_points [of "text"] by auto
    then obtain p' rs where q: "qs' = p' # rs" by (cases qs') auto
    have d: "code_points (drop lead text) = p' # rs"
      using code_points_append(1) [of "text" ps' qs'] p q by simp
    have "next_codepoint_sizes text lead = p'" by (rule code_points_step(2) [OF d])
    then show ?thesis
      using code_points_boundary_unique [OF assms(2), of ps' p' rs] p q c(1) le by simp
  qed
  then show ?thesis using True assms(1) by (fastforce simp: locate_def Let_def lead_def [symmetric])
qed

lemma locate_utf8_inside:
  assumes "length text < 2 ^ 32" "code_points text = ps @ p # qs" "0 < k" "k < fst p"
  shows "locate text (widths UTF8 ps + k) UTF8 = \<lparr>located = widths UTF8 ps, exact = False\<rparr>"
proof -
  define start where "start = widths UTF8 ps"
  have d: "code_points (drop start text) = p # qs"
    unfolding start_def by (rule code_points_append(1) [OF assms(2)])
  note s = code_points_step [OF d] code_points_Cons [OF d]
  have n: "text ! (start + j) = drop start text ! j" for j using s(1) by simp
  have sizes: "next_codepoint_sizes (drop start text) 0 = p" using s(5) ..
  from s(4) have bytes: "\<not> is_continuation (text ! start) \<and> fst p \<le> 4
      \<and> (\<forall>j. 0 < j \<and> j < fst p \<longrightarrow> is_continuation (text ! (start + j)))"
    unfolding n [of 0, simplified] n
    using assms(3,4) by (cases rule: next_codepoint_sizes_cases) (auto simp: sizes)
  then have "is_continuation (text ! j)" if "start < j" "j \<le> start + k" for j
    using that assms(4) by (metis add_diff_cancel_left' le_add_diff_inverse less_imp_le_nat
        less_or_eq_imp_le nat_add_left_cancel_le order_le_less_trans zero_less_diff)
  with bytes have lead: "back_to_lead text (start + k) (start + k) = start"
    using assms(4) by (intro back_to_lead_found) auto
  have "start + k < length text" using s(9) assms(4) s(1) by simp
  then show ?thesis
    using assms(1,3,4) lead s(2) bytes
    unfolding start_def [symmetric] by (simp add: locate_def Let_def)
qed

lemma locate_utf8_past:
  assumes "length text < 2 ^ 32" "length text < n"
  shows "locate text n UTF8 = \<lparr>located = length text, exact = False\<rparr>"
  using assms by (simp add: locate_def Let_def)

lemma locate_at:
  assumes "length text < 2 ^ 32" "code_points text = ps @ qs"
  shows "locate text (widths e ps) e = \<lparr>located = widths UTF8 ps, exact = True\<rparr>"
proof (cases "e = UTF8")
  case True
  with locate_utf8_at [OF assms] show ?thesis by simp
next
  case False
  with locate_loop_at [OF False, of 0 "text" ps qs 0] assms show ?thesis
    by (simp add: locate_def Let_def)
qed

lemma locate_inside:
  assumes "length text < 2 ^ 32" "code_points text = ps @ p # qs" "0 < k" "k < width e p"
  shows "locate text (widths e ps + k) e = \<lparr>located = widths UTF8 ps, exact = False\<rparr>"
proof (cases "e = UTF8")
  case True
  with locate_utf8_inside [OF assms(1-3)] assms(4) show ?thesis by (simp add: width_def)
next
  case False
  with locate_loop_inside [OF False, of 0 "text" ps p qs k 0] assms show ?thesis
    by (simp add: locate_def Let_def)
qed

lemma locate_past:
  assumes "length text < 2 ^ 32" "widths e (code_points text) < n"
  shows "locate text n e = \<lparr>located = length text, exact = False\<rparr>"
proof (cases "e = UTF8")
  case True
  with locate_utf8_past assms widths_code_points [of "text"] show ?thesis by simp
next
  case False
  with locate_loop_past [OF False, of 0 "text" "code_points text" 0 n] assms show ?thesis
    by (simp add: locate_def Let_def)
qed

lemma widths_le: "widths e (code_points text) \<le> length text"
proof (induction "text" rule: code_points.induct)
  case (1 "text")
  show ?case
  proof (cases "text = []")
    case False
    then obtain p ps where c: "code_points text = p # ps" by (cases "code_points text")
        (auto simp: code_points_nonempty)
    note s = code_points_Cons [OF c]
    from 1 [OF False refl] s have "widths e ps \<le> length text - fst p" by simp
    with s(5) [of e] s(6) c show ?thesis by simp
  qed simp
qed

lemma encoded_length_loop_eq:
  assumes "e \<noteq> UTF8" "code_points (drop i text) = ps"
  shows "encoded_length_loop text e u i = u32 (u + widths e ps)"
  using assms(2)
proof (induction ps arbitrary: u i)
  case Nil
  then show ?case by (subst encoded_length_loop.simps) (simp add: code_points_nonempty)
next
  case (Cons p ps)
  note c = code_points_step [OF Cons.prems]
  from c Cons.IH [OF c(3)] show ?case
    by (subst encoded_length_loop.simps) (simp add: units_in_width [OF assms(1)] add.assoc)
qed

lemma encoded_length_widths: "encoded_length text e = u32 (widths e (code_points text))"
  using encoded_length_loop_eq [of e 0 "text" _ 0]
  by (cases e) (auto simp: encoded_length_def widths_code_points)

text \<open>
  C31: for every text under 4 GiB, cut into code points (a byte that
  starts none is one of its own), and in every encoding: the length of the text is the sum of
  its code points' units; the unit a code point begins with is placed exactly at the code
  point's first byte, however many come before it; a unit inside a code point has no offset and
  is placed, inexactly, at the code point's start; a unit past the end has none and is placed
  at the end. For UTF-8 this says that stepping back at most three bytes finds the same code
  points as reading the text from its start.
\<close>

theorem encoded_offset_correct:
  assumes "length text < 2 ^ 32"
  shows "encoded_length text e = widths e (code_points text)
    \<and> (\<forall>ps qs. code_points text = ps @ qs \<longrightarrow>
         encoded_offset text (widths e ps) e = Some (widths UTF8 ps))
    \<and> (\<forall>ps p qs k. code_points text = ps @ p # qs \<and> 0 < k \<and> k < width e p \<longrightarrow>
         encoded_offset text (widths e ps + k) e = None
         \<and> located (locate text (widths e ps + k) e) = widths UTF8 ps)
    \<and> (\<forall>n > widths e (code_points text).
         encoded_offset text n e = None \<and> located (locate text n e) = length text)"
  using assms widths_le [of e "text"]
  by (auto simp: encoded_length_widths encoded_offset_def locate_at locate_inside locate_past)

text \<open>An e with an acute accent, a broken byte, and a character past the BMP.\<close>

theorem encoded_offset_correct_witness:
  "code_points (encode_code_point 0xE9 @ CHR 0xFF # encode_code_point 0x1F600)
     = [(2, 1), (1, 1), (4, 2)]
   \<and> encoded_offset (encode_code_point 0xE9 @ CHR 0xFF # encode_code_point 0x1F600) 2 UTF16
     = Some 3
   \<and> encoded_offset (encode_code_point 0xE9 @ CHR 0xFF # encode_code_point 0x1F600) 3 UTF16
     = None"
proof -
  let ?t = "encode_code_point 0xE9 @ CHR 0xFF # encode_code_point 0x1F600"
  have "next_codepoint_sizes (CHR 0xFF # rest) 0 = (1, 1)" for rest
    by (simp add: next_codepoint_sizes_def decode_utf8_def lead_range_def)
  then have broken: "code_points (CHR 0xFF # rest) = (1, 1) # code_points rest" for rest
    by (simp add: code_points.simps [of "CHR 0xFF # rest"])
  have "code_points (encode_code_point 0x1F600 @ []) = [(4, 2)]"
    by (subst code_points_encode) (simp_all add: is_code_point_def encode_code_point_def)
  then have c: "code_points ?t = [(2, 1), (1, 1), (4, 2)]"
    by (subst code_points_encode) (simp_all add: broken is_code_point_def encode_code_point_def)
  have "length ?t < 2 ^ 32" by (simp add: encode_code_point_def)
  note r = encoded_offset_correct [OF this, of UTF16]
  have "encoded_offset ?t (widths UTF16 ([(2, 1), (1, 1)])) UTF16
      = Some (widths UTF8 [(2, 1), (1, 1)])"
    using r c by (metis append_Cons append_Nil)
  moreover have "encoded_offset ?t (widths UTF16 [(2, 1), (1, 1)] + 1) UTF16 = None"
  proof -
    have "code_points ?t = [(2, 1), (1, 1)] @ (4, 2) # []" by (simp add: c)
    moreover have "(1::nat) < width UTF16 (4, 2)" by (simp add: width_def)
    ultimately show ?thesis using r by (metis zero_less_one)
  qed
  ultimately show ?thesis using c by (simp add: width_def numeral_2_eq_2 numeral_3_eq_3)
qed


section \<open>Lines\<close>

lemma or_less_128: "(a OR b < 128) \<longleftrightarrow> a < 128 \<and> b < (128::nat)"
proof -
  have "x < 128 \<longleftrightarrow> drop_bit 7 x = 0" for x :: nat
    by (simp add: drop_bit_eq_div div_eq_0_iff)
  then show ?thesis by (simp add: drop_bit_or or_eq_0_iff)
qed

lemma is_ascii_iff: "is_ascii text \<longleftrightarrow> (\<forall>c\<in>set text. uchar c < 0x80)"
proof -
  have "foldl (\<lambda>seen byte. seen OR uchar byte) s text < 128
      \<longleftrightarrow> s < 128 \<and> (\<forall>c\<in>set text. uchar c < 128)" for s
    by (induction "text" arbitrary: s) (auto simp: or_less_128)
  then show ?thesis by (simp add: is_ascii_def)
qed

lemma code_points_ascii: "is_ascii text \<Longrightarrow> code_points text = replicate (length text) (1, 1)"
proof (induction "text")
  case (Cons c "text")
  then have "uchar c < 0x80" "is_ascii text" by (auto simp: is_ascii_iff)
  with Cons code_points_encode [of "uchar c" "text"] show ?case
    by (simp add: is_code_point_def encode_ascii)
qed simp

text \<open>The lines of a text, without the newlines between them: the reference.\<close>

fun lines_of :: "string \<Rightarrow> string list" where
  "lines_of [] = [[]]"
| "lines_of (c # content) =
     (if c = CHR 0x0A then [] # lines_of content
      else (c # hd (lines_of content)) # tl (lines_of content))"

lemma lines_of_nonempty [simp]: "lines_of content \<noteq> []"
  by (induction content) auto

lemma lines_of_line: "CHR 0x0A \<notin> set front \<Longrightarrow> lines_of (front @ CHR 0x0A # rest) = front # lines_of rest"
  by (induction front) auto

lemma lines_of_last: "CHR 0x0A \<notin> set front \<Longrightarrow> lines_of front = [front]"
  by (induction front) auto

lemma line_starts_loop_line:
  "CHR 0x0A \<notin> set front \<Longrightarrow> line_starts_loop (front @ CHR 0x0A # rest) i
     = (i + length front + 1) # line_starts_loop rest (i + length front + 1)"
  by (induction front arbitrary: i) auto

lemma line_starts_loop_last: "CHR 0x0A \<notin> set front \<Longrightarrow> line_starts_loop front i = []"
  by (induction front arbitrary: i) auto

lemma find_newline:
  "find_char (\<lambda>c. c = x) content = Some n \<Longrightarrow>
     content = take n content @ x # drop (n + 1) content \<and> x \<notin> set (take n content)"
  "find_char (\<lambda>c. c = x) content = None \<Longrightarrow> x \<notin> set content"
  by (induction content arbitrary: n) (auto split: if_splits)

text \<open>A text is one line, or a line, a newline and the lines after it.\<close>

lemma lines_induct [case_names last line]:
  assumes "\<And>front. CHR 0x0A \<notin> set front \<Longrightarrow> P front"
    "\<And>front rest. CHR 0x0A \<notin> set front \<Longrightarrow> P rest \<Longrightarrow> P (front @ CHR 0x0A # rest)"
  shows "P content"
proof (induction content rule: length_induct)
  case (1 content)
  show ?case
  proof (cases "find_char (\<lambda>c. c = CHR 0x0A) content")
    case None
    then show ?thesis by (intro assms(1) find_newline(2))
  next
    case (Some n)
    note f = find_newline(1) [OF this]
    have "content \<noteq> []" using Some by auto
    then have "length (drop (n + 1) content) < length content" by simp
    then have "P (drop (n + 1) content)" using 1 by blast
    from assms(2) [OF f [THEN conjunct2] this] show ?thesis using f by simp
  qed
qed

lemma line_starts_loop_lines:
  assumes "n < length (lines_of content)"
  shows "(i # line_starts_loop content i) ! n = i + sum_list (map (\<lambda>l. length l + 1) (take n (lines_of content)))"
  using assms
proof (induction content arbitrary: n i rule: lines_induct)
  case (last front)
  then show ?case by (simp add: lines_of_last)
next
  case (line front rest)
  then show ?case
    by (cases n) (auto simp: lines_of_line line_starts_loop_line simp del: line_starts_loop.simps)
qed

lemma length_line_starts_loop: "Suc (length (line_starts_loop content i)) = length (lines_of content)"
  by (induction content arbitrary: i rule: lines_induct)
    (auto simp: lines_of_last lines_of_line line_starts_loop_last line_starts_loop_line)

lemma length_line_starts [simp]: "length (line_starts content) = length (lines_of content)"
  using length_line_starts_loop by (simp add: line_starts_def)

lemma line_starts_nth:
  "n < length (lines_of content) \<Longrightarrow>
     line_starts content ! n = sum_list (map (\<lambda>l. length l + 1) (take n (lines_of content)))"
  using line_starts_loop_lines [of n content 0] by (simp add: line_starts_def)

lemma lines_of_nth:
  assumes "n < length (lines_of content)"
  shows "take (length (lines_of content ! n)) (drop (line_starts content ! n) content) = lines_of content ! n"
  unfolding line_starts_nth [OF assms] using assms
proof (induction content arbitrary: n rule: lines_induct)
  case (last front)
  then show ?case by (simp add: lines_of_last)
next
  case (line front rest)
  then show ?case by (cases n) (simp_all add: lines_of_line)
qed

lemma length_lines_of [simp]: "sum_list (map (\<lambda>l. Suc (length l)) (lines_of content)) = Suc (length content)"
  by (induction content rule: lines_induct) (simp_all add: lines_of_last lines_of_line)

lemma line_end:
  assumes "n < length (lines_of content)"
  shows "line_starts content ! n + length (lines_of content ! n)
    = (if n + 1 < length (lines_of content) then line_starts content ! (n + 1) - 1 else length content)"
proof (cases "n + 1 < length (lines_of content)")
  case True
  then show ?thesis using assms by (simp add: line_starts_nth take_Suc_conv_app_nth)
next
  case False
  with assms have n: "Suc n = length (lines_of content)" by simp
  have "take (Suc n) (lines_of content) = lines_of content" by (simp add: n)
  then have "sum_list (map (\<lambda>l. length l + 1) (take n (lines_of content))) + length (lines_of content ! n) + 1
      = sum_list (map (\<lambda>l. length l + 1) (lines_of content))"
    using take_Suc_conv_app_nth [OF assms]
    by (metis (no_types, lifting) add.assoc list.simps(8,9) map_append sum_list.append sum_list.Cons
        sum_list.Nil add.right_neutral)
  with False show ?thesis by (simp add: line_starts_nth [OF assms])
qed

section \<open>The bitmap of lines past ASCII\<close>

definition line_bit :: "64 word list \<Rightarrow> nat \<Rightarrow> bool" where
  "line_bit bits n \<longleftrightarrow> n div 64 < length bits \<and> bit (bits ! (n div 64)) (n mod 64)"

lemma line_bit_set: "line_bit (set_line_bit bits line) n \<longleftrightarrow> line_bit bits n \<or> n = line"
proof -
  define bits' where "bits' = bits @ replicate (max (length bits) (line div 64 + 1) - length bits) 0"
  have l: "length bits' = max (length bits) (line div 64 + 1)" by (simp add: bits'_def)
  have s: "set_line_bit bits line = bits'[line div 64 := bits' ! (line div 64) OR push_bit (line mod 64) 1]"
    unfolding set_line_bit_def Let_def bits'_def ..
  have b: "line_bit bits' n \<longleftrightarrow> line_bit bits n" for n
    by (auto simp: line_bit_def bits'_def nth_append)
  have eq: "n = line \<longleftrightarrow> n div 64 = line div 64 \<and> n mod 64 = line mod 64" for n
    by (metis mult_div_mod_eq)
  have "line_bit (set_line_bit bits line) n \<longleftrightarrow> line_bit bits' n \<or> n = line"
    unfolding eq by (cases "n div 64 = line div 64") (auto simp: s line_bit_def l bit_simps)
  with b show ?thesis by simp
qed

text \<open>The words end at the last line with a bit set, for lines set in ascending order.\<close>

lemma set_line_bit_last:
  assumes "length bits \<le> line div 64 + 1"
  shows "length (set_line_bit bits line) = line div 64 + 1" "last (set_line_bit bits line) \<noteq> 0"
proof -
  show l: "length (set_line_bit bits line) = line div 64 + 1"
    using assms by (simp add: set_line_bit_def Let_def max_def)
  have "bit (set_line_bit bits line ! (line div 64)) (line mod 64)"
    using line_bit_set [of bits line line] by (simp add: line_bit_def)
  moreover have "last (set_line_bit bits line) = set_line_bit bits line ! (line div 64)"
    using l by (simp add: last_conv_nth flip: length_0_conv)
  ultimately show "last (set_line_bit bits line) \<noteq> 0" by auto
qed

lemma find_char_absent: "x \<notin> set front \<Longrightarrow> find_char (\<lambda>c. c = x) front = None"
  by (induction front) auto

lemma non_ascii_loop_last: "CHR 0x0A \<notin> set front \<Longrightarrow>
    non_ascii_loop bits line front = (if is_ascii front then bits else set_line_bit bits line)"
  by (subst non_ascii_loop.simps) (simp add: find_char_absent)

lemma find_char_front: "x \<notin> set front \<Longrightarrow> find_char (\<lambda>c. c = x) (front @ x # rest) = Some (length front)"
  by (induction front) auto

lemma non_ascii_loop_line: "CHR 0x0A \<notin> set front \<Longrightarrow>
    non_ascii_loop bits line (front @ CHR 0x0A # rest)
      = non_ascii_loop (if is_ascii front then bits else set_line_bit bits line) (line + 1) rest"
  by (subst non_ascii_loop.simps) (simp add: find_char_front)

lemma line_bit_non_ascii_loop:
  "line_bit (non_ascii_loop bits line content) n \<longleftrightarrow> line_bit bits n
     \<or> (line \<le> n \<and> n - line < length (lines_of content) \<and> \<not> is_ascii (lines_of content ! (n - line)))"
proof (induction content arbitrary: bits line rule: lines_induct)
  case (last front)
  then show ?case by (auto simp: non_ascii_loop_last lines_of_last line_bit_set)
next
  case (line front rest)
  consider "n < line" | "n = line" | k where "n = line + Suc k"
    by (metis less_iff_Suc_add not_less_iff_gr_or_eq add_Suc_right)
  then show ?case
    by cases (use line.IH in \<open>auto simp: non_ascii_loop_line [OF line.hyps] lines_of_line [OF line.hyps] line_bit_set\<close>)
qed

lemma non_ascii_loop_ends:
  assumes "length bits \<le> line div 64 + 1" "bits = [] \<or> last bits \<noteq> 0"
  shows "non_ascii_loop bits line content = [] \<or> last (non_ascii_loop bits line content) \<noteq> 0"
  using assms
proof (induction content arbitrary: bits line rule: lines_induct)
  case (last front)
  then show ?case using set_line_bit_last(2) by (simp add: non_ascii_loop_last)
next
  case (line front rest)
  have "line div 64 + 1 \<le> (line + 1) div 64 + 1" by (simp add: div_le_mono)
  with line.prems show ?case
    unfolding non_ascii_loop_line [OF line.hyps]
    by (intro line.IH) (auto simp: set_line_bit_last(1) set_line_bit_last(2))
qed

lemma non_ascii_lines_bit:
  "n < length (lines_of content) \<Longrightarrow>
     line_bit (non_ascii_lines content) n \<longleftrightarrow> \<not> is_ascii (lines_of content ! n)"
  by (simp add: non_ascii_lines_def line_bit_non_ascii_loop line_bit_def [of "[]"])

end
