(* ===== verification/Lsp_Position.thy ===== *)
theory Lsp_Position
  imports Lsp_Text
begin

text \<open>
  The conversions between byte offsets and positions of the Language Server Protocol
  (\<^verbatim>\<open>include/kotatsu/ipc/lsp/position.h\<close>, \<^verbatim>\<open>src/ipc/lsp/position.cpp\<close>; the
  structures are those of \<^verbatim>\<open>range.h\<close>). A line table is a list of offsets. What the caller
  knows of the ASCII lines is a predicate or a bitmap, as the concept \<^verbatim>\<open>ascii_lines\<close>
  allows. Reads of \<^verbatim>\<open>lines\<close> and of the text are in range wherever the table is one of
  the text (\<^verbatim>\<open>line_table\<close> below).
\<close>

section \<open>The code\<close>

record Position =
  pos_line :: nat
  pos_character :: nat

record Range =
  range_start :: Position
  range_end :: Position

record OffsetRange =
  offset_begin :: nat
  offset_end :: nat

datatype ascii_lines = Predicate "nat \<Rightarrow> bool" | Bitmap "64 word list"

definition all_ascii :: ascii_lines where
  "all_ascii = Predicate (\<lambda>line. True)"

text \<open>\<^verbatim>\<open>std::ranges::upper_bound\<close>: the first element past the offset.\<close>

definition line_of :: "nat list \<Rightarrow> nat \<Rightarrow> nat" where
  "line_of lines offset = length (takeWhile (\<lambda>start. start \<le> offset) lines) - 1"

definition unknown_ascii :: ascii_lines where
  "unknown_ascii = Predicate (\<lambda>line. False)"

record Line =
  number :: nat
  line_start :: nat
  line_stop :: nat
  line_ascii :: bool

text \<open>\<^verbatim>\<open>content.substr(line.start, line.end - line.start)\<close>.\<close>

definition line_text :: "string \<Rightarrow> Line \<Rightarrow> string" where
  "line_text content line = take (line_stop line - line_start line) (drop (line_start line) content)"

definition position_in :: "string \<Rightarrow> Line \<Rightarrow> nat \<Rightarrow> PositionEncoding \<Rightarrow> Position" where
  "position_in content line offset encoding =
     (let column = min offset (line_stop line) - line_start line;
          column = (if \<not> line_ascii line
                    then encoded_length
                      (take (located (locate (line_text content line) column UTF8)) (line_text content line))
                      encoding
                    else column)
      in \<lparr>pos_line = number line, pos_character = column\<rparr>)"

definition offset_in :: "string \<Rightarrow> Line \<Rightarrow> nat \<Rightarrow> PositionEncoding \<Rightarrow> Located" where
  "offset_in content line character encoding =
     (if line_ascii line
      then \<lparr>located = line_start line + min character (line_stop line - line_start line), exact = True\<rparr>
      else let found = locate (line_text content line) character encoding;
               offset = line_start line + located found
           in \<lparr>located = offset, exact = exact found \<or> offset = line_stop line\<rparr>)"

fun known_ascii :: "ascii_lines \<Rightarrow> nat \<Rightarrow> bool" where
  "known_ascii (Predicate ascii) line \<longleftrightarrow> ascii line"
| "known_ascii (Bitmap bits) line \<longleftrightarrow>
     line div 64 \<ge> length bits \<or> and (drop_bit (line mod 64) (bits ! (line div 64))) 1 = 0"

definition line_at :: "nat list \<Rightarrow> nat \<Rightarrow> nat \<Rightarrow> ascii_lines \<Rightarrow> (nat \<Rightarrow> nat \<Rightarrow> bool) \<Rightarrow> Line" where
  "line_at lines num bytes ascii crlf =
     (let line = \<lparr>number = num, line_start = lines ! num, line_stop = bytes,
                   line_ascii = known_ascii ascii num\<rparr>
      in if num + 1 < length lines
         then let line = line\<lparr>line_stop := lines ! (num + 1) - 1\<rparr>
              in if line_stop line > line_start line \<and> crlf num (line_stop line)
                 then line\<lparr>line_stop := line_stop line - 1\<rparr> else line
         else line)"

definition crlf_read :: "string \<Rightarrow> nat \<Rightarrow> nat \<Rightarrow> bool" where
  "crlf_read content line newline \<longleftrightarrow> content ! (newline - 1) = CHR 0x0D"

definition crlf_told :: "(nat \<Rightarrow> bool) \<Rightarrow> nat \<Rightarrow> nat \<Rightarrow> bool" where
  "crlf_told crlf line newline \<longleftrightarrow> crlf line"

definition position_of ::
    "string \<Rightarrow> nat \<Rightarrow> nat list \<Rightarrow> nat \<Rightarrow> PositionEncoding \<Rightarrow> ascii_lines \<Rightarrow> (nat \<Rightarrow> nat \<Rightarrow> bool) \<Rightarrow> Position option" where
  "position_of content bytes lines offset encoding ascii crlf =
     (if offset > bytes then None
      else Some (position_in content (line_at lines (line_of lines offset) bytes ascii crlf) offset encoding))"

definition offset_of ::
    "string \<Rightarrow> nat \<Rightarrow> nat list \<Rightarrow> Position \<Rightarrow> PositionEncoding \<Rightarrow> ascii_lines \<Rightarrow> (nat \<Rightarrow> nat \<Rightarrow> bool) \<Rightarrow> Located" where
  "offset_of content bytes lines position encoding ascii crlf =
     (if pos_line position \<ge> length lines then \<lparr>located = bytes, exact = False\<rparr>
      else offset_in content (line_at lines (pos_line position) bytes ascii crlf)
             (pos_character position) encoding)"

text \<open>The start of a range has a position where its end has one: \<^const>\<open>the\<close> is the code's \<^verbatim>\<open>*\<close>.\<close>

definition range_of ::
    "string \<Rightarrow> nat \<Rightarrow> nat list \<Rightarrow> nat \<Rightarrow> nat \<Rightarrow> PositionEncoding \<Rightarrow> ascii_lines \<Rightarrow> (nat \<Rightarrow> nat \<Rightarrow> bool) \<Rightarrow> Range option" where
  "range_of content bytes lines from till encoding ascii crlf =
     (if from > till then None
      else case position_of content bytes lines till encoding ascii crlf of
        None \<Rightarrow> None
      | Some stop \<Rightarrow>
          Some \<lparr>range_start = the (position_of content bytes lines from encoding ascii crlf),
                range_end = stop\<rparr>)"

definition offset_range_of ::
    "string \<Rightarrow> nat \<Rightarrow> nat list \<Rightarrow> Range \<Rightarrow> PositionEncoding \<Rightarrow> ascii_lines \<Rightarrow> (nat \<Rightarrow> nat \<Rightarrow> bool) \<Rightarrow> OffsetRange" where
  "offset_range_of content bytes lines r encoding ascii crlf =
     (let from = located (offset_of content bytes lines (range_start r) encoding ascii crlf);
          till = located (offset_of content bytes lines (range_end r) encoding ascii crlf)
      in \<lparr>offset_begin = min from till, offset_end = max from till\<rparr>)"

subsection \<open>Over a text and its line starts\<close>

definition to_position :: "string \<Rightarrow> nat list \<Rightarrow> nat \<Rightarrow> PositionEncoding \<Rightarrow> ascii_lines \<Rightarrow> Position option" where
  "to_position content lines offset encoding ascii =
     position_of content (u32 (length content)) lines offset encoding ascii (crlf_read content)"

definition to_offset :: "string \<Rightarrow> nat list \<Rightarrow> Position \<Rightarrow> PositionEncoding \<Rightarrow> ascii_lines \<Rightarrow> nat option" where
  "to_offset content lines position encoding ascii =
     (let found = offset_of content (u32 (length content)) lines position encoding ascii (crlf_read content)
      in if \<not> exact found then None else Some (located found))"

definition to_offset_clamped :: "string \<Rightarrow> nat list \<Rightarrow> Position \<Rightarrow> PositionEncoding \<Rightarrow> ascii_lines \<Rightarrow> nat" where
  "to_offset_clamped content lines position encoding ascii =
     located (offset_of content (u32 (length content)) lines position encoding ascii (crlf_read content))"

definition to_range :: "string \<Rightarrow> nat list \<Rightarrow> nat \<Rightarrow> nat \<Rightarrow> PositionEncoding \<Rightarrow> ascii_lines \<Rightarrow> Range option" where
  "to_range content lines from till encoding ascii =
     range_of content (u32 (length content)) lines from till encoding ascii (crlf_read content)"

definition to_offset_range :: "string \<Rightarrow> nat list \<Rightarrow> Range \<Rightarrow> PositionEncoding \<Rightarrow> ascii_lines \<Rightarrow> OffsetRange" where
  "to_offset_range content lines r encoding ascii =
     offset_range_of content (u32 (length content)) lines r encoding ascii (crlf_read content)"

subsection \<open>Over a text alone\<close>

definition to_position_text :: "string \<Rightarrow> nat \<Rightarrow> PositionEncoding \<Rightarrow> Position option" where
  "to_position_text content offset encoding =
     to_position content (line_starts content) offset encoding unknown_ascii"

definition to_offset_text :: "string \<Rightarrow> Position \<Rightarrow> PositionEncoding \<Rightarrow> nat option" where
  "to_offset_text content position encoding =
     to_offset content (line_starts content) position encoding unknown_ascii"

definition to_offset_clamped_text :: "string \<Rightarrow> Position \<Rightarrow> PositionEncoding \<Rightarrow> nat" where
  "to_offset_clamped_text content position encoding =
     to_offset_clamped content (line_starts content) position encoding unknown_ascii"

definition to_range_text :: "string \<Rightarrow> nat \<Rightarrow> nat \<Rightarrow> PositionEncoding \<Rightarrow> Range option" where
  "to_range_text content from till encoding =
     to_range content (line_starts content) from till encoding unknown_ascii"

definition to_offset_range_text :: "string \<Rightarrow> Range \<Rightarrow> PositionEncoding \<Rightarrow> OffsetRange" where
  "to_offset_range_text content r encoding =
     to_offset_range content (line_starts content) r encoding unknown_ascii"

subsection \<open>Over a text known by its size and line starts\<close>

definition to_position_sized :: "nat \<Rightarrow> nat list \<Rightarrow> nat \<Rightarrow> (nat \<Rightarrow> bool) \<Rightarrow> Position option" where
  "to_position_sized bytes lines offset crlf =
     position_of [] bytes lines offset UTF8 all_ascii (crlf_told crlf)"

definition to_offset_sized :: "nat \<Rightarrow> nat list \<Rightarrow> Position \<Rightarrow> (nat \<Rightarrow> bool) \<Rightarrow> nat option" where
  "to_offset_sized bytes lines position crlf =
     (let found = offset_of [] bytes lines position UTF8 all_ascii (crlf_told crlf)
      in if \<not> exact found then None else Some (located found))"

definition to_offset_clamped_sized :: "nat \<Rightarrow> nat list \<Rightarrow> Position \<Rightarrow> (nat \<Rightarrow> bool) \<Rightarrow> nat" where
  "to_offset_clamped_sized bytes lines position crlf =
     located (offset_of [] bytes lines position UTF8 all_ascii (crlf_told crlf))"

definition to_range_sized :: "nat \<Rightarrow> nat list \<Rightarrow> nat \<Rightarrow> nat \<Rightarrow> (nat \<Rightarrow> bool) \<Rightarrow> Range option" where
  "to_range_sized bytes lines from till crlf =
     range_of [] bytes lines from till UTF8 all_ascii (crlf_told crlf)"

definition to_offset_range_sized :: "nat \<Rightarrow> nat list \<Rightarrow> Range \<Rightarrow> (nat \<Rightarrow> bool) \<Rightarrow> OffsetRange" where
  "to_offset_range_sized bytes lines r crlf =
     offset_range_of [] bytes lines r UTF8 all_ascii (crlf_told crlf)"


section \<open>Line tables\<close>

text \<open>The line starts of a text of \<^verbatim>\<open>bytes\<close> bytes: the first 0, ascending, within it.\<close>

definition line_table :: "nat list \<Rightarrow> nat \<Rightarrow> bool" where
  "line_table lines bytes \<longleftrightarrow>
     lines \<noteq> [] \<and> lines ! 0 = 0 \<and> sorted_wrt (<) lines \<and> (\<forall>start\<in>set lines. start \<le> bytes)"

lemma line_starts_loop_sorted:
  "sorted_wrt (<) (line_starts_loop content i) \<and> (\<forall>s\<in>set (line_starts_loop content i). i < s \<and> s \<le> i + length content)"
proof (induction content arbitrary: i)
  case (Cons c content)
  from Cons.IH [of "i + 1"] show ?case by (auto simp: Suc_le_eq dest: Suc_lessD)
qed simp

lemma line_table_line_starts: "line_table (line_starts content) (length content)"
  using line_starts_loop_sorted [of content 0] by (auto simp: line_table_def line_starts_def)

lemma line_of_bounds:
  assumes "line_table lines bytes"
  shows "line_of lines offset < length lines" "lines ! line_of lines offset \<le> offset"
proof -
  obtain rest where l: "lines = 0 # rest" using assms by (cases lines) (auto simp: line_table_def)
  have t: "length (takeWhile (\<lambda>start. start \<le> offset) lines) \<le> length lines"
    by (rule length_takeWhile_le)
  then show "line_of lines offset < length lines" by (simp add: line_of_def l)
  have less: "line_of lines offset < length (takeWhile (\<lambda>start. start \<le> offset) lines)"
    by (simp add: line_of_def l)
  from nth_mem [OF less] show "lines ! line_of lines offset \<le> offset"
    by (auto simp: takeWhile_nth [OF less] dest: set_takeWhileD)
qed

text \<open>The line an offset is in is the number of newlines before it.\<close>

lemma line_of_loop:
  "i \<le> offset \<Longrightarrow> length (takeWhile (\<lambda>start. start \<le> offset) (line_starts_loop content i))
     = count_list (take (offset - i) content) (CHR 0x0A)"
proof (induction content arbitrary: i)
  case (Cons c content)
  show ?case
  proof (cases "i < offset")
    case True
    then have "offset - i = Suc (offset - Suc i)" by simp
    with Cons.IH [of "Suc i"] True show ?thesis by simp
  next
    case False
    then have "takeWhile (\<lambda>start. start \<le> offset) (line_starts_loop (c # content) i) = []"
      using line_starts_loop_sorted [of "c # content" i] by (cases "line_starts_loop (c # content) i") auto
    with False show ?thesis by (simp del: line_starts_loop.simps)
  qed
qed simp

lemma line_of_line_starts: "line_of (line_starts content) offset = count_list (take offset content) (CHR 0x0A)"
  using line_of_loop [of 0 offset content] by (simp add: line_of_def line_starts_def)

lemma line_at_sels [simp]:
  "number (line_at lines num bytes ascii crlf) = num"
  "line_start (line_at lines num bytes ascii crlf) = lines ! num"
  "line_ascii (line_at lines num bytes ascii crlf) = known_ascii ascii num"
  by (simp_all add: line_at_def Let_def)

lemma line_table_less:
  "line_table lines bytes \<Longrightarrow> i < j \<Longrightarrow> j < length lines \<Longrightarrow> lines ! i < lines ! j"
  by (simp add: line_table_def sorted_wrt_nth_less)

lemma line_at_stop:
  assumes "line_table lines bytes" "num < length lines"
  shows "lines ! num \<le> line_stop (line_at lines num bytes ascii crlf)"
    "line_stop (line_at lines num bytes ascii crlf) \<le> bytes"
    "num + 1 < length lines \<Longrightarrow> line_stop (line_at lines num bytes ascii crlf) < lines ! (num + 1)"
proof -
  have n: "lines ! num \<le> bytes" using assms by (auto simp: line_table_def)
  have m: "lines ! num < lines ! (num + 1)" "lines ! (num + 1) \<le> bytes" if "num + 1 < length lines"
    using assms that line_table_less [OF assms(1), of num "num + 1"] by (auto simp: line_table_def)
  show "lines ! num \<le> line_stop (line_at lines num bytes ascii crlf)"
    "line_stop (line_at lines num bytes ascii crlf) \<le> bytes"
    "num + 1 < length lines \<Longrightarrow> line_stop (line_at lines num bytes ascii crlf) < lines ! (num + 1)"
    using n m by (auto simp: line_at_def Let_def)
qed

section \<open>Conversions within a line\<close>

text \<open>Cutting a text at a code point cuts its code points there.\<close>

lemma next_codepoint_sizes_append:
  assumes "s \<noteq> []" "fst (next_codepoint_sizes (s @ t) 0) \<le> length s"
  shows "next_codepoint_sizes s 0 = next_codepoint_sizes (s @ t) 0"
proof (cases "seq_valid (decode_utf8 (s @ t))")
  case True
  define q where "q = decode_utf8 (s @ t)"
  have v: "spells False (s @ t) q" using True decode_valid by (simp add: q_def decode_utf8_def)
  then have cp: "is_code_point False (code_point q)" "seq_length q = length (encode_code_point (code_point q))"
    "take (seq_length q) (s @ t) = encode_code_point (code_point q)" by (auto simp: spells_def)
  have "seq_length q \<le> length s"
    using assms(2) True by (simp add: next_codepoint_sizes_def q_def Let_def)
  with cp(2,3) have "take (length (encode_code_point (code_point q))) s = encode_code_point (code_point q)"
    by simp
  then have s: "s = encode_code_point (code_point q) @ drop (length (encode_code_point (code_point q))) s"
    by (metis append_take_drop_id)
  have "decode_utf8 s = q"
    by (subst s) (use decode_encode [OF cp(1)] cp(2) True in \<open>simp add: decode_utf8_def q_def\<close>)
  then show ?thesis by (simp add: next_codepoint_sizes_def q_def)
next
  case False
  have "\<not> seq_valid (decode_utf8 s)"
  proof
    assume "seq_valid (decode_utf8 s)"
    then have "spells False s (decode_utf8 s)" using decode_valid by (simp add: decode_utf8_def)
    then obtain cp rest where c: "is_code_point False cp" "s = encode_code_point cp @ rest"
      unfolding spells_def by (metis append_take_drop_id)
    with False show False by (simp add: decode_utf8_def decode_encode)
  qed
  with False show ?thesis by (simp add: next_codepoint_sizes_def)
qed

lemma code_points_take:
  assumes "code_points text = ps @ qs"
  shows "code_points (take (widths UTF8 ps) text) = ps"
  using assms
proof (induction ps arbitrary: "text")
  case (Cons p ps)
  then have c: "code_points text = p # ps @ qs" by simp
  note s = code_points_Cons [OF c]
  define t where "t = take (widths UTF8 (p # ps)) text"
  have w: "widths UTF8 (p # ps) \<le> length text" by (rule code_points_append(2) [OF Cons.prems])
  have l: "length t = fst p + widths UTF8 ps" using w by (simp add: t_def width_def)
  have ne: "t \<noteq> []" using l s(4) [of UTF8] by (auto simp: width_def)
  have "text = t @ drop (widths UTF8 (p # ps)) text" by (simp add: t_def)
  then have "next_codepoint_sizes t 0 = p"
    using next_codepoint_sizes_append [OF ne] l s(2) by (metis le_add1)
  moreover have "drop (fst p) t = take (widths UTF8 ps) (drop (fst p) text)"
    by (simp add: t_def width_def drop_take)
  ultimately have "code_points t = p # code_points (take (widths UTF8 ps) (drop (fst p) text))"
    using ne by (subst code_points.simps) (simp add: Let_def)
  with Cons.IH [OF s(3)] show ?case by (simp add: t_def)
qed simp

lemma locate_cut:
  assumes "length text < 2 ^ 32"
  obtains ps qs where "code_points text = ps @ qs" "located (locate text n e) = widths UTF8 ps"
    "widths e ps \<le> n" "qs = [] \<or> n < widths e ps + width e (hd qs)"
    "exact (locate text n e) \<longleftrightarrow> n = widths e ps"
proof (cases rule: unit_cases [of "code_points text" n e])
  case (at ps qs)
  have "qs = [] \<or> 0 < width e (hd qs)"
    using code_points_append(1) [OF at(1)] code_points_Cons(4) by (cases qs) auto
  with at locate_at [OF assms at(1), of e] show thesis by (intro that) auto
next
  case (inside ps p qs k)
  with locate_inside [OF assms inside(1-3)] show thesis by (intro that [of ps "p # qs"]) auto
next
  case past
  with locate_past [OF assms past] show thesis
    by (intro that [of "code_points text" "[]"]) (auto simp: widths_code_points)
qed

lemma locate_cuts:
  assumes "length text < 2 ^ 32" "m \<le> n"
  obtains ps us qs where "code_points text = ps @ us @ qs" "located (locate text m e) = widths UTF8 ps"
    "located (locate text n e) = widths UTF8 (ps @ us)"
proof -
  obtain ps qs where p: "code_points text = ps @ qs" "located (locate text m e) = widths UTF8 ps"
    "widths e ps \<le> m" by (rule locate_cut [OF assms(1), of m e])
  obtain ps' qs' where q: "code_points text = ps' @ qs'" "located (locate text n e) = widths UTF8 ps'"
    "qs' = [] \<or> n < widths e ps' + width e (hd qs')" by (rule locate_cut [OF assms(1), of n e])
  from p(1) q(1) have "ps @ qs = ps' @ qs'" by simp
  then consider us where "ps' = ps @ us" | us where "ps = ps' @ us" "qs' = us @ qs"
    by (auto simp: append_eq_append_conv2)
  then show thesis
  proof cases
    case 1
    then show ?thesis using p q by (intro that [of ps us qs']) auto
  next
    case 2
    then show ?thesis using p q assms(2) by (cases us) (auto intro: that [of ps "[]" qs])
  qed
qed

lemma locate_mono:
  assumes "length text < 2 ^ 32" "m \<le> n"
  shows "located (locate text m e) \<le> located (locate text n e)"
  by (rule locate_cuts [OF assms, of e]) simp

lemma locate_le: "length text < 2 ^ 32 \<Longrightarrow> located (locate text n e) \<le> length text"
  by (rule locate_cut [of "text" n e]) (auto dest: code_points_append(2))

text \<open>A line within a text the offsets of which fit in 32 bits.\<close>

definition line_within :: "string \<Rightarrow> Line \<Rightarrow> bool" where
  "line_within content line \<longleftrightarrow>
     line_start line \<le> line_stop line \<and> line_stop line \<le> length content \<and> length content < 2 ^ 32"

lemma line_at_within:
  "line_table lines (length content) \<Longrightarrow> length content < 2 ^ 32 \<Longrightarrow> num < length lines \<Longrightarrow>
     line_within content (line_at lines num (length content) ascii crlf)"
  using line_at_stop by (simp add: line_within_def)

lemma length_line_text:
  "line_within content line \<Longrightarrow> length (line_text content line) = line_stop line - line_start line"
  by (auto simp: line_text_def line_within_def min_def)

lemma line_text_small: "line_within content line \<Longrightarrow> length (line_text content line) < 2 ^ 32"
  by (simp add: length_line_text) (auto simp: line_within_def)

lemma encoded_length_cut:
  assumes "line_within content line" "code_points (line_text content line) = ps @ qs"
  shows "encoded_length (take (widths UTF8 ps) (line_text content line)) e = widths e ps"
  using widths_le [of e "take (widths UTF8 ps) (line_text content line)"]
    line_text_small [OF assms(1)]
  by (simp add: encoded_length_widths code_points_take [OF assms(2)])

lemma widths_replicate: "widths e (replicate n (Suc 0, Suc 0)) = n"
  by (induction n) (auto simp: width_def split: PositionEncoding.split)

lemma locate_ascii:
  assumes "is_ascii text" "length text < 2 ^ 32"
  shows "locate text n e = \<lparr>located = min n (length text), exact = n \<le> length text\<rparr>"
proof (cases "n \<le> length text")
  case True
  then have "code_points text = replicate n (1, 1) @ replicate (length text - n) (1, 1)"
    using assms by (simp add: code_points_ascii flip: replicate_add)
  from locate_at [OF assms(2) this, of e] True show ?thesis by (simp add: widths_replicate)
next
  case False
  with locate_past [OF assms(2), of e n] assms show ?thesis
    by (simp add: code_points_ascii widths_replicate)
qed

text \<open>A line of ASCII converts alike whether or not it is known to be one.\<close>

lemma position_in_ascii:
  assumes "line_within content line" "is_ascii (line_text content line)" "line_start line \<le> offset"
  shows "position_in content line offset e
    = \<lparr>pos_line = number line, pos_character = min offset (line_stop line) - line_start line\<rparr>"
proof -
  define n where "n = min offset (line_stop line) - line_start line"
  have n: "n \<le> length (line_text content line)" unfolding n_def by (simp add: length_line_text [OF assms(1)])
  have "is_ascii (take n (line_text content line))"
    using assms(2) by (auto simp: is_ascii_iff dest: in_set_takeD)
  then have "encoded_length (take n (line_text content line)) e = n"
    using n line_text_small [OF assms(1)] by (simp add: encoded_length_widths code_points_ascii widths_replicate)
  then show ?thesis
    using n by (simp add: position_in_def Let_def n_def [symmetric] min_absorb1
        locate_ascii [OF assms(2) line_text_small [OF assms(1)]])
qed

lemma offset_in_ascii:
  assumes "line_within content line" "is_ascii (line_text content line)"
  shows "offset_in content line character e
    = \<lparr>located = line_start line + min character (line_stop line - line_start line), exact = True\<rparr>"
  using assms(1) locate_ascii [OF assms(2) line_text_small [OF assms(1)]]
  by (auto simp: offset_in_def Let_def length_line_text line_within_def)

text \<open>An offset converted to a position and back gives the start of its code point.\<close>

lemma offset_in_position_in:
  assumes within: "line_within content line" and ascii: "line_ascii line \<longrightarrow> is_ascii (line_text content line)"
    and start: "line_start line \<le> offset"
  obtains ps qs where "code_points (line_text content line) = ps @ qs"
    "position_in content line offset e = \<lparr>pos_line = number line, pos_character = widths e ps\<rparr>"
    "offset_in content line (widths e ps) e = \<lparr>located = line_start line + widths UTF8 ps, exact = True\<rparr>"
    "line_start line + widths UTF8 ps \<le> min offset (line_stop line)"
    "qs = [] \<or> min offset (line_stop line) < line_start line + widths UTF8 ps + fst (hd qs)"
proof -
  note small = line_text_small [OF within]
  define n where "n = min offset (line_stop line) - line_start line"
  have n: "line_start line + n = min offset (line_stop line)"
    using start within by (simp add: n_def line_within_def)
  obtain ps qs where p: "code_points (line_text content line) = ps @ qs"
    "located (locate (line_text content line) n UTF8) = widths UTF8 ps" "widths UTF8 ps \<le> n"
    "qs = [] \<or> n < widths UTF8 ps + width UTF8 (hd qs)"
    by (rule locate_cut [OF small, of n UTF8])
  have cut: "position_in content (line\<lparr>line_ascii := False\<rparr>) offset e
      = \<lparr>pos_line = number line, pos_character = widths e ps\<rparr>"
    "offset_in content (line\<lparr>line_ascii := False\<rparr>) (widths e ps) e
      = \<lparr>located = line_start line + widths UTF8 ps, exact = True\<rparr>"
    using p(2) encoded_length_cut [OF within p(1), of e] locate_at [OF small p(1), of e]
    by (simp_all add: position_in_def offset_in_def Let_def n_def line_text_def)
  have "position_in content line offset e = position_in content (line\<lparr>line_ascii := False\<rparr>) offset e"
    "offset_in content line (widths e ps) e = offset_in content (line\<lparr>line_ascii := False\<rparr>) (widths e ps) e"
  proof -
    have l: "line_within content (line\<lparr>line_ascii := False\<rparr>)"
      "line_text content (line\<lparr>line_ascii := False\<rparr>) = line_text content line"
      using within by (simp_all add: line_within_def line_text_def)
    have "\<not> line_ascii line \<Longrightarrow> line\<lparr>line_ascii := False\<rparr> = line" by (cases line) simp
    note l = l this
    show "position_in content line offset e = position_in content (line\<lparr>line_ascii := False\<rparr>) offset e"
      using ascii start by (cases "line_ascii line") (auto simp: position_in_ascii within l)
    show "offset_in content line (widths e ps) e = offset_in content (line\<lparr>line_ascii := False\<rparr>) (widths e ps) e"
      using ascii by (cases "line_ascii line") (auto simp: offset_in_ascii within l)
  qed
  with cut p n show thesis by (intro that [of ps qs]) (auto simp: width_def)
qed


section \<open>Conversions in a text\<close>

text \<open>What the caller says of the ASCII lines is true.\<close>

definition ascii_trusted :: "string \<Rightarrow> nat list \<Rightarrow> ascii_lines \<Rightarrow> bool" where
  "ascii_trusted content lines ascii \<longleftrightarrow>
     (\<forall>n<length lines. known_ascii ascii n \<longrightarrow>
        is_ascii (line_text content (line_at lines n (length content) ascii (crlf_read content))))"

lemma known_unknown [simp]: "\<not> known_ascii unknown_ascii n" "known_ascii all_ascii n"
  by (simp_all add: unknown_ascii_def all_ascii_def)

lemma ascii_trusted_unknown [simp]: "ascii_trusted content lines unknown_ascii"
  by (simp add: ascii_trusted_def)

lemma line_at_ascii_stop:
  "line_stop (line_at lines n bytes ascii crlf) = line_stop (line_at lines n bytes ascii' crlf)"
  by (simp add: line_at_def Let_def)

lemma line_text_line_at:
  "line_text content (line_at lines n bytes ascii crlf)
     = line_text content (line_at lines n bytes ascii' crlf)"
  using line_at_ascii_stop [of lines n bytes ascii crlf ascii'] by (simp add: line_text_def)

lemma known_ascii_bitmap: "known_ascii (Bitmap bits) n \<longleftrightarrow> \<not> line_bit bits n"
  by (auto simp: line_bit_def and_one_eq bit_iff_odd_drop_bit odd_iff_mod_2_eq_one)

text \<open>The text of a line is the line, without a carriage return at its end.\<close>

lemma line_text_line_starts:
  assumes "n < length (lines_of content)"
  shows "\<exists>k. line_text content (line_at (line_starts content) n (length content) ascii crlf)
    = take k (lines_of content ! n)"
proof -
  let ?line = "line_at (line_starts content) n (length content) ascii crlf"
  have stop: "line_stop ?line \<le> line_starts content ! n + length (lines_of content ! n)"
    unfolding line_end [OF assms] by (auto simp: line_at_def Let_def)
  define k where "k = line_stop ?line - line_starts content ! n"
  have "k \<le> length (lines_of content ! n)" using stop by (simp add: k_def)
  then have "take k (drop (line_starts content ! n) content)
      = take k (take (length (lines_of content ! n)) (drop (line_starts content ! n) content))"
    by (simp add: min_absorb1)
  then have "line_text content ?line = take k (lines_of content ! n)"
    by (simp add: line_text_def k_def lines_of_nth [OF assms])
  then show ?thesis ..
qed

lemma ascii_trusted_bitmap:
  "ascii_trusted content (line_starts content) (Bitmap (non_ascii_lines content))"
  unfolding ascii_trusted_def
proof (intro allI impI)
  fix n
  let ?line = "line_at (line_starts content) n (length content) (Bitmap (non_ascii_lines content))
    (crlf_read content)"
  assume n: "n < length (line_starts content)" and k: "known_ascii (Bitmap (non_ascii_lines content)) n"
  from n k have "is_ascii (lines_of content ! n)"
    using non_ascii_lines_bit known_ascii_bitmap by auto
  moreover obtain k where "line_text content ?line = take k (lines_of content ! n)"
    using line_text_line_starts n by fastforce
  ultimately show "is_ascii (line_text content ?line)"
    by (auto simp: is_ascii_iff dest: in_set_takeD)
qed

text \<open>
  The line starts of a text are where its lines, split at the newlines,
  are found; the line an offset is in is the number of newlines before it; and the bitmap says
  of every line whether it holds only ASCII, its words ending at the last line that does not.
\<close>

theorem line_lookup_correct:
  "(\<forall>n < length (line_starts content).
      take (length (lines_of content ! n)) (drop (line_starts content ! n) content) = lines_of content ! n
      \<and> (known_ascii (Bitmap (non_ascii_lines content)) n \<longleftrightarrow> is_ascii (lines_of content ! n)))
   \<and> line_of (line_starts content) offset = count_list (take offset content) (CHR 0x0A)
   \<and> (non_ascii_lines content = [] \<or> last (non_ascii_lines content) \<noteq> 0)"
  using non_ascii_loop_ends [of "[]" 0 content]
  by (simp add: lines_of_nth known_ascii_bitmap non_ascii_lines_bit line_of_line_starts
      del: known_ascii.simps) (simp add: non_ascii_lines_def)

theorem line_lookup_correct_witness:
  "line_starts [CHR ''a'', CHR 0x0A, CHR 0xC3, CHR 0xA9] ! 1 = 2
   \<and> \<not> known_ascii (Bitmap (non_ascii_lines [CHR ''a'', CHR 0x0A, CHR 0xC3, CHR 0xA9])) 1"
proof -
  let ?t = "[CHR ''a'', CHR 0x0A, CHR 0xC3, CHR 0xA9]"
  have "line_starts ?t = [0, 2]" by (simp add: line_starts_def)
  moreover have "\<not> is_ascii (lines_of ?t ! 1)" by (simp add: is_ascii_iff)
  ultimately show ?thesis using line_lookup_correct [of ?t 0] by auto
qed

text \<open>
  C15: in a text under 4 GiB with a line table, every offset has a position,
  on the line the offset is in, whose character counts the units of the code points before it;
  and that position converts back, exactly, to the start of the code point the offset lies in,
  or the end of the line's text for an offset in its line end: the offset itself at the start of
  a code point. The encoding does not matter, nor what is known of the ASCII lines, if it is true.
\<close>

theorem position_roundtrip:
  assumes "line_table lines (length content)" "length content < 2 ^ 32"
    "ascii_trusted content lines ascii" "offset \<le> length content"
  shows "\<exists>ps qs. let line = line_at lines (line_of lines offset) (length content) ascii (crlf_read content);
      position = \<lparr>pos_line = line_of lines offset, pos_character = widths e ps\<rparr>
    in code_points (line_text content line) = ps @ qs
       \<and> to_position content lines offset e ascii = Some position
       \<and> to_offset content lines position e ascii = Some (line_start line + widths UTF8 ps)
       \<and> line_start line + widths UTF8 ps \<le> min offset (line_stop line)
       \<and> (qs = [] \<or> min offset (line_stop line) < line_start line + widths UTF8 ps + fst (hd qs))"
proof -
  let ?line = "line_at lines (line_of lines offset) (length content) ascii (crlf_read content)"
  note l = line_of_bounds [OF assms(1), of offset]
  have "line_within content ?line" using assms(1,2) l(1) by (intro line_at_within)
  moreover have "line_ascii ?line \<longrightarrow> is_ascii (line_text content ?line)"
    using assms(3) l(1) by (simp add: ascii_trusted_def)
  moreover have "line_start ?line \<le> offset" using l(2) by simp
  ultimately obtain ps qs where p: "code_points (line_text content ?line) = ps @ qs"
    "position_in content ?line offset e = \<lparr>pos_line = number ?line, pos_character = widths e ps\<rparr>"
    "offset_in content ?line (widths e ps) e = \<lparr>located = line_start ?line + widths UTF8 ps, exact = True\<rparr>"
    "line_start ?line + widths UTF8 ps \<le> min offset (line_stop ?line)"
    "qs = [] \<or> min offset (line_stop ?line) < line_start ?line + widths UTF8 ps + fst (hd qs)"
    by (rule offset_in_position_in)
  show ?thesis unfolding Let_def
  proof (intro exI conjI)
    show "to_position content lines offset e ascii
        = Some \<lparr>pos_line = line_of lines offset, pos_character = widths e ps\<rparr>"
      using p(2) assms by (simp add: to_position_def position_of_def)
    show "to_offset content lines \<lparr>pos_line = line_of lines offset, pos_character = widths e ps\<rparr> e ascii
        = Some (line_start ?line + widths UTF8 ps)"
      using p(3) assms l(1) by (simp add: to_offset_def offset_of_def)
  qed (use p in auto)
qed


theorem position_roundtrip_witness:
  "\<exists>position. to_position [CHR ''a'', CHR 0x0A, CHR 0xC3, CHR 0xA9] [0, 2] 2 UTF16 unknown_ascii = Some position
     \<and> to_offset [CHR ''a'', CHR 0x0A, CHR 0xC3, CHR 0xA9] [0, 2] position UTF16 unknown_ascii = Some 2"
proof -
  let ?t = "[CHR ''a'', CHR 0x0A, CHR 0xC3, CHR 0xA9]"
  have t: "line_table [0, 2] (length ?t)" "length ?t < 2 ^ 32" "ascii_trusted ?t [0, 2] unknown_ascii"
    "2 \<le> length ?t" by (simp_all add: line_table_def)
  have "line_of [0, 2] 2 = 1" by (simp add: line_of_def)
  then show ?thesis using position_roundtrip [OF t, of UTF16] unfolding Let_def by force
qed

subsection \<open>Order\<close>

definition position_le :: "Position \<Rightarrow> Position \<Rightarrow> bool" where
  "position_le p q \<longleftrightarrow> pos_line p < pos_line q
     \<or> pos_line p = pos_line q \<and> pos_character p \<le> pos_character q"

lemma offset_in_bounds:
  assumes "line_within content line"
  shows "line_start line \<le> located (offset_in content line n e)"
    "located (offset_in content line n e) \<le> line_stop line"
  using assms locate_le [OF line_text_small [OF assms], of n e] length_line_text [OF assms]
  by (auto simp: offset_in_def Let_def line_within_def)

lemma offset_in_mono:
  assumes "line_within content line" "m \<le> n"
  shows "located (offset_in content line m e) \<le> located (offset_in content line n e)"
  using locate_mono [OF line_text_small [OF assms(1)] assms(2), of e] assms(2)
  by (auto simp: offset_in_def Let_def)

lemma line_at_order:
  assumes "line_table lines bytes" "m < n" "n < length lines"
  shows "line_stop (line_at lines m bytes ascii crlf) \<le> lines ! n"
proof -
  have "line_stop (line_at lines m bytes ascii crlf) < lines ! (m + 1)"
    using assms by (intro line_at_stop(3)) auto
  moreover have "lines ! (m + 1) \<le> lines ! n"
    using assms line_table_less [OF assms(1), of "m + 1" n] by (cases "m + 1 = n") auto
  ultimately show ?thesis by simp
qed

lemma offset_of_le:
  assumes "line_table lines (length content)" "length content < 2 ^ 32"
  shows "located (offset_of content (length content) lines p e ascii crlf) \<le> length content"
proof (cases "pos_line p < length lines")
  case True
  with offset_in_bounds(2) [OF line_at_within [OF assms True], of ascii crlf "pos_character p" e]
    line_at_stop(2) [OF assms(1) True, of ascii crlf] show ?thesis by (simp add: offset_of_def)
qed (simp add: offset_of_def)

lemma offset_of_mono:
  assumes "line_table lines (length content)" "length content < 2 ^ 32" "position_le p q"
  shows "located (offset_of content (length content) lines p e ascii crlf)
    \<le> located (offset_of content (length content) lines q e ascii crlf)"
proof -
  let ?line = "\<lambda>n. line_at lines n (length content) ascii crlf"
  have w: "line_within content (?line n)" if "n < length lines" for n
    using that assms(1,2) by (intro line_at_within)
  have top: "located (offset_of content (length content) lines p e ascii crlf) \<le> length content"
    by (rule offset_of_le [OF assms(1,2)])
  consider "length lines \<le> pos_line q" | "pos_line q < length lines" "pos_line p < pos_line q"
    | "pos_line q < length lines" "pos_line p = pos_line q" "pos_character p \<le> pos_character q"
    using assms(3) not_less unfolding position_le_def by blast
  then show ?thesis
  proof cases
    case 1
    with top show ?thesis by (simp add: offset_of_def)
  next
    case 2
    have "located (offset_in content (?line (pos_line p)) (pos_character p) e) \<le> lines ! pos_line q"
      using offset_in_bounds(2) [OF w, of "pos_line p"] 2 line_at_order [OF assms(1) 2(2,1)]
      by (meson order_trans less_trans)
    with 2 offset_in_bounds(1) [OF w [OF 2(1)], of "pos_character q" e] show ?thesis
      by (simp add: offset_of_def)
  next
    case 3
    with offset_in_mono [OF w [OF 3(1)] 3(3)] show ?thesis by (simp add: offset_of_def)
  qed
qed

lemma line_of_mono:
  assumes "m \<le> n"
  shows "line_of lines m \<le> line_of lines n"
proof -
  have "length (takeWhile (\<lambda>s. s \<le> m) lines) \<le> length (takeWhile (\<lambda>s. s \<le> n) lines)"
    using assms by (induction lines) auto
  then show ?thesis by (simp add: line_of_def diff_le_mono)
qed

lemma position_in_mono:
  assumes "line_within content line" "m \<le> n"
  shows "pos_character (position_in content line m e) \<le> pos_character (position_in content line n e)"
proof -
  define m' n' where "m' = min m (line_stop line) - line_start line"
    and "n' = min n (line_stop line) - line_start line"
  have le: "m' \<le> n'" unfolding m'_def n'_def using assms(2) by (intro diff_le_mono) auto
  obtain ps us qs where p: "code_points (line_text content line) = ps @ us @ qs"
    "located (locate (line_text content line) m' UTF8) = widths UTF8 ps"
    "located (locate (line_text content line) n' UTF8) = widths UTF8 (ps @ us)"
    by (rule locate_cuts [OF line_text_small [OF assms(1)] le, of UTF8])
  from encoded_length_cut [OF assms(1) p(1), of e]
    encoded_length_cut [OF assms(1), of "ps @ us" qs e] p le show ?thesis
    by (simp add: position_in_def Let_def m'_def [symmetric] n'_def [symmetric])
qed

text \<open>
  In a text under 4 GiB with a line table, the conversions keep the
  order: a later position has no earlier offset, and an offset no later than another, within the
  text, has no later position; every clamped offset is within the text, so that a range converts
  to bytes within it, the first no later than the last, and back to a range whose start is not
  past its end.
\<close>

lemma conversions_ordered:
  assumes "line_table lines (length content)" "length content < 2 ^ 32"
  shows "to_offset_clamped content lines p e ascii \<le> length content
    \<and> (position_le p q \<longrightarrow>
         to_offset_clamped content lines p e ascii \<le> to_offset_clamped content lines q e ascii
         \<and> to_offset_range content lines \<lparr>range_start = p, range_end = q\<rparr> e ascii
           = \<lparr>offset_begin = to_offset_clamped content lines p e ascii,
              offset_end = to_offset_clamped content lines q e ascii\<rparr>)
    \<and> (from \<le> till \<and> till \<le> length content \<longrightarrow>
         (\<exists>a b. to_range content lines from till e ascii = Some \<lparr>range_start = a, range_end = b\<rparr>
            \<and> to_position content lines from e ascii = Some a
            \<and> to_position content lines till e ascii = Some b \<and> position_le a b))"
proof (intro conjI impI)
  let ?line = "\<lambda>i. line_at lines (line_of lines i) (length content) ascii (crlf_read content)"
  show "to_offset_clamped content lines p e ascii \<le> length content"
    using offset_of_le [OF assms] assms(2) by (simp add: to_offset_clamped_def)
  assume "position_le p q"
  from offset_of_mono [OF assms this]
  show le: "to_offset_clamped content lines p e ascii \<le> to_offset_clamped content lines q e ascii"
    using assms(2) by (simp add: to_offset_clamped_def)
  show "to_offset_range content lines \<lparr>range_start = p, range_end = q\<rparr> e ascii
    = \<lparr>offset_begin = to_offset_clamped content lines p e ascii,
       offset_end = to_offset_clamped content lines q e ascii\<rparr>"
    using le by (simp add: to_offset_range_def offset_range_of_def to_offset_clamped_def Let_def)
next
  assume r: "from \<le> till \<and> till \<le> length content"
  have w: "line_within content (line_at lines (line_of lines i) (length content) ascii (crlf_read content))" for i
    using assms line_of_bounds(1) by (intro line_at_within)
  have num: "pos_line (position_in content l i e) = number l" for l i
    by (simp add: position_in_def Let_def)
  have "position_le (position_in content (line_at lines (line_of lines from) (length content) ascii (crlf_read content)) from e)
      (position_in content (line_at lines (line_of lines till) (length content) ascii (crlf_read content)) till e)"
    using line_of_mono [of "from" till lines] r position_in_mono [OF w, of "from" till till e]
    by (cases "line_of lines from = line_of lines till") (auto simp: position_le_def num)
  with r assms(2) show "\<exists>a b. to_range content lines from till e ascii = Some \<lparr>range_start = a, range_end = b\<rparr>
      \<and> to_position content lines from e ascii = Some a
      \<and> to_position content lines till e ascii = Some b \<and> position_le a b"
    by (simp add: to_range_def range_of_def to_position_def position_of_def)
qed

lemma conversions_ordered_witness:
  "to_offset_clamped ''ab'' [0] \<lparr>pos_line = 0, pos_character = 1\<rparr> UTF16 unknown_ascii
     \<le> to_offset_clamped ''ab'' [0] \<lparr>pos_line = 4, pos_character = 0\<rparr> UTF16 unknown_ascii
   \<and> (\<exists>a b. to_range ''ab'' [0] 1 2 UTF16 unknown_ascii = Some \<lparr>range_start = a, range_end = b\<rparr>
      \<and> position_le a b)"
proof -
  have t: "line_table [0] (length ''ab'')" "length ''ab'' < 2 ^ 32" by (simp_all add: line_table_def)
  note r = conversions_ordered [OF t]
  have "position_le \<lparr>pos_line = 0, pos_character = 1\<rparr> \<lparr>pos_line = 4, pos_character = 0\<rparr>"
    by (simp add: position_le_def)
  moreover have "1 \<le> (2::nat) \<and> 2 \<le> length ''ab''" by simp
  ultimately show ?thesis using r [where e = UTF16 and ascii = unknown_ascii] by blast
qed

text \<open>
  Where the lines said to hold only ASCII do, nothing depends on what is said.
\<close>

lemma position_of_trusted:
  assumes "line_table lines (length content)" "length content < 2 ^ 32"
    "ascii_trusted content lines ascii"
  shows "position_of content (length content) lines offset e ascii (crlf_read content)
    = position_of content (length content) lines offset e unknown_ascii (crlf_read content)"
proof -
  let ?line = "\<lambda>ascii. line_at lines (line_of lines offset) (length content) ascii (crlf_read content)"
  note l = line_of_bounds [OF assms(1), of offset]
  have w: "line_within content (?line a)" for a using assms l by (intro line_at_within)
  have t: "line_text content (?line unknown_ascii) = line_text content (?line ascii)"
    by (rule line_text_line_at)
  have s: "line_stop (?line unknown_ascii) = line_stop (?line ascii)" by (rule line_at_ascii_stop)
  have "position_in content (?line ascii) offset e = position_in content (?line unknown_ascii) offset e"
  proof (cases "known_ascii ascii (line_of lines offset)")
    case True
    then have a: "is_ascii (line_text content (?line ascii))"
      using assms(3) l(1) by (simp add: ascii_trusted_def)
    show ?thesis using l(2) a t s position_in_ascii [OF w] by simp
  next
    case False
    then show ?thesis using s t by (simp add: position_in_def Let_def)
  qed
  then show ?thesis by (simp add: position_of_def)
qed

lemma offset_of_trusted:
  assumes "line_table lines (length content)" "length content < 2 ^ 32"
    "ascii_trusted content lines ascii"
  shows "offset_of content (length content) lines position e ascii (crlf_read content)
    = offset_of content (length content) lines position e unknown_ascii (crlf_read content)"
proof (cases "pos_line position < length lines")
  case True
  let ?line = "\<lambda>ascii. line_at lines (pos_line position) (length content) ascii (crlf_read content)"
  have w: "line_within content (?line a)" for a using assms True by (intro line_at_within)
  have t: "line_text content (?line unknown_ascii) = line_text content (?line ascii)"
    by (rule line_text_line_at)
  have s: "line_stop (?line unknown_ascii) = line_stop (?line ascii)" by (rule line_at_ascii_stop)
  have "offset_in content (?line ascii) n e = offset_in content (?line unknown_ascii) n e" for n
  proof (cases "known_ascii ascii (pos_line position)")
    case True
    then have a: "is_ascii (line_text content (?line ascii))"
      using assms(3) \<open>pos_line position < length lines\<close> by (simp add: ascii_trusted_def)
    show ?thesis using a t s offset_in_ascii [OF w] by simp
  next
    case False
    then show ?thesis using s t by (simp add: offset_in_def Let_def)
  qed
  then show ?thesis by (simp add: offset_of_def)
qed (simp add: offset_of_def)

lemmas trusted_defs = to_position_def to_offset_def to_offset_clamped_def to_range_def
  to_offset_range_def range_of_def offset_range_of_def

lemmas text_defs = to_position_text_def to_offset_text_def to_offset_clamped_text_def
  to_range_text_def to_offset_range_text_def

text \<open>
  For a text under 4 GiB the conversions over its line starts and the
  bitmap of its lines past ASCII, which do not read the lines of ASCII, give what the conversions
  over the text alone give, which read every line, for every offset, position and range.
\<close>

lemma bitmap_conversions:
  fixes content
  defines "lines \<equiv> line_starts content" and "ascii \<equiv> Bitmap (non_ascii_lines content)"
  assumes "length content < 2 ^ 32"
  shows "to_position content lines offset e ascii = to_position_text content offset e
    \<and> to_offset content lines position e ascii = to_offset_text content position e
    \<and> to_offset_clamped content lines position e ascii = to_offset_clamped_text content position e
    \<and> to_range content lines from till e ascii = to_range_text content from till e
    \<and> to_offset_range content lines r e ascii = to_offset_range_text content r e"
proof -
  note h = line_table_line_starts assms(3) ascii_trusted_bitmap
  show ?thesis unfolding lines_def ascii_def
    using assms(3) by (simp add: text_defs trusted_defs position_of_trusted [OF h] offset_of_trusted [OF h]
        split: option.split)
qed

lemma bitmap_conversions_witness:
  "to_position ''ab'' (line_starts ''ab'') 1 UTF16 (Bitmap (non_ascii_lines ''ab''))
     = to_position_text ''ab'' 1 UTF16"
  using bitmap_conversions [of "''ab''" 1 UTF16] by simp

text \<open>What a caller that keeps no text says of the line ends is true.\<close>

definition crlf_trusted :: "string \<Rightarrow> nat list \<Rightarrow> (nat \<Rightarrow> bool) \<Rightarrow> bool" where
  "crlf_trusted content lines crlf \<longleftrightarrow>
     (\<forall>n. n + 1 < length lines \<and> lines ! n < lines ! (n + 1) - 1 \<longrightarrow>
        (crlf n \<longleftrightarrow> crlf_read content n (lines ! (n + 1) - 1)))"

lemma line_at_told:
  "crlf_trusted content lines crlf \<Longrightarrow> line_at lines n bytes ascii (crlf_told crlf)
     = line_at lines n bytes ascii (crlf_read content)"
  by (auto simp: line_at_def Let_def crlf_trusted_def crlf_told_def)

lemma position_of_sized:
  assumes "crlf_trusted content lines crlf"
  shows "position_of [] bytes lines offset UTF8 all_ascii (crlf_told crlf)
    = position_of content bytes lines offset e all_ascii (crlf_read content)"
  by (simp add: position_of_def position_in_def line_at_told [OF assms])

lemma offset_of_sized:
  assumes "crlf_trusted content lines crlf"
  shows "offset_of [] bytes lines position UTF8 all_ascii (crlf_told crlf)
    = offset_of content bytes lines position e all_ascii (crlf_read content)"
  by (simp add: offset_of_def offset_in_def line_at_told [OF assms])

lemma ascii_trusted_all:
  assumes "is_ascii content"
  shows "ascii_trusted content lines all_ascii"
  using assms by (auto simp: ascii_trusted_def is_ascii_iff line_text_def dest!: in_set_takeD in_set_dropD)

lemmas sized_defs = to_position_sized_def to_offset_sized_def to_offset_clamped_sized_def
  to_range_sized_def to_offset_range_sized_def

text \<open>
  For a text of ASCII under 4 GiB, the conversions that know only its size,
  its line table and which lines end in a carriage return and a newline give what those that read
  the text give, in every encoding.
\<close>

theorem sized_conversions:
  assumes "is_ascii content" "length content < 2 ^ 32" "line_table lines (length content)"
    "crlf_trusted content lines crlf"
  shows "to_position_sized (length content) lines offset crlf
      = to_position content lines offset e unknown_ascii
    \<and> to_offset_sized (length content) lines position crlf
      = to_offset content lines position e unknown_ascii
    \<and> to_offset_clamped_sized (length content) lines position crlf
      = to_offset_clamped content lines position e unknown_ascii
    \<and> to_range_sized (length content) lines from till crlf
      = to_range content lines from till e unknown_ascii
    \<and> to_offset_range_sized (length content) lines r crlf
      = to_offset_range content lines r e unknown_ascii"
proof -
  note h = assms(3,2) ascii_trusted_all [OF assms(1)]
  note position_of_sized [OF assms(4), of "length content" _ e]
    offset_of_sized [OF assms(4), of "length content" _ e]
  then show ?thesis using assms(2)
    by (simp add: sized_defs trusted_defs split: option.split
        flip: position_of_trusted [OF h] offset_of_trusted [OF h])
qed

theorem sized_conversions_witness:
  "to_position_sized (length ''ab'') [0] 1 (\<lambda>n. False) = to_position ''ab'' [0] 1 UTF16 unknown_ascii"
proof -
  have "is_ascii ''ab''" "length ''ab'' < 2 ^ 32" "line_table [0] (length ''ab'')"
    "crlf_trusted ''ab'' [0] (\<lambda>n. False)"
    by (simp_all add: is_ascii_iff line_table_def crlf_trusted_def)
  from sized_conversions [OF this, of 1 UTF16] show ?thesis by blast
qed

end
