(* ===== verification/Linked_List.thy ===== *)
theory Linked_List
  imports Prelude
begin

text \<open>
  The intrusive doubly linked lists of the runtime: the waiters of a sync primitive
  (\<^verbatim>\<open>sync_primitive::insert\<close> and \<^verbatim>\<open>remove\<close> of \<^verbatim>\<open>sync.cpp\<close>), the running
  children of an aggregate (\<^verbatim>\<open>aggregate_op::link\<close> and \<^verbatim>\<open>unlink\<close> of
  \<^verbatim>\<open>node.cpp\<close>), the callbacks of a cancellation source (\<^verbatim>\<open>CancellationState::link\<close>
  and \<^verbatim>\<open>unlink\<close> of \<^verbatim>\<open>cancellation.cpp\<close>), and the queued waits of a loop
  (\<^verbatim>\<open>event_loop::track\<close> and \<^verbatim>\<open>untrack\<close> of \<^verbatim>\<open>loop.cpp\<close>). The nodes
  are addresses, here numbers, and the links a store from addresses; a null pointer is
  \<^const>\<open>None\<close>. The other theories of the runtime use lists of nodes, which these
  implement.
\<close>

section \<open>The code\<close>

record links =
  prev_link :: "nat option"
  next_link :: "nat option"

text \<open>A list: its head and tail, and the links of the nodes.\<close>

record chain =
  head :: "nat option"
  tail :: "nat option"
  cells :: "nat \<Rightarrow> links"

definition set_prev :: "nat \<Rightarrow> nat option \<Rightarrow> chain \<Rightarrow> chain" where
  "set_prev n p l = l\<lparr>cells := (cells l)(n := (cells l n)\<lparr>prev_link := p\<rparr>)\<rparr>"

definition set_next :: "nat \<Rightarrow> nat option \<Rightarrow> chain \<Rightarrow> chain" where
  "set_next n p l = l\<lparr>cells := (cells l)(n := (cells l n)\<lparr>next_link := p\<rparr>)\<rparr>"

text \<open>
  Assignments through a conditional: \<^verbatim>\<open>(p ? p->next : head) = v\<close> and
  \<^verbatim>\<open>(p ? p->prev : tail) = v\<close>.
\<close>

definition next_or_head :: "nat option \<Rightarrow> nat option \<Rightarrow> chain \<Rightarrow> chain" where
  "next_or_head p v l = (case p of Some n \<Rightarrow> set_next n v l | None \<Rightarrow> l\<lparr>head := v\<rparr>)"

definition prev_or_tail :: "nat option \<Rightarrow> nat option \<Rightarrow> chain \<Rightarrow> chain" where
  "prev_or_tail p v l = (case p of Some n \<Rightarrow> set_prev n v l | None \<Rightarrow> l\<lparr>tail := v\<rparr>)"

definition insert_waiter :: "nat \<Rightarrow> chain \<Rightarrow> chain" where
  "insert_waiter n l =
     (let l = set_prev n (tail l) l;
          l = set_next n None l;
          l = next_or_head (tail l) (Some n) l
      in l\<lparr>tail := Some n\<rparr>)"

definition remove_waiter :: "nat \<Rightarrow> chain \<Rightarrow> chain" where
  "remove_waiter n l =
     (let l = next_or_head (prev_link (cells l n)) (next_link (cells l n)) l;
          l = prev_or_tail (next_link (cells l n)) (prev_link (cells l n)) l;
          l = set_prev n None l
      in set_next n None l)"

definition link_child :: "nat \<Rightarrow> chain \<Rightarrow> chain" where
  "link_child n l =
     (let l = set_prev n (tail l) l;
          l = set_next n None l;
          l = next_or_head (tail l) (Some n) l
      in l\<lparr>tail := Some n\<rparr>)"

definition unlink_child :: "nat \<Rightarrow> chain \<Rightarrow> chain" where
  "unlink_child n l =
     (let l = next_or_head (prev_link (cells l n)) (next_link (cells l n)) l;
          l = prev_or_tail (next_link (cells l n)) (prev_link (cells l n)) l;
          l = set_prev n None l
      in set_next n None l)"

text \<open>
  The callbacks' \<^verbatim>\<open>link\<close> leaves the next link of the node alone, which is null in a new
  node, the only one it links.
\<close>

definition link_callback :: "nat \<Rightarrow> chain \<Rightarrow> chain" where
  "link_callback n l =
     (let l = set_prev n (tail l) l;
          l = next_or_head (tail l) (Some n) l
      in l\<lparr>tail := Some n\<rparr>)"

definition unlink_callback :: "nat \<Rightarrow> chain \<Rightarrow> chain" where
  "unlink_callback n l =
     (let l = next_or_head (prev_link (cells l n)) (next_link (cells l n)) l;
          l = prev_or_tail (next_link (cells l n)) (prev_link (cells l n)) l;
          l = set_prev n None l
      in set_next n None l)"

text \<open>The loop's list has a head and no tail, and takes new waits at the front.\<close>

definition track :: "nat \<Rightarrow> chain \<Rightarrow> chain" where
  "track n l =
     (let l = set_prev n None l;
          l = set_next n (head l) l;
          l = (case head l of Some h \<Rightarrow> set_prev h (Some n) l | None \<Rightarrow> l)
      in l\<lparr>head := Some n\<rparr>)"

definition untrack :: "nat \<Rightarrow> chain \<Rightarrow> chain" where
  "untrack n l =
     (let l = next_or_head (prev_link (cells l n)) (next_link (cells l n)) l;
          l = (case next_link (cells l n) of
                 Some m \<Rightarrow> set_prev m (prev_link (cells l n)) l | None \<Rightarrow> l);
          l = set_prev n None l
      in set_next n None l)"

section \<open>The lists they implement\<close>

definition first_of :: "nat list \<Rightarrow> nat option" where
  "first_of xs = (case xs of [] \<Rightarrow> None | x # _ \<Rightarrow> Some x)"

definition last_of :: "nat list \<Rightarrow> nat option" where
  "last_of xs = (if xs = [] then None else Some (last xs))"

lemma first_of_simps [simp]:
  "first_of [] = None" "first_of (x # xs) = Some x"
  "first_of (xs @ ys) = (if xs = [] then first_of ys else first_of xs)"
  by (simp_all add: first_of_def split: list.split)

lemma last_of_simps [simp]:
  "last_of [] = None" "last_of (xs @ [x]) = Some x"
  "last_of (x # xs) = (if xs = [] then Some x else last_of xs)"
  "last_of (xs @ ys) = (if ys = [] then last_of xs else last_of ys)"
  by (simp_all add: last_of_def)

text \<open>The nodes are linked in this order, between a node before and a node after them.\<close>

fun linked :: "(nat \<Rightarrow> links) \<Rightarrow> nat option \<Rightarrow> nat list \<Rightarrow> nat option \<Rightarrow> bool" where
  "linked h p [] q \<longleftrightarrow> True"
| "linked h p (x # xs) q \<longleftrightarrow>
     prev_link (h x) = p \<and> next_link (h x) = (if xs = [] then q else first_of xs) \<and> linked h (Some x) xs q"

definition represents :: "chain \<Rightarrow> nat list \<Rightarrow> bool" where
  "represents l xs \<longleftrightarrow> distinct xs \<and> head l = first_of xs \<and> tail l = last_of xs
     \<and> linked (cells l) None xs None"

definition represents_front :: "chain \<Rightarrow> nat list \<Rightarrow> bool" where
  "represents_front l xs \<longleftrightarrow> distinct xs \<and> head l = first_of xs \<and> linked (cells l) None xs None"

lemma linked_append:
  "linked h p (xs @ ys) q \<longleftrightarrow>
     linked h p xs (if ys = [] then q else first_of ys)
     \<and> linked h (if xs = [] then p else last_of xs) ys q"
  by (induction xs arbitrary: p) auto

lemma linked_other [simp]: "n \<notin> set xs \<Longrightarrow> linked (h(n := c)) p xs q = linked h p xs q"
  by (induction xs arbitrary: p) auto

text \<open>Setting the links at the ends of a linked list.\<close>

lemma linked_set_next:
  "linked h p (xs @ [x]) q \<Longrightarrow> distinct (xs @ [x]) \<Longrightarrow>
     linked (h(x := (h x)\<lparr>next_link := q'\<rparr>)) p (xs @ [x]) q'"
  by (auto simp: linked_append)

lemma linked_set_prev:
  "linked h p (x # xs) q \<Longrightarrow> distinct (x # xs) \<Longrightarrow>
     linked (h(x := (h x)\<lparr>prev_link := p'\<rparr>)) p' (x # xs) q"
  by auto

lemmas pointer_defs = set_prev_def set_next_def next_or_head_def prev_or_tail_def Let_def

lemma insert_represents:
  assumes "represents l xs" "n \<notin> set xs"
  shows "represents (insert_waiter n l) (xs @ [n])"
proof (cases xs rule: rev_cases)
  case Nil
  with assms show ?thesis by (simp add: represents_def insert_waiter_def pointer_defs)
next
  case (snoc ys y)
  have "linked (cells l) None (ys @ [y]) None" "distinct (ys @ [y])" "n \<notin> set (ys @ [y])" "tail l = Some y"
    using assms snoc by (auto simp: represents_def)
  with assms snoc show ?thesis
    by (auto simp: represents_def insert_waiter_def pointer_defs linked_append)
qed

lemma remove_represents:
  assumes "represents l (xs @ n # ys)"
  shows "represents (remove_waiter n l) (xs @ ys)"
proof -
  have d: "distinct (xs @ n # ys)" and l: "linked (cells l) None (xs @ n # ys) None"
    and ends: "head l = first_of (xs @ n # ys)" "tail l = last_of (xs @ n # ys)"
    using assms by (auto simp: represents_def)
  have n: "prev_link (cells l n) = last_of xs" "next_link (cells l n) = first_of ys"
    using l by (auto simp: linked_append split: if_splits)
  show ?thesis
  proof (cases xs rule: rev_cases)
    case Nil
    then show ?thesis using d l ends n
      by (cases ys) (auto simp: represents_def remove_waiter_def pointer_defs)
  next
    case (snoc us u)
    then show ?thesis using d l ends n
      by (cases ys) (auto simp: represents_def remove_waiter_def pointer_defs linked_append)
  qed
qed


lemma track_represents:
  assumes "represents_front l xs" "n \<notin> set xs"
  shows "represents_front (track n l) (n # xs)"
  using assms by (cases xs) (auto simp: represents_front_def track_def pointer_defs)

lemma untrack_represents:
  assumes "represents_front l (xs @ n # ys)"
  shows "represents_front (untrack n l) (xs @ ys)"
proof -
  have d: "distinct (xs @ n # ys)" and l: "linked (cells l) None (xs @ n # ys) None"
    and ends: "head l = first_of (xs @ n # ys)"
    using assms by (auto simp: represents_front_def)
  have n: "prev_link (cells l n) = last_of xs" "next_link (cells l n) = first_of ys"
    using l by (auto simp: linked_append split: if_splits)
  show ?thesis
  proof (cases xs rule: rev_cases)
    case Nil
    then show ?thesis using d l ends n
      by (cases ys) (auto simp: represents_front_def untrack_def pointer_defs)
  next
    case (snoc us u)
    then show ?thesis using d l ends n
      by (cases ys) (auto simp: represents_front_def untrack_def pointer_defs linked_append)
  qed
qed

text \<open>The callbacks' list: nodes off it have no next link.\<close>

definition represents_fresh :: "chain \<Rightarrow> nat list \<Rightarrow> bool" where
  "represents_fresh l xs \<longleftrightarrow> represents l xs \<and> (\<forall>n. n \<notin> set xs \<longrightarrow> next_link (cells l n) = None)"

lemma link_callback_insert: "next_link (cells l n) = None \<Longrightarrow> link_callback n l = insert_waiter n l"
proof -
  assume "next_link (cells l n) = None"
  then have "(cells l n)\<lparr>prev_link := p, next_link := None\<rparr> = (cells l n)\<lparr>prev_link := p\<rparr>" for p
    by (cases "cells l n") simp
  then show ?thesis by (simp add: link_callback_def insert_waiter_def pointer_defs split: option.split)
qed

lemma link_callback_represents:
  assumes "represents_fresh l xs" "n \<notin> set xs"
  shows "represents_fresh (link_callback n l) (xs @ [n])"
proof -
  have l: "represents l xs" and f: "\<forall>n. n \<notin> set xs \<longrightarrow> next_link (cells l n) = None"
    using assms(1) by (auto simp: represents_fresh_def)
  have "next_link (cells (insert_waiter n l) m) = None" if "m \<notin> set (xs @ [n])" for m
    using that f l by (cases xs rule: rev_cases)
      (auto simp: represents_def insert_waiter_def pointer_defs)
  with insert_represents [OF l assms(2)] f assms(2) show ?thesis
    by (simp add: represents_fresh_def link_callback_insert)
qed

lemma unlink_callback_represents:
  assumes "represents_fresh l (xs @ n # ys)"
  shows "represents_fresh (unlink_callback n l) (xs @ ys)"
proof -
  have l: "represents l (xs @ n # ys)"
    and f: "\<forall>m. m \<notin> set (xs @ n # ys) \<longrightarrow> next_link (cells l m) = None"
    using assms(1) by (auto simp: represents_fresh_def)
  have "linked (cells l) None (xs @ n # ys) None" using l by (simp add: represents_def)
  then have n: "prev_link (cells l n) = last_of xs"
    by (auto simp: linked_append split: if_splits)
  have "next_link (cells (unlink_callback n l) m) = None" if "m \<notin> set (xs @ ys)" for m
    using that f n by (cases xs rule: rev_cases; cases "next_link (cells l n)")
      (auto simp: unlink_callback_def pointer_defs)
  moreover have "unlink_callback n l = remove_waiter n l"
    by (simp add: unlink_callback_def remove_waiter_def)
  ultimately show ?thesis using remove_represents [OF l] by (simp add: represents_fresh_def)
qed

section \<open>A list of nodes, whatever implements it\<close>

datatype list_op = Add nat | Drop nat

text \<open>The operations run on the pointers, on the list, and which of them the code may run.\<close>

fun run_chain :: "(nat \<Rightarrow> chain \<Rightarrow> chain) \<Rightarrow> (nat \<Rightarrow> chain \<Rightarrow> chain) \<Rightarrow> list_op list \<Rightarrow> chain \<Rightarrow> chain" where
  "run_chain add del [] l = l"
| "run_chain add del (Add n # ops) l = run_chain add del ops (add n l)"
| "run_chain add del (Drop n # ops) l = run_chain add del ops (del n l)"

fun run_list :: "(nat \<Rightarrow> nat list \<Rightarrow> nat list) \<Rightarrow> list_op list \<Rightarrow> nat list \<Rightarrow> nat list" where
  "run_list put [] xs = xs"
| "run_list put (Add n # ops) xs = run_list put ops (put n xs)"
| "run_list put (Drop n # ops) xs = run_list put ops (removeAll n xs)"

fun valid_ops :: "(nat \<Rightarrow> nat list \<Rightarrow> nat list) \<Rightarrow> list_op list \<Rightarrow> nat list \<Rightarrow> bool" where
  "valid_ops put [] xs \<longleftrightarrow> True"
| "valid_ops put (Add n # ops) xs \<longleftrightarrow> n \<notin> set xs \<and> valid_ops put ops (put n xs)"
| "valid_ops put (Drop n # ops) xs \<longleftrightarrow> n \<in> set xs \<and> valid_ops put ops (removeAll n xs)"

definition empty_chain :: chain where
  "empty_chain = \<lparr>head = None, tail = None, cells = (\<lambda>n. \<lparr>prev_link = None, next_link = None\<rparr>)\<rparr>"

locale intrusive_list =
  fixes rep :: "chain \<Rightarrow> nat list \<Rightarrow> bool"
    and add :: "nat \<Rightarrow> chain \<Rightarrow> chain"
    and del :: "nat \<Rightarrow> chain \<Rightarrow> chain"
    and put :: "nat \<Rightarrow> nat list \<Rightarrow> nat list"
  assumes rep_empty: "rep empty_chain []"
    and rep_add: "rep l xs \<Longrightarrow> n \<notin> set xs \<Longrightarrow> rep (add n l) (put n xs)"
    and rep_del: "rep l (xs @ n # ys) \<Longrightarrow> rep (del n l) (xs @ ys)"
    and rep_head: "rep l xs \<Longrightarrow> head l = first_of xs"
    and rep_distinct: "rep l xs \<Longrightarrow> distinct xs"
begin

lemma rep_removeAll:
  assumes "rep l xs" "n \<in> set xs"
  shows "rep (del n l) (removeAll n xs)"
proof -
  obtain us vs where x: "xs = us @ n # vs" using split_list [OF assms(2)] by auto
  with rep_distinct [OF assms(1)] have "removeAll n xs = us @ vs" by simp
  with rep_del assms(1) x show ?thesis by simp
qed

lemma run_represents:
  "rep l xs \<Longrightarrow> valid_ops put ops xs \<Longrightarrow> rep (run_chain add del ops l) (run_list put ops xs)"
proof (induction ops arbitrary: l xs)
  case (Cons op ops)
  then show ?case using rep_add rep_removeAll by (cases op) auto
qed simp

text \<open>Taking the head off until there is none gives the nodes in order: a wake of all.\<close>

lemma take_head: "rep l (x # xs) \<Longrightarrow> head l = Some x \<and> rep (del x l) xs"
  using rep_del [of l "[]" x xs] rep_head by fastforce

end

lemma represents_empty:
  "represents_fresh empty_chain []"
  by (simp add: represents_fresh_def represents_def empty_chain_def)

interpretation waiters: intrusive_list represents insert_waiter remove_waiter "\<lambda>n xs. xs @ [n]"
  using represents_empty insert_represents remove_represents
  by unfold_locales (auto simp: represents_fresh_def represents_def)

interpretation children: intrusive_list represents link_child unlink_child "\<lambda>n xs. xs @ [n]"
proof -
  have "link_child = insert_waiter" "unlink_child = remove_waiter"
    by (simp_all add: fun_eq_iff link_child_def insert_waiter_def unlink_child_def remove_waiter_def)
  then show "intrusive_list represents link_child unlink_child (\<lambda>n xs. xs @ [n])"
    using waiters.intrusive_list_axioms by simp
qed

interpretation callbacks: intrusive_list represents_fresh link_callback unlink_callback "\<lambda>n xs. xs @ [n]"
  using represents_empty link_callback_represents unlink_callback_represents
  by unfold_locales (auto simp: represents_fresh_def represents_def)

interpretation tracked: intrusive_list represents_front track untrack "(#)"
  using represents_empty track_represents untrack_represents
  by unfold_locales (auto simp: represents_fresh_def represents_def represents_front_def)


text \<open>
  C39: the pointer manipulations of the runtime's intrusive lists implement
  lists. After any sequence of additions of nodes that are off the list and removals of nodes on it,
  wherever they are, the head, the tail and the links of the nodes are those of the list that
  appends each added node and drops each removed one, for the waiters of a primitive, the children
  of an aggregate and the callbacks of a cancellation source; the loop's list of waits puts added
  nodes in front.
\<close>

theorem intrusive_lists_correct:
  "(valid_ops (\<lambda>n xs. xs @ [n]) ops [] \<longrightarrow>
      represents (run_chain insert_waiter remove_waiter ops empty_chain) (run_list (\<lambda>n xs. xs @ [n]) ops [])
      \<and> represents (run_chain link_child unlink_child ops empty_chain) (run_list (\<lambda>n xs. xs @ [n]) ops [])
      \<and> represents (run_chain link_callback unlink_callback ops empty_chain) (run_list (\<lambda>n xs. xs @ [n]) ops []))
   \<and> (valid_ops (#) ops [] \<longrightarrow>
      represents_front (run_chain track untrack ops empty_chain) (run_list (#) ops []))"
  using waiters.run_represents [OF waiters.rep_empty] children.run_represents [OF children.rep_empty]
    callbacks.run_represents [OF callbacks.rep_empty] tracked.run_represents [OF tracked.rep_empty]
  by (simp add: represents_fresh_def)

theorem intrusive_lists_correct_witness:
  "represents (run_chain insert_waiter remove_waiter [Add 1, Add 2, Add 3, Drop 2] empty_chain) [1, 3]"
  using intrusive_lists_correct [of "[Add 1, Add 2, Add 3, Drop 2]"] by simp

end
