(* ===== verification/Node_State.thy ===== *)
theory Node_State
  imports Main
begin

text \<open>
  Where a node of the task tree is in its life (\<^verbatim>\<open>async_node::State\<close> of
  \<^verbatim>\<open>include/kotatsu/async/runtime/node.h\<close>), which the models of the waits and of the tree share.
\<close>

datatype State = Pending | Running | Succeeded | Failed | Cancelled

definition is_done :: "State \<Rightarrow> bool" where
  "is_done s \<longleftrightarrow> s = Succeeded \<or> s = Failed \<or> s = Cancelled"

lemma is_done_simps [simp]:
  "\<not> is_done Pending" "\<not> is_done Running" "is_done Succeeded" "is_done Failed" "is_done Cancelled"
  by (simp_all add: is_done_def)

end
