(* ===== verification/Sync.thy ===== *)
theory Sync
  imports Linked_List Node_State
begin

text \<open>
  The sync primitives of the runtime (\<^verbatim>\<open>include/kotatsu/async/runtime/sync.h\<close>,
  \<^verbatim>\<open>src/async/runtime/sync.cpp\<close>), with the parts of the tasks, the waits' nodes
  (\<^verbatim>\<open>node.h\<close>, \<^verbatim>\<open>node.cpp\<close>) and the event loops (\<^verbatim>\<open>loop.cpp\<close>) they use.
  Primitives, tasks and loops are numbers into the state; a task has at most one wait at a time,
  whose node goes by the task's number. The intrusive lists are lists of nodes, which the theory
  of linked lists shows their pointers implement. Each operation runs on the loop's one thread
  without interruption, and is a function of the state; what a resumed task does next is a later
  operation, as each resumes a task last.
\<close>

section \<open>The state\<close>

datatype Kind = Mutex | Semaphore | Event | ConditionVariable

text \<open>The base and the fields of the derived classes: a mutex, a semaphore and an event have one each.\<close>

record sync_primitive =
  kind :: Kind
  waiters :: "nat list"
  woken :: "64 word"
  locked :: bool
  count :: int
  signaled :: bool

record wait_node =
  owner :: nat
  owner_kind :: Kind
  loop :: "nat option"
  relock :: "nat option"
  queue :: "nat option"
  state :: State
  cancel_requested :: bool

text \<open>A task: its state, whether a cancel reached it, and whether it awaits its wait (\<^verbatim>\<open>child\<close>).\<close>

record task_frame =
  task_state :: State
  task_cancelled :: bool
  child :: bool

record world =
  prims :: "nat \<Rightarrow> sync_primitive"
  nodes :: "nat \<Rightarrow> wait_node"
  tasks :: "nat \<Rightarrow> task_frame"
  deferred :: "nat \<Rightarrow> nat list"
  queued_waits :: "nat \<Rightarrow> nat list"

definition set_prim :: "nat \<Rightarrow> (sync_primitive \<Rightarrow> sync_primitive) \<Rightarrow> world \<Rightarrow> world" where
  "set_prim p f w = w\<lparr>prims := (prims w)(p := f (prims w p))\<rparr>"

definition set_node :: "nat \<Rightarrow> (wait_node \<Rightarrow> wait_node) \<Rightarrow> world \<Rightarrow> world" where
  "set_node n f w = w\<lparr>nodes := (nodes w)(n := f (nodes w n))\<rparr>"

definition set_task :: "nat \<Rightarrow> (task_frame \<Rightarrow> task_frame) \<Rightarrow> world \<Rightarrow> world" where
  "set_task t f w = w\<lparr>tasks := (tasks w)(t := f (tasks w t))\<rparr>"

section \<open>The operations\<close>

definition track_wait :: "nat \<Rightarrow> world \<Rightarrow> world" where
  "track_wait n w = (case loop (nodes w n) of
     Some l \<Rightarrow> w\<lparr>queued_waits := (queued_waits w)(l := n # queued_waits w l)\<rparr> | None \<Rightarrow> w)"

definition untrack_wait :: "nat \<Rightarrow> world \<Rightarrow> world" where
  "untrack_wait n w = (case loop (nodes w n) of
     Some l \<Rightarrow> w\<lparr>queued_waits := (queued_waits w)(l := removeAll n (queued_waits w l))\<rparr> | None \<Rightarrow> w)"

definition defer_resume :: "nat \<Rightarrow> world \<Rightarrow> world" where
  "defer_resume n w = (case loop (nodes w n) of
     Some l \<Rightarrow> w\<lparr>deferred := (deferred w)(l := deferred w l @ [n])\<rparr> | None \<Rightarrow> w)"

definition sync_insert :: "nat \<Rightarrow> nat \<Rightarrow> world \<Rightarrow> world" where
  "sync_insert p n w =
     track_wait n
       (set_prim p (\<lambda>r. r\<lparr>waiters := waiters r @ [n]\<rparr>)
         (set_node n (\<lambda>r. r\<lparr>queue := Some p\<rparr>) w))"

definition sync_remove :: "nat \<Rightarrow> nat \<Rightarrow> world \<Rightarrow> world" where
  "sync_remove p n w =
     untrack_wait n
       (set_node n (\<lambda>r. r\<lparr>queue := None\<rparr>)
         (set_prim p (\<lambda>r. r\<lparr>waiters := removeAll n (waiters r)\<rparr>) w))"

definition try_lock :: "nat \<Rightarrow> world \<Rightarrow> bool \<times> world" where
  "try_lock m w = (if locked (prims w m) then (False, w)
     else (True, set_prim m (\<lambda>r. r\<lparr>locked := True\<rparr>) w))"

text \<open>\<^verbatim>\<open>from\<close>, where the waiter was queued, grants it what it waits for.\<close>

definition grant :: "nat \<Rightarrow> nat \<Rightarrow> world \<Rightarrow> world" where
  "grant n from w =
     (if from = owner (nodes w n) then
        let w = (if owner_kind (nodes w n) \<noteq> Event
                 then set_prim (owner (nodes w n)) (\<lambda>r. r\<lparr>woken := woken r + 1\<rparr>) w else w)
        in case relock (nodes w n) of
             Some m \<Rightarrow> (let (taken, w) = try_lock m w in
               if \<not> taken then sync_insert m n w else defer_resume n w)
           | None \<Rightarrow> defer_resume n w
      else defer_resume n w)"

definition wake_one :: "nat \<Rightarrow> world \<Rightarrow> bool \<times> world" where
  "wake_one p w = (case waiters (prims w p) of
     [] \<Rightarrow> (False, w)
   | n # _ \<Rightarrow> (True, grant n p (sync_remove p n w)))"

text \<open>
  The loop of \<^verbatim>\<open>wake_all\<close>. A grant never queues a waiter where it was, so as many turns
  as there are waiters end it: the fuel.
\<close>

fun wake_times :: "nat \<Rightarrow> nat \<Rightarrow> world \<Rightarrow> world" where
  "wake_times 0 p w = w"
| "wake_times (Suc turns) p w =
     (let (woke, w) = wake_one p w in if woke then wake_times turns p w else w)"

definition wake_all :: "nat \<Rightarrow> world \<Rightarrow> world" where
  "wake_all p w = wake_times (length (waiters (prims w p))) p w"

definition unlock :: "nat \<Rightarrow> world \<Rightarrow> world" where
  "unlock m w =
     (let (woke, w) = wake_one m w in if \<not> woke then set_prim m (\<lambda>r. r\<lparr>locked := False\<rparr>) w else w)"

definition try_acquire :: "nat \<Rightarrow> world \<Rightarrow> bool \<times> world" where
  "try_acquire p w = (if count (prims w p) \<le> 0 then (False, w)
     else (True, set_prim p (\<lambda>r. r\<lparr>count := count r - 1\<rparr>) w))"

fun release :: "nat \<Rightarrow> nat \<Rightarrow> world \<Rightarrow> world" where
  "release p 0 w = w"
| "release p (Suc n) w =
     (let (woke, w) = wake_one p w in
      release p n (if \<not> woke then set_prim p (\<lambda>r. r\<lparr>count := count r + 1\<rparr>) w else w))"

definition set_event :: "nat \<Rightarrow> world \<Rightarrow> world" where
  "set_event p w = wake_all p (set_prim p (\<lambda>r. r\<lparr>signaled := True\<rparr>) w)"

definition reset_event :: "nat \<Rightarrow> world \<Rightarrow> world" where
  "reset_event p w = set_prim p (\<lambda>r. r\<lparr>signaled := False\<rparr>) w"

definition is_set :: "nat \<Rightarrow> world \<Rightarrow> bool" where
  "is_set p w \<longleftrightarrow> signaled (prims w p)"

definition notify_one :: "nat \<Rightarrow> world \<Rightarrow> world" where
  "notify_one p w = snd (wake_one p w)"

definition notify_all :: "nat \<Rightarrow> world \<Rightarrow> world" where
  "notify_all p w = wake_all p w"

text \<open>A wait of task \<^verbatim>\<open>t\<close>, as \<^verbatim>\<open>lock\<close>, \<^verbatim>\<open>acquire\<close> and the \<^verbatim>\<open>wait\<close>s construct it.\<close>

definition new_wait :: "nat \<Rightarrow> nat \<Rightarrow> nat option \<Rightarrow> world \<Rightarrow> world" where
  "new_wait t p m w = set_node t (\<lambda>r. \<lparr>owner = p, owner_kind = kind (prims w p), loop = None,
     relock = m, queue = None, state = Pending, cancel_requested = False\<rparr>) w"

definition await_ready :: "nat \<Rightarrow> world \<Rightarrow> bool \<times> world" where
  "await_ready n w =
     (let p = owner (nodes w n) in
      case owner_kind (nodes w n) of
        Mutex \<Rightarrow> try_lock p w
      | Semaphore \<Rightarrow> try_acquire p w
      | Event \<Rightarrow> (is_set p w, w)
      | ConditionVariable \<Rightarrow> (False, w))"

definition finish :: "nat \<Rightarrow> State \<Rightarrow> world \<Rightarrow> world" where
  "finish t s w = set_task t (\<lambda>r. r\<lparr>task_state := s\<rparr>) w"

definition awaited_by :: "nat \<Rightarrow> world \<Rightarrow> world" where
  "awaited_by t w = set_node t (\<lambda>r. r\<lparr>state := Running\<rparr>) (set_task t (\<lambda>r. r\<lparr>child := True\<rparr>) w)"

definition wait :: "nat \<Rightarrow> nat \<Rightarrow> world \<Rightarrow> world" where
  "wait t l w =
     (if task_cancelled (tasks w t) then finish t Cancelled w
      else let w = awaited_by t w;
               w = set_node t (\<lambda>r. r\<lparr>loop := Some l\<rparr>) w;
               w = (case relock (nodes w t) of Some m \<Rightarrow> unlock m w | None \<Rightarrow> w)
           in sync_insert (owner (nodes w t)) t w)"

definition give_back :: "nat \<Rightarrow> world \<Rightarrow> world" where
  "give_back n w =
     (if owner_kind (nodes w n) = Event then w
      else let p = owner (nodes w n);
               w = set_prim p (\<lambda>r. r\<lparr>woken := woken r - 1\<rparr>) w
           in case owner_kind (nodes w n) of
                Mutex \<Rightarrow> unlock p w
              | Semaphore \<Rightarrow> release p 1 w
              | ConditionVariable \<Rightarrow> notify_one p w
              | Event \<Rightarrow> w)"

text \<open>
  The end of a cancelled wait: \<^verbatim>\<open>on_child_complete\<close> of the task, which
  \<^verbatim>\<open>awaited_ended\<close> ends cancelled too, as no wait is awaited intercepting.
\<close>

definition end_cancelled :: "nat \<Rightarrow> world \<Rightarrow> world" where
  "end_cancelled n w = finish n Cancelled (set_task n (\<lambda>r. r\<lparr>child := False\<rparr>)
     (set_node n (\<lambda>r. r\<lparr>state := Cancelled\<rparr>) w))"

text \<open>The second half of \<^verbatim>\<open>cancel_wait\<close>, for a wait queued until now, or abandoned.\<close>

definition cancel_queued :: "nat \<Rightarrow> world \<Rightarrow> world" where
  "cancel_queued n w = (case relock (nodes w n) of
     Some m \<Rightarrow> (let (taken, w) = try_lock m w in
       if \<not> taken then (if loop (nodes w n) \<noteq> None then sync_insert m n w else w)
       else end_cancelled n w)
   | None \<Rightarrow> end_cancelled n w)"

definition cancel_wait :: "nat \<Rightarrow> world \<Rightarrow> world" where
  "cancel_wait n w =
     (if queue (nodes w n) = Some (owner (nodes w n))
      then cancel_queued n (sync_remove (owner (nodes w n)) n w)
      else if loop (nodes w n) \<noteq> None then give_back n w
      else cancel_queued n w)"

definition cancel_node :: "nat \<Rightarrow> world \<Rightarrow> world" where
  "cancel_node n w =
     (if is_done (state (nodes w n)) \<or> cancel_requested (nodes w n) then w
      else cancel_wait n (set_node n (\<lambda>r. r\<lparr>cancel_requested := True\<rparr>) w))"

definition cancel_task :: "nat \<Rightarrow> world \<Rightarrow> world" where
  "cancel_task t w =
     (if is_done (task_state (tasks w t)) \<or> task_cancelled (tasks w t) then w
      else let w = set_task t (\<lambda>r. r\<lparr>task_cancelled := True\<rparr>) w
           in if child (tasks w t) then cancel_node t w else w)"

definition abandon :: "nat \<Rightarrow> world \<Rightarrow> world" where
  "abandon n w =
     (let nd = nodes w n;
          w = (if queue nd \<noteq> Some (owner nd) \<and> \<not> cancel_requested nd
               then set_prim (owner nd) (\<lambda>r. r\<lparr>woken := woken r - 1\<rparr>) w else w);
          w = (case queue nd of Some p \<Rightarrow> sync_remove p n w | None \<Rightarrow> w)
      in set_node n (\<lambda>r. r\<lparr>loop := None\<rparr>) w)"

definition resume :: "nat \<Rightarrow> world \<Rightarrow> world" where
  "resume n w =
     (let w = set_task n (\<lambda>r. r\<lparr>child := False\<rparr>) w in
      if cancel_requested (nodes w n) then finish n Cancelled w
      else if owner_kind (nodes w n) \<noteq> Event
      then set_prim (owner (nodes w n)) (\<lambda>r. r\<lparr>woken := woken r - 1\<rparr>) w
      else w)"

text \<open>
  One turn of \<^verbatim>\<open>drain_deferred\<close> that takes a wait: the first of the woken waits resumes its task.
  What the task does next comes before the next turn, and is a step of its own.
\<close>

definition drain_one :: "nat \<Rightarrow> world \<Rightarrow> world" where
  "drain_one l w = (case deferred w l of
     [] \<Rightarrow> w
   | n # rest \<Rightarrow> resume n (w\<lparr>deferred := (deferred w)(l := rest)\<rparr>))"

text \<open>
  The end of \<^verbatim>\<open>~event_loop\<close>: it abandons the first of the waits it lists until it lists
  none. Each is off the list then, so the waits listed at the start are the ones it abandons.
\<close>

definition abandon_all :: "nat \<Rightarrow> world \<Rightarrow> world" where
  "abandon_all l w = fold abandon (queued_waits w l) w"

definition start :: "nat \<Rightarrow> world \<Rightarrow> world" where
  "start t w = (if task_cancelled (tasks w t) then finish t Cancelled w
     else set_task t (\<lambda>r. r\<lparr>task_state := Running\<rparr>) w)"


lemmas set_defs = set_prim_def set_node_def set_task_def

section \<open>The structure of the state\<close>

text \<open>
  The lists hold the waits they should: a primitive's queue the waits queued on it, a loop's list
  those of its tasks queued somewhere, and its deferred list those granted. The waits in
  \<^verbatim>\<open>moving\<close> are on none of them, while an operation moves them.
\<close>

definition queues_ok :: "nat set \<Rightarrow> world \<Rightarrow> bool" where
  "queues_ok moving w \<longleftrightarrow> (\<forall>p. distinct (waiters (prims w p))
     \<and> set (waiters (prims w p))
       = {t. child (tasks w t) \<and> t \<notin> moving \<and> queue (nodes w t) = Some p})"

definition deferred_ok :: "nat set \<Rightarrow> world \<Rightarrow> bool" where
  "deferred_ok moving w \<longleftrightarrow> (\<forall>l. distinct (deferred w l)
     \<and> set (deferred w l) = {t. child (tasks w t) \<and> t \<notin> moving \<and> queue (nodes w t) = None
         \<and> loop (nodes w t) = Some l})"

definition tracked_ok :: "nat set \<Rightarrow> world \<Rightarrow> bool" where
  "tracked_ok moving w \<longleftrightarrow> (\<forall>l. distinct (queued_waits w l)
     \<and> set (queued_waits w l) = {t. child (tasks w t) \<and> t \<notin> moving \<and> queue (nodes w t) \<noteq> None
         \<and> loop (nodes w t) = Some l})"

text \<open>A wait is well-formed, given the kinds of the primitives.\<close>

definition node_ok :: "(nat \<Rightarrow> Kind) \<Rightarrow> wait_node \<Rightarrow> bool" where
  "node_ok k n \<longleftrightarrow> state n = Running \<and> owner_kind n = k (owner n)
     \<and> (owner_kind n = ConditionVariable \<longleftrightarrow> relock n \<noteq> None)
     \<and> (\<forall>m. relock n = Some m \<longrightarrow> k m = Mutex)
     \<and> (\<forall>p. queue n = Some p \<longrightarrow>
          (p = owner n \<and> \<not> cancel_requested n \<or> relock n = Some p) \<and> loop n \<noteq> None)"

definition kind_of :: "world \<Rightarrow> nat \<Rightarrow> Kind" where
  "kind_of w p = kind (prims w p)"

definition nodes_ok :: "nat set \<Rightarrow> world \<Rightarrow> bool" where
  "nodes_ok moving w \<longleftrightarrow> (\<forall>t. child (tasks w t) \<longrightarrow>
     node_ok (kind_of w) (nodes w t) \<and> task_state (tasks w t) = Running
     \<and> (t \<in> moving \<longrightarrow> queue (nodes w t) = None \<and> loop (nodes w t) \<noteq> None))"

definition wf :: "nat set \<Rightarrow> world \<Rightarrow> bool" where
  "wf moving w \<longleftrightarrow> queues_ok moving w \<and> deferred_ok moving w \<and> tracked_ok moving w \<and> nodes_ok moving w"

lemma kind_of_set_prim [simp]:
  "(\<And>r. kind (f r) = kind r) \<Longrightarrow> kind_of (set_prim p f w) = kind_of w"
  "kind_of (set_node n g w) = kind_of w" "kind_of (set_task t h w) = kind_of w"
  "kind_of (w\<lparr>deferred := d\<rparr>) = kind_of w" "kind_of (w\<lparr>queued_waits := q\<rparr>) = kind_of w"
  by (auto simp: fun_eq_iff kind_of_def set_defs)

lemma kind_of_moves [simp]:
  "kind_of (track_wait n w) = kind_of w" "kind_of (untrack_wait n w) = kind_of w"
  "kind_of (defer_resume n w) = kind_of w" "kind_of (sync_insert p n w) = kind_of w"
  "kind_of (sync_remove p n w) = kind_of w"
  by (simp_all add: track_wait_def untrack_wait_def defer_resume_def sync_insert_def sync_remove_def
      split: option.split)

lemma wf_queued:
  assumes "wf moving w" "t \<in> set (waiters (prims w p))"
  obtains l where "child (tasks w t)" "t \<notin> moving" "queue (nodes w t) = Some p" "loop (nodes w t) = Some l"
    "node_ok (kind_of w) (nodes w t)"
proof -
  have c: "child (tasks w t)" "t \<notin> moving" "queue (nodes w t) = Some p"
    using assms by (auto simp: wf_def queues_ok_def)
  moreover from c have n: "node_ok (kind_of w) (nodes w t)"
    using assms(1) by (simp add: wf_def nodes_ok_def)
  ultimately show thesis using that by (auto simp: node_ok_def)
qed

lemma wf_moving:
  assumes "wf moving w" "t \<in> moving" "child (tasks w t)"
  obtains l where "queue (nodes w t) = None" "loop (nodes w t) = Some l" "node_ok (kind_of w) (nodes w t)"
  using assms by (auto simp: wf_def nodes_ok_def)

lemma wf_insert:
  assumes "wf (Set.insert t moving) w" "t \<notin> moving" "child (tasks w t)"
    "p = owner (nodes w t) \<and> \<not> cancel_requested (nodes w t) \<or> relock (nodes w t) = Some p"
  shows "wf moving (sync_insert p t w)"
proof -
  obtain l where l: "queue (nodes w t) = None" "loop (nodes w t) = Some l"
    "node_ok (kind_of w) (nodes w t)"
    using wf_moving [OF assms(1) _ assms(3)] by blast
  have "queues_ok moving (sync_insert p t w)" "deferred_ok moving (sync_insert p t w)"
    "tracked_ok moving (sync_insert p t w)"
    using assms(1-3) l(1,2)
    by (auto simp: wf_def queues_ok_def deferred_ok_def tracked_ok_def sync_insert_def
        track_wait_def set_defs)
  moreover have "nodes_ok moving (sync_insert p t w)"
    using assms l unfolding nodes_ok_def wf_def kind_of_moves
    by (auto simp: node_ok_def sync_insert_def track_wait_def set_defs)
  ultimately show ?thesis by (simp add: wf_def)
qed

lemma wf_remove:
  assumes "wf moving w" "t \<in> set (waiters (prims w p))"
  shows "wf (Set.insert t moving) (sync_remove p t w)"
proof -
  obtain l where l: "child (tasks w t)" "t \<notin> moving" "queue (nodes w t) = Some p"
    "loop (nodes w t) = Some l" "node_ok (kind_of w) (nodes w t)"
    by (rule wf_queued [OF assms])
  have "queues_ok (Set.insert t moving) (sync_remove p t w)"
    "deferred_ok (Set.insert t moving) (sync_remove p t w)"
    "tracked_ok (Set.insert t moving) (sync_remove p t w)"
    using assms(1) l
    by (auto simp: wf_def queues_ok_def deferred_ok_def tracked_ok_def sync_remove_def
        untrack_wait_def set_defs distinct_removeAll)
  moreover have "nodes_ok (Set.insert t moving) (sync_remove p t w)"
    using assms(1) l unfolding nodes_ok_def wf_def kind_of_moves
    by (auto simp: node_ok_def sync_remove_def untrack_wait_def set_defs)
  ultimately show ?thesis by (simp add: wf_def)
qed

lemma wf_defer:
  assumes "wf (Set.insert t moving) w" "t \<notin> moving" "child (tasks w t)"
  shows "wf moving (defer_resume t w)"
proof -
  obtain l where l: "queue (nodes w t) = None" "loop (nodes w t) = Some l"
    "node_ok (kind_of w) (nodes w t)"
    using wf_moving [OF assms(1) _ assms(3)] by blast
  have "queues_ok moving (defer_resume t w)" "deferred_ok moving (defer_resume t w)"
    "tracked_ok moving (defer_resume t w)"
    using assms(1-3) l(1,2)
    by (auto simp: wf_def queues_ok_def deferred_ok_def tracked_ok_def defer_resume_def)
  moreover have "nodes_ok moving (defer_resume t w)"
    using assms l unfolding nodes_ok_def wf_def kind_of_moves
    by (auto simp: defer_resume_def)
  ultimately show ?thesis by (simp add: wf_def)
qed


section \<open>Who holds the mutexes\<close>

text \<open>
  A granted wait holds the mutex it locks, until its task resumes: one of \<^verbatim>\<open>lock\<close>
  unless it is cancelled, as it has handed the mutex on then, and one of a condition variable
  in any case.
\<close>

definition carries :: "nat set \<Rightarrow> world \<Rightarrow> nat \<Rightarrow> nat \<Rightarrow> bool" where
  "carries moving w t m \<longleftrightarrow> child (tasks w t) \<and> t \<notin> moving
     \<and> queue (nodes w t) = None \<and> loop (nodes w t) \<noteq> None
     \<and> (owner (nodes w t) = m \<and> \<not> cancel_requested (nodes w t) \<or> relock (nodes w t) = Some m)"

text \<open>
  What holds each mutex: a task, in \<^verbatim>\<open>held\<close>, or a granted wait. The mutexes in
  \<^verbatim>\<open>passing\<close> are locked and held by nothing, while an operation hands them on.
\<close>

definition mutex_ok :: "(bool \<times> nat) option \<Rightarrow> bool \<Rightarrow> nat set \<Rightarrow> world \<Rightarrow> (nat \<times> nat) set \<Rightarrow> nat \<Rightarrow> bool" where
  "mutex_ok token passing moving w held m \<longleftrightarrow>
     (\<forall>t. (t, m) \<in> held \<longleftrightarrow> token = Some (True, t))
     \<and> (\<forall>t. carries moving w t m \<longleftrightarrow> token = Some (False, t))
     \<and> (waiters (prims w m) \<noteq> [] \<longrightarrow> locked (prims w m))
     \<and> (locked (prims w m) \<longleftrightarrow> passing \<or> token \<noteq> None)
     \<and> (passing \<longrightarrow> token = None)"

definition mutexes_ok :: "(nat \<Rightarrow> (bool \<times> nat) option) \<Rightarrow> nat set \<Rightarrow> nat set \<Rightarrow> world \<Rightarrow> (nat \<times> nat) set \<Rightarrow> bool" where
  "mutexes_ok token passing moving w held \<longleftrightarrow>
     (\<forall>m. kind_of w m = Mutex \<longrightarrow> mutex_ok (token m) (m \<in> passing) moving w held m)"

lemma carries_moves [simp]:
  "t \<in> moving \<Longrightarrow> \<not> carries moving w t m"
  by (simp add: carries_def)

lemma mutexes_insert:
  assumes "mutexes_ok token passing (Set.insert t moving) w held" "t \<notin> moving"
    "kind_of w p = Mutex \<Longrightarrow> locked (prims w p)"
  shows "mutexes_ok token passing moving (sync_insert p t w) held"
proof -
  have "carries moving (sync_insert p t w) u m = carries (Set.insert t moving) w u m" for u m
    by (auto simp: carries_def sync_insert_def track_wait_def set_defs split: option.split)
  then show ?thesis using assms
    by (auto simp: mutexes_ok_def mutex_ok_def sync_insert_def track_wait_def set_defs kind_of_def
        split: option.split)
qed

lemma mutexes_remove:
  assumes "mutexes_ok token passing moving w held" "queue (nodes w t) = Some p"
  shows "mutexes_ok token passing (Set.insert t moving) (sync_remove p t w) held"
proof -
  have "carries (Set.insert t moving) (sync_remove p t w) u m = carries moving w u m" for u m
    using assms(2)
    by (auto simp: carries_def sync_remove_def untrack_wait_def set_defs split: option.split)
  moreover have "waiters (prims (sync_remove p t w) m) \<noteq> [] \<Longrightarrow> waiters (prims w m) \<noteq> []" for m
    by (auto simp: sync_remove_def untrack_wait_def set_defs split: option.splits if_splits)
  moreover have "locked (prims (sync_remove p t w) m) = locked (prims w m)" for m
    by (auto simp: sync_remove_def untrack_wait_def set_defs split: option.split)
  ultimately show ?thesis using assms(1) by (simp add: mutexes_ok_def mutex_ok_def)
qed

text \<open>A deferred wait takes the mutex passed to it, if it waits for one.\<close>

definition takes :: "world \<Rightarrow> nat \<Rightarrow> nat \<Rightarrow> bool" where
  "takes w t m \<longleftrightarrow> kind_of w m = Mutex
     \<and> (owner (nodes w t) = m \<and> \<not> cancel_requested (nodes w t) \<or> relock (nodes w t) = Some m)"

lemma carries_defer:
  assumes "wf (Set.insert t moving) w" "child (tasks w t)" "t \<notin> moving"
  shows "carries moving (defer_resume t w) u m
    \<longleftrightarrow> carries (Set.insert t moving) w u m
      \<or> u = t \<and> (owner (nodes w t) = m \<and> \<not> cancel_requested (nodes w t) \<or> relock (nodes w t) = Some m)"
proof -
  obtain l where "queue (nodes w t) = None" "loop (nodes w t) = Some l"
    using wf_moving [OF assms(1) _ assms(2)] by blast
  with assms(2,3) show ?thesis by (auto simp: carries_def defer_resume_def)
qed

lemma prims_defer [simp]: "prims (defer_resume t w) = prims w" "tasks (defer_resume t w) = tasks w"
  "nodes (defer_resume t w) = nodes w"
  by (simp_all add: defer_resume_def split: option.split)

lemma mutexes_defer_take:
  assumes "wf (Set.insert t moving) w" "child (tasks w t)" "t \<notin> moving"
    "mutexes_ok token (Set.insert m passing) (Set.insert t moving) w held" "m \<notin> passing"
    "\<And>m'. takes w t m' \<longleftrightarrow> m' = m"
  shows "mutexes_ok (token(m := Some (False, t))) passing moving (defer_resume t w) held"
  unfolding mutexes_ok_def kind_of_moves
proof (intro allI impI)
  fix m'
  assume k: "kind_of w m' = Mutex"
  then have old: "mutex_ok (token m') (m' \<in> Set.insert m passing) (Set.insert t moving) w held m'"
    using assms(4) by (simp add: mutexes_ok_def)
  have t: "(owner (nodes w t) = m' \<and> \<not> cancel_requested (nodes w t) \<or> relock (nodes w t) = Some m') \<longleftrightarrow> m' = m"
    using assms(6) [of m'] k by (simp add: takes_def)
  show "mutex_ok ((token(m := Some (False, t))) m') (m' \<in> passing) moving (defer_resume t w) held m'"
    using old assms(5) unfolding mutex_ok_def carries_defer [OF assms(1-3)] t
    by (cases "m' = m") auto
qed

lemma mutexes_defer_none:
  assumes "wf (Set.insert t moving) w" "child (tasks w t)" "t \<notin> moving"
    "mutexes_ok token passing (Set.insert t moving) w held" "\<And>m. \<not> takes w t m"
  shows "mutexes_ok token passing moving (defer_resume t w) held"
  unfolding mutexes_ok_def kind_of_moves
proof (intro allI impI)
  fix m
  assume k: "kind_of w m = Mutex"
  then have old: "mutex_ok (token m) (m \<in> passing) (Set.insert t moving) w held m"
    using assms(4) by (simp add: mutexes_ok_def)
  have t: "\<not> (owner (nodes w t) = m \<and> \<not> cancel_requested (nodes w t) \<or> relock (nodes w t) = Some m)"
    using assms(5) [of m] k by (simp add: takes_def)
  show "mutex_ok (token m) (m \<in> passing) moving (defer_resume t w) held m"
    using old t unfolding mutex_ok_def carries_defer [OF assms(1-3)] by auto
qed


lemma wf_set_prim [simp]:
  "(\<And>r. kind (f r) = kind r) \<Longrightarrow> (\<And>r. waiters (f r) = waiters r) \<Longrightarrow>
     wf moving (set_prim p f w) = wf moving w"
  by (simp add: wf_def queues_ok_def deferred_ok_def tracked_ok_def nodes_ok_def)
    (auto simp: set_prim_def)

lemma carries_set_prim [simp]: "carries moving (set_prim p f w) t m = carries moving w t m"
  by (simp add: carries_def set_prim_def)

lemma mutexes_set_prim [simp]:
  "(\<And>r. kind (f r) = kind r) \<Longrightarrow> (\<And>r. waiters (f r) = waiters r) \<Longrightarrow> (\<And>r. locked (f r) = locked r) \<Longrightarrow>
     mutexes_ok token passing moving (set_prim p f w) held = mutexes_ok token passing moving w held"
  by (simp add: mutexes_ok_def mutex_ok_def) (auto simp: set_prim_def)

lemma sync_remove_sels [simp]:
  "tasks (sync_remove p t w) = tasks w"
  "owner (nodes (sync_remove p t w) u) = owner (nodes w u)"
  "owner_kind (nodes (sync_remove p t w) u) = owner_kind (nodes w u)"
  "relock (nodes (sync_remove p t w) u) = relock (nodes w u)"
  "loop (nodes (sync_remove p t w) u) = loop (nodes w u)"
  "cancel_requested (nodes (sync_remove p t w) u) = cancel_requested (nodes w u)"
  "state (nodes (sync_remove p t w) u) = state (nodes w u)"
  "locked (prims (sync_remove p t w) q) = locked (prims w q)"
  "count (prims (sync_remove p t w) q) = count (prims w q)"
  "signaled (prims (sync_remove p t w) q) = signaled (prims w q)"
  "kind (prims (sync_remove p t w) q) = kind (prims w q)"
  "waiters (prims (sync_remove p t w) q) = (if q = p then removeAll t (waiters (prims w p)) else waiters (prims w q))"
  by (auto simp: sync_remove_def untrack_wait_def set_defs split: option.split)

lemma set_prim_sels [simp]:
  "tasks (set_prim p f w) = tasks w" "nodes (set_prim p f w) = nodes w"
  "prims (set_prim p f w) q = (if q = p then f (prims w p) else prims w q)"
  by (auto simp: set_prim_def)

lemma takes_set_prim [simp]: "(\<And>r. kind (f r) = kind r) \<Longrightarrow> takes (set_prim p f w) t m = takes w t m"
  by (simp add: takes_def)

lemma takes_remove [simp]: "takes (sync_remove p q w) t m = takes w t m"
  by (simp add: takes_def)

text \<open>What a wait takes when it is granted: nothing, or one mutex.\<close>

lemma takes_lock:
  assumes "node_ok (kind_of w) (nodes w t)" "relock (nodes w t) = None"
  shows "takes w t m \<longleftrightarrow> owner_kind (nodes w t) = Mutex \<and> m = owner (nodes w t)
    \<and> \<not> cancel_requested (nodes w t)"
  using assms by (auto simp: takes_def node_ok_def)

lemma takes_relock:
  assumes "node_ok (kind_of w) (nodes w t)" "relock (nodes w t) = Some m'"
  shows "takes w t m \<longleftrightarrow> m = m'"
  using assms by (auto simp: takes_def node_ok_def)

lemma wake_one_Nil [simp]: "waiters (prims w p) = [] \<Longrightarrow> wake_one p w = (False, w)"
  by (simp add: wake_one_def)

lemma wake_one_mutex:
  assumes "wf moving w" "mutexes_ok token (Set.insert m passing) moving w held" "m \<notin> passing"
    "kind_of w m = Mutex" "waiters (prims w m) = t # ts"
  shows "wf moving (snd (wake_one m w))
    \<and> mutexes_ok (token(m := Some (False, t))) passing moving (snd (wake_one m w)) held"
proof -
  let ?w = "sync_remove m t w"
  have q: "t \<in> set (waiters (prims w m))" using assms(5) by simp
  obtain l where t: "child (tasks w t)" "t \<notin> moving" "queue (nodes w t) = Some m"
    "node_ok (kind_of w) (nodes w t)" by (rule wf_queued [OF assms(1) q])
  have c: "child (tasks ?w t)" using t(1) by simp
  note wf = wf_remove [OF assms(1) q]
  note mu = mutexes_remove [OF assms(2) t(3)]
  show ?thesis
  proof (cases "owner (nodes w t) = m")
    case True
    with t(3,4) assms(4) have r: "relock (nodes w t) = None" "owner_kind (nodes w t) = Mutex"
      "\<not> cancel_requested (nodes w t)" by (auto simp: node_ok_def)
    let ?w2 = "set_prim m (\<lambda>r. r\<lparr>woken := woken r + 1\<rparr>) ?w"
    have g: "snd (wake_one m w) = defer_resume t ?w2"
      using True r assms(5) by (simp add: wake_one_def grant_def)
    have "wf (Set.insert t moving) ?w2" using wf by simp
    moreover have "mutexes_ok token (Set.insert m passing) (Set.insert t moving) ?w2 held" using mu by simp
    moreover have "takes ?w2 t m'\<longleftrightarrow> m' = m" for m'
      using takes_lock [OF t(4) r(1)] r True by auto
    ultimately show ?thesis
      unfolding g using t(1,2) assms(3) by (intro conjI wf_defer mutexes_defer_take) simp_all
  next
    case False
    with t(3,4) have r: "relock (nodes w t) = Some m" by (auto simp: node_ok_def)
    have g: "snd (wake_one m w) = defer_resume t ?w"
      using False assms(5) by (simp add: wake_one_def grant_def)
    have "takes ?w t m' \<longleftrightarrow> m' = m" for m' using takes_relock [OF t(4) r] by simp
    then show ?thesis
      unfolding g using t(1,2) assms(3) wf mu by (intro conjI wf_defer mutexes_defer_take) simp_all
  qed
qed


text \<open>Locking a free mutex leaves it locked by nothing.\<close>

lemma mutexes_lock:
  assumes "mutexes_ok token passing moving w held" "\<not> locked (prims w m)"
  shows "mutexes_ok token (Set.insert m passing) moving (set_prim m (\<lambda>r. r\<lparr>locked := True\<rparr>) w) held"
    "kind_of w m = Mutex \<Longrightarrow> m \<notin> passing"
  using assms by (auto simp: mutexes_ok_def mutex_ok_def)

lemma mutexes_unlock:
  assumes "mutexes_ok token (Set.insert m passing) moving w held" "m \<notin> passing" "waiters (prims w m) = []"
  shows "mutexes_ok token passing moving (set_prim m (\<lambda>r. r\<lparr>locked := False\<rparr>) w) held"
  using assms by (auto simp: mutexes_ok_def mutex_ok_def)

lemma wake_one_other:
  assumes "wf moving w" "mutexes_ok token passing moving w held" "kind_of w p \<noteq> Mutex"
    "waiters (prims w p) = t # ts"
  shows "wf moving (snd (wake_one p w))
    \<and> (\<exists>token. mutexes_ok token passing moving (snd (wake_one p w)) held)"
proof -
  have q: "t \<in> set (waiters (prims w p))" using assms(4) by simp
  obtain l where t: "child (tasks w t)" "t \<notin> moving" "queue (nodes w t) = Some p"
    "node_ok (kind_of w) (nodes w t)" by (rule wf_queued [OF assms(1) q])
  have o: "owner (nodes w t) = p" using t(3,4) assms(3) by (auto simp: node_ok_def)
  define w1 where "w1 = (if owner_kind (nodes w t) \<noteq> Event
    then set_prim p (\<lambda>r. r\<lparr>woken := woken r + 1\<rparr>) (sync_remove p t w) else sync_remove p t w)"
  have wf: "wf (Set.insert t moving) w1" using wf_remove [OF assms(1) q] by (simp add: w1_def)
  have mu: "mutexes_ok token passing (Set.insert t moving) w1 held"
    using mutexes_remove [OF assms(2) t(3)] by (simp add: w1_def)
  have n: "child (tasks w1 t)" "relock (nodes w1 t) = relock (nodes w t)"
    "takes w1 t m \<longleftrightarrow> takes w t m" "kind_of w1 = kind_of w" for m
    using t by (simp_all add: w1_def)
  have g: "snd (wake_one p w) = (case relock (nodes w1 t) of
      Some m \<Rightarrow> (if locked (prims w1 m) then sync_insert m t w1
        else defer_resume t (set_prim m (\<lambda>r. r\<lparr>locked := True\<rparr>) w1))
    | None \<Rightarrow> defer_resume t w1)"
    using assms(4) o by (auto simp: wake_one_def grant_def w1_def try_lock_def Let_def split: option.split)
  show ?thesis
  proof (cases "relock (nodes w t)")
    case None
    then have "\<not> takes w1 t m" for m
      using takes_lock [OF t(4)] o assms(3) t(4) n(3) by (auto simp: node_ok_def)
    then show ?thesis unfolding g using None n wf mu t(2)
      by (auto intro!: wf_defer mutexes_defer_none)
  next
    case (Some m)
    have tk: "takes w1 t m' \<longleftrightarrow> m' = m" for m' using takes_relock [OF t(4) Some] n(3) by simp
    show ?thesis
    proof (cases "locked (prims w1 m)")
      case True
      then show ?thesis unfolding g using Some n wf mu t(2)
        by (auto intro!: wf_insert mutexes_insert)
    next
      case False
      let ?w2 = "set_prim m (\<lambda>r. r\<lparr>locked := True\<rparr>) w1"
      have "m \<notin> passing" using mutexes_lock(2) [OF mu False] Some t(4) n(4) by (simp add: node_ok_def)
      then have "mutexes_ok (token(m := Some (False, t))) passing moving (defer_resume t ?w2) held"
        using mutexes_lock(1) [OF mu False] wf n t(2) tk by (intro mutexes_defer_take) simp_all
      moreover have "wf moving (defer_resume t ?w2)" using wf n t(2) by (intro wf_defer) simp_all
      ultimately show ?thesis unfolding g using Some n False by auto
    qed
  qed
qed

text \<open>\<^verbatim>\<open>unlock\<close> hands a mutex that nothing holds any more to the first waiter, or frees it.\<close>

lemma unlock_ok:
  assumes "wf moving w" "mutexes_ok token (Set.insert m passing) moving w held" "m \<notin> passing"
    "kind_of w m = Mutex"
  shows "wf moving (unlock m w)
    \<and> mutexes_ok (token(m := (case waiters (prims w m) of [] \<Rightarrow> None | t # _ \<Rightarrow> Some (False, t))))
        passing moving (unlock m w) held"
proof (cases "waiters (prims w m)")
  case Nil
  have "token m = None" using assms(2,4) by (auto simp: mutexes_ok_def mutex_ok_def)
  then have "token(m := None) = token" by auto
  with Nil assms mutexes_unlock [OF assms(2,3) Nil] show ?thesis by (simp add: unlock_def)
next
  case (Cons t ts)
  have "fst (wake_one m w)" using Cons by (simp add: wake_one_def)
  then have "unlock m w = snd (wake_one m w)" by (auto simp: unlock_def split: prod.split)
  with wake_one_mutex [OF assms Cons] Cons show ?thesis by simp
qed


section \<open>What an operation leaves alone\<close>

lemma sync_insert_sels [simp]:
  "tasks (sync_insert p t w) = tasks w"
  "owner (nodes (sync_insert p t w) u) = owner (nodes w u)"
  "owner_kind (nodes (sync_insert p t w) u) = owner_kind (nodes w u)"
  "relock (nodes (sync_insert p t w) u) = relock (nodes w u)"
  "loop (nodes (sync_insert p t w) u) = loop (nodes w u)"
  "cancel_requested (nodes (sync_insert p t w) u) = cancel_requested (nodes w u)"
  "state (nodes (sync_insert p t w) u) = state (nodes w u)"
  "locked (prims (sync_insert p t w) q) = locked (prims w q)"
  "count (prims (sync_insert p t w) q) = count (prims w q)"
  "signaled (prims (sync_insert p t w) q) = signaled (prims w q)"
  "waiters (prims (sync_insert p t w) q)
     = (if q = p then waiters (prims w p) @ [t] else waiters (prims w q))"
  by (auto simp: sync_insert_def track_wait_def set_defs split: option.split)

text \<open>A grant, and so a wake, changes no task, no unit and no flag, and of a wait only where it is queued.\<close>

definition same_waits :: "world \<Rightarrow> world \<Rightarrow> bool" where
  "same_waits w w' \<longleftrightarrow> tasks w' = tasks w \<and> kind_of w' = kind_of w
     \<and> (\<forall>t. owner (nodes w' t) = owner (nodes w t) \<and> owner_kind (nodes w' t) = owner_kind (nodes w t)
          \<and> relock (nodes w' t) = relock (nodes w t) \<and> loop (nodes w' t) = loop (nodes w t)
          \<and> cancel_requested (nodes w' t) = cancel_requested (nodes w t))
     \<and> (\<forall>p. count (prims w' p) = count (prims w p) \<and> signaled (prims w' p) = signaled (prims w p))"

lemma same_waits_refl [simp]: "same_waits w w"
  by (simp add: same_waits_def)

lemma same_waits_trans: "same_waits a b \<Longrightarrow> same_waits b c \<Longrightarrow> same_waits a c"
  by (simp add: same_waits_def)

lemma same_waits_moves [simp]:
  "same_waits w (sync_insert p t w)" "same_waits w (sync_remove p t w)" "same_waits w (defer_resume t w)"
  "same_waits w (set_prim p (\<lambda>r. r\<lparr>woken := f r\<rparr>) w)" "same_waits w (set_prim p (\<lambda>r. r\<lparr>locked := b\<rparr>) w)"
  by (simp_all add: same_waits_def)

lemma same_waits_grant: "same_waits w (grant t p w)"
proof -
  define w1 where "w1 = (if owner_kind (nodes w t) \<noteq> Event
    then set_prim (owner (nodes w t)) (\<lambda>r. r\<lparr>woken := woken r + 1\<rparr>) w else w)"
  have w1: "same_waits w w1" by (simp add: w1_def)
  have "same_waits w1 (sync_insert m t w1)" "same_waits w1 (defer_resume t w1)"
    "same_waits w1 (defer_resume t (set_prim m (\<lambda>r. r\<lparr>locked := True\<rparr>) w1))" for m
    using same_waits_trans same_waits_moves by blast+
  with w1 have "same_waits w (sync_insert m t w1)" "same_waits w (defer_resume t w1)"
    "same_waits w (defer_resume t (set_prim m (\<lambda>r. r\<lparr>locked := True\<rparr>) w1))" for m
    using same_waits_trans by blast+
  then show ?thesis
    by (simp add: grant_def try_lock_def w1_def [symmetric] Let_def split: option.split)
qed

lemma same_waits_wake: "same_waits w (snd (wake_one p w))"
  using same_waits_trans [OF same_waits_moves(2) same_waits_grant]
  by (simp add: wake_one_def split: list.split)

lemma same_waits_unlock: "same_waits w (unlock m w)"
  using same_waits_wake [of w m] same_waits_trans [OF _ same_waits_moves(5)]
  by (auto simp: unlock_def split: prod.split)

text \<open>A wake takes the first waiter off the queue, and queues it nowhere but on a mutex.\<close>

lemma waiters_grant:
  assumes "node_ok (kind_of w) (nodes w t)" "kind_of w q \<noteq> Mutex"
  shows "waiters (prims (grant t p w) q) = waiters (prims w q)"
proof -
  have "relock (nodes w t) = Some m \<Longrightarrow> m \<noteq> q" for m using assms by (auto simp: node_ok_def)
  then show ?thesis
    by (auto simp: grant_def try_lock_def Let_def split: option.split)
qed

lemma waiters_wake:
  assumes "wf moving w" "kind_of w q \<noteq> Mutex"
  shows "waiters (prims (snd (wake_one p w)) q)
    = (if q = p then tl (waiters (prims w p)) else waiters (prims w q))"
proof (cases "waiters (prims w p)")
  case (Cons t ts)
  then have q: "t \<in> set (waiters (prims w p))" by simp
  have "node_ok (kind_of w) (nodes (sync_remove p t w) t)"
    by (rule wf_queued [OF assms(1) q]) (auto simp: node_ok_def sync_remove_def untrack_wait_def set_defs split: option.splits)
  moreover have "t \<notin> set ts" using assms(1) Cons by (auto simp: wf_def queues_ok_def)
      (metis distinct.simps(2))
  ultimately show ?thesis
    using waiters_grant [of "sync_remove p t w" t q p] assms(2) Cons
    by (auto simp: wake_one_def)
qed simp

section \<open>The invariant\<close>

text \<open>
  No unit is left while a task waits for one, and no task waits for an event that is set; the
  events in \<^verbatim>\<open>setting\<close> are just being set.
\<close>

definition units_ok :: "nat set \<Rightarrow> world \<Rightarrow> bool" where
  "units_ok setting w \<longleftrightarrow> (\<forall>p.
     (kind_of w p = Semaphore \<longrightarrow>
        0 \<le> count (prims w p) \<and> (waiters (prims w p) \<noteq> [] \<longrightarrow> count (prims w p) = 0))
     \<and> (kind_of w p = Event \<and> p \<notin> setting \<longrightarrow> signaled (prims w p) \<longrightarrow> waiters (prims w p) = []))"

lemma units_shrink:
  assumes "units_ok setting w" "kind_of w' = kind_of w"
    "\<And>p. count (prims w' p) = count (prims w p)" "\<And>p. signaled (prims w' p) = signaled (prims w p)"
    "\<And>p. kind_of w p \<noteq> Mutex \<Longrightarrow> waiters (prims w' p) \<noteq> [] \<Longrightarrow> waiters (prims w p) \<noteq> []"
  shows "units_ok setting w'"
  unfolding units_ok_def assms(2-4)
  using assms(1,5) unfolding units_ok_def by (metis Kind.distinct(1) Kind.distinct(3))

definition sync_inv :: "nat set \<Rightarrow> nat set \<Rightarrow> world \<Rightarrow> (nat \<times> nat) set \<Rightarrow> bool" where
  "sync_inv setting moving w held \<longleftrightarrow>
     wf moving w \<and> (\<exists>token. mutexes_ok token {} moving w held) \<and> units_ok setting w"

lemma wake_one_units:
  assumes "wf moving w" "units_ok setting w"
  shows "units_ok setting (snd (wake_one p w))"
proof (rule units_shrink [OF assms(2)])
  have s: "same_waits w (snd (wake_one p w))" by (rule same_waits_wake)
  show "kind_of (snd (wake_one p w)) = kind_of w"
    "count (prims (snd (wake_one p w)) q) = count (prims w q)"
    "signaled (prims (snd (wake_one p w)) q) = signaled (prims w q)" for q
    using s by (simp_all add: same_waits_def)
  show "waiters (prims w q) \<noteq> []" if "kind_of w q \<noteq> Mutex"
    "waiters (prims (snd (wake_one p w)) q) \<noteq> []" for q
    using that waiters_wake [OF assms(1) that(1), of p] by (auto split: if_splits)
qed

lemma wake_one_inv:
  assumes "sync_inv setting moving w held" "kind_of w p \<noteq> Mutex"
  shows "sync_inv setting moving (snd (wake_one p w)) held"
  using assms wake_one_other [of moving w _ "{}" held p] wake_one_units [of moving w setting p]
  by (cases "waiters (prims w p)") (auto simp: sync_inv_def)

lemma unlock_inv:
  assumes "wf moving w" "mutexes_ok token {m} moving w held" "kind_of w m = Mutex" "units_ok setting w"
  shows "sync_inv setting moving (unlock m w) held"
proof -
  have "units_ok setting (unlock m w)"
    using wake_one_units [OF assms(1,4), of m] assms(3)
    by (auto simp: unlock_def units_ok_def split: prod.split)
  with unlock_ok [OF assms(1,2) _ assms(3)] show ?thesis by (auto simp: sync_inv_def)
qed


lemma kind_of_wake [simp]: "kind_of (snd (wake_one p w)) = kind_of w"
  "kind_of (unlock p w) = kind_of w"
  using same_waits_wake same_waits_unlock by (simp_all add: same_waits_def)

lemma fst_wake_one: "fst (wake_one p w) \<longleftrightarrow> waiters (prims w p) \<noteq> []"
  by (simp add: wake_one_def split: list.split)

lemma wake_times_inv:
  assumes "sync_inv setting moving w held" "kind_of w p \<noteq> Mutex" "length (waiters (prims w p)) \<le> n"
  shows "sync_inv setting moving (wake_times n p w) held \<and> waiters (prims (wake_times n p w) p) = []
    \<and> kind_of (wake_times n p w) = kind_of w
    \<and> signaled (prims (wake_times n p w) q) = signaled (prims w q)"
  using assms
proof (induction n arbitrary: w)
  case (Suc n)
  obtain woke w' where w': "wake_one p w = (woke, w')" by (cases "wake_one p w")
  have "sync_inv setting moving w' held" "kind_of w' = kind_of w"
    "waiters (prims w' p) = tl (waiters (prims w p))" "signaled (prims w' q) = signaled (prims w q)"
    using wake_one_inv [OF Suc.prems(1,2)] waiters_wake [OF _ Suc.prems(2), of moving p] Suc.prems(1)
      same_waits_wake [of w p] kind_of_wake(1) [of p w]
    by (auto simp: w' sync_inv_def same_waits_def)
  moreover have "woke \<longleftrightarrow> waiters (prims w p) \<noteq> []" using fst_wake_one [of p w] w' by simp
  ultimately show ?case using Suc w' by auto
qed simp

lemma wake_all_inv:
  assumes "sync_inv setting moving w held" "kind_of w p \<noteq> Mutex"
  shows "sync_inv setting moving (wake_all p w) held" "waiters (prims (wake_all p w) p) = []"
    "kind_of (wake_all p w) = kind_of w" "signaled (prims (wake_all p w) q) = signaled (prims w q)"
  using wake_times_inv [OF assms order_refl] by (auto simp: wake_all_def)

lemma inv_set_prim:
  assumes "sync_inv setting moving w held" "\<And>r. kind (f r) = kind r" "\<And>r. waiters (f r) = waiters r"
    "\<And>r. locked (f r) = locked r" "units_ok setting (set_prim p f w)"
  shows "sync_inv setting moving (set_prim p f w) held"
  using assms by (simp add: sync_inv_def)

lemma release_inv:
  assumes "sync_inv setting moving w held" "kind_of w p = Semaphore"
  shows "sync_inv setting moving (release p n w) held"
  using assms
proof (induction n arbitrary: w)
  case (Suc n)
  obtain woke w' where w': "wake_one p w = (woke, w')" by (cases "wake_one p w")
  have i: "sync_inv setting moving w' held" "kind_of w' p = Semaphore"
    using wake_one_inv [OF Suc.prems(1), of p] Suc.prems(2) kind_of_wake(1) [of p w] by (auto simp: w')
  show ?case
  proof (cases woke)
    case False
    then have e: "waiters (prims w p) = []" using fst_wake_one [of p w] w' by simp
    then have "w' = w" using w' by simp
    have "sync_inv setting moving (set_prim p (\<lambda>r. r\<lparr>count := count r + 1\<rparr>) w) held"
      using Suc.prems e by (intro inv_set_prim) (auto simp: units_ok_def sync_inv_def)
    with False Suc.IH Suc.prems(2) show ?thesis by (simp add: w' \<open>w' = w\<close>)
  next
    case True
    with Suc.IH [OF i] show ?thesis by (simp add: w')
  qed
qed simp

lemma set_event_inv:
  assumes "sync_inv {} {} w held" "kind_of w p = Event"
  shows "sync_inv {} {} (set_event p w) held"
proof -
  let ?w = "set_prim p (\<lambda>r. r\<lparr>signaled := True\<rparr>) w"
  have "units_ok {p} ?w" using assms by (auto simp: sync_inv_def units_ok_def)
  then have i: "sync_inv {p} {} ?w held" using assms(1) by (simp add: sync_inv_def)
  have k: "kind_of ?w p \<noteq> Mutex" using assms(2) by simp
  have "units_ok {} (wake_all p ?w)"
    using wake_all_inv(1,2) [OF i k] unfolding sync_inv_def units_ok_def by auto
  with wake_all_inv(1) [OF i k] show ?thesis by (simp add: sync_inv_def set_event_def)
qed

lemma reset_event_inv: "sync_inv {} {} w held \<Longrightarrow> sync_inv {} {} (reset_event p w) held"
  unfolding reset_event_def by (rule inv_set_prim) (auto simp: sync_inv_def units_ok_def)

lemma notify_inv:
  assumes "sync_inv {} {} w held" "kind_of w p = ConditionVariable"
  shows "sync_inv {} {} (notify_one p w) held" "sync_inv {} {} (notify_all p w) held"
  using wake_one_inv [OF assms(1), of p] wake_all_inv(1) [OF assms(1), of p] assms(2)
  by (simp_all add: notify_one_def notify_all_def)

text \<open>A task lets go of a mutex it holds, and \<^verbatim>\<open>unlock\<close> hands the mutex on.\<close>

lemma mutexes_let_go:
  assumes "mutexes_ok token {} moving w held" "(t, m) \<in> held" "kind_of w m = Mutex"
  shows "mutexes_ok (token(m := None)) {m} moving w (held - {(t, m)})"
  using assms by (auto simp: mutexes_ok_def mutex_ok_def)

lemma unlock_held_inv:
  assumes "sync_inv {} moving w held" "(t, m) \<in> held" "kind_of w m = Mutex"
  shows "sync_inv {} moving (unlock m w) (held - {(t, m)})"
  using assms mutexes_let_go [OF _ assms(2,3)] unlock_inv [OF _ _ assms(3)]
  unfolding sync_inv_def by blast


section \<open>Waiting\<close>

text \<open>
  Changing the node and the task of one task, which is on no list before nor after, and carries
  no more and no less.
\<close>

lemma sync_inv_task:
  assumes "sync_inv setting moving w held" "prims w' = prims w" "deferred w' = deferred w"
    "queued_waits w' = queued_waits w"
    "\<And>u. u \<noteq> t \<Longrightarrow> nodes w' u = nodes w u" "\<And>u. u \<noteq> t \<Longrightarrow> tasks w' u = tasks w u"
    "\<not> child (tasks w t) \<or> t \<in> moving \<or> loop (nodes w t) = None"
    "\<not> child (tasks w' t) \<or> t \<in> moving' \<or> loop (nodes w' t) = None"
    "\<And>u. u \<noteq> t \<Longrightarrow> u \<in> moving' \<longleftrightarrow> u \<in> moving"
    "child (tasks w' t) \<Longrightarrow> node_ok (kind_of w) (nodes w' t) \<and> task_state (tasks w' t) = Running
       \<and> queue (nodes w' t) = None \<and> (t \<in> moving' \<longrightarrow> loop (nodes w' t) \<noteq> None)"
  shows "sync_inv setting moving' w' held"
proof -
  have k: "kind_of w' = kind_of w" using assms(2) by (simp add: kind_of_def fun_eq_iff)
  have none: "loop (nodes w t) = None \<Longrightarrow> child (tasks w t) \<Longrightarrow> queue (nodes w t) = None"
    using assms(1) by (auto simp: sync_inv_def wf_def nodes_ok_def node_ok_def)
  have list: "(child (tasks w' u) \<and> u \<notin> moving' \<and> P (nodes w' u))
      \<longleftrightarrow> (child (tasks w u) \<and> u \<notin> moving \<and> P (nodes w u))"
    if "\<And>n. queue n = None \<Longrightarrow> loop n = None \<Longrightarrow> \<not> P n" for u P
  proof (cases "u = t")
    case True
    have "\<not> (child (tasks w t) \<and> t \<notin> moving \<and> P (nodes w t))" using assms(7) none that by blast
    moreover have "\<not> (child (tasks w' t) \<and> t \<notin> moving' \<and> P (nodes w' t))" using assms(8,10) that by blast
    ultimately show ?thesis unfolding True by blast
  next
    case False
    with assms(5,6,9) show ?thesis by simp
  qed
  have q: "(child (tasks w' u) \<and> u \<notin> moving' \<and> queue (nodes w' u) = Some p)
      \<longleftrightarrow> (child (tasks w u) \<and> u \<notin> moving \<and> queue (nodes w u) = Some p)"
    "(child (tasks w' u) \<and> u \<notin> moving' \<and> queue (nodes w' u) = None \<and> loop (nodes w' u) = Some p)
      \<longleftrightarrow> (child (tasks w u) \<and> u \<notin> moving \<and> queue (nodes w u) = None \<and> loop (nodes w u) = Some p)"
    "(child (tasks w' u) \<and> u \<notin> moving' \<and> queue (nodes w' u) \<noteq> None \<and> loop (nodes w' u) = Some p)
      \<longleftrightarrow> (child (tasks w u) \<and> u \<notin> moving \<and> queue (nodes w u) \<noteq> None \<and> loop (nodes w u) = Some p)" for u p
    using list [of "\<lambda>n. queue n = Some p"] list [of "\<lambda>n. queue n = None \<and> loop n = Some p"]
      list [of "\<lambda>n. queue n \<noteq> None \<and> loop n = Some p"] by auto
  have "queues_ok moving' w'" "deferred_ok moving' w'" "tracked_ok moving' w'"
    using assms(1) unfolding sync_inv_def wf_def queues_ok_def deferred_ok_def tracked_ok_def assms(2-4) q
    by auto
  moreover have "nodes_ok moving' w'" unfolding nodes_ok_def k
  proof (intro allI impI)
    fix u
    assume "child (tasks w' u)"
    then show "node_ok (kind_of w) (nodes w' u) \<and> task_state (tasks w' u) = Running
        \<and> (u \<in> moving' \<longrightarrow> queue (nodes w' u) = None \<and> loop (nodes w' u) \<noteq> None)"
      using assms(1,5,6,9,10) by (cases "u = t") (auto simp: sync_inv_def wf_def nodes_ok_def)
  qed
  moreover have "carries moving' w' u m \<longleftrightarrow> carries moving w u m" for u m
    using list [of "\<lambda>n. queue n = None \<and> loop n \<noteq> None
      \<and> (owner n = m \<and> \<not> cancel_requested n \<or> relock n = Some m)" u] by (auto simp: carries_def)
  ultimately show ?thesis
    using assms(1,2) k by (simp add: sync_inv_def wf_def mutexes_ok_def mutex_ok_def units_ok_def)
qed


lemma insert_inv:
  assumes "sync_inv {} {t} w held" "child (tasks w t)" "owner (nodes w t) = p"
    "\<not> cancel_requested (nodes w t)" "kind_of w p = Mutex \<Longrightarrow> locked (prims w p)"
    "kind_of w p = Semaphore \<Longrightarrow> count (prims w p) = 0" "kind_of w p = Event \<Longrightarrow> \<not> signaled (prims w p)"
  shows "sync_inv {} {} (sync_insert p t w) held"
proof -
  obtain token where i: "wf {t} w" "mutexes_ok token {} {t} w held" "units_ok {} w"
    using assms(1) by (auto simp: sync_inv_def)
  have "wf {} (sync_insert p t w)" using i(1) assms by (intro wf_insert) auto
  moreover have "mutexes_ok token {} {} (sync_insert p t w) held"
    using i(2) assms(5) by (intro mutexes_insert) auto
  moreover have "units_ok {} (sync_insert p t w)"
    using i(3) assms(6,7) by (auto simp: units_ok_def)
  ultimately show ?thesis by (auto simp: sync_inv_def)
qed

lemma new_wait_sels [simp]:
  "prims (new_wait t p m w) = prims w" "tasks (new_wait t p m w) = tasks w"
  "deferred (new_wait t p m w) = deferred w" "queued_waits (new_wait t p m w) = queued_waits w"
  "u \<noteq> t \<Longrightarrow> nodes (new_wait t p m w) u = nodes w u"
  "nodes (new_wait t p m w) t = \<lparr>owner = p, owner_kind = kind_of w p, loop = None, relock = m,
     queue = None, state = Pending, cancel_requested = False\<rparr>"
  by (simp_all add: new_wait_def set_node_def kind_of_def)

lemma kind_of_new_wait [simp]: "kind_of (new_wait t p m w) = kind_of w"
  by (simp add: kind_of_def fun_eq_iff)

lemma new_wait_inv:
  "sync_inv setting {} w held \<Longrightarrow> \<not> child (tasks w t) \<Longrightarrow> sync_inv setting {} (new_wait t p m w) held"
  by (rule sync_inv_task [where w = w and t = t]) auto

text \<open>A task as a wait begins: its node is a new wait.\<close>

definition about_to_wait :: "nat \<Rightarrow> world \<Rightarrow> bool" where
  "about_to_wait t w \<longleftrightarrow> \<not> child (tasks w t) \<and> task_state (tasks w t) = Running
     \<and> queue (nodes w t) = None \<and> \<not> cancel_requested (nodes w t)
     \<and> owner_kind (nodes w t) = kind_of w (owner (nodes w t))
     \<and> (owner_kind (nodes w t) = ConditionVariable \<longleftrightarrow> relock (nodes w t) \<noteq> None)
     \<and> (\<forall>m. relock (nodes w t) = Some m \<longrightarrow> kind_of w m = Mutex)"

lemma finish_inv:
  "sync_inv setting {} w held \<Longrightarrow> \<not> child (tasks w t) \<Longrightarrow> sync_inv setting {} (finish t s w) held"
  by (rule sync_inv_task [where w = w and t = t]) (auto simp: finish_def set_task_def)

text \<open>The beginning of \<^verbatim>\<open>wait\<close>, up to the unlock of a condition variable wait's mutex.\<close>

definition begin_wait :: "nat \<Rightarrow> nat \<Rightarrow> world \<Rightarrow> world" where
  "begin_wait t l w = set_node t (\<lambda>r. r\<lparr>loop := Some l\<rparr>) (awaited_by t w)"

lemma begin_wait_sels [simp]:
  "prims (begin_wait t l w) = prims w" "child (tasks (begin_wait t l w) t)"
  "owner (nodes (begin_wait t l w) t) = owner (nodes w t)"
  "relock (nodes (begin_wait t l w) t) = relock (nodes w t)"
  "cancel_requested (nodes (begin_wait t l w) t) = cancel_requested (nodes w t)"
  "kind_of (begin_wait t l w) = kind_of w"
  by (simp_all add: begin_wait_def awaited_by_def set_defs kind_of_def fun_eq_iff)

lemma begin_wait_inv:
  assumes "sync_inv {} {} w held" "about_to_wait t w"
  shows "sync_inv {} {t} (begin_wait t l w) held"
proof (rule sync_inv_task [where w = w and t = t])
  have n: "nodes (begin_wait t l w) t = (nodes w t)\<lparr>state := Running, loop := Some l\<rparr>"
    "tasks (begin_wait t l w) t = (tasks w t)\<lparr>child := True\<rparr>"
    by (simp_all add: begin_wait_def awaited_by_def set_defs)
  show "node_ok (kind_of w) (nodes (begin_wait t l w) t) \<and> task_state (tasks (begin_wait t l w) t) = Running
      \<and> queue (nodes (begin_wait t l w) t) = None \<and> (t \<in> {t} \<longrightarrow> loop (nodes (begin_wait t l w) t) \<noteq> None)"
    using assms(2) unfolding n about_to_wait_def node_ok_def by (elim conjE) simp
  show "sync_inv {} {} w held" by (rule assms(1))
qed (use assms(2) in \<open>auto simp: begin_wait_def awaited_by_def set_defs about_to_wait_def\<close>)

lemma wait_unfold:
  "\<not> task_cancelled (tasks w t) \<Longrightarrow> wait t l w =
     (let w = begin_wait t l w; w = (case relock (nodes w t) of Some m \<Rightarrow> unlock m w | None \<Rightarrow> w)
      in sync_insert (owner (nodes w t)) t w)"
  by (simp add: wait_def begin_wait_def)

lemma wait_inv:
  assumes "sync_inv {} {} w held" "about_to_wait t w" "relock (nodes w t) = None"
    "kind_of w (owner (nodes w t)) = Mutex \<Longrightarrow> locked (prims w (owner (nodes w t)))"
    "kind_of w (owner (nodes w t)) = Semaphore \<Longrightarrow> count (prims w (owner (nodes w t))) = 0"
    "kind_of w (owner (nodes w t)) = Event \<Longrightarrow> \<not> signaled (prims w (owner (nodes w t)))"
  shows "sync_inv {} {} (wait t l w) held"
proof (cases "task_cancelled (tasks w t)")
  case True
  with finish_inv [OF assms(1)] assms(2) show ?thesis by (simp add: wait_def about_to_wait_def)
next
  case False
  have "wait t l w = sync_insert (owner (nodes w t)) t (begin_wait t l w)"
    using assms(3) by (simp add: wait_unfold [OF False])
  then show ?thesis
    using assms(2,4-6)
    by (simp only:, intro insert_inv [OF begin_wait_inv [OF assms(1,2), of l]])
      (simp_all add: about_to_wait_def)
qed

lemma wait_condition_inv:
  assumes "sync_inv {} {} w held" "about_to_wait t w" "relock (nodes w t) = Some m" "(t, m) \<in> held"
  shows "sync_inv {} {} (wait t l w) (if task_cancelled (tasks w t) then held else held - {(t, m)})"
proof (cases "task_cancelled (tasks w t)")
  case True
  with finish_inv [OF assms(1)] assms(2) show ?thesis by (simp add: wait_def about_to_wait_def)
next
  case False
  let ?w = "unlock m (begin_wait t l w)"
  have m: "kind_of w m = Mutex" and c: "kind_of w (owner (nodes w t)) = ConditionVariable"
    "\<not> cancel_requested (nodes w t)"
    using assms(2,3) by (auto simp: about_to_wait_def)
  have i: "sync_inv {} {t} ?w (held - {(t, m)})"
    using begin_wait_inv [OF assms(1,2), of l] assms(4) m by (intro unlock_held_inv) auto
  have s: "same_waits (begin_wait t l w) ?w" by (rule same_waits_unlock)
  have "wait t l w = sync_insert (owner (nodes w t)) t ?w"
    using assms(3) s by (simp add: wait_unfold [OF False] same_waits_def)
  then show ?thesis using s c False
    by (simp only: if_False, intro insert_inv [OF i]) (simp_all add: same_waits_def)
qed


section \<open>Cancelling\<close>

definition flag :: "nat \<Rightarrow> world \<Rightarrow> world" where
  "flag t w = set_node t (\<lambda>r. r\<lparr>cancel_requested := True\<rparr>) w"

lemma flag_sels [simp]:
  "prims (flag t w) = prims w" "tasks (flag t w) = tasks w" "deferred (flag t w) = deferred w"
  "queued_waits (flag t w) = queued_waits w" "queue (nodes (flag t w) u) = queue (nodes w u)"
  "loop (nodes (flag t w) u) = loop (nodes w u)" "relock (nodes (flag t w) u) = relock (nodes w u)"
  "owner (nodes (flag t w) u) = owner (nodes w u)" "state (nodes (flag t w) u) = state (nodes w u)"
  "owner_kind (nodes (flag t w) u) = owner_kind (nodes w u)" "kind_of (flag t w) = kind_of w"
  "cancel_requested (nodes (flag t w) u) \<longleftrightarrow> u = t \<or> cancel_requested (nodes w u)"
  by (simp_all add: flag_def set_node_def kind_of_def fun_eq_iff)

lemma flag_wf:
  assumes "wf moving w" "child (tasks w t) \<Longrightarrow> queue (nodes w t) \<noteq> Some (owner (nodes w t))"
  shows "wf moving (flag t w)"
proof -
  have "node_ok (kind_of w) (nodes (flag t w) u)" if "child (tasks w u)" for u
    using assms that by (auto simp: wf_def nodes_ok_def node_ok_def)
  then show ?thesis using assms(1)
    by (simp add: wf_def queues_ok_def deferred_ok_def tracked_ok_def nodes_ok_def)
qed

lemma carries_flag:
  "carries moving (flag t w) u m \<longleftrightarrow> carries moving w u m \<and> (u = t \<longrightarrow> relock (nodes w t) = Some m)"
  by (auto simp: carries_def)

text \<open>Only a granted wait for a mutex gives it up when a cancel reaches it.\<close>

lemma flag_mutexes:
  assumes "mutexes_ok token {} moving w held"
    "\<And>m. kind_of w m = Mutex \<Longrightarrow> carries moving w t m \<Longrightarrow> relock (nodes w t) = Some m"
  shows "mutexes_ok token {} moving (flag t w) held"
  using assms unfolding mutexes_ok_def mutex_ok_def carries_flag flag_sels by metis

lemma flag_lock:
  assumes "mutexes_ok token {} moving w held" "carries moving w t m" "relock (nodes w t) = None"
    "kind_of w m = Mutex" "owner (nodes w t) = m"
  shows "mutexes_ok (token(m := None)) {m} moving (flag t w) held"
  unfolding mutexes_ok_def flag_sels
proof (intro allI impI)
  fix m'
  assume k: "kind_of w m' = Mutex"
  then have old: "mutex_ok (token m') False moving w held m'"
    using assms(1) by (simp add: mutexes_ok_def)
  have "carries moving w t m' \<longleftrightarrow> m' = m" using assms(2,3,5) by (auto simp: carries_def)
  then show "mutex_ok ((token(m := None)) m') (m' \<in> {m}) moving (flag t w) held m'"
    using old assms(3) unfolding mutex_ok_def carries_flag flag_sels by (cases "m' = m") auto
qed

lemma end_cancelled_inv:
  assumes "sync_inv {} moving w held" "moving \<subseteq> {t}" "t \<in> moving \<or> loop (nodes w t) = None"
  shows "sync_inv {} {} (end_cancelled t w) held"
  by (rule sync_inv_task [where w = w and t = t])
    (use assms in \<open>auto simp: end_cancelled_def finish_def set_defs\<close>)

text \<open>A task takes a free mutex.\<close>

lemma lock_inv:
  assumes "sync_inv {} moving w held" "\<not> locked (prims w m)" "kind_of w m = Mutex"
  shows "sync_inv {} moving (set_prim m (\<lambda>r. r\<lparr>locked := True\<rparr>) w) (Set.insert (t, m) held)"
proof -
  obtain token where "mutexes_ok token {} moving w held" using assms(1) by (auto simp: sync_inv_def)
  then have old: "mutex_ok (token m') False moving w held m'" if "kind_of w m' = Mutex" for m'
    using that by (simp add: mutexes_ok_def)
  have "mutex_ok ((token(m := Some (True, t))) m') False moving
      (set_prim m (\<lambda>r. r\<lparr>locked := True\<rparr>) w) (Set.insert (t, m) held) m'" if "kind_of w m' = Mutex" for m'
    using old [OF that] assms(2) unfolding mutex_ok_def carries_set_prim by (cases "m' = m") auto
  then have "mutexes_ok (token(m := Some (True, t))) {} moving
      (set_prim m (\<lambda>r. r\<lparr>locked := True\<rparr>) w) (Set.insert (t, m) held)"
    unfolding mutexes_ok_def by simp
  with assms(1) show ?thesis by (auto simp: sync_inv_def units_ok_def)
qed


text \<open>
  A queued or abandoned wait that is cancelled ends, with its mutex if it is one of a condition
  variable and the mutex is free; else it waits for the mutex, or stays as it is.
\<close>

definition held_after :: "nat \<Rightarrow> world \<Rightarrow> (nat \<times> nat) set \<Rightarrow> (nat \<times> nat) set" where
  "held_after t w held = (case relock (nodes w t) of
     Some m \<Rightarrow> if locked (prims w m) then held else Set.insert (t, m) held | None \<Rightarrow> held)"

lemma cancel_queued_inv:
  assumes "sync_inv {} moving w held" "moving \<subseteq> {t}" "child (tasks w t)"
    "t \<in> moving \<or> loop (nodes w t) = None"
  shows "sync_inv {} {} (cancel_queued t w) (held_after t w held)"
proof -
  have n: "node_ok (kind_of w) (nodes w t)" and l: "t \<in> moving \<longrightarrow> loop (nodes w t) \<noteq> None"
    using assms(1,3) by (auto simp: sync_inv_def wf_def nodes_ok_def)
  show ?thesis
  proof (cases "relock (nodes w t)")
    case None
    then show ?thesis using end_cancelled_inv [OF assms(1,2,4)] by (simp add: cancel_queued_def held_after_def)
  next
    case (Some m)
    then have k: "kind_of w m = Mutex" using n by (auto simp: node_ok_def)
    show ?thesis
    proof (cases "locked (prims w m)")
      case False
      let ?w = "set_prim m (\<lambda>r. r\<lparr>locked := True\<rparr>) w"
      have "sync_inv {} moving ?w (Set.insert (t, m) held)" by (rule lock_inv [OF assms(1) False k])
      from end_cancelled_inv [OF this assms(2)] assms(4) False Some show ?thesis
        by (simp add: cancel_queued_def try_lock_def held_after_def)
    next
      case True
      show ?thesis
      proof (cases "loop (nodes w t) = None")
        case False
        with assms(2,4) have m: "moving = {t}" by auto
        obtain token where i: "wf {t} w" "mutexes_ok token {} {t} w held" "units_ok {} w"
          using assms(1) by (auto simp: sync_inv_def m)
        have "wf {} (sync_insert m t w)" using i(1) assms(3) Some by (intro wf_insert) auto
        moreover have "mutexes_ok token {} {} (sync_insert m t w) held"
          using i(2) True by (intro mutexes_insert) auto
        moreover have "units_ok {} (sync_insert m t w)"
          using i(3) k by (auto simp: units_ok_def)
        ultimately show ?thesis using True Some False
          by (auto simp: cancel_queued_def try_lock_def sync_inv_def held_after_def)
      next
        case loop: True
        with l assms(2) have "moving = {}" by auto
        with assms(1) True Some loop show ?thesis
          by (simp add: cancel_queued_def try_lock_def held_after_def)
      qed
    qed
  qed
qed

lemma flag_inv:
  assumes "sync_inv {} moving w held" "child (tasks w t) \<Longrightarrow> queue (nodes w t) \<noteq> Some (owner (nodes w t))"
    "\<And>m. kind_of w m = Mutex \<Longrightarrow> carries moving w t m \<Longrightarrow> relock (nodes w t) = Some m"
  shows "sync_inv {} moving (flag t w) held"
proof -
  obtain token where i: "wf moving w" "mutexes_ok token {} moving w held" "units_ok {} w"
    using assms(1) by (auto simp: sync_inv_def)
  have "wf moving (flag t w)" by (rule flag_wf [OF i(1) assms(2)])
  moreover have "mutexes_ok token {} moving (flag t w) held" by (rule flag_mutexes [OF i(2) assms(3)])
  moreover have "units_ok {} (flag t w)" using i(3) by (simp add: units_ok_def)
  ultimately show ?thesis by (auto simp: sync_inv_def)
qed

lemma remove_inv:
  assumes "sync_inv {} {} w held" "child (tasks w t)" "queue (nodes w t) = Some p"
  shows "sync_inv {} {t} (sync_remove p t w) held"
proof -
  obtain token where i: "wf {} w" "mutexes_ok token {} {} w held" "units_ok {} w"
    using assms(1) by (auto simp: sync_inv_def)
  have "t \<in> set (waiters (prims w p))" using i(1) assms by (auto simp: wf_def queues_ok_def)
  then have "wf {t} (sync_remove p t w)" by (rule wf_remove [OF i(1)])
  moreover have "mutexes_ok token {} {t} (sync_remove p t w) held" by (rule mutexes_remove [OF i(2) assms(3)])
  moreover have "units_ok {} (sync_remove p t w)"
    by (rule units_shrink [OF i(3)]) (auto split: if_splits)
  ultimately show ?thesis by (auto simp: sync_inv_def)
qed

text \<open>A granted wait that is cancelled hands on what it was granted.\<close>

lemma give_back_inv:
  assumes "sync_inv {} {} w held" "child (tasks w t)" "\<not> cancel_requested (nodes w t)"
    "queue (nodes w t) \<noteq> Some (owner (nodes w t))" "loop (nodes w t) \<noteq> None"
  shows "sync_inv {} {} (give_back t (flag t w)) held"
proof -
  let ?p = "owner (nodes w t)"
  have n: "node_ok (kind_of w) (nodes w t)"
    using assms(1,2) by (auto simp: sync_inv_def wf_def nodes_ok_def)
  have k: "kind_of w ?p = owner_kind (nodes w t)" using n by (simp add: node_ok_def)
  have flagged: "sync_inv {} {} (flag t w) held" if "owner_kind (nodes w t) \<noteq> Mutex"
    using that n assms by (intro flag_inv) (auto simp: carries_def node_ok_def)
  have woken: "sync_inv {} {} (set_prim ?p (\<lambda>r. r\<lparr>woken := woken r - 1\<rparr>) (flag t w)) held"
    if "owner_kind (nodes w t) \<noteq> Mutex"
    by (rule inv_set_prim [OF flagged [OF that]])
      (use flagged [OF that] in \<open>auto simp: sync_inv_def units_ok_def\<close>)
  show ?thesis
  proof (cases "owner_kind (nodes w t)")
    case Mutex
    obtain token where i: "wf {} w" "mutexes_ok token {} {} w held" "units_ok {} w"
      using assms(1) by (auto simp: sync_inv_def)
    have r: "relock (nodes w t) = None" "queue (nodes w t) = None"
      using n Mutex assms(4) by (auto simp: node_ok_def split: option.splits) (metis not_None_eq)
    have c: "carries {} w t ?p" using assms r by (simp add: carries_def)
    have "mutexes_ok (token(?p := None)) {?p} {} (flag t w) held"
      using flag_lock [OF i(2) c r(1)] k Mutex by simp
    moreover have "wf {} (flag t w)" using flag_wf [OF i(1)] r by simp
    ultimately have "sync_inv {} {} (unlock ?p (set_prim ?p (\<lambda>r. r\<lparr>woken := woken r - 1\<rparr>) (flag t w))) held"
      using i(3) k Mutex by (intro unlock_inv) (auto simp: units_ok_def)
    with Mutex show ?thesis by (simp add: give_back_def Let_def)
  next
    case Semaphore
    with release_inv [OF woken, of ?p 1] k show ?thesis by (simp add: give_back_def Let_def)
  next
    case Event
    with flagged show ?thesis by (simp add: give_back_def Let_def)
  next
    case ConditionVariable
    with wake_one_inv [OF woken, of ?p] k show ?thesis by (simp add: give_back_def notify_one_def Let_def)
  qed
qed


lemma same_waits_release: "tasks (release p n w) = tasks w"
proof (induction n arbitrary: w)
  case (Suc n)
  have "tasks (snd (wake_one p w)) = tasks w" using same_waits_wake by (simp add: same_waits_def)
  with Suc show ?case by (auto split: prod.split)
qed simp

lemma tasks_give_back: "tasks (give_back t w) = tasks w"
  using same_waits_wake same_waits_unlock same_waits_release
  by (simp add: give_back_def notify_one_def same_waits_def Let_def del: release.simps split: Kind.split)

lemma child_cancel_queued:
  "child (tasks w t) \<Longrightarrow> child (tasks (cancel_queued t w) t)
     \<longleftrightarrow> (\<exists>m. relock (nodes w t) = Some m \<and> locked (prims w m))"
  by (auto simp: cancel_queued_def try_lock_def end_cancelled_def finish_def set_task_def set_node_def
      split: option.split)

text \<open>What the task holds once a cancel has ended its wait.\<close>

definition held_if_ended :: "nat \<Rightarrow> world \<Rightarrow> world \<Rightarrow> (nat \<times> nat) set \<Rightarrow> (nat \<times> nat) set" where
  "held_if_ended t w w' held = (case relock (nodes w t) of
     Some m \<Rightarrow> if child (tasks w t) \<and> \<not> child (tasks w' t) then Set.insert (t, m) held else held
   | None \<Rightarrow> held)"

lemma held_if_ended_queued:
  assumes "child (tasks w t)" "child (tasks w0 t)" "relock (nodes w0 t) = relock (nodes w t)"
  shows "held_if_ended t w0 (cancel_queued t w) held = held_after t w held"
  using child_cancel_queued [OF assms(1)] assms
  by (auto simp: held_if_ended_def held_after_def split: option.split)

lemma remove_flag: "sync_remove p t (flag t w) = flag t (sync_remove p t w)"
proof -
  have swap: "n\<lparr>cancel_requested := True, queue := None\<rparr> = n\<lparr>queue := None, cancel_requested := True\<rparr>"
    for n :: wait_node by (cases n) simp
  show ?thesis
    by (cases w) (simp add: sync_remove_def untrack_wait_def flag_def set_defs swap split: option.split)
qed

lemma cancel_wait_inv:
  assumes "sync_inv {} {} w held" "child (tasks w t)" "\<not> cancel_requested (nodes w t)"
  shows "sync_inv {} {} (cancel_wait t (flag t w)) (held_if_ended t w (cancel_wait t (flag t w)) held)"
proof -
  let ?p = "owner (nodes w t)"
  consider (queued) "queue (nodes w t) = Some ?p"
    | (granted) "queue (nodes w t) \<noteq> Some ?p" "loop (nodes w t) \<noteq> None"
    | (abandoned) "queue (nodes w t) \<noteq> Some ?p" "loop (nodes w t) = None" by blast
  then show ?thesis
  proof cases
    case queued
    let ?w = "flag t (sync_remove ?p t w)"
    have e: "cancel_wait t (flag t w) = cancel_queued t ?w"
      using queued by (simp add: cancel_wait_def remove_flag)
    have r: "sync_inv {} {t} (sync_remove ?p t w) held" by (rule remove_inv [OF assms(1,2) queued])
    have q: "queue (nodes (sync_remove ?p t w) t) = None"
      by (simp add: sync_remove_def untrack_wait_def set_defs split: option.split)
    have "sync_inv {} {t} ?w held" using r q by (intro flag_inv) auto
    then have "sync_inv {} {} (cancel_queued t ?w) (held_after t ?w held)"
      using assms(2) by (intro cancel_queued_inv) auto
    then show ?thesis unfolding e using assms(2) by (subst held_if_ended_queued) auto
  next
    case granted
    have "cancel_wait t (flag t w) = give_back t (flag t w)"
      using granted by (simp add: cancel_wait_def)
    with give_back_inv [OF assms granted] assms(2) show ?thesis
      by (simp add: held_if_ended_def tasks_give_back split: option.split)
  next
    case abandoned
    have e: "cancel_wait t (flag t w) = cancel_queued t (flag t w)"
      using abandoned by (simp add: cancel_wait_def)
    have "sync_inv {} {} (flag t w) held" using assms abandoned by (intro flag_inv) (auto simp: carries_def)
    then have "sync_inv {} {} (cancel_queued t (flag t w)) (held_after t (flag t w) held)"
      using assms(2) abandoned by (intro cancel_queued_inv) auto
    then show ?thesis unfolding e using assms(2) by (subst held_if_ended_queued) auto
  qed
qed

lemma task_flag_inv:
  "sync_inv setting moving w held \<Longrightarrow> sync_inv setting moving (set_task t (\<lambda>r. r\<lparr>task_cancelled := b\<rparr>) w) held"
proof -
  let ?w = "set_task t (\<lambda>r. r\<lparr>task_cancelled := b\<rparr>) w"
  have s: "child (tasks ?w u) = child (tasks w u)" "task_state (tasks ?w u) = task_state (tasks w u)"
    "nodes ?w = nodes w" "prims ?w = prims w" "deferred ?w = deferred w" "queued_waits ?w = queued_waits w"
    "kind_of ?w = kind_of w" for u by (simp_all add: set_task_def kind_of_def fun_eq_iff)
  assume "sync_inv setting moving w held"
  then show ?thesis
    unfolding sync_inv_def wf_def queues_ok_def deferred_ok_def tracked_ok_def nodes_ok_def
      mutexes_ok_def mutex_ok_def carries_def units_ok_def s .
qed

lemma cancel_task_inv:
  assumes "sync_inv {} {} w held"
  shows "sync_inv {} {} (cancel_task t w) (held_if_ended t w (cancel_task t w) held)"
proof (cases "is_done (task_state (tasks w t)) \<or> task_cancelled (tasks w t)")
  case True
  with assms show ?thesis by (simp add: cancel_task_def held_if_ended_def split: option.split)
next
  case False
  let ?w = "set_task t (\<lambda>r. r\<lparr>task_cancelled := True\<rparr>) w"
  have i: "sync_inv {} {} ?w held" by (rule task_flag_inv [OF assms])
  have c: "child (tasks ?w t) = child (tasks w t)" "nodes ?w = nodes w" by (simp_all add: set_task_def)
  show ?thesis
  proof (cases "child (tasks w t) \<and> \<not> cancel_requested (nodes w t)")
    case True
    then have "state (nodes w t) = Running"
      using assms by (auto simp: sync_inv_def wf_def nodes_ok_def node_ok_def)
    then have "cancel_task t w = cancel_wait t (flag t ?w)"
      using False True c by (simp add: cancel_task_def cancel_node_def is_done_def flag_def)
    moreover have "held_if_ended t ?w w' held = held_if_ended t w w' held" for w'
      by (simp only: held_if_ended_def c)
    ultimately show ?thesis using cancel_wait_inv [OF i, of t] True c by simp
  next
    case other: False
    then have "cancel_task t w = ?w"
      using False c by (auto simp: cancel_task_def cancel_node_def)
    with i c show ?thesis by (simp add: held_if_ended_def split: option.split)
  qed
qed


section \<open>Resuming and abandoning\<close>

text \<open>What a task holds once its granted wait has resumed it, or ended it cancelled.\<close>

definition held_resumed :: "nat \<Rightarrow> world \<Rightarrow> (nat \<times> nat) set \<Rightarrow> (nat \<times> nat) set" where
  "held_resumed t w held = (case relock (nodes w t) of
     Some m \<Rightarrow> Set.insert (t, m) held
   | None \<Rightarrow> if owner_kind (nodes w t) = Mutex \<and> \<not> cancel_requested (nodes w t)
       then Set.insert (t, owner (nodes w t)) held else held)"

lemma held_resumed_takes:
  assumes "node_ok (kind_of w) (nodes w t)"
  shows "held_resumed t w held = held \<union> {(t, m) | m. takes w t m}"
  using takes_lock [OF assms] takes_relock [OF assms]
  by (cases "relock (nodes w t)") (auto simp: held_resumed_def)

lemma takes_unique:
  "node_ok (kind_of w) (nodes w t) \<Longrightarrow> takes w t m \<Longrightarrow> takes w t m' \<Longrightarrow> m = m'"
  using takes_lock takes_relock by (cases "relock (nodes w t)") auto

lemma undefer_mutexes:
  assumes "mutexes_ok token {} {} w held" "node_ok (kind_of w) (nodes w t)" "child (tasks w t)"
    "queue (nodes w t) = None" "loop (nodes w t) \<noteq> None"
  shows "\<exists>token. mutexes_ok token {} {t} (w\<lparr>deferred := d\<rparr>) (held_resumed t w held)"
proof -
  define token' where "token' m = (if takes w t m then Some (True, t) else token m)" for m
  have "mutex_ok (token' m) False {t} (w\<lparr>deferred := d\<rparr>) (held_resumed t w held) m"
    if k: "kind_of w m = Mutex" for m
  proof -
    have old: "mutex_ok (token m) False {} w held m" using assms(1) k by (simp add: mutexes_ok_def)
    have c: "carries {t} (w\<lparr>deferred := d\<rparr>) u m \<longleftrightarrow> carries {} w u m \<and> u \<noteq> t" for u
      by (auto simp: carries_def)
    have t: "carries {} w t m \<longleftrightarrow> takes w t m"
      using assms(3-5) k by (auto simp: carries_def takes_def)
    have h: "(u, m) \<in> held_resumed t w held \<longleftrightarrow> (u, m) \<in> held \<or> u = t \<and> takes w t m" for u
      unfolding held_resumed_takes [OF assms(2)] by auto
    have p: "prims (w\<lparr>deferred := d\<rparr>) = prims w" by simp
    show ?thesis using old t unfolding mutex_ok_def c h p token'_def by (cases "takes w t m") auto
  qed
  then show ?thesis by (intro exI [of _ token']) (simp add: mutexes_ok_def)
qed

lemma wf_undefer:
  assumes "wf {} w" "deferred w l = t # rest"
  shows "wf {t} (w\<lparr>deferred := (deferred w)(l := rest)\<rparr>)"
proof -
  have "distinct (deferred w l)
      \<and> set (deferred w l) = {t. child (tasks w t) \<and> queue (nodes w t) = None \<and> loop (nodes w t) = Some l}"
    using assms(1) by (simp add: wf_def deferred_ok_def)
  then have d: "distinct (t # rest)"
    "set (t # rest) = {t. child (tasks w t) \<and> queue (nodes w t) = None \<and> loop (nodes w t) = Some l}"
    unfolding assms(2) by blast+
  have t: "child (tasks w t)" "queue (nodes w t) = None" "loop (nodes w t) = Some l"
    using d(2) by auto
  have "deferred_ok {t} (w\<lparr>deferred := (deferred w)(l := rest)\<rparr>)"
    using assms(1) d t by (auto simp: wf_def deferred_ok_def)
  moreover have "queues_ok {t} (w\<lparr>deferred := (deferred w)(l := rest)\<rparr>)"
    "tracked_ok {t} (w\<lparr>deferred := (deferred w)(l := rest)\<rparr>)"
    "nodes_ok {t} (w\<lparr>deferred := (deferred w)(l := rest)\<rparr>)"
    using assms(1) t by (auto simp: wf_def queues_ok_def tracked_ok_def nodes_ok_def)
  ultimately show ?thesis by (simp add: wf_def)
qed

lemma drain_one_inv:
  assumes "sync_inv {} {} w held" "deferred w l = t # rest"
  shows "sync_inv {} {} (drain_one l w) (held_resumed t w held)"
proof -
  let ?w = "w\<lparr>deferred := (deferred w)(l := rest)\<rparr>" and ?held = "held_resumed t w held"
  obtain token where i: "wf {} w" "mutexes_ok token {} {} w held" "units_ok {} w"
    using assms(1) by (auto simp: sync_inv_def)
  have t: "child (tasks w t)" "queue (nodes w t) = None" "loop (nodes w t) \<noteq> None"
    "node_ok (kind_of w) (nodes w t)"
    using i(1) assms(2) unfolding wf_def deferred_ok_def nodes_ok_def
    by (metis (mono_tags, lifting) list.set_intros(1) mem_Collect_eq option.distinct(1))+
  have "sync_inv {} {t} ?w ?held"
    using wf_undefer [OF i(1) assms(2)] undefer_mutexes [OF i(2) t(4,1-3)] i(3)
    by (simp add: sync_inv_def units_ok_def)
  then have c: "sync_inv {} {} (set_task t (\<lambda>r. r\<lparr>child := False\<rparr>) ?w) ?held"
    by (rule sync_inv_task [where t = t]) (auto simp: set_task_def)
  have f: "\<not> child (tasks (set_task t (\<lambda>r. r\<lparr>child := False\<rparr>) ?w) t)" by (simp add: set_task_def)
  have "sync_inv {} {} (set_prim p (\<lambda>r. r\<lparr>woken := woken r - 1\<rparr>) (set_task t (\<lambda>r. r\<lparr>child := False\<rparr>) ?w)) ?held" for p
    by (rule inv_set_prim [OF c]) (use c in \<open>auto simp: sync_inv_def units_ok_def\<close>)
  then show ?thesis
    using finish_inv [OF c f] c assms(2) by (simp add: drain_one_def resume_def Let_def)
qed

lemma abandon_inv:
  assumes "sync_inv {} {} w held" "child (tasks w t)" "queue (nodes w t) = Some p"
  shows "sync_inv {} {} (abandon t w) held"
    "u \<noteq> t \<Longrightarrow> nodes (abandon t w) u = nodes w u" "tasks (abandon t w) = tasks w"
proof -
  define w1 where "w1 = (if queue (nodes w t) \<noteq> Some (owner (nodes w t)) \<and> \<not> cancel_requested (nodes w t)
    then set_prim (owner (nodes w t)) (\<lambda>r. r\<lparr>woken := woken r - 1\<rparr>) w else w)"
  have e: "abandon t w = set_node t (\<lambda>r. r\<lparr>loop := None\<rparr>) (sync_remove p t w1)"
    using assms(3) by (simp add: abandon_def w1_def Let_def)
  have n: "tasks w1 = tasks w" "nodes w1 = nodes w" by (simp_all add: w1_def)
  have "sync_inv {} {} w1 held"
    using assms(1) inv_set_prim [OF assms(1), of "\<lambda>r. r\<lparr>woken := woken r - 1\<rparr>" "owner (nodes w t)"]
    by (auto simp: w1_def sync_inv_def units_ok_def)
  then have r: "sync_inv {} {t} (sync_remove p t w1) held" using assms by (intro remove_inv) (simp_all add: n)
  then have ok: "node_ok (kind_of (sync_remove p t w1)) (nodes (sync_remove p t w1) t)"
    "task_state (tasks (sync_remove p t w1) t) = Running" "queue (nodes (sync_remove p t w1) t) = None"
    using assms(2) by (auto simp: sync_inv_def wf_def nodes_ok_def n)
  show "sync_inv {} {} (abandon t w) held" unfolding e
    by (rule sync_inv_task [OF r, where t = t]) (use ok in \<open>auto simp: set_node_def node_ok_def\<close>)
  show "nodes (abandon t w) u = nodes w u" if "u \<noteq> t"
    using that unfolding e by (simp add: set_node_def sync_remove_def untrack_wait_def n set_prim_def split: option.split)
  show "tasks (abandon t w) = tasks w" unfolding e by (simp add: set_node_def n)
qed

lemma abandon_all_inv:
  assumes "sync_inv {} {} w held"
  shows "sync_inv {} {} (abandon_all l w) held"
proof -
  have "sync_inv {} {} (fold abandon ts w) held"
    if "sync_inv {} {} w held" "distinct ts" "\<forall>t\<in>set ts. child (tasks w t) \<and> queue (nodes w t) \<noteq> None"
    for ts w using that
  proof (induction ts arbitrary: w)
    case (Cons t ts)
    then obtain p where "queue (nodes w t) = Some p" by auto
    with Cons.prems have a: "sync_inv {} {} (abandon t w) held"
      "\<And>u. u \<noteq> t \<Longrightarrow> nodes (abandon t w) u = nodes w u" "tasks (abandon t w) = tasks w"
      using abandon_inv by auto
    have "\<forall>u\<in>set ts. child (tasks (abandon t w) u) \<and> queue (nodes (abandon t w) u) \<noteq> None"
      using Cons.prems(2,3) a(2,3) by (metis distinct.simps(2) list.set_intros(2))
    with Cons.IH [OF a(1)] Cons.prems(2) show ?case by simp
  qed simp
  then show ?thesis using assms unfolding abandon_all_def
    by (auto simp: sync_inv_def wf_def tracked_ok_def)
qed

end
