(* ===== verification/Transition.thy ===== *)
theory Transition
  imports Main
begin

text \<open>
  Transition systems: a property of the states a system starts in that every step keeps holds of
  every state a run comes to. The systems of the sync primitives,
  of the task tree and of cancellation are instances.
\<close>

locale kept_invariant =
  fixes start :: "'s \<Rightarrow> bool" and step :: "'s \<Rightarrow> 's \<Rightarrow> bool" and inv :: "'s \<Rightarrow> bool"
  assumes at_start: "start s \<Longrightarrow> inv s"
    and at_step: "inv s \<Longrightarrow> step s s' \<Longrightarrow> inv s'"
begin

lemma run_inv:
  assumes "step\<^sup>*\<^sup>* s s'" "start s"
  shows "inv s'"
  using assms(1)
proof (induction rule: rtranclp_induct)
  case base
  then show ?case using at_start [OF assms(2)] .
next
  case (step y z)
  then show ?case using at_step by blast
qed

end

end
