(* ===== verification/Sync_Steps.thy ===== *)
theory Sync_Steps
  imports Sync Transition "HOL-Library.Sublist"
begin

text \<open>
  The sync primitives in use, as a transition system: tasks lock, acquire, wait, release and
  notify, cancels reach them, loops resume what was woken and go. A state is the primitives, tasks
  and loops, the mutexes that tasks hold, each with the task that locked it (a guard may go to
  another task, which then unlocks it), and the loops that are gone. A task unlocks only a mutex
  that is held and waits on a condition variable with a mutex it holds, as the code requires; any
  other order of operations can happen.
\<close>

section \<open>The steps\<close>

type_synonym config = "world \<times> (nat \<times> nat) set \<times> nat set"

definition runs :: "world \<Rightarrow> nat \<Rightarrow> bool" where
  "runs w t \<longleftrightarrow> task_state (tasks w t) = Running \<and> \<not> child (tasks w t)"

inductive step :: "config \<Rightarrow> config \<Rightarrow> bool" where
  ready: "runs w t \<Longrightarrow> kind_of w p \<noteq> ConditionVariable \<Longrightarrow>
    await_ready t (new_wait t p None w) = (True, w') \<Longrightarrow>
    step (w, held, gone) (w', if kind_of w p = Mutex then Set.insert (t, p) held else held, gone)"
| suspend: "runs w t \<Longrightarrow> l \<notin> gone \<Longrightarrow> kind_of w p \<noteq> ConditionVariable \<Longrightarrow>
    await_ready t (new_wait t p None w) = (False, w') \<Longrightarrow>
    step (w, held, gone) (wait t l w', held, gone)"
| condition_wait: "runs w t \<Longrightarrow> l \<notin> gone \<Longrightarrow> kind_of w c = ConditionVariable \<Longrightarrow> kind_of w m = Mutex \<Longrightarrow>
    (t, m) \<in> held \<Longrightarrow>
    step (w, held, gone) (wait t l (new_wait t c (Some m) w),
      if task_cancelled (tasks w t) then held else held - {(t, m)}, gone)"
| unlock: "kind_of w m = Mutex \<Longrightarrow> (t, m) \<in> held \<Longrightarrow>
    step (w, held, gone) (unlock m w, held - {(t, m)}, gone)"
| try_lock: "runs w t \<Longrightarrow> kind_of w m = Mutex \<Longrightarrow> try_lock m w = (taken, w') \<Longrightarrow>
    step (w, held, gone) (w', if taken then Set.insert (t, m) held else held, gone)"
| try_acquire: "kind_of w p = Semaphore \<Longrightarrow> step (w, held, gone) (snd (try_acquire p w), held, gone)"
| release: "kind_of w p = Semaphore \<Longrightarrow> step (w, held, gone) (release p n w, held, gone)"
| set_event: "kind_of w p = Event \<Longrightarrow> step (w, held, gone) (set_event p w, held, gone)"
| reset_event: "kind_of w p = Event \<Longrightarrow> step (w, held, gone) (reset_event p w, held, gone)"
| notify_one: "kind_of w p = ConditionVariable \<Longrightarrow> step (w, held, gone) (notify_one p w, held, gone)"
| notify_all: "kind_of w p = ConditionVariable \<Longrightarrow> step (w, held, gone) (notify_all p w, held, gone)"
| cancel: "step (w, held, gone) (cancel_task t w, held_if_ended t w (cancel_task t w) held, gone)"
| resume: "l \<notin> gone \<Longrightarrow> deferred w l = t # rest \<Longrightarrow>
    step (w, held, gone) (drain_one l w, held_resumed t w held, gone)"
| destroy: "l \<notin> gone \<Longrightarrow> step (w, held, gone) (abandon_all l w, held, Set.insert l gone)"
| start: "task_state (tasks w t) = Pending \<Longrightarrow> step (w, held, gone) (start t w, held, gone)"
| finish: "runs w t \<Longrightarrow> s = Succeeded \<or> s = Failed \<Longrightarrow> step (w, held, gone) (finish t s w, held, gone)"

text \<open>Nothing waits at first, no mutex is locked, and no task has started.\<close>

definition initial :: "world \<Rightarrow> bool" where
  "initial w \<longleftrightarrow> (\<forall>p. waiters (prims w p) = [] \<and> \<not> locked (prims w p) \<and> 0 \<le> count (prims w p))
     \<and> (\<forall>t. tasks w t = \<lparr>task_state = Pending, task_cancelled = False, child = False\<rparr>)
     \<and> (\<forall>l. deferred w l = [] \<and> queued_waits w l = [])"

inductive reachable :: "world \<Rightarrow> config \<Rightarrow> bool" for w0 where
  start: "initial w0 \<Longrightarrow> reachable w0 (w0, {}, {})"
| step: "reachable w0 c \<Longrightarrow> step c c' \<Longrightarrow> reachable w0 c'"

section \<open>The invariant\<close>

lemma initial_inv: "initial w \<Longrightarrow> sync_inv {} {} w {}"
proof -
  assume i: "initial w"
  have "mutexes_ok (\<lambda>m. None) {} {} w {}"
    using i by (simp add: mutexes_ok_def mutex_ok_def initial_def carries_def)
  with i show ?thesis
    by (auto simp: sync_inv_def wf_def queues_ok_def deferred_ok_def tracked_ok_def nodes_ok_def
        units_ok_def initial_def)
qed

lemma new_wait_about:
  assumes "runs w t" "kind_of w p = ConditionVariable \<longleftrightarrow> m \<noteq> None" "\<And>x. m = Some x \<Longrightarrow> kind_of w x = Mutex"
  shows "about_to_wait t (new_wait t p m w)"
  using assms by (simp add: about_to_wait_def runs_def)

lemma try_acquire_inv:
  assumes "sync_inv {} moving w held" "kind_of w p = Semaphore"
  shows "sync_inv {} moving (snd (try_acquire p w)) held"
proof -
  have "units_ok {} (set_prim p (\<lambda>r. r\<lparr>count := count r - 1\<rparr>) w)" if "0 < count (prims w p)"
    using assms that by (auto simp: sync_inv_def units_ok_def)
  then show ?thesis
    using assms inv_set_prim [OF assms(1), of "\<lambda>r. r\<lparr>count := count r - 1\<rparr>" p]
    by (auto simp: try_acquire_def)
qed

lemma try_lock_inv:
  assumes "sync_inv {} moving w held" "kind_of w m = Mutex" "try_lock m w = (taken, w')"
  shows "sync_inv {} moving w' (if taken then Set.insert (t, m) held else held)"
  using assms lock_inv [OF assms(1) _ assms(2)] by (auto simp: try_lock_def split: if_splits)

lemma ready_inv:
  assumes "sync_inv {} {} w held" "runs w t" "await_ready t (new_wait t p None w) = (True, w')"
  shows "sync_inv {} {} w' (if kind_of w p = Mutex then Set.insert (t, p) held else held)"
proof -
  let ?w = "new_wait t p None w"
  have i: "sync_inv {} {} ?w held" using assms(1,2) by (intro new_wait_inv) (simp_all add: runs_def)
  show ?thesis
  proof (cases "kind_of w p")
    case Mutex
    with assms(3) try_lock_inv [OF i, of p True w' t] show ?thesis by (simp add: await_ready_def)
  next
    case Semaphore
    with assms(3) try_acquire_inv [OF i, of p] show ?thesis by (auto simp: await_ready_def)
  next
    case Event
    with assms(3) i show ?thesis by (auto simp: await_ready_def)
  next
    case ConditionVariable
    with assms(3) show ?thesis by (simp add: await_ready_def)
  qed
qed

lemma suspend_inv:
  assumes "sync_inv {} {} w held" "runs w t" "kind_of w p \<noteq> ConditionVariable"
    "await_ready t (new_wait t p None w) = (False, w')"
  shows "sync_inv {} {} (wait t l w') held"
proof -
  let ?w = "new_wait t p None w"
  have i: "sync_inv {} {} ?w held" using assms(1,2) by (intro new_wait_inv) (simp_all add: runs_def)
  have a: "about_to_wait t ?w" using assms(2,3) by (intro new_wait_about) auto
  have w': "w' = ?w" "kind_of w p = Mutex \<Longrightarrow> locked (prims w p)"
    "kind_of w p = Semaphore \<Longrightarrow> count (prims w p) \<le> 0" "kind_of w p = Event \<Longrightarrow> \<not> signaled (prims w p)"
    using assms(3,4) by (auto simp: await_ready_def try_lock_def try_acquire_def is_set_def Let_def
        split: Kind.splits if_splits)
  have "kind_of w p = Semaphore \<Longrightarrow> count (prims w p) = 0"
    using w'(3) assms(1) by (auto simp: sync_inv_def units_ok_def intro: antisym)
  then show ?thesis unfolding w'(1) using w'(2,4) by (intro wait_inv [OF i a]) simp_all
qed

lemma step_inv:
  "step c c' \<Longrightarrow> (case c of (w, held, gone) \<Rightarrow> sync_inv {} {} w held) \<Longrightarrow>
     (case c' of (w, held, gone) \<Rightarrow> sync_inv {} {} w held)"
proof (induction rule: step.induct)
  case (ready w t p w' held gone)
  then show ?case using ready_inv by simp
next
  case (suspend w t l gone p w' held)
  then show ?case using suspend_inv by simp
next
  case (condition_wait w t l gone c m held)
  have i: "sync_inv {} {} (new_wait t c (Some m) w) held"
    using condition_wait by (intro new_wait_inv) (simp_all add: runs_def)
  have "about_to_wait t (new_wait t c (Some m) w)" using condition_wait by (intro new_wait_about) auto
  from wait_condition_inv [OF i this] condition_wait(5) show ?case by simp
next
  case (unlock w m t held gone)
  then show ?case using unlock_held_inv by simp
next
  case (try_lock w t m taken w' held gone)
  then show ?case using try_lock_inv by simp
next
  case (try_acquire w p held gone)
  then show ?case using try_acquire_inv by simp
next
  case (start w t held gone)
  then have "\<not> child (tasks w t)"
    by (auto simp: sync_inv_def wf_def nodes_ok_def)
  with start show ?case using finish_inv [of "{}" w held t] unfolding start_def finish_def by simp
next
  case (finish w t s held gone)
  then show ?case using finish_inv by (simp add: runs_def)
qed (simp_all add: release_inv set_event_inv reset_event_inv notify_inv cancel_task_inv drain_one_inv
    abandon_all_inv)

interpretation sync: kept_invariant "\<lambda>c. \<exists>w. initial w \<and> c = (w, {}, {})" step "\<lambda>(w, held, gone). sync_inv {} {} w held"
  by unfold_locales (auto simp: initial_inv dest: step_inv)

lemma reachable_steps: "reachable w0 c \<Longrightarrow> initial w0 \<and> step\<^sup>*\<^sup>* (w0, {}, {}) c"
  by (induction rule: reachable.induct) (auto intro: rtranclp.rtrancl_into_rtrancl)

lemma reachable_inv: "reachable w0 (w, held, gone) \<Longrightarrow> sync_inv {} {} w held"
  using reachable_steps sync.run_inv by fastforce

section \<open>Mutual exclusion\<close>

text \<open>
  What holds a mutex: the tasks it is held for, and the granted waits whose tasks have not
  resumed, marked by whether the task has resumed with it.
\<close>

definition holders :: "world \<Rightarrow> (nat \<times> nat) set \<Rightarrow> nat \<Rightarrow> (bool \<times> nat) set" where
  "holders w held m = {(True, t) | t. (t, m) \<in> held} \<union> {(False, t) | t l. t \<in> set (deferred w l) \<and> takes w t m}"

lemma carries_deferred:
  assumes "wf {} w" "kind_of w m = Mutex"
  shows "carries {} w t m \<longleftrightarrow> (\<exists>l. t \<in> set (deferred w l) \<and> takes w t m)"
  using assms by (auto simp: wf_def deferred_ok_def carries_def takes_def)

lemma holders_token:
  assumes "wf {} w" "mutexes_ok token {} {} w held" "kind_of w m = Mutex"
  shows "holders w held m = (case token m of None \<Rightarrow> {} | Some x \<Rightarrow> {x})"
proof -
  have "(b, t) \<in> holders w held m \<longleftrightarrow> token m = Some (b, t)" for b t
    using assms(2,3) carries_deferred [OF assms(1,3), of t]
    by (cases b) (auto simp: holders_def mutexes_ok_def mutex_ok_def)
  then show ?thesis by (auto split: option.split)
qed

lemma mutual_exclusion_inv:
  assumes "sync_inv {} {} w held" "kind_of w m = Mutex"
  shows "(if locked (prims w m) then \<exists>x. holders w held m = {x} else holders w held m = {})
    \<and> (waiters (prims w m) \<noteq> [] \<longrightarrow> locked (prims w m))"
proof -
  obtain token where i: "wf {} w" "mutexes_ok token {} {} w held"
    using assms(1) by (auto simp: sync_inv_def)
  have "mutex_ok (token m) False {} w held m" using i(2) assms(2) by (simp add: mutexes_ok_def)
  then show ?thesis
    using holders_token [OF i assms(2)] by (auto simp: mutex_ok_def split: option.splits)
qed

text \<open>
  C2: whatever tasks, cancels and loops do with the primitives, a mutex is
  locked exactly when something holds it, and that is one thing: one task, or one waiter the
  mutex was handed to whose task has not resumed yet. Tasks wait for it only while it is locked.
\<close>

theorem mutual_exclusion:
  assumes "reachable w0 (w, held, gone)" "kind_of w m = Mutex"
  shows "(if locked (prims w m) then \<exists>x. holders w held m = {x} else holders w held m = {})
    \<and> (waiters (prims w m) \<noteq> [] \<longrightarrow> locked (prims w m))"
  using mutual_exclusion_inv [OF reachable_inv [OF assms(1)] assms(2)] .

text \<open>A world of a mutex, 0, a condition variable, 1, and tasks; it serves as an example below.\<close>

definition example_world :: world where
  "example_world = \<lparr>prims = (\<lambda>p. \<lparr>kind = (if p = 1 then ConditionVariable else Mutex), waiters = [], woken = 0, locked = False, count = 0, signaled = False\<rparr>),
     nodes = (\<lambda>t. \<lparr>owner = 0, owner_kind = Mutex, loop = None, relock = None, queue = None,
       state = Pending, cancel_requested = False\<rparr>),
     tasks = (\<lambda>t. \<lparr>task_state = Pending, task_cancelled = False, child = False\<rparr>),
     deferred = (\<lambda>l. []), queued_waits = (\<lambda>l. [])\<rparr>"

lemma example_initial: "initial example_world"
  by (simp add: initial_def example_world_def)

text \<open>Task 1 locks the mutex, and task 2 waits for it.\<close>

definition example_locked :: world where
  "example_locked = snd (try_lock 0 (start 2 (start 1 example_world)))"

definition example_waiting :: world where
  "example_waiting = wait 2 0 (new_wait 2 0 None example_locked)"

lemmas example_defs = example_world_def example_locked_def example_waiting_def start_def
  try_lock_def new_wait_def wait_def awaited_by_def sync_insert_def track_wait_def set_defs

lemma example_reachable_locked: "reachable example_world (example_locked, {(1, 0)}, {})"
proof -
  have "reachable example_world (start 1 example_world, {}, {})"
    by (rule reachable.step [OF reachable.start [OF example_initial]], rule step.start)
      (simp add: example_world_def)
  then have "reachable example_world (start 2 (start 1 example_world), {}, {})"
    by (rule reachable.step, intro step.start) (simp add: example_defs)
  then show ?thesis
  proof (rule reachable.step)
    have "step (start 2 (start 1 example_world), {}, {})
        (example_locked, if True then Set.insert (1, 0) {} else {}, {})"
      by (rule step.try_lock) (simp_all add: example_defs runs_def kind_of_def)
    then show "step (start 2 (start 1 example_world), {}, {}) (example_locked, {(1, 0)}, {})" by simp
  qed
qed

lemma example_reachable_waiting: "reachable example_world (example_waiting, {(1, 0)}, {})"
proof (rule reachable.step [OF example_reachable_locked])
  have "await_ready 2 (new_wait 2 0 None example_locked) = (False, new_wait 2 0 None example_locked)"
    by (simp add: await_ready_def example_defs)
  then show "step (example_locked, {(1, 0)}, {}) (example_waiting, {(1, 0)}, {})"
    unfolding example_waiting_def
    by (rule step.suspend [rotated 3]) (simp_all add: example_defs runs_def kind_of_def)
qed

theorem mutual_exclusion_witness:
  "waiters (prims example_waiting 0) = [2] \<and> (\<exists>x. holders example_waiting {(1, 0)} 0 = {x})"
proof -
  have "kind_of example_waiting 0 = Mutex" "waiters (prims example_waiting 0) = [2]"
    by (simp_all add: example_defs kind_of_def)
  with mutual_exclusion [OF example_reachable_waiting, of 0] show ?thesis by (auto split: if_splits)
qed

text \<open>
  C20: no task waits for what is there. A semaphore's count is never negative and
  is zero while a task waits for a unit; no task waits for an event that is set; and a task waits
  for a mutex only while something holds it, a task or a waiter on its way to resume.
\<close>

theorem no_lost_wakeups:
  assumes "reachable w0 (w, held, gone)"
  shows "(kind_of w p = Semaphore \<longrightarrow>
       0 \<le> count (prims w p) \<and> (waiters (prims w p) \<noteq> [] \<longrightarrow> count (prims w p) = 0))
    \<and> (kind_of w p = Event \<and> signaled (prims w p) \<longrightarrow> waiters (prims w p) = [])
    \<and> (kind_of w p = Mutex \<and> waiters (prims w p) \<noteq> [] \<longrightarrow> holders w held p \<noteq> {})"
  using reachable_inv [OF assms] mutual_exclusion_inv [OF reachable_inv [OF assms], of p]
  by (auto simp: sync_inv_def units_ok_def)

theorem no_lost_wakeups_witness: "holders example_waiting {(1, 0)} 0 \<noteq> {}"
proof -
  have "kind_of example_waiting 0 = Mutex" "waiters (prims example_waiting 0) = [2]"
    by (simp_all add: example_defs kind_of_def)
  with no_lost_wakeups [OF example_reachable_waiting, of 0] show ?thesis by simp
qed


section \<open>Condition variables\<close>

lemma tasks_wake [simp]: "tasks (snd (wake_one p w)) = tasks w" "tasks (unlock p w) = tasks w"
  using same_waits_wake same_waits_unlock by (simp_all add: same_waits_def)

lemma tasks_wake_times [simp]: "tasks (wake_times n p w) = tasks w"
  by (induction n arbitrary: w) (auto split: prod.split simp: prod_eq_iff intro: tasks_wake(1) [THEN trans [rotated]])

lemma tasks_release [simp]: "tasks (release p n w) = tasks w"
  by (rule same_waits_release)

lemma tasks_ops [simp]:
  "tasks (wake_all p w) = tasks w" "tasks (set_event p w) = tasks w" "tasks (reset_event p w) = tasks w"
  "tasks (notify_one p w) = tasks w" "tasks (notify_all p w) = tasks w" "tasks (abandon t w) = tasks w"
  "tasks (snd (try_lock p w)) = tasks w" "tasks (snd (try_acquire p w)) = tasks w"
  "tasks (snd (await_ready t w)) = tasks w"
  by (auto simp: wake_all_def set_event_def reset_event_def notify_one_def notify_all_def abandon_def
      try_lock_def try_acquire_def await_ready_def set_node_def Let_def split: option.split Kind.split)

lemma tasks_abandon_all [simp]: "tasks (abandon_all l w) = tasks w"
proof -
  have "tasks (fold abandon ts w) = tasks w" for ts by (induction ts arbitrary: w) simp_all
  then show ?thesis by (simp add: abandon_all_def)
qed

lemma child_wait: "child (tasks w t) \<Longrightarrow> child (tasks (wait u l w) t)"
  by (auto simp: wait_def finish_def awaited_by_def set_defs Let_def split: option.split)

lemma child_finish: "child (tasks (finish u s w) t) = child (tasks w t)" "child (tasks (start u w) t) = child (tasks w t)"
  by (auto simp: finish_def start_def set_task_def)

lemma child_cancel_other:
  assumes "u \<noteq> t"
  shows "child (tasks (cancel_task u w) t) = child (tasks w t)"
proof -
  have "child (tasks (cancel_queued u w) t) = child (tasks w t)" for w
    using assms by (auto simp: cancel_queued_def try_lock_def end_cancelled_def finish_def set_task_def
        set_node_def split: option.split)
  then show ?thesis
    using assms by (simp add: cancel_task_def cancel_node_def cancel_wait_def tasks_give_back Let_def)
      (auto simp: set_task_def set_node_def)
qed

lemma child_drain_other:
  assumes "deferred w l = u # rest" "u \<noteq> t"
  shows "child (tasks (drain_one l w) t) = child (tasks w t)"
  using assms by (auto simp: drain_one_def resume_def finish_def set_task_def Let_def)

text \<open>No step changes what kind a primitive is of.\<close>

lemma kind_of_wake_times [simp]: "kind_of (wake_times n p w) = kind_of w"
  by (induction n arbitrary: w) (auto split: prod.split simp: prod_eq_iff intro: kind_of_wake(1) [THEN trans [rotated]])

lemma kind_of_release [simp]: "kind_of (release p n w) = kind_of w"
proof (induction n arbitrary: w)
  case (Suc n)
  obtain woke w' where "wake_one p w = (woke, w')" by (cases "wake_one p w")
  with Suc kind_of_wake(1) [of p w] show ?case by simp
qed simp

lemma kind_of_ops [simp]:
  "kind_of (wake_all p w) = kind_of w" "kind_of (set_event p w) = kind_of w"
  "kind_of (reset_event p w) = kind_of w" "kind_of (notify_one p w) = kind_of w"
  "kind_of (notify_all p w) = kind_of w" "kind_of (abandon t w) = kind_of w"
  "kind_of (snd (try_lock p w)) = kind_of w" "kind_of (snd (try_acquire p w)) = kind_of w"
  "kind_of (snd (await_ready t w)) = kind_of w" "kind_of (finish t s w) = kind_of w"
  "kind_of (start t w) = kind_of w" "kind_of (drain_one l w) = kind_of w"
  "kind_of (give_back t w) = kind_of w" "kind_of (wait t l w) = kind_of w"
  "kind_of (end_cancelled t w) = kind_of w"
  by (auto simp: wake_all_def set_event_def reset_event_def notify_one_def notify_all_def abandon_def
      try_lock_def try_acquire_def await_ready_def finish_def start_def drain_one_def resume_def
      give_back_def wait_def awaited_by_def end_cancelled_def Let_def
      simp del: release.simps split: option.split Kind.split list.split)

lemma kind_of_cancel [simp]: "kind_of (cancel_task t w) = kind_of w"
proof -
  have "kind_of (cancel_queued t w) = kind_of w" for w
    by (auto simp: cancel_queued_def try_lock_def split: option.split)
  then show ?thesis by (simp add: cancel_task_def cancel_node_def cancel_wait_def Let_def)
qed

lemma kind_of_abandon_all [simp]: "kind_of (abandon_all l w) = kind_of w"
proof -
  have "kind_of (fold abandon ts w) = kind_of w" for ts by (induction ts arbitrary: w) simp_all
  then show ?thesis by (simp add: abandon_all_def)
qed

lemma kind_of_step: "step (w, held, gone) (w', held', gone') \<Longrightarrow> kind_of w' = kind_of w"
  by (cases rule: step.cases, assumption)
    (simp_all, (metis kind_of_new_wait snd_conv kind_of_ops(7,9))+)

text \<open>
  C13: every way out of a condition variable wait holds its mutex. In
  whatever step a task stops waiting on a condition variable, woken by a notification or ended by a
  cancel that reached it before or after one, it holds the mutex it waited with once the step is
  over, and is the only one to.
\<close>

theorem condition_wait_relocks:
  assumes "reachable w0 (w, held, gone)" "step (w, held, gone) (w', held', gone')"
    "child (tasks w t)" "relock (nodes w t) = Some m" "\<not> child (tasks w' t)"
  shows "(t, m) \<in> held' \<and> holders w' held' m = {(True, t)}"
proof -
  have h: "(t, m) \<in> held'"
    using assms(2)
  proof cases
    case (ready u p)
    then have "tasks w' = tasks w" using tasks_ops(9) [of u "new_wait u p None w"] by simp
    with assms(3,5) show ?thesis by simp
  next
    case (suspend u l p w1)
    then have "tasks w1 = tasks w" using tasks_ops(9) [of u "new_wait u p None w"] by simp
    with suspend child_wait [of w1 t u l] assms(3,5) show ?thesis by simp
  next
    case (condition_wait u l c n)
    with child_wait [of "new_wait u c (Some n) w" t u l] assms(3,5) show ?thesis by simp
  next
    case (try_lock u n taken)
    then have "tasks w' = tasks w" using tasks_ops(7) [of n w] by simp
    with assms(3,5) show ?thesis by simp
  next
    case (cancel u)
    with assms(3-5) child_cancel_other [of u t w] show ?thesis
      by (cases "u = t") (auto simp: held_if_ended_def)
  next
    case (resume l u rest)
    with assms(3-5) child_drain_other [of w l u rest t] show ?thesis
      by (cases "u = t") (auto simp: held_resumed_def)
  qed (use assms(3,5) in \<open>simp_all add: child_finish\<close>)
  have i: "sync_inv {} {} w held" "sync_inv {} {} w' held'"
    using reachable_inv assms(1,2) reachable.step by blast+
  have "kind_of w m = Mutex"
    using i(1) assms(3,4) by (auto simp: sync_inv_def wf_def nodes_ok_def node_ok_def)
  moreover have "kind_of w' = kind_of w" by (rule kind_of_step [OF assms(2)])
  ultimately have "\<exists>x. holders w' held' m \<subseteq> {x}"
    using mutual_exclusion_inv [OF i(2), of m] by (metis empty_subsetI order_refl)
  moreover have "(True, t) \<in> holders w' held' m" using h by (simp add: holders_def)
  ultimately show ?thesis using h by auto
qed


text \<open>Task 1 waits on the condition variable with the mutex it holds, and is cancelled.\<close>

definition example_condition :: world where
  "example_condition = wait 1 0 (new_wait 1 1 (Some 0) example_locked)"

lemma example_reachable_condition: "reachable example_world (example_condition, {}, {})"
proof (rule reachable.step [OF example_reachable_locked])
  have "step (example_locked, {(1, 0)}, {}) (example_condition,
      if task_cancelled (tasks example_locked 1) then {(1, 0)} else {(1, 0)} - {(1, 0)}, {})"
    unfolding example_condition_def
    by (rule step.condition_wait) (simp_all add: example_defs runs_def kind_of_def)
  then show "step (example_locked, {(1, 0)}, {}) (example_condition, {}, {})"
    by (simp add: example_defs)
qed

theorem condition_wait_relocks_witness:
  "holders (cancel_task 1 example_condition) {(1, 0)} 0 = {(True, 1)}"
proof -
  let ?w = "cancel_task 1 example_condition"
  have e: "child (tasks example_condition 1)" "relock (nodes example_condition 1) = Some 0"
    "\<not> child (tasks ?w 1)"
    by (simp_all add: example_condition_def example_defs unlock_def wake_one_def cancel_task_def
        cancel_node_def cancel_wait_def cancel_queued_def is_done_def sync_remove_def untrack_wait_def
        end_cancelled_def finish_def Let_def)
  have "step (example_condition, {}, {}) (?w, held_if_ended 1 example_condition ?w {}, {})"
    by (rule step.cancel)
  then have "step (example_condition, {}, {}) (?w, {(1, 0)}, {})"
    using e by (simp add: held_if_ended_def)
  from condition_wait_relocks [OF example_reachable_condition this e] show ?thesis by blast
qed

section \<open>Progress\<close>

text \<open>
  A loop drains its deferred list one turn after the other, \<^verbatim>\<open>drain_one\<close>, until the list is
  empty. Between two turns the resumed task runs: it takes any steps, wakes and cancels other tasks
  and so lengthens the list that is drained. A run is a sequence of steps of which \<^verbatim>\<open>n\<close> are
  turns of the loop \<^verbatim>\<open>l\<close>; nothing is said of the others. The list also holds operations of the
  loop that were done at once (\<^verbatim>\<open>defer_complete\<close>); their turns end other waits than those of the
  primitives, and are no part of this state.
\<close>

inductive loop_turn :: "nat \<Rightarrow> config \<Rightarrow> config \<Rightarrow> bool" for l where
  turn: "l \<notin> gone \<Longrightarrow> deferred w l = t # rest \<Longrightarrow>
    loop_turn l (w, held, gone) (drain_one l w, held_resumed t w held, gone)"

inductive loop_run :: "nat \<Rightarrow> config \<Rightarrow> nat \<Rightarrow> config \<Rightarrow> bool" for l where
  stay: "loop_run l c 0 c"
| turn: "loop_run l c n c' \<Longrightarrow> loop_turn l c' c'' \<Longrightarrow> loop_run l c (Suc n) c''"
| other: "loop_run l c n c' \<Longrightarrow> step c' c'' \<Longrightarrow> \<not> loop_turn l c' c'' \<Longrightarrow> loop_run l c n c''"

inductive_cases loop_turnE: "loop_turn l c c'"

lemma loop_turn_step: "loop_turn l c c' \<Longrightarrow> step c c'"
  by (auto elim: loop_turnE intro: step.resume)

lemma loop_run_steps: "loop_run l c n c' \<Longrightarrow> step\<^sup>*\<^sup>* c c'"
  by (induction rule: loop_run.induct) (auto dest: loop_turn_step)

lemma reachable_steps_trans: "step\<^sup>*\<^sup>* c c' \<Longrightarrow> reachable w0 c \<Longrightarrow> reachable w0 c'"
  by (induction rule: rtranclp_induct) (auto intro: reachable.step)

text \<open>
  What every operation but a turn does to the deferred lists and to the waits: it puts waits last,
  and changes neither what a wait waits for nor the mutex it comes with.
\<close>

definition only_defers :: "world \<Rightarrow> world \<Rightarrow> bool" where
  "only_defers w w' \<longleftrightarrow> (\<forall>l. prefix (deferred w l) (deferred w' l))
     \<and> (\<forall>t. owner (nodes w' t) = owner (nodes w t) \<and> relock (nodes w' t) = relock (nodes w t))"

lemma only_defers_refl [simp]: "only_defers w w"
  by (simp add: only_defers_def)

lemma only_defers_trans: "only_defers a b \<Longrightarrow> only_defers b c \<Longrightarrow> only_defers a c"
  unfolding only_defers_def by (metis prefix_order.trans)

lemma only_defers_sets [simp]:
  "only_defers a (set_prim p f w) = only_defers a w" "only_defers a (set_task t g w) = only_defers a w"
  "(\<And>r. owner (h r) = owner r \<and> relock (h r) = relock r) \<Longrightarrow> only_defers a (set_node t h w) = only_defers a w"
  by (auto simp: only_defers_def set_defs)

lemma only_defers_moves [simp]:
  "only_defers a (track_wait t w) = only_defers a w" "only_defers a (untrack_wait t w) = only_defers a w"
  "only_defers a (sync_insert p t w) = only_defers a w" "only_defers a (sync_remove p t w) = only_defers a w"
proof -
  show track: "only_defers a (track_wait t w) = only_defers a w" "only_defers a (untrack_wait t w) = only_defers a w" for t w
    by (simp_all add: only_defers_def track_wait_def untrack_wait_def split: option.split)
  show "only_defers a (sync_insert p t w) = only_defers a w" "only_defers a (sync_remove p t w) = only_defers a w"
    by (simp_all add: sync_insert_def sync_remove_def track)
qed

lemma only_defers_defer: "only_defers a w \<Longrightarrow> only_defers a (defer_resume t w)"
  by (auto simp: only_defers_def defer_resume_def prefix_append split: option.split)

lemma only_defers_lock [simp]:
  "only_defers a (snd (try_lock m w)) = only_defers a w" "only_defers a (snd (try_acquire m w)) = only_defers a w"
  "only_defers a (snd (await_ready t w)) = only_defers a w"
  by (auto simp: try_lock_def try_acquire_def await_ready_def Let_def split: Kind.split)

lemma only_defers_grant: "only_defers a w \<Longrightarrow> only_defers a (grant t p w)"
  by (auto simp: grant_def try_lock_def Let_def only_defers_defer split: option.split)

lemma only_defers_wake: "only_defers a w \<Longrightarrow> only_defers a (snd (wake_one p w))"
  by (auto simp: wake_one_def only_defers_grant split: list.split)

lemma only_defers_unlock: "only_defers a w \<Longrightarrow> only_defers a (unlock p w)"
  using only_defers_wake [of a w p] by (auto simp: unlock_def split: prod.split)

lemma only_defers_wake_times: "only_defers a w \<Longrightarrow> only_defers a (wake_times n p w)"
proof (induction n arbitrary: w)
  case (Suc n)
  then show ?case using only_defers_wake [of a w p] by (auto split: prod.split)
qed simp

lemma only_defers_release: "only_defers a w \<Longrightarrow> only_defers a (release p n w)"
proof (induction n arbitrary: w)
  case (Suc n)
  then show ?case using only_defers_wake [of a w p] by (auto split: prod.split)
qed simp

lemmas only_defers_wakes = only_defers_wake only_defers_unlock only_defers_wake_times only_defers_release

lemma only_defers_signals:
  assumes "only_defers a w"
  shows "only_defers a (set_event p w)" "only_defers a (reset_event p w)"
    "only_defers a (notify_one p w)" "only_defers a (notify_all p w)"
  using assms
  by (simp_all add: set_event_def reset_event_def notify_one_def notify_all_def wake_all_def only_defers_wakes)

lemma only_defers_tasks:
  assumes "only_defers a w"
  shows "only_defers a (wait t l w)" "only_defers a (finish t s w)" "only_defers a (start t w)"
    "only_defers a (end_cancelled t w)"
  using assms
  by (simp_all add: wait_def awaited_by_def finish_def start_def end_cancelled_def Let_def only_defers_wakes split: option.split)

lemma only_defers_cancel: "only_defers a w \<Longrightarrow> only_defers a (cancel_task t w)"
proof -
  have give: "only_defers a w \<Longrightarrow> only_defers a (give_back t w)" for w
    by (simp add: give_back_def Let_def notify_one_def only_defers_wakes del: release.simps split: Kind.split)
  have queued: "only_defers a w \<Longrightarrow> only_defers a (cancel_queued t w)" for w
    by (simp add: cancel_queued_def try_lock_def only_defers_tasks split: option.split)
  assume "only_defers a w"
  then show ?thesis
    by (simp add: cancel_task_def cancel_node_def cancel_wait_def Let_def give queued)
qed

lemma only_defers_abandon: "only_defers a w \<Longrightarrow> only_defers a (abandon_all l w)"
proof -
  have one: "only_defers a w \<Longrightarrow> only_defers a (abandon t w)" for t w
    by (simp add: abandon_def Let_def split: option.split)
  have "only_defers a w \<Longrightarrow> only_defers a (fold abandon ts w)" for ts w
    by (induction ts arbitrary: w) (simp_all add: one)
  then show "only_defers a w \<Longrightarrow> ?thesis" by (simp add: abandon_all_def)
qed


lemma drain_one_sels:
  assumes "deferred w l = t # rest"
  shows "deferred (drain_one l w) = (deferred w)(l := rest)" "nodes (drain_one l w) = nodes w"
    "u \<noteq> t \<Longrightarrow> tasks (drain_one l w) u = tasks w u"
    "\<not> child (tasks (drain_one l w) t)"
    "task_state (tasks (drain_one l w) t) = (if cancel_requested (nodes w t) then Cancelled else task_state (tasks w t))"
  using assms by (simp_all add: drain_one_def resume_def finish_def set_defs Let_def)

text \<open>Only a turn of a loop takes a wait off its deferred list; a task that waits goes on with the same wait.\<close>

lemma new_wait_defers:
  assumes "only_defers (new_wait u p m w) w'" "runs w u" "child (tasks w t)"
  shows "prefix (deferred w l) (deferred w' l)"
    "owner (nodes w' t) = owner (nodes w t) \<and> relock (nodes w' t) = relock (nodes w t)"
  using assms by (auto simp: only_defers_def new_wait_def set_node_def runs_def)

lemma only_defersD:
  "only_defers w w' \<Longrightarrow> prefix (deferred w l) (deferred w' l)
     \<and> owner (nodes w' t) = owner (nodes w t) \<and> relock (nodes w' t) = relock (nodes w t)"
  by (simp add: only_defers_def)

lemma step_defers:
  assumes "step (w, held, gone) (w', held', gone')" "\<not> loop_turn l (w, held, gone) (w', held', gone')"
    "child (tasks w t)"
  shows "prefix (deferred w l) (deferred w' l)
    \<and> owner (nodes w' t) = owner (nodes w t) \<and> relock (nodes w' t) = relock (nodes w t)"
  using assms(1)
proof cases
  case (ready u p)
  then have "only_defers (new_wait u p None w) w'" using only_defers_lock(3) [of _ u "new_wait u p None w"] by simp
  from new_wait_defers [OF this ready(3) assms(3)] show ?thesis by simp
next
  case (suspend u l' p w1)
  then have "only_defers (new_wait u p None w) w'"
    using only_defers_lock(3) [of _ u "new_wait u p None w"] by (simp add: only_defers_tasks)
  from new_wait_defers [OF this suspend(4) assms(3)] show ?thesis by simp
next
  case (condition_wait u l' c m)
  then have "only_defers (new_wait u c (Some m) w) w'" by (simp add: only_defers_tasks)
  from new_wait_defers [OF this condition_wait(4) assms(3)] show ?thesis by simp
next
  case (try_lock u m taken)
  then have "only_defers w w'" using only_defers_lock(1) [of w m w] by simp
  then show ?thesis by (rule only_defersD)
next
  case (resume l' u rest)
  with assms(2) have "l' \<noteq> l" by (auto intro: loop_turn.turn)
  with resume drain_one_sels(1,2) [OF resume(5)] show ?thesis by simp
qed (rule only_defersD, simp add: only_defers_wakes only_defers_signals only_defers_tasks
    only_defers_cancel only_defers_abandon)+

text \<open>
  The waits on a deferred list leave it in their order, one with each turn: after \<^verbatim>\<open>n\<close> turns
  the list starts with those that are left.
\<close>

lemma deferred_waits:
  assumes "reachable w0 (w, held, gone)" "t \<in> set (deferred w l)"
  shows "child (tasks w t)" "task_state (tasks w t) = Running" "node_ok (kind_of w) (nodes w t)"
  using reachable_inv [OF assms(1)] assms(2) by (auto simp: sync_inv_def wf_def deferred_ok_def nodes_ok_def)

lemma loop_run_defers:
  assumes "loop_run l c n c'" "reachable w0 c" "t \<in> set (drop n (deferred (fst c) l))"
  shows "prefix (drop n (deferred (fst c) l)) (deferred (fst c') l)
    \<and> owner (nodes (fst c') t) = owner (nodes (fst c) t) \<and> relock (nodes (fst c') t) = relock (nodes (fst c) t)"
  using assms
proof (induction rule: loop_run.induct)
  case (turn c n c' c'')
  let ?d = "deferred (fst c) l"
  have left: "drop n ?d = ?d ! n # drop (Suc n) ?d"
    using turn.prems(2) by (intro Cons_nth_drop_Suc [symmetric]) (cases "n < length ?d"; simp)
  then have IH: "prefix (drop n ?d) (deferred (fst c') l)"
    "owner (nodes (fst c') t) = owner (nodes (fst c) t)" "relock (nodes (fst c') t) = relock (nodes (fst c) t)"
    using turn.IH turn.prems by auto
  from turn.hyps(2) show ?case
  proof (rule loop_turnE)
    fix gone w u rest held
    assume c': "c' = (w, held, gone)" "c'' = (drain_one l w, held_resumed u w held, gone)" "deferred w l = u # rest"
    then show ?thesis using IH left by (simp add: drain_one_sels(1,2) [OF c'(3)])
  qed
next
  case (other c n c' c'')
  then have IH: "prefix (drop n (deferred (fst c) l)) (deferred (fst c') l)"
    "owner (nodes (fst c') t) = owner (nodes (fst c) t)" "relock (nodes (fst c') t) = relock (nodes (fst c) t)"
    by auto
  obtain w held gone w' held' gone' where c: "c' = (w, held, gone)" "c'' = (w', held', gone')"
    by (cases c', cases c'') auto
  have "reachable w0 c'" using reachable_steps_trans [OF loop_run_steps] other.hyps(1) other.prems(1) by blast
  moreover have "t \<in> set (deferred w l)" using IH(1) other.prems(2) c by (auto dest: set_mono_prefix)
  ultimately have "child (tasks w t)" using deferred_waits(1) c by blast
  with other.hyps(2,3) have s: "prefix (deferred w l) (deferred w' l)"
    "owner (nodes w' t) = owner (nodes w t)" "relock (nodes w' t) = relock (nodes w t)"
    using step_defers [of w held gone w' held' gone' l t] by (simp_all add: c)
  from prefix_order.trans [OF IH(1) [unfolded c fst_conv] s(1)] IH(2,3) s(2,3) show ?case by (simp add: c)
qed simp

lemma loop_run_split:
  assumes "loop_run l c n c'" "i < n"
  shows "\<exists>c1 c2. loop_run l c i c1 \<and> loop_turn l c1 c2 \<and> loop_run l c2 (n - Suc i) c'"
  using assms
proof (induction rule: loop_run.induct)
  case (turn c n c' c'')
  show ?case
  proof (cases "i = n")
    case True
    then have "loop_run l c'' (Suc n - Suc i) c''" by (simp add: loop_run.stay)
    with turn.hyps True show ?thesis by blast
  next
    case False
    then have "i < n" "Suc n - Suc i = Suc (n - Suc i)" using turn.prems by auto
    with turn show ?thesis by (metis loop_run.turn)
  qed
next
  case (other c n c' c'')
  then show ?case by (metis loop_run.other)
qed simp

text \<open>A turn resumes the first of the list.\<close>

lemma turn_resumes:
  assumes "reachable w0 (w, held, gone)" "loop_turn l (w, held, gone) (w', held', gone')" "deferred w l = t # rest"
  shows "\<not> child (tasks w' t)" "task_state (tasks w' t) = (if cancel_requested (nodes w t) then Cancelled else Running)"
    "takes w t m \<Longrightarrow> (t, m) \<in> held'"
proof -
  have d: "t \<in> set (deferred w l)" using assms(3) by simp
  have w': "w' = drain_one l w" "held' = held_resumed t w held" using assms(2,3) by (auto elim: loop_turnE)
  show "\<not> child (tasks w' t)" "task_state (tasks w' t) = (if cancel_requested (nodes w t) then Cancelled else Running)"
    using drain_one_sels(4,5) [OF assms(3)] deferred_waits(2) [OF assms(1) d] by (simp_all add: w')
  show "(t, m) \<in> held'" if "takes w t m"
    using that held_resumed_takes [OF deferred_waits(3) [OF assms(1) d], of held] by (auto simp: w')
qed

text \<open>
  C38: a loop that has drained its deferred list has resumed every task the list held
  at first, in the list's order, whatever the resumed tasks and others did between the turns. A
  run that comes to an empty list has taken a turn for each of them, and the turn of the task in
  place \<^verbatim>\<open>i\<close> follows \<^verbatim>\<open>i\<close> others: the task still waits when it comes, and with it goes on,
  runs or ends cancelled when a cancel has reached its wait, and holds the mutex its wait took.
\<close>

theorem drain_resumes:
  assumes "reachable w0 (w, held, gone)" "loop_run l (w, held, gone) n (w', held', gone')" "deferred w' l = []"
    "i < length (deferred w l)" "t = deferred w l ! i"
  shows "i < n \<and> (\<exists>w1 held1 gone1 w2 held2. loop_run l (w, held, gone) i (w1, held1, gone1)
    \<and> loop_turn l (w1, held1, gone1) (w2, held2, gone1)
    \<and> loop_run l (w2, held2, gone1) (n - Suc i) (w', held', gone')
    \<and> child (tasks w1 t) \<and> \<not> child (tasks w2 t)
    \<and> task_state (tasks w2 t) = (if cancel_requested (nodes w1 t) then Cancelled else Running)
    \<and> (\<forall>m. takes w1 t m \<longrightarrow> (t, m) \<in> held2))"
proof -
  have n: "i < n"
  proof (rule ccontr)
    assume late: "\<not> i < n"
    then have "deferred w l ! i \<in> set (drop n (deferred w l))"
      using assms(4) by (auto simp: in_set_conv_nth intro: exI [of _ "i - n"])
    with loop_run_defers [OF assms(2,1), of "deferred w l ! i"] assms(3,4) late show False by simp
  qed
  then obtain c1 c2 where r: "loop_run l (w, held, gone) i c1" "loop_turn l c1 c2"
    "loop_run l c2 (n - Suc i) (w', held', gone')"
    using loop_run_split [OF assms(2)] by blast
  obtain w1 held1 gone1 w2 held2 where c: "c1 = (w1, held1, gone1)" "c2 = (w2, held2, gone1)"
    using r(2) by (auto elim: loop_turnE)
  have left: "drop i (deferred w l) = t # drop (Suc i) (deferred w l)"
    using assms(4,5) by (simp add: Cons_nth_drop_Suc)
  then have "prefix (t # drop (Suc i) (deferred w l)) (deferred w1 l)"
    using loop_run_defers [OF r(1) assms(1), of t] by (simp add: c)
  then obtain rest where d: "deferred w1 l = t # rest" by (auto simp: prefix_def)
  have r1: "reachable w0 (w1, held1, gone1)"
    using reachable_steps_trans [OF loop_run_steps [OF r(1)] assms(1)] c by simp
  have "child (tasks w1 t)" by (rule deferred_waits(1) [OF r1, of t l]) (simp add: d)
  then show ?thesis using n r turn_resumes [OF r1 r(2) [unfolded c] d] unfolding c by blast
qed

text \<open>Task 1 unlocks the mutex, which goes to task 2, and the loop of task 2 drains.\<close>

definition example_unlocked :: world where
  "example_unlocked = unlock 0 example_waiting"

lemma example_reachable_unlocked: "reachable example_world (example_unlocked, {(1, 0)} - {(1, 0)}, {})"
  unfolding example_unlocked_def
  by (rule reachable.step [OF example_reachable_waiting], rule step.unlock) (simp_all add: example_defs kind_of_def)

lemma example_unlocked_deferred: "deferred example_unlocked 0 = [2]"
  by (simp add: example_unlocked_def unlock_def wake_one_def grant_def defer_resume_def sync_remove_def
      untrack_wait_def example_defs Let_def)

lemma example_drained:
  "loop_run 0 (example_unlocked, {(1, 0)} - {(1, 0)}, {}) 1
     (drain_one 0 example_unlocked, held_resumed 2 example_unlocked ({(1, 0)} - {(1, 0)}), {})"
  using loop_run.turn [OF loop_run.stay loop_turn.turn [OF _ example_unlocked_deferred]] by simp

theorem drain_resumes_witness:
  "deferred example_unlocked 0 = [2] \<and> (\<exists>w2. \<not> child (tasks w2 2)
     \<and> (\<exists>w1 held1 held2. loop_turn 0 (w1, held1) (w2, held2) \<and> child (tasks w1 2)))"
proof -
  have "deferred (drain_one 0 example_unlocked) 0 = []"
    by (simp add: drain_one_sels(1) [OF example_unlocked_deferred])
  moreover have "0 < length (deferred example_unlocked 0)" "2 = deferred example_unlocked 0 ! 0"
    by (simp_all add: example_unlocked_deferred)
  ultimately obtain w1 held1 gone1 w2 held2 where "loop_turn 0 (w1, held1, gone1) (w2, held2, gone1)"
    "child (tasks w1 2)" "\<not> child (tasks w2 2)"
    using drain_resumes [OF example_reachable_unlocked example_drained] by blast
  with example_unlocked_deferred show ?thesis by blast
qed

text \<open>The waiter \<^verbatim>\<open>unlock\<close> hands a mutex to is put last on the deferred list of its loop.\<close>

lemma unlock_first:
  assumes "sync_inv {} {} w held" "kind_of w m = Mutex" "waiters (prims w m) = t # ts"
  obtains l where "loop (nodes w t) = Some l" "deferred (unlock m w) l = deferred w l @ [t]"
    "waiters (prims (unlock m w) m) = ts" "takes (unlock m w) t m"
proof -
  have q: "t \<in> set (waiters (prims w m))" using assms(3) by simp
  have w: "wf {} w" using assms(1) by (simp add: sync_inv_def)
  obtain l where t: "child (tasks w t)" "queue (nodes w t) = Some m" "loop (nodes w t) = Some l"
    "node_ok (kind_of w) (nodes w t)" by (rule wf_queued [OF w q])
  have d: "t \<notin> set ts" using w assms(3) unfolding wf_def queues_ok_def by (metis distinct.simps(2))
  have r: "relock (nodes w t) = None" if "owner (nodes w t) = m"
    using t(4) assms(2) that by (auto simp: node_ok_def)
  have def_remove: "deferred (sync_remove m t w) = deferred w"
    by (simp add: sync_remove_def untrack_wait_def set_defs split: option.split)
  have grant: "deferred (grant t m (sync_remove m t w)) l = deferred w l @ [t]"
    "waiters (prims (grant t m (sync_remove m t w)) m) = ts"
    using t(3) r assms(3) d def_remove
    by (auto simp: grant_def defer_resume_def set_prim_def Let_def)
  have "unlock m w = grant t m (sync_remove m t w)" using assms(3) by (simp add: unlock_def wake_one_def)
  moreover have "takes (unlock m w) t m"
    using same_waits_unlock [of w m] t(2,4) assms(2) by (auto simp: same_waits_def takes_def node_ok_def)
  ultimately show thesis using grant t(3) that by simp
qed

lemma loop_run_kind_of: "loop_run l (w, held, gone) n (w', held', gone') \<Longrightarrow> kind_of w' = kind_of w"
proof -
  have "kind_of (fst c') = kind_of (fst c)" if "step\<^sup>*\<^sup>* c c'" for c c'
    using that
  proof (induction rule: rtranclp_induct)
    case (step c1 c2)
    then show ?case by (cases c1, cases c2) (auto dest: kind_of_step)
  qed simp
  from this [OF loop_run_steps] show "loop_run l (w, held, gone) n (w', held', gone') \<Longrightarrow> ?thesis" by fastforce
qed

lemma only_holder:
  assumes "reachable w0 (w, held, gone)" "kind_of w m = Mutex" "x \<in> holders w held m"
  shows "holders w held m = {x}"
  using mutual_exclusion_inv [OF reachable_inv [OF assms(1)] assms(2)] assms(3) by (auto split: if_splits)

text \<open>
  C8: an unlocked mutex goes to the task that has waited longest, and to no other
  before it. When the mutex is unlocked while tasks wait for it, the first of them is off the queue and
  the others keep their order. Whatever steps follow, that task has its turn of its loop once the
  loop has resumed those already on its deferred list. Until then it waits, and it alone holds the
  mutex; with its turn it goes on, runs or ends cancelled when a cancel has reached its wait, and is
  the one to hold the mutex. Only a wait of \<^verbatim>\<open>lock\<close> that a cancel reaches hands the mutex on;
  one of a condition variable comes back with the mutex in any case.
\<close>

theorem mutex_handed_over:
  assumes "reachable w0 (w, held, gone)" "kind_of w m = Mutex" "(u, m) \<in> held"
    "waiters (prims w m) = t # ts" "loop (nodes w t) = Some l"
    "loop_run l (unlock m w, held - {(u, m)}, gone) n (w', held', gone')" "n \<le> length (deferred w l)"
    "keeps \<longleftrightarrow> relock (nodes w t) \<noteq> None \<or> \<not> cancel_requested (nodes w' t)"
  shows "waiters (prims (unlock m w) m) = ts \<and> child (tasks w' t)
    \<and> (keeps \<longrightarrow> holders w' held' m = {(False, t)})
    \<and> (n = length (deferred w l) \<and> l \<notin> gone' \<longrightarrow>
        (\<exists>held''. loop_turn l (w', held', gone') (drain_one l w', held'', gone')
          \<and> \<not> child (tasks (drain_one l w') t)
          \<and> task_state (tasks (drain_one l w') t) = (if cancel_requested (nodes w' t) then Cancelled else Running)
          \<and> (keeps \<longrightarrow> holders (drain_one l w') held'' m = {(True, t)})))"
proof -
  let ?c = "(unlock m w, held - {(u, m)}, gone)"
  have r: "reachable w0 ?c" using assms(1-3) by (intro reachable.step [OF assms(1)] step.unlock)
  have r': "reachable w0 (w', held', gone')" by (rule reachable_steps_trans [OF loop_run_steps [OF assms(6)] r])
  have i: "sync_inv {} {} w held" by (rule reachable_inv [OF assms(1)])
  obtain l' where l: "loop (nodes w t) = Some l'" "deferred (unlock m w) l' = deferred w l' @ [t]"
    "waiters (prims (unlock m w) m) = ts" "takes (unlock m w) t m"
    by (rule unlock_first [OF i assms(2,4)])
  then have d: "deferred (unlock m w) l = deferred w l @ [t]" using assms(5) by simp
  have k: "kind_of w' m = Mutex" using loop_run_kind_of [OF assms(6)] assms(2) by simp
  have "t \<in> set (drop n (deferred (unlock m w) l))" using assms(7) by (simp add: d)
  note same = loop_run_defers [OF assms(6) r, unfolded fst_conv, OF this]
  have t: "t \<in> set (deferred w' l)" using same assms(7) by (auto simp: d dest: set_mono_prefix)
  have relock: "relock (nodes (unlock m w) t) = relock (nodes w t)"
    using same_waits_unlock [of w m] by (simp add: same_waits_def)
  have takes: "takes w' t m" if keeps
    using l(4) same that assms(8) k deferred_waits(3) [OF r' t] relock
    by (auto simp: takes_def node_ok_def)
  have held: "holders w' held' m = {(False, t)}" if keeps
    by (rule only_holder [OF r' k]) (use takes [OF that] t in \<open>auto simp: holders_def\<close>)
  have "\<exists>held''. loop_turn l (w', held', gone') (drain_one l w', held'', gone')
      \<and> \<not> child (tasks (drain_one l w') t)
      \<and> task_state (tasks (drain_one l w') t) = (if cancel_requested (nodes w' t) then Cancelled else Running)
      \<and> (keeps \<longrightarrow> holders (drain_one l w') held'' m = {(True, t)})"
    if n: "n = length (deferred w l)" and "l \<notin> gone'"
  proof -
    obtain rest where first: "deferred w' l = t # rest" using same by (auto simp: d n prefix_def)
    have turn: "loop_turn l (w', held', gone') (drain_one l w', held_resumed t w' held', gone')"
      using first that(2) by (intro loop_turn.turn)
    have r'': "reachable w0 (drain_one l w', held_resumed t w' held', gone')"
      using reachable.step [OF r' loop_turn_step [OF turn]] .
    have "holders (drain_one l w') (held_resumed t w' held') m = {(True, t)}" if keeps
      using turn_resumes(3) [OF r' turn first takes [OF that]] k
      by (intro only_holder [OF r'']) (simp_all add: holders_def)
    then show ?thesis using turn turn_resumes(1,2) [OF r' turn first] by blast
  qed
  with l(3) held deferred_waits(1) [OF r' t] show ?thesis by blast
qed

theorem mutex_handed_over_witness:
  "holders example_unlocked ({(1, 0)} - {(1, 0)}) 0 = {(False, 2)}
     \<and> (\<exists>held''. holders (drain_one 0 example_unlocked) held'' 0 = {(True, 2)})"
proof -
  have "kind_of example_waiting 0 = Mutex" "(1, 0) \<in> {(1::nat, 0::nat)}"
    "waiters (prims example_waiting 0) = [2]" "loop (nodes example_waiting 2) = Some 0"
    "deferred example_waiting 0 = []" "\<not> cancel_requested (nodes example_unlocked 2)"
    using same_waits_unlock [of example_waiting 0]
    by (simp_all add: example_defs kind_of_def same_waits_def example_unlocked_def)
  with mutex_handed_over [OF example_reachable_waiting, of 0 1 2 "[]" 0 0 example_unlocked "{(1, 0)} - {(1, 0)}" "{}" True]
    loop_run.stay [of 0 "(example_unlocked, {(1, 0)} - {(1, 0)}, {})"]
  show ?thesis unfolding example_unlocked_def by auto
qed

end
