(* ===== verification/Glob.thy ===== *)
theory Glob
  imports Utf8 Views "HOL-Library.Product_Lexorder"
begin

unbundle bit_operations_syntax

text \<open>
  Glob patterns (\<^verbatim>\<open>include/kotatsu/support/glob_pattern.h\<close>,
  \<^verbatim>\<open>src/support/glob_pattern.cpp\<close>): parsing a pattern, expanding its braces and compiling
  each arm into segments of tokens. Offsets are natural numbers: a pattern is at most 4 GiB. The
  pools of a compiled pattern, which its tokens, segments and arms index, are not: a token holds its
  literal or class, a segment its tokens and an arm its segments. Whether the machine stores the
  highest byte of a word first, which the packed literals depend on, is an argument.
\<close>

section \<open>Errors\<close>

datatype GlobErrorKind = UnmatchedBracket | StrayBackslash | NestedBrace | EmptyBrace
  | IncompleteBrace | InvalidRange | MultipleSlash | MultipleStar | TooManyExpansions
  | InvalidUTF8 | InvalidEscape

record GlobError =
  error_kind :: GlobErrorKind
  error_begin :: nat
  error_end :: nat
  error_message :: string

definition glob_error :: "GlobErrorKind \<Rightarrow> nat \<Rightarrow> nat \<Rightarrow> string \<Rightarrow> GlobError" where
  "glob_error k b e msg = \<lparr>error_kind = k, error_begin = b, error_end = e, error_message = msg\<rparr>"

section \<open>The literal head and the root\<close>

abbreviation backslash :: char where
  "backslash \<equiv> CHR 0x5C"

definition wildcards :: string where
  "wildcards = ''?*[{''"

definition special_bytes :: string where
  "special_bytes = backslash # ''?*[]{},''"

text \<open>The literal head: its text, escapes resolved, and where it ends in the pattern.\<close>

fun literal_head :: "string \<Rightarrow> string \<times> nat" where
  "literal_head [] = ([], 0)"
| "literal_head (c # pattern) =
     (if c \<in> set wildcards then ([], 0)
      else if c = backslash then
        (case pattern of
           [] \<Rightarrow> ([], 0)
         | d # pattern \<Rightarrow>
             if d = CHR ''/'' then ([], 0)
             else let (text, n) = literal_head pattern in (d # text, n + 2))
      else let (text, n) = literal_head pattern in (c # text, n + 1))"

text \<open>\<^verbatim>\<open>rfind('/') + 1\<close>, which is 0 where there is none: \<^verbatim>\<open>npos\<close> wraps around.\<close>

definition after_last_slash :: "string \<Rightarrow> nat" where
  "after_last_slash s = (case find_last_char (\<lambda>c. c = CHR ''/'') s of None \<Rightarrow> 0 | Some i \<Rightarrow> i + 1)"

definition escape :: "string \<Rightarrow> string" where
  "escape literal = concat (map (\<lambda>c. if c \<in> set special_bytes then [backslash, c] else [c]) literal)"

text \<open>The root and the rest of a pattern.\<close>

definition split_root :: "string \<Rightarrow> string \<times> string" where
  "split_root pattern =
     (let (text, n) = literal_head pattern;
          cut = after_last_slash (take n pattern)
      in (take (after_last_slash text) text, drop cut pattern))"

section \<open>Atoms\<close>

definition invalid_atom_base :: nat where
  "invalid_atom_base = 0x110000"

definition decode_utf8_atom :: "string \<Rightarrow> nat \<Rightarrow> nat \<times> nat" where
  "decode_utf8_atom s at =
     (let sequence = decode_utf8 (drop at s) in
      if \<not> seq_valid sequence then (invalid_atom_base + uchar (s ! at), 1)
      else (code_point sequence, seq_length sequence))"

lemma decode_utf8_atom_pos [simp]: "0 < snd (decode_utf8_atom s at)"
proof (cases "drop at s = []")
  case True
  then show ?thesis by (simp add: decode_utf8_atom_def decode_utf8_def)
next
  case False
  from decode_utf8_length [OF this] have "0 < seq_length (decode_utf8 (drop at s))" by linarith
  then show ?thesis by (simp add: decode_utf8_atom_def Let_def)
qed

function find_invalid_utf8 :: "string \<Rightarrow> nat \<Rightarrow> nat option" where
  "find_invalid_utf8 s at =
     (if at < length s then
        let atom = decode_utf8_atom s at in
        if fst atom \<ge> invalid_atom_base then Some at
        else find_invalid_utf8 s (at + snd atom)
      else None)"
  by pat_completeness auto
termination
  by (relation "measure (\<lambda>(s, at). length s - at)") (auto intro!: diff_less_mono2)

declare find_invalid_utf8.simps [simp del]

section \<open>Bracket expressions\<close>

text \<open>The loop of \<^verbatim>\<open>scan_bracket\<close> over the members.\<close>

function scan_members :: "string \<Rightarrow> nat \<Rightarrow> GlobError + nat" where
  "scan_members s j =
     (if j < length s \<and> s ! j \<noteq> CHR '']'' then
        if s ! j = backslash then
          if j + 1 = length s
          then Inl (glob_error StrayBackslash j (j + 1)
            (''unmatched `[` with stray `'' @ [backslash] @ ''` inside''))
          else scan_members s (j + 2)
        else scan_members s (j + 1)
      else Inr j)"
  by pat_completeness auto
termination
  by (relation "measure (\<lambda>(s, j). length s - j)") auto

declare scan_members.simps [simp del]

definition scan_bracket :: "string \<Rightarrow> nat \<Rightarrow> GlobError + nat" where
  "scan_bracket s open =
     (let unmatched = Inl (glob_error UnmatchedBracket open (open + 1) ''unmatched `[`'');
          j = open + 1
      in if j = length s then unmatched
         else let j = (if s ! j = CHR ''!'' \<or> s ! j = CHR ''^'' then j + 1 else j);
                  j = (if j \<noteq> length s \<and> s ! j = CHR '']'' then j + 1 else j)
              in case scan_members s j of
                   Inl e \<Rightarrow> Inl e
                 | Inr j \<Rightarrow> if j = length s then unmatched else Inr j)"

text \<open>\<^verbatim>\<open>std::format("{:04X}", n)\<close>.\<close>

definition hex_digit :: "nat \<Rightarrow> char" where
  "hex_digit n = ''0123456789ABCDEF'' ! n"

fun hex_digits :: "nat \<Rightarrow> string" where
  "hex_digits n = (if n < 16 then [hex_digit n] else hex_digits (n div 16) @ [hex_digit (n mod 16)])"

declare hex_digits.simps [simp del]

definition format_code_point :: "nat \<Rightarrow> string" where
  "format_code_point n = (let d = hex_digits n in ''U+'' @ replicate (4 - length d) (CHR ''0'') @ d)"

text \<open>\<^verbatim>\<open>next_member\<close>: the code point of the member at an offset, and the offset after it.\<close>

definition next_member :: "string \<Rightarrow> nat \<Rightarrow> nat \<times> nat" where
  "next_member s it =
     (let it = (if s ! it = backslash then it + 1 else it);
          atom = decode_utf8_atom s it
      in (fst atom, it + snd atom))"

lemma next_member_later [simp]: "it < snd (next_member s it)"
  using decode_utf8_atom_pos [of s it] decode_utf8_atom_pos [of s "it + 1"]
  by (auto simp: next_member_def Let_def simp del: decode_utf8_atom_pos)

lemma next_member_less: "(cp, it') = next_member s it \<Longrightarrow> it < it'"
  using next_member_later [of it s] by (metis snd_conv)

type_synonym ranges = "(nat \<times> nat) list"

text \<open>The loop over the members: the ranges so far, and the member held back with its offset.\<close>

function bracket_loop :: "string \<Rightarrow> nat \<Rightarrow> ranges \<Rightarrow> (nat \<times> nat) option \<Rightarrow> GlobError + ranges" where
  "bracket_loop s it ranges pending =
     (if it < length s then
        case pending of
          Some (low, low_begin) \<Rightarrow>
            if s ! it = CHR ''-'' \<and> it + 1 \<noteq> length s then
              let (high, it) = next_member s (it + 1) in
              if low > high
              then Inl (glob_error InvalidRange low_begin it
                (''`'' @ format_code_point low @ ''` is larger than `'' @ format_code_point high @ ''`''))
              else bracket_loop s it (ranges @ [(low, high)]) None
            else let (cp, it') = next_member s it
                 in bracket_loop s it' (ranges @ [(low, low)]) (Some (cp, it))
        | None \<Rightarrow> let (cp, it') = next_member s it in bracket_loop s it' ranges (Some (cp, it))
      else Inr (case pending of Some (low, _) \<Rightarrow> ranges @ [(low, low)] | None \<Rightarrow> ranges))"
  by pat_completeness auto
termination
  by (relation "measure (\<lambda>(s, it, ranges, pending). length s - it)")
    (use next_member_less in \<open>fastforce dest: next_member_less\<close>)+

declare bracket_loop.simps [simp del]

text \<open>One step of the coalescing of sorted ranges. Pairs are in lexicographic order.\<close>

definition merge_step :: "ranges \<Rightarrow> nat \<times> nat \<Rightarrow> ranges" where
  "merge_step merged r =
     (if merged \<noteq> [] \<and> fst r \<le> snd (last merged) + 1
      then butlast merged @ [(fst (last merged), max (snd (last merged)) (snd r))]
      else merged @ [r])"

definition parse_bracket_charset :: "string \<Rightarrow> GlobError + ranges" where
  "parse_bracket_charset s =
     (case bracket_loop s 0 [] None of
        Inl e \<Rightarrow> Inl e
      | Inr ranges \<Rightarrow> Inr (foldl merge_step [] (sort ranges)))"

record CharClass =
  negated :: bool
  class_ranges :: ranges

text \<open>\<^verbatim>\<open>lower_bound\<close> over the upper bounds: the first range whose upper bound reaches the code point.\<close>

definition contains :: "CharClass \<Rightarrow> nat \<Rightarrow> bool" where
  "contains cls cp =
     (let hit = (case dropWhile (\<lambda>r. snd r < cp) (class_ranges cls) of
                   [] \<Rightarrow> False | r # _ \<Rightarrow> fst r \<le> cp)
      in if negated cls then \<not> hit else hit)"


section \<open>Braces\<close>

text \<open>A view of the pattern: where it starts, and its text.\<close>

type_synonym view = "nat \<times> string"

definition view_of :: "string \<Rightarrow> nat \<Rightarrow> nat \<Rightarrow> view" where
  "view_of pattern from till = (from, take (till - from) (drop from pattern))"

record Brace =
  brace_begin :: nat
  brace_end :: nat
  brace_terms :: "view list"

lemma scan_members_later: "scan_members s j = Inr k \<Longrightarrow> j \<le> k"
  by (induction s j rule: scan_members.induct) (subst (asm) (2) scan_members.simps, fastforce split: if_splits)

lemma scan_bracket_later: "scan_bracket s i = Inr j \<Longrightarrow> i < j"
  by (auto simp: scan_bracket_def Let_def split: if_splits sum.splits dest!: scan_members_later)

text \<open>
  The loop of \<^verbatim>\<open>parse_braces\<close>: the braces closed so far, the open one with its first terms, and
  where the term at hand starts.
\<close>

function braces_loop :: "string \<Rightarrow> nat \<Rightarrow> Brace list \<Rightarrow> (nat \<times> view list) option \<Rightarrow> nat \<Rightarrow> GlobError + Brace list" where
  "braces_loop pattern i braces open term_begin =
     (if i < length pattern then
        if pattern ! i = CHR ''['' then
          (case scan_bracket pattern i of
             Inl e \<Rightarrow> Inl e
           | Inr j \<Rightarrow> braces_loop pattern (j + 1) braces open term_begin)
        else if pattern ! i = CHR ''{'' then
          (if open \<noteq> None
           then Inl (glob_error NestedBrace i (i + 1) ''nested brace expansions are not supported'')
           else braces_loop pattern (i + 1) braces (Some (i, [])) (i + 1))
        else if pattern ! i = CHR '','' then
          (case open of
             None \<Rightarrow> braces_loop pattern (i + 1) braces open term_begin
           | Some (b, terms) \<Rightarrow>
               braces_loop pattern (i + 1) braces (Some (b, terms @ [view_of pattern term_begin i])) (i + 1))
        else if pattern ! i = CHR ''}'' then
          (case open of
             None \<Rightarrow> braces_loop pattern (i + 1) braces open term_begin
           | Some (b, terms) \<Rightarrow>
               if terms = [] \<and> i = term_begin
               then Inl (glob_error EmptyBrace b (i + 1) ''empty brace expression'')
               else braces_loop pattern (i + 1)
                 (braces @ [\<lparr>brace_begin = b, brace_end = i + 1,
                             brace_terms = terms @ [view_of pattern term_begin i]\<rparr>]) None term_begin)
        else if pattern ! i = backslash then
          (if i + 1 = length pattern
           then Inl (glob_error StrayBackslash i (i + 1) (''stray `'' @ [backslash] @ ''`''))
           else braces_loop pattern (i + 2) braces open term_begin)
        else braces_loop pattern (i + 1) braces open term_begin
      else case open of
        Some (b, _) \<Rightarrow> Inl (glob_error IncompleteBrace b (b + 1) ''incomplete brace expansion'')
      | None \<Rightarrow> Inr braces)"
  by pat_completeness auto
termination
  by (relation "measure (\<lambda>(pattern, i, braces, open, term_begin). length pattern - i)")
    (auto dest!: scan_bracket_later)

declare braces_loop.simps [simp del]

definition parse_braces :: "string \<Rightarrow> nat \<Rightarrow> GlobError + Brace list" where
  "parse_braces pattern from = braces_loop pattern from [] None 0"

text \<open>\<^verbatim>\<open>ArmText\<close>: the pieces of an arm, its text, and the offsets of its bytes in the pattern.\<close>

fun arm_pieces :: "string \<Rightarrow> nat \<Rightarrow> Brace list \<Rightarrow> nat list \<Rightarrow> view list" where
  "arm_pieces pattern cursor (brace # braces) (c # choice) =
     view_of pattern cursor (brace_begin brace) # brace_terms brace ! c
     # arm_pieces pattern (brace_end brace) braces choice"
| "arm_pieces pattern cursor _ _ = [(cursor, drop cursor pattern)]"

definition arm_text :: "view list \<Rightarrow> string" where
  "arm_text pieces = concat (map snd pieces)"

text \<open>An offset past the pieces is unreachable in the code.\<close>

fun origin :: "view list \<Rightarrow> nat \<Rightarrow> nat" where
  "origin [] offset = 0"
| "origin (piece # pieces) offset =
     (if offset < length (snd piece) then fst piece + offset
      else origin pieces (offset - length (snd piece)))"

definition rebase :: "view list \<Rightarrow> GlobError \<Rightarrow> GlobError" where
  "rebase pieces e = e\<lparr>error_end := origin pieces (error_end e - 1) + 1,
                       error_begin := origin pieces (error_begin e)\<rparr>"

text \<open>
  \<^verbatim>\<open>next_choice\<close>, given how many terms each brace has: whether there is a next arm, and it.
  The loop runs from the last brace, which is the recursion's end.
\<close>

fun next_choice :: "nat list \<Rightarrow> nat list \<Rightarrow> bool \<times> nat list" where
  "next_choice (c # choice) (n # sizes) =
     (let (more, choice) = next_choice choice sizes in
      if more then (True, c # choice)
      else if c + 1 \<noteq> n then (True, (c + 1) # choice)
      else (False, 0 # choice))"
| "next_choice choice _ = (False, choice)"

section \<open>Compiling an arm\<close>

datatype Token = Literal string | Star | AnyChar | Class CharClass

definition push_literal :: "Token list \<Rightarrow> char \<Rightarrow> Token list" where
  "push_literal tokens c =
     (if tokens = [] then [Literal [c]]
      else case last tokens of
        Literal t \<Rightarrow> butlast tokens @ [Literal (t @ [c])]
      | _ \<Rightarrow> tokens @ [Literal [c]])"

definition star_run :: "string \<Rightarrow> nat \<Rightarrow> nat" where
  "star_run s i = length (takeWhile (\<lambda>c. c = CHR ''*'') (drop i s))"

lemma star_run_pos: "i < length s \<Longrightarrow> s ! i = CHR ''*'' \<Longrightarrow> 0 < star_run s i"
  by (auto simp: star_run_def simp flip: Cons_nth_drop_Suc)

text \<open>The bracket expression opened at an offset: its class, and the offset after it.\<close>

definition parse_class :: "string \<Rightarrow> nat \<Rightarrow> GlobError + CharClass \<times> nat" where
  "parse_class s i =
     (case scan_bracket s i of
        Inl e \<Rightarrow> Inl e
      | Inr close \<Rightarrow>
          let body = take (close - i - 1) (drop (i + 1) s);
              neg = (body ! 0 = CHR ''!'' \<or> body ! 0 = CHR ''^'')
          in case parse_bracket_charset (if neg then drop 1 body else body) of
               Inl e \<Rightarrow> let base = i + 1 + (if neg then 1 else 0) in
                 Inl (e\<lparr>error_begin := error_begin e + base, error_end := error_end e + base\<rparr>)
             | Inr ranges \<Rightarrow> Inr (\<lparr>negated = neg, class_ranges = ranges\<rparr>, close + 1))"

lemma parse_class_later: "parse_class s i = Inr (cls, j) \<Longrightarrow> i < j"
  by (auto simp: parse_class_def Let_def split: sum.splits if_splits dest: scan_bracket_later)

text \<open>The loop of \<^verbatim>\<open>compile_arm\<close> over one segment: its tokens, and where it ends.\<close>

function tokens_loop :: "string \<Rightarrow> nat \<Rightarrow> Token list \<Rightarrow> GlobError + Token list \<times> nat" where
  "tokens_loop s i tokens =
     (if i < length s \<and> s ! i \<noteq> CHR ''/'' then
        if s ! i = CHR ''['' then
          (case parse_class s i of
             Inl e \<Rightarrow> Inl e
           | Inr (cls, j) \<Rightarrow> tokens_loop s j (tokens @ [Class cls]))
        else if s ! i = CHR ''*'' then
          (let n = star_run s i in
           if n > 2 then Inl (glob_error MultipleStar i (i + 3) ''multiple `*` is not allowed'')
           else tokens_loop s (i + n)
             (if tokens = [] \<or> last tokens \<noteq> Star then tokens @ [Star] else tokens))
        else if s ! i = CHR ''?'' then tokens_loop s (i + 1) (tokens @ [AnyChar])
        else if s ! i = backslash then
          (if i + 1 = length s
           then Inl (glob_error StrayBackslash i (i + 1) (''stray `'' @ [backslash] @ ''`''))
           else if s ! (i + 1) = CHR ''/''
           then Inl (glob_error InvalidEscape i (i + 2) ''`/` cannot be escaped'')
           else tokens_loop s (i + 2) (push_literal tokens (s ! (i + 1))))
        else tokens_loop s (i + 1) (push_literal tokens (s ! i))
      else Inr (tokens, i))"
  by pat_completeness auto

termination
proof (relation "measure (\<lambda>(s, i, tokens). length s - i)", goal_cases)
  case (2 s i tokens)
  then show ?case by (auto dest!: parse_class_later)
next
  case (3 s i tokens n)
  then show ?case using star_run_pos [of i s] by auto
qed auto

declare tokens_loop.simps [simp del]

datatype SegmentKind = Recursive | LiteralSegment | Affix | General

text \<open>\<^verbatim>\<open>first\<close> is \<^verbatim>\<open>has_first\<close> and \<^verbatim>\<open>first\<close> of the code.\<close>

record Segment =
  segment_kind :: SegmentKind
  nullable :: bool
  optional_rest :: bool
  first :: "char option"
  segment_tokens :: "Token list"

fun is_simple :: "Token \<Rightarrow> bool" where
  "is_simple AnyChar = False"
| "is_simple (Class _) = False"
| "is_simple _ = True"

definition segment_of :: "Token list \<Rightarrow> bool \<Rightarrow> Segment" where
  "segment_of tokens recursive =
     (if recursive
      then \<lparr>segment_kind = Recursive, nullable = False, optional_rest = False, first = None,
            segment_tokens = butlast tokens\<rparr>
      else let stars = length (filter (\<lambda>t. t = Star) tokens) in
        \<lparr>segment_kind = (if \<not> list_all is_simple tokens \<or> stars > 1 then General
                         else if stars = 1 then Affix else LiteralSegment),
         nullable = False, optional_rest = False,
         first = (case tokens of Literal t # _ \<Rightarrow> Some (hd t) | _ \<Rightarrow> None),
         segment_tokens = tokens\<rparr>)"

lemma tokens_loop_later: "tokens_loop s i tokens = Inr (ts, j) \<Longrightarrow> i \<le> j"
  by (induction s i tokens rule: tokens_loop.induct)
    (subst (asm) (6) tokens_loop.simps, force simp: Let_def split: if_splits sum.splits prod.splits dest: parse_class_later)

text \<open>The loop of \<^verbatim>\<open>compile_arm\<close> over the segments.\<close>

function segments_loop :: "string \<Rightarrow> bool \<Rightarrow> nat \<Rightarrow> GlobError + Segment list" where
  "segments_loop s at_segment_start raw_begin =
     (case tokens_loop s raw_begin [] of
        Inl e \<Rightarrow> Inl e
      | Inr (tokens, i) \<Rightarrow>
          let recursive = ((raw_begin \<noteq> 0 \<or> at_segment_start) \<and> take (i - raw_begin) (drop raw_begin s) = ''**'');
              segment = segment_of tokens recursive
          in if \<not> i < length s then Inr [segment]
             else if i + 1 \<noteq> length s \<and> s ! (i + 1) = CHR ''/''
             then Inl (glob_error MultipleSlash i (i + 2) ''multiple `/` is not allowed'')
             else case segments_loop s at_segment_start (i + 1) of
                    Inl e \<Rightarrow> Inl e
                  | Inr segments \<Rightarrow> Inr (segment # segments))"
  by pat_completeness auto
termination
  by (relation "measure (\<lambda>(s, a, i). length s + 1 - i)") (auto dest!: tokens_loop_later)

declare segments_loop.simps [simp del]

text \<open>A trailing \<^verbatim>\<open>**/\<close> matches like \<^verbatim>\<open>**/*\<close>.\<close>

definition trailing_star :: "Segment list \<Rightarrow> Segment list" where
  "trailing_star segments =
     (if 2 \<le> length segments \<and> segment_kind (segments ! (length segments - 2)) = Recursive
         \<and> segment_kind (last segments) = LiteralSegment \<and> segment_tokens (last segments) = []
      then butlast segments @ [(last segments)\<lparr>segment_tokens := [Star], segment_kind := Affix\<rparr>]
      else segments)"

text \<open>
  The backward pass over the segments: the segments with both nullable states, and the states
  \<^verbatim>\<open>following_nullable\<close> and \<^verbatim>\<open>following_absorbs\<close> before them.
\<close>

fun nullable_pass :: "Segment list \<Rightarrow> Segment list \<times> bool \<times> bool" where
  "nullable_pass [] = ([], True, False)"
| "nullable_pass (segment # segments) =
     (let (rest, following_nullable, following_absorbs) = nullable_pass segments;
          last_one = (segments = []);
          recursive = (segment_kind segment = Recursive);
          opt = (last_one \<or> following_absorbs);
          nul = (if recursive then last_one \<or> following_nullable
                 else opt \<and> list_all (\<lambda>t. t = Star) (segment_tokens segment))
      in (segment\<lparr>optional_rest := opt, nullable := nul\<rparr> # rest, nul, recursive \<and> opt))"

datatype Plan = PlanPrefixTree | PlanDirectoryTree | PlanSuffix | PlanPathSuffix
  | PlanSegmentSuffix | PlanAffix | PlanFinal | PlanGeneral

text \<open>A literal the input must end with; its text is what \<^verbatim>\<open>begin\<close> and \<^verbatim>\<open>size\<close> index.\<close>

record PackedLiteral =
  packed_text :: string
  packed_word :: uint64
  packed_mask :: uint64
  lead_word :: uint64
  lead_mask :: uint64

definition no_literal :: PackedLiteral where
  "no_literal = \<lparr>packed_text = [], packed_word = 0, packed_mask = 0, lead_word = 0, lead_mask = 0\<rparr>"

definition pack_literal :: "bool \<Rightarrow> string \<Rightarrow> PackedLiteral" where
  "pack_literal big t =
     (if length t \<le> 16 then
        let value = replicate (16 - length t) (CHR 0x00) @ t;
            mask = replicate (16 - length t) (CHR 0x00) @ replicate (length t) (CHR 0xFF)
        in \<lparr>packed_text = t, packed_word = memcpy_word big (drop 8 value),
            packed_mask = memcpy_word big (drop 8 mask), lead_word = memcpy_word big (take 8 value),
            lead_mask = memcpy_word big (take 8 mask)\<rparr>
      else no_literal\<lparr>packed_text := t\<rparr>)"

record Arm =
  plan :: Plan
  arm_basename :: bool
  absorbs_separator :: bool
  arm_segments :: "Segment list"
  arm_head :: string
  arm_literal :: PackedLiteral

definition literal_of :: "Token \<Rightarrow> string" where
  "literal_of t = (case t of Literal s \<Rightarrow> s | _ \<Rightarrow> [])"

definition arm_of :: "bool \<Rightarrow> Segment list \<Rightarrow> bool \<Rightarrow> Arm" where
  "arm_of big segments absorbs =
     (let n = length segments;
          fst_seg = hd segments;
          lst_seg = last segments;
          tokens = segment_tokens lst_seg;
          prefix_tree = (n = 2 \<and> segment_kind fst_seg = LiteralSegment \<and> segment_kind lst_seg = Recursive);
          directory_tree = (n = 3 \<and> segment_kind fst_seg = Recursive
            \<and> segment_kind (segments ! 1) = LiteralSegment \<and> segment_kind lst_seg = Recursive);
          base = (n = 2 \<and> segment_kind fst_seg = Recursive \<and> segment_kind lst_seg \<noteq> Recursive);
          (pl, hd_text) =
            (if prefix_tree
             then (PlanPrefixTree, if segment_tokens fst_seg \<noteq> [] then literal_of (hd (segment_tokens fst_seg)) else [])
             else if directory_tree then (PlanDirectoryTree, literal_of (hd (segment_tokens (segments ! 1))))
             else if base \<or> n = 1 \<and> segment_kind fst_seg \<noteq> Recursive then
               if segment_kind lst_seg = Affix \<and> hd tokens = Star
               then (if base then PlanSuffix else PlanSegmentSuffix, [])
               else if segment_kind lst_seg = Affix then (PlanAffix, literal_of (hd tokens))
               else if base \<and> segment_kind lst_seg = LiteralSegment then (PlanPathSuffix, [])
               else (PlanFinal, [])
             else (PlanGeneral, []))
      in \<lparr>plan = pl, arm_basename = base, absorbs_separator = absorbs, arm_segments = segments,
          arm_head = hd_text,
          arm_literal =
            (if segment_kind lst_seg \<noteq> Recursive \<and> tokens \<noteq> []
             then case last tokens of Literal t \<Rightarrow> pack_literal big t | _ \<Rightarrow> no_literal
             else no_literal)\<rparr>)"

definition compile_arm :: "bool \<Rightarrow> string \<Rightarrow> bool \<Rightarrow> GlobError + Arm" where
  "compile_arm big s at_segment_start =
     (case segments_loop s at_segment_start 0 of
        Inl e \<Rightarrow> Inl e
      | Inr segments \<Rightarrow>
          let (segments, following_nullable, following_absorbs) = nullable_pass (trailing_star segments)
          in Inr (arm_of big segments following_absorbs))"

section \<open>Creating a pattern\<close>

datatype Mode = ModeLiteral | ModeAny | ModePrefixTree | ModeSuffix | ModePathSuffix
  | ModeSegmentSuffix | ModeArms | ModeSuffixArms | ModeSegmentSuffixArms | ModeExtensionArms

record GlobPattern =
  pat_prefix :: string
  prefix_at_seg_end :: bool
  mode :: Mode
  arms :: "Arm list"

text \<open>How many arms the braces give, from how many terms each has; at most a \<^verbatim>\<open>size_t\<close>.\<close>

fun count_arms :: "nat \<Rightarrow> nat list \<Rightarrow> nat" where
  "count_arms n [] = n"
| "count_arms n (t # terms) =
     (if n > (2 ^ 64 - 1) div t then 2 ^ 64 - 1 else count_arms (n * t) terms)"

definition term_counts :: "Brace list \<Rightarrow> nat list" where
  "term_counts = map (\<lambda>brace. length (brace_terms brace))"

text \<open>
  The loop of \<^verbatim>\<open>create\<close> over the arms, from the choice at hand on: the arms and whether one of
  them matches everything.
\<close>

partial_function (option) arms_loop ::
    "bool \<Rightarrow> string \<Rightarrow> nat \<Rightarrow> Brace list \<Rightarrow> bool \<Rightarrow> bool \<Rightarrow> bool \<Rightarrow> nat list \<Rightarrow> Arm list \<Rightarrow> bool
      \<Rightarrow> (GlobError + Arm list \<times> bool) option" where
  "arms_loop big s from braces seg_end at_segment_start root choice compiled match_all =
     (let pieces = arm_pieces s from braces choice in
      if seg_end \<and> starts_with (arm_text pieces) ''/''
      then Some (Inl (glob_error MultipleSlash (from - 1) (origin pieces 0 + 1)
        ''multiple `/` is not allowed''))
      else case compile_arm big (arm_text pieces) at_segment_start of
        Inl e \<Rightarrow> Some (Inl (rebase pieces e))
      | Inr arm \<Rightarrow>
          let match_all = (match_all \<or> root \<and> arm_text pieces \<in> {''**'', ''**/''});
              stepped = next_choice choice (term_counts braces)
          in if fst stepped
             then arms_loop big s from braces seg_end at_segment_start root (snd stepped) (compiled @ [arm]) match_all
             else Some (Inr (compiled @ [arm], match_all)))"

definition is_extension :: "string \<Rightarrow> bool" where
  "is_extension t \<longleftrightarrow> length t \<le> 8 \<and> starts_with t ''.'' \<and> CHR ''.'' \<notin> set (drop 1 t)"

definition literal_key :: "Arm \<Rightarrow> nat \<times> uint64" where
  "literal_key arm = (length (packed_text (arm_literal arm)), packed_word (arm_literal arm))"

text \<open>
  The mode, and the arms in its order. \<^verbatim>\<open>std::ranges::sort\<close> may order arms of one key either
  way, which have the same literal.
\<close>

definition choose_mode :: "bool \<Rightarrow> bool \<Rightarrow> bool \<Rightarrow> Arm list \<Rightarrow> Mode \<times> Arm list" where
  "choose_mode root seg_end match_all as =
     (let one = (length as = 1); arm = hd as in
      if match_all then (ModeAny, as)
      else if one \<and> seg_end \<and> length (arm_segments arm) = 1 \<and> segment_kind (hd (arm_segments arm)) = Recursive
      then (ModePrefixTree, as)
      else if one \<and> root \<and> plan arm = PlanSuffix then (ModeSuffix, as)
      else if one \<and> root \<and> plan arm = PlanPathSuffix then (ModePathSuffix, as)
      else if one \<and> root \<and> plan arm = PlanSegmentSuffix then (ModeSegmentSuffix, as)
      else if list_all (\<lambda>a. plan a = PlanSuffix) as then
        (if length as \<ge> 16 \<and> list_all (\<lambda>a. is_extension (packed_text (arm_literal a))) as
         then (ModeExtensionArms, sort_key literal_key as)
         else (ModeSuffixArms, as))
      else if list_all (\<lambda>a. plan a = PlanSegmentSuffix) as then (ModeSegmentSuffixArms, as)
      else (ModeArms, as))"

text \<open>The part of \<^verbatim>\<open>create\<close> before the arms: the literal prefix, or the pattern's error.\<close>

definition check_head :: "string \<Rightarrow> GlobError option" where
  "check_head s =
     (let n = snd (literal_head s) in
      if n < length s \<and> s ! n = backslash then
        if n + 1 = length s
        then Some (glob_error StrayBackslash n (n + 1) (''stray `'' @ [backslash] @ ''`''))
        else Some (glob_error InvalidEscape n (n + 2) ''`/` cannot be escaped'')
      else map_option (\<lambda>i. glob_error MultipleSlash i (i + 2) ''multiple `/` is not allowed'')
        (find_text ''//'' (take n s)))"

definition create_braces :: "string \<Rightarrow> nat \<Rightarrow> nat \<Rightarrow> GlobError + Brace list" where
  "create_braces s from max_arms =
     (if max_arms \<noteq> 0 \<and> CHR ''{'' \<in> set (drop from s) then
        case parse_braces s from of
          Inl e \<Rightarrow> Inl e
        | Inr braces \<Rightarrow>
            if count_arms 1 (term_counts braces) > max_arms
            then Inl (glob_error TooManyExpansions 0 0 ''too many brace expansions'')
            else Inr braces
      else Inr [])"

definition create :: "bool \<Rightarrow> string \<Rightarrow> nat \<Rightarrow> (GlobError + GlobPattern) option" where
  "create big s max_arms =
     (case find_invalid_utf8 s 0 of
        Some pos \<Rightarrow> Some (Inl (glob_error InvalidUTF8 pos (pos + 1) ''pattern is not valid UTF-8''))
      | None \<Rightarrow>
          let (text, from) = literal_head s in
          case check_head s of
            Some e \<Rightarrow> Some (Inl e)
          | None \<Rightarrow>
              if from = length s
              then Some (Inr \<lparr>pat_prefix = text, prefix_at_seg_end = False, mode = ModeLiteral, arms = []\<rparr>)
              else
                let seg_end = (text \<noteq> [] \<and> last text = CHR ''/'');
                    pre = (if seg_end then butlast text else text);
                    root = (pre = [] \<and> \<not> seg_end)
                in case create_braces s from max_arms of
                     Inl e \<Rightarrow> Some (Inl e)
                   | Inr braces \<Rightarrow>
                       map_option (map_sum id (\<lambda>(as, match_all).
                         let (m, as) = choose_mode root seg_end match_all as
                         in \<lparr>pat_prefix = pre, prefix_at_seg_end = seg_end, mode = m, arms = as\<rparr>))
                         (arms_loop big s from braces seg_end (pre = [] \<or> seg_end) root
                           (replicate (length braces) 0) [] False))"

end
