(* ===== verification/Backtrack.thy ===== *)
theory Backtrack
  imports Prelude
begin

text \<open>
  Loops that may not return, and the search that glob patterns share on two levels: a sequence
  of tokens against the characters of a path segment, and a sequence of segments against the
  segments of a path. On both, some elements of the pattern are stars, which match any run, and the
  search backtracks to the latest star only.
\<close>

section \<open>Loops\<close>

text \<open>
  \<^verbatim>\<open>while(true)\<close>: the body gives a result or the next state, or does not return.
\<close>

partial_function (option) forever :: "('s \<Rightarrow> ('r + 's) option) \<Rightarrow> 's \<Rightarrow> 'r option" where
  "forever body st =
     (case body st of
        None \<Rightarrow> None
      | Some (Inl r) \<Rightarrow> Some r
      | Some (Inr st) \<Rightarrow> forever body st)"

text \<open>A loop returns a right result where each step gives it or goes down and keeps the invariant.\<close>

lemma forever_rule:
  assumes "wf R" "I st"
    and step: "\<And>st. I st \<Longrightarrow> body st = Some (Inl r) \<or> (\<exists>st'. body st = Some (Inr st') \<and> I st' \<and> (st', st) \<in> R)"
  shows "forever body st = Some r"
  using assms(1,2)
proof (induction st rule: wf_induct_rule)
  case (less st)
  from step [OF less.prems] show ?case
  proof
    assume "\<exists>st'. body st = Some (Inr st') \<and> I st' \<and> (st', st) \<in> R"
    with less.IH show ?thesis by (subst forever.simps) auto
  qed (subst forever.simps, simp)
qed

section \<open>Backtracking to the latest star\<close>

text \<open>
  What the search relies on: a star matches any run of the input, and every other element takes a
  fixed number of it.
\<close>

locale latest_star =
  fixes is_star :: "'t \<Rightarrow> bool" and wide :: "'t \<Rightarrow> nat" and matches :: "'t list \<Rightarrow> 'c list \<Rightarrow> bool"
  assumes star: "is_star t \<Longrightarrow> matches (t # ts) cs \<longleftrightarrow> (\<exists>y\<le>length cs. matches ts (drop y cs))"
    and fixed: "\<not> is_star t \<Longrightarrow> matches (t # ts) cs \<Longrightarrow> wide t \<le> length cs \<and> matches ts (drop (wide t) cs)"
begin

lemma starless_match:
  assumes "matches (ps @ ts) cs" "\<forall>p\<in>set ps. \<not> is_star p"
  shows "sum_list (map wide ps) \<le> length cs \<and> matches ts (drop (sum_list (map wide ps)) cs)"
  using assms
proof (induction ps arbitrary: cs)
  case (Cons p ps)
  from fixed [of p "ps @ ts" cs] Cons.prems Cons.IH [of "drop (wide p) cs"]
  show ?case by (auto simp: add.commute)
qed simp

text \<open>
  The invariant of the search, which is at elements \<^verbatim>\<open>k\<close> of the pattern and \<^verbatim>\<open>x\<close> of the
  input, the latest star being before \<^verbatim>\<open>r\<close> and absorbing the input up to \<^verbatim>\<open>y\<close>. Before the
  first star, the input matches exactly if the rest of the pattern matches the rest of the input;
  after it, exactly if the pattern after the latest star matches some tail of the input from
  \<^verbatim>\<open>y\<close> on. Of these tails, the one at \<^verbatim>\<open>y\<close> matches exactly if what is left of the pattern
  matches what is left of the input.
\<close>

definition inv :: "'t list \<Rightarrow> 'c list \<Rightarrow> nat \<Rightarrow> nat \<Rightarrow> nat \<Rightarrow> nat \<Rightarrow> bool" where
  "inv ts cs k x r y \<longleftrightarrow> k \<le> length ts \<and> x \<le> length cs \<and> y \<le> length cs
     \<and> (if r = length ts then matches ts cs = matches (drop k ts) (drop x cs)
        else r \<le> k \<and> (\<forall>p\<in>set (take (k - r) (drop r ts)). \<not> is_star p)
          \<and> x = y + sum_list (map wide (take (k - r) (drop r ts)))
          \<and> matches ts cs = (\<exists>z. y \<le> z \<and> z \<le> length cs \<and> matches (drop r ts) (drop z cs))
          \<and> matches (drop r ts) (drop y cs) = matches (drop k ts) (drop x cs))"

lemma inv_start: "inv ts cs 0 0 (length ts) 0"
  by (simp add: inv_def)

lemma inv_le:
  assumes "inv ts cs k x r y"
  shows "k \<le> length ts" "x \<le> length cs" "y \<le> length cs" "r \<noteq> length ts \<Longrightarrow> r \<le> k"
    "r \<noteq> length ts \<Longrightarrow> y \<le> x"
  using assms by (auto simp: inv_def split: if_splits)

lemma inv_matched:
  assumes "inv ts cs k x r y" "matches (drop k ts) (drop x cs)"
  shows "matches ts cs"
  using assms by (auto simp: inv_def split: if_splits)

lemma inv_fail:
  assumes "inv ts cs k x r y" "\<not> matches (drop k ts) (drop x cs)" "r = length ts \<or> y = length cs"
  shows "\<not> matches ts cs"
  using assms by (auto simp: inv_def split: if_splits)

text \<open>The tails before the next candidate do not match; where there is none, no tail does.\<close>

lemma inv_skip:
  assumes i: "inv ts cs k x r y" and r: "r \<noteq> length ts" and z: "y \<le> z" "z \<le> length cs"
    and no: "\<And>w. y \<le> w \<Longrightarrow> w < z \<Longrightarrow> \<not> matches (drop r ts) (drop w cs)"
  shows "inv ts cs r z r z"
proof -
  have "(\<exists>w. y \<le> w \<and> w \<le> length cs \<and> matches (drop r ts) (drop w cs))
      = (\<exists>w. z \<le> w \<and> w \<le> length cs \<and> matches (drop r ts) (drop w cs))"
    using z(1) no by (meson le_trans not_le_imp_less)
  with i r z(2) show ?thesis by (auto simp: inv_def)
qed

lemma inv_none:
  assumes "inv ts cs k x r y" "r \<noteq> length ts"
    "\<And>w. y \<le> w \<Longrightarrow> w \<le> length cs \<Longrightarrow> \<not> matches (drop r ts) (drop w cs)"
  shows "\<not> matches ts cs"
  using assms by (auto simp: inv_def)

lemma inv_next:
  assumes "inv ts cs k x r y" "\<not> matches (drop k ts) (drop x cs)" "r \<noteq> length ts" "y \<noteq> length cs"
  shows "inv ts cs r (Suc y) r (Suc y)"
proof (rule inv_skip [OF assms(1,3)])
  show "Suc y \<le> length cs" using assms by (simp add: inv_def)
  show "\<not> matches (drop r ts) (drop w cs)" if "y \<le> w" "w < Suc y" for w
    using that assms(1-3) by (simp add: inv_def le_less_Suc_eq)
qed simp

lemma inv_advance:
  assumes i: "inv ts cs k x r y" and k: "k < length ts" and t: "ts ! k = t" "\<not> is_star t"
    and le: "x + wide t \<le> length cs"
    and m: "matches (t # drop (Suc k) ts) (drop x cs) = matches (drop (Suc k) ts) (drop (x + wide t) cs)"
  shows "inv ts cs (Suc k) (x + wide t) r y"
proof -
  have d: "drop k ts = t # drop (Suc k) ts" using k t(1) by (metis Cons_nth_drop_Suc)
  have tk: "take (Suc k - r) (drop r ts) = take (k - r) (drop r ts) @ [t]" if "r \<le> k"
    using that k t(1) by (simp add: Suc_diff_le take_Suc_conv_app_nth)
  show ?thesis using i k le t(2) m [folded d] by (auto simp: inv_def tk)
qed

lemma inv_star:
  assumes i: "inv ts cs k x r y" and k: "k < length ts" "is_star (ts ! k)"
  shows "matches ts cs = (\<exists>z. x \<le> z \<and> z \<le> length cs \<and> matches (drop (Suc k) ts) (drop z cs))"
proof -
  have d: "drop k ts = ts ! k # drop (Suc k) ts" using k by (metis Cons_nth_drop_Suc)
  have x: "x \<le> length cs" using i by (simp add: inv_def)
  have m: "matches (drop k ts) (drop x cs)
      = (\<exists>z. x \<le> z \<and> z \<le> length cs \<and> matches (drop (Suc k) ts) (drop z cs))"
  proof -
    have "(\<exists>z\<le>length cs - x. matches (drop (Suc k) ts) (drop (z + x) cs))
        = (\<exists>z. x \<le> z \<and> z \<le> length cs \<and> matches (drop (Suc k) ts) (drop z cs))"
      using x by (metis add.commute le_add2 le_add_diff_inverse le_diff_conv2 Nat.le_diff_conv2)
    then show ?thesis using k(2) by (simp add: d star)
  qed
  show ?thesis
  proof (cases "r = length ts")
    case True
    with i m show ?thesis by (simp add: inv_def)
  next
    case False
    define ps where "ps = take (k - r) (drop r ts)"
    have "r \<le> k" using i False by (simp add: inv_def)
    then have r: "take (k - r) (drop r ts) @ drop k ts = drop r ts"
      by (metis append_take_drop_id drop_drop le_add_diff_inverse2)
    have p: "drop r ts = ps @ drop k ts" "\<forall>p\<in>set ps. \<not> is_star p" "x = y + sum_list (map wide ps)"
      "matches ts cs = (\<exists>z. y \<le> z \<and> z \<le> length cs \<and> matches (drop r ts) (drop z cs))"
      "matches (drop r ts) (drop y cs) = matches (drop k ts) (drop x cs)" "y \<le> length cs"
      using i False r by (simp_all add: inv_def ps_def)
    have "\<exists>z. x \<le> z \<and> z \<le> length cs \<and> matches (drop (Suc k) ts) (drop z cs)"
      if z: "y \<le> z" "z \<le> length cs" "matches (drop r ts) (drop z cs)" for z
    proof -
      let ?w = "sum_list (map wide ps)"
      from starless_match [OF z(3) [unfolded p(1)] p(2)]
      have "z + ?w \<le> length cs" "matches (ts ! k # drop (Suc k) ts) (drop (z + ?w) cs)"
        using z(2) by (auto simp: d add.commute)
      then obtain v where "v \<le> length cs - (z + ?w)" "matches (drop (Suc k) ts) (drop (v + (z + ?w)) cs)"
        using k(2) by (auto simp: star)
      then show ?thesis using p(3) z(1) \<open>z + ?w \<le> length cs\<close>
        by (intro exI [where x = "v + (z + ?w)"]) auto
    qed
    with p(4-6) m show ?thesis by blast
  qed
qed

lemma inv_restart:
  assumes "inv ts cs k x r y" "is_star (ts ! k)" "Suc k < length ts"
  shows "inv ts cs (Suc k) x (Suc k) x"
  using inv_star [OF assms(1) _ assms(2)] assms by (simp add: inv_def)

end

end
