(* ===== verification/Glob_Match.thy ===== *)
theory Glob_Match
  imports Glob Lsp_Text Backtrack
begin

unbundle bit_operations_syntax

text \<open>
  Matching a path against a compiled glob pattern (\<^verbatim>\<open>match\<close>, \<^verbatim>\<open>match_arms\<close> and what
  they call in \<^verbatim>\<open>src/support/glob_pattern.cpp\<close>), and the two lowest layers of its correctness:
  the packed literals compare like \<^verbatim>\<open>ends_with\<close>, and \<^verbatim>\<open>match_tokens\<close>, which works on
  bytes and backtracks to the latest star only, decides a plain definition over the characters of
  the input. A loop that does not return has the value \<^const>\<open>None\<close>; that it returns is part of
  each theorem.
\<close>

section \<open>The operations\<close>

definition packed_matches :: "bool \<Rightarrow> PackedLiteral \<Rightarrow> string \<Rightarrow> bool" where
  "packed_matches big lit input =
     (let n = length (packed_text lit) in
      if length input < n then False
      else if n \<le> 8 \<and> length input \<ge> 8 then
        memcpy_word big (drop (length input - 8) input) AND packed_mask lit = packed_word lit
      else if n \<le> 16 \<and> length input \<ge> 16 then
        memcpy_word big (drop (length input - 8) input) AND packed_mask lit = packed_word lit
        \<and> memcpy_word big (take 8 (drop (length input - 16) input)) AND lead_mask lit = lead_word lit
      else ends_with input (packed_text lit))"

definition basename :: "string \<Rightarrow> string" where
  "basename path =
     (case find_last_char (\<lambda>c. c = CHR ''/'') path of None \<Rightarrow> path | Some slash \<Rightarrow> drop (slash + 1) path)"

text \<open>\<^verbatim>\<open>s.find(c, from)\<close>.\<close>

definition find_from :: "char \<Rightarrow> string \<Rightarrow> nat \<Rightarrow> nat option" where
  "find_from c s from = map_option (\<lambda>i. from + i) (find_char (\<lambda>d. d = c) (drop from s))"

lemma find_from_Some: "find_from c s from = Some at \<Longrightarrow> from \<le> at \<and> at < length s"
  by (auto simp: find_from_def dest!: find_char_length)

text \<open>The loop of \<^verbatim>\<open>find_segment\<close>, from a candidate on.\<close>

function find_segment_loop :: "string \<Rightarrow> nat option \<Rightarrow> char \<Rightarrow> string \<Rightarrow> nat option" where
  "find_segment_loop str None c t = None"
| "find_segment_loop str (Some at) c t =
     (let e = at + length t in
      if e > length str then None
      else if (at = 0 \<or> str ! (at - 1) = CHR ''/'')
        \<and> (t = [] \<or> (e = length str \<or> str ! e = CHR ''/'') \<and> take (length t) (drop at str) = t)
      then Some at
      else find_segment_loop str (find_from c str (at + 1)) c t)"
  by pat_completeness auto
termination
  by (relation "measure (\<lambda>(str, at, c, t). case at of None \<Rightarrow> 0 | Some at \<Rightarrow> Suc (length str) - at)")
    (auto split: option.split dest!: find_from_Some)

declare find_segment_loop.simps(2) [simp del]

definition find_segment :: "string \<Rightarrow> nat \<Rightarrow> char \<Rightarrow> string \<Rightarrow> nat option" where
  "find_segment str from c t = find_segment_loop str (find_from c str from) c t"

definition match_affix :: "Segment \<Rightarrow> string \<Rightarrow> bool" where
  "match_affix segment input =
     (let pre = literal_of (hd (segment_tokens segment));
          suf = literal_of (last (segment_tokens segment))
      in length input \<ge> length pre + length suf \<and> starts_with input pre \<and> ends_with input suf)"

text \<open>
  A turn of the loop of \<^verbatim>\<open>match_tokens\<close>. Its state: the token, the offset, the token after the
  latest star, and the offset up to which that star absorbs. \<^verbatim>\<open>token_retry\<close> is the end of the turn
  that a mismatch reaches.
\<close>

type_synonym cursor = "nat \<times> nat \<times> nat \<times> nat"

definition token_retry :: "Token list \<Rightarrow> string \<Rightarrow> nat \<Rightarrow> nat \<Rightarrow> bool + cursor" where
  "token_retry ts input retry_token retry_offset =
     (if retry_token = length ts \<or> retry_offset = length input then Inl False
      else let at = retry_offset + snd (decode_utf8_atom input retry_offset)
           in Inr (retry_token, at, retry_token, at))"

fun token_step :: "Token list \<Rightarrow> string \<Rightarrow> cursor \<Rightarrow> bool + cursor" where
  "token_step ts input (token, offset, retry_token, retry_offset) =
     (if token = length ts
      then if offset = length input then Inl True else token_retry ts input retry_token retry_offset
      else case ts ! token of
        Star \<Rightarrow>
          if token + 1 = length ts then Inl True
          else Inr (token + 1, offset, token + 1, offset)
      | Literal t \<Rightarrow>
          if token = retry_token then
            if token + 1 = length ts then Inl (length input - offset \<ge> length t \<and> ends_with input t)
            else (case find_text t (drop offset input) of
                    None \<Rightarrow> Inl False
                  | Some i \<Rightarrow> Inr (token + 1, offset + i + length t, retry_token, offset + i))
          else if starts_with (drop offset input) t
          then Inr (token + 1, offset + length t, retry_token, retry_offset)
          else token_retry ts input retry_token retry_offset
      | AnyChar \<Rightarrow>
          if offset \<noteq> length input
          then Inr (token + 1, offset + snd (decode_utf8_atom input offset), retry_token, retry_offset)
          else token_retry ts input retry_token retry_offset
      | Class cls \<Rightarrow>
          if offset \<noteq> length input \<and> contains cls (fst (decode_utf8_atom input offset))
          then Inr (token + 1, offset + snd (decode_utf8_atom input offset), retry_token, retry_offset)
          else token_retry ts input retry_token retry_offset)"

declare token_step.simps [simp del]

definition match_tokens :: "Segment \<Rightarrow> string \<Rightarrow> bool option" where
  "match_tokens segment input =
     forever (\<lambda>st. Some (token_step (segment_tokens segment) input st))
       (0, 0, length (segment_tokens segment), 0)"

text \<open>
  The arm's last segment against the final segment of the input. \<^const>\<open>last\<close> of an arm is the
  segment before its end.
\<close>

definition match_final :: "bool \<Rightarrow> Arm \<Rightarrow> string \<Rightarrow> bool option" where
  "match_final big arm str =
     (if \<not> packed_matches big (arm_literal arm) str then Some False
      else let name = (if arm_basename arm then basename str else str);
               segment = last (arm_segments arm)
           in if \<not> arm_basename arm \<and> CHR ''/'' \<in> set name then Some False
              else if plan arm = PlanAffix
              then Some (length name \<ge> length (arm_head arm) + length (packed_text (arm_literal arm))
                \<and> starts_with name (arm_head arm))
              else if segment_kind segment = LiteralSegment
              then Some (length name = length (packed_text (arm_literal arm)))
              else match_tokens segment name)"

text \<open>
  \<^verbatim>\<open>segment_end\<close>: where the input segment that starts at an offset ends. The code keeps the
  latest answer.
\<close>

definition segment_end :: "string \<Rightarrow> nat \<Rightarrow> nat" where
  "segment_end str b = (case find_from CHR ''/'' str b of None \<Rightarrow> length str | Some e \<Rightarrow> e)"

text \<open>
  Whether a segment that is not recursive matches the input at an offset, and where the input
  segment ends: the middle of the loop of \<^verbatim>\<open>execute\<close>.
\<close>

definition match_part :: "Segment \<Rightarrow> string \<Rightarrow> nat \<Rightarrow> (bool \<times> nat) option" where
  "match_part part str offset =
     (if segment_kind part = LiteralSegment then
        let t = (if segment_tokens part = [] then [] else literal_of (hd (segment_tokens part)));
            e = offset + length t
        in Some (e \<le> length str \<and> (e = length str \<or> str ! e = CHR ''/'')
             \<and> take (length t) (drop offset str) = t, e)
      else
        let e = segment_end str offset;
            input = take (e - offset) (drop offset str)
        in if segment_kind part = Affix then Some (match_affix part input, e)
           else map_option (\<lambda>m. (m, e)) (match_tokens part input))"

text \<open>
  A turn of the loop of \<^verbatim>\<open>execute\<close>. Its state: the segment, the offset, the segment after the
  latest globstar, and the offset up to which that globstar absorbs. \<^verbatim>\<open>jump\<close> is the end of the
  turn, \<^verbatim>\<open>segment_retry\<close> what a mismatch does.
\<close>

definition jump :: "Segment list \<Rightarrow> string \<Rightarrow> nat \<Rightarrow> nat \<Rightarrow> bool + cursor" where
  "jump segs str retry_segment from =
     (case find_segment str from (the (first (segs ! retry_segment))) [] of
        None \<Rightarrow> Inl False
      | Some at \<Rightarrow> Inr (retry_segment, at, retry_segment, at))"

definition segment_retry :: "Segment list \<Rightarrow> string \<Rightarrow> nat \<Rightarrow> nat \<Rightarrow> bool + cursor" where
  "segment_retry segs str retry_segment retry_offset =
     (if retry_segment = length segs then Inl False
      else if first (segs ! retry_segment) = None then
        let e = segment_end str retry_offset;
            at = (if e = length str then e else e + 1)
        in Inr (retry_segment, at, retry_segment, at)
      else jump segs str retry_segment (retry_offset + 1))"

fun segment_step :: "Segment list \<Rightarrow> string \<Rightarrow> cursor \<Rightarrow> (bool + cursor) option" where
  "segment_step segs str (segment, offset, retry_segment, retry_offset) =
     (let part = segs ! segment in
      if offset = length str then Some (Inl (nullable part))
      else if segment_kind part = Recursive then
        if segment + 1 = length segs then Some (Inl True)
        else if first (segs ! (segment + 1)) = None
        then Some (Inr (segment + 1, offset, segment + 1, offset))
        else Some (jump segs str (segment + 1) offset)
      else if first part \<noteq> None \<and> first part \<noteq> Some (str ! offset)
      then Some (segment_retry segs str retry_segment retry_offset)
      else case match_part part str offset of
        None \<Rightarrow> None
      | Some (matched, e) \<Rightarrow>
          if matched \<and> e = length str \<and> optional_rest part then Some (Inl True)
          else if matched \<and> e \<noteq> length str \<and> segment + 1 \<noteq> length segs
          then Some (Inr (segment + 1, e + 1, retry_segment, retry_offset))
          else Some (segment_retry segs str retry_segment retry_offset))"

declare segment_step.simps [simp del]

definition execute :: "Arm \<Rightarrow> string \<Rightarrow> bool option" where
  "execute arm str =
     forever (segment_step (arm_segments arm) str) (0, 0, length (arm_segments arm), 0)"

text \<open>The binary search of \<^verbatim>\<open>match_extension_set\<close>.\<close>

function search_extension :: "Arm list \<Rightarrow> nat \<Rightarrow> uint64 \<Rightarrow> nat \<Rightarrow> nat \<Rightarrow> bool" where
  "search_extension as n word low high =
     (if low < high then
        let middle = low + (high - low) div 2;
            literal = arm_literal (as ! middle);
            candidate = (n, word AND packed_mask literal);
            key = (length (packed_text literal), packed_word literal)
        in if candidate = key then True
           else if candidate < key then search_extension as n word low middle
           else search_extension as n word (middle + 1) high
      else False)"
  by pat_completeness auto
termination
  by (relation "measure (\<lambda>(as, n, word, low, high). high - low)") auto

declare search_extension.simps [simp del]

definition match_extension_set :: "bool \<Rightarrow> Arm list \<Rightarrow> string \<Rightarrow> bool" where
  "match_extension_set big as str =
     (case find_last_char (\<lambda>c. c = CHR ''.'') str of
        None \<Rightarrow> False
      | Some dot \<Rightarrow>
          if length str - dot > 8 then False
          else let word = memcpy_word big (if length str \<ge> 8 then drop (length str - 8) str
                                           else replicate (8 - length str) (CHR 0x00) @ str)
               in search_extension as (length str - dot) word 0 (length as))"

text \<open>What the loop of \<^verbatim>\<open>match_arms\<close> asks of one arm, and the loop.\<close>

definition is_tree :: "string \<Rightarrow> string \<Rightarrow> bool" where
  "is_tree t str \<longleftrightarrow> starts_with str t \<and> (length str = length t \<or> str ! length t = CHR ''/'')"

definition is_path_suffix :: "bool \<Rightarrow> PackedLiteral \<Rightarrow> string \<Rightarrow> bool" where
  "is_path_suffix big lit str \<longleftrightarrow> packed_matches big lit str
     \<and> (length str = length (packed_text lit) \<or> str ! (length str - length (packed_text lit) - 1) = CHR ''/'')"

definition arm_hit :: "bool \<Rightarrow> Arm \<Rightarrow> string \<Rightarrow> bool option" where
  "arm_hit big arm str =
     (case plan arm of
        PlanPrefixTree \<Rightarrow> Some (is_tree (arm_head arm) str)
      | PlanDirectoryTree \<Rightarrow> Some (find_segment str 0 (hd (arm_head arm)) (arm_head arm) \<noteq> None)
      | PlanSuffix \<Rightarrow> Some (packed_matches big (arm_literal arm) str)
      | PlanPathSuffix \<Rightarrow> Some (is_path_suffix big (arm_literal arm) str)
      | PlanSegmentSuffix \<Rightarrow> Some (packed_matches big (arm_literal arm) str \<and> CHR ''/'' \<notin> set str)
      | PlanAffix \<Rightarrow> match_final big arm str
      | PlanFinal \<Rightarrow> match_final big arm str
      | PlanGeneral \<Rightarrow> if packed_matches big (arm_literal arm) str then execute arm str else Some False)"

fun any_arm :: "bool \<Rightarrow> Arm list \<Rightarrow> string \<Rightarrow> bool option" where
  "any_arm big [] str = Some False"
| "any_arm big (arm # as) str =
     (case arm_hit big arm str of
        None \<Rightarrow> None
      | Some hit \<Rightarrow> if hit then Some True else any_arm big as str)"

text \<open>\<^verbatim>\<open>match_arms\<close> once the prefix is off.\<close>

definition match_rest :: "bool \<Rightarrow> GlobPattern \<Rightarrow> string \<Rightarrow> bool option" where
  "match_rest big p str =
     (case mode p of
        ModeExtensionArms \<Rightarrow> Some (match_extension_set big (arms p) str)
      | ModeSegmentSuffixArms \<Rightarrow>
          if CHR ''/'' \<in> set str then Some False
          else Some (list_ex (\<lambda>arm. packed_matches big (arm_literal arm) str) (arms p))
      | ModeSuffixArms \<Rightarrow> Some (list_ex (\<lambda>arm. packed_matches big (arm_literal arm) str) (arms p))
      | _ \<Rightarrow> any_arm big (arms p) str)"

definition match_arms :: "bool \<Rightarrow> GlobPattern \<Rightarrow> string \<Rightarrow> bool option" where
  "match_arms big p str =
     (if pat_prefix p \<noteq> [] \<and> \<not> starts_with str (pat_prefix p) then Some False
      else let str = drop (length (pat_prefix p)) str in
        if prefix_at_seg_end p then
          if str = [] then Some (list_ex absorbs_separator (arms p))
          else if str ! 0 \<noteq> CHR ''/'' then Some False
          else match_rest big p (drop 1 str)
        else match_rest big p str)"

definition match :: "bool \<Rightarrow> GlobPattern \<Rightarrow> string \<Rightarrow> bool option" where
  "match big p s =
     (case mode p of
        ModeLiteral \<Rightarrow> Some (s = pat_prefix p)
      | ModeAny \<Rightarrow> Some True
      | ModePrefixTree \<Rightarrow> Some (is_tree (pat_prefix p) s)
      | ModeSuffix \<Rightarrow> Some (packed_matches big (arm_literal (hd (arms p))) s)
      | ModePathSuffix \<Rightarrow> Some (is_path_suffix big (arm_literal (hd (arms p))) s)
      | ModeSegmentSuffix \<Rightarrow> Some (packed_matches big (arm_literal (hd (arms p))) s \<and> CHR ''/'' \<notin> set s)
      | _ \<Rightarrow> match_arms big p s)"

section \<open>Packed literals\<close>

lemma memcpy_word_eq:
  assumes "length a = 8" "length b = 8"
  shows "memcpy_word big a = memcpy_word big b \<longleftrightarrow> a = b"
proof
  assume e: "memcpy_word big a = memcpy_word big b"
  have "(if big then rev a else a) = (if big then rev b else b)"
  proof (rule nth_equalityI)
    fix i assume "i < length (if big then rev a else a)"
    then have "i < 8" using assms by (auto split: if_splits)
    with word_byte_memcpy_word [OF assms(1) this, of big] word_byte_memcpy_word [OF assms(2) this, of big] e
    show "(if big then rev a else a) ! i = (if big then rev b else b) ! i"
      by (metis of_char_eq_iff)
  qed (use assms in auto)
  then show "a = b" by (auto split: if_splits)
qed simp

text \<open>The mask of a word keeps its last bytes.\<close>

lemma memcpy_word_mask:
  assumes "length a = 8" "k \<le> 8"
  shows "memcpy_word big a AND memcpy_word big (replicate (8 - k) (CHR 0x00) @ replicate k (CHR 0xFF))
    = memcpy_word big (replicate (8 - k) (CHR 0x00) @ drop (8 - k) a)"
proof -
  have ff: "bit (255::nat) m \<longleftrightarrow> m < 8" for m
    using bit_mask_iff [where 'a = nat, of 8 m] by (simp add: mask_eq_exp_minus_1 possible_bit_def)
  show ?thesis
  proof (rule bit_word_eqI)
    fix n assume "n < LENGTH(64)"
    then have n: "n div 8 < 8" "n < 64" by auto
    define i where "i = (if big then 7 - n div 8 else n div 8)"
    have i: "i < 8" using n by (auto simp: i_def)
    have at: "(if big then rev bs else bs) ! (n div 8) = bs ! i" if "length bs = 8" for bs :: string
      using that n by (auto simp: i_def rev_nth)
    show "bit (memcpy_word big a AND memcpy_word big (replicate (8 - k) (CHR 0x00) @ replicate k (CHR 0xFF))) n
        = bit (memcpy_word big (replicate (8 - k) (CHR 0x00) @ drop (8 - k) a)) n"
      using assms i n(2) by (auto simp: bit_and_iff bit_memcpy_word at nth_append ff)
  qed
qed

lemma packed_word_compare:
  assumes "length a = 8" "length t \<le> 8"
  shows "memcpy_word big a AND memcpy_word big (replicate (8 - length t) (CHR 0x00) @ replicate (length t) (CHR 0xFF))
      = memcpy_word big (replicate (8 - length t) (CHR 0x00) @ t) \<longleftrightarrow> drop (8 - length t) a = t"
  using assms by (simp add: memcpy_word_mask memcpy_word_eq)

lemma packed_matches_correct: "packed_matches big (pack_literal big t) input \<longleftrightarrow> ends_with input t"
proof -
  have pt: "packed_text (pack_literal big t) = t" by (simp add: pack_literal_def Let_def)
  let ?n = "length t" and ?tail = "drop (length input - 8) input"
  consider "length input < ?n" | "?n \<le> length input" "?n \<le> 8" "8 \<le> length input"
    | "?n \<le> length input" "8 < ?n" "?n \<le> 16" "16 \<le> length input"
    | "?n \<le> length input" "\<not> (?n \<le> 8 \<and> 8 \<le> length input)" "\<not> (?n \<le> 16 \<and> 16 \<le> length input)" by linarith
  then show ?thesis
  proof cases
    case 1
    then show ?thesis by (simp add: packed_matches_def pt ends_with_def)
  next
    case 2
    have "packed_word (pack_literal big t) = memcpy_word big (replicate (8 - ?n) (CHR 0x00) @ t)"
      "packed_mask (pack_literal big t)
        = memcpy_word big (replicate (8 - ?n) (CHR 0x00) @ replicate ?n (CHR 0xFF))"
      using 2 by (simp_all add: pack_literal_def Let_def)
    then have "packed_matches big (pack_literal big t) input \<longleftrightarrow> drop (8 - ?n) ?tail = t"
      using 2 packed_word_compare [of ?tail t big] by (simp only: packed_matches_def pt Let_def) simp
    then show ?thesis using 2 by (simp add: ends_with_def)
  next
    case 3
    let ?lead = "take 8 (drop (length input - 16) input)"
    define t1 t2 where "t1 = take (?n - 8) t" and "t2 = drop (?n - 8) t"
    have t: "t = t1 @ t2" "length t2 = 8" "length t1 = ?n - 8" using 3 by (simp_all add: t1_def t2_def)
    have v: "drop 8 (replicate (16 - ?n) (CHR 0x00) @ t) = t2"
      "take 8 (replicate (16 - ?n) (CHR 0x00) @ t) = replicate (8 - length t1) (CHR 0x00) @ t1"
      "drop 8 (replicate (16 - ?n) (CHR 0x00) @ replicate ?n (CHR 0xFF)) = replicate (length t2) (CHR 0xFF)"
      "take 8 (replicate (16 - ?n) (CHR 0x00) @ replicate ?n (CHR 0xFF))
        = replicate (8 - length t1) (CHR 0x00) @ replicate (length t1) (CHR 0xFF)"
      using 3 by (auto simp: t1_def t2_def min_def)
    have "packed_word (pack_literal big t) = memcpy_word big t2"
      "packed_mask (pack_literal big t) = memcpy_word big (replicate (length t2) (CHR 0xFF))"
      "lead_word (pack_literal big t) = memcpy_word big (replicate (8 - length t1) (CHR 0x00) @ t1)"
      "lead_mask (pack_literal big t)
        = memcpy_word big (replicate (8 - length t1) (CHR 0x00) @ replicate (length t1) (CHR 0xFF))"
      using 3(3) v by (simp_all only: pack_literal_def Let_def if_True PackedLiteral.select_convs)
    then have "packed_matches big (pack_literal big t) input \<longleftrightarrow>
        drop (8 - length t2) ?tail = t2 \<and> drop (8 - length t1) ?lead = t1"
      using 3 packed_word_compare [of ?tail t2 big] packed_word_compare [of ?lead t1 big] t(2,3)
      by (simp only: packed_matches_def pt Let_def) simp
    also have "\<dots> \<longleftrightarrow> drop (length input - ?n) input = t1 @ t2"
    proof -
      let ?x = "drop (8 - length t1) ?lead"
      have "?x = take (?n - 8) (drop (length input - ?n) input)"
        using 3 t(3) by (simp add: drop_take)
      moreover have "drop (?n - 8) (drop (length input - ?n) input) = ?tail" using 3 by simp
      ultimately have "drop (length input - ?n) input = ?x @ ?tail" by (metis append_take_drop_id)
      moreover have "length ?x = length t1" using 3 t(3) by simp
      ultimately show ?thesis using t(2) by auto
    qed
    finally show ?thesis using 3 by (simp add: ends_with_def t(1) [symmetric])
  next
    case 4
    then show ?thesis by (auto simp: packed_matches_def pt)
  qed
qed

section \<open>The characters of a text\<close>

text \<open>The atoms of a text from the front, and the offset of each.\<close>

function atoms :: "string \<Rightarrow> nat list" where
  "atoms s = (if s = [] then [] else let a = decode_utf8_atom s 0 in fst a # atoms (drop (snd a) s))"
  by pat_completeness auto
termination
  by (relation "measure length") (auto simp: diff_less)

declare atoms.simps [simp del]

fun atom_offset :: "string \<Rightarrow> nat \<Rightarrow> nat" where
  "atom_offset s 0 = 0"
| "atom_offset s (Suc x) = (let n = snd (decode_utf8_atom s 0) in n + atom_offset (drop n s) x)"

lemma atoms_Nil [simp]: "atoms [] = []"
  by (simp add: atoms.simps)

lemma atoms_eq_Nil [simp]: "atoms s = [] \<longleftrightarrow> s = []"
  by (subst atoms.simps) (simp add: Let_def)

lemma atoms_step: "s \<noteq> [] \<Longrightarrow> atoms s = fst (decode_utf8_atom s 0) # atoms (drop (snd (decode_utf8_atom s 0)) s)"
  by (subst atoms.simps) (simp add: Let_def)

lemma decode_utf8_atom_drop: "i < length s \<Longrightarrow> decode_utf8_atom s i = decode_utf8_atom (drop i s) 0"
  by (simp add: decode_utf8_atom_def Let_def)

lemma decode_utf8_atom_length: "s \<noteq> [] \<Longrightarrow> snd (decode_utf8_atom s 0) \<le> length s"
  using decode_utf8_length [of s] by (cases s) (auto simp: decode_utf8_atom_def Let_def)

lemma atom_offset_atoms:
  assumes "x \<le> length (atoms s)"
  shows "atom_offset s x \<le> length s \<and> atoms (drop (atom_offset s x) s) = drop x (atoms s)"
  using assms
proof (induction x arbitrary: s)
  case (Suc x)
  then have "s \<noteq> []" by auto
  with Suc.prems Suc.IH [of "drop (snd (decode_utf8_atom s 0)) s"] decode_utf8_atom_length [of s]
  show ?case by (auto simp: atoms_step [of s] Let_def add.commute)
qed simp

lemmas atom_offset_le = atom_offset_atoms [THEN conjunct1]
lemmas atoms_drop = atom_offset_atoms [THEN conjunct2]

lemma atom_offset_add:
  "atom_offset s (x + y) = atom_offset s x + atom_offset (drop (atom_offset s x) s) y"
  by (induction x arbitrary: s) (simp_all add: Let_def add.assoc add.commute)

lemma atom_offset_at:
  assumes "x \<le> length (atoms s)"
  shows "atom_offset s x = length s \<longleftrightarrow> x = length (atoms s)"
proof
  assume "atom_offset s x = length s"
  with atoms_drop [OF assms] assms show "x = length (atoms s)" by simp
next
  assume "x = length (atoms s)"
  with atoms_drop [OF assms] atom_offset_le [OF assms] show "atom_offset s x = length s" by simp
qed

lemma atom_at:
  assumes "x < length (atoms s)"
  shows "atom_offset s x < length s" "fst (decode_utf8_atom s (atom_offset s x)) = atoms s ! x"
    "atom_offset s (Suc x) = atom_offset s x + snd (decode_utf8_atom s (atom_offset s x))"
proof -
  show l: "atom_offset s x < length s"
    using atom_offset_at [of x s] atom_offset_le [of x s] assms by auto
  then have ne: "drop (atom_offset s x) s \<noteq> []" by simp
  note d = decode_utf8_atom_drop [OF l]
  show "fst (decode_utf8_atom s (atom_offset s x)) = atoms s ! x"
    using atoms_step [OF ne] atoms_drop [of x s] assms d by (metis hd_drop_conv_nth less_imp_le list.sel(1))
  show "atom_offset s (Suc x) = atom_offset s x + snd (decode_utf8_atom s (atom_offset s x))"
    using atom_offset_add [of s x 1] d by (simp add: Let_def)
qed

lemma atom_offset_less:
  assumes "x < y" "y \<le> length (atoms s)"
  shows "atom_offset s x < atom_offset s y"
proof -
  obtain d where "y = x + Suc d" using assms(1) less_iff_Suc_add by auto
  then show ?thesis using atom_offset_add [of s x "Suc d"] by (simp add: Let_def trans_less_add1)
qed

text \<open>The atoms of an encoded code point.\<close>

lemma decode_utf8_atom_encode:
  assumes "is_code_point False cp"
  shows "decode_utf8_atom (encode_code_point cp @ rest) 0 = (cp, length (encode_code_point cp))"
  by (simp add: decode_utf8_atom_def decode_utf8_def decode_encode [OF assms])

lemma atoms_encode:
  assumes "is_code_point False cp"
  shows "atoms (encode_code_point cp @ rest) = cp # atoms rest"
  using atoms_step [of "encode_code_point cp @ rest"] decode_utf8_atom_encode [OF assms] by simp

lemma well_formed_induct [consumes 1, case_names Nil Cons]:
  assumes "well_formed False t" "P []"
    and "\<And>cp rest. is_code_point False cp \<Longrightarrow> well_formed False rest \<Longrightarrow> P rest \<Longrightarrow> P (encode_code_point cp @ rest)"
  shows "P t"
proof -
  obtain cps where "\<forall>cp\<in>set cps. is_code_point False cp" "t = concat (map encode_code_point cps)"
    using assms(1) by (auto simp: well_formed_def)
  then show ?thesis
  proof (induction cps arbitrary: t)
    case (Cons cp cps)
    then have "well_formed False (concat (map encode_code_point cps))"
      unfolding well_formed_def by (intro exI [where x = cps]) simp
    with Cons assms(3) show ?case by auto
  qed (simp add: assms(2))
qed

lemma atoms_append: "well_formed False t \<Longrightarrow> atoms (t @ u) = atoms t @ atoms u"
  by (induction rule: well_formed_induct) (simp_all add: atoms_encode)

lemma atom_offset_append: "well_formed False t \<Longrightarrow> atom_offset (t @ u) (length (atoms t)) = length t"
  by (induction rule: well_formed_induct) (simp_all add: atoms_encode decode_utf8_atom_encode Let_def)

text \<open>An atom in the Unicode range is spelled by its encoding only.\<close>

lemma code_point_atom:
  assumes "is_code_point False cp" "u \<noteq> []" "fst (decode_utf8_atom u 0) = cp"
  shows "u = encode_code_point cp @ drop (snd (decode_utf8_atom u 0)) u"
proof -
  have "cp < invalid_atom_base" using assms(1) by (simp add: is_code_point_def invalid_atom_base_def)
  then have "seq_valid (decode_utf8 u)" "code_point (decode_utf8 u) = cp"
    "snd (decode_utf8_atom u 0) = seq_length (decode_utf8 u)"
    using assms(3) by (auto simp: decode_utf8_atom_def Let_def split: if_splits)
  with decode_valid [of u False] show ?thesis
    by (simp add: decode_utf8_def spells_def) (metis append_take_drop_id)
qed

lemma atoms_prefix:
  assumes "well_formed False t"
  shows "starts_with u t \<longleftrightarrow> take (length (atoms t)) (atoms u) = atoms t"
  using assms
proof (induction arbitrary: u rule: well_formed_induct)
  case Nil
  then show ?case by (simp add: starts_with_def)
next
  case (Cons cp rest)
  show ?case
  proof
    assume "starts_with u (encode_code_point cp @ rest)"
    then obtain v where "u = encode_code_point cp @ rest @ v" by (auto simp: starts_with_iff)
    with Cons show "take (length (atoms (encode_code_point cp @ rest))) (atoms u)
        = atoms (encode_code_point cp @ rest)"
      by (simp add: atoms_encode atoms_append)
  next
    assume a: "take (length (atoms (encode_code_point cp @ rest))) (atoms u)
        = atoms (encode_code_point cp @ rest)"
    then have u: "u \<noteq> []" using Cons(1) by (auto simp: atoms_encode)
    with a Cons(1) have "fst (decode_utf8_atom u 0) = cp"
      "take (length (atoms rest)) (atoms (drop (snd (decode_utf8_atom u 0)) u)) = atoms rest"
      by (simp_all add: atoms_encode atoms_step [OF u])
    with Cons.IH code_point_atom [OF Cons(1) u] show "starts_with u (encode_code_point cp @ rest)"
      by (metis (no_types) append.assoc starts_with_iff)
  qed
qed

text \<open>A code point starts at an atom of whatever text it is in.\<close>

lemma encode_hd_not_continuation:
  assumes "is_code_point False cp"
  shows "\<not> is_continuation (hd (encode_code_point cp))"
proof (cases "cp < 0x80")
  case True
  then show ?thesis by (simp add: encode_code_point_def is_continuation_iff)
next
  case False
  then show ?thesis using encode_bytes [of cp] assms by (simp add: is_code_point_def)
qed

lemma atom_continuation:
  assumes "s \<noteq> []" "0 < k" "k < snd (decode_utf8_atom s 0)"
  shows "is_continuation (s ! k)"
proof -
  let ?q = "decode_utf8 s"
  have v: "seq_valid ?q" "k < seq_length ?q"
    using assms by (auto simp: decode_utf8_atom_def Let_def split: if_splits)
  have "spells False s ?q" using v(1) decode_valid by (simp add: decode_utf8_def)
  then have s: "is_code_point False (code_point ?q)" "k < length (encode_code_point (code_point ?q))"
    "s ! k = encode_code_point (code_point ?q) ! k"
    using v(2) unfolding spells_def by (simp_all) (metis nth_take)
  have "\<not> code_point ?q < 0x80" using s(2) assms(2) by (auto simp: encode_code_point_def)
  with s encode_bytes [of "code_point ?q"] assms(2) show ?thesis by (simp add: is_code_point_def)
qed

lemma atom_starts:
  assumes "i < length s" "\<not> is_continuation (s ! i)"
  shows "\<exists>x<length (atoms s). atom_offset s x = i"
  using assms
proof (induction s arbitrary: i rule: atoms.induct)
  case (1 s)
  then have s: "s \<noteq> []" by auto
  let ?n = "snd (decode_utf8_atom s 0)"
  show ?case
  proof (cases "i < ?n")
    case True
    with 1(3) s have "i = 0" using atom_continuation by blast
    with s show ?thesis by (intro exI [where x = 0]) simp
  next
    case False
    have "\<exists>x<length (atoms (drop ?n s)). atom_offset (drop ?n s) x = i - ?n"
      by (rule "1.IH" [OF s refl]) (use 1(2,3) False in auto)
    then obtain x where "x < length (atoms (drop ?n s))" "atom_offset (drop ?n s) x = i - ?n" by auto
    with False s show ?thesis by (intro exI [where x = "Suc x"]) (simp add: atoms_step Let_def)
  qed
qed

lemma literal_starts:
  assumes "well_formed False t" "t \<noteq> []" "starts_with (drop i s) t"
  shows "\<exists>x<length (atoms s). atom_offset s x = i"
proof (rule atom_starts)
  obtain cp rest where t: "is_code_point False cp" "t = encode_code_point cp @ rest"
  proof -
    obtain cps where "\<forall>cp\<in>set cps. is_code_point False cp" "t = concat (map encode_code_point cps)"
      using assms(1) by (auto simp: well_formed_def)
    with assms(2) that show thesis by (cases cps) auto
  qed
  from assms(3) obtain v where v: "drop i s = t @ v" by (auto simp: starts_with_iff)
  have "drop i s \<noteq> []" using assms(2) by (simp add: v del: drop_eq_Nil)
  then show i: "i < length s" by simp
  have "s ! i = hd (drop i s)" using i by (simp add: hd_drop_conv_nth)
  then have "s ! i = hd (encode_code_point cp)" by (simp add: v t(2))
  with t(1) show "\<not> is_continuation (s ! i)" by (simp add: encode_hd_not_continuation)
qed

section \<open>Matching the tokens of a segment\<close>

text \<open>The reference: which sequences of characters a sequence of tokens matches.\<close>

fun tokens_match :: "Token list \<Rightarrow> nat list \<Rightarrow> bool" where
  "tokens_match [] cs \<longleftrightarrow> cs = []"
| "tokens_match (Literal t # ts) cs \<longleftrightarrow>
     take (length (atoms t)) cs = atoms t \<and> tokens_match ts (drop (length (atoms t)) cs)"
| "tokens_match (Star # ts) [] \<longleftrightarrow> tokens_match ts []"
| "tokens_match (Star # ts) (c # cs) \<longleftrightarrow> tokens_match ts (c # cs) \<or> tokens_match (Star # ts) cs"
| "tokens_match (AnyChar # ts) cs \<longleftrightarrow> cs \<noteq> [] \<and> tokens_match ts (tl cs)"
| "tokens_match (Class cls # ts) cs \<longleftrightarrow> cs \<noteq> [] \<and> contains cls (hd cs) \<and> tokens_match ts (tl cs)"

definition literal_ok :: "Token \<Rightarrow> bool" where
  "literal_ok token \<longleftrightarrow> (case token of Literal t \<Rightarrow> t \<noteq> [] \<and> well_formed False t \<and> CHR ''/'' \<notin> set t | _ \<Rightarrow> True)"

text \<open>How many characters a token other than a star takes.\<close>

fun token_width :: "Token \<Rightarrow> nat" where
  "token_width (Literal t) = length (atoms t)"
| "token_width _ = 1"

lemma star_match: "tokens_match (Star # ts) cs \<longleftrightarrow> (\<exists>y\<le>length cs. tokens_match ts (drop y cs))"
proof (induction cs)
  case (Cons c cs)
  have "(\<exists>y\<le>Suc (length cs). tokens_match ts (drop y (c # cs))) \<longleftrightarrow>
      tokens_match ts (c # cs) \<or> (\<exists>y\<le>length cs. tokens_match ts (drop y cs))"
    by (metis (no_types, lifting) Suc_le_mono drop0 drop_Suc_Cons le0 not0_implies_Suc)
  with Cons show ?case by simp
qed simp

lemma token_match_width:
  assumes "tokens_match (t # ts) cs" "t \<noteq> Star"
  shows "token_width t \<le> length cs \<and> tokens_match ts (drop (token_width t) cs)"
proof (cases t)
  case (Literal s)
  with assms(1) have "take (length (atoms s)) cs = atoms s" by simp
  then have "length (atoms s) \<le> length cs" by (metis length_take min.absorb_iff2 min.commute)
  with assms(1) Literal show ?thesis by simp
qed (use assms in \<open>auto simp: drop_Suc Suc_le_eq\<close>)

interpretation tok: latest_star "\<lambda>t. t = Star" token_width tokens_match
proof
  show "tokens_match (t # ts) cs \<longleftrightarrow> (\<exists>y\<le>length cs. tokens_match ts (drop y cs))" if "t = Star" for t ts cs
    using star_match [of ts cs] that by simp
  show "token_width t \<le> length cs \<and> tokens_match ts (drop (token_width t) cs)"
    if "t \<noteq> Star" "tokens_match (t # ts) cs" for t ts cs
    using token_match_width that by blast
qed

text \<open>Literals, as bytes at the offset of a character.\<close>

lemma literal_at:
  assumes "well_formed False t" "x \<le> length (atoms input)" "starts_with (drop (atom_offset input x) input) t"
  shows "x + length (atoms t) \<le> length (atoms input)"
    "atom_offset input (x + length (atoms t)) = atom_offset input x + length t"
proof -
  from assms(3) obtain v where v: "drop (atom_offset input x) input = t @ v" by (auto simp: starts_with_iff)
  have "drop x (atoms input) = atoms t @ atoms v"
    using atoms_drop [OF assms(2)] by (simp add: v atoms_append [OF assms(1)])
  then have "length (atoms input) - x = length (atoms t) + length (atoms v)"
    by (metis length_append length_drop)
  with assms(2) show "x + length (atoms t) \<le> length (atoms input)" by simp
  show "atom_offset input (x + length (atoms t)) = atom_offset input x + length t"
    by (simp add: atom_offset_add v atom_offset_append [OF assms(1)])
qed

lemma literal_match:
  assumes "well_formed False t" "x \<le> length (atoms input)"
  shows "tokens_match (Literal t # ts) (drop x (atoms input)) \<longleftrightarrow>
    starts_with (drop (atom_offset input x) input) t \<and> tokens_match ts (drop (x + length (atoms t)) (atoms input))"
  using atoms_drop [OF assms(2)] by (simp add: atoms_prefix [OF assms(1)] add.commute)

lemma atom_offset_mono: "x \<le> y \<Longrightarrow> y \<le> length (atoms s) \<Longrightarrow> atom_offset s x \<le> atom_offset s y"
  using atom_offset_less [of x y s] by (cases "x = y") auto

lemma literal_occurs:
  assumes "well_formed False t" "t \<noteq> []" "x \<le> length (atoms input)"
    "starts_with (drop i input) t" "atom_offset input x \<le> i"
  obtains z where "x \<le> z" "z \<le> length (atoms input)" "atom_offset input z = i"
proof -
  obtain z where z: "z < length (atoms input)" "atom_offset input z = i"
    using literal_starts [OF assms(1,2,4)] by auto
  then have "x \<le> z" using atom_offset_less [of z x input] assms(3,5) by (metis leD not_le_imp_less)
  with z that show thesis by simp
qed

text \<open>The literal after the latest star, where it is the last token and where it is not.\<close>

lemma final_literal:
  assumes t: "well_formed False t" "t \<noteq> []" and x: "x \<le> length (atoms input)"
  shows "(\<exists>z. x \<le> z \<and> z \<le> length (atoms input) \<and> tokens_match [Literal t] (drop z (atoms input)))
    \<longleftrightarrow> length input - atom_offset input x \<ge> length t \<and> ends_with input t"
proof
  assume "\<exists>z. x \<le> z \<and> z \<le> length (atoms input) \<and> tokens_match [Literal t] (drop z (atoms input))"
  then obtain z where z: "x \<le> z" "z \<le> length (atoms input)" "tokens_match [Literal t] (drop z (atoms input))"
    by auto
  let ?o = "atom_offset input z"
  from z(3) have "starts_with (drop ?o input) t" "length (atoms input) \<le> z + length (atoms t)"
    unfolding literal_match [OF t(1) z(2)] by auto
  from literal_at [OF t(1) z(2) this(1)] this(2)
  have e: "?o + length t = length input" by (metis atom_offset_at le_antisym)
  obtain v where v: "drop ?o input = t @ v"
    using \<open>starts_with (drop ?o input) t\<close> by (auto simp: starts_with_iff)
  have "length input - ?o = length t + length v" by (metis length_append length_drop v)
  with e have "length v = 0" by linarith
  then have "v = []" by simp
  then have "ends_with input t" using v by (metis append_Nil2 append_take_drop_id ends_with_iff)
  with e atom_offset_mono [OF z(1,2)]
  show "length input - atom_offset input x \<ge> length t \<and> ends_with input t" by simp
next
  assume a: "length input - atom_offset input x \<ge> length t \<and> ends_with input t"
  then obtain p where p: "input = p @ t" by (auto simp: ends_with_iff)
  have "atom_offset input x \<le> length p" using a t(2) by (cases t) (auto simp: p)
  from literal_occurs [OF t x _ this] obtain z where z: "x \<le> z" "z \<le> length (atoms input)"
    "atom_offset input z = length p" using starts_with_append [of t "[]"] by (auto simp: p)
  have "tokens_match [Literal t] (drop z (atoms input))"
    using atoms_drop [OF z(2)] by (simp add: z(3)) (simp add: p)
  with z show "\<exists>z. x \<le> z \<and> z \<le> length (atoms input) \<and> tokens_match [Literal t] (drop z (atoms input))"
    by blast
qed

lemma found_literal:
  assumes t: "well_formed False t" "t \<noteq> []" and x: "x \<le> length (atoms input)"
    and f: "find_text t (drop (atom_offset input x) input) = Some i"
  obtains z where "x \<le> z" "z \<le> length (atoms input)" "atom_offset input z = atom_offset input x + i"
    "starts_with (drop (atom_offset input z) input) t"
    "\<And>w ts. x \<le> w \<Longrightarrow> w < z \<Longrightarrow> \<not> tokens_match (Literal t # ts) (drop w (atoms input))"
proof -
  let ?o = "atom_offset input x"
  from f have s: "starts_with (drop (?o + i) input) t" "\<forall>j<i. \<not> starts_with (drop (?o + j) input) t"
    by (simp_all add: find_text_Some add.commute)
  obtain z where z: "x \<le> z" "z \<le> length (atoms input)" "atom_offset input z = ?o + i"
    using literal_occurs [OF t x s(1)] by auto
  have "\<not> tokens_match (Literal t # ts) (drop w (atoms input))" if w: "x \<le> w" "w < z" for w ts
  proof -
    have "?o \<le> atom_offset input w" "atom_offset input w < ?o + i"
      using atom_offset_mono [of x w input] atom_offset_less [of w z input] w z by auto
    then have "\<not> starts_with (drop (atom_offset input w) input) t"
      using s(2) [rule_format, of "atom_offset input w - ?o"] by simp
    with w z show ?thesis by (simp only: literal_match [OF t(1), of w]) auto
  qed
  with z s(1) that show thesis by metis
qed

lemma lost_literal:
  assumes t: "well_formed False t" and x: "x \<le> length (atoms input)"
    and f: "find_text t (drop (atom_offset input x) input) = None"
    and z: "x \<le> z" "z \<le> length (atoms input)"
  shows "\<not> tokens_match (Literal t # ts) (drop z (atoms input))"
proof -
  let ?o = "atom_offset input x" and ?i = "atom_offset input z"
  have "?o \<le> ?i" "?i \<le> length input" using atom_offset_mono [OF z] atom_offset_le [OF z(2)] by auto
  then have "\<not> starts_with (drop ?i input) t"
    using f [unfolded find_text_None, rule_format, of "?i - ?o"] by simp
  then show ?thesis by (simp only: literal_match [OF t z(2)]) simp
qed

text \<open>The turns of the loop.\<close>

definition token_order :: "Token list \<Rightarrow> string \<Rightarrow> (cursor \<times> cursor) set" where
  "token_order ts input = measures
     [\<lambda>(k, offset, r, retry_offset). if r = length ts then Suc (length ts) else length ts - r,
      \<lambda>(k, offset, r, retry_offset). length input - retry_offset,
      \<lambda>(k, offset, r, retry_offset). length ts - k]"

fun cursor_inv :: "Token list \<Rightarrow> string \<Rightarrow> cursor \<Rightarrow> bool" where
  "cursor_inv ts input (k, offset, r, retry_offset) \<longleftrightarrow>
     (\<exists>x y. tok.inv ts (atoms input) k x r y \<and> offset = atom_offset input x
        \<and> retry_offset = atom_offset input y)"

lemma cursor_invI: "tok.inv ts (atoms input) k x r y
    \<Longrightarrow> cursor_inv ts input (k, atom_offset input x, r, atom_offset input y)"
  by auto

abbreviation turns :: "Token list \<Rightarrow> string \<Rightarrow> cursor \<Rightarrow> bool + cursor \<Rightarrow> bool" where
  "turns ts input st res \<equiv> res = Inl (tokens_match ts (atoms input))
     \<or> (\<exists>st'. res = Inr st' \<and> cursor_inv ts input st' \<and> (st', st) \<in> token_order ts input)"

lemma token_retry_turns:
  assumes i: "tok.inv ts (atoms input) k x r y"
    and no: "\<not> tokens_match (drop k ts) (drop x (atoms input))"
  shows "turns ts input (k, atom_offset input x, r, atom_offset input y)
    (token_retry ts input r (atom_offset input y))"
proof (cases "r = length ts \<or> y = length (atoms input)")
  case True
  with tok.inv_fail [OF i no] tok.inv_le [OF i] show ?thesis
    by (auto simp: token_retry_def atom_offset_at)
next
  case False
  note le = tok.inv_le [OF i]
  have y: "y < length (atoms input)" using False le by simp
  have inv: "tok.inv ts (atoms input) r (Suc y) r (Suc y)"
    using tok.inv_next [OF i no] False by simp
  note at = atom_at [OF y]
  have "token_retry ts input r (atom_offset input y)
      = Inr (r, atom_offset input (Suc y), r, atom_offset input (Suc y))"
    using False at by (simp add: token_retry_def Let_def)
  moreover have "cursor_inv ts input (r, atom_offset input (Suc y), r, atom_offset input (Suc y))"
    by (rule cursor_invI [OF inv])
  moreover have "atom_offset input y < atom_offset input (Suc y)" "atom_offset input y < length input"
    using at(1) atom_offset_less [of y "Suc y" input] y by auto
  ultimately show ?thesis using False by (simp add: token_order_def del: atom_offset.simps) linarith
qed

lemma token_advance_turns:
  assumes i: "tok.inv ts (atoms input) k x r y" and k: "k < length ts" "ts ! k = t" "t \<noteq> Star"
    and le: "x + token_width t \<le> length (atoms input)"
    and m: "tokens_match (t # drop (Suc k) ts) (drop x (atoms input))
      = tokens_match (drop (Suc k) ts) (drop (x + token_width t) (atoms input))"
    and at: "offset = atom_offset input (x + token_width t)"
  shows "turns ts input (k, atom_offset input x, r, atom_offset input y) (Inr (Suc k, offset, r, atom_offset input y))"
  using tok.inv_advance [OF i k le m] k(1) at by (auto simp: token_order_def)

lemma token_literal_turns:
  assumes i: "tok.inv ts (atoms input) k x r y" and k: "k < length ts" "ts ! k = Literal t"
    and t: "t \<noteq> []" "well_formed False t"
  shows "turns ts input (k, atom_offset input x, r, atom_offset input y)
    (token_step ts input (k, atom_offset input x, r, atom_offset input y))"
proof -
  have d: "drop k ts = Literal t # drop (Suc k) ts" using k by (metis Cons_nth_drop_Suc)
  note x = tok.inv_le(2) [OF i]
  show ?thesis
  proof (cases "k = r")
    case False
    show ?thesis
    proof (cases "starts_with (drop (atom_offset input x) input) t")
      case True
      note at = literal_at [OF t(2) x True]
      have "turns ts input (k, atom_offset input x, r, atom_offset input y)
          (Inr (Suc k, atom_offset input x + length t, r, atom_offset input y))"
        by (rule token_advance_turns [OF i k])
          (use at True in \<open>simp_all add: literal_match [OF t(2) x] del: tokens_match.simps\<close>)
      with True False k show ?thesis by (simp add: token_step.simps)
    next
      case no: False
      then have "\<not> tokens_match (drop k ts) (drop x (atoms input))"
        by (simp add: d literal_match [OF t(2) x] del: tokens_match.simps)
      from token_retry_turns [OF i this] no False k show ?thesis by (simp add: token_step.simps)
    qed
  next
    case True
    then have r: "r \<noteq> length ts" "x = y" using i k by (auto simp: tok.inv_def)
    have goal: "tokens_match ts (atoms input)
        = (\<exists>z. x \<le> z \<and> z \<le> length (atoms input) \<and> tokens_match (drop k ts) (drop z (atoms input)))"
      using i r True by (simp add: tok.inv_def)
    show ?thesis
    proof (cases "Suc k = length ts")
      case last: True
      then have "drop k ts = [Literal t]" using d by simp
      with goal final_literal [OF t(2,1) x] last True k show ?thesis
        by (simp add: token_step.simps del: tokens_match.simps)
    next
      case more: False
      show ?thesis
      proof (cases "find_text t (drop (atom_offset input x) input)")
        case None
        then have "\<not> tokens_match ts (atoms input)"
          unfolding goal d using lost_literal [OF t(2) x] by blast
        with None more True k show ?thesis by (simp add: token_step.simps)
      next
        case (Some n)
        then obtain z where z: "x \<le> z" "z \<le> length (atoms input)" "atom_offset input z = atom_offset input x + n"
          "starts_with (drop (atom_offset input z) input) t"
          "\<And>w ts. x \<le> w \<Longrightarrow> w < z \<Longrightarrow> \<not> tokens_match (Literal t # ts) (drop w (atoms input))"
          using found_literal [OF t(2,1) x] by metis
        have inv: "tok.inv ts (atoms input) k z k z"
          using tok.inv_skip [OF i r(1) _ z(2)] z(1,5) True d by (simp add: r(2))
        note at = literal_at [OF t(2) z(2,4)]
        have "tok.inv ts (atoms input) (Suc k) (z + token_width (Literal t)) k z"
          by (rule tok.inv_advance [OF inv k])
            (use at z in \<open>simp_all add: literal_match [OF t(2) z(2)] del: tokens_match.simps\<close>)
        from cursor_invI [OF this] at(2) z(3)
        have "cursor_inv ts input (Suc k, atom_offset input x + n + length t, k, atom_offset input x + n)"
          by simp
        with Some more True k r show ?thesis
          by (simp add: token_step.simps token_order_def) linarith
      qed
    qed
  qed
qed

lemma token_step_turns:
  assumes "list_all literal_ok ts" "cursor_inv ts input st"
  shows "turns ts input st (token_step ts input st)"
proof -
  obtain k x r y where st: "st = (k, atom_offset input x, r, atom_offset input y)"
    and i: "tok.inv ts (atoms input) k x r y"
    using assms(2) by (cases st) auto
  note le = tok.inv_le [OF i]
  show ?thesis
  proof (cases "k = length ts")
    case True
    show ?thesis
    proof (cases "x = length (atoms input)")
      case end_: True
      have "tokens_match ts (atoms input)"
        using i True end_ le by (auto simp: tok.inv_def split: if_splits)
      then show ?thesis using True end_ le by (simp add: st token_step.simps atom_offset_at)
    next
      case False
      then have "\<not> tokens_match (drop k ts) (drop x (atoms input))" using True le by simp
      from token_retry_turns [OF i this] False True le show ?thesis
        by (simp add: st token_step.simps atom_offset_at)
    qed
  next
    case False
    then have k: "k < length ts" using le by simp
    then have d: "drop k ts = ts ! k # drop (Suc k) ts" by (simp add: Cons_nth_drop_Suc)
    have one: "turns ts input st (Inr (Suc k, atom_offset input x + snd (decode_utf8_atom input (atom_offset input x)), r, atom_offset input y))"
      if "x < length (atoms input)" "ts ! k = t" "token_width t = 1" "t \<noteq> Star"
        "tokens_match (t # drop (Suc k) ts) (drop x (atoms input)) = tokens_match (drop (Suc k) ts) (drop (Suc x) (atoms input))" for t
      unfolding st by (rule token_advance_turns [OF i k that(2,4)]) (use that atom_at [OF that(1)] in simp_all)
    have hd: "hd (drop x (atoms input)) = atoms input ! x" "tl (drop x (atoms input)) = drop (Suc x) (atoms input)"
      if "x < length (atoms input)"
      using that by (simp_all add: hd_drop_conv_nth tl_drop drop_Suc)
    note retry = token_retry_turns [OF i, folded st]
    show ?thesis
    proof (cases "ts ! k")
      case (Literal t)
      then have "literal_ok (Literal t)" using assms(1) k by (metis list_all_length)
      with token_literal_turns [OF i k Literal] show ?thesis by (simp add: st literal_ok_def)
    next
      case Star
      show ?thesis
      proof (cases "Suc k = length ts")
        case True
        then show ?thesis using Star k tok.inv_star [OF i k Star] le
          by (auto simp: st token_step.simps intro!: exI [where x = "length (atoms input)"])
      next
        case False
        then have "Suc k < length ts" using k by simp
        with tok.inv_restart [OF i Star this] Star k le(4) show ?thesis
          by (auto simp: st token_step.simps token_order_def)
      qed
    next
      case AnyChar
      show ?thesis
      proof (cases "x < length (atoms input)")
        case True
        with one [OF True AnyChar] hd [OF True] AnyChar k atom_at(1) [OF True] show ?thesis
          by (simp add: st token_step.simps)
      next
        case False
        with retry AnyChar k le d show ?thesis by (simp add: st token_step.simps atom_offset_at)
      qed
    next
      case (Class cls)
      show ?thesis
      proof (cases "x < length (atoms input) \<and> contains cls (atoms input ! x)")
        case True
        then have x: "x < length (atoms input)" by simp
        from True one [OF x Class] hd [OF x] Class k atom_at(1,2) [OF x] show ?thesis
          by (simp add: st token_step.simps)
      next
        case False
        then have "\<not> tokens_match (drop k ts) (drop x (atoms input))"
          using Class d hd by (cases "x < length (atoms input)") auto
        moreover have "\<not> (atom_offset input x \<noteq> length input
            \<and> contains cls (fst (decode_utf8_atom input (atom_offset input x))))"
          using False le(2) atom_offset_at [OF le(2)] atom_at(2) [of x input] by (cases "x < length (atoms input)") auto
        ultimately have "token_step ts input st = token_retry ts input r (atom_offset input y)"
          using Class k by (auto simp: st token_step.simps)
        then show ?thesis using retry \<open>\<not> tokens_match (drop k ts) _\<close> by simp
      qed
    qed
  qed
qed

lemma match_tokens_correct:
  assumes "list_all literal_ok (segment_tokens segment)"
  shows "match_tokens segment input = Some (tokens_match (segment_tokens segment) (atoms input))"
  unfolding match_tokens_def
proof (rule forever_rule [where I = "cursor_inv (segment_tokens segment) input"])
  show "wf (token_order (segment_tokens segment) input)" by (simp add: token_order_def)
  have "tok.inv (segment_tokens segment) (atoms input) 0 0 (length (segment_tokens segment)) 0"
    by (rule tok.inv_start)
  then show "cursor_inv (segment_tokens segment) input (0, 0, length (segment_tokens segment), 0)"
    by (auto intro!: exI [where x = 0])
qed (use token_step_turns [OF assms] in blast)

end
