(* ===== verification/Glob_Segments.thy ===== *)
theory Glob_Segments
  imports Glob_Match
begin

text \<open>
  Matching the segments of a compiled glob pattern against those of a path: \<^verbatim>\<open>execute\<close>,
  which jumps between candidates and backtracks to the latest globstar only, decides a plain
  definition of what a sequence of segments matches.
\<close>

section \<open>The segments of a path\<close>

abbreviation slash :: char where
  "slash \<equiv> CHR ''/''"

fun path_segments :: "string \<Rightarrow> string list" where
  "path_segments [] = [[]]"
| "path_segments (c # s) =
     (if c = slash then [] # path_segments s
      else (c # hd (path_segments s)) # tl (path_segments s))"

definition segment_offset :: "string list \<Rightarrow> nat \<Rightarrow> nat" where
  "segment_offset is x = sum_list (map (\<lambda>i. Suc (length i)) (take x is))"

lemma path_segments_nonempty [simp]: "path_segments s \<noteq> []"
  by (cases s) auto

lemma path_segments_front: "slash \<notin> set p \<Longrightarrow> path_segments (p @ slash # s) = p # path_segments s"
  by (induction p) auto

lemma path_segments_single: "slash \<notin> set p \<Longrightarrow> path_segments p = [p]"
  by (induction p) auto

lemma path_induct [case_names single more]:
  assumes "\<And>p. slash \<notin> set p \<Longrightarrow> P p"
    and "\<And>p s. slash \<notin> set p \<Longrightarrow> P s \<Longrightarrow> P (p @ slash # s)"
  shows "P s"
proof (induction "length s" arbitrary: s rule: less_induct)
  case less
  show ?case
  proof (cases "slash \<in> set s")
    case True
    then obtain p t where s: "s = p @ slash # t" "slash \<notin> set p" by (meson split_list_first)
    with less assms(2) show ?thesis by simp
  qed (simp add: assms(1))
qed

lemma path_segments_slash: "i \<in> set (path_segments s) \<Longrightarrow> slash \<notin> set i"
  by (induction s arbitrary: i rule: path_induct) (auto simp: path_segments_front path_segments_single)

lemma segment_offset_simps [simp]:
  "segment_offset is 0 = 0" "segment_offset (i # is) (Suc x) = Suc (length i + segment_offset is x)"
  by (simp_all add: segment_offset_def)

lemma segment_offset_Suc: "x < length is \<Longrightarrow> segment_offset is (Suc x) = Suc (segment_offset is x + length (is ! x))"
  by (simp add: segment_offset_def take_Suc_conv_app_nth)

lemma segment_offset_less: "x < y \<Longrightarrow> y \<le> length is \<Longrightarrow> segment_offset is x < segment_offset is y"
proof (induction "y - x" arbitrary: y)
  case (Suc d)
  then obtain z where z: "y = Suc z" "x \<le> z" by (metis less_Suc_eq_le less_imp_Suc_add add_Suc_right)
  show ?case
  proof (cases "x = z")
    case False
    then have "segment_offset is x < segment_offset is z" using Suc z by (intro Suc) auto
    with z Suc.prems show ?thesis by (simp add: segment_offset_Suc)
  qed (use z Suc.prems in \<open>simp add: segment_offset_Suc\<close>)
qed simp

lemma segment_at:
  assumes "x < length (path_segments str)"
  defines "at \<equiv> segment_offset (path_segments str) x" and "i \<equiv> path_segments str ! x"
  shows "at + length i \<le> length str \<and> take (length i) (drop at str) = i
    \<and> (if Suc x = length (path_segments str) then at + length i = length str
       else at + length i < length str \<and> str ! (at + length i) = slash)
    \<and> (at = 0 \<or> str ! (at - 1) = slash)"
  using assms(1) unfolding at_def i_def
proof (induction str arbitrary: x rule: path_induct)
  case (single p)
  then show ?case by (simp add: path_segments_single)
next
  case (more p s)
  show ?case
  proof (cases x)
    case 0
    with more(1) show ?thesis by (simp add: path_segments_front nth_append)
  next
    case (Suc z)
    then have "z < length (path_segments s)" using more by (simp add: path_segments_front)
    note ih = more.IH [OF this]
    let ?at = "segment_offset (path_segments s) z" and ?str = "p @ slash # s"
    have at: "segment_offset (path_segments ?str) x = Suc (length p + ?at)"
      "path_segments ?str ! x = path_segments s ! z"
      "Suc x = length (path_segments ?str) \<longleftrightarrow> Suc z = length (path_segments s)"
      using Suc more(1) by (simp_all add: path_segments_front)
    have shift: "?str ! Suc (length p + k) = s ! k" for k by (simp add: nth_append)
    have "?str ! (Suc (length p + ?at) - 1) = slash"
    proof (cases "?at = 0")
      case False
      then have "?str ! (length p + ?at) = s ! (?at - 1)" by (simp add: nth_append nth_Cons')
      with ih False show ?thesis by simp
    qed (simp add: nth_append)
    with ih shift [of "?at + length (path_segments s ! z)"] show ?thesis
      unfolding at by (simp add: add.assoc)
  qed
qed

lemma segment_head:
  assumes "x < length (path_segments str)" "path_segments str ! x \<noteq> []"
  shows "segment_offset (path_segments str) x < length str"
    "str ! segment_offset (path_segments str) x = path_segments str ! x ! 0"
proof -
  let ?at = "segment_offset (path_segments str) x" and ?i = "path_segments str ! x"
  have len: "0 < length ?i" using assms(2) by simp
  then show lt: "?at < length str" using segment_at [OF assms(1)] by linarith
  have "str ! ?at = take (length ?i) (drop ?at str) ! 0" using len lt by simp
  then show "str ! ?at = ?i ! 0" using segment_at [OF assms(1)] by simp
qed

lemma segment_starts:
  assumes "at \<le> length str" "at = 0 \<or> str ! (at - 1) = slash"
  shows "\<exists>x<length (path_segments str). segment_offset (path_segments str) x = at"
  using assms
proof (induction str arbitrary: at rule: path_induct)
  case (single p)
  have "at = 0"
  proof (rule ccontr)
    assume "at \<noteq> 0"
    then have "p ! (at - 1) = slash" "at - 1 < length p" using single by auto
    with single(1) show False using nth_mem by metis
  qed
  then show ?case by (intro exI [where x = 0]) simp
next
  case (more p s)
  show ?case
  proof (cases "at \<le> length p")
    case True
    have "at = 0"
    proof (rule ccontr)
      assume "at \<noteq> 0"
      then have "p ! (at - 1) = slash" "at - 1 < length p"
        using more True by (auto simp: nth_append split: if_splits)
      with more(1) show False using nth_mem by metis
    qed
    then show ?thesis by (intro exI [where x = 0]) simp
  next
    case False
    define b where "b = at - Suc (length p)"
    have at: "at = Suc (length p + b)" using False by (simp add: b_def)
    have "\<exists>x<length (path_segments s). segment_offset (path_segments s) x = b"
      by (rule more.IH) (use more.prems at in \<open>auto simp: nth_append nth_Cons' split: if_splits\<close>)
    then obtain x where "x < length (path_segments s)" "segment_offset (path_segments s) x = b" by auto
    with more(1) at show ?thesis
      by (intro exI [where x = "Suc x"]) (simp add: path_segments_front)
  qed
qed

lemma segment_end_at:
  assumes "x < length (path_segments str)"
  shows "segment_end str (segment_offset (path_segments str) x)
    = segment_offset (path_segments str) x + length (path_segments str ! x)"
proof -
  let ?at = "segment_offset (path_segments str) x" and ?i = "path_segments str ! x"
  note s = segment_at [OF assms]
  have no: "slash \<notin> set ?i" using path_segments_slash assms nth_mem by blast
  define r where "r = drop (?at + length ?i) str"
  have d: "drop ?at str = ?i @ r" using s unfolding r_def
    by (metis add.commute append_take_drop_id drop_drop)
  have f: "find_char (\<lambda>d. d = slash) ?i = None" using no by (auto simp: find_char_None)
  show ?thesis
  proof (cases "Suc x = length (path_segments str)")
    case True
    then have "r = []" using s by (simp add: r_def)
    with d f s True show ?thesis by (simp add: segment_end_def find_from_def)
  next
    case False
    then have "r = slash # drop (Suc (?at + length ?i)) str" using s unfolding r_def
      by (metis Cons_nth_drop_Suc)
    with d f show ?thesis by (simp add: segment_end_def find_from_def find_char_append)
  qed
qed

section \<open>Finding a segment\<close>

definition candidate :: "string \<Rightarrow> char \<Rightarrow> string \<Rightarrow> nat \<Rightarrow> bool" where
  "candidate str c t at \<longleftrightarrow> at < length str \<and> str ! at = c \<and> at + length t \<le> length str
     \<and> (at = 0 \<or> str ! (at - 1) = slash)
     \<and> (t = [] \<or> (at + length t = length str \<or> str ! (at + length t) = slash) \<and> take (length t) (drop at str) = t)"

lemma find_from_iff:
  "find_from c str from = Some at \<longleftrightarrow> from \<le> at \<and> at < length str \<and> str ! at = c
     \<and> (\<forall>a. from \<le> a \<and> a < at \<longrightarrow> str ! a \<noteq> c)"
proof -
  have "find_from c str from = Some at \<longleftrightarrow>
      from \<le> at \<and> find_char (\<lambda>d. d = c) (drop from str) = Some (at - from)"
    by (auto simp: find_from_def)
  also have "\<dots> \<longleftrightarrow> from \<le> at \<and> at < length str \<and> str ! at = c \<and> (\<forall>j<at - from. str ! (from + j) \<noteq> c)"
    by (auto simp: find_char_iff)
  also have "(\<forall>j<at - from. str ! (from + j) \<noteq> c) \<longleftrightarrow> (\<forall>a. from \<le> a \<and> a < at \<longrightarrow> str ! a \<noteq> c)"
    by (metis add.commute le_Suc_ex less_diff_conv le_add1)
  finally show ?thesis .
qed

lemma find_from_None: "find_from c str from = None \<longleftrightarrow> (\<forall>a. from \<le> a \<and> a < length str \<longrightarrow> str ! a \<noteq> c)"
proof -
  have "find_from c str from = None \<longleftrightarrow> (\<forall>j<length str - from. str ! (from + j) \<noteq> c)"
    by (simp add: find_from_def find_char_None all_set_conv_all_nth)
  also have "\<dots> \<longleftrightarrow> (\<forall>a. from \<le> a \<and> a < length str \<longrightarrow> str ! a \<noteq> c)"
    by (metis add.commute le_Suc_ex less_diff_conv le_add1)
  finally show ?thesis .
qed

lemma find_segment_spec:
  "case find_segment str b c t of
     None \<Rightarrow> \<forall>a. b \<le> a \<longrightarrow> \<not> candidate str c t a
   | Some at \<Rightarrow> b \<le> at \<and> candidate str c t at \<and> (\<forall>a. b \<le> a \<and> a < at \<longrightarrow> \<not> candidate str c t a)"
proof (induction "length str - b" arbitrary: b rule: less_induct)
  case less
  show ?case
  proof (cases "find_from c str b")
    case None
    then have "find_segment str b c t = None" by (simp add: find_segment_def)
    with None show ?thesis by (auto simp: find_from_None candidate_def)
  next
    case (Some at)
    then have at: "b \<le> at" "at < length str" "str ! at = c" "\<forall>a. b \<le> a \<and> a < at \<longrightarrow> \<not> candidate str c t a"
      by (auto simp: find_from_iff candidate_def)
    show ?thesis
    proof (cases "at + length t > length str \<or> candidate str c t at")
      case True
      then show ?thesis using at Some
        by (auto simp: find_segment_def find_segment_loop.simps Let_def candidate_def)
    next
      case False
      then have eq: "find_segment str b c t = find_segment str (Suc at) c t"
        using Some at by (auto simp: find_segment_def find_segment_loop.simps(2) Let_def candidate_def)
      have "length str - Suc at < length str - b" using at by linarith
      note ih = less [OF this]
      have no: "\<not> candidate str c t a" if "b \<le> a" "\<not> Suc at \<le> a" for a
        using that at(4) False by (cases "a = at") auto
      show ?thesis
      proof (cases "find_segment str (Suc at) c t")
        case None
        with ih no show ?thesis by (auto simp: eq)
      next
        case (Some x)
        with ih no at(1) show ?thesis by (auto simp: eq)
      qed
    qed
  qed
qed

lemma find_segment_None: "find_segment str b c t = None \<longleftrightarrow> (\<forall>a. b \<le> a \<longrightarrow> \<not> candidate str c t a)"
  using find_segment_spec [where str = str and b = b and c = c and t = t] by (auto split: option.splits)

lemma find_segment_Some:
  assumes "find_segment str b c t = Some at"
  shows "b \<le> at" "candidate str c t at" "\<And>a. b \<le> a \<Longrightarrow> a < at \<Longrightarrow> \<not> candidate str c t a"
  using find_segment_spec [where str = str and b = b and c = c and t = t] assms by auto

section \<open>What a sequence of segments matches\<close>

abbreviation is_recursive :: "Segment \<Rightarrow> bool" where
  "is_recursive segment \<equiv> segment_kind segment = Recursive"

text \<open>The reference: a globstar matches any number of segments, any other segment exactly one.\<close>

fun segments_match :: "Segment list \<Rightarrow> string list \<Rightarrow> bool" where
  "segments_match [] is \<longleftrightarrow> is = []"
| "segments_match (seg # segs) [] \<longleftrightarrow> is_recursive seg \<and> segments_match segs []"
| "segments_match (seg # segs) (i # is) \<longleftrightarrow>
     (if is_recursive seg then segments_match segs (i # is) \<or> segments_match (seg # segs) is
      else tokens_match (segment_tokens seg) (atoms i) \<and> segments_match segs is)"

lemma segments_star:
  "is_recursive seg \<Longrightarrow> segments_match (seg # segs) is \<longleftrightarrow> (\<exists>y\<le>length is. segments_match segs (drop y is))"
proof (induction "is")
  case (Cons i "is")
  have "(\<exists>y\<le>Suc (length is). segments_match segs (drop y (i # is))) \<longleftrightarrow>
      segments_match segs (i # is) \<or> (\<exists>y\<le>length is. segments_match segs (drop y is))"
    by (metis (no_types, lifting) Suc_le_mono drop0 drop_Suc_Cons le0 not0_implies_Suc)
  with Cons show ?case by simp
qed simp

lemma segments_plain:
  "\<not> is_recursive seg \<Longrightarrow> segments_match (seg # segs) is \<longleftrightarrow>
     is \<noteq> [] \<and> tokens_match (segment_tokens seg) (atoms (hd is)) \<and> segments_match segs (tl is)"
  by (cases "is") auto

interpretation seg: latest_star is_recursive "\<lambda>_. Suc 0" segments_match
proof
  show "segments_match (t # ts) cs \<longleftrightarrow> (\<exists>y\<le>length cs. segments_match ts (drop y cs))" if "is_recursive t" for t ts cs
    using segments_star [OF that] .
  show "Suc 0 \<le> length cs \<and> segments_match ts (drop (Suc 0) cs)"
    if "\<not> is_recursive t" "segments_match (t # ts) cs" for t ts cs
    using that by (cases cs) auto
qed

lemma segments_match_Nil: "segments_match segs [] \<longleftrightarrow> list_all is_recursive segs"
  by (induction segs) auto

lemma segments_match_extra: "segments_match segs [] \<Longrightarrow> segs \<noteq> [] \<Longrightarrow> segments_match segs [i]"
  by (cases segs) auto

lemma tokens_match_Nil: "list_all literal_ok ts \<Longrightarrow> tokens_match ts [] \<longleftrightarrow> list_all (\<lambda>t. t = Star) ts"
proof (induction ts)
  case (Cons t ts)
  then show ?case by (cases t) (auto simp: literal_ok_def dest: sym [of "[]"])
qed simp

lemma tokens_match_stars: "list_all (\<lambda>t. t = Star) ts \<Longrightarrow> ts \<noteq> [] \<Longrightarrow> tokens_match ts cs"
proof (induction ts)
  case (Cons t ts)
  then show ?case
    by (cases "ts = []") (auto simp: star_match intro: exI [where x = "length cs"])
qed simp

text \<open>What the compiler promises of a segment and of the segments of an arm.\<close>

definition affix_shape :: "Token list \<Rightarrow> bool" where
  "affix_shape ts \<longleftrightarrow> (\<exists>pre suf. ts = pre @ [Star] @ suf \<and> (pre = [] \<or> (\<exists>t. pre = [Literal t]))
     \<and> (suf = [] \<or> (\<exists>t. suf = [Literal t])))"

definition segment_ok :: "Segment \<Rightarrow> bool" where
  "segment_ok seg \<longleftrightarrow> list_all literal_ok (segment_tokens seg)
     \<and> first seg = (case segment_tokens seg of Literal t # _ \<Rightarrow> Some (hd t) | _ \<Rightarrow> None)
     \<and> (case segment_kind seg of
          Recursive \<Rightarrow> segment_tokens seg = []
        | LiteralSegment \<Rightarrow> segment_tokens seg = [] \<or> (\<exists>t. segment_tokens seg = [Literal t])
        | Affix \<Rightarrow> affix_shape (segment_tokens seg)
        | General \<Rightarrow> segment_tokens seg \<noteq> [])"

definition segments_ok :: "Segment list \<Rightarrow> bool" where
  "segments_ok segs \<longleftrightarrow> segs \<noteq> [] \<and> list_all segment_ok segs
     \<and> (\<forall>k. Suc k < length segs \<and> is_recursive (segs ! k) \<and> \<not> is_recursive (segs ! Suc k)
          \<longrightarrow> segment_tokens (segs ! Suc k) \<noteq> [])
     \<and> (\<forall>k<length segs. nullable (segs ! k) = segments_match (drop k segs) [[]]
          \<and> optional_rest (segs ! k) = segments_match (drop (Suc k) segs) [])"

section \<open>Matching one segment\<close>

lemma atoms_literal:
  assumes "well_formed False t" "atoms i = atoms t"
  shows "i = t"
proof -
  have "starts_with i t" using assms by (simp add: atoms_prefix)
  then obtain v where v: "i = t @ v" by (auto simp: starts_with_iff)
  with assms have "atoms v = []" by (simp add: atoms_append)
  with v show ?thesis by simp
qed

lemma literal_token_match:
  assumes "well_formed False t"
  shows "tokens_match [Literal t] (atoms i) \<longleftrightarrow> i = t"
proof
  assume "tokens_match [Literal t] (atoms i)"
  then have "atoms i = atoms t" by auto
  with assms show "i = t" by (rule atoms_literal)
qed simp

lemma first_match:
  assumes "segment_ok seg" "first seg = Some c" "tokens_match (segment_tokens seg) (atoms i)"
  shows "i \<noteq> [] \<and> i ! 0 = c \<and> c \<noteq> slash"
proof -
  obtain t ts where t: "segment_tokens seg = Literal t # ts" "hd t = c"
    using assms(1,2) by (auto simp: segment_ok_def split: list.splits Token.splits)
  then have ok: "t \<noteq> []" "well_formed False t" "slash \<notin> set t"
    using assms(1) by (auto simp: segment_ok_def literal_ok_def)
  have "starts_with i t" using assms(3) t(1) by (simp add: atoms_prefix [OF ok(2)])
  then obtain v where "i = t @ v" by (auto simp: starts_with_iff)
  moreover obtain d u where "t = d # u" using ok(1) by (cases t) auto
  ultimately show ?thesis using t(2) ok(3) by auto
qed

lemma starts_affix:
  assumes "well_formed False t"
  shows "tokens_match (Literal t # ts) (atoms i) \<longleftrightarrow>
    starts_with i t \<and> tokens_match ts (atoms (drop (length t) i))"
proof (cases "starts_with i t")
  case True
  then obtain v where "i = t @ v" by (auto simp: starts_with_iff)
  with assms show ?thesis by (simp add: atoms_append)
next
  case False
  with assms show ?thesis by (simp add: atoms_prefix)
qed

lemma ends_affix:
  assumes "well_formed False t" "t \<noteq> []"
  shows "tokens_match [Star, Literal t] (atoms i) \<longleftrightarrow> ends_with i t"
proof -
  have "tokens_match [Star, Literal t] (atoms i)
      \<longleftrightarrow> (\<exists>z. 0 \<le> z \<and> z \<le> length (atoms i) \<and> tokens_match [Literal t] (drop z (atoms i)))"
    by (simp only: star_match) blast
  also have "\<dots> \<longleftrightarrow> ends_with i t"
    using final_literal [OF assms, of 0 i] by (auto simp: ends_with_def)
  finally show ?thesis .
qed

lemma ends_with_drop: "n \<le> length i \<Longrightarrow> ends_with (drop n i) t \<longleftrightarrow> n + length t \<le> length i \<and> ends_with i t"
  by (auto simp: ends_with_def)

lemma match_affix_correct:
  assumes ok: "list_all literal_ok (segment_tokens seg)" "affix_shape (segment_tokens seg)"
  shows "match_affix seg i \<longleftrightarrow> tokens_match (segment_tokens seg) (atoms i)"
proof -
  obtain pre suf where s: "segment_tokens seg = pre @ [Star] @ suf"
    "pre = [] \<or> (\<exists>t. pre = [Literal t])" "suf = [] \<or> (\<exists>t. suf = [Literal t])"
    using ok(2) by (auto simp: affix_shape_def)
  have star: "tokens_match [Star] cs" for cs by (rule tokens_match_stars) simp_all
  have tail: "tokens_match (Star # suf) (atoms i) \<longleftrightarrow> ends_with i (if suf = [] then [] else literal_of (hd suf))" for i
    using s ok(1) star by (auto simp: literal_ok_def ends_affix literal_of_def) (auto simp: ends_with_def)
  show ?thesis
  proof (cases "pre = []")
    case True
    then show ?thesis using s tail [of i] star
      by (auto simp: match_affix_def literal_of_def starts_with_def ends_with_def)
  next
    case False
    then obtain t where t: "pre = [Literal t]" using s(2) by auto
    then have w: "well_formed False t" using s(1) ok(1) by (simp add: literal_ok_def)
    have "tokens_match (segment_tokens seg) (atoms i) \<longleftrightarrow>
        starts_with i t \<and> ends_with (drop (length t) i) (if suf = [] then [] else literal_of (hd suf))"
      by (simp only: s(1) t append.simps starts_affix [OF w] tail)
    also have "\<dots> \<longleftrightarrow> match_affix seg i"
      using s(1,3) t starts_with_length [of i t]
      by (auto simp: match_affix_def literal_of_def ends_with_drop)
    finally show ?thesis by simp
  qed
qed

text \<open>A text without separators at the start of a segment, up to a separator or the end, is that segment.\<close>

lemma literal_segment:
  assumes x: "x < length (path_segments str)" and w: "slash \<notin> set t"
  defines "at \<equiv> segment_offset (path_segments str) x" and "i \<equiv> path_segments str ! x"
  shows "at + length t \<le> length str \<and> (at + length t = length str \<or> str ! (at + length t) = slash)
      \<and> take (length t) (drop at str) = t \<longleftrightarrow> i = t" (is "?m \<longleftrightarrow> _")
proof
  note s = segment_at [OF x, folded at_def i_def]
  have no: "slash \<notin> set i" unfolding i_def using path_segments_slash x nth_mem by blast
  assume a: ?m
  have "\<not> length t < length i"
  proof
    assume l: "length t < length i"
    then have "str ! (at + length t) = i ! length t" using s by (metis nth_drop nth_take le_add1 le_trans)
    with l a s no show False by (metis add_less_cancel_left leD nth_mem)
  qed
  moreover have "\<not> length i < length t"
  proof
    assume l: "length i < length t"
    then have "str ! (at + length i) = t ! length i" using a by (metis nth_drop nth_take le_add1 le_trans)
    with l a s w show False by (metis add_less_cancel_left leD nth_mem)
  qed
  ultimately show "i = t" using a s by (metis linorder_neqE_nat)
next
  assume "i = t"
  with segment_at [OF x, folded at_def i_def] show ?m by (metis order_refl)
qed

lemma match_part_correct:
  assumes ok: "segment_ok part" "\<not> is_recursive part" and x: "x < length (path_segments str)"
  defines "at \<equiv> segment_offset (path_segments str) x" and "i \<equiv> path_segments str ! x"
  shows "\<exists>e. match_part part str at = Some (tokens_match (segment_tokens part) (atoms i), e)
    \<and> (tokens_match (segment_tokens part) (atoms i) \<longrightarrow> e = at + length i)"
proof (cases "segment_kind part = LiteralSegment")
  case True
  define t where "t = (if segment_tokens part = [] then [] else literal_of (hd (segment_tokens part)))"
  have m: "tokens_match (segment_tokens part) (atoms i) \<longleftrightarrow> i = t" and w: "slash \<notin> set t"
    using ok(1) True unfolding segment_ok_def t_def
    by (auto simp: literal_token_match literal_ok_def literal_of_def simp del: tokens_match.simps(2))
  from literal_segment [OF x w, folded at_def i_def] True m
  show ?thesis by (auto simp: match_part_def t_def [symmetric] Let_def)
next
  case False
  note s = segment_at [OF x, folded at_def i_def]
  have e: "segment_end str at = at + length i" using segment_end_at [OF x] by (simp add: at_def i_def)
  have l: "list_all literal_ok (segment_tokens part)" using ok(1) by (simp add: segment_ok_def)
  show ?thesis
  proof (cases "segment_kind part = Affix")
    case True
    then have "affix_shape (segment_tokens part)" using ok(1) by (simp add: segment_ok_def)
    with True False s e match_affix_correct [OF l] show ?thesis by (simp add: match_part_def)
  next
    case general: False
    with False s e match_tokens_correct [OF l] show ?thesis by (simp add: match_part_def)
  qed
qed

section \<open>The loop over the segments\<close>

definition segment_order :: "Segment list \<Rightarrow> string \<Rightarrow> (cursor \<times> cursor) set" where
  "segment_order segs str = measures
     [\<lambda>(k, offset, r, retry_offset). if r = length segs then Suc (length segs) else length segs - r,
      \<lambda>(k, offset, r, retry_offset). length str - retry_offset,
      \<lambda>(k, offset, r, retry_offset). length segs - k]"

text \<open>
  Where the loop is, in segments, and the state it is in once the latest globstar has absorbed the
  whole input.
\<close>

definition at_segments :: "Segment list \<Rightarrow> string list \<Rightarrow> nat \<Rightarrow> nat \<Rightarrow> nat \<Rightarrow> nat \<Rightarrow> bool" where
  "at_segments segs is k x r y \<longleftrightarrow> seg.inv segs is k x r y \<and> k < length segs \<and> x < length is \<and> y < length is
     \<and> (r \<noteq> length segs \<longrightarrow> 0 < r \<and> is_recursive (segs ! (r - 1)))"

fun path_inv :: "Segment list \<Rightarrow> string \<Rightarrow> cursor \<Rightarrow> bool" where
  "path_inv segs str (k, offset, r, retry_offset) \<longleftrightarrow>
     offset = length str \<and> nullable (segs ! k) = segments_match segs (path_segments str)
     \<or> (\<exists>x y. at_segments segs (path_segments str) k x r y
          \<and> offset = segment_offset (path_segments str) x \<and> retry_offset = segment_offset (path_segments str) y)"

abbreviation path_turns :: "Segment list \<Rightarrow> string \<Rightarrow> cursor \<Rightarrow> bool + cursor \<Rightarrow> bool" where
  "path_turns segs str st res \<equiv> res = Inl (segments_match segs (path_segments str))
     \<or> (\<exists>st'. res = Inr st' \<and> path_inv segs str st' \<and> (st', st) \<in> segment_order segs str)"

lemma path_invI: "at_segments segs (path_segments str) k x r y
    \<Longrightarrow> path_inv segs str (k, segment_offset (path_segments str) x, r, segment_offset (path_segments str) y)"
  by auto

lemma segment_offset_mono: "x \<le> y \<Longrightarrow> y \<le> length is \<Longrightarrow> segment_offset is x \<le> segment_offset is y"
  using segment_offset_less [of x y "is"] by (cases "x = y") auto

lemma starless_plain:
  assumes "seg.inv segs is k x r y" "r \<noteq> length segs" "k < length segs" "\<not> is_recursive (segs ! k)"
  shows "\<not> is_recursive (segs ! r)"
proof (cases "r = k")
  case False
  then have "r < k" using seg.inv_le(4) [OF assms(1,2)] by simp
  then have "segs ! r \<in> set (take (k - r) (drop r segs))"
    using assms(3) by (intro in_set_conv_nth [THEN iffD2] exI [where x = 0]) auto
  with assms(1,2) show ?thesis by (auto simp: seg.inv_def)
qed (simp add: assms)

text \<open>At the last segment of the input, a mismatch is one for every segment the globstar could absorb.\<close>

lemma last_mismatch:
  assumes i: "seg.inv segs is k x r y" "k < length segs" and x: "Suc x = length is"
    and no: "\<not> segments_match (drop k segs) (drop x is)"
  shows "\<not> segments_match segs is"
proof (cases "r = length segs")
  case True
  with i no show ?thesis by (simp add: seg.inv_def)
next
  case False
  define ps where "ps = take (k - r) (drop r segs)"
  have r: "r \<le> k" using seg.inv_le(4) [OF i(1) False] .
  then have p: "drop r segs = ps @ drop k segs" unfolding ps_def
    by (metis append_take_drop_id drop_drop le_add_diff_inverse2)
  have ps: "\<forall>p\<in>set ps. \<not> is_recursive p" "x = y + length ps"
    using i(1) False by (auto simp: seg.inv_def ps_def sum_list_triv)
  have no_ext: "\<not> segments_match (drop k segs) []"
  proof
    assume "segments_match (drop k segs) []"
    then have "segments_match (drop k segs) [is ! x]"
      using segments_match_extra i(2) by simp
    moreover have "drop x is = [is ! x]" using x by (metis Cons_nth_drop_Suc drop_all lessI order_refl)
    ultimately show False using no by simp
  qed
  show ?thesis
  proof (rule seg.inv_none [OF i(1) False])
    fix w assume w: "y \<le> w" "w \<le> length is"
    show "\<not> segments_match (drop r segs) (drop w is)"
    proof
      assume "segments_match (drop r segs) (drop w is)"
      from seg.starless_match [OF this [unfolded p] ps(1)]
      have m: "length ps \<le> length is - w" "segments_match (drop k segs) (drop (w + length ps) is)"
        by (auto simp: sum_list_triv add.commute)
      then show False using w x ps(2) no no_ext by (cases "w = y") auto
    qed
  qed
qed

text \<open>Jumping to the next candidate of a segment that starts with a literal.\<close>

lemma jump_turns:
  assumes ok: "segments_ok segs" and i: "seg.inv segs (path_segments str) k x r y"
    and r: "r < length segs" "0 < r" "is_recursive (segs ! (r - 1))" "first (segs ! r) \<noteq> None"
    and from_: "\<And>w. w < length (path_segments str) \<Longrightarrow> b \<le> segment_offset (path_segments str) w \<longleftrightarrow> y \<le> w"
    and order: "\<And>at. b \<le> at \<Longrightarrow> at < length str \<Longrightarrow> ((r, at, r, at), st) \<in> segment_order segs str"
  shows "path_turns segs str st (jump segs str r b)"
proof -
  let ?is = "path_segments str"
  have seg: "segment_ok (segs ! r)" using ok r(1) by (simp add: segments_ok_def list_all_length)
  obtain c where c: "first (segs ! r) = Some c" using r(4) by auto
  have plain: "\<not> is_recursive (segs ! r)" using seg c by (auto simp: segment_ok_def)
  have d: "drop r segs = segs ! r # drop (Suc r) segs" using r(1) by (simp add: Cons_nth_drop_Suc)
  have reject: "\<not> segments_match (drop r segs) (drop w ?is)"
    if w: "w \<le> length ?is" "w < length ?is \<Longrightarrow> \<not> candidate str c [] (segment_offset ?is w)" for w
  proof (cases "w = length ?is")
    case True
    then show ?thesis using plain by (simp add: d)
  next
    case False
    then have l: "w < length ?is" using w(1) by simp
    show ?thesis
    proof
      assume "segments_match (drop r segs) (drop w ?is)"
      then have "tokens_match (segment_tokens (segs ! r)) (atoms (?is ! w))"
        using plain l by (simp add: d segments_plain hd_drop_conv_nth)
      from first_match [OF seg c this] have f: "?is ! w \<noteq> []" "(?is ! w) ! 0 = c" by auto
      with segment_head [OF l] segment_at [OF l] w(2) [OF l] show False by (simp add: candidate_def)
    qed
  qed
  show ?thesis
  proof (cases "find_segment str b c []")
    case None
    have "\<not> segments_match segs ?is"
    proof (rule seg.inv_none [OF i])
      show "r \<noteq> length segs" using r(1) by simp
      fix w assume "y \<le> w" "w \<le> length ?is"
      then show "\<not> segments_match (drop r segs) (drop w ?is)"
        using None from_ [of w] by (intro reject) (auto simp: find_segment_None)
    qed
    with None c show ?thesis by (simp add: jump_def)
  next
    case (Some at)
    note f = find_segment_Some [OF this]
    then have "\<exists>z<length ?is. segment_offset ?is z = at"
      by (intro segment_starts) (auto simp: candidate_def)
    then obtain z where z: "z < length ?is" "segment_offset ?is z = at" by auto
    then have y: "y \<le> z" using f(1) from_ by blast
    have "seg.inv segs ?is r z r z"
    proof (rule seg.inv_skip [OF i _ y])
      fix w assume w: "y \<le> w" "w < z"
      then have "segment_offset ?is w < at" "b \<le> segment_offset ?is w"
        using segment_offset_less [of w z ?is] z from_ [of w] by auto
      with f(3) z w show "\<not> segments_match (drop r segs) (drop w ?is)" by (intro reject) auto
    qed (use r z in auto)
    with z r have "at_segments segs ?is r z r z" by (simp add: at_segments_def)
    from path_invI [OF this] z(2) have "path_inv segs str (r, at, r, at)" by simp
    moreover have "((r, at, r, at), st) \<in> segment_order segs str"
      using f(1,2) by (intro order) (auto simp: candidate_def)
    ultimately show ?thesis using Some c by (simp add: jump_def)
  qed
qed

lemma segment_offset_lt_iff:
  assumes "w < length is" "y \<le> length is"
  shows "segment_offset is y \<le> segment_offset is w \<longleftrightarrow> y \<le> w"
  using segment_offset_less [of w y "is"] segment_offset_mono [of y w "is"] assms by fastforce

text \<open>The segment after the globstar has no literal head and the globstar has absorbed all of the input.\<close>

lemma retry_at_end:
  assumes ok: "segments_ok segs" and a: "at_segments segs is k x r y" and r: "r \<noteq> length segs"
    and k: "\<not> is_recursive (segs ! k)" and no: "\<not> segments_match (drop k segs) (drop x is)"
    and y: "Suc y = length is"
  shows "nullable (segs ! r) = segments_match segs is"
proof -
  have i: "seg.inv segs is k x r y" and r1: "0 < r" "is_recursive (segs ! (r - 1))" and k1: "k < length segs"
    and x: "x < length is"
    using a r by (auto simp: at_segments_def)
  have rk: "r < length segs" using seg.inv_le(4) [OF i r] k1 by simp
  have plain: "\<not> is_recursive (segs ! r)" using starless_plain [OF i r k1 k] .
  have ne: "segment_tokens (segs ! r) \<noteq> []"
    using ok r1 rk plain unfolding segments_ok_def by (metis Suc_pred')
  have seg: "segment_ok (segs ! r)" using ok rk by (simp add: segments_ok_def list_all_length)
  have yx: "x = y" using seg.inv_le(5) [OF i r] x y by simp
  then have goal: "\<not> segments_match segs is" using last_mismatch [OF i k1 _ no] y by simp
  have d: "drop r segs = segs ! r # drop (Suc r) segs" "drop y is = [is ! y]"
    using rk y by (auto simp: Cons_nth_drop_Suc) (metis Cons_nth_drop_Suc drop_all lessI order_refl)
  have "\<not> nullable (segs ! r)"
  proof
    assume "nullable (segs ! r)"
    then have "segments_match (drop r segs) [[]]" using ok rk by (simp add: segments_ok_def)
    then have "tokens_match (segment_tokens (segs ! r)) []" "segments_match (drop (Suc r) segs) []"
      using plain by (simp_all add: d(1))
    then have "segments_match (drop r segs) (drop y is)"
      using plain seg ne by (simp add: d segment_ok_def tokens_match_Nil tokens_match_stars)
    with i r no show False by (simp add: seg.inv_def)
  qed
  with goal show ?thesis by simp
qed

lemma segment_retry_turns:
  assumes ok: "segments_ok segs" and a: "at_segments segs (path_segments str) k x r y"
    and k: "\<not> is_recursive (segs ! k)"
    and no: "\<not> segments_match (drop k segs) (drop x (path_segments str))"
    and offset: "segment_offset (path_segments str) x \<noteq> length str"
  shows "path_turns segs str (k, segment_offset (path_segments str) x, r, segment_offset (path_segments str) y)
    (segment_retry segs str r (segment_offset (path_segments str) y))"
proof (cases "r = length segs")
  case True
  have i: "seg.inv segs (path_segments str) k x r y" using a by (simp add: at_segments_def)
  from seg.inv_fail [OF i no] True show ?thesis by (simp add: segment_retry_def)
next
  case r: False
  let ?is = "path_segments str"
  have i: "seg.inv segs ?is k x r y" and r1: "0 < r" "is_recursive (segs ! (r - 1))" and k1: "k < length segs"
    and x: "x < length ?is" and y: "y < length ?is"
    using a r by (auto simp: at_segments_def)
  have rk: "r < length segs" using seg.inv_le(4) [OF i r] k1 by simp
  have next_: "seg.inv segs ?is r (Suc y) r (Suc y)" using seg.inv_next [OF i no r] y by simp
  show ?thesis
  proof (cases "first (segs ! r) = None")
    case first: True
    show ?thesis
    proof (cases "Suc y = length ?is")
      case True
      then have "x = y" using seg.inv_le(5) [OF i r] x by simp
      then have "segment_offset ?is y < length str" using offset segment_at [OF y] by simp
      moreover have "nullable (segs ! r) = segments_match segs ?is"
        using retry_at_end [OF ok a r k no True] .
      ultimately show ?thesis using True first r segment_at [OF y] segment_end_at [OF y]
        by (simp add: segment_retry_def Let_def segment_order_def)
    next
      case False
      then have y1: "Suc y < length ?is" using y by simp
      have at: "segment_end str (segment_offset ?is y) \<noteq> length str"
        "Suc (segment_end str (segment_offset ?is y)) = segment_offset ?is (Suc y)"
        using segment_at [OF y] False segment_end_at [OF y] segment_offset_Suc [OF y] by auto
      have "at_segments segs ?is r (Suc y) r (Suc y)"
        using next_ rk y1 r1 by (simp add: at_segments_def)
      from path_invI [OF this] have "path_inv segs str (r, segment_offset ?is (Suc y), r, segment_offset ?is (Suc y))" .
      moreover have "segment_offset ?is y < segment_offset ?is (Suc y)" "segment_offset ?is (Suc y) \<le> length str"
        using segment_offset_less [of y "Suc y" ?is] y1 segment_at [OF y1] by auto
      ultimately show ?thesis using at first r
        by (simp add: segment_retry_def Let_def segment_order_def) linarith
    qed
  next
    case first: False
    have "path_turns segs str (k, segment_offset ?is x, r, segment_offset ?is y)
        (jump segs str r (Suc (segment_offset ?is y)))"
    proof (rule jump_turns [OF ok next_ rk r1 first])
      fix w assume w: "w < length ?is"
      show "Suc (segment_offset ?is y) \<le> segment_offset ?is w \<longleftrightarrow> Suc y \<le> w"
        using segment_offset_lt_iff [of y ?is w] w y by (auto simp: Suc_le_eq not_le [symmetric])
    next
      fix at assume "Suc (segment_offset ?is y) \<le> at" "at < length str"
      then show "((r, at, r, at), k, segment_offset ?is x, r, segment_offset ?is y) \<in> segment_order segs str"
        using r by (simp add: segment_order_def) linarith
    qed
    moreover have "segment_retry segs str r (segment_offset ?is y) = jump segs str r (Suc (segment_offset ?is y))"
      using first r by (auto simp: segment_retry_def)
    ultimately show ?thesis by simp
  qed
qed

lemma segment_step_turns:
  assumes ok: "segments_ok segs" and inv: "path_inv segs str st"
  shows "\<exists>res. segment_step segs str st = Some res \<and> path_turns segs str st res"
proof -
  let ?is = "path_segments str"
  obtain k offset r ro where st: "st = (k, offset, r, ro)" by (cases st) auto
  from inv consider
      (end_) "offset = length str" "nullable (segs ! k) = segments_match segs ?is"
    | (at) x y where "at_segments segs ?is k x r y" "offset = segment_offset ?is x" "ro = segment_offset ?is y"
    by (auto simp: st)
  then show ?thesis
  proof cases
    case end_
    then show ?thesis by (simp add: st segment_step.simps)
  next
    case at
    then have i: "seg.inv segs ?is k x r y" and k: "k < length segs" and x: "x < length ?is" and y: "y < length ?is"
      by (auto simp: at_segments_def)
    define part where "part = segs ! k"
    have seg: "segment_ok part" using ok k by (simp add: segments_ok_def list_all_length part_def)
    have dk: "drop k segs = part # drop (Suc k) segs" "drop x ?is = ?is ! x # drop (Suc x) ?is"
      using k x by (auto simp: Cons_nth_drop_Suc part_def)
    note s = segment_at [OF x]
    show ?thesis
    proof (cases "offset = length str")
      case True
      then have last: "Suc x = length ?is" "?is ! x = []"
        using s at(2) by (auto split: if_splits)
      then have "nullable part = segments_match (drop k segs) (drop x ?is)"
        using ok k dk by (simp add: segments_ok_def part_def)
      also have "\<dots> = segments_match segs ?is"
        using seg.inv_matched [OF i] last_mismatch [OF i k last(1)] by blast
      finally show ?thesis using True by (simp add: st segment_step.simps part_def)
    next
      case offset: False
      show ?thesis
      proof (cases "is_recursive part")
        case star: True
        show ?thesis
        proof (cases "Suc k = length segs")
          case True
          have "segments_match segs ?is"
            using seg.inv_star [OF i k] star x True
            by (auto simp: part_def intro!: exI [where x = "length ?is"])
          then show ?thesis using True star offset by (simp add: st segment_step.simps part_def)
        next
          case False
          then have k1: "Suc k < length segs" using k by simp
          note re = seg.inv_restart [OF i star [unfolded part_def] k1]
          have order: "((Suc k, a, Suc k, a), st) \<in> segment_order segs str" for a
            using seg.inv_le(4) [OF i] k1 by (auto simp: st segment_order_def)
          show ?thesis
          proof (cases "first (segs ! Suc k) = None")
            case True
            have "at_segments segs ?is (Suc k) x (Suc k) x"
              using re k1 x star by (simp add: at_segments_def part_def)
            from path_invI [OF this] order True False star offset at(2) show ?thesis
              by (simp add: st segment_step.simps part_def)
          next
            case first: False
            have "path_turns segs str st (jump segs str (Suc k) offset)"
              by (rule jump_turns [OF ok re k1 _ _ first])
                (use star segment_offset_lt_iff x order at(2) in \<open>auto simp: part_def\<close>)
            moreover have "segment_step segs str st = Some (jump segs str (Suc k) offset)"
              using False star offset first by (auto simp: st segment_step.simps part_def)
            ultimately show ?thesis by blast
          qed
        qed
      next
        case plain: False
        have m: "segments_match (drop k segs) (drop x ?is) \<longleftrightarrow>
            tokens_match (segment_tokens part) (atoms (?is ! x)) \<and> segments_match (drop (Suc k) segs) (drop (Suc x) ?is)"
          using plain by (simp add: dk)
        have retry: "path_turns segs str st (segment_retry segs str r ro)"
          if "\<not> segments_match (drop k segs) (drop x ?is)"
          using segment_retry_turns [OF ok at(1) plain [unfolded part_def] that] offset at(2,3) by (simp add: st)
        show ?thesis
        proof (cases "first part \<noteq> None \<and> first part \<noteq> Some (str ! offset)")
          case True
          then obtain c where c: "first part = Some c" "c \<noteq> str ! offset" by auto
          have "\<not> tokens_match (segment_tokens part) (atoms (?is ! x))"
          proof
            assume "tokens_match (segment_tokens part) (atoms (?is ! x))"
            from first_match [OF seg c(1) this] have "?is ! x \<noteq> []" "?is ! x ! 0 = c" by auto
            with segment_head [OF x] at(2) c(2) show False by simp
          qed
          with m retry True plain offset show ?thesis by (simp add: st segment_step.simps part_def)
        next
          case f: False
          obtain e where e: "match_part part str offset = Some (tokens_match (segment_tokens part) (atoms (?is ! x)), e)"
            "tokens_match (segment_tokens part) (atoms (?is ! x)) \<longrightarrow> e = offset + length (?is ! x)"
            using match_part_correct [OF seg plain x] at(2) by auto
          let ?m = "tokens_match (segment_tokens part) (atoms (?is ! x))"
          have step: "segment_step segs str st = Some
              (if ?m \<and> e = length str \<and> optional_rest part then Inl True
               else if ?m \<and> e \<noteq> length str \<and> Suc k \<noteq> length segs then Inr (Suc k, Suc e, r, ro)
               else segment_retry segs str r ro)"
            using e(1) f plain offset by (auto simp: st segment_step.simps part_def Let_def)
          show ?thesis
          proof (cases "?m \<and> e = length str")
            case True
            then have "Suc x = length ?is" using s e(2) at(2) by (auto split: if_splits)
            moreover have "optional_rest part = segments_match (drop (Suc k) segs) []"
              using ok k by (simp add: segments_ok_def part_def)
            ultimately have "segments_match (drop k segs) (drop x ?is) = optional_rest part"
              using m True by simp
            with step True retry seg.inv_matched [OF i] show ?thesis by simp
          next
            case nend: False
            show ?thesis
            proof (cases "?m \<and> Suc k \<noteq> length segs")
              case True
              then have x1: "Suc x < length ?is" "Suc e = segment_offset ?is (Suc x)"
                using s nend e(2) x at(2) by (auto simp: segment_offset_Suc split: if_splits)
              have "seg.inv segs ?is (Suc k) (x + Suc 0) r y"
                by (rule seg.inv_advance [OF i k part_def [symmetric] plain])
                  (use x m True dk in auto)
              then have "at_segments segs ?is (Suc k) (Suc x) r y"
                using at(1) True k x1 by (simp add: at_segments_def)
              from path_invI [OF this] x1(2) at(3) have "path_inv segs str (Suc k, Suc e, r, ro)" by simp
              then show ?thesis using step True nend k by (auto simp: st segment_order_def)
            next
              case False
              have "\<not> segments_match (drop k segs) (drop x ?is)"
              proof
                assume mm: "segments_match (drop k segs) (drop x ?is)"
                with m False have "?m" "Suc k = length segs" by auto
                with mm m have "Suc x = length ?is" using x by simp
                with \<open>?m\<close> nend e(2) s at(2) show False by simp
              qed
              with step retry False nend show ?thesis by auto
            qed
          qed
        qed
      qed
    qed
  qed
qed

lemma execute_correct:
  assumes "segments_ok (arm_segments arm)"
  shows "execute arm str = Some (segments_match (arm_segments arm) (path_segments str))"
  unfolding execute_def
proof (rule forever_rule [where I = "path_inv (arm_segments arm) str"])
  let ?segs = "arm_segments arm"
  show "wf (segment_order ?segs str)" by (simp add: segment_order_def)
  have "at_segments ?segs (path_segments str) 0 0 (length ?segs) 0"
    using assms seg.inv_start [of ?segs "path_segments str"] by (simp add: at_segments_def segments_ok_def)
  from path_invI [OF this] show "path_inv ?segs str (0, 0, length ?segs, 0)" by simp
  fix st assume "path_inv ?segs str st"
  from segment_step_turns [OF assms this] show "segment_step ?segs str st
      = Some (Inl (segments_match ?segs (path_segments str)))
    \<or> (\<exists>st'. segment_step ?segs str st = Some (Inr st') \<and> path_inv ?segs str st'
      \<and> (st', st) \<in> segment_order ?segs str)" by blast
qed

end
