(* ===== verification/Glob_Arms.thy ===== *)
theory Glob_Arms
  imports Glob_Segments
begin

text \<open>
  The plans of a glob pattern's arms and the modes of a pattern: every shortcut that
  \<^verbatim>\<open>match_arms\<close> takes gives what the segments of the arm match.
\<close>

section \<open>The first and the last segment of a path\<close>

lemma path_segments_hd: "hd (path_segments str) = takeWhile (\<lambda>c. c \<noteq> slash) str"
  by (induction str) auto

lemma path_segments_last: "\<exists>front. str = front @ last (path_segments str)
    \<and> (if slash \<in> set str then front \<noteq> [] \<and> last front = slash else front = [])"
proof (induction str rule: path_induct)
  case (single p)
  then show ?case by (simp add: path_segments_single)
next
  case (more p s)
  then obtain front where "s = front @ last (path_segments s)"
    "if slash \<in> set s then front \<noteq> [] \<and> last front = slash else front = []" by auto
  with more(1) show ?case
    by (intro exI [where x = "p @ slash # front"]) (auto simp: path_segments_front split: if_splits)
qed

lemma last_segment_slash: "slash \<notin> set (last (path_segments str))"
  by (rule path_segments_slash [OF last_in_set]) simp

lemma path_segments_one: "length (path_segments str) = 1 \<longleftrightarrow> slash \<notin> set str"
  by (induction str rule: path_induct) (auto simp: path_segments_front path_segments_single)

lemma path_segments_last_one: "slash \<notin> set str \<Longrightarrow> last (path_segments str) = str"
  by (simp add: path_segments_single)

lemma basename_last: "basename str = last (path_segments str)"
proof (cases "slash \<in> set str")
  case False
  then have "find_char (\<lambda>c. c = slash) (rev str) = None" by (auto simp: find_char_None)
  with False show ?thesis by (simp add: basename_def find_last_char_def path_segments_single)
next
  case True
  with path_segments_last [of str] obtain front where f: "str = front @ last (path_segments str)"
    "front \<noteq> []" "last front = slash" by auto
  let ?l = "last (path_segments str)"
  obtain g where g: "front = g @ [slash]" using f(2,3) by (metis append_butlast_last_id)
  have "rev str = rev ?l @ slash # rev g" using f(1) g by (metis append.assoc append_Cons append_Nil rev_append rev.simps(2) rev_rev_ident)
  moreover have "find_char (\<lambda>c. c = slash) (rev ?l) = None"
    using last_segment_slash [of str] by (auto simp: find_char_None)
  ultimately have "find_char (\<lambda>c. c = slash) (rev str) = Some (length ?l)"
    by (simp add: find_char_append)
  moreover have "length str = length g + 1 + length ?l" using arg_cong [OF f(1), of length] by (simp add: g)
  moreover have "drop (length front) str = ?l" using f(1) by (metis append_eq_conv_conj)
  ultimately show ?thesis by (simp add: basename_def find_last_char_def g)
qed

lemma ends_last:
  assumes "slash \<notin> set t"
  shows "ends_with str t \<longleftrightarrow> ends_with (last (path_segments str)) t"
proof -
  define l where "l = last (path_segments str)"
  obtain front where f: "str = front @ l" "front = [] \<or> last front = slash"
    using path_segments_last [of str] by (auto simp: l_def split: if_splits)
  have fwd: "ends_with l t" if u: "u @ t = front @ l" for u
  proof (cases "length t \<le> length l")
    case True
    with u show ?thesis by (auto simp: append_eq_append_conv2 ends_with_iff)
  next
    case False
    with u obtain v where v: "v \<noteq> []" "t = v @ l" "front = u @ v"
      by (auto simp: append_eq_append_conv2)
    with f(2) have "slash \<in> set v" by (metis append_is_Nil_conv last_append last_in_set)
    with assms v show ?thesis by simp
  qed
  have "ends_with str t \<longleftrightarrow> ends_with l t" unfolding f(1)
  proof
    assume "ends_with (front @ l) t"
    then obtain u where "front @ l = u @ t" by (auto simp: ends_with_iff)
    then show "ends_with l t" by (intro fwd [of u]) simp
  next
    assume "ends_with l t"
    then obtain u where "l = u @ t" by (auto simp: ends_with_iff)
    then show "ends_with (front @ l) t" by (auto simp: ends_with_iff)
  qed
  then show ?thesis by (simp add: l_def)
qed

lemma is_tree_hd:
  assumes "slash \<notin> set t"
  shows "is_tree t str \<longleftrightarrow> hd (path_segments str) = t"
proof -
  have "hd (path_segments str) = path_segments str ! 0" by (simp add: hd_conv_nth)
  then show ?thesis using literal_segment [of 0 str t] assms
    by (auto simp: is_tree_def starts_with_def)
qed

lemma candidate_segment:
  assumes "slash \<notin> set t" "t \<noteq> []"
  shows "(\<exists>a. candidate str (hd t) t a) \<longleftrightarrow> t \<in> set (path_segments str)"
proof
  assume "\<exists>a. candidate str (hd t) t a"
  then obtain a where c: "candidate str (hd t) t a" by auto
  then have "\<exists>x<length (path_segments str). segment_offset (path_segments str) x = a"
    by (intro segment_starts) (auto simp: candidate_def)
  then obtain x where x: "x < length (path_segments str)" "segment_offset (path_segments str) x = a" by auto
  then have "path_segments str ! x = t"
    using literal_segment [OF x(1) assms(1)] c assms(2) by (simp add: candidate_def)
  with x(1) show "t \<in> set (path_segments str)" using nth_mem by blast
next
  assume "t \<in> set (path_segments str)"
  then obtain x where x: "x < length (path_segments str)" "path_segments str ! x = t"
    by (auto simp: in_set_conv_nth)
  then have "candidate str (hd t) t (segment_offset (path_segments str) x)"
    using literal_segment [OF x(1) assms(1)] segment_at [OF x(1)] segment_head [OF x(1)] assms(2)
    by (simp add: candidate_def hd_conv_nth)
  then show "\<exists>a. candidate str (hd t) t a" by blast
qed

section \<open>What the arms with a plan match\<close>

lemma recursive_all: "is_recursive seg \<Longrightarrow> segments_match [seg] is"
  by (auto simp: segments_star intro!: exI [where x = "length is"])

lemma match_lone: "\<not> is_recursive seg \<Longrightarrow> segments_match [seg] (path_segments str) \<longleftrightarrow>
    slash \<notin> set str \<and> tokens_match (segment_tokens seg) (atoms str)"
  using path_segments_one [of str] path_segments_single [of str]
  by (cases "path_segments str") auto

lemma drop_last_only: "is \<noteq> [] \<Longrightarrow> y \<le> length is \<Longrightarrow> drop y is = [i] \<longleftrightarrow> Suc y = length is \<and> i = last is"
  by (induction "is" arbitrary: y) (auto simp: drop_Cons' split: if_splits)

lemma match_base:
  assumes "is_recursive star" "\<not> is_recursive seg" "is \<noteq> []"
  shows "segments_match [star, seg] is \<longleftrightarrow> tokens_match (segment_tokens seg) (atoms (last is))"
proof -
  have "segments_match [seg] js \<longleftrightarrow> (\<exists>i. js = [i] \<and> tokens_match (segment_tokens seg) (atoms i))" for js
    using assms(2) by (cases js) auto
  then have "segments_match [star, seg] is \<longleftrightarrow>
      (\<exists>y\<le>length is. \<exists>i. drop y is = [i] \<and> tokens_match (segment_tokens seg) (atoms i))"
    by (simp add: segments_star [OF assms(1)])
  also have "\<dots> \<longleftrightarrow> tokens_match (segment_tokens seg) (atoms (last is))"
    using assms(3) by (auto simp: drop_last_only intro!: exI [where x = "length is - 1"])
  finally show ?thesis .
qed

lemma match_tree:
  assumes "\<not> is_recursive seg" "is_recursive star" "is \<noteq> []"
  shows "segments_match [seg, star] is \<longleftrightarrow> tokens_match (segment_tokens seg) (atoms (hd is))"
  using assms recursive_all [OF assms(2)] by (simp add: segments_plain)

lemma match_directory:
  assumes "is_recursive s1" "\<not> is_recursive seg" "is_recursive s2"
  shows "segments_match [s1, seg, s2] is \<longleftrightarrow> (\<exists>i\<in>set is. tokens_match (segment_tokens seg) (atoms i))"
proof -
  have "segments_match [s1, seg, s2] is \<longleftrightarrow>
      (\<exists>y\<le>length is. drop y is \<noteq> [] \<and> tokens_match (segment_tokens seg) (atoms (hd (drop y is))))"
    using recursive_all [OF assms(3)] by (simp add: segments_star [OF assms(1)] segments_plain [OF assms(2)])
  also have "\<dots> \<longleftrightarrow> (\<exists>y<length is. tokens_match (segment_tokens seg) (atoms (is ! y)))"
    by (metis drop_eq_Nil hd_drop_conv_nth less_imp_le not_le)
  finally show ?thesis by (metis in_set_conv_nth)
qed

lemma match_last:
  assumes "segments_match (segs @ [seg]) is" "\<not> is_recursive seg"
  shows "is \<noteq> [] \<and> tokens_match (segment_tokens seg) (atoms (last is))"
  using assms(1)
proof (induction segs "is" rule: segments_match.induct)
  case (1 "is")
  with assms(2) show ?case by (cases "is") auto
next
  case (2 s segs)
  then show ?case using assms(2) by (simp add: segments_match_Nil)
next
  case (3 s segs i "is")
  then show ?case by (cases "is_recursive s") (auto split: if_splits)
qed

section \<open>The literal an arm ends with\<close>

definition final_text :: "Segment list \<Rightarrow> string" where
  "final_text segs =
     (let ts = segment_tokens (last segs)
      in if is_recursive (last segs) \<or> ts = [] then [] else literal_of (last ts))"

lemma no_literal_matches [simp]: "packed_matches big no_literal str"
  by (simp add: packed_matches_def no_literal_def ends_with_def)

lemma pack_literal_text [simp]: "packed_text (pack_literal big t) = t" "packed_text no_literal = []"
  by (simp_all add: pack_literal_def no_literal_def Let_def)

lemma arm_of_simps [simp]:
  "arm_segments (arm_of big segs a) = segs" "absorbs_separator (arm_of big segs a) = a"
  "arm_literal (arm_of big segs a) = (let ts = segment_tokens (last segs) in
     if \<not> is_recursive (last segs) \<and> ts \<noteq> []
     then case last ts of Literal t \<Rightarrow> pack_literal big t | _ \<Rightarrow> no_literal else no_literal)"
  by (simp_all add: arm_of_def Let_def split: prod.split)

lemma arm_literal_final:
  "packed_text (arm_literal (arm_of big segs a)) = final_text segs"
  "packed_matches big (arm_literal (arm_of big segs a)) str \<longleftrightarrow> ends_with str (final_text segs)"
  by (auto simp: final_text_def Let_def literal_of_def packed_matches_correct ends_with_def split: Token.split)

lemma segments_ok_last:
  assumes "segments_ok segs"
  shows "segment_ok (last segs)"
  using assms by (simp add: segments_ok_def list_all_iff)

lemma final_text_ok:
  assumes "segments_ok segs"
  shows "slash \<notin> set (final_text segs)"
  using segments_ok_last [OF assms]
  by (auto simp: final_text_def Let_def segment_ok_def literal_of_def literal_ok_def list_all_iff
      split: Token.splits dest!: last_in_set)

lemma tokens_match_final:
  assumes "tokens_match (ts @ [Literal t]) (atoms i)" "literal_ok (Literal t)"
  shows "ends_with i t"
proof -
  have "\<exists>z\<le>length cs. tokens_match [Literal t] (drop z cs)" if "tokens_match (ts @ [Literal t]) cs" for cs
    using that
  proof (induction "ts @ [Literal t]" cs arbitrary: ts rule: tokens_match.induct)
    case (2 u us cs)
    show ?case
    proof (cases ts)
      case (Cons v vs)
      with 2 obtain z where "z \<le> length (drop (length (atoms u)) cs)"
        "tokens_match [Literal t] (drop z (drop (length (atoms u)) cs))" by auto
      then show ?thesis by (intro exI [where x = "min (length cs) (z + length (atoms u))"]) (auto simp: min_def)
    qed (use 2 in \<open>auto intro: exI [where x = 0]\<close>)
  next
    case (3 us)
    then show ?case by (cases ts) auto
  next
    case (4 us c cs)
    show ?case
    proof (cases ts)
      case (Cons v vs)
      with 4 consider z where "z \<le> length (c # cs)" "tokens_match [Literal t] (drop z (c # cs))"
        | z where "z \<le> length cs" "tokens_match [Literal t] (drop z cs)" by fastforce
      then show ?thesis by cases (blast, metis Suc_le_mono drop_Suc_Cons length_Cons)
    qed (use 4 in auto)
  next
    case (5 us cs)
    show ?case
    proof (cases ts)
      case (Cons v vs)
      with 5 obtain z where "z \<le> length (tl cs)" "tokens_match [Literal t] (drop z (tl cs))" "cs \<noteq> []" by auto
      then show ?thesis by (intro exI [where x = "Suc z"]) (cases cs, auto)
    qed (use 5 in auto)
  next
    case (6 cls us cs)
    show ?case
    proof (cases ts)
      case (Cons v vs)
      with 6 obtain z where "z \<le> length (tl cs)" "tokens_match [Literal t] (drop z (tl cs))" "cs \<noteq> []" by auto
      then show ?thesis by (intro exI [where x = "Suc z"]) (cases cs, auto)
    qed (use 6 in auto)
  qed simp
  from this [OF assms(1)] final_literal [of t 0 i] assms(2) show ?thesis
    by (auto simp: literal_ok_def)
qed

lemma match_final_text:
  assumes "segment_ok seg" "\<not> is_recursive seg" "tokens_match (segment_tokens seg) (atoms i)"
  shows "ends_with i (final_text (segs @ [seg]))"
proof (cases "segment_tokens seg = []")
  case False
  then obtain ts t where t: "segment_tokens seg = ts @ [t]" by (metis append_butlast_last_id)
  with assms have "literal_ok t" by (simp add: segment_ok_def)
  with assms t tokens_match_final show ?thesis
    by (cases t) (auto simp: final_text_def Let_def literal_of_def ends_with_def)
qed (simp add: final_text_def ends_with_def)

text \<open>The text an arm ends with is one that every path it matches ends with.\<close>

lemma segments_match_final:
  assumes ok: "segments_ok segs" and m: "segments_match segs (path_segments str)"
  shows "ends_with str (final_text segs)"
proof (cases "is_recursive (last segs)")
  case True
  then show ?thesis by (simp add: final_text_def ends_with_def)
next
  case False
  have segs: "segs = butlast segs @ [last segs]" using ok by (simp add: segments_ok_def)
  with m have "segments_match (butlast segs @ [last segs]) (path_segments str)" by simp
  from match_last [OF this False] have "tokens_match (segment_tokens (last segs)) (atoms (last (path_segments str)))"
    by simp
  from match_final_text [OF segments_ok_last [OF ok] False this, of "butlast segs"] segs
  have "ends_with (last (path_segments str)) (final_text segs)" by simp
  then show ?thesis using ends_last [OF final_text_ok [OF ok]] by blast
qed

section \<open>The plans\<close>

lemma literal_kind:
  assumes "segment_ok seg" "segment_kind seg = LiteralSegment"
  shows "tokens_match (segment_tokens seg) (atoms i) \<longleftrightarrow>
    i = (if segment_tokens seg = [] then [] else literal_of (hd (segment_tokens seg)))"
    "slash \<notin> set (if segment_tokens seg = [] then [] else literal_of (hd (segment_tokens seg)))"
  using assms unfolding segment_ok_def
  by (auto simp: literal_token_match literal_ok_def literal_of_def simp del: tokens_match.simps(2))

text \<open>A segment with one star that starts with it: only its literal end is compared.\<close>

lemma star_affix:
  assumes "segment_ok seg" "segment_kind seg = Affix" "hd (segment_tokens seg) = Star"
  shows "tokens_match (segment_tokens seg) (atoms i) \<longleftrightarrow> ends_with i (final_text (segs @ [seg]))"
proof -
  have "affix_shape (segment_tokens seg)" using assms by (simp add: segment_ok_def)
  then obtain suf where s: "segment_tokens seg = Star # suf" "suf = [] \<or> (\<exists>t. suf = [Literal t])"
    using assms(3) by (auto simp: affix_shape_def)
  have "tokens_match [Star] cs" for cs by (rule tokens_match_stars) simp_all
  then show ?thesis using s assms
    by (auto simp: final_text_def Let_def literal_of_def segment_ok_def literal_ok_def ends_affix ends_with_def)
qed

lemma head_affix:
  assumes ok: "segment_ok seg" and k: "segment_kind seg = Affix" "hd (segment_tokens seg) \<noteq> Star"
  shows "tokens_match (segment_tokens seg) (atoms i) \<longleftrightarrow>
    length i \<ge> length (literal_of (hd (segment_tokens seg))) + length (final_text (segs @ [seg]))
    \<and> starts_with i (literal_of (hd (segment_tokens seg))) \<and> ends_with i (final_text (segs @ [seg]))"
proof -
  have a: "affix_shape (segment_tokens seg)" "list_all literal_ok (segment_tokens seg)"
    using ok k by (simp_all add: segment_ok_def)
  then have "literal_of (last (segment_tokens seg)) = final_text (segs @ [seg])"
    using k by (auto simp: final_text_def Let_def affix_shape_def)
  then show ?thesis unfolding match_affix_correct [OF a(2,1), symmetric]
    by (simp add: match_affix_def Let_def)
qed

text \<open>The last segment of the arm, against the last segment of the path.\<close>

lemma match_final_correct:
  assumes ok: "segments_ok segs" and l: "\<not> is_recursive (last segs)"
    and p: "plan arm = PlanAffix \<longleftrightarrow> segment_kind (last segs) = Affix"
    and h: "plan arm = PlanAffix \<Longrightarrow> arm_head arm = literal_of (hd (segment_tokens (last segs)))
      \<and> hd (segment_tokens (last segs)) \<noteq> Star"
    and a: "arm_segments arm = segs" "arm_literal arm = arm_literal (arm_of big segs b)"
  shows "match_final big arm str = Some ((arm_basename arm \<or> slash \<notin> set str)
    \<and> tokens_match (segment_tokens (last segs)) (atoms (last (path_segments str))))"
proof -
  let ?l = "last segs" and ?f = "final_text segs"
  define name where "name = (if arm_basename arm then basename str else str)"
  have segs: "segs = butlast segs @ [?l]" using ok by (simp add: segments_ok_def)
  have seg: "segment_ok ?l" by (rule segments_ok_last [OF ok])
  have n: "name = last (path_segments str)" if "arm_basename arm \<or> slash \<notin> set str"
    using that by (auto simp: name_def basename_last path_segments_last_one)
  have f: "ends_with str ?f \<longleftrightarrow> ends_with (last (path_segments str)) ?f"
    by (rule ends_last [OF final_text_ok [OF ok]])
  have m: "tokens_match (segment_tokens ?l) (atoms i) \<Longrightarrow> ends_with i ?f" for i
    using match_final_text [OF seg l, of i "butlast segs"] segs by simp
  have lit: "packed_matches big (arm_literal arm) str \<longleftrightarrow> ends_with str ?f" "packed_text (arm_literal arm) = ?f"
    unfolding a(2) by (rule arm_literal_final)+
  show ?thesis
  proof (cases "ends_with str ?f \<and> (arm_basename arm \<or> slash \<notin> set str)")
    case False
    then show ?thesis using m f n by (auto simp: match_final_def lit name_def [symmetric] Let_def)
  next
    case True
    then have na: "name = last (path_segments str)" "ends_with name ?f" using n f by auto
    have e: "match_final big arm str =
        (if plan arm = PlanAffix then Some (length name \<ge> length (arm_head arm) + length ?f \<and> starts_with name (arm_head arm))
         else if segment_kind ?l = LiteralSegment then Some (length name = length ?f)
         else match_tokens ?l name)"
      using True by (auto simp: match_final_def lit name_def a(1) Let_def)
    show ?thesis
    proof (cases "plan arm = PlanAffix")
      case affix: True
      with head_affix [OF seg, of name "butlast segs"] p h segs na True show ?thesis by (simp add: e)
    next
      case no: False
      show ?thesis
      proof (cases "segment_kind ?l = LiteralSegment")
        case lit: True
        have "?f = (if segment_tokens ?l = [] then [] else literal_of (hd (segment_tokens ?l)))"
          using seg lit by (auto simp: segment_ok_def final_text_def Let_def)
        with literal_kind(1) [OF seg lit, of name] na True no lit show ?thesis
          by (auto simp: e ends_with_def)
      next
        case gen: False
        have "match_tokens ?l name = Some (tokens_match (segment_tokens ?l) (atoms name))"
          using seg by (intro match_tokens_correct) (simp add: segment_ok_def)
        with na True no gen show ?thesis by (simp add: e)
      qed
    qed
  qed
qed

lemma hit_prefix_tree:
  assumes ok: "segments_ok [s1, s2]" and k: "segment_kind s1 = LiteralSegment" "is_recursive s2"
  shows "arm_hit big (arm_of big [s1, s2] a) str = Some (segments_match [s1, s2] (path_segments str))"
proof -
  have "segment_ok s1" using ok by (simp add: segments_ok_def)
  note l = literal_kind [OF this k(1)]
  have "\<not> is_recursive s1" using k(1) by simp
  from match_tree [OF this k(2), of "path_segments str"]
  have "segments_match [s1, s2] (path_segments str) \<longleftrightarrow>
      is_tree (if segment_tokens s1 = [] then [] else literal_of (hd (segment_tokens s1))) str"
    using l(1) is_tree_hd [OF l(2)] by simp
  then show ?thesis using k by (simp add: arm_hit_def arm_of_def Let_def)
qed

lemma hit_directory_tree:
  assumes ok: "segments_ok [s1, s2, s3]"
    and k: "is_recursive s1" "segment_kind s2 = LiteralSegment" "is_recursive s3"
  shows "arm_hit big (arm_of big [s1, s2, s3] a) str = Some (segments_match [s1, s2, s3] (path_segments str))"
proof -
  have s: "segment_ok s2" using ok by (simp add: segments_ok_def)
  have "segment_tokens ([s1, s2, s3] ! Suc 0) \<noteq> []"
    using ok k unfolding segments_ok_def by (metis SegmentKind.distinct(1) length_Cons nth_Cons_0
        nth_Cons_Suc Suc_less_eq zero_less_Suc)
  then obtain t where t: "segment_tokens s2 = [Literal t]" "t \<noteq> []" "slash \<notin> set t" "well_formed False t"
    using s k(2) by (auto simp: segment_ok_def literal_ok_def)
  have "segments_match [s1, s2, s3] (path_segments str) \<longleftrightarrow> t \<in> set (path_segments str)"
    using match_directory [OF k(1) _ k(3), of s2] k(2) literal_token_match [OF t(4)] by (auto simp: t(1))
  also have "\<dots> \<longleftrightarrow> find_segment str 0 (hd t) t \<noteq> None"
    using candidate_segment [OF t(3,2), of str] by (auto simp: find_segment_None)
  finally show ?thesis using k t(1) by (simp add: arm_hit_def arm_of_def Let_def literal_of_def)
qed

lemma hit_lone:
  assumes ok: "segments_ok [s]" and k: "\<not> is_recursive s"
  shows "arm_hit big (arm_of big [s] a) str = Some (segments_match [s] (path_segments str))"
proof -
  let ?arm = "arm_of big [s] a"
  have s: "segment_ok s" using ok by (simp add: segments_ok_def)
  note l = match_lone [OF k, of str]
  show ?thesis
  proof (cases "segment_kind s = Affix \<and> hd (segment_tokens s) = Star")
    case True
    then have "plan ?arm = PlanSegmentSuffix" by (simp add: arm_of_def Let_def)
    with l star_affix [OF s, of str "[]"] True show ?thesis
      by (auto simp: arm_hit_def arm_literal_final simp del: arm_of_simps(3))
  next
    case False
    then have p: "plan ?arm = (if segment_kind s = Affix then PlanAffix else PlanFinal)"
      "arm_basename ?arm = False" "segment_kind s = Affix \<Longrightarrow> arm_head ?arm = literal_of (hd (segment_tokens s))"
      using k by (auto simp: arm_of_def Let_def)
    have "match_final big ?arm str = Some (slash \<notin> set str
        \<and> tokens_match (segment_tokens s) (atoms (last (path_segments str))))"
      using match_final_correct [OF ok, of ?arm big a str] k p False by (auto split: if_splits)
    then show ?thesis using p(1) l path_segments_last_one [of str] by (auto simp: arm_hit_def)
  qed
qed

lemma hit_base:
  assumes ok: "segments_ok [s1, s]" and k: "is_recursive s1" "\<not> is_recursive s"
  shows "arm_hit big (arm_of big [s1, s] a) str = Some (segments_match [s1, s] (path_segments str))"
proof -
  let ?arm = "arm_of big [s1, s] a" and ?name = "last (path_segments str)"
  have s: "segment_ok s" using ok by (simp add: segments_ok_def)
  note l = match_base [OF k, of "path_segments str"]
  have e: "ends_with str (final_text [s1, s]) \<longleftrightarrow> ends_with ?name (final_text [s1, s])"
    by (rule ends_last [OF final_text_ok [OF ok]])
  consider (suffix) "segment_kind s = Affix \<and> hd (segment_tokens s) = Star"
    | (path) "segment_kind s = LiteralSegment"
    | (final) "\<not> (segment_kind s = Affix \<and> hd (segment_tokens s) = Star)" "segment_kind s \<noteq> LiteralSegment"
    by blast
  then show ?thesis
  proof cases
    case suffix
    then have "plan ?arm = PlanSuffix" using k by (simp add: arm_of_def Let_def)
    with l e star_affix [OF s, of ?name "[s1]"] suffix show ?thesis
      by (auto simp: arm_hit_def arm_literal_final simp del: arm_of_simps(3))
  next
    case path
    let ?t = "final_text [s1, s]"
    have t: "?t = (if segment_tokens s = [] then [] else literal_of (hd (segment_tokens s)))"
      using s path by (auto simp: segment_ok_def final_text_def Let_def)
    have "segments_match [s1, s] (path_segments str) \<longleftrightarrow> ?name = ?t"
      using l literal_kind(1) [OF s path] by (simp add: t)
    moreover have "ends_with str ?t \<and> (length str = length ?t \<or> str ! (length str - length ?t - 1) = slash) \<longleftrightarrow> ?name = ?t"
      (is "?p \<longleftrightarrow> _")
    proof -
      define n where "n = ?name"
      obtain front where f: "str = front @ n" "front = [] \<or> last front = slash" "slash \<notin> set n"
        using path_segments_last [of str] last_segment_slash [of str] by (auto simp: n_def split: if_splits)
      have "?p \<longleftrightarrow> n = ?t"
      proof
        assume p: ?p
        then have "ends_with n ?t" using e by (simp add: n_def)
        then obtain u where u: "n = u @ ?t" by (auto simp: ends_with_iff)
        have "u = []"
        proof (rule ccontr)
          assume ne: "u \<noteq> []"
          then obtain v c where v: "u = v @ [c]" by (cases u rule: rev_exhaust) auto
          then have "str ! (length str - length ?t - 1) = c" "length str \<noteq> length ?t"
            by (simp_all add: f(1) u nth_append)
          with p v f(3) u show False by auto
        qed
        with u show "n = ?t" by simp
      next
        assume "n = ?t"
        with f show ?p by (cases front rule: rev_exhaust) (simp_all add: ends_with_def nth_append)
      qed
      then show ?thesis by (simp add: n_def)
    qed
    moreover have "plan ?arm = PlanPathSuffix" using path k by (simp add: arm_of_def Let_def)
    ultimately show ?thesis
      by (simp add: arm_hit_def is_path_suffix_def arm_literal_final del: arm_of_simps(3))
  next
    case final
    then have p: "plan ?arm = (if segment_kind s = Affix then PlanAffix else PlanFinal)"
      "arm_basename ?arm" "segment_kind s = Affix \<Longrightarrow> arm_head ?arm = literal_of (hd (segment_tokens s))"
      using k by (auto simp: arm_of_def Let_def)
    have "match_final big ?arm str = Some (tokens_match (segment_tokens s) (atoms ?name))"
      using match_final_correct [OF ok, of ?arm big a str] k p final by (auto split: if_splits)
    then show ?thesis using p(1) l by (auto simp: arm_hit_def)
  qed
qed

text \<open>Whatever its plan, an arm matches what its segments match.\<close>

lemma arm_hit_correct:
  assumes ok: "segments_ok segs"
  shows "arm_hit big (arm_of big segs a) str = Some (segments_match segs (path_segments str))"
proof (cases "plan (arm_of big segs a) = PlanGeneral")
  case True
  have "arm_hit big (arm_of big segs a) str =
      (if ends_with str (final_text segs) then execute (arm_of big segs a) str else Some False)"
    using True by (simp add: arm_hit_def arm_literal_final del: arm_of_simps(3))
  with execute_correct [of "arm_of big segs a" str] segments_match_final [OF ok, of str] ok show ?thesis by auto
next
  case False
  then consider (pt) "length segs = 2" "segment_kind (hd segs) = LiteralSegment" "is_recursive (last segs)"
    | (dt) "length segs = 3" "is_recursive (hd segs)" "segment_kind (segs ! 1) = LiteralSegment" "is_recursive (last segs)"
    | (base) "length segs = 2" "is_recursive (hd segs)" "\<not> is_recursive (last segs)"
    | (lone) "length segs = 1" "\<not> is_recursive (hd segs)"
    by (auto simp: arm_of_def Let_def split: if_splits)
  then show ?thesis
  proof cases
    case pt
    then obtain s1 s2 where "segs = [s1, s2]" by (auto simp: numeral_2_eq_2 length_Suc_conv)
    with pt ok hit_prefix_tree show ?thesis by simp
  next
    case dt
    then obtain s1 s2 s3 where "segs = [s1, s2, s3]" by (auto simp: numeral_3_eq_3 length_Suc_conv)
    with dt ok hit_directory_tree show ?thesis by simp
  next
    case base
    then obtain s1 s2 where "segs = [s1, s2]" by (auto simp: numeral_2_eq_2 length_Suc_conv)
    with base ok hit_base show ?thesis by simp
  next
    case lone
    then obtain s where "segs = [s]" by (auto simp: length_Suc_conv)
    with lone ok hit_lone show ?thesis by simp
  qed
qed

section \<open>The set of extensions\<close>

lemma find_last_char_at: "c \<notin> set t \<Longrightarrow> find_last_char (\<lambda>d. d = c) (u @ c # t) = Some (length u)"
proof -
  assume "c \<notin> set t"
  then have "find_char (\<lambda>d. d = c) (rev t) = None" by (auto simp: find_char_None)
  then show ?thesis by (simp add: find_last_char_def find_char_append)
qed

lemma find_last_char_None: "find_last_char (\<lambda>d. d = c) s = None \<longleftrightarrow> c \<notin> set s"
  by (auto simp: find_last_char_def find_char_None)

lemma find_last_char_split:
  assumes "find_last_char (\<lambda>d. d = c) s = Some i"
  obtains u t where "s = u @ c # t" "c \<notin> set t" "i = length u"
proof -
  have "c \<in> set s" using assms find_last_char_None by (metis option.distinct(1))
  then obtain u t where "s = u @ c # t" "c \<notin> set t" by (meson split_list_last)
  with find_last_char_at [of c t u] assms that show thesis by simp
qed

text \<open>The search is a binary search for one key: an arm's mask only matters where the sizes agree.\<close>

definition extension_mask :: "bool \<Rightarrow> nat \<Rightarrow> uint64" where
  "extension_mask big n = memcpy_word big (replicate (8 - n) (CHR 0x00) @ replicate n (CHR 0xFF))"

lemma search_extension_correct:
  fixes word :: uint64
  assumes s: "sorted (map literal_key as)"
    and m: "\<And>arm. arm \<in> set as \<Longrightarrow> length (packed_text (arm_literal arm)) = n
      \<Longrightarrow> packed_mask (arm_literal arm) = extension_mask big n"
  defines "target \<equiv> (n, word AND extension_mask big n)"
  assumes h: "high \<le> length as" "\<forall>j<low. literal_key (as ! j) \<noteq> target"
      "\<forall>j. high \<le> j \<and> j < length as \<longrightarrow> literal_key (as ! j) \<noteq> target"
  shows "search_extension as n word low high \<longleftrightarrow> (\<exists>j<length as. literal_key (as ! j) = target)"
  using h
proof (induction "high - low" arbitrary: low high rule: less_induct)
  case less
  show ?case
  proof (cases "low < high")
    case False
    then have "literal_key (as ! j) \<noteq> target" if "j < length as" for j
      using that less.prems(2,3) False by (cases "j < low") auto
    with False show ?thesis by (auto simp: search_extension.simps)
  next
    case True
    define mid where "mid = low + (high - low) div 2"
    have mid: "low \<le> mid" "mid < high" using True by (auto simp: mid_def)
    define key where "key = literal_key (as ! mid)"
    define cand where "cand = (n, word AND packed_mask (arm_literal (as ! mid)))"
    have "cand = target" if "fst key = n"
      using m [of "as ! mid"] that mid less.prems(1)
      by (simp add: cand_def target_def key_def literal_key_def)
    then have c: "cand = key \<longleftrightarrow> target = key" "cand < key \<longleftrightarrow> target < key"
      by (cases "fst key = n"; cases key; auto simp: cand_def target_def)+
    have step: "search_extension as n word low high = (if target = key then True
        else if target < key then search_extension as n word low mid
        else search_extension as n word (Suc mid) high)"
      unfolding c [symmetric] using True
      by (subst search_extension.simps) (simp add: mid_def key_def cand_def literal_key_def Let_def)
    have le: "literal_key (as ! i) \<le> literal_key (as ! j)" if "i \<le> j" "j < length as" for i j
      using sorted_nth_mono [OF s that(1)] that by simp
    consider "target = key" | "target < key" | "key < target" by (meson linorder_neqE)
    then show ?thesis
    proof cases
      case 1
      with step mid less.prems(1) show ?thesis by (auto simp: key_def intro!: exI [where x = mid])
    next
      case 2
      have "\<forall>j. mid \<le> j \<and> j < length as \<longrightarrow> literal_key (as ! j) \<noteq> target"
        using 2 le unfolding key_def by (metis leD)
      with less.hyps [of mid low] less.prems mid 2 step show ?thesis by auto
    next
      case 3
      have "\<forall>j<Suc mid. literal_key (as ! j) \<noteq> target"
        using 3 le [of _ mid] mid less.prems(1) unfolding key_def by (metis leD less_Suc_eq_le order_less_le_trans)
      with less.hyps [of high "Suc mid"] less.prems mid 3 step show ?thesis by auto
    qed
  qed
qed

lemma extension_text:
  assumes "is_extension t"
  shows "ends_with str t \<longleftrightarrow>
    (case find_last_char (\<lambda>d. d = CHR ''.'') str of None \<Rightarrow> False | Some dot \<Rightarrow> drop dot str = t)"
proof -
  obtain v where t: "t = CHR ''.'' # v" "CHR ''.'' \<notin> set v"
    using assms by (cases t) (auto simp: is_extension_def starts_with_def)
  show ?thesis
  proof (cases "find_last_char (\<lambda>d. d = CHR ''.'') str")
    case None
    then have "CHR ''.'' \<notin> set str" by (simp add: find_last_char_None)
    with None t show ?thesis by (auto simp: ends_with_iff)
  next
    case (Some i)
    then obtain u w where u: "str = u @ CHR ''.'' # w" "CHR ''.'' \<notin> set w" "i = length u"
      by (rule find_last_char_split)
    have "ends_with str t \<longleftrightarrow> CHR ''.'' # w = t"
    proof
      assume "ends_with str t"
      then obtain x where "u @ CHR ''.'' # w = x @ CHR ''.'' # v" by (auto simp: ends_with_iff u(1) t(1))
      with u(2) t(2) have "w = v" by (auto simp: append_eq_append_conv2 Cons_eq_append_conv append_eq_Cons_conv)
      then show "CHR ''.'' # w = t" by (simp add: t)
    qed (auto simp: u(1) ends_with_iff)
    with Some u show ?thesis by simp
  qed
qed

lemma match_extension_set_correct:
  assumes l: "\<And>arm. arm \<in> set as \<Longrightarrow> \<exists>t. arm_literal arm = pack_literal big t \<and> is_extension t"
    and s: "sorted (map literal_key as)"
  shows "match_extension_set big as str \<longleftrightarrow> (\<exists>arm\<in>set as. ends_with str (packed_text (arm_literal arm)))"
proof (cases "find_last_char (\<lambda>d. d = CHR ''.'') str")
  case None
  have "\<not> ends_with str (packed_text (arm_literal arm))" if arm: "arm \<in> set as" for arm
  proof -
    obtain t where "arm_literal arm = pack_literal big t" "is_extension t" using l [OF arm] by blast
    with extension_text [of t str] None show ?thesis by simp
  qed
  with None show ?thesis by (simp add: match_extension_set_def)
next
  case (Some dot)
  then obtain u w where u: "str = u @ CHR ''.'' # w" "dot = length u" by (rule find_last_char_split)
  define n where "n = length str - dot"
  have n: "0 < n" "n \<le> length str" "drop dot str = drop (length str - n) str" by (auto simp: n_def u)
  have ends: "(\<exists>arm\<in>set as. ends_with str (packed_text (arm_literal arm)))
      \<longleftrightarrow> (\<exists>arm\<in>set as. packed_text (arm_literal arm) = drop dot str)"
  proof (rule bex_cong [OF refl])
    fix arm assume "arm \<in> set as"
    then obtain t where "arm_literal arm = pack_literal big t" "is_extension t" using l by blast
    with extension_text [of t str] Some
    show "ends_with str (packed_text (arm_literal arm)) \<longleftrightarrow> packed_text (arm_literal arm) = drop dot str" by auto
  qed
  show ?thesis
  proof (cases "n \<le> 8")
    case False
    then have "packed_text (arm_literal arm) \<noteq> drop dot str" if "arm \<in> set as" for arm
      using l [OF that] n by (auto simp: is_extension_def dest!: arg_cong [of _ _ length])
    with Some False ends show ?thesis by (auto simp: match_extension_set_def n_def)
  next
    case True
    define b where "b = (if length str \<ge> 8 then drop (length str - 8) str
        else replicate (8 - length str) (CHR 0x00) @ str)"
    have b: "length b = 8" "drop (8 - n) b = drop dot str"
      using n True by (auto simp: b_def)
    define word where "word = memcpy_word big b"
    have lit: "packed_mask (pack_literal big t) = extension_mask big (length t)"
      "packed_word (pack_literal big t) = memcpy_word big (replicate (8 - length t) (CHR 0x00) @ t)"
      if "is_extension t" for t
      using that by (simp_all add: pack_literal_def extension_mask_def is_extension_def Let_def)
    have "match_extension_set big as str = search_extension as n word 0 (length as)"
      using Some True by (simp add: match_extension_set_def n_def word_def b_def)
    also have "\<dots> = (\<exists>j<length as. literal_key (as ! j) = (n, word AND extension_mask big n))"
      by (rule search_extension_correct [OF s]) (use l lit in \<open>fastforce+\<close>)
    also have "\<dots> = (\<exists>arm\<in>set as. literal_key arm = (n, word AND extension_mask big n))"
      by (metis in_set_conv_nth)
    also have "\<dots> = (\<exists>arm\<in>set as. packed_text (arm_literal arm) = drop dot str)"
    proof (rule bex_cong [OF refl])
      fix arm assume "arm \<in> set as"
      then obtain t where t: "arm_literal arm = pack_literal big t" "is_extension t" using l by blast
      have "length t = n \<Longrightarrow> word AND extension_mask big n = packed_word (pack_literal big t) \<longleftrightarrow> drop (8 - n) b = t"
        using packed_word_compare [of b t big] b(1) t(2) lit(2) [OF t(2)]
        by (simp add: word_def extension_mask_def is_extension_def)
      moreover have "drop dot str = t \<Longrightarrow> length t = n" by (auto simp: n_def)
      ultimately show "literal_key arm = (n, word AND extension_mask big n) \<longleftrightarrow> packed_text (arm_literal arm) = drop dot str"
        using t(1) b(2) by (auto simp: literal_key_def)
    qed
    finally show ?thesis using ends by simp
  qed
qed

section \<open>The modes\<close>

definition arm_ok :: "bool \<Rightarrow> Arm \<Rightarrow> bool" where
  "arm_ok big arm \<longleftrightarrow> (\<exists>segs. segments_ok segs \<and> arm = arm_of big segs (segments_match segs []))"

text \<open>An arm behind the literal prefix of a pattern, which a separator may follow.\<close>

definition behind_prefix :: "string \<Rightarrow> bool \<Rightarrow> Segment list \<Rightarrow> string \<Rightarrow> bool" where
  "behind_prefix pre seg_end segs str \<longleftrightarrow> starts_with str pre
     \<and> (let rest = drop (length pre) str in
        if seg_end
        then if rest = [] then segments_match segs []
             else rest ! 0 = slash \<and> segments_match segs (path_segments (drop 1 rest))
        else segments_match segs (path_segments rest))"

lemma arm_ok_hit:
  assumes "arm_ok big arm"
  shows "arm_hit big arm str = Some (segments_match (arm_segments arm) (path_segments str))"
    "absorbs_separator arm \<longleftrightarrow> segments_match (arm_segments arm) []"
  using assms arm_hit_correct by (auto simp: arm_ok_def)

lemma any_arm_correct:
  "list_all (arm_ok big) as \<Longrightarrow>
    any_arm big as str = Some (\<exists>arm\<in>set as. segments_match (arm_segments arm) (path_segments str))"
  by (induction as) (auto simp: arm_ok_hit)

lemma suffix_plans:
  assumes "arm_ok big arm"
  shows "plan arm = PlanSuffix \<Longrightarrow> packed_matches big (arm_literal arm) str
      \<longleftrightarrow> segments_match (arm_segments arm) (path_segments str)"
    "plan arm = PlanPathSuffix \<Longrightarrow> is_path_suffix big (arm_literal arm) str
      \<longleftrightarrow> segments_match (arm_segments arm) (path_segments str)"
    "plan arm = PlanSegmentSuffix \<Longrightarrow> packed_matches big (arm_literal arm) str \<and> slash \<notin> set str
      \<longleftrightarrow> segments_match (arm_segments arm) (path_segments str)"
  using arm_ok_hit(1) [OF assms, of str] by (simp_all add: arm_hit_def)

lemma extension_literal:
  assumes "arm_ok big arm" "is_extension (packed_text (arm_literal arm))"
  shows "\<exists>t. arm_literal arm = pack_literal big t \<and> is_extension t"
    "packed_matches big (arm_literal arm) str \<longleftrightarrow> ends_with str (packed_text (arm_literal arm))"
proof -
  obtain segs a where arm: "arm = arm_of big segs a" using assms(1) by (auto simp: arm_ok_def)
  show "packed_matches big (arm_literal arm) str \<longleftrightarrow> ends_with str (packed_text (arm_literal arm))"
    unfolding arm arm_literal_final ..
  have "\<not> is_extension []" by (simp add: is_extension_def starts_with_def)
  with assms(2) show "\<exists>t. arm_literal arm = pack_literal big t \<and> is_extension t"
    unfolding arm by (auto simp: Let_def split: if_splits Token.splits)
qed

lemma match_rest_correct:
  assumes ok: "list_all (arm_ok big) as" and mode: "choose_mode root seg_end match_all as = (m, as')"
    and p: "mode p = m" "arms p = as'" and m: "m \<in> {ModeArms, ModeSuffixArms, ModeSegmentSuffixArms, ModeExtensionArms}"
  shows "match_rest big p str = Some (\<exists>arm\<in>set as. segments_match (arm_segments arm) (path_segments str))"
proof -
  have arm: "arm_ok big arm" if "arm \<in> set as" for arm using ok that by (simp add: list_all_iff)
  consider (any) "m = ModeArms" "as' = as" | (suf) "m = ModeSuffixArms" "as' = as" "list_all (\<lambda>a. plan a = PlanSuffix) as"
    | (seg) "m = ModeSegmentSuffixArms" "as' = as" "list_all (\<lambda>a. plan a = PlanSegmentSuffix) as"
    | (ext) "m = ModeExtensionArms" "as' = sort_key literal_key as" "list_all (\<lambda>a. plan a = PlanSuffix) as"
        "list_all (\<lambda>a. is_extension (packed_text (arm_literal a))) as"
    using mode m by (auto simp: choose_mode_def Let_def split: if_splits)
  then show ?thesis
  proof cases
    case any
    then show ?thesis using any_arm_correct [OF ok] p by (simp add: match_rest_def)
  next
    case suf
    then show ?thesis using suffix_plans(1) [OF arm] p
      by (auto simp: match_rest_def list_ex_iff list_all_iff)
  next
    case seg
    then have "packed_matches big (arm_literal a) str \<and> slash \<notin> set str
        \<longleftrightarrow> segments_match (arm_segments a) (path_segments str)" if "a \<in> set as" for a
      using suffix_plans(3) [OF arm [OF that], of str] that by (simp add: list_all_iff)
    then show ?thesis using seg p by (auto simp: match_rest_def list_ex_iff)
  next
    case ext
    have "match_extension_set big as' str \<longleftrightarrow> (\<exists>arm\<in>set as'. ends_with str (packed_text (arm_literal arm)))"
      by (rule match_extension_set_correct) (use ext extension_literal(1) arm in \<open>auto simp: list_all_iff\<close>)
    also have "\<dots> \<longleftrightarrow> (\<exists>arm\<in>set as. segments_match (arm_segments arm) (path_segments str))"
      using ext extension_literal(2) [OF arm] suffix_plans(1) [OF arm] by (auto simp: list_all_iff)
    finally show ?thesis using ext p by (simp add: match_rest_def)
  qed
qed

lemma choose_mode_cases:
  assumes mode: "choose_mode root seg_end match_all as = (m, as')"
  obtains (any) "match_all" "m = ModeAny"
    | (tree) "m = ModePrefixTree" "length as = 1" "seg_end" "length (arm_segments (hd as)) = 1"
        "segment_kind (hd (arm_segments (hd as))) = Recursive"
    | (suffix) "length as = 1" "as' = as" "root" "m = ModeSuffix" "plan (hd as) = PlanSuffix"
    | (path) "length as = 1" "as' = as" "root" "m = ModePathSuffix" "plan (hd as) = PlanPathSuffix"
    | (segment) "length as = 1" "as' = as" "root" "m = ModeSegmentSuffix" "plan (hd as) = PlanSegmentSuffix"
    | (arms) "m \<in> {ModeArms, ModeSuffixArms, ModeSegmentSuffixArms, ModeExtensionArms}" "set as' = set as"
proof -
  define T where "T \<longleftrightarrow> length as = 1 \<and> seg_end \<and> length (arm_segments (hd as)) = 1
    \<and> segment_kind (hd (arm_segments (hd as))) = Recursive"
  define S P G where "S \<longleftrightarrow> length as = 1 \<and> root \<and> plan (hd as) = PlanSuffix"
    and "P \<longleftrightarrow> length as = 1 \<and> root \<and> plan (hd as) = PlanPathSuffix"
    and "G \<longleftrightarrow> length as = 1 \<and> root \<and> plan (hd as) = PlanSegmentSuffix"
  note conds = T_def S_def P_def G_def
  have d: "choose_mode root seg_end match_all as =
      (if match_all then (ModeAny, as) else if T then (ModePrefixTree, as) else if S then (ModeSuffix, as)
       else if P then (ModePathSuffix, as) else if G then (ModeSegmentSuffix, as)
       else if list_all (\<lambda>a. plan a = PlanSuffix) as then
         (if length as \<ge> 16 \<and> list_all (\<lambda>a. is_extension (packed_text (arm_literal a))) as
          then (ModeExtensionArms, sort_key literal_key as) else (ModeSuffixArms, as))
       else if list_all (\<lambda>a. plan a = PlanSegmentSuffix) as then (ModeSegmentSuffixArms, as)
       else (ModeArms, as))"
    by (simp only: choose_mode_def Let_def conds)
  note mode = mode [unfolded d]
  consider "match_all" | "\<not> match_all" "T" | "\<not> match_all" "\<not> T" "S" | "\<not> match_all" "\<not> T" "\<not> S" "P"
    | "\<not> match_all" "\<not> T" "\<not> S" "\<not> P" "G" | "\<not> match_all" "\<not> T" "\<not> S" "\<not> P" "\<not> G" by blast
  then show thesis
  proof cases
    case 1
    with mode show ?thesis by (intro any) simp_all
  next
    case 2
    with mode show ?thesis by (intro tree) (simp_all add: T_def)
  next
    case 3
    with mode show ?thesis by (intro suffix) (simp_all add: S_def)
  next
    case 4
    with mode show ?thesis by (intro path) (simp_all add: P_def)
  next
    case 5
    with mode show ?thesis by (intro segment) (simp_all add: G_def)
  next
    case 6
    with mode show ?thesis by (intro arms) (auto split: if_splits)
  qed
qed

lemma match_modes:
  assumes ok: "list_all (arm_ok big) as" "as \<noteq> []"
    and mode: "choose_mode (pre = [] \<and> \<not> seg_end) seg_end match_all as = (m, as')"
    and all: "match_all \<Longrightarrow> pre = [] \<and> \<not> seg_end
      \<and> (\<exists>arm\<in>set as. \<forall>str. segments_match (arm_segments arm) (path_segments str))"
  shows "match big \<lparr>pat_prefix = pre, prefix_at_seg_end = seg_end, mode = m, arms = as'\<rparr> str
    = Some (\<exists>arm\<in>set as. behind_prefix pre seg_end (arm_segments arm) str)" (is "match big ?p str = Some ?goal")
proof -
  have arm: "arm_ok big arm" if "arm \<in> set as" for arm using ok(1) that by (simp add: list_all_iff)
  have one: "\<exists>a. as = [a]" if "length as = 1" using that by (auto simp: length_Suc_conv)
  have root: "?goal \<longleftrightarrow> (\<exists>arm\<in>set as. segments_match (arm_segments arm) (path_segments str))"
    if "pre = [] \<and> \<not> seg_end"
    using that by (simp add: behind_prefix_def starts_with_def)
  from mode show ?thesis
  proof (cases rule: choose_mode_cases [consumes 1, case_names any tree suffix path segment arms])
    case any
    with all root show ?thesis by (auto simp: match_def)
  next
    case tree
    then obtain a seg where a: "as = [a]" "arm_segments a = [seg]" "is_recursive seg"
      using one by (auto simp: length_Suc_conv)
    then have "segments_match (arm_segments a) js" for js using recursive_all by simp
    then have "?goal \<longleftrightarrow> is_tree pre str"
      using tree a by (auto simp: behind_prefix_def is_tree_def Let_def starts_with_iff nth_append)
    with tree show ?thesis by (simp add: match_def)
  next
    case suffix
    then obtain a where "as = [a]" by (auto simp: length_Suc_conv)
    with suffix show ?thesis using root suffix_plans(1) [OF arm, of a str] by (auto simp: match_def)
  next
    case path
    then obtain a where "as = [a]" by (auto simp: length_Suc_conv)
    with path show ?thesis using root suffix_plans(2) [OF arm, of a str] by (auto simp: match_def)
  next
    case segment
    then obtain a where "as = [a]" by (auto simp: length_Suc_conv)
    with segment show ?thesis using root suffix_plans(3) [OF arm, of a str] by (auto simp: match_def)
  next
    case arms
    have rest: "match_rest big ?p str' = Some (\<exists>arm\<in>set as. segments_match (arm_segments arm) (path_segments str'))" for str'
      by (rule match_rest_correct [OF ok(1) mode _ _ arms(1)]) simp_all
    have "match big ?p str = match_arms big ?p str" using arms by (auto simp: match_def)
    also have "\<dots> = Some ?goal"
      using rest arms(2) arm_ok_hit(2) [OF arm]
      by (auto simp: match_arms_def behind_prefix_def Let_def list_ex_iff starts_with_def)
    finally show ?thesis .
  qed
qed

end
