(* ===== verification/Glob_Compile.thy ===== *)
theory Glob_Compile
  imports Glob_Arms
begin

text \<open>
  What compiling an arm of a glob pattern gives: segments that keep every promise the matcher
  relies on.
\<close>

section \<open>Cutting UTF-8 at ASCII bytes\<close>

lemma well_formed_append: "well_formed False a \<Longrightarrow> well_formed False b \<Longrightarrow> well_formed False (a @ b)"
  by (induction rule: well_formed_induct) (simp_all add: well_formed_encode)

lemma ascii_not_continuation: "uchar c < 0x80 \<Longrightarrow> \<not> is_continuation c"
  by (simp add: is_continuation_iff)

lemma well_formed_cut:
  assumes "well_formed False text" "text = a @ c # b" "uchar c < 0x80"
  shows "well_formed False a \<and> well_formed False b"
  using assms
proof (induction arbitrary: a rule: well_formed_induct)
  case (Cons cp rest)
  show ?case
  proof (cases "a = []")
    case True
    have "well_formed False (encode_code_point cp @ rest)" using Cons(1,2) by (simp add: well_formed_encode)
    then have "well_formed False (c # b)" using Cons(4) True by simp
    then show ?thesis using well_formed_ascii [of "[c]" False b] Cons(5) True by simp
  next
    case False
    let ?e = "encode_code_point cp"
    have "length ?e \<le> length a"
    proof (rule ccontr)
      assume l: "\<not> length ?e \<le> length a"
      then have c: "?e ! length a = c" using arg_cong [OF Cons(4), of "\<lambda>t. t ! length a"] by (simp add: nth_append)
      have "0x80 \<le> cp" using l False by (cases a) (auto simp: encode_code_point_def split: if_splits)
      with encode_bytes [of cp] Cons(1) l False have "is_continuation (?e ! length a)"
        by (simp add: is_code_point_def)
      with c Cons(5) ascii_not_continuation show False by simp
    qed
    with Cons(4) obtain a' where "a = ?e @ a'" "rest = a' @ c # b"
      by (auto simp: append_eq_append_conv2)
    with Cons show ?thesis by (simp add: well_formed_encode)
  qed
qed simp

lemma well_formed_remove:
  assumes "well_formed False (a @ c # b)" "uchar c < 0x80"
  shows "well_formed False (a @ b)"
  using well_formed_cut [OF assms(1) refl assms(2)] by (simp add: well_formed_append)

lemma well_formed_drop_ascii:
  assumes "well_formed False (drop i s)" "i \<le> j" "j < length s" "uchar (s ! j) < 0x80"
  shows "well_formed False (take (j - i) (drop i s))" "well_formed False (drop (Suc j) s)"
proof -
  have "drop i s = take (j - i) (drop i s) @ s ! j # drop (Suc j) s"
    using assms(2,3) by (metis Cons_nth_drop_Suc append_take_drop_id drop_drop le_add_diff_inverse2)
  from well_formed_cut [OF assms(1) this assms(4)]
  show "well_formed False (take (j - i) (drop i s))" "well_formed False (drop (Suc j) s)" by auto
qed

section \<open>Bracket expressions\<close>

lemma scan_members_close:
  assumes "scan_members s j = Inr k" "j \<le> length s"
  shows "k \<le> length s \<and> (k < length s \<longrightarrow> s ! k = CHR '']'')"
  using assms
proof (induction s j rule: scan_members.induct)
  case (1 s j)
  from "1.prems" show ?case
    by (subst (asm) scan_members.simps) (use 1 in \<open>auto split: if_splits\<close>)
qed

lemma scan_bracket_close:
  assumes "scan_bracket s i = Inr j" "i < length s"
  shows "i < j" "j < length s" "s ! j = CHR '']''"
proof -
  show "i < j" by (rule scan_bracket_later [OF assms(1)])
  obtain k where "scan_members s k = Inr j" "k \<le> length s" "j \<noteq> length s"
    using assms by (auto simp: scan_bracket_def Let_def split: if_splits sum.splits)
  with scan_members_close show "j < length s" "s ! j = CHR '']''" by force+
qed

lemma parse_class_close:
  assumes "parse_class s i = Inr (cls, j)" "i < length s"
  obtains k where "j = Suc k" "i < k" "k < length s" "s ! k = CHR '']''"
proof -
  obtain k where "scan_bracket s i = Inr k" "j = Suc k"
    using assms by (auto simp: parse_class_def Let_def split: sum.splits if_splits)
  with scan_bracket_close [of s i k] assms(2) that show thesis by blast
qed

section \<open>The tokens of a segment\<close>

text \<open>The literal that is still growing.\<close>

definition pending :: "Token list \<Rightarrow> string" where
  "pending ts = (if ts = [] then [] else literal_of (last ts))"

fun same_kind :: "Token \<Rightarrow> Token \<Rightarrow> bool" where
  "same_kind (Literal _) (Literal _) = True"
| "same_kind Star Star = True"
| "same_kind _ _ = False"

lemma same_kind_Literal [simp]: "same_kind a (Literal t) \<longleftrightarrow> (\<exists>u. a = Literal u)"
  by (cases a) auto

text \<open>No two literals and no two stars are next to each other.\<close>

definition merged :: "Token list \<Rightarrow> bool" where
  "merged ts \<longleftrightarrow> successively (\<lambda>a b. \<not> same_kind a b) ts"

definition growing_ok :: "Token list \<Rightarrow> string \<Rightarrow> bool" where
  "growing_ok ts rest \<longleftrightarrow> merged ts \<and> well_formed False (pending ts @ rest)
     \<and> list_all literal_ok (butlast ts)
     \<and> (\<forall>t. ts \<noteq> [] \<and> last ts = Literal t \<longrightarrow> t \<noteq> [] \<and> slash \<notin> set t)"

lemma merged_snoc: "merged (ts @ [t]) \<longleftrightarrow> merged ts \<and> (ts = [] \<or> \<not> same_kind (last ts) t)"
  by (auto simp: merged_def successively_append_iff)

lemma growing_done:
  assumes "growing_ok ts rest" "rest = [] \<or> (\<exists>c r. rest = c # r \<and> uchar c < 0x80)"
  shows "list_all literal_ok ts" "well_formed False (pending ts)" "well_formed False (drop 1 rest)"
proof -
  show w: "well_formed False (pending ts)" and "well_formed False (drop 1 rest)"
    using assms well_formed_cut [of "pending ts @ rest" "pending ts"] by (auto simp: growing_ok_def)
  show "list_all literal_ok ts"
  proof (cases ts rule: rev_exhaust)
    case (snoc us t)
    then show ?thesis using assms(1) w
      by (cases t) (auto simp: growing_ok_def literal_ok_def pending_def literal_of_def)
  qed simp
qed

lemma growing_next:
  assumes "growing_ok ts rest" "rest = c # r" "uchar c < 0x80" "well_formed False rest'"
    "\<forall>t. tok \<noteq> Literal t" "ts = [] \<or> \<not> same_kind (last ts) tok"
  shows "growing_ok (ts @ [tok]) rest'"
  using growing_done(1) [OF assms(1)] assms
  by (cases tok) (auto simp: growing_ok_def merged_snoc pending_def literal_of_def)

lemma growing_pending: "growing_ok ts rest \<Longrightarrow> pending ts = [] \<Longrightarrow> list_all literal_ok ts"
  by (cases ts rule: rev_exhaust)
    (auto simp: growing_ok_def pending_def literal_of_def literal_ok_def split: Token.splits)

lemma growing_literal:
  assumes "growing_ok ts rest" "well_formed False (pending ts @ c # rest')" "c \<noteq> slash"
  shows "growing_ok (push_literal ts c) rest'"
proof (cases "ts \<noteq> [] \<and> (\<exists>u. last ts = Literal u)")
  case True
  then obtain us u where "ts = us @ [Literal u]" by (metis append_butlast_last_id)
  then show ?thesis using assms
    by (auto simp: growing_ok_def push_literal_def pending_def literal_of_def merged_snoc)
next
  case False
  then have "push_literal ts c = ts @ [Literal [c]]" "pending ts = []"
    by (auto simp: push_literal_def pending_def literal_of_def split: Token.split)
  then show ?thesis using assms False growing_pending [OF assms(1)]
    by (auto simp: growing_ok_def merged_snoc pending_def literal_of_def)
qed

lemma stars_ascii: "\<forall>c\<in>set (takeWhile (\<lambda>c. c = CHR ''*'') s). uchar c < 0x80"
  by (auto dest: set_takeWhileD)

lemma star_run_drop: "drop i s = takeWhile (\<lambda>c. c = CHR ''*'') (drop i s) @ drop (i + star_run s i) s"
  unfolding star_run_def by (metis add.commute append_take_drop_id drop_drop takeWhile_eq_take)

lemma star_run_le: "i \<le> length s \<Longrightarrow> i + star_run s i \<le> length s"
  using length_takeWhile_le [of "\<lambda>c. c = CHR ''*''" "drop i s"] by (simp add: star_run_def)

lemma growing_star:
  assumes g: "growing_ok ts (drop i s)" and i: "i < length s" "s ! i = CHR ''*''"
  shows "growing_ok (if ts = [] \<or> last ts \<noteq> Star then ts @ [Star] else ts) (drop (i + star_run s i) s)"
proof -
  have d: "drop i s = CHR ''*'' # drop (Suc i) s" using i by (metis Cons_nth_drop_Suc)
  have "well_formed False (drop (Suc i) s)" using growing_done(3) [OF g] d by simp
  then have "well_formed False (drop i s)" using well_formed_ascii [of "[CHR ''*'']" False] d by simp
  then have w: "well_formed False (drop (i + star_run s i) s)"
    using star_run_drop [of i s] well_formed_ascii [OF stars_ascii] by metis
  show ?thesis
  proof (cases "ts = [] \<or> last ts \<noteq> Star")
    case True
    then have "growing_ok (ts @ [Star]) (drop (i + star_run s i) s)"
      by (intro growing_next [OF g d _ w]) (auto elim: same_kind.elims)
    with True show ?thesis by simp
  next
    case False
    with g w show ?thesis by (auto simp: growing_ok_def pending_def literal_of_def)
  qed
qed

lemma growing_class:
  assumes g: "growing_ok ts (drop i s)" and i: "i < length s" "s ! i = CHR ''[''"
    and c: "parse_class s i = Inr (cls, k)"
  shows "growing_ok (ts @ [Class cls]) (drop k s)" "k \<le> length s"
proof -
  have d: "drop i s = CHR ''['' # drop (Suc i) s" using i by (metis Cons_nth_drop_Suc)
  have t: "well_formed False (drop (Suc i) s)" using growing_done(3) [OF g] d by simp
  from parse_class_close [OF c i(1)] obtain e where e: "k = Suc e" "i < e" "e < length s" "s ! e = CHR '']''" .
  then show "k \<le> length s" by simp
  have "well_formed False (drop k s)" using well_formed_drop_ascii(2) [OF t, of e] e by simp
  then show "growing_ok (ts @ [Class cls]) (drop k s)" by (intro growing_next [OF g d]) auto
qed

lemma growing_escape:
  assumes g: "growing_ok ts (drop i s)" and i: "Suc i < length s" "s ! i = backslash" "s ! Suc i \<noteq> slash"
  shows "growing_ok (push_literal ts (s ! Suc i)) (drop (i + 2) s)"
proof -
  have "drop i s = backslash # s ! Suc i # drop (i + 2) s"
    using i by (metis Cons_nth_drop_Suc Suc_lessD add_2_eq_Suc')
  then have "well_formed False (pending ts @ s ! Suc i # drop (i + 2) s)"
    using g well_formed_remove [of "pending ts" backslash] by (simp add: growing_ok_def)
  from growing_literal [OF g this i(3)] show ?thesis .
qed

lemma growing_byte:
  assumes g: "growing_ok ts (drop i s)" and i: "i < length s" "s ! i \<noteq> slash"
  shows "growing_ok (push_literal ts (s ! i)) (drop (Suc i) s)"
proof -
  have "drop i s = s ! i # drop (Suc i) s" using i by (simp add: Cons_nth_drop_Suc)
  with g have "well_formed False (pending ts @ s ! i # drop (Suc i) s)" by (simp add: growing_ok_def)
  from growing_literal [OF g this i(2)] show ?thesis .
qed

lemma growing_any:
  assumes g: "growing_ok ts (drop i s)" and i: "i < length s" "s ! i = CHR ''?''"
  shows "growing_ok (ts @ [AnyChar]) (drop (Suc i) s)"
proof -
  have d: "drop i s = CHR ''?'' # drop (Suc i) s" using i by (metis Cons_nth_drop_Suc)
  have "well_formed False (drop (Suc i) s)" using growing_done(3) [OF g] d by simp
  then show ?thesis by (intro growing_next [OF g d]) auto
qed

text \<open>The ways the loop over a segment goes on.\<close>

lemma tokens_loop_cases [consumes 1, case_names stop bracket star any escape byte]:
  assumes "tokens_loop s i ts = Inr (ts', j)"
  obtains "\<not> (i < length s \<and> s ! i \<noteq> slash)" "ts' = ts" "j = i"
  | cls k where "i < length s" "s ! i \<noteq> slash" "s ! i = CHR ''[''" "parse_class s i = Inr (cls, k)"
      "tokens_loop s k (ts @ [Class cls]) = Inr (ts', j)"
  | "i < length s" "s ! i \<noteq> slash" "s ! i = CHR ''*''" "star_run s i \<le> 2"
      "tokens_loop s (i + star_run s i) (if ts = [] \<or> last ts \<noteq> Star then ts @ [Star] else ts) = Inr (ts', j)"
  | "i < length s" "s ! i \<noteq> slash" "s ! i = CHR ''?''" "tokens_loop s (Suc i) (ts @ [AnyChar]) = Inr (ts', j)"
  | "Suc i < length s" "s ! i \<noteq> slash" "s ! i = backslash" "s ! Suc i \<noteq> slash"
      "tokens_loop s (i + 2) (push_literal ts (s ! Suc i)) = Inr (ts', j)"
  | "i < length s" "s ! i \<noteq> slash" "s ! i \<notin> {CHR ''['', CHR ''*'', CHR ''?'', backslash}"
      "tokens_loop s (Suc i) (push_literal ts (s ! i)) = Inr (ts', j)"
proof (cases "i < length s \<and> s ! i \<noteq> slash")
  case False
  with assms show ?thesis by (intro that(1)) (auto simp: tokens_loop.simps [of s i])
next
  case True
  note run = assms [unfolded tokens_loop.simps [of s i ts]]
  consider "s ! i = CHR ''[''" | "s ! i = CHR ''*''" | "s ! i = CHR ''?''" | "s ! i = backslash"
    | "s ! i \<notin> {CHR ''['', CHR ''*'', CHR ''?'', backslash}" by blast
  then show ?thesis
  proof cases
    case 1
    with True run show ?thesis by (auto split: sum.splits intro: that(2))
  next
    case 2
    with True run show ?thesis by (intro that(3)) (auto simp: Let_def split: if_split_asm)
  next
    case 3
    with True run show ?thesis by (intro that(4)) auto
  next
    case 4
    with True run show ?thesis by (intro that(5)) (auto split: if_split_asm)
  next
    case 5
    with True run show ?thesis by (intro that(6)) auto
  qed
qed

lemma tokens_loop_induct [consumes 1, case_names stop bracket star any escape byte]:
  assumes run: "tokens_loop s i ts = Inr (ts', j)"
    and stop: "\<And>i ts. \<not> (i < length s \<and> s ! i \<noteq> slash) \<Longrightarrow> P i ts ts i"
    and bracket: "\<And>i ts cls k ts' j. i < length s \<Longrightarrow> s ! i = CHR ''['' \<Longrightarrow> parse_class s i = Inr (cls, k)
      \<Longrightarrow> tokens_loop s k (ts @ [Class cls]) = Inr (ts', j) \<Longrightarrow> P k (ts @ [Class cls]) ts' j \<Longrightarrow> P i ts ts' j"
    and star: "\<And>i ts ts' j. i < length s \<Longrightarrow> s ! i = CHR ''*'' \<Longrightarrow> star_run s i \<le> 2
      \<Longrightarrow> tokens_loop s (i + star_run s i) (if ts = [] \<or> last ts \<noteq> Star then ts @ [Star] else ts) = Inr (ts', j)
      \<Longrightarrow> P (i + star_run s i) (if ts = [] \<or> last ts \<noteq> Star then ts @ [Star] else ts) ts' j \<Longrightarrow> P i ts ts' j"
    and any: "\<And>i ts ts' j. i < length s \<Longrightarrow> s ! i = CHR ''?'' \<Longrightarrow> tokens_loop s (Suc i) (ts @ [AnyChar]) = Inr (ts', j)
      \<Longrightarrow> P (Suc i) (ts @ [AnyChar]) ts' j \<Longrightarrow> P i ts ts' j"
    and escape: "\<And>i ts ts' j. Suc i < length s \<Longrightarrow> s ! i = backslash \<Longrightarrow> s ! Suc i \<noteq> slash
      \<Longrightarrow> tokens_loop s (i + 2) (push_literal ts (s ! Suc i)) = Inr (ts', j)
      \<Longrightarrow> P (i + 2) (push_literal ts (s ! Suc i)) ts' j \<Longrightarrow> P i ts ts' j"
    and byte: "\<And>i ts ts' j. i < length s \<Longrightarrow> s ! i \<notin> {slash, CHR ''['', CHR ''*'', CHR ''?'', backslash}
      \<Longrightarrow> tokens_loop s (Suc i) (push_literal ts (s ! i)) = Inr (ts', j)
      \<Longrightarrow> P (Suc i) (push_literal ts (s ! i)) ts' j \<Longrightarrow> P i ts ts' j"
  shows "P i ts ts' j"
  using run
proof (induction "length s - i" arbitrary: i ts rule: less_induct)
  case less
  from less.prems show ?case
  proof (cases rule: tokens_loop_cases)
    case stop
    then show ?thesis using assms(2) by simp
  next
    case (bracket cls k)
    from parse_class_later [OF bracket(4)] bracket(1) have "length s - k < length s - i" by simp
    from assms(3) [OF bracket(1,3-5) less.hyps [OF this bracket(5)]] show ?thesis .
  next
    case star
    have "length s - (i + star_run s i) < length s - i" using star_run_pos [OF star(1,3)] star(1) by simp
    from assms(4) [OF star(1,3-5) less.hyps [OF this star(5)]] show ?thesis .
  next
    case any
    then have "length s - Suc i < length s - i" by simp
    from assms(5) [OF any(1,3,4) less.hyps [OF this any(4)]] show ?thesis .
  next
    case escape
    then have "length s - (i + 2) < length s - i" by simp
    from assms(6) [OF escape(1,3-5) less.hyps [OF this escape(5)]] show ?thesis .
  next
    case byte
    then have "length s - Suc i < length s - i" "s ! i \<notin> {slash, CHR ''['', CHR ''*'', CHR ''?'', backslash}" by auto
    from assms(7) [OF byte(1) this(2) byte(4) less.hyps [OF this(1) byte(4)]] show ?thesis .
  qed
qed

text \<open>The tokens of a segment, and what is left of the text.\<close>

lemma tokens_loop_ok:
  assumes "tokens_loop s i ts = Inr (ts', j)" "growing_ok ts (drop i s)" "i \<le> length s"
  shows "growing_ok ts' (drop j s) \<and> j \<le> length s \<and> (j < length s \<longrightarrow> s ! j = slash)"
  using assms
proof (induction rule: tokens_loop_induct)
  case (bracket i ts cls k ts' j)
  then show ?case using growing_class by blast
next
  case (star i ts ts' j)
  then show ?case using growing_star star_run_le [of i s] by simp
next
  case (any i ts ts' j)
  then show ?case using growing_any by simp
next
  case (escape i ts ts' j)
  then show ?case using growing_escape by simp
next
  case (byte i ts ts' j)
  then show ?case using growing_byte by simp
qed auto

section \<open>The segments of an arm\<close>

lemma merged_literals:
  assumes "merged ts" "list_all is_simple ts" "Star \<notin> set ts"
  shows "ts = [] \<or> (\<exists>t. ts = [Literal t])"
proof -
  have l: "\<exists>t. x = Literal t" if "x \<in> set ts" for x
    using that assms(2,3) unfolding list_all_iff by (metis Token.exhaust is_simple.simps(1,2))
  show ?thesis
  proof (cases ts)
    case (Cons a us)
    show ?thesis
    proof (cases us)
      case Nil
      then show ?thesis using l Cons by auto
    next
      case (Cons b vs)
      with \<open>ts = a # us\<close> l obtain t u where "a = Literal t" "b = Literal u" by force
      with assms(1) \<open>ts = a # us\<close> Cons show ?thesis by (simp add: merged_def)
    qed
  qed simp
qed

lemma merged_affix:
  assumes m: "merged ts" and s: "list_all is_simple ts" and one: "length (filter (\<lambda>t. t = Star) ts) = 1"
  shows "affix_shape ts"
proof -
  have "Star \<in> set ts"
  proof (rule ccontr)
    assume "Star \<notin> set ts"
    then have "filter (\<lambda>t. t = Star) ts = []" by (auto simp: filter_empty_conv)
    with one show False by simp
  qed
  then obtain pre suf where ts: "ts = pre @ Star # suf" "Star \<notin> set pre" by (meson split_list_first)
  then have "filter (\<lambda>t. t = Star) suf = []" using one by simp
  then have suf: "Star \<notin> set suf" by (auto simp: filter_empty_conv)
  have "merged pre" "merged suf" using m by (auto simp: ts(1) merged_def successively_append_iff successively_Cons)
  with merged_literals [of pre] merged_literals [of suf] ts suf s show ?thesis
    unfolding affix_shape_def by (intro exI [where x = pre] exI [where x = suf]) simp
qed

lemma segment_of_ok:
  assumes "list_all literal_ok ts" "merged ts" "recursive \<Longrightarrow> ts = [Star]"
  shows "segment_ok (segment_of ts recursive)"
proof (cases recursive)
  case True
  with assms(3) show ?thesis by (simp add: segment_ok_def segment_of_def)
next
  case False
  let ?n = "length (filter (\<lambda>t. t = Star) ts)"
  consider "\<not> list_all is_simple ts \<or> ?n > 1" | "list_all is_simple ts" "?n = 1" | "list_all is_simple ts" "?n = 0"
    by linarith
  then show ?thesis
  proof cases
    case 1
    then have "ts \<noteq> []" by auto
    with 1 False assms(1) show ?thesis by (simp add: segment_ok_def segment_of_def Let_def)
  next
    case 2
    with False assms(1) merged_affix [OF assms(2)] show ?thesis by (simp add: segment_ok_def segment_of_def Let_def)
  next
    case 3
    then have "Star \<notin> set ts" by (auto simp: filter_empty_conv)
    with 3 False assms(1) merged_literals [OF assms(2)] show ?thesis
      by (simp add: segment_ok_def segment_of_def Let_def)
  qed
qed

lemma push_literal_nonempty [simp]: "push_literal ts c \<noteq> []"
  by (auto simp: push_literal_def split: Token.split)

lemma tokens_loop_nonempty:
  assumes "tokens_loop s i ts = Inr (ts', j)" "i < j \<or> ts \<noteq> []"
  shows "ts' \<noteq> []"
  using assms by (induction rule: tokens_loop_induct) auto

lemma tokens_loop_strict:
  assumes "tokens_loop s i ts = Inr (ts', j)" "i < length s" "s ! i \<noteq> slash"
  shows "i < j"
  using assms
proof (cases rule: tokens_loop_cases)
  case (bracket cls k)
  then show ?thesis using parse_class_later tokens_loop_later by fastforce
next
  case star
  then show ?thesis using star_run_pos [of i s] tokens_loop_later [OF star(5)] by simp
qed (auto dest!: tokens_loop_later)

lemma recursive_tokens:
  assumes run: "tokens_loop s i [] = Inr (ts, j)" and t: "take (j - i) (drop i s) = ''**''" and j: "j \<le> length s"
  shows "ts = [Star]"
proof -
  have l: "j = i + 2" using arg_cong [OF t, of length] j by simp
  have at: "s ! i = CHR ''*''" "s ! Suc i = CHR ''*''"
    using t l j nth_take [of 0 2 "drop i s"] nth_take [of 1 2 "drop i s"] by (auto simp: numeral_2_eq_2)
  have d: "drop i s = CHR ''*'' # CHR ''*'' # drop (i + 2) s"
    using t l by (metis append_take_drop_id append_Cons append_Nil diff_add_inverse drop_drop add.commute)
  from run show ?thesis
  proof (cases rule: tokens_loop_cases)
    case star
    have "2 \<le> star_run s i" by (simp add: star_run_def d)
    with star(4) l have "i + star_run s i = j" by simp
    with star(5) have run': "tokens_loop s j [Star] = Inr (ts, j)" by simp
    then have "\<not> (j < length s \<and> s ! j \<noteq> slash)" using tokens_loop_strict by blast
    with run' show ?thesis by (simp add: tokens_loop.simps [of s j])
  qed (use at l j in auto)
qed

text \<open>An empty segment is at the end of the text or before a separator.\<close>

definition raw_segments :: "string \<Rightarrow> nat \<Rightarrow> Segment list \<Rightarrow> bool" where
  "raw_segments s b segs \<longleftrightarrow> segs \<noteq> [] \<and> list_all segment_ok segs
     \<and> (\<forall>k. Suc k < length segs \<and> is_recursive (segs ! k) \<and> \<not> is_recursive (segs ! Suc k)
          \<and> segment_tokens (segs ! Suc k) = [] \<longrightarrow> Suc (Suc k) = length segs)
     \<and> (segment_tokens (hd segs) = [] \<and> \<not> is_recursive (hd segs) \<longrightarrow> b = length s \<or> s ! b = slash)
     \<and> (b = length s \<longrightarrow> length segs = 1)"

lemma segments_loop_raw:
  assumes "segments_loop s a b = Inr segs" "well_formed False (drop b s)" "b \<le> length s"
  shows "raw_segments s b segs"
  using assms
proof (induction s a b arbitrary: segs rule: segments_loop.induct)
  case (1 s a b)
  obtain ts i where t: "tokens_loop s b [] = Inr (ts, i)"
    using "1.prems"(1) by (subst (asm) segments_loop.simps) (auto split: sum.splits)
  define rec where "rec \<longleftrightarrow> (b \<noteq> 0 \<or> a) \<and> take (i - b) (drop b s) = ''**''"
  define seg where "seg = segment_of ts rec"
  note run = "1.prems"(1) [unfolded segments_loop.simps [of s a b] t sum.case prod.case Let_def,
      folded rec_def, folded seg_def]
  have "growing_ok [] (drop b s)" using "1.prems"(2) by (simp add: growing_ok_def merged_def pending_def)
  from tokens_loop_ok [OF t this "1.prems"(3)]
  have g: "growing_ok ts (drop i s)" "i \<le> length s" "i < length s \<longrightarrow> s ! i = slash" by auto
  have c: "drop i s = [] \<or> (\<exists>c r. drop i s = c # r \<and> uchar c < 0x80)"
    using g(2,3) by (cases "i < length s") (auto simp: Cons_nth_drop_Suc [symmetric])
  note fin = growing_done [OF g(1) c]
  have ok: "segment_ok seg"
    unfolding seg_def by (rule segment_of_ok) (use fin g t recursive_tokens in \<open>auto simp: growing_ok_def rec_def\<close>)
  have empty: "b = length s \<or> s ! b = slash" if "segment_tokens seg = []" "\<not> is_recursive seg"
  proof (rule ccontr)
    assume n: "\<not> ?thesis"
    with "1.prems"(3) have "b < i" using tokens_loop_strict [OF t] by simp
    then have "ts \<noteq> []" using tokens_loop_nonempty [OF t] by simp
    with that show False by (auto simp: seg_def segment_of_def Let_def split: if_splits)
  qed
  show ?case
  proof (cases "i < length s")
    case False
    with run ok empty show ?thesis by (auto simp: raw_segments_def)
  next
    case True
    then have n: "\<not> (i + 1 \<noteq> length s \<and> s ! (i + 1) = slash)"
      using run by (auto split: if_splits)
    with True run obtain more where more: "segments_loop s a (i + 1) = Inr more" "segs = seg # more"
      by (auto split: sum.splits)
    have ih: "raw_segments s (i + 1) more"
      by (rule "1.IH" [OF t refl _ _ _ _ more(1)]) (use n True fin(3) more in \<open>auto simp: rec_def seg_def\<close>)
    have "b \<noteq> length s" using True tokens_loop_later [OF t] by simp
    moreover have "Suc (Suc k) = length segs" if k: "Suc k < length segs" "is_recursive (segs ! k)"
      "\<not> is_recursive (segs ! Suc k)" "segment_tokens (segs ! Suc k) = []" for k
    proof (cases k)
      case 0
      with k more(2) ih have "i + 1 = length s \<or> s ! (i + 1) = slash"
        by (auto simp: raw_segments_def hd_conv_nth)
      with n ih more(2) 0 show ?thesis by (auto simp: raw_segments_def)
    next
      case (Suc m)
      with k more(2) ih show ?thesis by (auto simp: raw_segments_def)
    qed
    ultimately show ?thesis using ih ok empty more(2) by (auto simp: raw_segments_def)
  qed
qed

section \<open>The backward pass\<close>

lemma trailing_star_snoc:
  "trailing_star (xs @ [l]) = xs @ [if xs \<noteq> [] \<and> is_recursive (last xs) \<and> segment_kind l = LiteralSegment
     \<and> segment_tokens l = [] then l\<lparr>segment_tokens := [Star], segment_kind := Affix\<rparr> else l]"
  by (cases xs rule: rev_exhaust) (simp_all add: trailing_star_def nth_append butlast_append)

lemma trailing_star_ok:
  assumes "raw_segments s b segs"
  shows "trailing_star segs \<noteq> []" "list_all segment_ok (trailing_star segs)"
    "\<And>k. Suc k < length (trailing_star segs) \<Longrightarrow> is_recursive (trailing_star segs ! k)
      \<Longrightarrow> \<not> is_recursive (trailing_star segs ! Suc k) \<Longrightarrow> segment_tokens (trailing_star segs ! Suc k) \<noteq> []"
proof -
  obtain xs l where s: "segs = xs @ [l]" using assms by (cases segs rule: rev_exhaust) (auto simp: raw_segments_def)
  have raw: "list_all segment_ok xs" "segment_ok l"
    "\<And>k. Suc k < length segs \<Longrightarrow> is_recursive (segs ! k) \<Longrightarrow> \<not> is_recursive (segs ! Suc k)
      \<Longrightarrow> segment_tokens (segs ! Suc k) = [] \<Longrightarrow> Suc (Suc k) = length segs"
    using assms by (auto simp: raw_segments_def s)
  define t where "t \<longleftrightarrow> xs \<noteq> [] \<and> is_recursive (last xs) \<and> segment_kind l = LiteralSegment \<and> segment_tokens l = []"
  define l' where "l' = (if t then l\<lparr>segment_tokens := [Star], segment_kind := Affix\<rparr> else l)"
  have ts: "trailing_star segs = xs @ [l']" by (simp add: s trailing_star_snoc l'_def t_def)
  then show "trailing_star segs \<noteq> []" by simp
  have "affix_shape [Star]" unfolding affix_shape_def by (intro exI [where x = "[]"]) simp
  with raw(1,2) show "list_all segment_ok (trailing_star segs)"
    by (simp add: ts l'_def t_def segment_ok_def literal_ok_def)
  fix k assume k: "Suc k < length (trailing_star segs)" "is_recursive (trailing_star segs ! k)"
    "\<not> is_recursive (trailing_star segs ! Suc k)"
  show "segment_tokens (trailing_star segs ! Suc k) \<noteq> []"
  proof (cases "Suc k < length xs")
    case True
    with raw(3) [of k, unfolded s] k [unfolded ts] show ?thesis unfolding ts by (auto simp: nth_append)
  next
    case False
    with k have e: "length xs = Suc k" by (simp add: ts)
    then have ne: "xs \<noteq> []" by auto
    with e have "last xs = xs ! k" by (simp add: last_conv_nth [OF ne])
    with ne have "is_recursive (last xs)" "\<not> is_recursive l'" "xs \<noteq> []"
      using e k by (auto simp: ts nth_append)
    with raw(2) have "segment_tokens l' \<noteq> []"
      by (auto simp: l'_def t_def segment_ok_def affix_shape_def split: SegmentKind.splits)
    with e show ?thesis by (simp add: ts nth_append)
  qed
qed

lemma segment_ok_update: "segment_ok (seg\<lparr>optional_rest := a, nullable := b\<rparr>) = segment_ok seg"
  by (simp add: segment_ok_def split: SegmentKind.split)

abbreviation same_segment :: "Segment \<Rightarrow> Segment \<Rightarrow> bool" where
  "same_segment a b \<equiv> segment_kind a = segment_kind b \<and> segment_tokens a = segment_tokens b"

lemma same_segments_match: "list_all2 same_segment as bs \<Longrightarrow> segments_match as is = segments_match bs is"
proof (induction as bs arbitrary: "is" rule: list_all2_induct)
  case (Cons a as b bs)
  then show ?case
    by (cases "is_recursive a") (simp_all add: segments_star segments_plain)
qed simp

text \<open>The two states of the pass: whether the segments match one empty segment, and nothing at all.\<close>

lemma nullable_pass_ok:
  assumes "nullable_pass segs = (segs', following_nullable, following_absorbs)" "list_all segment_ok segs"
  shows "list_all2 same_segment segs segs'
    \<and> list_all segment_ok segs'
    \<and> (\<forall>k<length segs'. nullable (segs' ! k) = segments_match (drop k segs') [[]]
        \<and> optional_rest (segs' ! k) = segments_match (drop (Suc k) segs') [])
    \<and> following_nullable = (segs = [] \<or> segments_match segs' [[]])
    \<and> following_absorbs = (segs \<noteq> [] \<and> segments_match segs' [])"
  using assms
proof (induction segs arbitrary: segs' following_nullable following_absorbs)
  case (Cons seg segs)
  obtain rest fn fa where r: "nullable_pass segs = (rest, fn, fa)" by (cases "nullable_pass segs") auto
  note ih = Cons.IH [OF r]
  have len: "rest = [] \<longleftrightarrow> segs = []" using ih Cons.prems(2) by (auto dest: list_all2_lengthD)
  define opt where "opt \<longleftrightarrow> segs = [] \<or> fa"
  define nul where "nul \<longleftrightarrow> (if is_recursive seg then segs = [] \<or> fn
    else opt \<and> list_all (\<lambda>t. t = Star) (segment_tokens seg))"
  define seg' where "seg' = seg\<lparr>optional_rest := opt, nullable := nul\<rparr>"
  have out: "segs' = seg' # rest" "following_nullable = nul" "following_absorbs = (is_recursive seg \<and> opt)"
    using Cons.prems(1) by (auto simp: r opt_def nul_def seg'_def Let_def)
  have same: "segment_kind seg' = segment_kind seg" "segment_tokens seg' = segment_tokens seg" "segment_ok seg'"
    using Cons.prems(2) by (simp_all add: seg'_def segment_ok_update)
  have o: "opt = segments_match rest []" using ih Cons.prems(2) len by (auto simp: opt_def)
  have n: "nul = segments_match (seg' # rest) [[]]"
  proof (cases "is_recursive seg")
    case True
    have "segments_match rest [[]]" if "segments_match rest []" "rest \<noteq> []"
      using segments_match_extra that by blast
    with True same ih Cons.prems(2) len show ?thesis by (auto simp: nul_def)
  next
    case False
    with same o Cons.prems(2) show ?thesis by (auto simp: nul_def segment_ok_def tokens_match_Nil)
  qed
  have "nullable (segs' ! k) = segments_match (drop k segs') [[]]
      \<and> optional_rest (segs' ! k) = segments_match (drop (Suc k) segs') []" if "k < length segs'" for k
  proof (cases k)
    case 0
    have "nullable seg' = nul" "optional_rest seg' = opt" by (simp_all add: seg'_def)
    with 0 n o show ?thesis by (simp only: out nth_Cons_0 drop0 drop_Suc_Cons)
  next
    case (Suc m)
    with that ih Cons.prems(2) show ?thesis by (simp add: out)
  qed
  moreover have "following_absorbs = segments_match segs' []" using same o by (simp add: out)
  ultimately show ?case using ih Cons.prems(2) same n by (simp add: out)
qed auto

lemma compile_arm_ok:
  assumes "compile_arm big s start = Inr arm" "well_formed False s"
  obtains segs where "segments_loop s start 0 = Inr segs" "arm_ok big arm"
    "\<And>is. segments_match (arm_segments arm) is = segments_match (trailing_star segs) is"
proof -
  obtain segs where segs: "segments_loop s start 0 = Inr segs"
    using assms(1) by (auto simp: compile_arm_def split: sum.splits)
  obtain segs' fn fa where p: "nullable_pass (trailing_star segs) = (segs', fn, fa)"
    by (cases "nullable_pass (trailing_star segs)") auto
  have arm: "arm = arm_of big segs' fa" using assms(1) by (simp add: compile_arm_def segs p)
  have raw: "raw_segments s 0 segs" using segments_loop_raw [OF segs] assms(2) by simp
  note t = trailing_star_ok [OF raw]
  note n = nullable_pass_ok [OF p t(2)]
  have same: "list_all2 same_segment (trailing_star segs) segs'" using n by blast
  have len: "length (trailing_star segs) = length segs'" using list_all2_lengthD [OF same] .
  have "segments_ok segs'"
    unfolding segments_ok_def
  proof (intro conjI allI impI)
    show "segs' \<noteq> []" using len t(1) by auto
    show "list_all segment_ok segs'" using n by blast
    fix k assume "Suc k < length segs' \<and> is_recursive (segs' ! k) \<and> \<not> is_recursive (segs' ! Suc k)"
    then show "segment_tokens (segs' ! Suc k) \<noteq> []"
      using t(3) [of k] list_all2_nthD2 [OF same, of k] list_all2_nthD2 [OF same, of "Suc k"] len by simp
  qed (use n in auto)
  moreover have "fa = segments_match segs' []" using n t(1) by simp
  ultimately show thesis
    using that [OF segs] same_segments_match [OF same] by (auto simp: arm_ok_def arm)
qed

end
