(* ===== verification/Glob_Create.thy ===== *)
theory Glob_Create
  imports Glob_Compile
begin

text \<open>
  Creating a glob pattern: the braces and their choices, the literal prefix, and the theorems that
  a created pattern matches what the brace expansions of its text match.
\<close>

section \<open>The choices of the braces\<close>

fun all_choices :: "nat list \<Rightarrow> nat list list" where
  "all_choices [] = [[]]"
| "all_choices (n # counts) = concat (map (\<lambda>c. map ((#) c) (all_choices counts)) [0..<n])"

fun choices_from :: "nat list \<Rightarrow> nat list \<Rightarrow> nat list list" where
  "choices_from (c # choice) (n # counts) =
     map ((#) c) (choices_from choice counts)
     @ concat (map (\<lambda>d. map ((#) d) (all_choices counts)) [Suc c..<n])"
| "choices_from choice counts = [[]]"

lemma choices_from_zero: "list_all ((<) 0) counts \<Longrightarrow> choices_from (replicate (length counts) 0) counts = all_choices counts"
  by (induction counts) (auto simp: upt_conv_Cons)

text \<open>\<^verbatim>\<open>next_choice\<close> steps through the choices and ends back at the first.\<close>

lemma next_choice_steps:
  assumes "list_all2 (<) choice counts"
  shows "(case next_choice choice counts of (go, later) \<Rightarrow>
    list_all2 (<) later counts
    \<and> (if go then choices_from choice counts = choice # choices_from later counts
       else choices_from choice counts = [choice] \<and> later = replicate (length counts) 0))"
  using assms
proof (induction rule: list_all2_induct)
  case (Cons c choice n counts)
  obtain go nx where s: "next_choice choice counts = (go, nx)" by (cases "next_choice choice counts")
  have pos: "list_all ((<) 0) counts" using Cons(2)
    by (auto simp: list_all_length dest: list_all2_lengthD) (metis gr_zeroI list_all2_nthD2 not_less_zero)
  show ?case
  proof (cases "go \<or> c + 1 \<noteq> n")
    case True
    then show ?thesis using Cons s choices_from_zero [OF pos]
      by (auto simp: upt_conv_Cons split: if_splits)
  next
    case False
    then show ?thesis using Cons s by (auto split: if_splits)
  qed
qed simp

lemma choices_from_Nil [simp]: "choices_from choice counts \<noteq> []"
  by (induction choice counts rule: choices_from.induct) auto

section \<open>The loop over the arms\<close>

text \<open>What the loop does, choice by choice.\<close>

fun compile_arms ::
    "bool \<Rightarrow> string \<Rightarrow> nat \<Rightarrow> Brace list \<Rightarrow> bool \<Rightarrow> bool \<Rightarrow> bool \<Rightarrow> nat list list \<Rightarrow> Arm list \<Rightarrow> bool
      \<Rightarrow> GlobError + Arm list \<times> bool" where
  "compile_arms big s b braces seg_end start root [] compiled match_all = Inr (compiled, match_all)"
| "compile_arms big s b braces seg_end start root (choice # choices) compiled match_all =
     (let pieces = arm_pieces s b braces choice in
      if seg_end \<and> starts_with (arm_text pieces) ''/''
      then Inl (glob_error MultipleSlash (b - 1) (origin pieces 0 + 1) ''multiple `/` is not allowed'')
      else case compile_arm big (arm_text pieces) start of
        Inl e \<Rightarrow> Inl (rebase pieces e)
      | Inr arm \<Rightarrow> compile_arms big s b braces seg_end start root choices (compiled @ [arm])
          (match_all \<or> root \<and> arm_text pieces \<in> {''**'', ''**/''}))"

lemma arms_loop_choices:
  assumes "list_all2 (<) choice (term_counts braces)"
  shows "arms_loop big s b braces seg_end start root choice compiled match_all
    = Some (compile_arms big s b braces seg_end start root (choices_from choice (term_counts braces)) compiled match_all)"
  using assms
proof (induction "length (choices_from choice (term_counts braces))" arbitrary: choice compiled match_all rule: less_induct)
  case less
  let ?counts = "term_counts braces"
  obtain go nx where s: "next_choice choice ?counts = (go, nx)" by (cases "next_choice choice ?counts")
  note n = next_choice_steps [OF less.prems, unfolded s prod.case]
  show ?case
  proof (cases go)
    case True
    with n have "length (choices_from nx ?counts) < length (choices_from choice ?counts)" "list_all2 (<) nx ?counts" by auto
    from less.hyps [OF this] True n s show ?thesis
      by (subst arms_loop.simps) (simp add: Let_def split: sum.split)
  next
    case False
    with n s show ?thesis by (subst arms_loop.simps) (simp add: Let_def split: sum.split)
  qed
qed

lemma compile_arms_all:
  assumes "compile_arms big s b braces seg_end start root choices compiled match_all = Inr (as, all)"
  shows "\<exists>new. as = compiled @ new
    \<and> list_all2 (\<lambda>choice arm. compile_arm big (arm_text (arm_pieces s b braces choice)) start = Inr arm
        \<and> \<not> (seg_end \<and> starts_with (arm_text (arm_pieces s b braces choice)) ''/'')) choices new
    \<and> (all \<longleftrightarrow> match_all \<or> root \<and> (\<exists>choice\<in>set choices. arm_text (arm_pieces s b braces choice) \<in> {''**'', ''**/''}))"
  using assms
proof (induction choices arbitrary: compiled match_all)
  case (Cons choice choices)
  let ?t = "arm_text (arm_pieces s b braces choice)"
  obtain arm where a: "compile_arm big ?t start = Inr arm" "\<not> (seg_end \<and> starts_with ?t ''/'')"
    "compile_arms big s b braces seg_end start root choices (compiled @ [arm])
       (match_all \<or> root \<and> ?t \<in> {''**'', ''**/''}) = Inr (as, all)"
    using Cons.prems by (auto simp: Let_def split: if_splits sum.splits)
  from Cons.IH [OF a(3)] obtain new where new: "as = (compiled @ [arm]) @ new"
    "list_all2 (\<lambda>choice arm. compile_arm big (arm_text (arm_pieces s b braces choice)) start = Inr arm
        \<and> \<not> (seg_end \<and> starts_with (arm_text (arm_pieces s b braces choice)) ''/'')) choices new"
    "all \<longleftrightarrow> (match_all \<or> root \<and> ?t \<in> {''**'', ''**/''})
       \<or> root \<and> (\<exists>choice\<in>set choices. arm_text (arm_pieces s b braces choice) \<in> {''**'', ''**/''})"
    by blast
  with a(1,2) show ?case by (intro exI [where x = "arm # new"]) auto
qed simp

section \<open>The braces\<close>

definition brace_ok :: "string \<Rightarrow> nat \<Rightarrow> Brace \<Rightarrow> bool" where
  "brace_ok s b brace \<longleftrightarrow> b \<le> brace_begin brace \<and> brace_begin brace < length s \<and> s ! brace_begin brace = CHR ''{''
     \<and> brace_terms brace \<noteq> [] \<and> (\<forall>t\<in>set (brace_terms brace). well_formed False (snd t))
     \<and> well_formed False (drop (brace_end brace) s)"

lemma well_formed_view:
  assumes "well_formed False (drop a s)" "i < length s" "uchar (s ! i) < 0x80"
  shows "well_formed False (snd (view_of s a i))"
  using well_formed_drop_ascii(1) [OF assms(1) _ assms(2,3)] by (cases "a \<le> i") (simp_all add: view_of_def)

lemma braces_loop_ok:
  assumes "braces_loop s i braces open term_begin = Inr braces'" "well_formed False s" "b \<le> i" "i \<le> length s"
    "list_all (brace_ok s b) braces"
    "case open of None \<Rightarrow> True | Some (p, terms) \<Rightarrow> b \<le> p \<and> p < length s \<and> s ! p = CHR ''{''
       \<and> (\<forall>t\<in>set terms. well_formed False (snd t)) \<and> well_formed False (drop term_begin s)"
  shows "list_all (brace_ok s b) braces'"
  using assms
proof (induction s i braces "open" term_begin rule: braces_loop.induct)
  case (1 s i braces "open" tb)
  note run = "1.prems"(1) [unfolded braces_loop.simps [of s i]]
  have ascii: "well_formed False (drop (Suc i) s)" if "i < length s" "uchar (s ! i) < 0x80"
    using well_formed_drop_ascii(2) [of 0 s i] "1.prems"(2) that by simp
  have view: "well_formed False (snd (view_of s tb i))"
    if "i < length s" "uchar (s ! i) < 0x80" "well_formed False (drop tb s)"
    using well_formed_view that by blast
  show ?case
  proof (cases "i < length s")
    case False
    with run "1.prems"(5) show ?thesis by (auto split: option.splits)
  next
    case i: True
    consider "s ! i = CHR ''[''" | "s ! i = CHR ''{''" | "s ! i = CHR '',''" | "s ! i = CHR ''}''" | "s ! i = backslash"
      | "s ! i \<noteq> CHR ''[''" "s ! i \<noteq> CHR ''{''" "s ! i \<noteq> CHR '',''" "s ! i \<noteq> CHR ''}''" "s ! i \<noteq> backslash" by blast
    then show ?thesis
    proof cases
      case 1
      then obtain j where j: "scan_bracket s i = Inr j" "braces_loop s (j + 1) braces open tb = Inr braces'"
        using run i by (auto split: sum.splits)
      from scan_bracket_close [OF j(1) i] "1.IH"(1) [OF i 1 j] "1.prems" show ?thesis by simp
    next
      case 2
      then have "open = None" using run i by (cases "open") auto
      then have o: "open = None" "braces_loop s (i + 1) braces (Some (i, [])) (i + 1) = Inr braces'"
        using 2 run i by simp_all
      with "1.IH"(2) i 2 "1.prems" ascii show ?thesis by simp
    next
      case 3
      show ?thesis
      proof (cases "open")
        case None
        with 3 run i "1.IH"(3) "1.prems" show ?thesis by simp
      next
        case (Some p)
        obtain b' terms where p: "p = (b', terms)" by (cases p)
        with 3 run i Some have r: "braces_loop s (i + 1) braces (Some (b', terms @ [view_of s tb i])) (i + 1) = Inr braces'"
          by simp
        from "1.IH"(4) [OF i _ _ 3 Some p [symmetric] r] 3 "1.prems" Some p view ascii i show ?thesis by simp
      qed
    next
      case 4
      show ?thesis
      proof (cases "open")
        case None
        with 4 run i "1.IH"(5) "1.prems" show ?thesis by simp
      next
        case (Some p)
        obtain b' terms where p: "p = (b', terms)" by (cases p)
        with 4 run i Some have r: "\<not> (terms = [] \<and> i = tb)"
          "braces_loop s (i + 1) (braces @ [\<lparr>brace_begin = b', brace_end = i + 1,
             brace_terms = terms @ [view_of s tb i]\<rparr>]) None tb = Inr braces'"
          by (auto split: if_splits)
        from "1.IH"(6) [OF i _ _ _ 4 Some p [symmetric] r] 4 "1.prems" Some p view ascii i show ?thesis
          by (simp add: brace_ok_def)
      qed
    next
      case 5
      then have o: "i + 1 \<noteq> length s" "braces_loop s (i + 2) braces open tb = Inr braces'"
        using run i by (auto split: if_splits)
      with "1.IH"(7) i 5 "1.prems" show ?thesis by simp
    next
      case 6
      with "1.IH"(8) [OF i 6] run i "1.prems" show ?thesis by simp
    qed
  qed
qed

lemma parse_braces_ok:
  assumes "parse_braces s b = Inr braces" "well_formed False s" "b \<le> length s"
  shows "list_all (brace_ok s b) braces"
  by (rule braces_loop_ok [OF assms(1) [unfolded parse_braces_def]]) (use assms in simp_all)

lemma create_braces_ok:
  assumes "create_braces s b n = Inr braces" "well_formed False s" "b \<le> length s"
  shows "list_all (brace_ok s b) braces"
  using assms parse_braces_ok by (auto simp: create_braces_def split: if_splits sum.splits)

text \<open>Every arm is cut out of the pattern at ASCII bytes, so it is UTF-8 too.\<close>

lemma arm_text_well_formed:
  assumes "well_formed False s" "well_formed False (drop b s)" "list_all (brace_ok s c) braces"
    "list_all2 (<) choice (term_counts braces)"
  shows "well_formed False (arm_text (arm_pieces s b braces choice))"
  using assms
proof (induction s b braces choice rule: arm_pieces.induct)
  case (1 s b brace braces k choice)
  then have "brace_ok s c brace" "k < length (brace_terms brace)" by (auto simp: term_counts_def)
  moreover from this have "well_formed False (snd (view_of s b (brace_begin brace)))"
    using well_formed_view [OF 1(3)] by (simp add: brace_ok_def)
  moreover have "well_formed False (arm_text (arm_pieces s (brace_end brace) braces choice))"
    using 1 by (auto simp: brace_ok_def term_counts_def)
  ultimately show ?case
    by (auto simp: arm_text_def brace_ok_def intro!: well_formed_append)
qed (auto simp: arm_text_def)

text \<open>The pieces of an arm from the front of the pattern: the literal head stays in front.\<close>

lemma arm_text_from:
  assumes "list_all (brace_ok s b) braces" "b \<le> length s"
  shows "arm_text (arm_pieces s 0 braces choice) = take b s @ arm_text (arm_pieces s b braces choice)"
proof (cases "\<exists>brace bs c cs. braces = brace # bs \<and> choice = c # cs")
  case True
  then obtain brace bs c cs where p: "braces = brace # bs" "choice = c # cs" by auto
  then have "b \<le> brace_begin brace" using assms by (simp add: brace_ok_def)
  then have "take (brace_begin brace) s = take b s @ take (brace_begin brace - b) (drop b s)"
    by (metis append_take_drop_id le_add_diff_inverse take_add)
  with p show ?thesis by (simp add: arm_text_def view_of_def)
next
  case False
  then have "arm_pieces s k braces choice = [(k, drop k s)]" for k by (cases braces; cases choice) auto
  then show ?thesis by (simp add: arm_text_def)
qed

section \<open>Compiling a text behind another\<close>

lemma scan_members_shift:
  "scan_members s j = Inr k \<Longrightarrow> scan_members (p @ s) (length p + j) = Inr (length p + k)"
proof (induction s j rule: scan_members.induct)
  case (1 s j)
  from "1.prems" show ?case
    by (subst (asm) scan_members.simps, subst scan_members.simps)
      (use 1 in \<open>auto simp: nth_append split: if_splits\<close>)
qed

lemma scan_bracket_shift:
  assumes "scan_bracket s i = Inr j"
  shows "scan_bracket (p @ s) (length p + i) = Inr (length p + j)"
proof -
  define m where "m = (\<lambda>s i. let j = i + 1; j = (if s ! j = CHR ''!'' \<or> s ! j = CHR ''^'' then j + 1 else j)
    in if j \<noteq> length s \<and> s ! j = CHR '']'' then j + 1 else j)"
  have iff: "scan_bracket s i = Inr j \<longleftrightarrow> Suc i \<noteq> length s \<and> scan_members s (m s i) = Inr j \<and> j \<noteq> length s" for s i j
  proof -
    define u :: "GlobError + nat" where "u = Inl (glob_error UnmatchedBracket i (i + 1) ''unmatched `[`'')"
    have "scan_bracket s i = (if i + 1 = length s then u else case scan_members s (m s i) of
        Inl e \<Rightarrow> Inl e | Inr j \<Rightarrow> if j = length s then u else Inr j)"
      by (simp only: scan_bracket_def m_def u_def Let_def)
    then show ?thesis by (auto simp: u_def split: sum.splits)
  qed
  have at: "(p @ s) ! Suc (length p + k) = s ! Suc k" "(p @ s) ! Suc (Suc (length p + k)) = s ! Suc (Suc k)" for k
    by (simp_all add: nth_append)
  have "m (p @ s) (length p + i) = length p + m s i" by (auto simp: m_def Let_def at)
  with assms scan_members_shift [of s "m s i" j p] show ?thesis by (simp add: iff)
qed

lemma parse_class_shift:
  assumes "parse_class s i = Inr (cls, j)"
  shows "parse_class (p @ s) (length p + i) = Inr (cls, length p + j)"
proof -
  obtain k where k: "scan_bracket s i = Inr k" "j = Suc k"
    using assms by (auto simp: parse_class_def Let_def split: sum.splits if_splits)
  have "take (length p + k - (length p + i) - 1) (drop (length p + i + 1) (p @ s)) = take (k - i - 1) (drop (i + 1) s)"
    by simp
  with assms k scan_bracket_shift [OF k(1), of p] show ?thesis
    by (auto simp: parse_class_def Let_def split: sum.splits if_splits)
qed

lemma star_run_shift [simp]: "star_run (p @ s) (length p + i) = star_run s i"
  by (simp add: star_run_def)

lemma tokens_loop_shift:
  assumes "tokens_loop s i ts = Inr (ts', j)"
  shows "tokens_loop (p @ s) (length p + i) ts = Inr (ts', length p + j)"
  using assms
proof (induction rule: tokens_loop_induct)
  case (stop i ts)
  then show ?case by (subst tokens_loop.simps) (auto simp: nth_append)
next
  case (bracket i ts cls k ts' j)
  with parse_class_shift [OF bracket(3), of p] show ?case
    by (subst tokens_loop.simps) (simp add: nth_append)
next
  case (star i ts ts' j)
  then show ?case by (subst tokens_loop.simps) (simp add: nth_append add.assoc Let_def)
next
  case (any i ts ts' j)
  then show ?case by (subst tokens_loop.simps) (simp add: nth_append)
next
  case (escape i ts ts' j)
  then show ?case by (subst tokens_loop.simps) (simp add: nth_append)
next
  case (byte i ts ts' j)
  then show ?case by (subst tokens_loop.simps) (simp add: nth_append)
qed

text \<open>The loop over the segments, one segment at a time.\<close>

lemma segments_loop_step:
  fixes start :: bool
  assumes "tokens_loop s b [] = Inr (ts, i)"
  defines "seg \<equiv> segment_of ts ((b \<noteq> 0 \<or> start) \<and> take (i - b) (drop b s) = ''**'')"
  shows "segments_loop s start b = Inr segs \<longleftrightarrow>
    (if i < length s
     then \<not> (Suc i \<noteq> length s \<and> s ! Suc i = slash)
       \<and> (\<exists>more. segments_loop s start (Suc i) = Inr more \<and> segs = seg # more)
     else segs = [seg])"
  by (subst segments_loop.simps) (auto simp: assms Let_def split: sum.split)

lemma segments_loop_tokens:
  assumes "segments_loop s start b = Inr segs"
  obtains ts i where "tokens_loop s b [] = Inr (ts, i)"
  using assms by (subst (asm) segments_loop.simps) (auto split: sum.splits)

lemma segments_loop_shift:
  assumes "segments_loop s start b = Inr segs" "b \<noteq> 0 \<or> start"
  shows "segments_loop (p @ s) True (length p + b) = Inr segs"
  using assms
proof (induction s start b arbitrary: segs rule: segments_loop.induct)
  case (1 s start b)
  obtain ts i where t: "tokens_loop s b [] = Inr (ts, i)" by (rule segments_loop_tokens [OF "1.prems"(1)])
  note t' = tokens_loop_shift [OF t, of p]
  have "take (length p + i - (length p + b)) (drop (length p + b) (p @ s)) = take (i - b) (drop b s)" by simp
  then show ?case
    using "1.prems" "1.IH" [OF t refl] unfolding segments_loop_step [OF t'] segments_loop_step [OF t]
    by (auto simp: nth_append split: if_splits)
qed

section \<open>The literal head\<close>

lemma literal_head_induct [consumes 1, case_names Nil escape byte]:
  assumes "literal_head u = (x, length u)" "P [] []"
    and "\<And>d u x. d \<noteq> slash \<Longrightarrow> literal_head u = (x, length u) \<Longrightarrow> P u x \<Longrightarrow> P (backslash # d # u) (d # x)"
    and "\<And>c u x. c \<notin> set wildcards \<Longrightarrow> c \<noteq> backslash \<Longrightarrow> literal_head u = (x, length u) \<Longrightarrow> P u x \<Longrightarrow> P (c # u) (c # x)"
  shows "P u x"
  using assms(1)
proof (induction u arbitrary: x rule: literal_head.induct)
  case 1
  then show ?case by (simp add: assms(2))
next
  case (2 c u)
  have n: "c \<notin> set wildcards" using "2.prems" by (auto split: if_splits)
  show ?case
  proof (cases "c = backslash")
    case True
    obtain d v where u: "u = d # v" "d \<noteq> slash" using "2.prems" True n by (cases u) (auto split: if_splits)
    obtain y k where y: "literal_head v = (y, k)" by (cases "literal_head v")
    have h: "x = d # y" "k = length v" using "2.prems" True n u y by auto
    have "P v y" by (rule "2.IH"(1) [OF n True u]) (simp add: y h)
    with assms(3) [OF u(2), of v y] True u h y show ?thesis by simp
  next
    case False
    obtain y k where y: "literal_head u = (y, k)" by (cases "literal_head u")
    have h: "x = c # y" "k = length u" using "2.prems" False n y by auto
    have "P u y" by (rule "2.IH"(2) [OF n False]) (simp add: y h)
    with assms(4) [OF n False, of u y] h y show ?thesis by simp
  qed
qed

lemma literal_head_escape: "d \<noteq> slash \<Longrightarrow> literal_head u = (x, length u) \<Longrightarrow> literal_head (backslash # d # u) = (d # x, length u + 2)"
  by (simp add: wildcards_def)

lemma literal_head_byte: "c \<notin> set wildcards \<Longrightarrow> c \<noteq> backslash \<Longrightarrow> literal_head u = (x, length u)
    \<Longrightarrow> literal_head (c # u) = (c # x, length u + 1)"
  by simp

text \<open>The bytes up to where the head ends are a text that is all head.\<close>

lemma literal_head_take: "literal_head s = (x, n) \<Longrightarrow> n \<le> length s \<and> literal_head (take n s) = (x, n)"
proof (induction s arbitrary: x n rule: literal_head.induct)
  case (2 c s)
  show ?case
  proof (cases "c \<in> set wildcards")
    case False
    show ?thesis
    proof (cases "c = backslash")
      case True
      show ?thesis
      proof (cases s)
        case (Cons d v)
        obtain y k where "literal_head v = (y, k)" by (cases "literal_head v")
        with 2 True False Cons show ?thesis by (auto split: if_splits)
      qed (use 2 True False in auto)
    next
      case no: False
      obtain y k where "literal_head s = (y, k)" by (cases "literal_head s")
      with 2 no False show ?thesis by auto
    qed
  qed (use 2 in auto)
qed simp

lemma literal_head_stop:
  assumes "literal_head s = (x, n)" "n < length s"
  shows "s ! n \<in> set wildcards \<union> {backslash}"
  using assms
proof (induction s arbitrary: x n rule: literal_head.induct)
  case (2 c s)
  show ?case
  proof (cases "c \<in> set wildcards")
    case False
    show ?thesis
    proof (cases "c = backslash")
      case True
      show ?thesis
      proof (cases s)
        case (Cons d v)
        obtain y k where "literal_head v = (y, k)" by (cases "literal_head v")
        with 2 True False Cons show ?thesis by (auto split: if_splits)
      qed (use 2 True False in auto)
    next
      case no: False
      obtain y k where "literal_head s = (y, k)" by (cases "literal_head s")
      with 2 no False show ?thesis by auto
    qed
  qed (use 2 in auto)
qed simp

lemma literal_head_well_formed:
  assumes "literal_head u = (x, length u)" "well_formed False (v @ u)"
  shows "well_formed False (v @ x)"
  using assms
proof (induction arbitrary: v rule: literal_head_induct)
  case (escape d u x)
  have "well_formed False ((v @ [d]) @ u)" using escape.prems well_formed_remove [of v backslash] by simp
  from escape.IH [OF this] show ?case by simp
next
  case (byte c u x)
  from byte.IH [of "v @ [c]"] byte.prems show ?case by simp
qed simp

lemma literal_head_Nil: "literal_head u = ([], length u) \<Longrightarrow> u = []"
  by (cases u) (auto split: if_splits list.splits prod.splits)

lemma literal_head_not_star: "literal_head u = (x, length u) \<Longrightarrow> take 2 u \<noteq> ''**''"
  by (cases u) (auto simp: wildcards_def)

lemma literal_tokens:
  assumes "literal_head u = (x, length u)" "slash \<notin> set x"
  shows "tokens_loop (p @ u @ a) (length p) ts = tokens_loop (p @ u @ a) (length p + length u) (foldl push_literal ts x)"
  using assms
proof (induction arbitrary: p ts rule: literal_head_induct)
  case (escape d u x)
  have "tokens_loop (p @ (backslash # d # u) @ a) (length p) ts
      = tokens_loop (p @ (backslash # d # u) @ a) (length p + 2) (push_literal ts d)"
    by (subst tokens_loop.simps) (use escape in \<open>simp add: nth_append\<close>)
  with escape.IH [of "p @ [backslash, d]"] escape.prems show ?case by simp
next
  case (byte c u x)
  have "tokens_loop (p @ (c # u) @ a) (length p) ts = tokens_loop (p @ (c # u) @ a) (length p + 1) (push_literal ts c)"
    by (subst tokens_loop.simps) (use byte in \<open>auto simp: nth_append wildcards_def\<close>)
  with byte.IH [of "p @ [c]"] byte.prems show ?case by simp
qed simp

definition literal_tokens_of :: "string \<Rightarrow> Token list" where
  "literal_tokens_of x = (if x = [] then [] else [Literal x])"

lemma push_literals: "foldl push_literal (literal_tokens_of x) y = literal_tokens_of (x @ y)"
proof (induction y arbitrary: x)
  case (Cons c y)
  have "push_literal (literal_tokens_of x) c = literal_tokens_of (x @ [c])"
    by (simp add: literal_tokens_of_def push_literal_def)
  with Cons show ?case by simp
qed simp

lemma literal_head_slash:
  assumes "literal_head u = (x, length u)" "slash \<in> set x"
  shows "\<exists>u1 u2 x1 x2. u = u1 @ slash # u2 \<and> literal_head u1 = (x1, length u1) \<and> slash \<notin> set x1
    \<and> literal_head u2 = (x2, length u2) \<and> x = x1 @ slash # x2"
  using assms
proof (induction rule: literal_head_induct)
  case (escape d u x)
  then obtain u1 u2 x1 x2 where "u = u1 @ slash # u2" "literal_head u1 = (x1, length u1)" "slash \<notin> set x1"
    "literal_head u2 = (x2, length u2)" "x = x1 @ slash # x2" by auto
  with escape(1) literal_head_escape [OF escape(1), of u1 x1] show ?case
    by (intro exI [where x = "backslash # d # u1"] exI [where x = u2] exI [where x = "d # x1"] exI [where x = x2])
      (simp add: wildcards_def)
next
  case (byte c u x)
  show ?case
  proof (cases "c = slash")
    case True
    with byte show ?thesis by (intro exI [where x = "[]"] exI [where x = u] exI [where x = x]) simp
  next
    case False
    with byte obtain u1 u2 x1 x2 where "u = u1 @ slash # u2" "literal_head u1 = (x1, length u1)" "slash \<notin> set x1"
      "literal_head u2 = (x2, length u2)" "x = x1 @ slash # x2" by auto
    with byte(1,2) False show ?thesis
      by (intro exI [where x = "c # u1"] exI [where x = u2] exI [where x = "c # x1"] exI [where x = x2]) simp
  qed
qed simp

section \<open>The segments of the literal head\<close>

definition literal_segment_of :: "string \<Rightarrow> Segment" where
  "literal_segment_of t = segment_of (literal_tokens_of t) False"

lemma literal_segment_of_simps [simp]:
  "\<not> is_recursive (literal_segment_of t)" "segment_tokens (literal_segment_of t) = literal_tokens_of t"
  by (simp_all add: literal_segment_of_def segment_of_def Let_def)

text \<open>One whole segment of the head, and the separator after it.\<close>

lemma literal_segment_step:
  assumes u: "literal_head u = (t, length u)" "slash \<notin> set t" and s: "s = p @ u @ slash # a"
    and a: "a = [] \<or> hd a \<noteq> slash" and more: "segments_loop s True (length p + length u + 1) = Inr segs"
  shows "segments_loop s True (length p) = Inr (literal_segment_of t # segs)"
proof -
  have "tokens_loop s (length p) [] = tokens_loop s (length p + length u) (literal_tokens_of t)"
    using literal_tokens [OF u, of p "slash # a" "[]"] push_literals [of "[]" t] s by (simp add: literal_tokens_of_def)
  also have "\<dots> = Inr (literal_tokens_of t, length p + length u)"
    by (subst tokens_loop.simps) (simp add: s nth_append)
  finally have run: "tokens_loop s (length p) [] = Inr (literal_tokens_of t, length p + length u)" .
  have "take (length u) (drop (length p) s) = u" by (simp add: s)
  then have no: "take (length p + length u - length p) (drop (length p) s) \<noteq> ''**''"
    using literal_head_not_star [OF u(1)] by auto
  have at: "Suc (length p + length u) = length s \<longleftrightarrow> a = []" "a \<noteq> [] \<Longrightarrow> s ! Suc (length p + length u) = hd a"
    by (simp_all add: s nth_append hd_conv_nth)
  show ?thesis using a more at no unfolding segments_loop_step [OF run]
    by (auto simp: s literal_segment_of_def)
qed

definition no_double :: "string \<Rightarrow> bool" where
  "no_double w \<longleftrightarrow> (\<forall>i. Suc i < length w \<longrightarrow> \<not> (w ! i = slash \<and> w ! Suc i = slash))"

lemma no_double_append: "no_double (v @ w) \<Longrightarrow> no_double w"
  unfolding no_double_def by (metis add_Suc_right length_append nat_add_left_cancel_less nth_append_length_plus)

lemma no_double_cons: "no_double (v @ slash # w) \<Longrightarrow> w = [] \<or> hd w \<noteq> slash"
  unfolding no_double_def by (cases w) (auto dest!: spec [of _ "length v"] simp: nth_append)

lemma path_segments_append:
  "path_segments (x @ r) = butlast (path_segments x) @ (last (path_segments x) @ hd (path_segments r)) # tl (path_segments r)"
proof (induction x rule: path_induct)
  case (single p)
  then show ?case by (induction p) (auto simp: path_segments_single)
qed (simp add: path_segments_front)

text \<open>All of the segments of the head but the last, which the arm's first segment completes.\<close>

lemma head_segments:
  assumes "literal_head u = (x, length u)"
  shows "\<exists>u1 u2. u = u1 @ u2 \<and> literal_head u2 = (last (path_segments x), length u2)
    \<and> (\<forall>p a segs. no_double (u @ take 1 a) \<longrightarrow> segments_loop (p @ u @ a) True (length p + length u1) = Inr segs
         \<longrightarrow> segments_loop (p @ u @ a) True (length p)
             = Inr (map literal_segment_of (butlast (path_segments x)) @ segs))"
  using assms
proof (induction "length u" arbitrary: u x rule: less_induct)
  case less
  show ?case
  proof (cases "slash \<in> set x")
    case False
    then show ?thesis using less.prems
      by - (rule exI [where x = "[]"], rule exI [where x = u], simp add: path_segments_single)
  next
    case True
    from literal_head_slash [OF less.prems True] obtain v1 v2 x1 x2 where
      v: "u = v1 @ slash # v2" "literal_head v1 = (x1, length v1)" "slash \<notin> set x1"
        "literal_head v2 = (x2, length v2)" "x = x1 @ slash # x2" by auto
    from less.hyps [OF _ v(4)] v(1) obtain u1 u2 where
      ih: "v2 = u1 @ u2" "literal_head u2 = (last (path_segments x2), length u2)"
        "\<And>p a segs. no_double (v2 @ take 1 a) \<Longrightarrow> segments_loop (p @ v2 @ a) True (length p + length u1) = Inr segs
         \<Longrightarrow> segments_loop (p @ v2 @ a) True (length p)
             = Inr (map literal_segment_of (butlast (path_segments x2)) @ segs)"
      by auto
    show ?thesis
    proof (rule exI [where x = "v1 @ slash # u1"], rule exI [where x = u2], intro conjI allI impI)
      show "u = (v1 @ slash # u1) @ u2" using v ih by simp
      show "literal_head u2 = (last (path_segments x), length u2)" using v ih by (simp add: path_segments_front)
      fix p a segs
      assume d: "no_double (u @ take 1 a)"
        and m: "segments_loop (p @ u @ a) True (length p + length (v1 @ slash # u1)) = Inr segs"
      let ?p = "p @ v1 @ [slash]"
      have full: "p @ u @ a = ?p @ v2 @ a" by (simp add: v(1))
      have d2: "no_double (v2 @ take 1 a)" using d no_double_append [of "v1 @ [slash]"] by (simp add: v(1))
      have "v2 @ take 1 a = [] \<or> hd (v2 @ take 1 a) \<noteq> slash"
        using d no_double_cons [of v1 "v2 @ take 1 a"] by (simp add: v(1))
      then have n: "v2 @ a = [] \<or> hd (v2 @ a) \<noteq> slash" by (cases a; cases v2) auto
      have "segments_loop (?p @ v2 @ a) True (length ?p) = Inr (map literal_segment_of (butlast (path_segments x2)) @ segs)"
        by (rule ih(3) [OF d2]) (use m full in \<open>simp add: add.assoc\<close>)
      then have "segments_loop (p @ u @ a) True (length p) = Inr (literal_segment_of x1
          # map literal_segment_of (butlast (path_segments x2)) @ segs)"
        by (intro literal_segment_step [OF v(2,3) _ n]) (use v(1) full in auto)
      then show "segments_loop (p @ u @ a) True (length p) = Inr (map literal_segment_of (butlast (path_segments x)) @ segs)"
        using v by (simp add: path_segments_front)
    qed
  qed
qed

section \<open>Matching behind the prefix\<close>

fun join_path :: "string list \<Rightarrow> string" where
  "join_path [] = []"
| "join_path [p] = p"
| "join_path (p # q # ps) = p @ slash # join_path (q # ps)"

lemma join_path_segments [simp]: "join_path (path_segments s) = s"
proof (induction s rule: path_induct)
  case (more p s)
  then obtain q ps where "path_segments s = q # ps" by (cases "path_segments s") auto
  with more show ?case by (simp add: path_segments_front)
qed (simp add: path_segments_single)

lemma path_segments_join: "ps \<noteq> [] \<Longrightarrow> \<forall>p\<in>set ps. slash \<notin> set p \<Longrightarrow> path_segments (join_path ps) = ps"
  by (induction ps rule: join_path.induct) (simp_all add: path_segments_front path_segments_single)

lemma path_segments_inject: "path_segments a = path_segments b \<longleftrightarrow> a = b"
  by (metis join_path_segments)

lemma path_segments_prefix:
  assumes "path_segments str = butlast (path_segments x) @ (last (path_segments x) @ i) # is"
  shows "\<exists>r. str = x @ r \<and> path_segments r = i # is"
proof -
  have "slash \<notin> set p" if "p \<in> set (i # is)" for p
    using that path_segments_slash [of _ str] assms by fastforce
  then have r: "path_segments (join_path (i # is)) = i # is" by (intro path_segments_join) auto
  then have "path_segments (x @ join_path (i # is)) = path_segments str"
    by (simp add: path_segments_append assms)
  with r show ?thesis by (auto simp: path_segments_inject)
qed

lemma literal_tokens_match: "well_formed False t \<Longrightarrow> tokens_match (literal_tokens_of t) (atoms i) \<longleftrightarrow> i = t"
  by (simp add: literal_tokens_of_def literal_token_match del: tokens_match.simps(2))

lemma literal_segments_match:
  assumes "\<forall>p\<in>set ps. well_formed False p"
  shows "segments_match (map literal_segment_of ps @ segs) is \<longleftrightarrow> (\<exists>js. is = ps @ js \<and> segments_match segs js)"
  using assms
proof (induction ps arbitrary: "is")
  case (Cons p ps)
  then show ?case by (cases "is") (auto simp: literal_tokens_match segments_plain)
qed simp

lemma path_segments_well_formed: "well_formed False x \<Longrightarrow> \<forall>p\<in>set (path_segments x). well_formed False p"
proof (induction x rule: path_induct)
  case (more p s)
  then show ?case using well_formed_cut [of "p @ slash # s" p slash s] by (simp add: path_segments_front)
qed (simp add: path_segments_single)

lemma trailing_star_plain:
  assumes "list_all (\<lambda>s. \<not> is_recursive s) xs" "ys \<noteq> []"
  shows "trailing_star (xs @ ys) = xs @ trailing_star ys"
proof -
  obtain zs l where "ys = zs @ [l]" using assms(2) by (cases ys rule: rev_exhaust) auto
  then show ?thesis using assms(1) trailing_star_snoc [of "xs @ zs" l] trailing_star_snoc [of zs l]
    by (cases "zs = []"; cases xs rule: rev_exhaust) auto
qed

lemma segments_loop_nonempty:
  assumes "segments_loop s start b = Inr segs"
  shows "segs \<noteq> []"
proof -
  obtain ts i where t: "tokens_loop s b [] = Inr (ts, i)" by (rule segments_loop_tokens [OF assms])
  show ?thesis using assms unfolding segments_loop_step [OF t] by (auto split: if_splits)
qed

text \<open>The arm's first segment, completed by the literal before it.\<close>

fun glue :: "string \<Rightarrow> Token list \<Rightarrow> Token list" where
  "glue t (Literal u # ts) = Literal (t @ u) # ts"
| "glue t ts = Literal t # ts"

lemma glue_cases: "(\<exists>u us. ts = Literal u # us \<and> glue t ts = Literal (t @ u) # us) \<or> glue t ts = Literal t # ts"
  by (cases "(t, ts)" rule: glue.cases) auto

lemma glue_Cons: "glue t (a # ts) = glue t [a] @ ts"
  by (cases a) simp_all

lemma push_literal_append: "us \<noteq> [] \<Longrightarrow> push_literal (ts @ us) c = ts @ push_literal us c"
  by (simp add: push_literal_def butlast_append split: Token.split)

lemma glue_push: "push_literal (glue t ts) c = glue t (push_literal ts c)"
proof (cases ts)
  case (Cons a us)
  show ?thesis
  proof (cases "us = []")
    case True
    then show ?thesis using Cons by (cases a) (simp_all add: push_literal_def)
  next
    case False
    have "push_literal (a # us) c = a # push_literal us c"
      using push_literal_append [OF False, of "[a]"] by simp
    then show ?thesis
      by (simp only: Cons glue_Cons [of t a us] glue_Cons [of t a "push_literal us c"] push_literal_append [OF False])
  qed
qed (simp add: push_literal_def)

lemma glue_snoc:
  assumes "\<And>u. x \<noteq> Literal u"
  shows "glue t ts @ [x] = glue t (ts @ [x])"
proof (cases ts)
  case Nil
  then show ?thesis using assms by (cases x) auto
next
  case (Cons a us)
  then show ?thesis by (simp only: glue_Cons [of t a us] glue_Cons [of t a "us @ [x]"] append_Cons append.assoc)
qed

lemma glue_last: "(glue t ts = [] \<or> last (glue t ts) \<noteq> Star) = (ts = [] \<or> last ts \<noteq> Star)"
  by (cases "(t, ts)" rule: glue.cases) auto

lemma tokens_loop_glue:
  assumes "tokens_loop s i ts = Inr (ts', j)"
  shows "tokens_loop s i (glue t ts) = Inr (glue t ts', j)"
  using assms
proof (induction rule: tokens_loop_induct)
  case (stop i ts)
  then show ?case by (subst tokens_loop.simps) auto
next
  case (bracket i ts cls k ts' j)
  then show ?case by (subst tokens_loop.simps) (simp add: glue_snoc)
next
  case (star i ts ts' j)
  then show ?case
    by (subst tokens_loop.simps) (auto simp: Let_def glue_snoc glue_last split: if_splits)
next
  case (any i ts ts' j)
  then show ?case by (subst tokens_loop.simps) (simp add: glue_snoc)
next
  case (escape i ts ts' j)
  then show ?case by (subst tokens_loop.simps) (simp add: glue_push)
next
  case (byte i ts ts' j)
  then show ?case by (subst tokens_loop.simps) (simp add: glue_push)
qed

lemma glue_match:
  assumes "well_formed False t" "list_all literal_ok ts"
  shows "tokens_match (glue t ts) (atoms i) \<longleftrightarrow> starts_with i t \<and> tokens_match ts (atoms (drop (length t) i))"
  using glue_cases [of ts t]
proof
  assume "\<exists>u us. ts = Literal u # us \<and> glue t ts = Literal (t @ u) # us"
  then obtain u us where u: "ts = Literal u # us" "glue t ts = Literal (t @ u) # us" by auto
  then have w: "well_formed False u" using assms(2) by (simp add: literal_ok_def)
  have "starts_with i (t @ u) \<longleftrightarrow> starts_with i t \<and> starts_with (drop (length t) i) u"
    by (auto simp: starts_with_iff)
  then show ?thesis unfolding u(2) starts_affix [OF well_formed_append [OF assms(1) w]]
    by (simp add: u(1) starts_affix [OF w] add.commute del: tokens_match.simps(2))
next
  assume "glue t ts = Literal t # ts"
  then show ?thesis by (simp add: starts_affix [OF assms(1)] del: tokens_match.simps(2))
qed

lemma last_segment_empty: "last (path_segments x) = [] \<longleftrightarrow> x = [] \<or> last x = slash"
proof -
  obtain front where f: "x = front @ last (path_segments x)"
    "if slash \<in> set x then front \<noteq> [] \<and> last front = slash else front = []"
    using path_segments_last [of x] by auto
  show ?thesis
  proof
    assume e: "last (path_segments x) = []"
    then have "x = front" using f(1) by simp
    with f(2) show "x = [] \<or> last x = slash" by (auto split: if_splits)
  next
    assume x: "x = [] \<or> last x = slash"
    show "last (path_segments x) = []"
    proof (rule ccontr)
      assume n: "last (path_segments x) \<noteq> []"
      then have "x \<noteq> []" by auto
      with n f(1) have "last x \<in> set (last (path_segments x))" by (metis last_appendR last_in_set)
      with x \<open>x \<noteq> []\<close> last_segment_slash [of x] show False by auto
    qed
  qed
qed

lemma path_segments_separator: "path_segments (pre @ slash # r) = path_segments pre @ path_segments r"
  by (simp add: path_segments_append)

lemma behind_separator:
  "behind_prefix pre True segs str \<longleftrightarrow> (\<exists>js. path_segments str = path_segments pre @ js \<and> segments_match segs js)"
proof
  assume "behind_prefix pre True segs str"
  then obtain r where r: "str = pre @ r"
    "if r = [] then segments_match segs [] else r ! 0 = slash \<and> segments_match segs (path_segments (drop 1 r))"
    by (auto simp: behind_prefix_def starts_with_iff)
  show "\<exists>js. path_segments str = path_segments pre @ js \<and> segments_match segs js"
  proof (cases r)
    case Nil
    with r show ?thesis by (intro exI [where x = "[]"]) simp
  next
    case (Cons c v)
    with r show ?thesis by (intro exI [where x = "path_segments v"]) (simp add: path_segments_separator)
  qed
next
  assume "\<exists>js. path_segments str = path_segments pre @ js \<and> segments_match segs js"
  then obtain js where js: "path_segments str = path_segments pre @ js" "segments_match segs js" by auto
  show "behind_prefix pre True segs str"
  proof (cases js)
    case Nil
    with js have "str = pre" by (simp add: path_segments_inject)
    with js Nil show ?thesis by (simp add: behind_prefix_def starts_with_def)
  next
    case (Cons i "is")
    have "path_segments (pre @ [slash]) = path_segments pre @ [[]]" using path_segments_separator [of pre "[]"] by simp
    with js(1) Cons have "path_segments str
        = butlast (path_segments (pre @ [slash])) @ (last (path_segments (pre @ [slash])) @ i) # is" by simp
    from path_segments_prefix [OF this] obtain r where "str = pre @ slash # r" "path_segments r = js"
      using Cons by auto
    with js(2) show ?thesis by (simp add: behind_prefix_def starts_with_def)
  qed
qed

lemma full_segments_start:
  assumes u: "literal_head u = (x, length u)" and w: "well_formed False x" and d: "no_double (u @ take 1 a)"
    and a: "segments_loop a True 0 = Inr segs" and x: "x = [] \<or> last x = slash"
  defines "seg_end \<equiv> x \<noteq> []"
  shows "\<exists>full. segments_loop (u @ a) True 0 = Inr full
    \<and> (\<forall>str. segments_match (trailing_star full) (path_segments str)
         \<longleftrightarrow> behind_prefix (if seg_end then butlast x else x) seg_end (trailing_star segs) str)"
proof -
  let ?ps = "butlast (path_segments x)"
  from head_segments [OF u] obtain u1 u2 where
    h: "u = u1 @ u2" "literal_head u2 = (last (path_segments x), length u2)"
      "\<And>p a segs. no_double (u @ take 1 a) \<Longrightarrow> segments_loop (p @ u @ a) True (length p + length u1) = Inr segs
         \<Longrightarrow> segments_loop (p @ u @ a) True (length p) = Inr (map literal_segment_of ?ps @ segs)"
    by auto
  have "u2 = []" using h(2) x literal_head_Nil last_segment_empty [of x] by metis
  then have "segments_loop ([] @ u @ a) True (length [] + length u1) = Inr segs"
    using segments_loop_shift [OF a, of u] h(1) by simp
  from h(3) [OF d this] have full: "segments_loop (u @ a) True 0 = Inr (map literal_segment_of ?ps @ segs)" by simp
  have ps: "\<forall>p\<in>set ?ps. well_formed False p"
    using path_segments_well_formed [OF w] in_set_butlastD by fast
  have "trailing_star (map literal_segment_of ?ps @ segs) = map literal_segment_of ?ps @ trailing_star segs"
    by (rule trailing_star_plain) (use segments_loop_nonempty [OF a] in \<open>auto simp: list_all_iff\<close>)
  then have m: "segments_match (trailing_star (map literal_segment_of ?ps @ segs)) (path_segments str)
      \<longleftrightarrow> (\<exists>js. path_segments str = ?ps @ js \<and> segments_match (trailing_star segs) js)" for str
    by (simp add: literal_segments_match [OF ps])
  show ?thesis
  proof (cases "x = []")
    case True
    then show ?thesis using full m by (auto simp: seg_end_def behind_prefix_def starts_with_def)
  next
    case False
    then have b: "x = butlast x @ [slash]" using x by (metis append_butlast_last_id)
    have "?ps = path_segments (butlast x)"
      by (subst b) (use path_segments_separator [of "butlast x" "[]"] in simp)
    then show ?thesis using full m False by (auto simp: seg_end_def behind_separator)
  qed
qed

lemma segment_of_plain [simp]: "segment_tokens (segment_of ts False) = ts" "\<not> is_recursive (segment_of ts False)"
  by (simp_all add: segment_of_def Let_def)

lemma trailing_star_Cons:
  assumes "list_all (\<lambda>s. \<not> is_recursive s) xs" "\<not> is_recursive seg"
  shows "trailing_star (xs @ seg # others) = xs @ seg # (if others = [] then [] else trailing_star others)"
  using assms trailing_star_plain [of "xs @ [seg]" others] trailing_star_plain [of xs "[seg]"]
    trailing_star_snoc [of "[]" seg]
  by auto

text \<open>What a segment and those after it match behind a literal that completes it.\<close>

lemma behind_literal:
  assumes w: "well_formed False x" and ts: "list_all literal_ok ts"
  defines "t \<equiv> last (path_segments x)" and "ps \<equiv> butlast (path_segments x)"
  shows "segments_match (map literal_segment_of ps @ segment_of (glue t ts) False # others) (path_segments str)
    \<longleftrightarrow> behind_prefix x False (segment_of ts False # others) str"
proof -
  have pw: "\<forall>p\<in>set (path_segments x). well_formed False p" by (rule path_segments_well_formed [OF w])
  then have ps: "\<forall>p\<in>set ps. well_formed False p" and t: "well_formed False t"
    unfolding ps_def t_def by (auto dest: in_set_butlastD)
  have m: "segments_match (map literal_segment_of ps @ segment_of (glue t ts) False # others) (path_segments str)
      \<longleftrightarrow> (\<exists>i is. path_segments str = ps @ (t @ i) # is \<and> tokens_match ts (atoms i) \<and> segments_match others is)"
    (is "?l \<longleftrightarrow> ?r")
  proof
    assume ?l
    then obtain js where js: "path_segments str = ps @ js" "segments_match (segment_of (glue t ts) False # others) js"
      using literal_segments_match [OF ps] by auto
    then obtain j "is" where j: "js = j # is" "tokens_match (glue t ts) (atoms j)" "segments_match others is"
      by (cases js) auto
    then obtain i where "j = t @ i" "tokens_match ts (atoms i)"
      using glue_match [OF t ts] by (auto simp: starts_with_iff)
    with js j show ?r by auto
  next
    assume ?r
    then obtain i "is" where i: "path_segments str = ps @ (t @ i) # is" "tokens_match ts (atoms i)" "segments_match others is"
      by auto
    have "tokens_match (glue t ts) (atoms (t @ i))" using glue_match [OF t ts] i(2) by simp
    with i show ?l by (auto simp: literal_segments_match [OF ps])
  qed
  also have "\<dots> \<longleftrightarrow> behind_prefix x False (segment_of ts False # others) str"
  proof
    assume ?r
    then obtain i "is" where i: "path_segments str = ps @ (t @ i) # is" "tokens_match ts (atoms i)" "segments_match others is"
      by auto
    from path_segments_prefix [OF i(1) [unfolded ps_def t_def]] obtain r where "str = x @ r" "path_segments r = i # is" by auto
    with i show "behind_prefix x False (segment_of ts False # others) str"
      by (simp add: behind_prefix_def)
  next
    assume "behind_prefix x False (segment_of ts False # others) str"
    then obtain r where r: "str = x @ r" "segments_match (segment_of ts False # others) (path_segments r)"
      by (auto simp: behind_prefix_def starts_with_iff)
    then obtain i "is" where "path_segments r = i # is" "tokens_match ts (atoms i)" "segments_match others is"
      by (cases "path_segments r") auto
    with r show ?r by (auto simp: path_segments_append ps_def t_def)
  qed
  finally show ?thesis .
qed

lemma full_segments_glued:
  assumes u: "literal_head u = (x, length u)" and w: "well_formed False x" "well_formed False a"
    and d: "no_double (u @ take 1 a)" and a: "segments_loop a False 0 = Inr segs" and x: "x \<noteq> []" "last x \<noteq> slash"
  shows "\<exists>full. segments_loop (u @ a) True 0 = Inr full
    \<and> (\<forall>str. segments_match (trailing_star full) (path_segments str)
         \<longleftrightarrow> behind_prefix x False (trailing_star segs) str)"
proof -
  define ps t where "ps = butlast (path_segments x)" and "t = last (path_segments x)"
  from head_segments [OF u] obtain u1 u2 where
    h: "u = u1 @ u2" "literal_head u2 = (t, length u2)"
      "\<And>p a segs. no_double (u @ take 1 a) \<Longrightarrow> segments_loop (p @ u @ a) True (length p + length u1) = Inr segs
         \<Longrightarrow> segments_loop (p @ u @ a) True (length p) = Inr (map literal_segment_of ps @ segs)"
    unfolding ps_def t_def by auto
  have tn: "t \<noteq> []" "slash \<notin> set t" using x last_segment_empty [of x] last_segment_slash [of x] by (auto simp: t_def)
  obtain ts i where ts: "tokens_loop a 0 [] = Inr (ts, i)" by (rule segments_loop_tokens [OF a])
  let ?s = "u @ a"
  have "tokens_loop ?s (length u1) [] = tokens_loop (u1 @ u2 @ a) (length u1 + length u2) [Literal t]"
    using literal_tokens [OF h(2) tn(2), of u1 a "[]"] push_literals [of "[]" t] tn(1) h(1)
    by (simp add: literal_tokens_of_def)
  also have "\<dots> = Inr (glue t ts, length u + i)"
    using tokens_loop_shift [OF tokens_loop_glue [OF ts, of t], of u] h(1) by simp
  finally have run: "tokens_loop ?s (length u1) [] = Inr (glue t ts, length u + i)" .
  obtain c v where c: "u2 = c # v" "c \<noteq> CHR ''*''"
    using h(2) tn(1) by (cases u2) (auto simp: wildcards_def split: if_splits)
  have f: "((length u1 \<noteq> 0 \<or> True) \<and> take (length u + i - length u1) (drop (length u1) ?s) = ''**'') = False"
    using c h(1) by auto
  have step: "segments_loop ?s True (length u1) = Inr full \<longleftrightarrow>
      (if length u + i < length ?s
       then \<not> (Suc (length u + i) \<noteq> length ?s \<and> ?s ! Suc (length u + i) = slash)
         \<and> (\<exists>others. segments_loop ?s True (Suc (length u + i)) = Inr others \<and> full = segment_of (glue t ts) False # others)
       else full = [segment_of (glue t ts) False])" for full
    by (simp only: segments_loop_step [OF run] f)
  have "raw_segments a 0 segs" using segments_loop_raw [OF a] w(2) by simp
  then have ok: "segment_ok (hd segs)" by (cases segs) (auto simp: raw_segments_def)
  obtain others where others: "segs = segment_of ts False # others"
    "segments_loop ?s True (length u1) = Inr (segment_of (glue t ts) False # others)"
  proof (cases "i < length a")
    case True
    then obtain others where m: "segments_loop a False (Suc i) = Inr others" "segs = segment_of ts False # others"
      "\<not> (Suc i \<noteq> length a \<and> a ! Suc i = slash)"
      using a unfolding segments_loop_step [OF ts] by auto
    have "segments_loop ?s True (length u + Suc i) = Inr others" by (rule segments_loop_shift [OF m(1)]) simp
    with that [OF m(2)] True m(3) step show ?thesis by (simp add: nth_append)
  next
    case False
    then have "segs = [segment_of ts False]" using a unfolding segments_loop_step [OF ts] by simp
    with that False step show ?thesis by simp
  qed
  have full: "segments_loop ?s True 0 = Inr (map literal_segment_of ps @ segment_of (glue t ts) False # others)"
    using h(3) [OF d, of "[]"] others(2) by simp
  have lits: "list_all (\<lambda>s. \<not> is_recursive s) (map literal_segment_of ps)" by (simp add: list_all_iff)
  have "list_all literal_ok ts" using ok others(1) by (simp add: segment_ok_def)
  from behind_literal [OF w(1) this] full others(1) trailing_star_Cons [OF lits, of "segment_of (glue t ts) False" others]
    trailing_star_Cons [of "[]" "segment_of ts False" others]
  show ?thesis by (simp add: ps_def t_def)
qed

section \<open>What a pattern matches\<close>

text \<open>
  The reference. A text without braces matches what its segments match, the text compiled as one
  piece; a pattern matches what one of its expansions matches, each brace replaced by one of its terms.
\<close>

definition text_matches :: "string \<Rightarrow> string \<Rightarrow> bool" where
  "text_matches text str \<longleftrightarrow>
     (case segments_loop text True 0 of
        Inl _ \<Rightarrow> False
      | Inr segs \<Rightarrow> segments_match (trailing_star segs) (path_segments str))"

definition expansions :: "string \<Rightarrow> nat \<Rightarrow> string list" where
  "expansions s max_arms =
     (case create_braces s (snd (literal_head s)) max_arms of
        Inl _ \<Rightarrow> []
      | Inr braces \<Rightarrow> map (\<lambda>choice. arm_text (arm_pieces s 0 braces choice)) (all_choices (term_counts braces)))"

definition glob_matches :: "string \<Rightarrow> nat \<Rightarrow> string \<Rightarrow> bool" where
  "glob_matches s max_arms str \<longleftrightarrow> list_ex (\<lambda>text. text_matches text str) (expansions s max_arms)"

lemma find_invalid_well_formed: "find_invalid_utf8 s at = None \<longleftrightarrow> well_formed False (drop at s)"
proof (induction s at rule: find_invalid_utf8.induct)
  case (1 s at)
  show ?case
  proof (cases "at < length s")
    case True
    let ?q = "decode_utf8 (drop at s)" and ?a = "decode_utf8_atom s at"
    have v: "fst ?a \<ge> invalid_atom_base \<longleftrightarrow> \<not> seq_valid ?q"
    proof (cases "seq_valid ?q")
      case valid: True
      then have "is_code_point False (code_point ?q)" using decode_valid by (simp add: decode_utf8_def spells_def)
      with valid show ?thesis by (auto simp: decode_utf8_atom_def is_code_point_def invalid_atom_base_def Let_def)
    qed (simp add: decode_utf8_atom_def Let_def)
    have "well_formed False (drop at s) \<longleftrightarrow> seq_valid ?q \<and> well_formed False (drop (seq_length ?q) (drop at s))"
      using well_formed_step [of "drop at s" False] True by (simp add: decode_utf8_def)
    moreover have "snd ?a = seq_length ?q" if "seq_valid ?q" using that by (simp add: decode_utf8_atom_def Let_def)
    ultimately show ?thesis using 1 [OF True refl] v True
      by (subst find_invalid_utf8.simps) (auto simp: Let_def add.commute)
  next
    case False
    then show ?thesis by (subst find_invalid_utf8.simps) simp
  qed
qed

lemma no_double_iff: "no_double w \<longleftrightarrow> find_text ''//'' w = None"
proof -
  have "starts_with (drop j w) ''//'' \<longleftrightarrow> Suc j < length w \<and> w ! j = slash \<and> w ! Suc j = slash" for j
  proof (cases "Suc j < length w")
    case True
    then have "drop j w = w ! j # w ! Suc j # drop (Suc (Suc j)) w"
      by (metis Cons_nth_drop_Suc Suc_lessD)
    then show ?thesis using True by (simp add: starts_with_def)
  next
    case False
    then show ?thesis using starts_with_length [of "drop j w" "''//''"] by auto
  qed
  then show ?thesis by (auto simp: no_double_def find_text_None)
qed

lemma no_double_snoc:
  assumes "no_double u" "u = [] \<or> last u \<noteq> slash \<or> a = [] \<or> hd a \<noteq> slash"
  shows "no_double (u @ take 1 a)"
proof -
  have "\<not> ((u @ take 1 a) ! i = slash \<and> (u @ take 1 a) ! Suc i = slash)" if "Suc i < length (u @ take 1 a)" for i
  proof (cases "Suc i < length u")
    case True
    with assms(1) show ?thesis by (auto simp: no_double_def nth_append)
  next
    case False
    with that have "Suc i = length u" "a \<noteq> []" by (cases a; simp)+
    then obtain v c where v: "u = v @ [c]" "i = length v" by (cases u rule: rev_exhaust) auto
    obtain b w where "a = b # w" using \<open>a \<noteq> []\<close> by (cases a) auto
    with v assms(2) show ?thesis by (simp add: nth_append)
  qed
  then show ?thesis by (simp add: no_double_def)
qed

lemma literal_head_last:
  assumes "literal_head u = (x, length u)"
  shows "(u \<noteq> [] \<longleftrightarrow> x \<noteq> []) \<and> (u \<noteq> [] \<longrightarrow> last u = last x)"
  using assms by (induction rule: literal_head_induct) auto

text \<open>An expansion of the pattern matches what its arm matches behind the literal prefix.\<close>

lemma text_matches_arm:
  assumes u: "literal_head u = (x, length u)" "no_double u" and w: "well_formed False x" "well_formed False a"
  defines "seg_end \<equiv> x \<noteq> [] \<and> last x = slash"
  assumes a: "segments_loop a (x = [] \<or> seg_end) 0 = Inr segs" "\<not> (seg_end \<and> starts_with a ''/'')"
  shows "text_matches (u @ a) str
    = behind_prefix (if seg_end then butlast x else x) seg_end (trailing_star segs) str"
proof -
  have d: "no_double (u @ take 1 a)"
    by (rule no_double_snoc [OF u(2)])
      (use a(2) literal_head_last [OF u(1)] in \<open>cases a; auto simp: seg_end_def starts_with_def\<close>)
  show ?thesis
  proof (cases "x = [] \<or> last x = slash")
    case True
    then have s: "seg_end = (x \<noteq> [])" "segments_loop a True 0 = Inr segs" using a(1) by (auto simp: seg_end_def)
    from full_segments_start [OF u(1) w(1) d s(2) True] obtain full where
      "segments_loop (u @ a) True 0 = Inr full"
      "segments_match (trailing_star full) (path_segments str)
        = behind_prefix (if x \<noteq> [] then butlast x else x) (x \<noteq> []) (trailing_star segs) str" by blast
    then show ?thesis by (simp only: text_matches_def s(1) sum.case)
  next
    case False
    then have s: "\<not> seg_end" "segments_loop a False 0 = Inr segs" using a(1) by (auto simp: seg_end_def)
    from full_segments_glued [OF u(1) w d s(2)] False obtain full where
      "segments_loop (u @ a) True 0 = Inr full"
      "segments_match (trailing_star full) (path_segments str) = behind_prefix x False (trailing_star segs) str" by blast
    then show ?thesis by (simp add: text_matches_def s(1))
  qed
qed

lemma text_matches_literal:
  assumes "literal_head u = (x, length u)" "no_double u" "well_formed False x"
  shows "text_matches u str \<longleftrightarrow> str = x"
proof -
  have "tokens_loop [] 0 [] = Inr ([], 0)" by (subst tokens_loop.simps) simp
  then have l: "segments_loop [] start 0 = Inr [literal_segment_of []]" for start
    by (simp add: segments_loop_step literal_segment_of_def literal_tokens_of_def)
  have t: "trailing_star [literal_segment_of []] = [literal_segment_of []]"
    using trailing_star_snoc [of "[]"] by simp
  have m: "segments_match [literal_segment_of []] (path_segments r) \<longleftrightarrow> r = []" for r
    using match_lone [of "literal_segment_of []" r] by (auto simp: literal_tokens_of_def)
  define seg_end where "seg_end \<longleftrightarrow> x \<noteq> [] \<and> last x = slash"
  have "text_matches (u @ []) str = behind_prefix (if seg_end then butlast x else x) seg_end [literal_segment_of []] str"
    using text_matches_arm [OF assms, of "[]"] l t by (simp add: seg_end_def starts_with_def)
  also have "\<dots> \<longleftrightarrow> str = x"
  proof (cases seg_end)
    case True
    then have x: "x = butlast x @ [slash]" unfolding seg_end_def by (metis append_butlast_last_id)
    have "behind_prefix p True [literal_segment_of []] str \<longleftrightarrow> str = p @ [slash]" for p
    proof
      assume "behind_prefix p True [literal_segment_of []] str"
      then obtain r where "str = p @ r"
        "if r = [] then segments_match [literal_segment_of []] []
         else r ! 0 = slash \<and> segments_match [literal_segment_of []] (path_segments (drop 1 r))"
        by (auto simp: behind_prefix_def starts_with_iff)
      then show "str = p @ [slash]" using m by (cases r) auto
    next
      assume str: "str = p @ [slash]"
      have "segments_match [literal_segment_of []] (path_segments [])" using m by blast
      moreover have "starts_with str p" using str by (auto simp: starts_with_iff)
      ultimately show "behind_prefix p True [literal_segment_of []] str"
        unfolding behind_prefix_def by (simp add: str del: segments_match.simps path_segments.simps)
    qed
    with True x show ?thesis by metis
  next
    case False
    have "starts_with str x \<and> drop (length x) str = [] \<longleftrightarrow> str = x"
      by (auto simp: starts_with_iff)
    with False m show ?thesis by (simp only: behind_prefix_def Let_def if_False)
  qed
  finally show ?thesis by simp
qed

end
