(* ===== verification/Glob_Pattern.thy ===== *)
theory Glob_Pattern
  imports Glob_Create
begin

text \<open>
  What a created glob pattern does: \<^verbatim>\<open>create\<close> always ends, a created pattern matches what
  one of the brace expansions of its text matches, an escaped literal matches itself alone, and every
  path a pattern matches is in the root directory cut off it.
\<close>

section \<open>The start of a pattern\<close>

text \<open>A pattern that \<^verbatim>\<open>create\<close> goes on with after its literal head.\<close>

definition headed :: "string \<Rightarrow> string \<Rightarrow> nat \<Rightarrow> bool" where
  "headed s x n \<longleftrightarrow> well_formed False s \<and> n \<le> length s \<and> literal_head s = (x, n)
     \<and> literal_head (take n s) = (x, length (take n s)) \<and> no_double (take n s)
     \<and> well_formed False x \<and> well_formed False (drop n s)"

lemma wildcards_ascii: "c \<in> set wildcards \<union> {backslash} \<Longrightarrow> uchar c < 0x80"
  by (auto simp: wildcards_def)

lemma headedI:
  assumes "find_invalid_utf8 s 0 = None" "literal_head s = (x, n)" "check_head s = None"
  shows "headed s x n"
proof -
  have s: "well_formed False s" using assms(1) by (simp add: find_invalid_well_formed)
  have t: "n \<le> length s" "literal_head (take n s) = (x, n)" using literal_head_take [OF assms(2)] by auto
  have d: "no_double (take n s)"
    using assms(2,3) by (auto simp: check_head_def no_double_iff split: if_splits)
  have w: "well_formed False (take n s) \<and> well_formed False (drop n s)"
  proof (cases "n < length s")
    case True
    note a = wildcards_ascii [OF literal_head_stop [OF assms(2) True]]
    have "well_formed False (take n s)" "well_formed False (drop (Suc n) s)"
      using well_formed_drop_ascii [of 0 s n] s True a by auto
    then show ?thesis using well_formed_ascii [of "[s ! n]" False "drop (Suc n) s"] a True
      by (simp add: Cons_nth_drop_Suc)
  qed (use s in simp)
  then have "well_formed False x" using literal_head_well_formed [of "take n s" x "[]"] t by simp
  with s t d w assms(2) show ?thesis by (simp add: headed_def)
qed

lemma counts_positive:
  assumes "list_all (brace_ok s b) braces"
  shows "list_all ((<) 0) (term_counts braces)" "list_all2 (<) (replicate (length braces) 0) (term_counts braces)"
proof -
  show p: "list_all ((<) 0) (term_counts braces)"
    using assms by (auto simp: term_counts_def brace_ok_def list_all_iff)
  then show "list_all2 (<) (replicate (length braces) 0) (term_counts braces)"
    by (auto simp: list_all2_conv_all_nth list_all_length term_counts_def)
qed

lemma all_choices_below: "choice \<in> set (all_choices counts) \<Longrightarrow> list_all2 (<) choice counts"
  by (induction counts arbitrary: choice) auto

lemma all_choices_nonempty: "list_all ((<) 0) counts \<Longrightarrow> all_choices counts \<noteq> []"
  by (induction counts) (auto simp: upt_conv_Cons)

lemma arms_loop_all:
  assumes "list_all (brace_ok s b) braces"
  shows "arms_loop big s b braces seg_end start root (replicate (length braces) 0) [] False
    = Some (compile_arms big s b braces seg_end start root (all_choices (term_counts braces)) [] False)"
  using arms_loop_choices [OF counts_positive(2) [OF assms]] choices_from_zero [OF counts_positive(1) [OF assms]]
  by (simp add: term_counts_def)

text \<open>The two ways to a pattern.\<close>

lemma create_cases [consumes 1, case_names literal arms]:
  assumes "create big s max_arms = Some (Inr p)"
  obtains (literal) x where "headed s x (length s)"
      "p = \<lparr>pat_prefix = x, prefix_at_seg_end = False, mode = ModeLiteral, arms = []\<rparr>"
  | (arms) x n seg_end pre braces as match_all m as' where "headed s x n" "n < length s"
      "seg_end \<longleftrightarrow> x \<noteq> [] \<and> last x = slash" "pre = (if seg_end then butlast x else x)"
      "create_braces s n max_arms = Inr braces" "list_all (brace_ok s n) braces"
      "compile_arms big s n braces seg_end (x = [] \<or> seg_end) (pre = [] \<and> \<not> seg_end)
         (all_choices (term_counts braces)) [] False = Inr (as, match_all)"
      "choose_mode (pre = [] \<and> \<not> seg_end) seg_end match_all as = (m, as')"
      "p = \<lparr>pat_prefix = pre, prefix_at_seg_end = seg_end, mode = m, arms = as'\<rparr>"
proof -
  obtain x n where h: "literal_head s = (x, n)" by (cases "literal_head s")
  have c: "find_invalid_utf8 s 0 = None" "check_head s = None"
    using assms by (auto simp: create_def h split: option.splits)
  note hd = headedI [OF c(1) h c(2)]
  show thesis
  proof (cases "n = length s")
    case True
    with assms hd show ?thesis by (intro literal [of x]) (simp_all add: create_def c h)
  next
    case False
    define seg_end where "seg_end \<longleftrightarrow> x \<noteq> [] \<and> last x = slash"
    define pre where "pre = (if seg_end then butlast x else x)"
    have start: "(pre = [] \<or> seg_end) = (x = [] \<or> seg_end)" by (simp add: pre_def)
    obtain braces where b: "create_braces s n max_arms = Inr braces"
      using assms False by (auto simp: create_def c h Let_def split: sum.splits)
    have ok: "list_all (brace_ok s n) braces"
      using create_braces_ok [OF b] hd by (simp add: headed_def)
    from assms False obtain as match_all m as' where
      "compile_arms big s n braces seg_end (x = [] \<or> seg_end) (pre = [] \<and> \<not> seg_end)
         (all_choices (term_counts braces)) [] False = Inr (as, match_all)"
      "choose_mode (pre = [] \<and> \<not> seg_end) seg_end match_all as = (m, as')"
      "p = \<lparr>pat_prefix = pre, prefix_at_seg_end = seg_end, mode = m, arms = as'\<rparr>"
      unfolding create_def Let_def c h option.case prod.case b sum.case
        seg_end_def [symmetric] pre_def [symmetric] arms_loop_all [OF ok] start
      by (auto simp: map_sum_def split: sum.splits prod.splits)
    with False hd seg_end_def pre_def b ok show thesis by (intro arms) (auto simp: headed_def)
  qed
qed

text \<open>
  C29: \<^verbatim>\<open>create\<close> always ends, with a pattern or an error: the loop over the brace
  choices, whose only bound is \<^verbatim>\<open>next_choice\<close> saying so, visits each choice once.
\<close>

theorem create_total: "\<exists>r. create big s max_arms = Some r"
proof -
  obtain x n where h: "literal_head s = (x, n)" by (cases "literal_head s")
  show ?thesis
  proof (cases "find_invalid_utf8 s 0 = None \<and> check_head s = None")
    case True
    then have hd: "headed s x n" using h by (intro headedI) auto
    show ?thesis
    proof (cases "create_braces s n max_arms")
      case (Inr braces)
      have "list_all (brace_ok s n) braces" using create_braces_ok [OF Inr] hd by (simp add: headed_def)
      from arms_loop_all [OF this] True h Inr show ?thesis by (simp add: create_def Let_def)
    qed (use True h in \<open>simp add: create_def Let_def\<close>)
  qed (auto simp: create_def h split: option.splits)
qed

section \<open>Matching\<close>

lemma behind_prefix_cong:
  "(\<And>is. segments_match a is = segments_match b is) \<Longrightarrow> behind_prefix pre seg_end a str = behind_prefix pre seg_end b str"
  by (simp add: behind_prefix_def)

lemma arm_text_nil [simp]: "arm_text (arm_pieces s b [] choice) = drop b s"
  by (cases choice) (simp_all add: arm_text_def)

lemma expansions_literal:
  assumes "literal_head s = (x, length s)"
  shows "expansions s max_arms = [s]"
  using assms by (simp add: expansions_def create_braces_def term_counts_def arm_text_def)

text \<open>A pattern of exactly two stars, or these and a separator, matches everything.\<close>

lemma star_segments:
  shows "segments_loop ''**'' True 0 = Inr [segment_of [Star] True]"
    "segments_loop ''**/'' True 0 = Inr [segment_of [Star] True, literal_segment_of []]"
proof -
  have t: "tokens_loop ''**'' 0 [] = Inr ([Star], 2)" "tokens_loop ''**/'' 0 [] = Inr ([Star], 2)"
    "tokens_loop ''**/'' 3 [] = Inr ([], 3)"
    by (simp_all add: tokens_loop.simps star_run_def)
  show "segments_loop ''**'' True 0 = Inr [segment_of [Star] True]"
    by (simp add: segments_loop.simps t)
  have "segments_loop ''**/'' True 3 = Inr [literal_segment_of []]"
    by (subst segments_loop.simps) (simp add: t literal_segment_of_def literal_tokens_of_def)
  then show "segments_loop ''**/'' True 0 = Inr [segment_of [Star] True, literal_segment_of []]"
    by (subst segments_loop.simps) (simp add: t)
qed

lemma star_matches_all:
  assumes "text \<in> {''**'', ''**/''}" "segments_loop text True 0 = Inr segs"
  shows "segments_match (trailing_star segs) (path_segments str)"
proof -
  have r: "is_recursive (segment_of [Star] True)" by (simp add: segment_of_def)
  show ?thesis
  proof (cases "text = ''**''")
    case True
    then have "segs = [segment_of [Star] True]" using assms(2) star_segments(1) by simp
    then have "trailing_star segs = [segment_of [Star] True]" by (simp add: trailing_star_def)
    then show ?thesis using recursive_all [OF r] by simp
  next
    case False
    then have s: "segs = [segment_of [Star] True, literal_segment_of []]" using assms star_segments(2) by auto
    define a where "a = (literal_segment_of [])\<lparr>segment_tokens := [Star], segment_kind := Affix\<rparr>"
    have t: "trailing_star segs = [segment_of [Star] True, a]"
      using s r by (simp add: trailing_star_def a_def literal_segment_of_def literal_tokens_of_def segment_of_def)
    have a: "\<not> is_recursive a" "tokens_match (segment_tokens a) cs" for cs
      by (simp_all add: a_def tokens_match_stars)
    from match_base [OF r a(1)] a(2) have "segments_match [segment_of [Star] True, a] (path_segments str)" by simp
    then show ?thesis unfolding t by simp
  qed
qed


text \<open>One arm of a pattern: it matches behind the prefix what the expansion of its choice matches.\<close>

lemma arm_matches:
  assumes h: "headed s x n" and braces: "list_all (brace_ok s n) braces"
    and choice: "choice \<in> set (all_choices (term_counts braces))"
  defines "seg_end \<equiv> x \<noteq> [] \<and> last x = slash" and "text \<equiv> arm_text (arm_pieces s n braces choice)"
  assumes arm: "compile_arm big text (x = [] \<or> seg_end) = Inr arm" "\<not> (seg_end \<and> starts_with text ''/'')"
  shows "arm_ok big arm"
    "behind_prefix (if seg_end then butlast x else x) seg_end (arm_segments arm) str
      = text_matches (arm_text (arm_pieces s 0 braces choice)) str"
    "x = [] \<Longrightarrow> text \<in> {''**'', ''**/''} \<Longrightarrow> segments_match (arm_segments arm) (path_segments str)"
proof -
  have w: "well_formed False text" unfolding text_def
    by (rule arm_text_well_formed [OF _ _ braces all_choices_below [OF choice]]) (use h in \<open>simp_all add: headed_def\<close>)
  obtain segs where segs: "segments_loop text (x = [] \<or> seg_end) 0 = Inr segs" "arm_ok big arm"
    "\<And>is. segments_match (arm_segments arm) is = segments_match (trailing_star segs) is"
    using compile_arm_ok [OF arm(1) w] by metis
  show "arm_ok big arm" by fact
  have "text_matches (take n s @ text) str
      = behind_prefix (if seg_end then butlast x else x) seg_end (trailing_star segs) str"
    unfolding seg_end_def
    by (rule text_matches_arm) (use h w segs(1) arm(2) in \<open>auto simp: headed_def seg_end_def\<close>)
  then show "behind_prefix (if seg_end then butlast x else x) seg_end (arm_segments arm) str
      = text_matches (arm_text (arm_pieces s 0 braces choice)) str"
    using behind_prefix_cong [OF segs(3)] arm_text_from [OF braces, of choice] h by (simp add: headed_def text_def)
  show "segments_match (arm_segments arm) (path_segments str)" if "x = []" "text \<in> {''**'', ''**/''}"
    using star_matches_all [OF that(2)] segs(1,3) that(1) by simp
qed

text \<open>The arms of a created pattern, and what they match together.\<close>

lemma bex_nth: "(\<exists>a\<in>set as. P a) \<longleftrightarrow> (\<exists>k<length as. P (as ! k))"
  by (metis in_set_conv_nth)

lemma created_arms:
  assumes h: "headed s x n" and seg_end: "seg_end \<longleftrightarrow> x \<noteq> [] \<and> last x = slash"
    and pre: "pre = (if seg_end then butlast x else x)"
    and braces: "create_braces s n max_arms = Inr braces" "list_all (brace_ok s n) braces"
    and compiled: "compile_arms big s n braces seg_end (x = [] \<or> seg_end) (pre = [] \<and> \<not> seg_end)
         (all_choices (term_counts braces)) [] False = Inr (as, match_all)"
    and mode: "choose_mode (pre = [] \<and> \<not> seg_end) seg_end match_all as = (m, as')"
  shows "list_all (arm_ok big) as"
    "match big \<lparr>pat_prefix = pre, prefix_at_seg_end = seg_end, mode = m, arms = as'\<rparr> str
      = Some (\<exists>arm\<in>set as. behind_prefix pre seg_end (arm_segments arm) str)" (is "match big ?p str = ?m")
    "(\<exists>arm\<in>set as. behind_prefix pre seg_end (arm_segments arm) str) = glob_matches s max_arms str"
proof -
  let ?text = "\<lambda>b choice. arm_text (arm_pieces s b braces choice)"
  let ?choices = "all_choices (term_counts braces)"
  from compile_arms_all [OF compiled] have all:
    "list_all2 (\<lambda>choice arm. compile_arm big (?text n choice) (x = [] \<or> seg_end) = Inr arm
        \<and> \<not> (seg_end \<and> starts_with (?text n choice) ''/'')) ?choices as"
    "match_all \<longleftrightarrow> (pre = [] \<and> \<not> seg_end) \<and> (\<exists>choice\<in>set ?choices. ?text n choice \<in> {''**'', ''**/''})"
    by auto
  have arm: "arm_ok big (as ! k)"
    "behind_prefix pre seg_end (arm_segments (as ! k)) str = text_matches (?text 0 (?choices ! k)) str"
    "x = [] \<Longrightarrow> ?text n (?choices ! k) \<in> {''**'', ''**/''} \<Longrightarrow> segments_match (arm_segments (as ! k)) (path_segments str')"
    if "k < length ?choices" for k str'
    using arm_matches [OF h braces(2) nth_mem [OF that], folded seg_end, folded pre, of big "as ! k"]
      list_all2_nthD [OF all(1) that] by auto
  have len: "length as = length ?choices" using list_all2_lengthD [OF all(1)] by simp
  then have "as \<noteq> []" using all_choices_nonempty [OF counts_positive(1) [OF braces(2)]] by auto
  moreover show ok: "list_all (arm_ok big) as" using arm(1) len by (simp add: list_all_length)
  moreover have "pre = [] \<and> \<not> seg_end \<and> (\<exists>arm\<in>set as. \<forall>str. segments_match (arm_segments arm) (path_segments str))" if every: match_all
  proof -
    obtain choice where c: "choice \<in> set ?choices" "?text n choice \<in> {''**'', ''**/''}" "pre = []" "\<not> seg_end"
      using iffD1 [OF all(2) every] by blast
    then obtain k where "k < length ?choices" "choice = ?choices ! k" by (auto simp only: in_set_conv_nth)
    with c have "k < length ?choices" "?text n (?choices ! k) \<in> {''**'', ''**/''}" "pre = []" "\<not> seg_end" by simp_all
    moreover from this have "x = []" using pre by simp
    ultimately show ?thesis using arm(3) [of k] len by (intro conjI bexI [of _ "as ! k"] allI) simp_all
  qed
  ultimately show "match big ?p str = ?m" by (intro match_modes [OF _ _ mode])
  show "(\<exists>arm\<in>set as. behind_prefix pre seg_end (arm_segments arm) str) = glob_matches s max_arms str"
    using arm(2) len h braces(1)
    by (simp add: glob_matches_def expansions_def headed_def bex_nth list_ex_length cong: conj_cong)
qed

lemma choose_mode_set: "choose_mode root seg_end match_all as = (m, as') \<Longrightarrow> set as' = set as"
  by (auto simp: choose_mode_def Let_def split: if_splits)

text \<open>A pattern to try the theorems on.\<close>

abbreviation sample :: string where
  "sample \<equiv> ''a/{b,c}*''"

lemma sample_braces:
  "create_braces sample 2 100 = Inr [\<lparr>brace_begin = 2, brace_end = 7, brace_terms = [(3, ''b''), (5, ''c'')]\<rparr>]"
    (is "_ = Inr ?braces")
proof -
  have "parse_braces sample 2 = Inr ?braces" by code_simp
  moreover have "term_counts ?braces = [2]" by (simp add: term_counts_def)
  ultimately show ?thesis by (simp add: create_braces_def)
qed

lemma sample_head: "literal_head sample = (''a/'', 2)" "check_head sample = None" "find_invalid_utf8 sample 0 = None"
proof -
  show "literal_head sample = (''a/'', 2)" "check_head sample = None" by code_simp+
  show "find_invalid_utf8 sample 0 = None"
    using well_formed_ascii [of sample False "[]"] by (simp add: find_invalid_well_formed)
qed

lemma sample_created: "\<exists>p. create False sample 100 = Some (Inr p)"
proof -
  let ?braces = "[\<lparr>brace_begin = 2, brace_end = 7, brace_terms = [(3, ''b''), (5, ''c'')]\<rparr>]"
  let ?compiled = "compile_arms False sample 2 ?braces True True False (all_choices (term_counts ?braces)) [] False"
  have ok: "list_all (brace_ok sample 2) ?braces"
    by (rule create_braces_ok [OF sample_braces]) (use headedI [OF sample_head(3,1,2)] in \<open>auto simp: headed_def\<close>)
  have "\<not> isl ?compiled" by code_simp
  then show ?thesis
    using arms_loop_all [OF ok, of False True True False]
    by (cases ?compiled) (auto simp: create_def sample_head sample_braces simp del: literal_head.simps compile_arms.simps split: prod.splits)
qed

lemma sample_matches: "glob_matches sample 100 ''a/cd''" "\<not> glob_matches sample 100 ''a/dc''"
proof -
  have e: "expansions sample 100 = [''a/b*'', ''a/c*'']"
    by (simp add: expansions_def sample_head sample_braces term_counts_def arm_text_def view_of_def upt_rec
      del: literal_head.simps)
  have "text_matches ''a/c*'' ''a/cd''" "\<not> text_matches ''a/b*'' ''a/dc''" "\<not> text_matches ''a/c*'' ''a/dc''"
    by code_simp+
  with e show "glob_matches sample 100 ''a/cd''" "\<not> glob_matches sample 100 ''a/dc''"
    by (simp_all add: glob_matches_def)
qed

text \<open>
  C3: a pattern that is created matches a path exactly where one of the brace
  expansions of its text matches it, segment by segment: a globstar any number of segments, any other
  segment one, whose tokens match its characters, a star any number of them. The literal prefix, the
  plans and modes that take shortcuts, the packed literals, the binary search over extensions and the
  two matchers that go back to the latest star only give the same answer, and always give one.
\<close>

theorem glob_match_correct:
  assumes "create big s max_arms = Some (Inr p)"
  shows "match big p str = Some (glob_matches s max_arms str)"
  using assms
proof (cases rule: create_cases)
  case (literal x)
  then have "text_matches s str \<longleftrightarrow> str = x" by (intro text_matches_literal) (auto simp: headed_def)
  with literal show ?thesis
    using expansions_literal [of s x max_arms] by (simp add: headed_def glob_matches_def match_def)
next
  case (arms x n seg_end pre braces as match_all m as')
  show ?thesis
    using created_arms(2,3) [OF arms(1,3-8)] by (simp add: arms(9))
qed

theorem glob_match_correct_witness:
  "\<exists>p. create False sample 100 = Some (Inr p) \<and> match False p ''a/cd'' = Some True \<and> match False p ''a/dc'' = Some False"
proof -
  obtain p where p: "create False sample 100 = Some (Inr p)" using sample_created by blast
  with glob_match_correct [OF p] sample_matches show ?thesis by auto
qed

text \<open>
  C14: every arm of a created pattern is one the matchers may rely on. Its literals
  are UTF-8 and not empty, the kind of each segment is the shape of its tokens, a segment after a
  globstar is not empty, the first byte kept for a segment is the one its literal starts with, and
  each flag says what it means: \<^verbatim>\<open>nullable\<close> that the segments from there on match an empty last
  segment, \<^verbatim>\<open>optional_rest\<close> that those after match nothing, \<^verbatim>\<open>absorbs_separator\<close> that the whole
  arm does. Plan, head and packed literal are those of the segments.
\<close>

theorem created_arms_typed:
  assumes "create big s max_arms = Some (Inr p)"
  shows "list_all (arm_ok big) (arms p)"
  using assms
proof (cases rule: create_cases)
  case (arms x n seg_end pre braces as match_all m as')
  then show ?thesis
    using created_arms(1) [OF arms(1,3-8)] choose_mode_set [OF arms(8)] by (auto simp: list_all_iff)
qed simp

theorem created_arms_typed_witness:
  "\<exists>p. create False sample 100 = Some (Inr p) \<and> list_all (arm_ok False) (arms p)"
  using sample_created created_arms_typed by blast

section \<open>Escaped literals\<close>

lemma escape_simps [simp]:
  "escape [] = []"
  "escape (c # l) = (if c \<in> set special_bytes then backslash # c # escape l else c # escape l)"
  by (simp_all add: escape_def)

lemma special_not_slash: "c \<in> set special_bytes \<Longrightarrow> c \<noteq> slash \<and> uchar c < 0x80"
  by (auto simp: special_bytes_def)

lemma literal_head_escaped: "literal_head (escape l) = (l, length (escape l))"
proof (induction l)
  case (Cons c l)
  have "c \<in> set wildcards \<union> {backslash} \<Longrightarrow> c \<in> set special_bytes"
    by (auto simp: wildcards_def special_bytes_def)
  with Cons special_not_slash [of c] show ?case by (auto simp: wildcards_def)
qed simp

lemma escape_well_formed: "well_formed False (v @ escape l) \<longleftrightarrow> well_formed False (v @ l)"
proof
  show "well_formed False (v @ l)" if "well_formed False (v @ escape l)"
    using literal_head_well_formed [OF literal_head_escaped that] .
  show "well_formed False (v @ escape l)" if "well_formed False (v @ l)"
    using that
  proof (induction l arbitrary: v)
    case (Cons c l)
    have "well_formed False ((v @ [c]) @ l)" using Cons.prems by simp
    note ih = Cons.IH [OF this]
    show ?case
    proof (cases "c \<in> set special_bytes")
      case True
      then have c: "uchar c < 0x80" using special_not_slash by blast
      from ih have "well_formed False (v @ c # escape l)" by simp
      from well_formed_cut [OF this refl c] have "well_formed False v" "well_formed False (escape l)" by auto
      then have "well_formed False (v @ [backslash, c] @ escape l)"
        using well_formed_ascii [of "[backslash, c]" False "escape l"] c well_formed_append by simp
      with True show ?thesis by simp
    qed (use ih in simp)
  qed simp
qed

lemma no_double_Cons: "no_double (c # w) \<longleftrightarrow> \<not> (c = slash \<and> starts_with w [slash]) \<and> no_double w"
proof (cases w)
  case (Cons d v)
  show ?thesis
  proof
    assume "no_double (c # w)"
    then show "\<not> (c = slash \<and> starts_with w [slash]) \<and> no_double w"
      using no_double_append [of "[c]" w] no_double_cons [of "[]" w] by (auto simp: Cons starts_with_def)
  next
    assume a: "\<not> (c = slash \<and> starts_with w [slash]) \<and> no_double w"
    show "no_double (c # w)" unfolding no_double_def
    proof (intro allI impI)
      fix i assume "Suc i < length (c # w)"
      with a show "\<not> ((c # w) ! i = slash \<and> (c # w) ! Suc i = slash)"
        by (cases i) (auto simp: Cons no_double_def starts_with_def)
    qed
  qed
qed (simp add: no_double_def starts_with_def)

lemma escape_no_double: "no_double (escape l) \<longleftrightarrow> no_double l"
proof (induction l)
  case (Cons c l)
  have "starts_with (escape l) [slash] \<longleftrightarrow> starts_with l [slash]"
    by (cases l) (auto simp: starts_with_def special_bytes_def)
  with Cons special_not_slash [of c] show ?case by (auto simp: no_double_Cons starts_with_def)
qed simp

text \<open>
  C28: the escape of a literal is a pattern that matches the literal and nothing
  else; there is one exactly for a literal that is UTF-8 and holds no two separators in a row, and for
  any other \<^verbatim>\<open>create\<close> says which of the two it is.
\<close>

theorem escape_matches_itself:
  "case create big (escape l) max_arms of
     None \<Rightarrow> False
   | Some (Inl e) \<Rightarrow> if is_utf8 big l then error_kind e = MultipleSlash \<and> find_text ''//'' l \<noteq> None
                     else error_kind e = InvalidUTF8
   | Some (Inr p) \<Rightarrow> is_utf8 big l \<and> find_text ''//'' l = None \<and> match big p str = Some (str = l)"
proof -
  have w: "find_invalid_utf8 (escape l) 0 = None \<longleftrightarrow> is_utf8 big l"
    using escape_well_formed [of "[]" l] by (simp add: find_invalid_well_formed is_utf8_well_formed)
  have d: "check_head (escape l)
      = map_option (\<lambda>i. glob_error MultipleSlash i (i + 2) ''multiple `/` is not allowed'') (find_text ''//'' (escape l))"
    by (simp add: check_head_def literal_head_escaped)
  have "find_text ''//'' (escape l) = None \<longleftrightarrow> find_text ''//'' l = None"
    using escape_no_double [of l] by (simp add: no_double_iff)
  with w d show ?thesis
    by (auto simp: create_def literal_head_escaped match_def glob_error_def split: option.splits)
qed


section \<open>The root of a pattern\<close>

text \<open>
  Both last separators are the same: what is cut off a pattern is a text that is all head, the
  directory with its escapes, and the rest is what the pattern goes on with.
\<close>

lemma literal_head_last_slash:
  assumes "literal_head u = (x, length u)"
  shows "\<exists>a b xa xb. u = a @ b \<and> x = xa @ xb \<and> literal_head a = (xa, length a) \<and> slash \<notin> set b \<and> slash \<notin> set xb
    \<and> (a = [] \<and> xa = [] \<or> a \<noteq> [] \<and> last a = slash \<and> xa \<noteq> [] \<and> last xa = slash)"
  using assms
proof (induction rule: literal_head_induct)
  case (escape d u x)
  then obtain a b xa xb where ih: "u = a @ b" "x = xa @ xb" "literal_head a = (xa, length a)" "slash \<notin> set b" "slash \<notin> set xb"
    "a = [] \<and> xa = [] \<or> a \<noteq> [] \<and> last a = slash \<and> xa \<noteq> [] \<and> last xa = slash" by blast
  show ?case
  proof (cases "a = []")
    case True
    with ih escape(1) show ?thesis by (intro exI [of _ "[]"] exI [of _ "backslash # d # b"] exI [of _ "d # xb"]) auto
  next
    case False
    with ih literal_head_escape [OF escape(1) ih(3)] show ?thesis
      by (intro exI [of _ "backslash # d # a"] exI [of _ b] exI [of _ "d # xa"] exI [of _ xb]) auto
  qed
next
  case (byte c u x)
  then obtain a b xa xb where ih: "u = a @ b" "x = xa @ xb" "literal_head a = (xa, length a)" "slash \<notin> set b" "slash \<notin> set xb"
    "a = [] \<and> xa = [] \<or> a \<noteq> [] \<and> last a = slash \<and> xa \<noteq> [] \<and> last xa = slash" by blast
  show ?case
  proof (cases "a = [] \<and> c \<noteq> slash")
    case True
    with ih show ?thesis by (intro exI [of _ "[]"] exI [of _ "c # b"] exI [of _ "c # xb"]) auto
  next
    case False
    with ih literal_head_byte [OF byte(1,2) ih(3)] show ?thesis
      by (intro exI [of _ "c # a"] exI [of _ b] exI [of _ "c # xa"] exI [of _ xb]) auto
  qed
qed simp

lemma after_last_slash_at:
  assumes "slash \<notin> set b" "a = [] \<or> last a = slash"
  shows "after_last_slash (a @ b) = length a"
proof (cases a rule: rev_cases)
  case Nil
  with assms find_last_char_None [of slash b] show ?thesis by (simp add: after_last_slash_def)
next
  case (snoc v c)
  with assms find_last_char_at [of slash b v] show ?thesis by (simp add: after_last_slash_def)
qed

lemma split_root_parts:
  assumes "literal_head s = (x, n)"
  obtains front xa xb where "split_root s = (xa, drop (length front) s)" "front = take (length front) s"
    "literal_head front = (xa, length front)" "x = xa @ xb" "slash \<notin> set xb" "xa = [] \<or> last xa = slash"
proof -
  have t: "n \<le> length s" "literal_head (take n s) = (x, length (take n s))" using literal_head_take [OF assms] by auto
  obtain a b xa xb where p: "take n s = a @ b" "x = xa @ xb" "literal_head a = (xa, length a)" "slash \<notin> set b" "slash \<notin> set xb"
    "a = [] \<and> xa = [] \<or> a \<noteq> [] \<and> last a = slash \<and> xa \<noteq> [] \<and> last xa = slash"
    using literal_head_last_slash [OF t(2)] by blast
  have "after_last_slash (take n s) = length a" "after_last_slash x = length xa"
    using p after_last_slash_at [of b a] after_last_slash_at [of xb xa] by auto
  then have "split_root s = (xa, drop (length a) s)" by (simp add: split_root_def assms p(2))
  moreover have "a = take (length a) s"
    using arg_cong [OF p(1), of "take (length a)"] arg_cong [OF p(1), of length] t(1) by (simp add: min_def split: if_splits)
  ultimately show thesis using that p by auto
qed

lemma split_root_cut:
  "case split_root s of (directory, rest) \<Rightarrow>
     \<exists>front. s = front @ rest \<and> literal_head front = (directory, length front)
       \<and> (directory = [] \<or> last directory = slash)"
proof -
  obtain x n where "literal_head s = (x, n)" by (cases "literal_head s")
  from split_root_parts [OF this] obtain front xa where r: "split_root s = (xa, drop (length front) s)"
    "front = take (length front) s" "literal_head front = (xa, length front)" "xa = [] \<or> last xa = slash" by metis
  have "s = front @ drop (length front) s" by (metis append_take_drop_id r(2))
  with r show ?thesis by auto
qed

text \<open>
  C27: every path a pattern matches is in the directory that \<^verbatim>\<open>split_root\<close>
  cuts off the pattern, or is that directory without its separator.
\<close>

theorem split_root_contains:
  assumes "create big s max_arms = Some (Inr p)" "match big p str = Some True" "split_root s = (directory, rest)"
  shows "starts_with str directory \<or> str @ ''/'' = directory"
  using assms(1)
proof (cases rule: create_cases)
  case (literal x)
  from split_root_parts [of s x] literal(1) assms(3) obtain xb where "x = directory @ xb"
    by (metis fst_conv headed_def)
  moreover have "str = x" using literal(2) assms(2) by (simp add: match_def)
  ultimately show ?thesis by (simp add: starts_with_def)
next
  case (arms x n seg_end pre braces as match_all m as')
  from split_root_parts [of s x n] arms(1) assms(3) obtain xb where x: "x = directory @ xb" "slash \<notin> set xb"
    by (metis fst_conv headed_def)
  obtain segs where b: "behind_prefix pre seg_end segs str"
    using created_arms(2) [OF arms(1,3-8), of str] assms(2) by (auto simp: arms(9))
  then obtain r where r: "str = pre @ r" "seg_end \<Longrightarrow> r = [] \<or> r ! 0 = slash"
    by (auto simp: behind_prefix_def starts_with_iff Let_def nth_append split: if_splits)
  show ?thesis
  proof (cases seg_end)
    case True
    then have e: "x = pre @ [slash]" using arms(3,4) by (metis append_butlast_last_id)
    then have "xb = []" using x by (cases xb rule: rev_cases) auto
    with x e have "directory = pre @ [slash]" by simp
    with r True show ?thesis by (cases r) (auto simp: starts_with_def)
  next
    case False
    with arms(4) x r show ?thesis by (auto simp: starts_with_iff)
  qed
qed

theorem split_root_contains_witness:
  "\<exists>p. create False ''a/b'' 100 = Some (Inr p) \<and> match False p ''a/b'' = Some True
    \<and> split_root ''a/b'' = (''a/'', ''b'') \<and> starts_with ''a/b'' ''a/''"
proof -
  define p where "p = \<lparr>pat_prefix = ''a/b'', prefix_at_seg_end = False, mode = ModeLiteral, arms = []\<rparr>"
  have w: "find_invalid_utf8 ''a/b'' 0 = None"
    using well_formed_ascii [of "''a/b''" False "[]"] by (simp add: find_invalid_well_formed)
  have h: "literal_head ''a/b'' = (''a/b'', 3)" "check_head ''a/b'' = None" "split_root ''a/b'' = (''a/'', ''b'')" by code_simp+
  have p: "create False ''a/b'' 100 = Some (Inr p)" by (simp add: create_def w h p_def del: literal_head.simps)
  have m: "match False p ''a/b'' = Some True" by (simp add: match_def p_def)
  from split_root_contains [OF p m h(3)] p m h(3) show ?thesis by auto
qed

section \<open>Classes\<close>

text \<open>
  The ranges of a bracket expression are merged into sorted ranges with gaps between them, and the
  search over them finds a code point exactly where a range that was written holds it.
\<close>

definition gapped :: "ranges \<Rightarrow> bool" where
  "gapped rs \<longleftrightarrow> sorted_wrt (\<lambda>a b. snd a + 1 < fst b) rs \<and> (\<forall>r\<in>set rs. fst r \<le> snd r)"

definition in_ranges :: "ranges \<Rightarrow> nat \<Rightarrow> bool" where
  "in_ranges rs cp \<longleftrightarrow> (\<exists>r\<in>set rs. fst r \<le> cp \<and> cp \<le> snd r)"

lemma bracket_loop_ordered:
  assumes "bracket_loop s it ranges held = Inr rs" "\<forall>r\<in>set ranges. fst r \<le> snd r"
  shows "\<forall>r\<in>set rs. fst r \<le> snd r"
  using assms
proof (induction s it ranges held rule: bracket_loop.induct)
  case (1 s it ranges held)
  from "1.prems"(1) show ?case
    by (subst (asm) bracket_loop.simps)
      (use 1 in \<open>auto simp: Let_def simp del: next_member_later split: if_splits option.splits prod.splits\<close>)
qed

lemma merge_step_gapped:
  assumes "gapped acc" "acc \<noteq> [] \<Longrightarrow> fst (last acc) \<le> fst r" "fst r \<le> snd r"
  shows "gapped (merge_step acc r) \<and> merge_step acc r \<noteq> [] \<and> fst (last (merge_step acc r)) \<le> fst r
    \<and> (in_ranges (merge_step acc r) cp \<longleftrightarrow> in_ranges acc cp \<or> in_ranges [r] cp)"
proof (cases acc rule: rev_cases)
  case Nil
  with assms show ?thesis by (simp add: merge_step_def gapped_def in_ranges_def)
next
  case (snoc rs q)
  have "in_ranges [(fst q, max (snd q) (snd r))] cp \<longleftrightarrow> in_ranges [q] cp \<or> in_ranges [r] cp"
    if "fst r \<le> snd q + 1" "fst q \<le> snd q" "fst q \<le> fst r"
    using that assms(3) by (auto simp: in_ranges_def max_def)
  with assms snoc show ?thesis
    by (auto simp: merge_step_def gapped_def in_ranges_def sorted_wrt_append max_def intro: less_le_trans)
qed

lemma merge_gapped:
  assumes "gapped acc" "sorted rs" "\<forall>r\<in>set rs. fst r \<le> snd r" "acc \<noteq> [] \<Longrightarrow> \<forall>r\<in>set rs. fst (last acc) \<le> fst r"
  shows "gapped (foldl merge_step acc rs)
    \<and> (in_ranges (foldl merge_step acc rs) cp \<longleftrightarrow> in_ranges acc cp \<or> in_ranges rs cp)"
  using assms
proof (induction rs arbitrary: acc)
  case (Cons r rs)
  have "gapped (merge_step acc r) \<and> merge_step acc r \<noteq> [] \<and> fst (last (merge_step acc r)) \<le> fst r
      \<and> (in_ranges (merge_step acc r) cp \<longleftrightarrow> in_ranges acc cp \<or> in_ranges [r] cp)"
    using Cons.prems by (intro merge_step_gapped) auto
  moreover have "\<forall>q\<in>set rs. fst r \<le> fst q" using Cons.prems(2) by (auto simp: less_eq_prod_def)
  then have "\<forall>q\<in>set rs. fst (last (merge_step acc r)) \<le> fst q" using calculation by (meson order_trans)
  moreover have "in_ranges (r # rs) cp \<longleftrightarrow> in_ranges [r] cp \<or> in_ranges rs cp" by (simp add: in_ranges_def)
  ultimately show ?case using Cons.IH [of "merge_step acc r"] Cons.prems(2,3) by simp
qed (simp add: in_ranges_def)

lemma contains_gapped:
  assumes "gapped rs"
  shows "contains \<lparr>negated = neg, class_ranges = rs\<rparr> cp \<longleftrightarrow> (in_ranges rs cp \<noteq> neg)"
proof -
  have "(case dropWhile (\<lambda>r. snd r < cp) rs of [] \<Rightarrow> False | r # _ \<Rightarrow> fst r \<le> cp) \<longleftrightarrow> in_ranges rs cp"
    using assms
  proof (induction rs)
    case (Cons r rs)
    have "\<not> in_ranges rs cp" if "cp \<le> snd r" using Cons.prems that by (fastforce simp: gapped_def in_ranges_def)
    with Cons show ?case by (auto simp: gapped_def in_ranges_def)
  qed (simp add: in_ranges_def)
  then show ?thesis by (auto simp: contains_def Let_def)
qed

text \<open>
  A bracket expression holds a code point exactly where one of the ranges
  written in it does, negated or not: the ranges, sorted and merged where they meet, are disjoint with
  gaps between them, so the one range the search by upper bounds finds is the only one that can hold it.
\<close>

lemma class_members_correct:
  "case bracket_loop s 0 [] None of
     Inl e \<Rightarrow> parse_bracket_charset s = Inl e
   | Inr written \<Rightarrow> \<exists>acc. parse_bracket_charset s = Inr acc \<and> gapped acc
       \<and> contains \<lparr>negated = neg, class_ranges = acc\<rparr> cp = (in_ranges written cp \<noteq> neg)"
proof (cases "bracket_loop s 0 [] None")
  case (Inr written)
  have "gapped (foldl merge_step [] (sort written))
      \<and> (in_ranges (foldl merge_step [] (sort written)) cp \<longleftrightarrow> in_ranges [] cp \<or> in_ranges (sort written) cp)"
    using bracket_loop_ordered [OF Inr] by (intro merge_gapped) (simp_all add: gapped_def)
  then have "gapped (foldl merge_step [] (sort written))"
    "in_ranges (foldl merge_step [] (sort written)) cp = in_ranges written cp" by (simp_all add: in_ranges_def)
  with Inr contains_gapped show ?thesis by (simp add: parse_bracket_charset_def)
qed (simp add: parse_bracket_charset_def)

end
