(* ===== verification/Task_Tree.thy ===== *)
theory Task_Tree
  imports Node_State
begin

text \<open>
  The task tree of the runtime (\<^verbatim>\<open>include/kotatsu/async/runtime/node.h\<close>,
  \<^verbatim>\<open>src/async/runtime/node.cpp\<close>, with \<^verbatim>\<open>task.h\<close>, \<^verbatim>\<open>when.h\<close> and
  \<^verbatim>\<open>task_group.h\<close>): tasks, the aggregates \<^verbatim>\<open>when_all\<close>, \<^verbatim>\<open>when_any\<close> and
  \<^verbatim>\<open>task_group\<close>, and the leaves, waits and pending I/O. Nodes are numbers into the state.

  The operations call each other while coroutines run in between: a cancel walks the children of an
  aggregate, and the end of a child it cancels resumes a task, whose code may cancel more. So the
  state has the call stack too. A frame is what an activation of a function still has to do; an
  operation does its work up to the first call that may run other code, and leaves the rest on the
  stack. A tail call, and resuming the coroutine an operation returns, replaces the frame. Code of a
  coroutine, of a destructor or of a callback is not modelled: while a frame of one is on top, it
  may call any operation.
\<close>

section \<open>The state\<close>

datatype NodeKind = Task | Waiter | WhenAll | WhenAny | TaskGroup | SystemIO

definition is_aggregate :: "NodeKind \<Rightarrow> bool" where
  "is_aggregate k \<longleftrightarrow> k = WhenAll \<or> k = WhenAny \<or> k = TaskGroup"

definition is_leaf :: "NodeKind \<Rightarrow> bool" where
  "is_leaf k \<longleftrightarrow> k = Waiter \<or> k = SystemIO"

datatype Decision = NoDecision | Resume | Cancel | Error

text \<open>
  The fields of a node and of the classes derived from it; a task uses those of a
  \<^verbatim>\<open>task_frame\<close>, an aggregate those of an \<^verbatim>\<open>aggregate_op\<close>. The list of the running
  children, linked through the children, is a list here. A task's \<^verbatim>\<open>hook\<close> is whether there is
  one, \<^verbatim>\<open>threw\<close> whether it holds an exception. An aggregate's \<^verbatim>\<open>exception\<close> is the child
  whose exception it keeps, its \<^verbatim>\<open>errors\<close> the children whose errors it was given, of which a
  \<^verbatim>\<open>when_all\<close> and a \<^verbatim>\<open>when_any\<close> keep the first.
\<close>

record node =
  kind :: NodeKind
  state :: State
  cancel_requested :: bool
  intercept :: bool
  parent :: "nat option"
  child :: "nat option"
  hook :: bool
  threw :: bool
  scheduled :: bool
  owned_by_loop :: bool
  children :: "nat list"
  pending :: nat
  winner :: "nat option"
  ended :: "nat list"
  decision :: Decision
  exception :: "nat option"
  errors :: "nat list"

text \<open>
  What a frame of the stack goes on with:
  \<^item> \<^verbatim>\<open>Run t\<close>: the coroutine of task \<^verbatim>\<open>t\<close> runs;
  \<^item> \<^verbatim>\<open>Deliver p c\<close>: \<^verbatim>\<open>p\<close>'s \<^verbatim>\<open>on_child_complete\<close> for \<^verbatim>\<open>c\<close>;
  \<^item> \<^verbatim>\<open>AwaitedEnded t s b\<close>: \<^verbatim>\<open>t\<close>'s \<^verbatim>\<open>awaited_ended\<close>;
  \<^item> \<^verbatim>\<open>CountOff a c\<close>: the rest of \<^verbatim>\<open>a\<close>'s \<^verbatim>\<open>child_completed\<close> after \<^verbatim>\<open>decide\<close>;
  \<^item> \<^verbatim>\<open>Cancelling n\<close>: \<^verbatim>\<open>n\<close>'s \<^verbatim>\<open>cancel\<close>;
  \<^item> \<^verbatim>\<open>CancelChildren a k\<close>: the loop of \<^verbatim>\<open>cancel_children\<close>, with \<^verbatim>\<open>k\<close> steps left;
  \<^item> \<^verbatim>\<open>Unpin a\<close>: the end of a \<^verbatim>\<open>pin\<close>'s scope, and \<^verbatim>\<open>settle_if_idle\<close>;
  \<^item> \<^verbatim>\<open>StartChildren a cs\<close>: the loop of \<^verbatim>\<open>arm\<close> that starts the children;
  \<^item> \<^verbatim>\<open>Abandon a\<close>: the loop of \<^verbatim>\<open>abandon_children\<close>;
  \<^item> \<^verbatim>\<open>Action n\<close>: what cancels a leaf, an I/O operation's \<^verbatim>\<open>action\<close> or a wait's
    \<^verbatim>\<open>cancel_wait\<close>, runs;
  \<^item> \<^verbatim>\<open>Destroy n\<close>: the frame of task \<^verbatim>\<open>n\<close> is destroyed, which runs destructors;
  \<^item> \<^verbatim>\<open>Leave\<close>, \<^verbatim>\<open>DestroyRoots\<close>, \<^verbatim>\<open>DestroyGroups\<close>: the loops of
    \<^verbatim>\<open>leave_resumption\<close> and \<^verbatim>\<open>destroy_ended\<close>.
\<close>

datatype frame =
    Run nat
  | Deliver nat nat
  | AwaitedEnded nat State bool
  | CountOff nat nat
  | Cancelling nat
  | CancelChildren nat nat
  | Unpin nat
  | StartChildren nat "nat list"
  | Abandon nat
  | Action nat
  | Destroy nat
  | Leave
  | DestroyRoots
  | DestroyGroups

text \<open>
  The state: the nodes, the stack, what is local to the thread (whether a resumption is under way,
  the roots and the groups with children that have ended), the loop's queues of tasks to start and of
  leaves to end, and whether a loop runs. \<^verbatim>\<open>owner\<close> and \<^verbatim>\<open>gone\<close> are history, which no
  operation reads: the aggregate a task is a child of, also once it has ended, and the groups whose
  destructor has run.
\<close>

record machine =
  nodes :: "nat \<Rightarrow> node"
  stack :: "frame list"
  resuming :: bool
  ended_roots :: "nat list"
  groups_with_ended :: "nat list"
  tasks :: "nat list"
  deferred :: "nat list"
  has_current :: bool
  owner :: "nat \<Rightarrow> nat option"
  gone :: "nat \<Rightarrow> bool"

definition set_node :: "nat \<Rightarrow> (node \<Rightarrow> node) \<Rightarrow> machine \<Rightarrow> machine" where
  "set_node n f m = m\<lparr>nodes := (nodes m)(n := f (nodes m n))\<rparr>"

definition push :: "frame list \<Rightarrow> machine \<Rightarrow> machine" where
  "push fs m = m\<lparr>stack := fs @ stack m\<rparr>"

text \<open>\<^verbatim>\<open>resume_and_drain\<close> up to its step: the outermost one leaves the resumption after it.\<close>

definition enter_resumption :: "machine \<Rightarrow> machine" where
  "enter_resumption m = (if resuming m then m else push [Leave] (m\<lparr>resuming := True\<rparr>))"

section \<open>Tasks\<close>

definition finish :: "nat \<Rightarrow> State \<Rightarrow> machine \<Rightarrow> machine" where
  "finish t s m =
     (let m = set_node t (\<lambda>n. n\<lparr>state := s\<rparr>) m in
      case parent (nodes m t) of
        None \<Rightarrow> if owned_by_loop (nodes m t) then m\<lparr>ended_roots := ended_roots m @ [t]\<rparr> else m
      | Some p \<Rightarrow> push [Deliver p t] (set_node t (\<lambda>n. n\<lparr>parent := None\<rparr>) m))"

definition awaited_ended :: "nat \<Rightarrow> State \<Rightarrow> bool \<Rightarrow> machine \<Rightarrow> machine" where
  "awaited_ended t s caught m =
     (let m = set_node t (\<lambda>n. n\<lparr>child := None\<rparr>) m in
      if s = Cancelled \<and> \<not> caught then finish t Cancelled m else push [Run t] m)"

definition start :: "nat \<Rightarrow> nat option \<Rightarrow> machine \<Rightarrow> machine" where
  "start t p m =
     (let m = set_node t (\<lambda>n. n\<lparr>parent := p\<rparr>) m in
      if cancel_requested (nodes m t) then finish t Cancelled m
      else push [Run t] (set_node t (\<lambda>n. n\<lparr>state := Running\<rparr>) m))"

definition awaited_by :: "nat \<Rightarrow> nat \<Rightarrow> machine \<Rightarrow> machine" where
  "awaited_by n t m = set_node t (\<lambda>r. r\<lparr>child := Some n\<rparr>)
     (set_node n (\<lambda>r. r\<lparr>parent := Some t, state := Running\<rparr>) m)"

text \<open>\<^verbatim>\<open>checkpoint\<close>, and what a suspending await goes on with when no cancel is pending.\<close>

definition checkpoint :: "nat \<Rightarrow> machine \<Rightarrow> (machine \<Rightarrow> machine) \<Rightarrow> machine" where
  "checkpoint t m go = (if cancel_requested (nodes m t) then finish t Cancelled m else go m)"

definition await_task :: "nat \<Rightarrow> nat \<Rightarrow> bool \<Rightarrow> bool \<Rightarrow> machine \<Rightarrow> machine" where
  "await_task t c caught hooked m =
     checkpoint t m (\<lambda>m. start c (Some t)
       (set_node t (\<lambda>n. n\<lparr>child := Some c\<rparr>)
         (set_node c (\<lambda>n. n\<lparr>intercept := caught, hook := hooked\<rparr>) m)))"

text \<open>How the code of a task ends: \<^verbatim>\<open>final_suspend\<close>, \<^verbatim>\<open>co_await fail\<close>, \<^verbatim>\<open>co_await cancel\<close>.\<close>

datatype ending = Returned | Erred | Threw | EndCancelled

definition end_task :: "nat \<Rightarrow> ending \<Rightarrow> machine \<Rightarrow> machine" where
  "end_task t e m =
     (case e of
        Returned \<Rightarrow> finish t (if cancel_requested (nodes m t) then Cancelled else Succeeded) m
      | Erred \<Rightarrow> finish t Failed m
      | Threw \<Rightarrow> finish t Failed (set_node t (\<lambda>n. n\<lparr>threw := True\<rparr>) m)
      | EndCancelled \<Rightarrow> finish t Cancelled m)"

section \<open>Aggregates\<close>

definition decided :: "node \<Rightarrow> bool" where
  "decided n \<longleftrightarrow> decision n \<noteq> NoDecision \<or> cancel_requested n"

definition settled_state :: "node \<Rightarrow> State" where
  "settled_state n =
     (if decision n = Error then Failed
      else if decision n = Cancel \<or> cancel_requested n then Cancelled
      else Succeeded)"

text \<open>\<^verbatim>\<open>take_ended\<close>, with the frames it gives for their destruction.\<close>

definition take_ended :: "nat \<Rightarrow> machine \<Rightarrow> nat list \<times> machine" where
  "take_ended a m =
     (ended (nodes m a),
      set_node a (\<lambda>n. n\<lparr>ended := []\<rparr>)
        (if ended (nodes m a) \<noteq> [] then m\<lparr>groups_with_ended := remove1 a (groups_with_ended m)\<rparr> else m))"

definition settle_if_idle :: "nat \<Rightarrow> machine \<Rightarrow> machine" where
  "settle_if_idle a m =
     (case parent (nodes m a) of
        None \<Rightarrow> m
      | Some p \<Rightarrow>
          if pending (nodes m a) \<noteq> 0 then m
          else let m = set_node a (\<lambda>n. n\<lparr>state := settled_state n, parent := None\<rparr>) m in
            if kind (nodes m a) \<noteq> TaskGroup then push [Deliver p a] m
            else let (frames, m) = take_ended a m
                 in push (map Destroy frames @ [AwaitedEnded p (state (nodes m a)) (intercept (nodes m a))]) m)"

text \<open>\<^verbatim>\<open>cancel_children\<close>, whose loop is the frame, and the body of \<^verbatim>\<open>cancel_all\<close>.\<close>

definition cancel_children :: "nat \<Rightarrow> machine \<Rightarrow> machine" where
  "cancel_children a m = push [CancelChildren a (length (children (nodes m a)))] m"

definition cancel_all :: "nat \<Rightarrow> machine \<Rightarrow> machine" where
  "cancel_all a m =
     cancel_children a (push [Unpin a] (set_node a (\<lambda>n. n\<lparr>pending := pending n + 1\<rparr>) m))"

definition cancel :: "nat \<Rightarrow> machine \<Rightarrow> machine" where
  "cancel n m =
     (if is_done (state (nodes m n)) \<or> cancel_requested (nodes m n) then m
      else let m = set_node n (\<lambda>r. r\<lparr>cancel_requested := True\<rparr>) m in
        case kind (nodes m n) of
          Task \<Rightarrow> (case child (nodes m n) of Some c \<Rightarrow> push [Cancelling c] m | None \<Rightarrow> m)
        | Waiter \<Rightarrow> push [Action n] m
        | SystemIO \<Rightarrow> push [Action n] m
        | _ \<Rightarrow> cancel_all n (enter_resumption m))"

text \<open>A turn of the loop of \<^verbatim>\<open>cancel_children\<close>: the head becomes the tail, and is cancelled.\<close>

definition cancel_step :: "nat \<Rightarrow> nat \<Rightarrow> machine \<Rightarrow> machine" where
  "cancel_step a k m =
     (case children (nodes m a) of
        c # cs \<Rightarrow>
          if 0 < k
          then cancel c (push [CancelChildren a (k - 1)] (set_node a (\<lambda>n. n\<lparr>children := cs @ [c]\<rparr>) m))
          else m
      | [] \<Rightarrow> m)"

definition decide :: "nat \<Rightarrow> Decision \<Rightarrow> machine \<Rightarrow> machine" where
  "decide a d m =
     (if decided (nodes m a)
      then if d = Error then set_node a (\<lambda>n. n\<lparr>decision := Error\<rparr>) m else m
      else cancel_children a (set_node a (\<lambda>n. n\<lparr>decision := d\<rparr>) m))"

text \<open>The first error or exception of a child: the hooks \<^verbatim>\<open>take_error\<close> of both aggregates.\<close>

definition take_failure :: "nat \<Rightarrow> bool \<Rightarrow> node \<Rightarrow> node" where
  "take_failure c has_thrown n =
     (if has_thrown then if exception n = None then n\<lparr>exception := Some c\<rparr> else n
      else if kind n = TaskGroup then n\<lparr>errors := errors n @ [c]\<rparr>
      else if errors n = [] then n\<lparr>errors := [c]\<rparr> else n)"

definition child_completed :: "nat \<Rightarrow> nat \<Rightarrow> machine \<Rightarrow> machine" where
  "child_completed a c m =
     (let m = push [CountOff a c] (set_node a (\<lambda>n. n\<lparr>children := remove1 c (children n)\<rparr>) m) in
      case state (nodes m c) of
        Failed \<Rightarrow> decide a Error (set_node a (take_failure c (threw (nodes m c))) m)
      | Cancelled \<Rightarrow> if kind (nodes m a) \<noteq> TaskGroup then decide a Cancel m else m
      | Succeeded \<Rightarrow>
          if kind (nodes m a) = WhenAny \<and> \<not> decided (nodes m a)
          then decide a Resume (set_node a (\<lambda>n. n\<lparr>winner := Some c\<rparr>) m)
          else m
      | _ \<Rightarrow> m)"

text \<open>The rest of \<^verbatim>\<open>child_completed\<close>.\<close>

definition count_off :: "nat \<Rightarrow> nat \<Rightarrow> machine \<Rightarrow> machine" where
  "count_off a c m =
     (let m = (if kind (nodes m a) = TaskGroup
               then set_node a (\<lambda>n. n\<lparr>ended := c # ended n\<rparr>)
                 (if ended (nodes m a) = [] then m\<lparr>groups_with_ended := a # groups_with_ended m\<rparr> else m)
               else m)
      in settle_if_idle a (set_node a (\<lambda>n. n\<lparr>pending := pending n - 1\<rparr>) m))"

definition on_child_complete :: "nat \<Rightarrow> nat \<Rightarrow> machine \<Rightarrow> machine" where
  "on_child_complete p c m =
     (if kind (nodes m p) \<noteq> Task then child_completed p c m
      else let r = nodes m c in
        if state r = Failed \<and> kind r = Task \<and> hook r \<and> \<not> threw r
        then finish p Failed (set_node p (\<lambda>n. n\<lparr>child := None\<rparr>) m)
        else awaited_ended p (state r) (intercept r) m)"

definition arm :: "nat \<Rightarrow> nat \<Rightarrow> nat list \<Rightarrow> machine \<Rightarrow> machine" where
  "arm t a cs m =
     checkpoint t m (\<lambda>m.
       let m = awaited_by a t m;
           m = set_node a (\<lambda>n. n\<lparr>pending := length cs + 1, children := children n @ cs\<rparr>) m;
           m = m\<lparr>owner := (\<lambda>c. if c \<in> set cs then Some a else owner m c)\<rparr>
       in push [StartChildren a cs, Unpin a] m)"

definition start_children :: "nat \<Rightarrow> nat list \<Rightarrow> machine \<Rightarrow> machine" where
  "start_children a cs m =
     (case cs of
        [] \<Rightarrow> m
      | c # cs \<Rightarrow> start c (Some a) (enter_resumption (push [StartChildren a cs] m)))"

text \<open>\<^verbatim>\<open>task_group::spawn\<close> and \<^verbatim>\<open>aggregate_op::spawn\<close>.\<close>

definition spawn :: "nat \<Rightarrow> nat \<Rightarrow> machine \<Rightarrow> bool \<times> machine" where
  "spawn a c m =
     (if decided (nodes m a) \<or> is_done (state (nodes m a)) then (False, m)
      else let m = set_node a (\<lambda>n. n\<lparr>children := children n @ [c], pending := pending n + 1\<rparr>) m;
               m = m\<lparr>owner := (owner m)(c := Some a)\<rparr>
           in (True, start c (Some a) (enter_resumption m)))"

definition cancel_group :: "nat \<Rightarrow> machine \<Rightarrow> machine" where
  "cancel_group a m =
     (if decided (nodes m a) \<or> is_done (state (nodes m a)) then m
      else cancel_all a (enter_resumption (set_node a (\<lambda>n. n\<lparr>decision := Resume\<rparr>) m)))"

definition await_children :: "nat \<Rightarrow> nat \<Rightarrow> machine \<Rightarrow> machine" where
  "await_children t a m =
     (let m = awaited_by a t m in
      if cancel_requested (nodes m t)
      then cancel_all a (set_node a (\<lambda>n. n\<lparr>cancel_requested := True\<rparr>) m)
      else m)"

text \<open>
  \<^verbatim>\<open>co_await group.join()\<close> by a task on top of the stack: it goes on at once where every
  child has ended, once their frames are destroyed.
\<close>

definition join :: "nat \<Rightarrow> nat \<Rightarrow> machine \<Rightarrow> machine" where
  "join t a m =
     (if pending (nodes m a) \<noteq> 0 then await_children t a m
      else let m = set_node a (\<lambda>n. n\<lparr>state := settled_state n\<rparr>) m;
               (frames, m) = take_ended a m
           in push (map Destroy frames @ [Run t]) m)"

text \<open>\<^verbatim>\<open>abandon_children\<close>: its start, and a turn of its loop.\<close>

definition abandon_children :: "nat \<Rightarrow> machine \<Rightarrow> machine" where
  "abandon_children a m =
     push [Abandon a] (set_node a (\<lambda>n. n\<lparr>cancel_requested := True\<rparr>) (m\<lparr>gone := (gone m)(a := True)\<rparr>))"

definition abandon_step :: "nat \<Rightarrow> machine \<Rightarrow> machine" where
  "abandon_step a m =
     (if ended (nodes m a) \<noteq> [] then
        let (frames, m) = take_ended a m in push (map Destroy frames @ [Abandon a]) m
      else case children (nodes m a) of
        [] \<Rightarrow> m
      | c # _ \<Rightarrow>
          let m = push [Abandon a] (set_node a (\<lambda>n. n\<lparr>children := remove1 c (children n)\<rparr>) m);
              m = m\<lparr>owner := (owner m)(c := None)\<rparr>
          in cancel c (set_node c (\<lambda>n. n\<lparr>parent := None, hook := False, owned_by_loop := True\<rparr>) m))"

section \<open>Leaves\<close>

definition attach :: "nat \<Rightarrow> nat \<Rightarrow> machine \<Rightarrow> machine" where
  "attach t i m =
     (let m = awaited_by i t m in
      if cancel_requested (nodes m t) then push [Cancelling i] m else m)"

text \<open>A wait checks for a cancel before it begins.\<close>

definition begin_wait :: "nat \<Rightarrow> nat \<Rightarrow> machine \<Rightarrow> machine" where
  "begin_wait t w m = checkpoint t m (awaited_by w t)"

text \<open>
  The end of a leaf: \<^verbatim>\<open>io_op::complete\<close>, and for a wait, which ends the same way, what
  \<^verbatim>\<open>cancel_wait\<close> and \<^verbatim>\<open>resume\<close> do last. A wait that resumes its task leaves its own
  fields as they are, which nothing reads after.
\<close>

definition complete :: "nat \<Rightarrow> machine \<Rightarrow> machine" where
  "complete i m =
     (case parent (nodes m i) of
        None \<Rightarrow> m
      | Some p \<Rightarrow>
          push [Deliver p i] (enter_resumption (set_node i (\<lambda>n. n\<lparr>
            state := if cancel_requested n then Cancelled else Succeeded, parent := None\<rparr>) m)))"

definition complete_deferred :: "nat \<Rightarrow> machine \<Rightarrow> machine" where
  "complete_deferred i m = m\<lparr>deferred := deferred m @ [i]\<rparr>"

section \<open>Roots and the end of a resumption\<close>

definition make_root :: "nat \<Rightarrow> bool \<Rightarrow> machine \<Rightarrow> machine" where
  "make_root t owned m =
     (set_node t (\<lambda>n. n\<lparr>scheduled := True, owned_by_loop := owned\<rparr>) m)\<lparr>tasks := tasks m @ [t]\<rparr>"

definition run_root :: "nat \<Rightarrow> machine \<Rightarrow> machine" where
  "run_root t m = start t None (enter_resumption m)"

text \<open>\<^verbatim>\<open>~task\<close> of a task that is scheduled and has not ended: it is let go.\<close>

definition let_go :: "nat \<Rightarrow> machine \<Rightarrow> machine" where
  "let_go t m = cancel t (set_node t (\<lambda>n. n\<lparr>owned_by_loop := True\<rparr>) m)"

definition anything_ended :: "machine \<Rightarrow> bool" where
  "anything_ended m \<longleftrightarrow> ended_roots m \<noteq> [] \<or> groups_with_ended m \<noteq> []"

definition leave_resumption :: "machine \<Rightarrow> machine" where
  "leave_resumption m =
     (if has_current m \<and> deferred m \<noteq> []
      then complete (hd (deferred m)) (push [Leave] (m\<lparr>deferred := tl (deferred m)\<rparr>))
      else if anything_ended m then push [DestroyRoots, Leave] m
      else m\<lparr>resuming := False\<rparr>)"

definition destroy_roots :: "machine \<Rightarrow> machine" where
  "destroy_roots m =
     (if ended_roots m \<noteq> []
      then push [Destroy (last (ended_roots m)), DestroyRoots] (m\<lparr>ended_roots := butlast (ended_roots m)\<rparr>)
      else push [DestroyGroups] m)"

definition destroy_groups :: "machine \<Rightarrow> machine" where
  "destroy_groups m =
     (case groups_with_ended m of
        a # _ \<Rightarrow> let (frames, m) = take_ended a m in push (map Destroy frames @ [DestroyGroups]) m
      | [] \<Rightarrow> if anything_ended m then push [DestroyRoots] m else m)"

text \<open>What the frame on top of the stack goes on with, where that is the runtime's own code.\<close>

fun run_frame :: "frame \<Rightarrow> machine \<Rightarrow> machine" where
  "run_frame (Deliver p c) m = on_child_complete p c m"
| "run_frame (AwaitedEnded t s b) m = awaited_ended t s b m"
| "run_frame (CountOff a c) m = count_off a c m"
| "run_frame (Cancelling n) m = cancel n m"
| "run_frame (CancelChildren a k) m = cancel_step a k m"
| "run_frame (Unpin a) m = settle_if_idle a (set_node a (\<lambda>n. n\<lparr>pending := pending n - 1\<rparr>) m)"
| "run_frame (StartChildren a cs) m = start_children a cs m"
| "run_frame (Abandon a) m = abandon_step a m"
| "run_frame Leave m = leave_resumption m"
| "run_frame DestroyRoots m = destroy_roots m"
| "run_frame DestroyGroups m = destroy_groups m"
| "run_frame (Run t) m = m"
| "run_frame (Action i) m = m"
| "run_frame (Destroy n) m = m"

end
