(* ===== verification/Task_Inv.thy ===== *)
theory Task_Inv
  imports Task_Tree
begin

text \<open>
  The invariant of the task tree, and that the elementary changes of a task keep it: it ends, goes on,
  awaits, starts, and an aggregate links children. An operation of \<^verbatim>\<open>Task_Tree\<close> is a few of these;
  what it does besides, to fields and frames the invariant does not read, is left out by
  \<^verbatim>\<open>same_core\<close>.
\<close>

section \<open>The invariant\<close>

abbreviation kind_at :: "machine \<Rightarrow> nat \<Rightarrow> NodeKind" where
  "kind_at m n \<equiv> kind (nodes m n)"

abbreviation state_at :: "machine \<Rightarrow> nat \<Rightarrow> State" where
  "state_at m n \<equiv> state (nodes m n)"

definition tally :: "(frame \<Rightarrow> bool) \<Rightarrow> machine \<Rightarrow> nat" where
  "tally P m = length (filter P (stack m))"

fun resumes :: "nat \<Rightarrow> frame \<Rightarrow> bool" where
  "resumes t (Run n) = (n = t)"
| "resumes t (Deliver p c) = (p = t)"
| "resumes t (AwaitedEnded n s b) = (n = t)"
| "resumes t f = False"

fun delivers :: "nat \<Rightarrow> frame \<Rightarrow> bool" where
  "delivers n (Deliver p c) = (c = n)"
| "delivers n f = False"

fun holds :: "nat \<Rightarrow> frame \<Rightarrow> bool" where
  "holds a (Unpin b) = (b = a)"
| "holds a (CountOff b c) = (b = a)"
| "holds a f = False"

fun to_start :: "frame \<Rightarrow> nat list" where
  "to_start (StartChildren a cs) = cs"
| "to_start f = []"

definition starts :: "nat \<Rightarrow> frame \<Rightarrow> bool" where
  "starts c f \<longleftrightarrow> c \<in> set (to_start f)"

fun uses :: "nat \<Rightarrow> frame \<Rightarrow> bool" where
  "uses a (Deliver b c) = (b = a \<or> c = a)"
| "uses a (CountOff b c) = (b = a)"
| "uses a (Cancelling b) = (b = a)"
| "uses a (CancelChildren b k) = (b = a)"
| "uses a (Unpin b) = (b = a)"
| "uses a (StartChildren b cs) = (b = a \<and> cs \<noteq> [])"
| "uses a (Abandon b) = (b = a)"
| "uses a f = False"

fun ordered :: "frame list \<Rightarrow> bool" where
  "ordered [] = True"
| "ordered (Abandon a # fs) = (ordered fs \<and> list_all (\<lambda>f. \<not> uses a f) fs)"
| "ordered (f # fs) = ordered fs"

definition awaits :: "machine \<Rightarrow> nat \<Rightarrow> bool" where
  "awaits m t \<longleftrightarrow> (case child (nodes m t) of None \<Rightarrow> False | Some c \<Rightarrow> parent (nodes m c) = Some t)"

definition tasks_ok :: "machine \<Rightarrow> bool" where
  "tasks_ok m \<longleftrightarrow> (\<forall>t. kind_at m t = Task \<longrightarrow>
     tally (resumes t) m = (if state_at m t = Running \<and> \<not> awaits m t then 1 else 0)
     \<and> (awaits m t \<longrightarrow> state_at m t = Running))"

definition parents_ok :: "machine \<Rightarrow> bool" where
  "parents_ok m \<longleftrightarrow> (\<forall>c p. parent (nodes m c) = Some p \<longrightarrow> state_at m c = Running
     \<and> (kind_at m p = Task \<and> child (nodes m p) = Some c
        \<or> is_aggregate (kind_at m p) \<and> kind_at m c = Task \<and> c \<in> set (children (nodes m p))))"

definition others_ok :: "machine \<Rightarrow> bool" where
  "others_ok m \<longleftrightarrow> (\<forall>n. kind_at m n \<noteq> Task \<and> state_at m n = Running \<longrightarrow> parent (nodes m n) \<noteq> None)
     \<and> (\<forall>t c. child (nodes m t) = Some c \<longrightarrow> state_at m c \<noteq> Pending)"

definition children_ok :: "machine \<Rightarrow> bool" where
  "children_ok m \<longleftrightarrow> (\<forall>a. distinct (children (nodes m a))
     \<and> (\<forall>c\<in>set (children (nodes m a)). is_aggregate (kind_at m a) \<and> kind_at m c = Task \<and> owner m c = Some a
          \<and> (parent (nodes m c) = Some a
             \<or> is_done (state_at m c) \<and> Deliver a c \<in> set (stack m)
             \<or> state_at m c = Pending \<and> (\<exists>cs. StartChildren a cs \<in> set (stack m) \<and> c \<in> set cs))))"

definition reached :: "machine \<Rightarrow> nat \<Rightarrow> bool" where
  "reached m c \<longleftrightarrow> cancel_requested (nodes m c) \<or> is_done (state_at m c)"

fun frame_ok :: "machine \<Rightarrow> frame \<Rightarrow> bool" where
  "frame_ok m (Run t) \<longleftrightarrow> kind_at m t = Task"
| "frame_ok m (Deliver p c) \<longleftrightarrow> is_done (state_at m c) \<and> parent (nodes m c) = None
     \<and> (kind_at m p = Task \<or> is_aggregate (kind_at m p) \<and> kind_at m c = Task \<and> c \<in> set (children (nodes m p)))"
| "frame_ok m (AwaitedEnded t s b) \<longleftrightarrow> kind_at m t = Task"
| "frame_ok m (CountOff a c) \<longleftrightarrow> is_aggregate (kind_at m a)"
| "frame_ok m (Cancelling n) \<longleftrightarrow> state_at m n \<noteq> Pending \<or> kind_at m n = Task"
| "frame_ok m (CancelChildren a k) \<longleftrightarrow> is_aggregate (kind_at m a) \<and> decided (nodes m a)
     \<and> (\<forall>c\<in>set (drop k (children (nodes m a))). reached m c)"
| "frame_ok m (Unpin a) \<longleftrightarrow> is_aggregate (kind_at m a)"
| "frame_ok m (StartChildren a cs) \<longleftrightarrow> (\<forall>c\<in>set cs. c \<in> set (children (nodes m a)) \<and> state_at m c = Pending) \<and> distinct cs"
| "frame_ok m (Abandon a) \<longleftrightarrow> kind_at m a = TaskGroup \<and> gone m a \<and> cancel_requested (nodes m a)"
| "frame_ok m f \<longleftrightarrow> True"

definition frames_ok :: "machine \<Rightarrow> bool" where
  "frames_ok m \<longleftrightarrow> (\<forall>f\<in>set (stack m). frame_ok m f) \<and> ordered (stack m)
     \<and> (\<forall>c. tally (delivers c) m \<le> 1) \<and> (\<forall>c. tally (starts c) m \<le> 1)"

definition held :: "machine \<Rightarrow> nat \<Rightarrow> nat" where
  "held m a = length (children (nodes m a)) + tally (holds a) m"

definition pending_ok :: "machine \<Rightarrow> bool" where
  "pending_ok m \<longleftrightarrow> (\<forall>a. is_aggregate (kind_at m a) \<longrightarrow> held m a \<le> pending (nodes m a)
     \<and> (\<not> gone m a \<longrightarrow> pending (nodes m a) = held m a))"

definition settled_ok :: "machine \<Rightarrow> bool" where
  "settled_ok m \<longleftrightarrow> (\<forall>a. is_aggregate (kind_at m a) \<longrightarrow>
     (parent (nodes m a) \<noteq> None \<longrightarrow> 0 < pending (nodes m a) \<and> \<not> gone m a)
     \<and> (is_done (state_at m a) \<longrightarrow> held m a = 0)
     \<and> (kind_at m a \<noteq> TaskGroup \<longrightarrow> \<not> gone m a)
     \<and> (kind_at m a = TaskGroup \<and> state_at m a = Pending \<and> \<not> gone m a \<longrightarrow> \<not> cancel_requested (nodes m a))
     \<and> (kind_at m a \<noteq> TaskGroup \<and> state_at m a = Pending \<longrightarrow> pending (nodes m a) = 0
          \<and> decision (nodes m a) = NoDecision \<and> \<not> cancel_requested (nodes m a) \<and> (\<forall>c. owner m c \<noteq> Some a)))"

definition cancels_ok :: "machine \<Rightarrow> bool" where
  "cancels_ok m \<longleftrightarrow> (\<forall>a. is_aggregate (kind_at m a) \<and> decided (nodes m a) \<longrightarrow>
       (\<exists>k. CancelChildren a k \<in> set (stack m)) \<or> Abandon a \<in> set (stack m)
       \<or> (\<forall>c\<in>set (children (nodes m a)). reached m c))
     \<and> (\<forall>t c. parent (nodes m c) = Some t \<and> kind_at m t = Task \<and> cancel_requested (nodes m t) \<longrightarrow>
       cancel_requested (nodes m c) \<or> Cancelling c \<in> set (stack m))"

definition owners_ok :: "machine \<Rightarrow> bool" where
  "owners_ok m \<longleftrightarrow> (\<forall>c a. owner m c = Some a \<longrightarrow> is_aggregate (kind_at m a) \<and> kind_at m c = Task
     \<and> (c \<in> set (children (nodes m a)) \<or> is_done (state_at m c)))"

definition roots_ok :: "machine \<Rightarrow> bool" where
  "roots_ok m \<longleftrightarrow> distinct (tasks m) \<and> (\<forall>t\<in>set (tasks m). kind_at m t = Task \<and> state_at m t = Pending
       \<and> owner m t = None \<and> scheduled (nodes m t))
     \<and> distinct (deferred m) \<and> (\<forall>i\<in>set (deferred m). is_leaf (kind_at m i) \<and> state_at m i = Running)"

definition tree_inv :: "machine \<Rightarrow> bool" where
  "tree_inv m \<longleftrightarrow> tasks_ok m \<and> parents_ok m \<and> others_ok m \<and> children_ok m \<and> frames_ok m
     \<and> pending_ok m \<and> settled_ok m \<and> cancels_ok m \<and> owners_ok m \<and> roots_ok m"

lemmas tree_defs = tasks_ok_def parents_ok_def others_ok_def children_ok_def frames_ok_def
  pending_ok_def settled_ok_def cancels_ok_def owners_ok_def roots_ok_def

lemma kind_simps [simp]:
  "\<not> is_aggregate Task" "\<not> is_aggregate Waiter" "\<not> is_aggregate SystemIO"
  "is_aggregate WhenAll" "is_aggregate WhenAny" "is_aggregate TaskGroup"
  "\<not> is_leaf Task" "is_leaf Waiter" "is_leaf SystemIO"
  "\<not> is_leaf WhenAll" "\<not> is_leaf WhenAny" "\<not> is_leaf TaskGroup"
  by (simp_all add: is_aggregate_def is_leaf_def)

lemma tally_push [simp]: "tally P (push fs m) = length (filter P fs) + tally P m"
  by (simp add: tally_def push_def)

lemma push_sels [simp]:
  "nodes (push fs m) = nodes m" "stack (push fs m) = fs @ stack m" "resuming (push fs m) = resuming m"
  "ended_roots (push fs m) = ended_roots m" "groups_with_ended (push fs m) = groups_with_ended m"
  "tasks (push fs m) = tasks m" "deferred (push fs m) = deferred m" "has_current (push fs m) = has_current m"
  "owner (push fs m) = owner m" "gone (push fs m) = gone m"
  by (simp_all add: push_def)

lemma set_node_sels [simp]:
  "nodes (set_node n f m) = (nodes m)(n := f (nodes m n))" "stack (set_node n f m) = stack m"
  "resuming (set_node n f m) = resuming m" "ended_roots (set_node n f m) = ended_roots m"
  "groups_with_ended (set_node n f m) = groups_with_ended m" "tasks (set_node n f m) = tasks m"
  "deferred (set_node n f m) = deferred m" "has_current (set_node n f m) = has_current m"
  "owner (set_node n f m) = owner m" "gone (set_node n f m) = gone m"
  by (simp_all add: set_node_def)

lemma tally_other [simp]:
  "tally P (set_node n f m) = tally P m"
  "tally P (m\<lparr>stack := fs\<rparr>) = length (filter P fs)"
  "tally P (m\<lparr>resuming := b\<rparr>) = tally P m" "tally P (m\<lparr>ended_roots := r\<rparr>) = tally P m"
  "tally P (m\<lparr>groups_with_ended := r\<rparr>) = tally P m" "tally P (m\<lparr>deferred := r\<rparr>) = tally P m"
  "tally P (m\<lparr>tasks := r\<rparr>) = tally P m" "tally P (m\<lparr>owner := ow\<rparr>) = tally P m" "tally P (m\<lparr>gone := g\<rparr>) = tally P m"
  by (simp_all add: tally_def)

section \<open>What the invariant depends on\<close>

fun inert :: "frame \<Rightarrow> bool" where
  "inert (Action n) = True"
| "inert (Destroy n) = True"
| "inert Leave = True"
| "inert DestroyRoots = True"
| "inert DestroyGroups = True"
| "inert (StartChildren a cs) = (cs = [])"
| "inert f = False"

definition core :: "node \<Rightarrow> NodeKind \<times> State \<times> bool \<times> nat option \<times> nat option \<times> nat list \<times> nat \<times> Decision \<times> bool" where
  "core n = (kind n, state n, cancel_requested n, parent n, child n, children n, pending n, decision n, scheduled n)"

definition same_core :: "machine \<Rightarrow> machine \<Rightarrow> bool" where
  "same_core m m' \<longleftrightarrow> (\<forall>n. core (nodes m n) = core (nodes m' n))
     \<and> filter (\<lambda>f. \<not> inert f) (stack m) = filter (\<lambda>f. \<not> inert f) (stack m')
     \<and> tasks m = tasks m' \<and> deferred m = deferred m' \<and> owner m = owner m' \<and> gone m = gone m'"

lemma same_core_node: "same_core m m' \<Longrightarrow>
    kind_at m n = kind_at m' n \<and> state_at m n = state_at m' n
    \<and> cancel_requested (nodes m n) = cancel_requested (nodes m' n) \<and> parent (nodes m n) = parent (nodes m' n)
    \<and> child (nodes m n) = child (nodes m' n) \<and> children (nodes m n) = children (nodes m' n)
    \<and> pending (nodes m n) = pending (nodes m' n) \<and> decision (nodes m n) = decision (nodes m' n)
    \<and> scheduled (nodes m n) = scheduled (nodes m' n)"
  by (simp add: same_core_def core_def)

lemma ordered_inert: "ordered (filter (\<lambda>f. \<not> inert f) fs) = ordered fs"
proof (induction fs)
  case (Cons f fs)
  have "list_all (\<lambda>f. \<not> uses a f) (filter (\<lambda>f. \<not> inert f) fs) = list_all (\<lambda>f. \<not> uses a f) fs" for a
  proof -
    have "inert f \<Longrightarrow> \<not> uses a f" for f by (cases f) auto
    then show ?thesis by (auto simp: list_all_iff)
  qed
  with Cons show ?case by (cases f) auto
qed simp

lemma same_core_mem: "same_core m m' \<Longrightarrow> \<not> inert f \<Longrightarrow> f \<in> set (stack m) \<longleftrightarrow> f \<in> set (stack m')"
  unfolding same_core_def by (metis (mono_tags, lifting) mem_Collect_eq set_filter)

lemma same_core_tally:
  assumes "same_core m m'" "\<And>f. P f \<Longrightarrow> \<not> inert f"
  shows "tally P m = tally P m'"
proof -
  have "filter P fs = filter P (filter (\<lambda>f. \<not> inert f) fs)" for fs
    using assms(2) by (auto simp: filter_filter intro!: filter_cong)
  then show ?thesis using assms(1) unfolding same_core_def tally_def by metis
qed

lemma same_core_inv:
  assumes "same_core m m'"
  shows "tree_inv m \<longleftrightarrow> tree_inv m'"
proof -
  note n = same_core_node [OF assms]
  have o: "owner m = owner m'" "gone m = gone m'" "tasks m = tasks m'" "deferred m = deferred m'"
    using assms by (auto simp: same_core_def)
  have inert: "resumes t f \<Longrightarrow> \<not> inert f" "delivers t f \<Longrightarrow> \<not> inert f" "holds t f \<Longrightarrow> \<not> inert f" "starts t f \<Longrightarrow> \<not> inert f" for t f
    by (cases f; auto simp: starts_def)+
  note t = same_core_tally [OF assms, of "resumes _", OF inert(1)] same_core_tally [OF assms, of "delivers _", OF inert(2)]
    same_core_tally [OF assms, of "holds _", OF inert(3)] same_core_tally [OF assms, of "starts _", OF inert(4)]
  note mem = same_core_mem [OF assms]
  have ord: "ordered (stack m) = ordered (stack m')"
    using assms ordered_inert unfolding same_core_def by metis
  have fr: "frame_ok m f = frame_ok m' f" for f
    by (cases f) (auto simp: n o decided_def reached_def)
  have "(\<forall>f\<in>set (stack m). frame_ok m f) = (\<forall>f\<in>set (stack m'). frame_ok m' f)"
  proof -
    have "inert f \<Longrightarrow> frame_ok k f" for f k by (cases f) auto
    with fr mem show ?thesis by metis
  qed
  moreover have "StartChildren a cs \<in> set (stack m) \<and> c \<in> set cs \<longleftrightarrow> StartChildren a cs \<in> set (stack m') \<and> c \<in> set cs" for a c cs
    using mem [of "StartChildren a cs"] by (cases cs) auto
  moreover have "awaits m k = awaits m' k" for k using n by (simp add: awaits_def split: option.split)
  ultimately show ?thesis using n o t mem ord
    unfolding tree_inv_def tree_defs held_def decided_def reached_def by simp
qed

section \<open>The end of a task\<close>

abbreviation popped :: "machine \<Rightarrow> machine" where
  "popped m \<equiv> m\<lparr>stack := tl (stack m)\<rparr>"

lemma tree_invD: "tree_inv m \<Longrightarrow> tasks_ok m" "tree_inv m \<Longrightarrow> parents_ok m" "tree_inv m \<Longrightarrow> others_ok m"
  "tree_inv m \<Longrightarrow> children_ok m" "tree_inv m \<Longrightarrow> frames_ok m" "tree_inv m \<Longrightarrow> pending_ok m" "tree_inv m \<Longrightarrow> settled_ok m"
  "tree_inv m \<Longrightarrow> cancels_ok m" "tree_inv m \<Longrightarrow> owners_ok m" "tree_inv m \<Longrightarrow> roots_ok m"
  by (simp_all add: tree_inv_def)

lemma running_top:
  assumes "tree_inv m" "stack m = Run t # fs"
  shows "kind_at m t = Task" "state_at m t = Running" "\<not> awaits m t" "filter (resumes t) fs = []"
proof -
  show k: "kind_at m t = Task" using tree_invD(5) [OF assms(1)] assms(2) by (simp add: frames_ok_def)
  with tree_invD(1) [OF assms(1)] assms(2) show "state_at m t = Running" "\<not> awaits m t" "filter (resumes t) fs = []"
    by (auto simp: tasks_ok_def tally_def split: if_splits dest!: spec [of _ t])
qed

lemma parent_task:
  assumes "parents_ok m" "parent (nodes m c) = Some p" "kind_at m p = Task"
  shows "child (nodes m p) = Some c" "state_at m c = Running" "awaits m p"
proof -
  from assms(1,2) have "state_at m c = Running \<and> (kind_at m p = Task \<and> child (nodes m p) = Some c \<or> is_aggregate (kind_at m p))"
    unfolding parents_ok_def by blast
  with assms(2,3) show "child (nodes m p) = Some c" "state_at m c = Running" "awaits m p"
    by (auto simp: awaits_def)
qed

lemma parent_aggregate:
  assumes "parents_ok m" "parent (nodes m c) = Some p" "kind_at m p \<noteq> Task"
  shows "is_aggregate (kind_at m p)" "kind_at m c = Task" "state_at m c = Running" "c \<in> set (children (nodes m p))"
  using assms unfolding parents_ok_def by blast+

lemma member_parent:
  assumes "children_ok m" "c \<in> set (children (nodes m a))" "state_at m c = Running"
  shows "parent (nodes m c) = Some a"
  using assms unfolding children_ok_def by fastforce

lemma member_aggregate: "children_ok m \<Longrightarrow> c \<in> set (children (nodes m a)) \<Longrightarrow> is_aggregate (kind_at m a) \<and> kind_at m c = Task \<and> owner m c = Some a"
  unfolding children_ok_def by blast

lemma awaits_stack [simp]: "awaits (m\<lparr>stack := fs\<rparr>) n = awaits m n" "awaits (push gs m) n = awaits m n"
  by (simp_all add: awaits_def split: option.split)

text \<open>What operations keep of every node.\<close>

definition grows :: "machine \<Rightarrow> machine \<Rightarrow> bool" where
  "grows m m' \<longleftrightarrow> (\<forall>n. kind_at m' n = kind_at m n \<and> (state_at m n \<noteq> Pending \<longrightarrow> state_at m' n \<noteq> Pending)
     \<and> (is_done (state_at m n) \<longrightarrow> state_at m' n = state_at m n)
     \<and> (is_done (state_at m n) \<and> parent (nodes m n) = None \<longrightarrow> parent (nodes m' n) = None)
     \<and> (cancel_requested (nodes m n) \<longrightarrow> cancel_requested (nodes m' n))
     \<and> (decision (nodes m n) \<noteq> NoDecision \<longrightarrow> decision (nodes m' n) \<noteq> NoDecision)
     \<and> (gone m n \<longrightarrow> gone m' n))"

fun lists :: "frame \<Rightarrow> nat option" where
  "lists (Deliver p c) = Some p"
| "lists (CancelChildren a k) = Some a"
| "lists (StartChildren a cs) = Some a"
| "lists f = None"

lemma reached_grows: "grows m m' \<Longrightarrow> reached m c \<Longrightarrow> reached m' c"
  by (auto simp: grows_def reached_def)

lemma decided_grows: "grows m m' \<Longrightarrow> decided (nodes m a) \<Longrightarrow> decided (nodes m' a)"
  by (auto simp: grows_def decided_def)

lemma frame_grows:
  assumes "grows m m'" "frame_ok m f" "\<And>a. lists f = Some a \<Longrightarrow> children (nodes m' a) = children (nodes m a)"
    "\<And>c. c \<in> set (to_start f) \<Longrightarrow> state_at m' c = Pending"
  shows "frame_ok m' f"
proof -
  have k: "kind_at m' n = kind_at m n" "state_at m n \<noteq> Pending \<Longrightarrow> state_at m' n \<noteq> Pending"
    "is_done (state_at m n) \<Longrightarrow> state_at m' n = state_at m n"
    "is_done (state_at m n) \<Longrightarrow> parent (nodes m n) = None \<Longrightarrow> parent (nodes m' n) = None"
    "gone m n \<Longrightarrow> gone m' n" "cancel_requested (nodes m n) \<Longrightarrow> cancel_requested (nodes m' n)" for n
    using assms(1) by (simp_all add: grows_def)
  show ?thesis
    using assms(2-4) k decided_grows [OF assms(1)] reached_grows [OF assms(1)] by (cases f) auto
qed

lemma owned: "owners_ok m \<Longrightarrow> owner m c = Some a \<Longrightarrow>
    is_aggregate (kind_at m a) \<and> kind_at m c = Task \<and> (c \<in> set (children (nodes m a)) \<or> is_done (state_at m c))"
  unfolding owners_ok_def by blast

lemma owners_okI:
  assumes "owners_ok m" "grows m m'"
    and "\<And>c a. owner m' c = Some a \<Longrightarrow> owner m c = Some a \<or> is_aggregate (kind_at m a) \<and> kind_at m c = Task"
    and "\<And>c a. owner m' c = Some a \<Longrightarrow> c \<in> set (children (nodes m a)) \<or> owner m c \<noteq> Some a
      \<Longrightarrow> c \<in> set (children (nodes m' a)) \<or> is_done (state_at m' c)"
  shows "owners_ok m'"
  unfolding owners_ok_def
proof (intro allI impI)
  fix c a assume o: "owner m' c = Some a"
  have k: "kind_at m' n = kind_at m n" "is_done (state_at m n) \<Longrightarrow> is_done (state_at m' n)" for n
    using assms(2) by (auto simp: grows_def)
  from assms(3,4) [OF o] k show "is_aggregate (kind_at m' a) \<and> kind_at m' c = Task
      \<and> (c \<in> set (children (nodes m' a)) \<or> is_done (state_at m' c))"
    using owned [OF assms(1), of c a] by metis
qed

lemma cancels_okI:
  assumes "cancels_ok m" "grows m m'"
    and A: "\<And>a. is_aggregate (kind_at m a) \<Longrightarrow> decided (nodes m' a) \<Longrightarrow>
      decided (nodes m a) \<and> set (children (nodes m' a)) \<subseteq> set (children (nodes m a))
        \<and> (\<forall>k. CancelChildren a k \<in> set (stack m) \<longrightarrow> CancelChildren a k \<in> set (stack m'))
        \<and> (Abandon a \<in> set (stack m) \<longrightarrow> Abandon a \<in> set (stack m'))
      \<or> (\<exists>k. CancelChildren a k \<in> set (stack m')) \<or> Abandon a \<in> set (stack m')
      \<or> (\<forall>c\<in>set (children (nodes m' a)). reached m' c)"
    and B: "\<And>t c. parent (nodes m' c) = Some t \<Longrightarrow> kind_at m t = Task \<Longrightarrow> cancel_requested (nodes m' t) \<Longrightarrow>
      parent (nodes m c) = Some t \<and> cancel_requested (nodes m t) \<and> (Cancelling c \<in> set (stack m) \<longrightarrow> Cancelling c \<in> set (stack m'))
      \<or> cancel_requested (nodes m' c) \<or> Cancelling c \<in> set (stack m')"
  shows "cancels_ok m'"
proof -
  have k: "kind_at m' n = kind_at m n" "cancel_requested (nodes m n) \<Longrightarrow> cancel_requested (nodes m' n)" for n
    using assms(2) by (auto simp: grows_def)
  show ?thesis
    unfolding cancels_ok_def
  proof (intro conjI allI impI)
    fix a assume a: "is_aggregate (kind_at m' a) \<and> decided (nodes m' a)"
    then show "(\<exists>k. CancelChildren a k \<in> set (stack m')) \<or> Abandon a \<in> set (stack m')
        \<or> (\<forall>c\<in>set (children (nodes m' a)). reached m' c)"
      using A [of a] assms(1) reached_grows [OF assms(2)] unfolding cancels_ok_def k by blast
  next
    fix t c assume "parent (nodes m' c) = Some t \<and> kind_at m' t = Task \<and> cancel_requested (nodes m' t)"
    then show "cancel_requested (nodes m' c) \<or> Cancelling c \<in> set (stack m')"
      using B [of c t] assms(1) k(2) unfolding cancels_ok_def k by blast
  qed
qed

lemma member_cases:
  assumes "children_ok m" "c \<in> set (children (nodes m a))"
  shows "parent (nodes m c) = Some a \<or> is_done (state_at m c) \<and> Deliver a c \<in> set (stack m)
    \<or> state_at m c = Pending \<and> (\<exists>cs. StartChildren a cs \<in> set (stack m) \<and> c \<in> set cs)"
  using assms unfolding children_ok_def by blast

lemma frames_okI:
  assumes "frames_ok m" "grows m m'" "set fs \<subseteq> set (stack m)" "stack m' = gs @ fs"
    and "\<And>h. h \<in> set fs \<Longrightarrow> frame_ok m h \<Longrightarrow> (\<forall>a. lists h = Some a \<longrightarrow> children (nodes m' a) = children (nodes m a)) \<or> frame_ok m' h"
    and "\<And>h c. h \<in> set fs \<Longrightarrow> c \<in> set (to_start h) \<Longrightarrow> state_at m' c = Pending"
    and "\<And>h. h \<in> set gs \<Longrightarrow> frame_ok m' h" and "ordered (gs @ fs)"
    and "\<And>c. length (filter (delivers c) (gs @ fs)) \<le> 1" "\<And>a. length (filter (starts a) (gs @ fs)) \<le> 1"
  shows "frames_ok m'"
proof -
  have "frame_ok m' h" if "h \<in> set fs" for h
  proof -
    have "frame_ok m h" using assms(1,3) that by (auto simp: frames_ok_def)
    with assms(5) [OF that this] frame_grows [OF assms(2) this] assms(6) [OF that] show ?thesis by blast
  qed
  with assms show ?thesis by (auto simp: frames_ok_def tally_def)
qed

lemma frames_tail:
  assumes "frames_ok m" "stack m = f # fs"
  shows "ordered fs" "length (filter (delivers c) fs) \<le> 1" "length (filter (starts a) fs) \<le> 1"
    "\<And>h. h \<in> set fs \<Longrightarrow> frame_ok m h" "frame_ok m f"
proof -
  show "ordered fs" using assms by (cases f) (auto simp: frames_ok_def)
  show "length (filter (delivers c) fs) \<le> 1" "length (filter (starts a) fs) \<le> 1"
    using assms unfolding frames_ok_def tally_def by (metis (no_types, lifting) Suc_le_mono filter.simps(2) le_SucI length_Cons list.sel(3) One_nat_def)+
  show "\<And>h. h \<in> set fs \<Longrightarrow> frame_ok m h" "frame_ok m f" using assms by (auto simp: frames_ok_def)
qed

lemma no_delivery: "frames_ok m \<Longrightarrow> set fs \<subseteq> set (stack m) \<Longrightarrow> \<not> is_done (state_at m c) \<Longrightarrow> filter (delivers c) fs = []"
  unfolding frames_ok_def filter_empty_conv by (metis delivers.elims(2) frame_ok.simps(2) subsetD)

lemma to_start_pending:
  assumes "frames_ok m" "h \<in> set (stack m)" "c \<in> set (to_start h)"
  shows "state_at m c = Pending" "\<exists>a. c \<in> set (children (nodes m a))"
proof -
  have "frame_ok m h" using assms(1,2) by (simp add: frames_ok_def)
  with assms(3) show "state_at m c = Pending" "\<exists>a. c \<in> set (children (nodes m a))" by (cases h; auto)+
qed

section \<open>The end of a task\<close>

definition finished :: "nat \<Rightarrow> State \<Rightarrow> machine \<Rightarrow> machine" where
  "finished t s m = (let p = parent (nodes m t) in
     push (case p of None \<Rightarrow> [] | Some p \<Rightarrow> [Deliver p t]) (set_node t (\<lambda>n. n\<lparr>state := s, parent := None\<rparr>) m))"

lemma finish_core: "same_core (finish t s m) (finished t s m)"
  by (auto simp: finish_def finished_def same_core_def core_def Let_def split: option.split)

lemma finished_sels [simp]:
  "nodes (finished t s m) = (nodes m)(t := (nodes m t)\<lparr>state := s, parent := None\<rparr>)"
  "owner (finished t s m) = owner m" "gone (finished t s m) = gone m" "tasks (finished t s m) = tasks m"
  "deferred (finished t s m) = deferred m"
  "stack (finished t s m) = (case parent (nodes m t) of None \<Rightarrow> [] | Some p \<Rightarrow> [Deliver p t]) @ stack m"
  by (simp_all add: finished_def Let_def)

lemma finished_awaits:
  assumes "parents_ok m" "kind_at m n = Task"
  shows "awaits (finished t s m) n \<longleftrightarrow> awaits m n \<and> parent (nodes m t) \<noteq> Some n"
  using parent_task(1) [OF assms(1) _ assms(2), of t]
  by (auto simp: awaits_def split: option.split)

lemma finished_inv:
  assumes "tree_inv m" "stack m = Run t # fs" "is_done s"
  shows "tree_inv (finished t s (m\<lparr>stack := fs\<rparr>))" (is "tree_inv ?m")
proof -
  note i = tree_invD [OF assms(1)]
  note r = running_top [OF assms(1,2)]
  have s: "s \<noteq> Running" "s \<noteq> Pending" using assms(3) by auto
  have g: "grows m ?m" using r(2) assms(3) by (auto simp: grows_def)
  note gr = reached_grows [OF g] decided_grows [OF g]
  have "tasks_ok ?m"
    unfolding tasks_ok_def
  proof (intro allI impI)
    fix n assume "kind_at ?m n = Task"
    then have k: "kind_at m n = Task" by (simp split: if_splits)
    have p: "parents_ok (m\<lparr>stack := fs\<rparr>)" using i(2) by (simp add: parents_ok_def)
    note w = parent_task(3) [OF i(2) _ k, of t]
    have "tally (resumes n) ?m = (if parent (nodes m t) = Some n then 1 else 0) + length (filter (resumes n) fs)"
      by (simp add: tally_def split: option.split)
    moreover have "tally (resumes n) m = (if n = t then 1 else 0) + length (filter (resumes n) fs)"
      by (simp add: tally_def assms(2))
    moreover have "state_at ?m n = (if n = t then s else state_at m n)" by simp
    ultimately show "tally (resumes n) ?m = (if state_at ?m n = Running \<and> \<not> awaits ?m n then 1 else 0)
        \<and> (awaits ?m n \<longrightarrow> state_at ?m n = Running)"
      using i(1) [unfolded tasks_ok_def, rule_format, OF k] finished_awaits [OF p, of n t s] k w r s
      by (cases "n = t"; cases "parent (nodes m t) = Some n"; cases "state_at m n = Running"; cases "awaits m n"; simp)
  qed
  moreover have "parents_ok ?m" 
    using i(2) parent_task(3) [OF i(2) _ r(1)] r by (auto simp: parents_ok_def split: if_splits)
  moreover have "others_ok ?m" 
    using i(3) r s by (auto simp: others_ok_def split: if_splits)
  moreover have "children_ok ?m"
    unfolding children_ok_def
  proof (intro allI conjI ballI)
    fix a c assume c: "c \<in> set (children (nodes ?m a))"
    then have c': "c \<in> set (children (nodes m a))" by (simp split: if_splits)
    note k = member_aggregate [OF i(4) c']
    then have "a \<noteq> t" using r(1) by auto
    with k show "is_aggregate (kind_at ?m a)" "kind_at ?m c = Task" "owner ?m c = Some a" by auto
    show "parent (nodes ?m c) = Some a \<or> is_done (state_at ?m c) \<and> Deliver a c \<in> set (stack ?m)
      \<or> state_at ?m c = Pending \<and> (\<exists>cs. StartChildren a cs \<in> set (stack ?m) \<and> c \<in> set cs)"
    proof (cases "c = t")
      case True
      then have "parent (nodes m t) = Some a" using member_parent [OF i(4)] c' r(2) by simp
      with True assms(3) show ?thesis by simp
    next
      case False
      with member_cases [OF i(4) c'] assms(2) show ?thesis by (auto split: option.split)
    qed
  qed (use i(4) in \<open>simp add: children_ok_def\<close>)
  moreover have "frames_ok ?m"
  proof (rule frames_okI [OF i(5) g, of fs])
    note f = frames_tail [OF i(5) assms(2)] and n = no_delivery [OF i(5), of fs t]
    show "stack ?m = (case parent (nodes m t) of None \<Rightarrow> [] | Some p \<Rightarrow> [Deliver p t]) @ fs" by simp
    show "state_at ?m c = Pending" if "h \<in> set fs" "c \<in> set (to_start h)" for h c
      using to_start_pending [OF i(5) _ that(2)] that(1) assms(2) r(2) by auto
    show "frame_ok ?m h" if "h \<in> set (case parent (nodes m t) of None \<Rightarrow> [] | Some p \<Rightarrow> [Deliver p t])" for h
    proof -
      from that obtain p where p: "parent (nodes m t) = Some p" "h = Deliver p t" by (cases "parent (nodes m t)") auto
      have "p \<noteq> t" using parent_task(3) [OF i(2) p(1)] r(1,3) by auto
      with p parent_aggregate [OF i(2) p(1)] assms(3) show ?thesis by auto
    qed
    show "ordered ((case parent (nodes m t) of None \<Rightarrow> [] | Some p \<Rightarrow> [Deliver p t]) @ fs)"
      using f(1) by (simp split: option.split)
    show "length (filter (delivers c) ((case parent (nodes m t) of None \<Rightarrow> [] | Some p \<Rightarrow> [Deliver p t]) @ fs)) \<le> 1" for c
      using f(2) [of c] n r(2) assms(2) by (auto split: option.split)
    show "length (filter (starts a) ((case parent (nodes m t) of None \<Rightarrow> [] | Some p \<Rightarrow> [Deliver p t]) @ fs)) \<le> 1" for a
      using f(3) [of a] by (simp add: starts_def split: option.split)
  qed (use assms(2) in auto)
  moreover have "pending_ok ?m" 
    using i(6) r assms(2) by (auto simp: pending_ok_def held_def tally_def split: option.splits if_splits)
  moreover have "settled_ok ?m" 
    using i(7) r assms(2) by (auto simp: settled_ok_def held_def tally_def split: option.splits if_splits)
  moreover have "cancels_ok ?m" 
    using i(8) r assms(2) gr by (auto simp: cancels_ok_def split: option.splits if_splits)
  moreover have "owners_ok ?m" 
    by (rule owners_okI [OF i(9) g]) (use r(1) in \<open>auto dest: owned [OF i(9)]\<close>)
  moreover have "roots_ok ?m" 
    using i(10) r by (auto simp: roots_ok_def split: if_splits)
  ultimately show ?thesis by (simp add: tree_inv_def)
qed


section \<open>A task goes on\<close>

lemma tasks_alt: "tasks_ok m \<longleftrightarrow> (\<forall>t. kind_at m t = Task \<longrightarrow>
    tally (resumes t) m + of_bool (awaits m t) = of_bool (state_at m t = Running))"
  unfolding tasks_ok_def by (intro all_cong1 imp_cong refl) (simp add: of_bool_def)

lemma tasks_okI:
  assumes "tasks_ok m" "\<And>n. kind_at m' n = kind_at m n"
    and "\<And>n. kind_at m n = Task \<Longrightarrow> tally (resumes n) m' + of_bool (awaits m' n) + of_bool (state_at m n = Running)
      = tally (resumes n) m + of_bool (awaits m n) + of_bool (state_at m' n = Running)"
  shows "tasks_ok m'"
  using assms unfolding tasks_alt by (metis add.commute add_left_cancel)

lemma resumer:
  assumes "tree_inv m" "stack m = f # fs" "resumes t f" "kind_at m t = Task"
  shows "state_at m t = Running" "\<not> awaits m t" "filter (resumes t) fs = []"
  using tree_invD(1) [OF assms(1)] assms(2-4) by (auto simp: tasks_ok_def tally_def split: if_splits dest!: spec [of _ t])

lemma no_parent: "parents_ok m \<Longrightarrow> kind_at m t = Task \<Longrightarrow> \<not> awaits m t \<Longrightarrow> parent (nodes m c) \<noteq> Some t"
  using parent_task(3) by blast

lemma resumed_inv:
  assumes "tree_inv m" "stack m = f # fs" "resumes t f" "kind_at m t = Task"
  shows "tree_inv (set_node t (\<lambda>n. n\<lparr>child := None\<rparr>) (m\<lparr>stack := Run t # fs\<rparr>))" (is "tree_inv ?m")
proof -
  note i = tree_invD [OF assms(1)]
  note r = resumer [OF assms]
  have f: "CancelChildren a k \<noteq> f" "Abandon a \<noteq> f" "Cancelling a \<noteq> f" "StartChildren a cs \<noteq> f" "\<not> holds a f" "\<not> starts a f" for a k cs
    using assms(3) by (cases f; auto simp: starts_def)+
  have d: "f = Deliver a c \<Longrightarrow> a = t" for a c using assms(3) by auto
  have g: "grows m ?m" by (auto simp: grows_def)
  note gr = reached_grows [OF g] decided_grows [OF g]
  note ft = frames_tail [OF i(5) assms(2)]
  have np: "parent (nodes m c) \<noteq> Some t" for c by (rule no_parent [OF i(2) assms(4) r(2)])
  have "tasks_ok ?m"
  proof (rule tasks_okI [OF i(1)])
    fix n assume "kind_at m n = Task"
    have a: "awaits ?m n = (n \<noteq> t \<and> awaits m n)"
      using np by (auto simp: awaits_def split: option.split)
    have "tally (resumes n) ?m = tally (resumes n) m"
      using assms(2,3) by (cases f) (auto simp: tally_def)
    with a r show "tally (resumes n) ?m + of_bool (awaits ?m n) + of_bool (state_at m n = Running)
        = tally (resumes n) m + of_bool (awaits m n) + of_bool (state_at ?m n = Running)" by auto
  qed simp
  moreover have "parents_ok ?m"
    using i(2) np by (auto simp: parents_ok_def)
  moreover have "others_ok ?m"
    using i(3) by (auto simp: others_ok_def)
  moreover have "children_ok ?m"
    unfolding children_ok_def
  proof (intro allI conjI ballI)
    fix a c assume "c \<in> set (children (nodes ?m a))"
    then have c: "c \<in> set (children (nodes m a))" by (simp split: if_splits)
    note k = member_aggregate [OF i(4) c]
    then have "a \<noteq> t" using assms(4) by auto
    with k show "is_aggregate (kind_at ?m a)" "kind_at ?m c = Task" "owner ?m c = Some a" by auto
    show "parent (nodes ?m c) = Some a \<or> is_done (state_at ?m c) \<and> Deliver a c \<in> set (stack ?m)
      \<or> state_at ?m c = Pending \<and> (\<exists>cs. StartChildren a cs \<in> set (stack ?m) \<and> c \<in> set cs)"
      using member_cases [OF i(4) c] assms(2) f(4) d \<open>a \<noteq> t\<close> by auto
  qed (use i(4) in \<open>simp add: children_ok_def\<close>)
  moreover have "frames_ok ?m"
  proof (rule frames_okI [OF i(5) g, of fs "[Run t]"])
    show "state_at ?m c = Pending" if "h \<in> set fs" "c \<in> set (to_start h)" for h c
      using to_start_pending [OF i(5) _ that(2)] that(1) assms(2) r(1) by auto
    show "length (filter (starts a) ([Run t] @ fs)) \<le> 1" for a
      using ft(3) [of a] by (simp add: starts_def)
  qed (use assms(2,4) ft in auto)
  moreover have "pending_ok ?m"
    using i(6) f(5) assms(2) by (auto simp: pending_ok_def held_def tally_def split: if_splits)
  moreover have "settled_ok ?m"
    using i(7) f(5) assms(2,4) by (auto simp: settled_ok_def held_def tally_def split: if_splits)
  moreover have "cancels_ok ?m"
    using i(8) f assms(2,4) np by (auto simp: cancels_ok_def reached_def)
  moreover have "owners_ok ?m"
    by (rule owners_okI [OF i(9) g]) auto
  moreover have "roots_ok ?m"
    using i(10) by (auto simp: roots_ok_def)
  ultimately show ?thesis by (simp add: tree_inv_def)
qed


section \<open>A task awaits a node\<close>

lemma pending_node:
  assumes "tree_inv m" "state_at m n = Pending"
  shows "parent (nodes m n) = None" "child (nodes m t) \<noteq> Some n" "kind_at m n = Task \<Longrightarrow> \<not> awaits m n"
    "kind_at m n = Task \<Longrightarrow> tally (resumes n) m = 0" "kind_at m n = Task \<Longrightarrow> parent (nodes m c) \<noteq> Some n"
proof -
  note i = tree_invD [OF assms(1)]
  show "parent (nodes m n) = None"
    using i(2) assms(2) unfolding parents_ok_def by (metis State.distinct(1) not_None_eq)
  show "child (nodes m t) \<noteq> Some n" using i(3) assms(2) unfolding others_ok_def by blast
  show "kind_at m n = Task \<Longrightarrow> tally (resumes n) m = 0" using i(1) assms(2) unfolding tasks_ok_def by auto
  show w: "kind_at m n = Task \<Longrightarrow> \<not> awaits m n" using i(1) assms(2) unfolding tasks_ok_def by auto
  then show "kind_at m n = Task \<Longrightarrow> parent (nodes m c) \<noteq> Some n" using no_parent [OF i(2)] by blast
qed

text \<open>
  \<^verbatim>\<open>awaited_by\<close> in all its uses: the frame that runs the task leaves the stack, and a task
  that is awaited runs, an aggregate that is armed is pinned, and what a cancelled task awaits is to
  be cancelled.
\<close>

definition is_when :: "NodeKind \<Rightarrow> bool" where
  "is_when k \<longleftrightarrow> k = WhenAll \<or> k = WhenAny"

definition awaited_frames :: "machine \<Rightarrow> nat \<Rightarrow> bool \<Rightarrow> frame list" where
  "awaited_frames m n cancelled =
     (if kind_at m n = Task then [Run n]
      else if is_when (kind_at m n) then [Unpin n]
      else if cancelled then [Cancelling n] else [])"

definition awaited :: "nat \<Rightarrow> nat \<Rightarrow> machine \<Rightarrow> machine" where
  "awaited n t m = set_node t (\<lambda>r. r\<lparr>child := Some n\<rparr>) (set_node n (\<lambda>r. r\<lparr>parent := Some t, state := Running,
     pending := pending r + of_bool (is_when (kind r))\<rparr>) m)"

lemma running_inside:
  assumes "tree_inv m" "stack m = gs @ Run t # fs"
  shows "kind_at m t = Task" "state_at m t = Running" "\<not> awaits m t" "filter (resumes t) (gs @ fs) = []"
proof -
  show k: "kind_at m t = Task" using tree_invD(5) [OF assms(1)] assms(2) by (simp add: frames_ok_def)
  with tree_invD(1) [OF assms(1)] assms(2) show "state_at m t = Running" "\<not> awaits m t" "filter (resumes t) (gs @ fs) = []"
    by (auto simp: tasks_ok_def tally_def split: if_splits dest!: spec [of _ t])
qed

lemma ordered_remove: "ordered (gs @ f # fs) \<Longrightarrow> ordered (gs @ fs)"
proof (induction gs)
  case Nil
  then show ?case by (cases f) auto
next
  case (Cons g gs)
  then show ?case by (cases g) auto
qed

lemma awaited_inv:
  assumes "tree_inv m" "stack m = gs @ Run t # fs" "state_at m n = Pending"
    "kind_at m n = Task \<Longrightarrow> owner m n = None \<and> n \<notin> set (tasks m)"
    "kind_at m n = TaskGroup \<Longrightarrow> 0 < pending (nodes m n) \<and> \<not> gone m n"
    "cancel_requested (nodes m t) \<Longrightarrow> cancel_requested (nodes m n) \<or> cancelled \<and> \<not> is_when (kind_at m n) \<and> kind_at m n \<noteq> Task"
  shows "tree_inv (awaited n t (m\<lparr>stack := awaited_frames m n cancelled @ gs @ fs\<rparr>))" (is "tree_inv ?m")
proof -
  note i = tree_invD [OF assms(1)]
  note r = running_inside [OF assms(1,2)]
  note pn = pending_node [OF assms(1,3)]
  have nt: "n \<noteq> t" using assms(3) r(2) by auto
  define m' where "m' = ?m"
  have sel [simp]: "kind_at m' k = kind_at m k" "state_at m' k = (if k = n then Running else state_at m k)"
    "cancel_requested (nodes m' k) = cancel_requested (nodes m k)" "decision (nodes m' k) = decision (nodes m k)"
    "parent (nodes m' k) = (if k = n then Some t else parent (nodes m k))"
    "child (nodes m' k) = (if k = t then Some n else child (nodes m k))" "children (nodes m' k) = children (nodes m k)"
    "pending (nodes m' k) = pending (nodes m k) + of_bool (k = n \<and> is_when (kind_at m k))"
    "scheduled (nodes m' k) = scheduled (nodes m k)" for k
    using nt by (auto simp: awaited_def m'_def)
  have [simp]: "stack m' = awaited_frames m n cancelled @ gs @ fs" "owner m' = owner m" "gone m' = gone m" "tasks m' = tasks m" "deferred m' = deferred m"
    by (simp_all add: awaited_def m'_def)
  have g: "grows m m'" using assms(3) by (auto simp: grows_def)
  have np: "parent (nodes m c) \<noteq> Some t" for c by (rule no_parent [OF i(2) r(1,3)])
  have own: "owner m n = Some a \<Longrightarrow> kind_at m n = Task" for a using owned [OF i(9)] by blast
  have mem: "n \<notin> set (children (nodes m a))" for a
    using member_aggregate [OF i(4), of n a] assms(4) by auto
  have "tasks_ok m'"
  proof (rule tasks_okI [OF i(1)])
    fix k assume k: "kind_at m k = Task"
    have a: "awaits m' k = (k = t \<or> awaits m k)"
      using np pn nt by (auto simp: awaits_def split: option.split)
    have "tally (resumes k) m' = of_bool (k = n) + length (filter (resumes k) (gs @ fs))"
      using k by (auto simp: tally_def awaited_frames_def)
    moreover have "tally (resumes k) m = of_bool (k = t) + length (filter (resumes k) (gs @ fs))"
      by (auto simp: tally_def assms(2))
    ultimately show "tally (resumes k) m' + of_bool (awaits m' k) + of_bool (state_at m k = Running)
        = tally (resumes k) m + of_bool (awaits m k) + of_bool (state_at m' k = Running)"
      using a r nt pn(3) k assms(3) by auto
  qed simp
  moreover have "parents_ok m'"
    using i(2) np nt r(1) pn(5) mem by (auto simp: parents_ok_def)
  moreover have "others_ok m'"
    using i(3) r(1) nt by (auto simp: others_ok_def)
  moreover have "children_ok m'"
    unfolding children_ok_def
  proof (intro allI conjI ballI)
    fix a c assume "c \<in> set (children (nodes m' a))"
    then have c: "c \<in> set (children (nodes m a))" by (simp split: if_splits)
    note k = member_aggregate [OF i(4) c]
    then show "is_aggregate (kind_at m' a)" "kind_at m' c = Task" "owner m' c = Some a" by auto
    have "c \<noteq> n" using c mem by auto
    then show "parent (nodes m' c) = Some a \<or> is_done (state_at m' c) \<and> Deliver a c \<in> set (stack m')
      \<or> state_at m' c = Pending \<and> (\<exists>cs. StartChildren a cs \<in> set (stack m') \<and> c \<in> set cs)"
      using member_cases [OF i(4) c] assms(2) by auto
  qed (use i(4) in \<open>simp add: children_ok_def\<close>)
  moreover have "frames_ok m'"
  proof (rule frames_okI [OF i(5) g, of "gs @ fs" "awaited_frames m n cancelled"])
    have f: "ordered (stack m)" "length (filter (delivers c) (stack m)) \<le> 1" "length (filter (starts c) (stack m)) \<le> 1" for c
      using i(5) by (auto simp: frames_ok_def tally_def)
    show "state_at m' c = Pending" if "h \<in> set (gs @ fs)" "c \<in> set (to_start h)" for h c
      using to_start_pending [OF i(5) _ that(2)] that(1) assms(2) mem by auto
    show "frame_ok m' h" if "h \<in> set (awaited_frames m n cancelled)" for h
      using that assms(3) by (auto simp: awaited_frames_def is_when_def split: if_splits)
    have "ordered (gs @ fs)" using ordered_remove f(1) assms(2) by auto
    then show "ordered (awaited_frames m n cancelled @ gs @ fs)" by (simp add: awaited_frames_def)
    show "length (filter (delivers c) (awaited_frames m n cancelled @ gs @ fs)) \<le> 1"
      "length (filter (starts c) (awaited_frames m n cancelled @ gs @ fs)) \<le> 1" for c
      using f(2,3) [of c] by (simp_all add: assms(2) awaited_frames_def starts_def)
  qed (use assms(2) in auto)
  moreover have "pending_ok m'"
    using i(6) r(1) assms(2) by (auto simp: pending_ok_def held_def tally_def awaited_frames_def is_when_def split: if_splits)
  moreover have "settled_ok m'"
    using i(7) r(1) assms(2,3,5) by (auto simp: settled_ok_def held_def tally_def awaited_frames_def is_when_def is_aggregate_def split: if_splits)
  moreover have "cancels_ok m'"
    by (rule cancels_okI [OF i(8) g]) (use assms(2,6) np nt in \<open>auto simp: decided_def awaited_frames_def is_when_def split: if_splits\<close>)
  moreover have "owners_ok m'"
    by (rule owners_okI [OF i(9) g]) auto
  moreover have "roots_ok m'"
    using i(10) r assms(3,4) by (auto simp: roots_ok_def)
  ultimately show ?thesis by (simp add: tree_inv_def m'_def)
qed


section \<open>A task starts\<close>

text \<open>A task starts as a root, or as the first child an aggregate has to start.\<close>

definition started :: "nat \<Rightarrow> nat option \<Rightarrow> machine \<Rightarrow> machine" where
  "started c p m = push [Run c] (set_node c (\<lambda>r. r\<lparr>parent := p, state := Running\<rparr>) m)"

lemma started_root_inv:
  assumes "tree_inv m" "kind_at m c = Task" "state_at m c = Pending" "owner m c = None" "c \<notin> set (tasks m)"
  shows "tree_inv (started c None m)" (is "tree_inv ?m")
proof -
  note i = tree_invD [OF assms(1)]
  note pn = pending_node [OF assms(1,3)]
  define m' where "m' = ?m"
  have sel [simp]: "kind_at m' k = kind_at m k" "state_at m' k = (if k = c then Running else state_at m k)"
    "cancel_requested (nodes m' k) = cancel_requested (nodes m k)" "decision (nodes m' k) = decision (nodes m k)"
    "parent (nodes m' k) = parent (nodes m k)" "child (nodes m' k) = child (nodes m k)"
    "children (nodes m' k) = children (nodes m k)" "pending (nodes m' k) = pending (nodes m k)"
    "scheduled (nodes m' k) = scheduled (nodes m k)" for k
    using pn(1) by (auto simp: started_def m'_def)
  have [simp]: "stack m' = Run c # stack m" "owner m' = owner m" "gone m' = gone m" "tasks m' = tasks m" "deferred m' = deferred m"
    by (simp_all add: started_def m'_def)
  have g: "grows m m'" using assms(3) by (auto simp: grows_def)
  have mem: "c \<notin> set (children (nodes m a))" for a using member_aggregate [OF i(4), of c a] assms(4) by auto
  have "tasks_ok m'"
  proof (rule tasks_okI [OF i(1)])
    fix k assume k: "kind_at m k = Task"
    have "awaits m' k = awaits m k" by (simp add: awaits_def split: option.split)
    moreover have "tally (resumes k) m' = of_bool (k = c) + tally (resumes k) m" by (auto simp: tally_def)
    ultimately show "tally (resumes k) m' + of_bool (awaits m' k) + of_bool (state_at m k = Running)
        = tally (resumes k) m + of_bool (awaits m k) + of_bool (state_at m' k = Running)"
      using assms(3) by simp
  qed simp
  moreover have "parents_ok m'"
    using i(2) by (auto simp: parents_ok_def)
  moreover have "others_ok m'"
    using i(3) assms(2) by (auto simp: others_ok_def)
  moreover have "children_ok m'"
    using i(4) mem by (fastforce simp: children_ok_def)
  moreover have "frames_ok m'"
  proof (rule frames_okI [OF i(5) g, of "stack m" "[Run c]"])
    show "state_at m' k = Pending" if "h \<in> set (stack m)" "k \<in> set (to_start h)" for h k
      using to_start_pending [OF i(5) that] mem by auto
  qed (use assms(2) i(5) in \<open>auto simp: frames_ok_def tally_def starts_def\<close>)
  moreover have "pending_ok m'"
    using i(6) by (simp add: pending_ok_def held_def tally_def)
  moreover have "settled_ok m'"
    using i(7) assms(2) by (auto simp: settled_ok_def held_def tally_def)
  moreover have "cancels_ok m'"
    by (rule cancels_okI [OF i(8) g]) (auto simp: decided_def)
  moreover have "owners_ok m'"
    by (rule owners_okI [OF i(9) g]) auto
  moreover have "roots_ok m'"
    using i(10) assms(5) by (auto simp: roots_ok_def)
  ultimately show ?thesis by (simp add: tree_inv_def m'_def)
qed

lemma started_child_inv:
  assumes "tree_inv m" "stack m = StartChildren a (c # cs) # fs"
  shows "tree_inv (started c (Some a) (m\<lparr>stack := StartChildren a cs # fs\<rparr>))" (is "tree_inv ?m")
proof -
  note i = tree_invD [OF assms(1)]
  note ft = frames_tail [OF i(5) assms(2)]
  have c: "state_at m c = Pending" "c \<in> set (children (nodes m a))" "c \<notin> set cs" using ft(5) by auto
  note pn = pending_node [OF assms(1) c(1)] and k = member_aggregate [OF i(4) c(2)]
  define m' where "m' = ?m"
  have sel [simp]: "kind_at m' k = kind_at m k" "state_at m' k = (if k = c then Running else state_at m k)"
    "cancel_requested (nodes m' k) = cancel_requested (nodes m k)" "decision (nodes m' k) = decision (nodes m k)"
    "parent (nodes m' k) = (if k = c then Some a else parent (nodes m k))" "child (nodes m' k) = child (nodes m k)"
    "children (nodes m' k) = children (nodes m k)" "pending (nodes m' k) = pending (nodes m k)"
    "scheduled (nodes m' k) = scheduled (nodes m k)" for k
    using pn(1) by (auto simp: started_def m'_def)
  have [simp]: "stack m' = Run c # StartChildren a cs # fs" "owner m' = owner m" "gone m' = gone m" "tasks m' = tasks m" "deferred m' = deferred m"
    by (simp_all add: started_def m'_def)
  have g: "grows m m'" using c(1) by (auto simp: grows_def)
  have ac: "a \<noteq> c" using k by auto
  have only: "c \<notin> set (to_start h)" if "h \<in> set fs" for h
  proof -
    have "tally (starts c) m \<le> 1" using i(5) by (simp add: frames_ok_def)
    then have "filter (starts c) fs = []" by (simp add: tally_def assms(2) starts_def)
    with that show ?thesis by (auto simp: filter_empty_conv starts_def)
  qed
  have "tasks_ok m'"
  proof (rule tasks_okI [OF i(1)])
    fix n assume n: "kind_at m n = Task"
    have "awaits m' n = awaits m n" using pn(2) k n by (auto simp: awaits_def split: option.split)
    moreover have "tally (resumes n) m' = of_bool (n = c) + tally (resumes n) m" by (auto simp: tally_def assms(2))
    ultimately show "tally (resumes n) m' + of_bool (awaits m' n) + of_bool (state_at m n = Running)
        = tally (resumes n) m + of_bool (awaits m n) + of_bool (state_at m' n = Running)"
      using c(1) by simp
  qed simp
  moreover have "parents_ok m'"
    using i(2) c k by (auto simp: parents_ok_def)
  moreover have "others_ok m'"
    using i(3) k by (auto simp: others_ok_def)
  moreover have "children_ok m'"
    unfolding children_ok_def
  proof (intro allI conjI ballI)
    fix b d assume "d \<in> set (children (nodes m' b))"
    then have d: "d \<in> set (children (nodes m b))" by simp
    from member_aggregate [OF i(4) d] show "is_aggregate (kind_at m' b)" "kind_at m' d = Task" "owner m' d = Some b" by auto
    show "parent (nodes m' d) = Some b \<or> is_done (state_at m' d) \<and> Deliver b d \<in> set (stack m')
      \<or> state_at m' d = Pending \<and> (\<exists>cs. StartChildren b cs \<in> set (stack m') \<and> d \<in> set cs)"
      using member_cases [OF i(4) d] assms(2) k member_aggregate [OF i(4) d] by auto
  qed (use i(4) in \<open>simp add: children_ok_def\<close>)
  moreover have "frames_ok m'"
  proof (rule frames_okI [OF i(5) g, of fs "[Run c, StartChildren a cs]"])
    show "state_at m' d = Pending" if "h \<in> set fs" "d \<in> set (to_start h)" for h d
      using to_start_pending(1) [OF i(5) _ that(2)] that only assms(2) by auto
    show "length (filter (starts d) ([Run c, StartChildren a cs] @ fs)) \<le> 1" for d
      using i(5) [unfolded frames_ok_def] by (simp add: tally_def assms(2) starts_def split: if_splits) (metis le0 list.size(3))
  qed (use assms(2) ft k c in auto)
  moreover have "pending_ok m'"
    using i(6) assms(2) by (simp add: pending_ok_def held_def tally_def)
  moreover have "settled_ok m'"
    using i(7) k assms(2) by (auto simp: settled_ok_def held_def tally_def)
  moreover have "cancels_ok m'"
    by (rule cancels_okI [OF i(8) g]) (use assms(2) k in \<open>auto simp: decided_def split: if_splits\<close>)
  moreover have "owners_ok m'"
    by (rule owners_okI [OF i(9) g]) auto
  moreover have "roots_ok m'"
    using i(10) k by (auto simp: roots_ok_def)
  ultimately show ?thesis by (simp add: tree_inv_def m'_def)
qed


section \<open>Aggregates\<close>

text \<open>Linking children that are to be started.\<close>

definition linked :: "nat \<Rightarrow> nat list \<Rightarrow> machine \<Rightarrow> machine" where
  "linked a cs m = push [StartChildren a cs] (set_node a (\<lambda>n. n\<lparr>children := children n @ cs, pending := pending n + length cs\<rparr>)
     (m\<lparr>owner := (\<lambda>c. if c \<in> set cs then Some a else owner m c)\<rparr>))"

definition idle :: "machine \<Rightarrow> nat \<Rightarrow> bool" where
  "idle m c \<longleftrightarrow> kind_at m c = Task \<and> state_at m c = Pending \<and> owner m c = None \<and> \<not> scheduled (nodes m c)"

lemma idle_facts:
  assumes "tree_inv m" "idle m c"
  shows "c \<notin> set (children (nodes m a))" "c \<notin> set (tasks m)" "h \<in> set (stack m) \<Longrightarrow> c \<notin> set (to_start h)"
proof -
  note i = tree_invD [OF assms(1)]
  show m: "c \<notin> set (children (nodes m a))" for a
    using member_aggregate [OF i(4), of c a] assms(2) by (auto simp: idle_def)
  show "c \<notin> set (tasks m)" using i(10) assms(2) by (auto simp: roots_ok_def idle_def)
  show "h \<in> set (stack m) \<Longrightarrow> c \<notin> set (to_start h)" using to_start_pending(2) [OF i(5)] m by blast
qed

lemma linked_inv:
  assumes "tree_inv m" "is_aggregate (kind_at m a)" "\<not> decided (nodes m a)" "\<not> is_done (state_at m a)"
    "\<not> gone m a" "kind_at m a = TaskGroup \<or> state_at m a \<noteq> Pending" "distinct cs" "list_all (idle m) cs"
  shows "tree_inv (linked a cs m)" (is "tree_inv ?m")
proof -
  note i = tree_invD [OF assms(1)]
  have cs: "kind_at m c = Task" "state_at m c = Pending" "owner m c = None" "c \<notin> set (tasks m)" "c \<notin> set (children (nodes m b))"
    "h \<in> set (stack m) \<Longrightarrow> c \<notin> set (to_start h)" if "c \<in> set cs" for b c h
    using that assms(8) idle_facts [OF assms(1), of c] by (auto simp: list_all_iff idle_def)
  define m' where "m' = ?m"
  have sel [simp]: "kind_at m' k = kind_at m k" "state_at m' k = state_at m k"
    "cancel_requested (nodes m' k) = cancel_requested (nodes m k)" "decision (nodes m' k) = decision (nodes m k)"
    "parent (nodes m' k) = parent (nodes m k)" "child (nodes m' k) = child (nodes m k)"
    "children (nodes m' k) = children (nodes m k) @ (if k = a then cs else [])"
    "pending (nodes m' k) = pending (nodes m k) + (if k = a then length cs else 0)"
    "scheduled (nodes m' k) = scheduled (nodes m k)" for k
    by (auto simp: linked_def m'_def)
  have [simp]: "stack m' = StartChildren a cs # stack m" "gone m' = gone m" "tasks m' = tasks m" "deferred m' = deferred m"
    "owner m' k = (if k \<in> set cs then Some a else owner m k)" for k
    by (simp_all add: linked_def m'_def)
  have g: "grows m m'" by (auto simp: grows_def)
  have aw: "awaits m' k = awaits m k" for k by (simp add: awaits_def split: option.split)
  have "tasks_ok m'"
    using i(1) aw by (simp add: tasks_ok_def tally_def)
  moreover have "parents_ok m'"
    using i(2) by (auto simp: parents_ok_def)
  moreover have "others_ok m'"
    using i(3) by (auto simp: others_ok_def)
  moreover have "children_ok m'"
    unfolding children_ok_def
  proof (intro allI conjI ballI)
    show "distinct (children (nodes m' b))" for b
      using i(4) assms(7) cs(5) by (auto simp: children_ok_def)
    fix b d assume d: "d \<in> set (children (nodes m' b))"
    show "is_aggregate (kind_at m' b)" "kind_at m' d = Task" "owner m' d = Some b"
      using d member_aggregate [OF i(4), of d b] cs assms(2) by (auto split: if_splits)
    show "parent (nodes m' d) = Some b \<or> is_done (state_at m' d) \<and> Deliver b d \<in> set (stack m')
      \<or> state_at m' d = Pending \<and> (\<exists>cs. StartChildren b cs \<in> set (stack m') \<and> d \<in> set cs)"
      using d member_cases [OF i(4), of d b] cs by (auto split: if_splits)
  qed
  moreover have "frames_ok m'"
  proof (rule frames_okI [OF i(5) g, of "stack m" "[StartChildren a cs]"])
    show "(\<forall>b. lists h = Some b \<longrightarrow> children (nodes m' b) = children (nodes m b)) \<or> frame_ok m' h"
      if "h \<in> set (stack m)" "frame_ok m h" for h
    proof (cases "lists h = Some a")
      case True
      have "children (nodes m' b) = children (nodes m b)" if "b \<noteq> a" for b using that by simp
      with True that(2) assms(2,3) show ?thesis by (cases h) (auto simp: decided_def)
    qed auto
    show "state_at m' d = Pending" if "h \<in> set (stack m)" "d \<in> set (to_start h)" for h d
      using to_start_pending(1) [OF i(5) that] by simp
    have "filter (starts d) (stack m) = []" if "d \<in> set cs" for d
      using cs(6) [OF that] by (auto simp: filter_empty_conv starts_def)
    then show "length (filter (starts d) ([StartChildren a cs] @ stack m)) \<le> 1" for d
      using i(5) by (auto simp: starts_def frames_ok_def tally_def)
  qed (use assms(7) cs i(5) in \<open>auto simp: frames_ok_def tally_def\<close>)
  moreover have "pending_ok m'"
    using i(6) by (simp add: pending_ok_def held_def tally_def)
  moreover have "settled_ok m'"
    using i(7) assms(4-6) by (auto simp: settled_ok_def held_def tally_def)
  moreover have "cancels_ok m'"
    by (rule cancels_okI [OF i(8) g]) (use assms(3) in \<open>auto simp: decided_def\<close>)
  moreover have "owners_ok m'"
    by (rule owners_okI [OF i(9) g]) (use cs assms(2) in \<open>auto split: if_splits\<close>)
  moreover have "roots_ok m'"
    using i(10) cs(4) by (auto simp: roots_ok_def)
  ultimately show ?thesis by (simp add: tree_inv_def m'_def)
qed

end
