(* ===== verification/Task_Aggregates.thy ===== *)
theory Task_Aggregates
  imports Task_Inv
begin

text \<open>
  The elementary changes of an aggregate keep the invariant: pins, cancels, decisions, the walk over the
  children, a child that leaves, and the end of an aggregate.
\<close>

section \<open>Cancels and decisions\<close>

text \<open>A pin: what walks the children of an aggregate counts as pending.\<close>

definition pinned :: "nat \<Rightarrow> machine \<Rightarrow> machine" where
  "pinned a m = push [Unpin a] (set_node a (\<lambda>n. n\<lparr>pending := pending n + 1\<rparr>) m)"

lemma pinned_inv:
  assumes "tree_inv m" "is_aggregate (kind_at m a)" "\<not> is_done (state_at m a)"
    "kind_at m a = TaskGroup \<or> state_at m a \<noteq> Pending"
  shows "tree_inv (pinned a m)" (is "tree_inv ?m")
proof -
  note i = tree_invD [OF assms(1)]
  define m' where "m' = ?m"
  have sel [simp]: "kind_at m' k = kind_at m k" "state_at m' k = state_at m k"
    "cancel_requested (nodes m' k) = cancel_requested (nodes m k)" "decision (nodes m' k) = decision (nodes m k)"
    "parent (nodes m' k) = parent (nodes m k)" "child (nodes m' k) = child (nodes m k)"
    "children (nodes m' k) = children (nodes m k)"
    "pending (nodes m' k) = pending (nodes m k) + of_bool (k = a)"
    "scheduled (nodes m' k) = scheduled (nodes m k)" for k
    by (auto simp: pinned_def m'_def)
  have [simp]: "stack m' = Unpin a # stack m" "gone m' = gone m" "tasks m' = tasks m" "deferred m' = deferred m" "owner m' = owner m"
    by (simp_all add: pinned_def m'_def)
  have g: "grows m m'" by (auto simp: grows_def)
  have aw: "awaits m' k = awaits m k" for k by (simp add: awaits_def split: option.split)
  have "tasks_ok m'"
    using i(1) aw by (simp add: tasks_ok_def tally_def)
  moreover have "parents_ok m'"
    using i(2) by (auto simp: parents_ok_def)
  moreover have "others_ok m'"
    using i(3) by (auto simp: others_ok_def)
  moreover have "children_ok m'"
    using i(4) by (fastforce simp: children_ok_def)
  moreover have "frames_ok m'"
    by (rule frames_okI [OF i(5) g, of "stack m" "[Unpin a]"])
      (use assms(2) i(5) to_start_pending(1) [OF i(5)] in \<open>auto simp: frames_ok_def tally_def starts_def\<close>)
  moreover have "pending_ok m'"
    using i(6) by (simp add: pending_ok_def held_def tally_def)
  moreover have "settled_ok m'"
    using i(7) assms(3,4) by (auto simp: settled_ok_def held_def tally_def)
  moreover have "cancels_ok m'"
    by (rule cancels_okI [OF i(8) g]) (auto simp: decided_def)
  moreover have "owners_ok m'"
    by (rule owners_okI [OF i(9) g]) auto
  moreover have "roots_ok m'"
    using i(10) by (auto simp: roots_ok_def)
  ultimately show ?thesis by (simp add: tree_inv_def m'_def)
qed

text \<open>A cancel reaches a node: it is marked, and what it passes the cancel on to is on the stack.\<close>

definition passed_on :: "machine \<Rightarrow> nat \<Rightarrow> frame list" where
  "passed_on m n =
     (if kind_at m n = Task then case child (nodes m n) of None \<Rightarrow> [] | Some c \<Rightarrow> [Cancelling c]
      else if is_leaf (kind_at m n) then [] else [CancelChildren n (length (children (nodes m n)))])"

definition flagged :: "nat \<Rightarrow> machine \<Rightarrow> machine" where
  "flagged n m = push (passed_on m n) (set_node n (\<lambda>r. r\<lparr>cancel_requested := True\<rparr>) m)"

lemma not_task: "k \<noteq> Task \<Longrightarrow> is_leaf k \<or> is_aggregate k"
  by (cases k) auto

lemma passed_on_quiet:
  "filter (resumes t) (passed_on m n) = []" "filter (delivers t) (passed_on m n) = []"
  "filter (starts t) (passed_on m n) = []" "filter (holds t) (passed_on m n) = []"
  "ordered (passed_on m n @ fs) = ordered fs"
  by (simp_all add: passed_on_def starts_def split: option.split)

lemma flagged_inv:
  assumes "tree_inv m" "is_aggregate (kind_at m n) \<Longrightarrow> state_at m n \<noteq> Pending"
  shows "tree_inv (flagged n m)" (is "tree_inv ?m")
proof -
  note i = tree_invD [OF assms(1)]
  define m' where "m' = ?m"
  have sel [simp]: "kind_at m' k = kind_at m k" "state_at m' k = state_at m k"
    "cancel_requested (nodes m' k) = (k = n \<or> cancel_requested (nodes m k))" "decision (nodes m' k) = decision (nodes m k)"
    "parent (nodes m' k) = parent (nodes m k)" "child (nodes m' k) = child (nodes m k)"
    "children (nodes m' k) = children (nodes m k)" "pending (nodes m' k) = pending (nodes m k)"
    "scheduled (nodes m' k) = scheduled (nodes m k)" for k
    by (auto simp: flagged_def m'_def)
  have [simp]: "stack m' = passed_on m n @ stack m" "gone m' = gone m" "tasks m' = tasks m" "deferred m' = deferred m" "owner m' = owner m"
    by (simp_all add: flagged_def m'_def)
  have g: "grows m m'" by (auto simp: grows_def)
  have aw: "awaits m' k = awaits m k" for k by (simp add: awaits_def split: option.split)
  have "tasks_ok m'"
    using i(1) aw by (simp add: tasks_ok_def tally_def passed_on_quiet)
  moreover have "parents_ok m'"
    using i(2) by (auto simp: parents_ok_def)
  moreover have "others_ok m'"
    using i(3) by (auto simp: others_ok_def)
  moreover have "children_ok m'"
    using i(4) by (fastforce simp: children_ok_def)
  moreover have "frames_ok m'"
  proof (rule frames_okI [OF i(5) g, of "stack m" "passed_on m n"])
    show "frame_ok m' h" if "h \<in> set (passed_on m n)" for h
      using that i(3) not_task [of "kind_at m n"] unfolding others_ok_def
      by (auto simp: passed_on_def decided_def split: if_splits option.splits)
  qed (use i(5) to_start_pending(1) [OF i(5)] in \<open>auto simp: frames_ok_def tally_def passed_on_quiet\<close>)
  moreover have "pending_ok m'"
    using i(6) by (simp add: pending_ok_def held_def tally_def passed_on_quiet)
  moreover have "settled_ok m'"
    using i(7) assms(2) by (auto simp: settled_ok_def held_def tally_def passed_on_quiet)
  moreover have "cancels_ok m'"
  proof (rule cancels_okI [OF i(8) g], goal_cases)
    case (1 a)
    then show ?case by (auto simp: decided_def passed_on_def is_aggregate_def is_leaf_def)
  next
    case (2 t c)
    show ?case
    proof (cases "t = n")
      case True
      with 2 parent_task(1) [OF i(2), of c t] show ?thesis by (auto simp: passed_on_def)
    qed (use 2 in auto)
  qed
  moreover have "owners_ok m'"
    by (rule owners_okI [OF i(9) g]) auto
  moreover have "roots_ok m'"
    using i(10) by (auto simp: roots_ok_def)
  ultimately show ?thesis by (simp add: tree_inv_def m'_def)
qed

text \<open>A decision: the first one cancels the children.\<close>

definition chosen :: "nat \<Rightarrow> Decision \<Rightarrow> machine \<Rightarrow> machine" where
  "chosen a d m = push (if decided (nodes m a) then [] else [CancelChildren a (length (children (nodes m a)))])
     (set_node a (\<lambda>n. n\<lparr>decision := d\<rparr>) m)"

lemma chosen_inv:
  assumes "tree_inv m" "is_aggregate (kind_at m a)" "kind_at m a = TaskGroup \<or> state_at m a \<noteq> Pending" "d \<noteq> NoDecision"
  shows "tree_inv (chosen a d m)" (is "tree_inv ?m")
proof -
  note i = tree_invD [OF assms(1)]
  define gs where "gs = (if decided (nodes m a) then [] else [CancelChildren a (length (children (nodes m a)))])"
  define m' where "m' = ?m"
  have sel [simp]: "kind_at m' k = kind_at m k" "state_at m' k = state_at m k"
    "cancel_requested (nodes m' k) = cancel_requested (nodes m k)" "decision (nodes m' k) = (if k = a then d else decision (nodes m k))"
    "parent (nodes m' k) = parent (nodes m k)" "child (nodes m' k) = child (nodes m k)"
    "children (nodes m' k) = children (nodes m k)" "pending (nodes m' k) = pending (nodes m k)"
    "scheduled (nodes m' k) = scheduled (nodes m k)" for k
    by (auto simp: chosen_def m'_def)
  have [simp]: "stack m' = gs @ stack m" "gone m' = gone m" "tasks m' = tasks m" "deferred m' = deferred m" "owner m' = owner m"
    by (simp_all add: chosen_def m'_def gs_def)
  have q: "filter (resumes t) gs = []" "filter (delivers t) gs = []" "filter (starts t) gs = []" "filter (holds t) gs = []"
    "ordered (gs @ fs) = ordered fs" for t fs by (simp_all add: gs_def starts_def)
  have g: "grows m m'" using assms(4) by (auto simp: grows_def)
  have aw: "awaits m' k = awaits m k" for k by (simp add: awaits_def split: option.split)
  have "tasks_ok m'"
    using i(1) aw by (simp add: tasks_ok_def tally_def q)
  moreover have "parents_ok m'"
    using i(2) by (auto simp: parents_ok_def)
  moreover have "others_ok m'"
    using i(3) by (auto simp: others_ok_def)
  moreover have "children_ok m'"
    using i(4) by (fastforce simp: children_ok_def)
  moreover have "frames_ok m'"
    by (rule frames_okI [OF i(5) g, of "stack m" gs])
      (use assms(2,4) i(5) to_start_pending(1) [OF i(5)] in \<open>auto simp: frames_ok_def tally_def q decided_def gs_def starts_def split: if_splits\<close>)
  moreover have "pending_ok m'"
    using i(6) by (simp add: pending_ok_def held_def tally_def q)
  moreover have "settled_ok m'"
    using i(7) assms(3) by (auto simp: settled_ok_def held_def tally_def q)
  moreover have "cancels_ok m'"
    by (rule cancels_okI [OF i(8) g]) (auto simp: decided_def gs_def split: if_splits)
  moreover have "owners_ok m'"
    by (rule owners_okI [OF i(9) g]) auto
  moreover have "roots_ok m'"
    using i(10) by (auto simp: roots_ok_def)
  ultimately show ?thesis by (simp add: tree_inv_def m'_def)
qed


text \<open>The walk over the children is over, or takes the next child.\<close>

lemma walked_inv:
  assumes "tree_inv m" "stack m = CancelChildren a k # fs" "k = 0 \<or> children (nodes m a) = []"
  shows "tree_inv (m\<lparr>stack := fs\<rparr>)" (is "tree_inv ?m")
proof -
  note i = tree_invD [OF assms(1)]
  note ft = frames_tail [OF i(5) assms(2)]
  define m' where "m' = ?m"
  have [simp]: "nodes m' = nodes m" "stack m' = fs" "gone m' = gone m" "tasks m' = tasks m" "deferred m' = deferred m" "owner m' = owner m"
    by (simp_all add: m'_def)
  have g: "grows m m'" by (auto simp: grows_def)
  have aw: "awaits m' k = awaits m k" for k by (simp add: awaits_def split: option.split)
  have r: "\<forall>c\<in>set (children (nodes m a)). reached m c" using ft(5) assms(3) by auto
  have "tasks_ok m'"
    using i(1) aw assms(2) by (simp add: tasks_ok_def tally_def)
  moreover have "parents_ok m'"
    using i(2) by (auto simp: parents_ok_def)
  moreover have "others_ok m'"
    using i(3) by (auto simp: others_ok_def)
  moreover have "children_ok m'"
    using i(4) assms(2) by (fastforce simp: children_ok_def)
  moreover have "frames_ok m'"
    by (rule frames_okI [OF i(5) g, of fs "[]"])
      (use assms(2) ft in \<open>auto dest: to_start_pending(1) [OF i(5), rotated]\<close>)
  moreover have "pending_ok m'"
    using i(6) assms(2) by (simp add: pending_ok_def held_def tally_def)
  moreover have "settled_ok m'"
    using i(7) assms(2) by (simp add: settled_ok_def held_def tally_def)
  moreover have "cancels_ok m'"
  proof (rule cancels_okI [OF i(8) g], goal_cases)
    case (1 b)
    show ?case using 1 r assms(2) reached_grows [OF g] by (cases "b = a") auto
  qed (use assms(2) in auto)
  moreover have "owners_ok m'"
    by (rule owners_okI [OF i(9) g]) auto
  moreover have "roots_ok m'"
    using i(10) by (auto simp: roots_ok_def)
  ultimately show ?thesis by (simp add: tree_inv_def m'_def)
qed

definition rotated :: "nat \<Rightarrow> machine \<Rightarrow> machine" where
  "rotated a m = set_node a (\<lambda>n. n\<lparr>children := rotate1 (children n)\<rparr>) m"

lemma drop_rotate1: "set (drop k (rotate1 (c # cs))) \<subseteq> insert c (set (drop (Suc k) (c # cs)))"
  by (auto simp: drop_append dest: in_set_dropD)

lemma ordered_walk: "ordered (gs @ CancelChildren a k # fs) = ordered (gs @ CancelChildren a j # fs)"
proof (induction gs)
  case (Cons g gs)
  then show ?case by (cases g) auto
qed simp

lemma rotated_inv:
  assumes "tree_inv m" "stack m = gs @ CancelChildren a (Suc k) # fs" "children (nodes m a) = c # cs" "reached m c"
  shows "tree_inv (rotated a (m\<lparr>stack := gs @ CancelChildren a k # fs\<rparr>))" (is "tree_inv ?m")
proof -
  note i = tree_invD [OF assms(1)]
  define m' where "m' = ?m"
  have sel [simp]: "kind_at m' n = kind_at m n" "state_at m' n = state_at m n"
    "cancel_requested (nodes m' n) = cancel_requested (nodes m n)" "decision (nodes m' n) = decision (nodes m n)"
    "parent (nodes m' n) = parent (nodes m n)" "child (nodes m' n) = child (nodes m n)"
    "children (nodes m' n) = (if n = a then rotate1 (c # cs) else children (nodes m n))" "pending (nodes m' n) = pending (nodes m n)"
    "scheduled (nodes m' n) = scheduled (nodes m n)" for n
    using assms(3) by (auto simp: rotated_def m'_def)
  have [simp]: "stack m' = gs @ CancelChildren a k # fs" "gone m' = gone m" "tasks m' = tasks m" "deferred m' = deferred m" "owner m' = owner m"
    by (simp_all add: rotated_def m'_def)
  have same: "set (children (nodes m' n)) = set (children (nodes m n))" "length (children (nodes m' n)) = length (children (nodes m n))" for n
    using assms(3) by auto
  have g: "grows m m'" by (auto simp: grows_def)
  have aw: "awaits m' n = awaits m n" for n by (simp add: awaits_def split: option.split)
  have "tasks_ok m'"
    using i(1) aw assms(2) by (simp add: tasks_ok_def tally_def)
  moreover have "parents_ok m'"
    using i(2) same by (simp add: parents_ok_def del: sel(7)) 
  moreover have "others_ok m'"
    using i(3) by (auto simp: others_ok_def)
  moreover have "children_ok m'"
    unfolding children_ok_def same
  proof (intro allI conjI ballI)
    show "distinct (children (nodes m' b))" for b
      using i(4) [unfolded children_ok_def, rule_format, of b] assms(3) by (cases "b = a") auto
  qed (use i(4) assms(2) in \<open>fastforce simp: children_ok_def\<close>)+
  moreover have "frames_ok m'"
    unfolding frames_ok_def
  proof (intro conjI allI ballI)
    show "frame_ok m' h" if "h \<in> set (stack m')" for h
    proof -
      have r: "\<forall>d\<in>set (drop j (rotate1 (c # cs))). reached m' d" if "\<forall>d\<in>set (drop (Suc j) (c # cs)). reached m d" for j
        using drop_rotate1 [of j c cs] that assms(4) reached_grows [OF g] by blast
      show ?thesis
      proof (cases "h = CancelChildren a k")
        case True
        moreover have "frame_ok m (CancelChildren a (Suc k))" using i(5) assms(2) by (auto simp: frames_ok_def)
        ultimately show ?thesis using r [of k] assms(3) by (auto simp: decided_def)
      next
        case False
        with that i(5) assms(2) have h: "frame_ok m h" "h \<in> set (stack m)" by (auto simp: frames_ok_def)
        show ?thesis
        proof (cases "lists h = Some a")
          case True
          have "\<forall>d\<in>set (drop (Suc j) (c # cs)). reached m d" if "\<forall>d\<in>set (drop j (c # cs)). reached m d" for j
            using that set_drop_subset_set_drop [of j "Suc j" "c # cs"] by auto
          with True h(1) assms(3) r show ?thesis by (cases h) (auto simp: decided_def simp del: rotate1.simps)
        next
          case False
          then show ?thesis using to_start_pending(1) [OF i(5) h(2)] by (intro frame_grows [OF g h(1)]) auto
        qed
      qed
    qed
    show "ordered (stack m')" using ordered_walk [of gs a k fs "Suc k"] i(5) assms(2) by (simp add: frames_ok_def)
    show "tally (delivers c) m' \<le> 1" "tally (starts c) m' \<le> 1" for c
      using i(5) assms(2) by (simp_all add: frames_ok_def tally_def starts_def)
  qed
  moreover have "pending_ok m'"
    using i(6) assms(2) same(2) by (simp add: pending_ok_def held_def tally_def del: sel(7))
  moreover have "settled_ok m'"
    using i(7) assms(2) same(2) by (simp add: settled_ok_def held_def tally_def del: sel(7))
  moreover have "cancels_ok m'"
    by (rule cancels_okI [OF i(8) g]) (use assms(2,3) in \<open>auto simp: decided_def\<close>)
  moreover have "owners_ok m'"
    by (rule owners_okI [OF i(9) g]) (simp_all add: same del: sel(7))
  moreover have "roots_ok m'"
    using i(10) by (auto simp: roots_ok_def)
  ultimately show ?thesis by (simp add: tree_inv_def m'_def)
qed

text \<open>A child that has ended leaves the list, and is counted off later.\<close>

definition unlinked :: "nat \<Rightarrow> nat \<Rightarrow> machine \<Rightarrow> machine" where
  "unlinked a c m = set_node a (\<lambda>n. n\<lparr>children := remove1 c (children n)\<rparr>) m"

lemma drop_remove1: "set (drop k (remove1 c xs)) \<subseteq> set (drop k xs)"
proof (induction xs arbitrary: k)
  case (Cons x xs)
  show ?case
  proof (cases k)
    case (Suc j)
    then show ?thesis using Cons [of j] set_drop_subset_set_drop [of j "Suc j" xs] by auto
  qed (use set_remove1_subset [of c "x # xs"] in simp)
qed simp

lemma unlinked_inv:
  assumes "tree_inv m" "stack m = Deliver a c # fs" "is_aggregate (kind_at m a)"
  shows "tree_inv (unlinked a c (m\<lparr>stack := CountOff a c # fs\<rparr>))" (is "tree_inv ?m")
proof -
  note i = tree_invD [OF assms(1)]
  note ft = frames_tail [OF i(5) assms(2)]
  have c: "is_done (state_at m c)" "c \<in> set (children (nodes m a))" "parent (nodes m c) = None" using ft(5) assms(3) by auto
  note k = member_aggregate [OF i(4) c(2)]
  define m' where "m' = ?m"
  have sel [simp]: "kind_at m' n = kind_at m n" "state_at m' n = state_at m n"
    "cancel_requested (nodes m' n) = cancel_requested (nodes m n)" "decision (nodes m' n) = decision (nodes m n)"
    "parent (nodes m' n) = parent (nodes m n)" "child (nodes m' n) = child (nodes m n)"
    "children (nodes m' n) = (if n = a then remove1 c (children (nodes m a)) else children (nodes m n))" "pending (nodes m' n) = pending (nodes m n)"
    "scheduled (nodes m' n) = scheduled (nodes m n)" for n
    by (auto simp: unlinked_def m'_def)
  have [simp]: "stack m' = CountOff a c # fs" "gone m' = gone m" "tasks m' = tasks m" "deferred m' = deferred m" "owner m' = owner m"
    by (simp_all add: unlinked_def m'_def)
  have d: "distinct (children (nodes m a))" using i(4) by (simp add: children_ok_def)
  have mem: "x \<in> set (children (nodes m' n)) \<longleftrightarrow> x \<in> set (children (nodes m n)) \<and> (n = a \<longrightarrow> x \<noteq> c)" for x n
    using d by auto
  have g: "grows m m'" by (auto simp: grows_def)
  have aw: "awaits m' n = awaits m n" for n by (simp add: awaits_def split: option.split)
  have "filter (delivers c) fs = []"
    using i(5) assms(2) by (auto simp: frames_ok_def tally_def dest!: spec [of _ c])
  then have once: "Deliver b c \<notin> set fs" for b by (auto simp: filter_empty_conv)
  have held: "held m' n = held m n" for n
    using c(2) length_pos_if_in_set [OF c(2)] by (auto simp: held_def tally_def assms(2) length_remove1)
  have "tasks_ok m'"
  proof (rule tasks_okI [OF i(1)])
    fix n assume "kind_at m n = Task"
    then have "n \<noteq> a" using assms(3) by auto
    then show "tally (resumes n) m' + of_bool (awaits m' n) + of_bool (state_at m n = Running)
        = tally (resumes n) m + of_bool (awaits m n) + of_bool (state_at m' n = Running)"
      using aw by (simp add: tally_def assms(2))
  qed simp
  moreover have "parents_ok m'"
    using i(2) c(3) by (auto simp: parents_ok_def mem simp del: sel(7))
  moreover have "others_ok m'"
    using i(3) by (auto simp: others_ok_def)
  moreover have "children_ok m'"
    unfolding children_ok_def
  proof (intro allI conjI ballI)
    show "distinct (children (nodes m' b))" for b
      using i(4) by (auto simp: children_ok_def)
    fix b x assume x: "x \<in> set (children (nodes m' b))"
    then have x': "x \<in> set (children (nodes m b))" using mem by blast
    note kx = member_aggregate [OF i(4) x']
    then show "is_aggregate (kind_at m' b)" "kind_at m' x = Task" "owner m' x = Some b" by auto
    show "parent (nodes m' x) = Some b \<or> is_done (state_at m' x) \<and> Deliver b x \<in> set (stack m')
      \<or> state_at m' x = Pending \<and> (\<exists>cs. StartChildren b cs \<in> set (stack m') \<and> x \<in> set cs)"
      using member_cases [OF i(4) x'] assms(2) x mem [of x b] k kx by auto
  qed
  moreover have "frames_ok m'"
  proof (rule frames_okI [OF i(5) g, of fs "[CountOff a c]"])
    show "(\<forall>b. lists h = Some b \<longrightarrow> children (nodes m' b) = children (nodes m b)) \<or> frame_ok m' h"
      if h: "h \<in> set fs" "frame_ok m h" for h
    proof (cases "lists h = Some a")
      case True
      have "c \<notin> set (to_start h)" using to_start_pending(1) [OF i(5), of h c] h(1) assms(2) c(1) by auto
      with True h once drop_remove1 [of _ c "children (nodes m a)"] d show ?thesis
        by (cases h) (auto simp: decided_def reached_def)
    qed auto
  qed (use assms(2,3) ft in \<open>auto simp: starts_def dest: to_start_pending(1) [OF i(5), rotated]\<close>)
  moreover have "pending_ok m'"
    using i(6) by (simp add: pending_ok_def held)
  moreover have "settled_ok m'"
    using i(7) by (simp add: settled_ok_def held)
  moreover have "cancels_ok m'"
    by (rule cancels_okI [OF i(8) g]) (use assms(2) set_remove1_subset in \<open>auto simp: decided_def\<close>)
  moreover have "owners_ok m'"
    by (rule owners_okI [OF i(9) g]) (use c(1) mem in auto)
  moreover have "roots_ok m'"
    using i(10) by (auto simp: roots_ok_def)
  ultimately show ?thesis by (simp add: tree_inv_def m'_def)
qed


section \<open>An aggregate settles\<close>

lemma holder:
  assumes "holds a f" "kind_at m a \<noteq> Task"
  shows "\<not> resumes t f" "\<not> delivers t f" "\<not> starts t f" "f \<noteq> CancelChildren b k" "f \<noteq> Abandon b" "f \<noteq> Cancelling b"
    "f \<noteq> Deliver b c" "f \<noteq> StartChildren b cs" "holds b f \<longleftrightarrow> b = a" "frame_ok m f \<longleftrightarrow> is_aggregate (kind_at m a)"
  using assms by (cases f; auto simp: starts_def)+

definition released :: "nat \<Rightarrow> machine \<Rightarrow> machine" where
  "released a m = set_node a (\<lambda>n. n\<lparr>pending := pending n - 1\<rparr>) m"

lemma released_inv:
  assumes "tree_inv m" "stack m = f # fs" "holds a f" "parent (nodes m a) = None \<or> pending (nodes m a) \<noteq> 1"
  shows "tree_inv (released a (m\<lparr>stack := fs\<rparr>))" (is "tree_inv ?m")
proof -
  note i = tree_invD [OF assms(1)]
  note ft = frames_tail [OF i(5) assms(2)]
  have a: "is_aggregate (kind_at m a)" using ft(5) assms(3) by (cases f) auto
  then have "kind_at m a \<noteq> Task" by auto
  note h [simp] = holder [OF assms(3) this]
  define m' where "m' = ?m"
  have sel [simp]: "kind_at m' n = kind_at m n" "state_at m' n = state_at m n"
    "cancel_requested (nodes m' n) = cancel_requested (nodes m n)" "decision (nodes m' n) = decision (nodes m n)"
    "parent (nodes m' n) = parent (nodes m n)" "child (nodes m' n) = child (nodes m n)"
    "children (nodes m' n) = children (nodes m n)" "pending (nodes m' n) = pending (nodes m n) - of_bool (n = a)"
    "scheduled (nodes m' n) = scheduled (nodes m n)" for n
    by (auto simp: released_def m'_def)
  have [simp]: "stack m' = fs" "gone m' = gone m" "tasks m' = tasks m" "deferred m' = deferred m" "owner m' = owner m"
    by (simp_all add: released_def m'_def)
  have g: "grows m m'" by (auto simp: grows_def)
  have aw: "awaits m' n = awaits m n" for n by (simp add: awaits_def split: option.split)
  have held: "held m n = held m' n + of_bool (n = a)" for n by (simp add: held_def tally_def assms(2))
  have "tasks_ok m'"
    using i(1) aw assms(2) by (simp add: tasks_ok_def tally_def)
  moreover have "parents_ok m'"
    using i(2) by (auto simp: parents_ok_def)
  moreover have "others_ok m'"
    using i(3) by (auto simp: others_ok_def)
  moreover have "children_ok m'"
    using i(4) assms(2) h(7,8) by (fastforce simp: children_ok_def)
  moreover have "frames_ok m'"
    by (rule frames_okI [OF i(5) g, of fs "[]"])
      (use assms(2) ft in \<open>auto dest: to_start_pending(1) [OF i(5), rotated]\<close>)
  moreover have "pending_ok m'"
    using i(6) by (auto simp: pending_ok_def held)
  moreover have "settled_ok m'"
    using i(7) assms(4) by (auto simp: settled_ok_def held split: if_splits)
  moreover have "cancels_ok m'"
    by (rule cancels_okI [OF i(8) g]) (use assms(2) h(4-6) in \<open>auto simp: decided_def\<close>)
  moreover have "owners_ok m'"
    by (rule owners_okI [OF i(9) g]) auto
  moreover have "roots_ok m'"
    using i(10) by (auto simp: roots_ok_def)
  ultimately show ?thesis by (simp add: tree_inv_def m'_def)
qed

definition settled :: "nat \<Rightarrow> State \<Rightarrow> machine \<Rightarrow> machine" where
  "settled a s m = set_node a (\<lambda>n. n\<lparr>pending := pending n - 1, state := s, parent := None\<rparr>) m"

lemma settled_inv:
  assumes "tree_inv m" "stack m = f # fs" "holds a f" "parent (nodes m a) = Some p" "pending (nodes m a) = 1" "is_done s"
    and g: "g = Deliver p a \<or> (\<exists>s b. g = AwaitedEnded p s b)"
  shows "tree_inv (settled a s (m\<lparr>stack := g # fs\<rparr>))" (is "tree_inv ?m")
proof -
  note i = tree_invD [OF assms(1)]
  note ft = frames_tail [OF i(5) assms(2)]
  have a: "is_aggregate (kind_at m a)" using ft(5) assms(3) by (cases f) auto
  then have nt: "kind_at m a \<noteq> Task" by auto
  note h [simp] = holder [OF assms(3) this]
  have p: "kind_at m p = Task" using parent_aggregate(2) [OF i(2) assms(4)] nt by auto
  note pt = parent_task [OF i(2) assms(4) p]
  have pa: "p \<noteq> a" using p nt by auto
  have gq [simp]: "resumes t g \<longleftrightarrow> t = p" "\<not> starts t g" "\<not> holds t g" "g \<noteq> CancelChildren b k" "g \<noteq> Abandon b" "g \<noteq> Cancelling b"
    "ordered (g # fs) = ordered fs" "g \<noteq> StartChildren b cs" for t b k cs
    using g by (auto simp: starts_def)
  have nd: "filter (delivers a) fs = []" using no_delivery [OF i(5), of fs a] pt(2) assms(2) by auto
  have dn: "s \<noteq> Running" "s \<noteq> Pending" using assms(6) by auto
  define m' where "m' = ?m"
  have sel [simp]: "kind_at m' n = kind_at m n" "state_at m' n = (if n = a then s else state_at m n)"
    "cancel_requested (nodes m' n) = cancel_requested (nodes m n)" "decision (nodes m' n) = decision (nodes m n)"
    "parent (nodes m' n) = (if n = a then None else parent (nodes m n))" "child (nodes m' n) = child (nodes m n)"
    "children (nodes m' n) = children (nodes m n)" "pending (nodes m' n) = pending (nodes m n) - of_bool (n = a)"
    "scheduled (nodes m' n) = scheduled (nodes m n)" for n
    by (auto simp: settled_def m'_def)
  have [simp]: "stack m' = g # fs" "gone m' = gone m" "tasks m' = tasks m" "deferred m' = deferred m" "owner m' = owner m"
    by (simp_all add: settled_def m'_def)
  have gr: "grows m m'" using pt(2) assms(6) by (auto simp: grows_def)
  have held: "held m n = held m' n + of_bool (n = a)" for n by (simp add: held_def tally_def assms(2))
  have "held m a \<le> 1" using i(6) a assms(5) by (auto simp: pending_ok_def)
  then have h0: "held m' a = 0" using held [of a] by simp
  have "tasks_ok m'"
  proof (rule tasks_okI [OF i(1)])
    fix n assume n: "kind_at m n = Task"
    have "awaits m' n = (awaits m n \<and> n \<noteq> p)" using pt(1) assms(4) by (auto simp: awaits_def split: option.split)
    moreover have "tally (resumes n) m' = of_bool (n = p) + tally (resumes n) m" by (simp add: tally_def assms(2))
    ultimately show "tally (resumes n) m' + of_bool (awaits m' n) + of_bool (state_at m n = Running)
        = tally (resumes n) m + of_bool (awaits m n) + of_bool (state_at m' n = Running)"
      using pt(3) n nt by auto
  qed simp
  moreover have "parents_ok m'"
    using i(2) nt p by (auto simp: parents_ok_def)
  moreover have "others_ok m'"
    using i(3) dn by (auto simp: others_ok_def)
  moreover have "children_ok m'"
    unfolding children_ok_def
  proof (intro allI conjI ballI)
    show "distinct (children (nodes m' b))" for b
      using i(4) by (auto simp: children_ok_def)
    fix b x assume "x \<in> set (children (nodes m' b))"
    then have x: "x \<in> set (children (nodes m b))" by simp
    note kx = member_aggregate [OF i(4) x]
    then show "is_aggregate (kind_at m' b)" "kind_at m' x = Task" "owner m' x = Some b" by auto
    show "parent (nodes m' x) = Some b \<or> is_done (state_at m' x) \<and> Deliver b x \<in> set (stack m')
      \<or> state_at m' x = Pending \<and> (\<exists>cs. StartChildren b cs \<in> set (stack m') \<and> x \<in> set cs)"
      using member_cases [OF i(4) x] assms(2) kx nt h(7,8) by auto
  qed
  moreover have "frames_ok m'"
  proof (rule frames_okI [OF i(5) gr, of fs "[g]"])
    show "state_at m' d = Pending" if "k \<in> set fs" "d \<in> set (to_start k)" for k d
      using to_start_pending(1) [OF i(5) _ that(2)] that(1) assms(2) pt(2) by auto
    show "length (filter (delivers c) ([g] @ fs)) \<le> 1" for c using ft(2) [of c] nd g by auto
  qed (use assms(2,6) ft p g in auto)
  moreover have "pending_ok m'"
    using i(6) by (auto simp: pending_ok_def held)
  moreover have "settled_ok m'"
    using i(7) h0 dn by (auto simp: settled_ok_def held)
  moreover have "cancels_ok m'"
    by (rule cancels_okI [OF i(8) gr]) (use assms(2) h(4-6) in \<open>auto simp: decided_def split: if_splits\<close>)
  moreover have "owners_ok m'"
    by (rule owners_okI [OF i(9) gr]) auto
  moreover have "roots_ok m'"
    using i(10) a pt(2) by (auto simp: roots_ok_def is_aggregate_def)
  ultimately show ?thesis by (simp add: tree_inv_def m'_def)
qed

text \<open>A join of a group with no children left ends at once.\<close>

definition joined :: "nat \<Rightarrow> State \<Rightarrow> machine \<Rightarrow> machine" where
  "joined a s m = set_node a (\<lambda>n. n\<lparr>state := s\<rparr>) m"

lemma joined_inv:
  assumes "tree_inv m" "kind_at m a = TaskGroup" "state_at m a = Pending" "pending (nodes m a) = 0" "\<not> gone m a" "is_done s"
  shows "tree_inv (joined a s m)" (is "tree_inv ?m")
proof -
  note i = tree_invD [OF assms(1)]
  note pn = pending_node [OF assms(1,3)]
  define m' where "m' = ?m"
  have sel [simp]: "kind_at m' n = kind_at m n" "state_at m' n = (if n = a then s else state_at m n)"
    "cancel_requested (nodes m' n) = cancel_requested (nodes m n)" "decision (nodes m' n) = decision (nodes m n)"
    "parent (nodes m' n) = parent (nodes m n)" "child (nodes m' n) = child (nodes m n)"
    "children (nodes m' n) = children (nodes m n)" "pending (nodes m' n) = pending (nodes m n)"
    "scheduled (nodes m' n) = scheduled (nodes m n)" for n
    by (auto simp: joined_def m'_def)
  have [simp]: "stack m' = stack m" "gone m' = gone m" "tasks m' = tasks m" "deferred m' = deferred m" "owner m' = owner m"
    by (simp_all add: joined_def m'_def)
  have dn: "s \<noteq> Running" "s \<noteq> Pending" using assms(6) by auto
  have g: "grows m m'" using assms(3,6) by (auto simp: grows_def)
  have aw: "awaits m' n = awaits m n" for n by (simp add: awaits_def split: option.split)
  have held: "held m' n = held m n" for n by (simp add: held_def tally_def)
  have h0: "held m a = 0" using i(6) [unfolded pending_ok_def, rule_format, of a] assms(2,4) by simp
  have t: "tally P m' = tally P m" for P by (simp add: tally_def)
  have "tasks_ok m'"
    using i(1) aw assms(2) by (auto simp: tasks_ok_def t)
  moreover have "parents_ok m'"
    using i(2) pn(1) by (auto simp: parents_ok_def)
  moreover have "others_ok m'"
    using i(3) dn by (auto simp: others_ok_def)
  moreover have "children_ok m'"
    unfolding children_ok_def
  proof (intro allI conjI ballI)
    show "distinct (children (nodes m' b))" for b
      using i(4) by (auto simp: children_ok_def)
    fix b x assume "x \<in> set (children (nodes m' b))"
    then have x: "x \<in> set (children (nodes m b))" by simp
    note kx = member_aggregate [OF i(4) x]
    then show "is_aggregate (kind_at m' b)" "kind_at m' x = Task" "owner m' x = Some b" by auto
    show "parent (nodes m' x) = Some b \<or> is_done (state_at m' x) \<and> Deliver b x \<in> set (stack m')
      \<or> state_at m' x = Pending \<and> (\<exists>cs. StartChildren b cs \<in> set (stack m') \<and> x \<in> set cs)"
      using member_cases [OF i(4) x] assms(2) kx by auto
  qed
  moreover have "frames_ok m'"
  proof (rule frames_okI [OF i(5) g, of "stack m" "[]"])
    show "state_at m' d = Pending" if k: "k \<in> set (stack m)" "d \<in> set (to_start k)" for k d
    proof -
      have "d \<noteq> a" using to_start_pending(2) [OF i(5) k] member_aggregate [OF i(4)] assms(2) by force
      then show ?thesis using to_start_pending(1) [OF i(5) k] by simp
    qed
  qed (use i(5) in \<open>auto simp: frames_ok_def tally_def\<close>)
  moreover have "pending_ok m'"
    using i(6) by (auto simp: pending_ok_def held)
  moreover have "settled_ok m'"
    using i(7) h0 dn assms(2,3) by (auto simp: settled_ok_def held)
  moreover have "cancels_ok m'"
    by (rule cancels_okI [OF i(8) g]) (auto simp: decided_def)
  moreover have "owners_ok m'"
    by (rule owners_okI [OF i(9) g]) auto
  moreover have "roots_ok m'"
    using i(10) assms(2,3) by (auto simp: roots_ok_def)
  ultimately show ?thesis by (simp add: tree_inv_def m'_def)
qed

end
