(* ===== verification/Task_Release.thy ===== *)
theory Task_Release
  imports Task_Aggregates
begin

text \<open>
  The elementary changes of the destruction of a group, of the end of a leaf and of the queues of the
  loop keep the invariant.
\<close>

section \<open>A group goes\<close>

definition abandoned :: "nat \<Rightarrow> machine \<Rightarrow> machine" where
  "abandoned a m = push [Abandon a] (set_node a (\<lambda>n. n\<lparr>cancel_requested := True\<rparr>) (m\<lparr>gone := (gone m)(a := True)\<rparr>))"

lemma abandoned_inv:
  assumes "tree_inv m" "kind_at m a = TaskGroup" "parent (nodes m a) = None" "list_all (\<lambda>f. \<not> uses a f) (stack m)"
  shows "tree_inv (abandoned a m)" (is "tree_inv ?m")
proof -
  note i = tree_invD [OF assms(1)]
  define m' where "m' = ?m"
  have sel [simp]: "kind_at m' n = kind_at m n" "state_at m' n = state_at m n"
    "cancel_requested (nodes m' n) = (n = a \<or> cancel_requested (nodes m n))" "decision (nodes m' n) = decision (nodes m n)"
    "parent (nodes m' n) = parent (nodes m n)" "child (nodes m' n) = child (nodes m n)"
    "children (nodes m' n) = children (nodes m n)" "pending (nodes m' n) = pending (nodes m n)"
    "scheduled (nodes m' n) = scheduled (nodes m n)" for n
    by (auto simp: abandoned_def m'_def)
  have [simp]: "stack m' = Abandon a # stack m" "gone m' n = (n = a \<or> gone m n)" "tasks m' = tasks m" "deferred m' = deferred m" "owner m' = owner m" for n
    by (simp_all add: abandoned_def m'_def)
  have g: "grows m m'" by (auto simp: grows_def)
  have aw: "awaits m' n = awaits m n" for n by (simp add: awaits_def split: option.split)
  have held: "held m' n = held m n" for n by (simp add: held_def tally_def)
  have "tasks_ok m'"
    using i(1) aw by (auto simp: tasks_ok_def tally_def)
  moreover have "parents_ok m'"
    using i(2) by (auto simp: parents_ok_def)
  moreover have "others_ok m'"
    using i(3) by (auto simp: others_ok_def)
  moreover have "children_ok m'"
    using i(4) by (fastforce simp: children_ok_def)
  moreover have "frames_ok m'"
    by (rule frames_okI [OF i(5) g, of "stack m" "[Abandon a]"])
      (use assms(2,4) i(5) to_start_pending(1) [OF i(5)] in \<open>auto simp: frames_ok_def tally_def starts_def\<close>)
  moreover have "pending_ok m'"
    using i(6) by (auto simp: pending_ok_def held)
  moreover have "settled_ok m'"
    using i(7) assms(2,3) by (auto simp: settled_ok_def held)
  moreover have "cancels_ok m'"
    by (rule cancels_okI [OF i(8) g]) (use assms(2) in \<open>auto simp: decided_def\<close>)
  moreover have "owners_ok m'"
    by (rule owners_okI [OF i(9) g]) auto
  moreover have "roots_ok m'"
    using i(10) by (auto simp: roots_ok_def)
  ultimately show ?thesis by (simp add: tree_inv_def m'_def)
qed

lemma abandoned_all_inv:
  assumes "tree_inv m" "stack m = Abandon a # fs" "children (nodes m a) = []"
  shows "tree_inv (m\<lparr>stack := fs\<rparr>)" (is "tree_inv ?m")
proof -
  note i = tree_invD [OF assms(1)]
  note ft = frames_tail [OF i(5) assms(2)]
  define m' where "m' = ?m"
  have [simp]: "nodes m' = nodes m" "stack m' = fs" "gone m' = gone m" "tasks m' = tasks m" "deferred m' = deferred m" "owner m' = owner m"
    by (simp_all add: m'_def)
  have g: "grows m m'" by (auto simp: grows_def)
  have aw: "awaits m' n = awaits m n" for n by (simp add: awaits_def split: option.split)
  have held: "held m' n = held m n" for n by (simp add: held_def tally_def assms(2))
  have "tasks_ok m'"
    using i(1) aw assms(2) by (simp add: tasks_ok_def tally_def)
  moreover have "parents_ok m'"
    using i(2) by (auto simp: parents_ok_def)
  moreover have "others_ok m'"
    using i(3) by (auto simp: others_ok_def)
  moreover have "children_ok m'"
    using i(4) assms(2) by (fastforce simp: children_ok_def)
  moreover have "frames_ok m'"
    by (rule frames_okI [OF i(5) g, of fs "[]"])
      (use assms(2) ft in \<open>auto dest: to_start_pending(1) [OF i(5), rotated]\<close>)
  moreover have "pending_ok m'"
    using i(6) by (simp add: pending_ok_def held)
  moreover have "settled_ok m'"
    using i(7) by (simp add: settled_ok_def held)
  moreover have "cancels_ok m'"
  proof (rule cancels_okI [OF i(8) g], goal_cases)
    case (1 b)
    show ?case using 1 assms(2,3) by (cases "b = a") auto
  qed (use assms(2) in auto)
  moreover have "owners_ok m'"
    by (rule owners_okI [OF i(9) g]) auto
  moreover have "roots_ok m'"
    using i(10) by (auto simp: roots_ok_def)
  ultimately show ?thesis by (simp add: tree_inv_def m'_def)
qed

text \<open>A child of a group that goes becomes a root.\<close>

definition released_child :: "nat \<Rightarrow> nat \<Rightarrow> machine \<Rightarrow> machine" where
  "released_child a c m = set_node c (\<lambda>n. n\<lparr>parent := None\<rparr>) (set_node a (\<lambda>n. n\<lparr>children := remove1 c (children n)\<rparr>)
     (m\<lparr>owner := (owner m)(c := None)\<rparr>))"

lemma abandoned_child:
  assumes "tree_inv m" "stack m = Abandon a # fs" "c \<in> set (children (nodes m a))"
  shows "kind_at m c = Task" "parent (nodes m c) = Some a" "state_at m c = Running" "a \<noteq> c"
proof -
  note i = tree_invD [OF assms(1)]
  note k = member_aggregate [OF i(4) assms(3)]
  then show "kind_at m c = Task" "a \<noteq> c" by auto
  have "list_all (\<lambda>f. \<not> uses a f) fs" using i(5) assms(2) by (simp add: frames_ok_def)
  then have "Deliver a c \<notin> set fs" "StartChildren a cs \<in> set fs \<Longrightarrow> c \<notin> set cs" for cs by (auto simp: list_all_iff)
  then show p: "parent (nodes m c) = Some a" using member_cases [OF i(4) assms(3)] assms(2) by auto
  show "state_at m c = Running" using parent_aggregate(3) [OF i(2) p] k by (cases "kind_at m a") auto
qed

lemma released_child_inv:
  assumes "tree_inv m" "stack m = Abandon a # fs" "c \<in> set (children (nodes m a))"
  shows "tree_inv (released_child a c m)" (is "tree_inv ?m")
proof -
  note i = tree_invD [OF assms(1)]
  note ft = frames_tail [OF i(5) assms(2)]
  note c = abandoned_child [OF assms]
  have a: "is_aggregate (kind_at m a)" "gone m a" using member_aggregate [OF i(4) assms(3)] ft(5) by auto
  have u: "list_all (\<lambda>f. \<not> uses a f) fs" using i(5) assms(2) by (simp add: frames_ok_def)
  define m' where "m' = ?m"
  have sel [simp]: "kind_at m' n = kind_at m n" "state_at m' n = state_at m n"
    "cancel_requested (nodes m' n) = cancel_requested (nodes m n)" "decision (nodes m' n) = decision (nodes m n)"
    "parent (nodes m' n) = (if n = c then None else parent (nodes m n))" "child (nodes m' n) = child (nodes m n)"
    "children (nodes m' n) = (if n = a then remove1 c (children (nodes m a)) else children (nodes m n))" "pending (nodes m' n) = pending (nodes m n)"
    "scheduled (nodes m' n) = scheduled (nodes m n)" for n
    using c(4) by (auto simp: released_child_def m'_def)
  have [simp]: "stack m' = stack m" "gone m' = gone m" "tasks m' = tasks m" "deferred m' = deferred m"
    "owner m' n = (if n = c then None else owner m n)" for n
    by (simp_all add: released_child_def m'_def)
  have t: "tally P m' = tally P m" for P by (simp add: tally_def)
  have d: "distinct (children (nodes m a))" using i(4) by (simp add: children_ok_def)
  have mem: "x \<in> set (children (nodes m' n)) \<longleftrightarrow> x \<in> set (children (nodes m n)) \<and> (n = a \<longrightarrow> x \<noteq> c)" for x n
    using d by auto
  have only: "c \<in> set (children (nodes m b)) \<Longrightarrow> b = a" for b
    using member_aggregate [OF i(4), of c a] member_aggregate [OF i(4), of c b] assms(3) by simp
  have g: "grows m m'" by (auto simp: grows_def)
  have aw: "awaits m' n = awaits m n" if "kind_at m n = Task" for n
    using c(2) a(1) that by (auto simp: awaits_def split: option.split)
  have held: "held m n = held m' n + of_bool (n = a)" for n
    using length_pos_if_in_set [OF assms(3)] assms(3) by (auto simp: held_def t length_remove1)
  have "tasks_ok m'"
    using i(1) aw by (auto simp: tasks_ok_def t)
  moreover have "parents_ok m'"
    using i(2) by (auto simp: parents_ok_def mem simp del: sel(7) split: if_splits)
  moreover have "others_ok m'"
    using i(3) c(1) by (auto simp: others_ok_def)
  moreover have "children_ok m'"
    unfolding children_ok_def
  proof (intro allI conjI ballI)
    show "distinct (children (nodes m' b))" for b
      using i(4) by (auto simp: children_ok_def)
    fix b x assume x: "x \<in> set (children (nodes m' b))"
    then have x': "x \<in> set (children (nodes m b))" "x \<noteq> c" using mem only by blast+
    note kx = member_aggregate [OF i(4) x'(1)]
    with x'(2) show "is_aggregate (kind_at m' b)" "kind_at m' x = Task" "owner m' x = Some b" by auto
    show "parent (nodes m' x) = Some b \<or> is_done (state_at m' x) \<and> Deliver b x \<in> set (stack m')
      \<or> state_at m' x = Pending \<and> (\<exists>cs. StartChildren b cs \<in> set (stack m') \<and> x \<in> set cs)"
      using member_cases [OF i(4) x'(1)] x' by auto
  qed
  moreover have "frames_ok m'"
  proof (rule frames_okI [OF i(5) g, of "stack m" "[]"])
    show "(\<forall>b. lists h = Some b \<longrightarrow> children (nodes m' b) = children (nodes m b)) \<or> frame_ok m' h"
      if h: "h \<in> set (stack m)" "frame_ok m h" for h
    proof (cases "lists h = Some a")
      case True
      then have "uses a h \<or> h = StartChildren a []" by (cases h) auto
      with h(1) u assms(2) show ?thesis by (auto simp: list_all_iff)
    qed auto
  qed (use i(5) to_start_pending(1) [OF i(5)] in \<open>auto simp: frames_ok_def tally_def\<close>)
  moreover have "pending_ok m'"
    using i(6) a(2) by (auto simp: pending_ok_def held)
  moreover have "settled_ok m'"
    using i(7) c(1) by (auto simp: settled_ok_def held)
  moreover have "cancels_ok m'"
    by (rule cancels_okI [OF i(8) g]) (use set_remove1_subset in \<open>auto simp: decided_def split: if_splits\<close>)
  moreover have "owners_ok m'"
    by (rule owners_okI [OF i(9) g]) (use mem in \<open>auto split: if_splits\<close>)
  moreover have "roots_ok m'"
    using i(10) c by (auto simp: roots_ok_def)
  ultimately show ?thesis by (simp add: tree_inv_def m'_def)
qed

section \<open>Leaves, and the queues of the loop\<close>

definition completed :: "nat \<Rightarrow> nat \<Rightarrow> State \<Rightarrow> machine \<Rightarrow> machine" where
  "completed i p s m = push [Deliver p i] (set_node i (\<lambda>n. n\<lparr>state := s, parent := None\<rparr>) m)"

lemma completed_inv:
  assumes "tree_inv m" "is_leaf (kind_at m i)" "parent (nodes m i) = Some p" "i \<notin> set (deferred m)" "is_done s"
  shows "tree_inv (completed i p s m)" (is "tree_inv ?m")
proof -
  note i = tree_invD [OF assms(1)]
  have nt: "kind_at m i \<noteq> Task" "\<not> is_aggregate (kind_at m i)" using assms(2) by (auto simp: is_leaf_def)
  have p: "kind_at m p = Task" using parent_aggregate(2) [OF i(2) assms(3)] nt by auto
  note pt = parent_task [OF i(2) assms(3) p]
  have pi: "p \<noteq> i" using p nt by auto
  have nd: "filter (delivers i) (stack m) = []" using no_delivery [OF i(5), of "stack m" i] pt(2) by auto
  have dn: "s \<noteq> Running" "s \<noteq> Pending" using assms(5) by auto
  define m' where "m' = ?m"
  have sel [simp]: "kind_at m' n = kind_at m n" "state_at m' n = (if n = i then s else state_at m n)"
    "cancel_requested (nodes m' n) = cancel_requested (nodes m n)" "decision (nodes m' n) = decision (nodes m n)"
    "parent (nodes m' n) = (if n = i then None else parent (nodes m n))" "child (nodes m' n) = child (nodes m n)"
    "children (nodes m' n) = children (nodes m n)" "pending (nodes m' n) = pending (nodes m n)"
    "scheduled (nodes m' n) = scheduled (nodes m n)" for n
    by (auto simp: completed_def m'_def)
  have [simp]: "stack m' = Deliver p i # stack m" "gone m' = gone m" "tasks m' = tasks m" "deferred m' = deferred m" "owner m' = owner m"
    by (simp_all add: completed_def m'_def)
  have g: "grows m m'" using pt(2) assms(5) by (auto simp: grows_def)
  have held: "held m n = held m' n" for n by (simp add: held_def tally_def)
  have "tasks_ok m'"
  proof (rule tasks_okI [OF i(1)])
    fix n assume n: "kind_at m n = Task"
    have "awaits m' n = (awaits m n \<and> n \<noteq> p)" using pt(1) assms(3) by (auto simp: awaits_def split: option.split)
    moreover have "tally (resumes n) m' = of_bool (n = p) + tally (resumes n) m" by (auto simp: tally_def)
    ultimately show "tally (resumes n) m' + of_bool (awaits m' n) + of_bool (state_at m n = Running)
        = tally (resumes n) m + of_bool (awaits m n) + of_bool (state_at m' n = Running)"
      using pt(3) n nt by auto
  qed simp
  moreover have "parents_ok m'"
    using i(2) nt p by (auto simp: parents_ok_def)
  moreover have "others_ok m'"
    using i(3) dn by (auto simp: others_ok_def)
  moreover have "children_ok m'"
    unfolding children_ok_def
  proof (intro allI conjI ballI)
    show "distinct (children (nodes m' b))" for b
      using i(4) by (auto simp: children_ok_def)
    fix b x assume "x \<in> set (children (nodes m' b))"
    then have x: "x \<in> set (children (nodes m b))" by simp
    note kx = member_aggregate [OF i(4) x]
    then show "is_aggregate (kind_at m' b)" "kind_at m' x = Task" "owner m' x = Some b" by auto
    show "parent (nodes m' x) = Some b \<or> is_done (state_at m' x) \<and> Deliver b x \<in> set (stack m')
      \<or> state_at m' x = Pending \<and> (\<exists>cs. StartChildren b cs \<in> set (stack m') \<and> x \<in> set cs)"
      using member_cases [OF i(4) x] kx nt by auto
  qed
  moreover have "frames_ok m'"
  proof (rule frames_okI [OF i(5) g, of "stack m" "[Deliver p i]"])
    show "state_at m' d = Pending" if "k \<in> set (stack m)" "d \<in> set (to_start k)" for k d
      using to_start_pending(1) [OF i(5) that] pt(2) by auto
  qed (use i(5) nd p assms(5) in \<open>auto simp: frames_ok_def tally_def starts_def\<close>)
  moreover have "pending_ok m'"
    using i(6) by (auto simp: pending_ok_def held)
  moreover have "settled_ok m'"
    using i(7) nt by (auto simp: settled_ok_def held)
  moreover have "cancels_ok m'"
    by (rule cancels_okI [OF i(8) g]) (auto simp: decided_def split: if_splits)
  moreover have "owners_ok m'"
    by (rule owners_okI [OF i(9) g]) auto
  moreover have "roots_ok m'"
    using i(10) pt(2) assms(4) by (auto simp: roots_ok_def)
  ultimately show ?thesis by (simp add: tree_inv_def m'_def)
qed

definition queued :: "nat \<Rightarrow> bool \<Rightarrow> nat list \<Rightarrow> nat list \<Rightarrow> machine \<Rightarrow> machine" where
  "queued t b ts ds m = set_node t (\<lambda>n. n\<lparr>scheduled := b\<rparr>) (m\<lparr>tasks := ts, deferred := ds\<rparr>)"

lemma queued_inv:
  assumes "tree_inv m" "roots_ok (queued t b ts ds m)"
  shows "tree_inv (queued t b ts ds m)" (is "tree_inv ?m")
proof -
  note i = tree_invD [OF assms(1)]
  define m' where "m' = ?m"
  have sel [simp]: "kind_at m' n = kind_at m n" "state_at m' n = state_at m n"
    "cancel_requested (nodes m' n) = cancel_requested (nodes m n)" "decision (nodes m' n) = decision (nodes m n)"
    "parent (nodes m' n) = parent (nodes m n)" "child (nodes m' n) = child (nodes m n)"
    "children (nodes m' n) = children (nodes m n)" "pending (nodes m' n) = pending (nodes m n)" for n
    by (auto simp: queued_def m'_def)
  have [simp]: "stack m' = stack m" "gone m' = gone m" "owner m' = owner m"
    by (simp_all add: queued_def m'_def)
  have t: "tally P m' = tally P m" "awaits m' n = awaits m n" "held m' n = held m n" for P n
    by (simp_all add: tally_def held_def awaits_def split: option.split)
  have g: "grows m m'" by (simp add: grows_def)
  have "frames_ok m'"
    by (rule frames_okI [OF i(5) g, of "stack m" "[]"])
      (use i(5) to_start_pending(1) [OF i(5)] in \<open>auto simp: frames_ok_def tally_def\<close>)
  moreover have "cancels_ok m'"
    by (rule cancels_okI [OF i(8) g]) (auto simp: decided_def)
  moreover have "children_ok m'"
    using i(4) by (simp add: children_ok_def)
  moreover have "owners_ok m'"
    by (rule owners_okI [OF i(9) g]) auto
  moreover have "roots_ok m'" using assms(2) by (simp add: m'_def)
  moreover have "tasks_ok m'" "parents_ok m'" "others_ok m'"
    using i(1-3) by (simp_all add: t tasks_ok_def parents_ok_def others_ok_def)
  moreover have "pending_ok m'" using i(6) by (simp add: t pending_ok_def)
  moreover have "settled_ok m'" using i(7) by (simp add: t settled_ok_def)
  ultimately show ?thesis by (simp add: tree_inv_def m'_def)
qed

end
