(* ===== verification/Task_Ops.thy ===== *)
theory Task_Ops
  imports Task_Release
begin

text \<open>
  The operations on tasks, and \<^verbatim>\<open>cancel\<close>, keep the invariant.
\<close>

section \<open>The operations on tasks\<close>

lemma same_core_refl: "same_core m m"
  by (simp add: same_core_def)

lemma same_core_finish: "same_core m m' \<Longrightarrow> same_core (finish t s m) (finish t s m')"
  by (auto simp: same_core_def finish_def Let_def core_def split: option.split)

lemma same_core_start: "same_core m m' \<Longrightarrow> same_core (start c p m) (start c p m')"
proof -
  assume a: "same_core m m'"
  then have "same_core (set_node c (\<lambda>n. n\<lparr>parent := p\<rparr>) m) (set_node c (\<lambda>n. n\<lparr>parent := p\<rparr>) m')"
    by (auto simp: same_core_def core_def)
  note same_core_finish [OF this, of c Cancelled]
  with a show ?thesis by (auto simp: start_def Let_def same_core_def core_def)
qed

lemma coreI: "tree_inv m' \<Longrightarrow> same_core m m' \<Longrightarrow> tree_inv m"
  using same_core_inv by blast

lemma ended_inv:
  assumes "tree_inv m" "stack m = Run t # fs" "is_done s"
  shows "tree_inv (finish t s (m\<lparr>stack := fs\<rparr>))"
  by (rule coreI [OF finished_inv [OF assms] finish_core])

lemma end_task_inv:
  assumes "tree_inv m" "stack m = Run t # fs"
  shows "tree_inv (end_task t e (m\<lparr>stack := fs\<rparr>))"
proof -
  have "same_core (finish t Failed (set_node t (\<lambda>n. n\<lparr>threw := True\<rparr>) (m\<lparr>stack := fs\<rparr>))) (finish t Failed (m\<lparr>stack := fs\<rparr>))"
    by (rule same_core_finish) (simp add: same_core_def core_def)
  from coreI [OF ended_inv [OF assms] this] ended_inv [OF assms] show ?thesis
    by (cases e) (auto simp: end_task_def)
qed

lemma awaited_ended_inv:
  assumes "tree_inv m" "stack m = f # fs" "resumes t f" "kind_at m t = Task"
  shows "tree_inv (awaited_ended t s b (m\<lparr>stack := fs\<rparr>))"
proof -
  let ?r = "set_node t (\<lambda>n. n\<lparr>child := None\<rparr>) (m\<lparr>stack := Run t # fs\<rparr>)"
  have r: "tree_inv ?r" by (rule resumed_inv [OF assms])
  have "tree_inv (finish t Cancelled (?r\<lparr>stack := fs\<rparr>))" by (rule ended_inv [OF r]) simp_all
  moreover have "?r\<lparr>stack := fs\<rparr> = set_node t (\<lambda>n. n\<lparr>child := None\<rparr>) (m\<lparr>stack := fs\<rparr>)" by (simp add: set_node_def)
  moreover have "tree_inv (push [Run t] (set_node t (\<lambda>n. n\<lparr>child := None\<rparr>) (m\<lparr>stack := fs\<rparr>)))"
    by (rule coreI [OF r]) (simp add: same_core_def)
  ultimately show ?thesis by (simp add: awaited_ended_def Let_def)
qed

lemma failed_inv:
  assumes "tree_inv m" "stack m = f # fs" "resumes t f" "kind_at m t = Task"
  shows "tree_inv (finish t Failed (set_node t (\<lambda>n. n\<lparr>child := None\<rparr>) (m\<lparr>stack := fs\<rparr>)))"
proof -
  let ?r = "set_node t (\<lambda>n. n\<lparr>child := None\<rparr>) (m\<lparr>stack := Run t # fs\<rparr>)"
  have "tree_inv (finish t Failed (?r\<lparr>stack := fs\<rparr>))" by (rule ended_inv [OF resumed_inv [OF assms]]) simp_all
  moreover have "?r\<lparr>stack := fs\<rparr> = set_node t (\<lambda>n. n\<lparr>child := None\<rparr>) (m\<lparr>stack := fs\<rparr>)" by (simp add: set_node_def)
  ultimately show ?thesis by simp
qed

text \<open>A task that was cancelled before it starts ends as if it had run.\<close>

lemma start_inv:
  assumes "tree_inv (started c p m)"
  shows "tree_inv (start c p m)"
proof (cases "cancel_requested (nodes m c)")
  case True
  have "tree_inv (finish c Cancelled ((started c p m)\<lparr>stack := stack m\<rparr>))"
    by (rule ended_inv [OF assms]) (simp_all add: started_def)
  moreover have "same_core (finish c Cancelled (set_node c (\<lambda>n. n\<lparr>parent := p\<rparr>) m))
      (finish c Cancelled ((started c p m)\<lparr>stack := stack m\<rparr>))"
    by (auto simp: same_core_def core_def finish_def started_def Let_def split: option.split)
  ultimately show ?thesis using True by (simp add: start_def Let_def coreI)
next
  case False
  then have "same_core (start c p m) (started c p m)"
    by (simp add: start_def started_def Let_def same_core_def core_def)
  with assms show ?thesis by (rule coreI)
qed

lemma idle_node: "idle m c \<Longrightarrow> tree_inv m \<Longrightarrow> kind_at m c = Task \<and> state_at m c = Pending \<and> owner m c = None \<and> c \<notin> set (tasks m)"
  using idle_facts(2) by (auto simp: idle_def)

lemma await_task_inv:
  assumes "tree_inv m" "stack m = Run t # fs" "idle m c"
  shows "tree_inv (await_task t c b h (m\<lparr>stack := fs\<rparr>))"
proof (cases "cancel_requested (nodes m t)")
  case True
  with ended_inv [OF assms(1,2)] show ?thesis by (simp add: await_task_def checkpoint_def)
next
  case False
  note c = idle_node [OF assms(3,1)]
  have ct: "c \<noteq> t" using running_top [OF assms(1,2)] c by auto
  let ?x = "set_node t (\<lambda>n. n\<lparr>child := Some c\<rparr>) (set_node c (\<lambda>n. n\<lparr>intercept := b, hook := h\<rparr>) (m\<lparr>stack := fs\<rparr>))"
  have "tree_inv (awaited c t (m\<lparr>stack := awaited_frames m c False @ [] @ fs\<rparr>))"
    by (rule awaited_inv) (use assms(1,2) c False in auto)
  moreover have "same_core (started c (Some t) ?x) (awaited c t (m\<lparr>stack := awaited_frames m c False @ [] @ fs\<rparr>))"
    using ct c by (auto simp: same_core_def core_def started_def awaited_def awaited_frames_def is_when_def)
  ultimately have "tree_inv (started c (Some t) ?x)" by (rule coreI)
  from start_inv [OF this] False show ?thesis by (simp add: await_task_def checkpoint_def)
qed

section \<open>The cancel of a node\<close>

lemma cancelled_pop:
  assumes "tree_inv m" "stack m = gs @ Cancelling n # fs" "reached m n"
  shows "tree_inv (m\<lparr>stack := gs @ fs\<rparr>)" (is "tree_inv ?m")
proof -
  note i = tree_invD [OF assms(1)]
  define m' where "m' = ?m"
  have [simp]: "nodes m' = nodes m" "stack m' = gs @ fs" "gone m' = gone m" "tasks m' = tasks m" "deferred m' = deferred m" "owner m' = owner m"
    by (simp_all add: m'_def)
  have g: "grows m m'" by (auto simp: grows_def)
  have aw: "awaits m' n = awaits m n" for n by (simp add: awaits_def split: option.split)
  have held: "held m' n = held m n" for n by (simp add: held_def tally_def assms(2))
  have par: "parent (nodes m n) = Some t \<Longrightarrow> cancel_requested (nodes m n)" for t
    using i(2) assms(3) unfolding parents_ok_def reached_def by fastforce
  have "tasks_ok m'"
    using i(1) aw assms(2) by (simp add: tasks_ok_def tally_def)
  moreover have "parents_ok m'" "others_ok m'"
    using i(2,3) by (auto simp: parents_ok_def others_ok_def)
  moreover have "children_ok m'"
    using i(4) assms(2) by (fastforce simp: children_ok_def)
  moreover have "frames_ok m'"
    using i(5) assms(2) ordered_remove [of gs "Cancelling n" fs] frame_grows [OF g] to_start_pending(1) [OF i(5)]
    unfolding frames_ok_def tally_def by (auto simp: starts_def)
  moreover have "pending_ok m'"
    using i(6) by (simp add: pending_ok_def held)
  moreover have "settled_ok m'"
    using i(7) by (simp add: settled_ok_def held)
  moreover have "cancels_ok m'"
    by (rule cancels_okI [OF i(8) g]) (use assms(2) par in auto)
  moreover have "owners_ok m'"
    by (rule owners_okI [OF i(9) g]) auto
  moreover have "roots_ok m'"
    using i(10) by (auto simp: roots_ok_def)
  ultimately show ?thesis by (simp add: tree_inv_def m'_def)
qed

text \<open>What a cancel does to a node it has not reached.\<close>

definition cancel_core :: "nat \<Rightarrow> machine \<Rightarrow> machine" where
  "cancel_core n m = (if reached m n then m else flagged n (if is_aggregate (kind_at m n) then pinned n m else m))"

lemma cancel_core: "same_core (cancel n m) (cancel_core n m)"
proof (cases "reached m n")
  case True
  then show ?thesis by (auto simp: cancel_def cancel_core_def reached_def same_core_refl)
next
  case False
  show ?thesis
  proof (cases "is_aggregate (kind_at m n)")
    case True
    then have "cancel n m = cancel_all n (enter_resumption (set_node n (\<lambda>r. r\<lparr>cancel_requested := True\<rparr>) m))"
      using \<open>\<not> reached m n\<close> by (auto simp: cancel_def reached_def is_aggregate_def Let_def)
    then show ?thesis using True \<open>\<not> reached m n\<close>
      by (auto simp: cancel_core_def flagged_def pinned_def cancel_all_def cancel_children_def passed_on_def
          same_core_def core_def enter_resumption_def is_leaf_def is_aggregate_def)
  next
    case False
    then show ?thesis using \<open>\<not> reached m n\<close>
      by (cases "kind_at m n") (auto simp: cancel_def cancel_core_def reached_def flagged_def passed_on_def
          same_core_def core_def Let_def split: option.split)
  qed
qed

lemma cancel_core_inv:
  assumes "tree_inv m" "is_aggregate (kind_at m n) \<Longrightarrow> state_at m n \<noteq> Pending"
  shows "tree_inv (cancel_core n m)"
proof -
  have "tree_inv (if is_aggregate (kind_at m n) then pinned n m else m)" if "\<not> reached m n"
    using assms pinned_inv [OF assms(1), of n] that by (auto simp: reached_def)
  then show ?thesis using assms
    by (auto simp: cancel_core_def pinned_def intro!: flagged_inv)
qed

lemma cancel_inv: "tree_inv m \<Longrightarrow> (is_aggregate (kind_at m n) \<Longrightarrow> state_at m n \<noteq> Pending) \<Longrightarrow> tree_inv (cancel n m)"
  using coreI cancel_core_inv cancel_core by blast

definition cancel_frames :: "nat \<Rightarrow> machine \<Rightarrow> frame list" where
  "cancel_frames n m = (if reached m n then [] else passed_on m n @ (if is_aggregate (kind_at m n) then [Unpin n] else []))"

lemma cancel_core_sels:
  "stack (cancel_core n m) = cancel_frames n m @ stack m" "reached (cancel_core n m) n"
  "cancel_core n (m\<lparr>stack := fs\<rparr>) = (cancel_core n m)\<lparr>stack := cancel_frames n m @ fs\<rparr>"
  by (simp_all add: cancel_core_def cancel_frames_def flagged_def pinned_def passed_on_def push_def set_node_def reached_def)

lemma cancelling_inv:
  assumes "tree_inv m" "stack m = Cancelling n # fs"
  shows "tree_inv (cancel n (m\<lparr>stack := fs\<rparr>))"
proof -
  have "frame_ok m (Cancelling n)" using tree_invD(5) [OF assms(1)] assms(2) by (simp add: frames_ok_def)
  then have "tree_inv (cancel_core n m)" by (intro cancel_core_inv [OF assms(1)]) auto
  from cancelled_pop [OF this, of "cancel_frames n m"] have "tree_inv (cancel_core n (m\<lparr>stack := fs\<rparr>))"
    by (simp add: cancel_core_sels assms(2))
  then show ?thesis by (rule coreI [OF _ cancel_core])
qed

end
