(* ===== verification/Task_Steps.thy ===== *)
theory Task_Steps
  imports Task_Ops
begin

text \<open>
  The operations on aggregates and leaves, and every turn of the runtime's own code, keep the invariant.
\<close>

section \<open>The operations on aggregates\<close>

lemma cancel_step_inv:
  assumes "tree_inv m" "stack m = CancelChildren a k # fs"
  shows "tree_inv (cancel_step a k (m\<lparr>stack := fs\<rparr>))"
proof (cases "k = 0 \<or> children (nodes m a) = []")
  case True
  with walked_inv [OF assms] show ?thesis by (auto simp: cancel_step_def split: list.split)
next
  case False
  then obtain c cs j where c: "children (nodes m a) = c # cs" "k = Suc j" by (cases k; cases "children (nodes m a)") auto
  have ac: "is_aggregate (kind_at m a)" "kind_at m c = Task" using member_aggregate [OF tree_invD(4) [OF assms(1)], of c a] c(1) by auto
  then have ne: "a \<noteq> c" by auto
  let ?x = "push [CancelChildren a j] (set_node a (\<lambda>n. n\<lparr>children := cs @ [c]\<rparr>) (m\<lparr>stack := fs\<rparr>))"
  have "tree_inv (cancel_core c m)" using ac(2) by (intro cancel_core_inv [OF assms(1)]) simp
  moreover have "children (nodes (cancel_core c m) a) = c # cs"
    using c(1) ne ac(2) by (simp add: cancel_core_def flagged_def)
  ultimately have "tree_inv (rotated a ((cancel_core c m)\<lparr>stack := cancel_frames c m @ CancelChildren a j # fs\<rparr>))"
    using assms(2) c(2) by (intro rotated_inv [of _ _ _ j _ c cs]) (simp_all add: cancel_core_sels)
  moreover have "same_core (cancel_core c ?x) (rotated a ((cancel_core c m)\<lparr>stack := cancel_frames c m @ CancelChildren a j # fs\<rparr>))"
    using c(1) ne ac(2)
    by (auto simp: same_core_def core_def rotated_def cancel_core_def cancel_frames_def flagged_def reached_def passed_on_def split: option.split)
  ultimately have "tree_inv (cancel c ?x)" using coreI cancel_core by blast
  then show ?thesis by (simp add: cancel_step_def c)
qed

lemma take_failure_core [simp]: "core (take_failure c b n) = core n"
  by (simp add: take_failure_def core_def)

lemma take_failure_sels [simp]: "children (take_failure c b n) = children n" "decided (take_failure c b n) = decided n"
  "kind (take_failure c b n) = kind n" "state (take_failure c b n) = state n"
  by (simp_all add: take_failure_def decided_def)

lemma decide_inv:
  assumes "tree_inv m" "is_aggregate (kind_at m a)" "kind_at m a = TaskGroup \<or> state_at m a \<noteq> Pending" "d \<noteq> NoDecision"
  shows "tree_inv (decide a d m)"
proof -
  have "same_core (decide a d m) (if decided (nodes m a) \<and> d \<noteq> Error then m else chosen a d m)"
    by (simp add: decide_def chosen_def cancel_children_def same_core_def)
  then show ?thesis using coreI chosen_inv [OF assms] assms(1) by presburger
qed

lemma held_running:
  assumes "tree_inv m" "is_aggregate (kind_at m a)" "0 < held m a"
  shows "kind_at m a = TaskGroup \<or> state_at m a \<noteq> Pending" "\<not> is_done (state_at m a)"
proof -
  note i = tree_invD [OF assms(1)]
  have "held m a \<le> pending (nodes m a)" using i(6) assms(2) by (simp add: pending_ok_def)
  with i(7) assms(2,3) show "kind_at m a = TaskGroup \<or> state_at m a \<noteq> Pending" "\<not> is_done (state_at m a)"
    unfolding settled_ok_def by fastforce+
qed

lemma child_completed_inv:
  assumes "tree_inv m" "stack m = Deliver a c # fs" "kind_at m a \<noteq> Task"
  shows "tree_inv (child_completed a c (m\<lparr>stack := fs\<rparr>))"
proof -
  have a: "is_aggregate (kind_at m a)" using tree_invD(5) [OF assms(1)] assms(2,3) by (auto simp: frames_ok_def)
  define u where "u = push [CountOff a c] (set_node a (\<lambda>n. n\<lparr>children := remove1 c (children n)\<rparr>) (m\<lparr>stack := fs\<rparr>))"
  have "tree_inv (unlinked a c (m\<lparr>stack := CountOff a c # fs\<rparr>))" by (rule unlinked_inv [OF assms(1,2) a])
  moreover have "same_core u (unlinked a c (m\<lparr>stack := CountOff a c # fs\<rparr>))"
    by (simp add: same_core_def unlinked_def u_def)
  ultimately have u: "tree_inv u" by (rule coreI)
  have "0 < held u a" by (simp add: held_def u_def)
  moreover have k: "is_aggregate (kind_at u a)" using a by (simp add: u_def)
  ultimately have h: "kind_at u a = TaskGroup \<or> state_at u a \<noteq> Pending" using held_running [OF u] by blast
  have d: "tree_inv (decide a d (set_node a f u))" if "d \<noteq> NoDecision" "\<And>n. core (f n) = core n" for d f
  proof (rule decide_inv)
    show "tree_inv (set_node a f u)"
      by (rule coreI [OF u]) (simp add: same_core_def that(2))
    show "is_aggregate (kind_at (set_node a f u) a)" "kind_at (set_node a f u) a = TaskGroup \<or> state_at (set_node a f u) a \<noteq> Pending"
      using that(2) [of "nodes u a"] h k by (auto simp: core_def)
  qed (rule that(1))
  have w: "core (n\<lparr>winner := Some c\<rparr>) = core n" for n by (simp add: core_def)
  note d(1) [OF _ w] d(1) [OF _ take_failure_core] decide_inv [OF u k h]
  with u show ?thesis
    unfolding child_completed_def Let_def u_def [symmetric] by (auto split: State.split)
qed

lemma on_child_complete_inv:
  assumes "tree_inv m" "stack m = Deliver p c # fs"
  shows "tree_inv (on_child_complete p c (m\<lparr>stack := fs\<rparr>))"
  using child_completed_inv [OF assms] awaited_ended_inv [OF assms, of p] failed_inv [OF assms, of p]
  by (simp add: on_child_complete_def Let_def)

text \<open>The end of a walk or of a child: the aggregate settles if it was the last.\<close>

lemma settle_inv:
  assumes "tree_inv m" "stack m = f # fs" "holds a f"
  shows "tree_inv (settle_if_idle a (set_node a (\<lambda>n. n\<lparr>pending := pending n - 1\<rparr>) (m\<lparr>stack := fs\<rparr>)))"
proof -
  note i = tree_invD [OF assms(1)]
  have a: "is_aggregate (kind_at m a)" using frames_tail(5) [OF i(5) assms(2)] assms(3) by (cases f) auto
  have h: "0 < held m a" using assms(2,3) by (simp add: held_def tally_def)
  then have p: "0 < pending (nodes m a)" using i(6) a unfolding pending_ok_def by fastforce
  let ?m = "set_node a (\<lambda>n. n\<lparr>pending := pending n - 1\<rparr>) (m\<lparr>stack := fs\<rparr>)"
  show ?thesis
  proof (cases "parent (nodes m a) = None \<or> pending (nodes m a) \<noteq> 1")
    case True
    then have "tree_inv (released a (m\<lparr>stack := fs\<rparr>))" by (rule released_inv [OF assms])
    with True p show ?thesis by (auto simp: settle_if_idle_def released_def split: option.split)
  next
    case False
    then obtain q where q: "parent (nodes m a) = Some q" "pending (nodes m a) = 1" by auto
    define s where "s = settled_state (nodes m a)"
    have s: "settled_state ((nodes m a)\<lparr>pending := 0\<rparr>) = s" "is_done s" by (simp_all add: settled_state_def s_def)
    have "tree_inv (settled a s (m\<lparr>stack := g # fs\<rparr>))" if "g = Deliver q a \<or> (\<exists>s b. g = AwaitedEnded q s b)" for g
      by (rule settled_inv [OF assms q s(2) that])
    from this [of "Deliver q a"] this [of "AwaitedEnded q s (intercept (nodes m a))"]
    have t: "tree_inv (settled a s (m\<lparr>stack := (if kind_at m a \<noteq> TaskGroup then Deliver q a else AwaitedEnded q s (intercept (nodes m a))) # fs\<rparr>))"
      by auto
    show ?thesis
      by (rule coreI [OF t]) (use q s in \<open>auto simp: same_core_def core_def settle_if_idle_def settled_def Let_def take_ended_def split: if_splits\<close>)
  qed
qed

lemma count_off_inv:
  assumes "tree_inv m" "stack m = CountOff a c # fs"
  shows "tree_inv (count_off a c (m\<lparr>stack := fs\<rparr>))"
proof -
  define m1 where "m1 = (if kind_at m a = TaskGroup
    then set_node a (\<lambda>n. n\<lparr>ended := c # ended n\<rparr>) (if ended (nodes m a) = [] then m\<lparr>groups_with_ended := a # groups_with_ended m\<rparr> else m) else m)"
  have "same_core m1 m" by (simp add: m1_def same_core_def core_def)
  with assms(1) have "tree_inv m1" by (rule coreI)
  moreover have "stack m1 = CountOff a c # fs" using assms(2) by (simp add: m1_def)
  ultimately have "tree_inv (settle_if_idle a (set_node a (\<lambda>n. n\<lparr>pending := pending n - 1\<rparr>) (m1\<lparr>stack := fs\<rparr>)))"
    by (rule settle_inv) simp
  moreover have "m1\<lparr>stack := fs\<rparr> = (if kind_at m a = TaskGroup
    then set_node a (\<lambda>n. n\<lparr>ended := c # ended n\<rparr>) (if ended (nodes m a) = [] then (m\<lparr>stack := fs\<rparr>)\<lparr>groups_with_ended := a # groups_with_ended m\<rparr> else m\<lparr>stack := fs\<rparr>) else m\<lparr>stack := fs\<rparr>)"
    by (simp add: m1_def set_node_def)
  ultimately show ?thesis
    by (cases "kind_at m a = TaskGroup"; cases "ended (nodes m a) = []") (simp_all add: count_off_def Let_def)
qed

lemma start_children_inv:
  assumes "tree_inv m" "stack m = StartChildren a cs # fs"
  shows "tree_inv (start_children a cs (m\<lparr>stack := fs\<rparr>))"
proof (cases cs)
  case Nil
  have "tree_inv (m\<lparr>stack := fs\<rparr>)" by (rule coreI [OF assms(1)]) (simp add: same_core_def assms(2) Nil)
  with Nil show ?thesis by (simp add: start_children_def)
next
  case (Cons c ds)
  have "tree_inv (start c (Some a) (m\<lparr>stack := StartChildren a ds # fs\<rparr>))"
    by (rule start_inv [OF started_child_inv [OF assms(1)]]) (simp add: assms(2) Cons)
  moreover have "same_core (start c (Some a) (enter_resumption (push [StartChildren a ds] (m\<lparr>stack := fs\<rparr>))))
      (start c (Some a) (m\<lparr>stack := StartChildren a ds # fs\<rparr>))"
    by (rule same_core_start) (simp add: same_core_def enter_resumption_def)
  ultimately show ?thesis using Cons by (simp add: start_children_def coreI)
qed

lemma arm_inv:
  assumes "tree_inv m" "stack m = Run t # fs" "is_when (kind_at m a)" "state_at m a = Pending" "distinct cs" "list_all (idle m) cs"
  shows "tree_inv (arm t a cs (m\<lparr>stack := fs\<rparr>))"
proof (cases "cancel_requested (nodes m t)")
  case True
  with ended_inv [OF assms(1,2)] show ?thesis by (simp add: arm_def checkpoint_def)
next
  case False
  note i = tree_invD [OF assms(1)] and r = running_top [OF assms(1,2)]
  have k: "is_aggregate (kind_at m a)" "kind_at m a \<noteq> TaskGroup" "kind_at m a \<noteq> Task" using assms(3) by (auto simp: is_when_def)
  have a: "pending (nodes m a) = 0" "\<not> decided (nodes m a)" "\<not> gone m a"
    using i(7) k assms(4) unfolding settled_ok_def decided_def by blast+
  have ta: "t \<noteq> a" using r k by auto
  let ?x = "awaited a t (m\<lparr>stack := awaited_frames m a False @ [] @ fs\<rparr>)"
  have x: "tree_inv ?x" by (rule awaited_inv) (use assms(1,2,4) k False in auto)
  have fr: "awaited_frames m a False = [Unpin a]" using assms(3) k by (auto simp: awaited_frames_def)
  have "tree_inv (linked a cs ?x)"
  proof (rule linked_inv [OF x])
    show "list_all (idle ?x) cs" using assms(6) r(1) k ta assms(4)
      by (auto simp: list_all_iff idle_def awaited_def)
  qed (use k a ta assms(5) in \<open>auto simp: awaited_def decided_def\<close>)
  moreover have "same_core (push [StartChildren a cs, Unpin a] ((set_node a (\<lambda>n. n\<lparr>pending := length cs + 1, children := children n @ cs\<rparr>)
      (awaited_by a t (m\<lparr>stack := fs\<rparr>)))\<lparr>owner := \<lambda>c. if c \<in> set cs then Some a else owner m c\<rparr>)) (linked a cs ?x)"
    using a(1) ta assms(3) by (auto simp: same_core_def core_def linked_def awaited_def awaited_by_def fr)
  ultimately have "tree_inv (push [StartChildren a cs, Unpin a] ((set_node a (\<lambda>n. n\<lparr>pending := length cs + 1, children := children n @ cs\<rparr>)
      (awaited_by a t (m\<lparr>stack := fs\<rparr>)))\<lparr>owner := \<lambda>c. if c \<in> set cs then Some a else owner m c\<rparr>))" by (rule coreI)
  moreover have "owner (awaited_by a t (m\<lparr>stack := fs\<rparr>)) = owner m" by (simp add: awaited_by_def)
  ultimately show ?thesis using False by (simp add: arm_def checkpoint_def Let_def cong: if_cong)
qed


lemma join_inv:
  assumes "tree_inv m" "stack m = Run t # fs" "kind_at m a = TaskGroup" "state_at m a = Pending" "\<not> gone m a"
  shows "tree_inv (join t a (m\<lparr>stack := fs\<rparr>))"
proof (cases "pending (nodes m a) = 0")
  case True
  have "tree_inv (joined a (settled_state (nodes m a)) m)"
    by (rule joined_inv [OF assms(1,3,4) True assms(5)]) (simp add: settled_state_def)
  moreover have "same_core (join t a (m\<lparr>stack := fs\<rparr>)) (joined a (settled_state (nodes m a)) m)"
    using True assms(2) by (simp add: same_core_def core_def join_def joined_def take_ended_def Let_def)
  ultimately show ?thesis by (rule coreI)
next
  case False
  let ?c = "cancel_requested (nodes m t)"
  let ?x = "awaited a t (m\<lparr>stack := awaited_frames m a ?c @ [] @ fs\<rparr>)"
  note r = running_top [OF assms(1,2)]
  have ta: "t \<noteq> a" using r assms(3) by auto
  have x: "tree_inv ?x" by (rule awaited_inv) (use assms False in \<open>auto simp: is_when_def\<close>)
  have fr: "awaited_frames m a ?c = (if ?c then [Cancelling a] else [])" using assms(3) by (simp add: awaited_frames_def is_when_def)
  show ?thesis
  proof (cases ?c)
    case True
    have na: "\<not> cancel_requested (nodes m a)" using tree_invD(7) [OF assms(1)] assms(3-5) unfolding settled_ok_def by simp
    have "tree_inv (cancel a (?x\<lparr>stack := fs\<rparr>))"
      by (rule cancelling_inv [OF x]) (use fr True in \<open>simp add: awaited_def\<close>)
    moreover have "same_core (await_children t a (m\<lparr>stack := fs\<rparr>)) (cancel a (?x\<lparr>stack := fs\<rparr>))"
      using True assms(3) ta na
      by (auto simp: await_children_def cancel_def cancel_all_def cancel_children_def awaited_by_def awaited_def Let_def
          same_core_def core_def enter_resumption_def is_when_def)
    ultimately show ?thesis using False by (simp add: join_def coreI)
  next
    case nc: False
    have "tree_inv (awaited_by a t (m\<lparr>stack := fs\<rparr>))"
      by (rule coreI [OF x]) (use assms(3) fr nc in \<open>simp add: same_core_def core_def awaited_def awaited_by_def is_when_def\<close>)
    with False nc ta show ?thesis by (simp add: join_def await_children_def Let_def awaited_by_def)
  qed
qed

lemma leaf_inv:
  assumes "tree_inv m" "stack m = Run t # fs" "is_leaf (kind_at m i)" "state_at m i = Pending" "cancel_requested (nodes m t) \<longrightarrow> b"
  shows "tree_inv (push (if b then [Cancelling i] else []) (awaited_by i t (m\<lparr>stack := fs\<rparr>)))"
proof -
  have k: "kind_at m i \<noteq> Task" "\<not> is_when (kind_at m i)" "kind_at m i \<noteq> TaskGroup" using assms(3) by (auto simp: is_leaf_def is_when_def)
  have fr: "awaited_frames m i b = (if b then [Cancelling i] else [])" using k by (simp add: awaited_frames_def)
  have "tree_inv (awaited i t (m\<lparr>stack := awaited_frames m i b @ [] @ fs\<rparr>))"
    by (rule awaited_inv) (use assms k in auto)
  moreover have "same_core (push (if b then [Cancelling i] else []) (awaited_by i t (m\<lparr>stack := fs\<rparr>)))
      (awaited i t (m\<lparr>stack := awaited_frames m i b @ [] @ fs\<rparr>))"
    using k by (auto simp: same_core_def core_def awaited_def awaited_by_def fr)
  ultimately show ?thesis by (rule coreI)
qed

lemma attach_inv:
  assumes "tree_inv m" "stack m = Run t # fs" "is_leaf (kind_at m i)" "state_at m i = Pending"
  shows "tree_inv (attach t i (m\<lparr>stack := fs\<rparr>))"
proof -
  have "t \<noteq> i" using running_top [OF assms(1,2)] assms(3) by auto
  then have "cancel_requested (nodes (awaited_by i t (m\<lparr>stack := fs\<rparr>)) t) = cancel_requested (nodes m t)" by (simp add: awaited_by_def)
  then show ?thesis using leaf_inv [OF assms, of "cancel_requested (nodes m t)"]
    by (simp add: attach_def Let_def split: if_splits) (simp add: push_def)
qed

lemma waited_inv:
  assumes "tree_inv m" "stack m = Run t # fs" "is_leaf (kind_at m w)" "state_at m w = Pending"
  shows "tree_inv (begin_wait t w (m\<lparr>stack := fs\<rparr>))"
  using leaf_inv [OF assms, of False] ended_inv [OF assms(1,2), of Cancelled]
  by (simp add: begin_wait_def checkpoint_def push_def)

lemma spawn_inv:
  assumes "tree_inv m" "kind_at m a = TaskGroup" "\<not> gone m a" "idle m c"
  shows "tree_inv (snd (spawn a c m))"
proof (cases "decided (nodes m a) \<or> is_done (state_at m a)")
  case True
  then show ?thesis using assms(1) by (simp add: spawn_def)
next
  case False
  let ?l = "linked a [c] m"
  have l: "tree_inv ?l"
    by (rule linked_inv) (use assms False in auto)
  have "tree_inv (start c (Some a) (?l\<lparr>stack := StartChildren a [] # stack m\<rparr>))"
    by (rule start_inv [OF started_child_inv [OF l]]) (simp add: linked_def)
  moreover have "same_core (snd (spawn a c m)) (start c (Some a) (?l\<lparr>stack := StartChildren a [] # stack m\<rparr>))"
    using False unfolding spawn_def Let_def
    by (simp, intro same_core_start) (auto simp: same_core_def core_def linked_def enter_resumption_def)
  ultimately show ?thesis by (rule coreI)
qed

lemma cancel_group_inv:
  assumes "tree_inv m" "kind_at m a = TaskGroup"
  shows "tree_inv (cancel_group a m)"
proof (cases "decided (nodes m a) \<or> is_done (state_at m a)")
  case True
  then show ?thesis using assms(1) by (simp add: cancel_group_def)
next
  case False
  have "tree_inv (pinned a m)" by (rule pinned_inv) (use assms False in auto)
  then have "tree_inv (chosen a Resume (pinned a m))" by (rule chosen_inv) (use assms in \<open>auto simp: pinned_def\<close>)
  moreover have "same_core (cancel_group a m) (chosen a Resume (pinned a m))"
    using False by (auto simp: cancel_group_def chosen_def pinned_def cancel_all_def cancel_children_def same_core_def core_def
        enter_resumption_def decided_def)
  ultimately show ?thesis by (rule coreI)
qed

lemma abandon_children_inv:
  assumes "tree_inv m" "kind_at m a = TaskGroup" "parent (nodes m a) = None" "list_all (\<lambda>f. \<not> uses a f) (stack m)"
  shows "tree_inv (abandon_children a m)"
  using abandoned_inv [OF assms] by (simp add: abandon_children_def abandoned_def)

lemma abandon_step_inv:
  assumes "tree_inv m" "stack m = Abandon a # fs"
  shows "tree_inv (abandon_step a (m\<lparr>stack := fs\<rparr>))"
proof (cases "ended (nodes m a) \<noteq> []")
  case True
  then have "same_core (abandon_step a (m\<lparr>stack := fs\<rparr>)) m"
    by (simp add: same_core_def core_def abandon_step_def take_ended_def assms(2))
  with assms(1) show ?thesis by (rule coreI)
next
  case ended: False
  show ?thesis
  proof (cases "children (nodes m a)")
    case Nil
    with ended abandoned_all_inv [OF assms] show ?thesis by (simp add: abandon_step_def)
  next
    case (Cons c cs)
    let ?r = "released_child a c m"
    note c = abandoned_child [OF assms, of c]
    have "tree_inv ?r" by (rule released_child_inv [OF assms]) (simp add: Cons)
    then have "tree_inv (cancel_core c ?r)" using c Cons by (intro cancel_core_inv) (simp_all add: released_child_def)
    moreover define x where "x = set_node c (\<lambda>n. n\<lparr>parent := None, hook := False, owned_by_loop := True\<rparr>)
      ((push [Abandon a] (set_node a (\<lambda>n. n\<lparr>children := remove1 c (children n)\<rparr>) (m\<lparr>stack := fs\<rparr>)))\<lparr>owner := (owner m)(c := None)\<rparr>)"
    have "same_core (cancel_core c x) (cancel_core c ?r)"
      using c Cons assms(2) by (auto simp: x_def same_core_def core_def cancel_core_def reached_def released_child_def flagged_def passed_on_def split: option.split)
    ultimately have "tree_inv (cancel c x)" using coreI cancel_core by blast
    with ended Cons show ?thesis by (simp add: abandon_step_def Let_def x_def)
  qed
qed

section \<open>Leaves and the loop\<close>

lemma complete_inv:
  assumes "tree_inv m" "is_leaf (kind_at m i)" "i \<notin> set (deferred m)"
  shows "tree_inv (complete i m)"
proof (cases "parent (nodes m i)")
  case (Some p)
  let ?s = "if cancel_requested (nodes m i) then Cancelled else Succeeded"
  have "tree_inv (completed i p ?s m)" by (rule completed_inv [OF assms(1,2) Some assms(3)]) simp
  moreover have "same_core (complete i m) (completed i p ?s m)"
    by (simp add: Some complete_def completed_def same_core_def core_def enter_resumption_def)
  ultimately show ?thesis by (rule coreI)
qed (use assms(1) in \<open>simp add: complete_def\<close>)

lemma queues_inv:
  assumes "tree_inv m" "same_core m' (queued t b ts ds m)" "roots_ok (queued t b ts ds m)"
  shows "tree_inv m'"
  using coreI queued_inv [OF assms(1,3)] assms(2) by blast

lemma drain_inv:
  assumes "tree_inv m" "deferred m = i # is"
  shows "tree_inv (m\<lparr>deferred := is\<rparr>)" "is_leaf (kind_at m i)" "i \<notin> set is"
proof -
  note r = tree_invD(10) [OF assms(1)]
  show "is_leaf (kind_at m i)" "i \<notin> set is" using r assms(2) by (auto simp: roots_ok_def)
  show "tree_inv (m\<lparr>deferred := is\<rparr>)"
    by (rule queues_inv [OF assms(1), of _ 0 "scheduled (nodes m 0)" "tasks m" "is"])
      (use r assms(2) in \<open>auto simp: queued_def same_core_def core_def roots_ok_def\<close>)
qed

lemma complete_deferred_inv:
  assumes "tree_inv m" "is_leaf (kind_at m i)" "state_at m i = Running" "i \<notin> set (deferred m)"
  shows "tree_inv (complete_deferred i m)"
  by (rule queues_inv [OF assms(1), of _ 0 "scheduled (nodes m 0)" "tasks m" "deferred m @ [i]"])
    (use tree_invD(10) [OF assms(1)] assms(2-4) in \<open>auto simp: complete_deferred_def queued_def same_core_def core_def roots_ok_def\<close>)

lemma make_root_inv:
  assumes "tree_inv m" "idle m t"
  shows "tree_inv (make_root t b m)"
  by (rule queues_inv [OF assms(1), of _ t True "tasks m @ [t]" "deferred m"])
    (use tree_invD(10) [OF assms(1)] idle_node [OF assms(2,1)] in
      \<open>auto simp: make_root_def queued_def same_core_def core_def roots_ok_def\<close>)

lemma run_root_inv:
  assumes "tree_inv m" "tasks m = t # ts"
  shows "tree_inv (run_root t (m\<lparr>tasks := ts\<rparr>))"
proof -
  note r = tree_invD(10) [OF assms(1)]
  have "tree_inv (m\<lparr>tasks := ts\<rparr>)"
    by (rule queues_inv [OF assms(1), of _ 0 "scheduled (nodes m 0)" ts "deferred m"])
      (use r assms(2) in \<open>auto simp: queued_def same_core_def core_def roots_ok_def\<close>)
  then have "tree_inv (started t None (m\<lparr>tasks := ts\<rparr>))"
    by (rule started_root_inv) (use r assms(2) in \<open>auto simp: roots_ok_def\<close>)
  from start_inv [OF this] show ?thesis unfolding run_root_def
    by (rule coreI) (intro same_core_start, simp add: same_core_def enter_resumption_def)
qed

lemma let_go_inv:
  assumes "tree_inv m" "kind_at m t = Task"
  shows "tree_inv (let_go t m)"
  unfolding let_go_def
proof (rule cancel_inv)
  show "tree_inv (set_node t (\<lambda>n. n\<lparr>owned_by_loop := True\<rparr>) m)"
    by (rule coreI [OF assms(1)]) (simp add: same_core_def core_def)
qed (use assms(2) in simp)

lemma leave_inv:
  assumes "tree_inv m" "stack m = Leave # fs"
  shows "tree_inv (leave_resumption (m\<lparr>stack := fs\<rparr>))"
proof -
  have "same_core (m\<lparr>stack := fs, resuming := b\<rparr>) m" "same_core (push [DestroyRoots, Leave] (m\<lparr>stack := fs\<rparr>)) m" for b
    using assms(2) by (simp_all add: same_core_def)
  note e = coreI [OF assms(1) this(1)] coreI [OF assms(1) this(2)]
  have "tree_inv (complete (hd (deferred m)) (push [Leave] (m\<lparr>stack := fs, deferred := tl (deferred m)\<rparr>)))" if ne: "deferred m \<noteq> []"
  proof -
    obtain i "is" where d: "deferred m = i # is" using ne by (cases "deferred m") auto
    note q = drain_inv [OF assms(1) d]
    have "tree_inv (push [Leave] (m\<lparr>stack := fs, deferred := is\<rparr>))"
      by (rule coreI [OF q(1)]) (simp add: same_core_def assms(2))
    with q(2,3) d show ?thesis by (intro complete_inv) simp_all
  qed
  with e show ?thesis by (simp add: leave_resumption_def)
qed

lemma destroy_inv:
  assumes "tree_inv m" "stack m = f # fs" "inert f"
  shows "tree_inv (destroy_roots (m\<lparr>stack := fs\<rparr>))" "tree_inv (destroy_groups (m\<lparr>stack := fs\<rparr>))" "tree_inv (m\<lparr>stack := fs\<rparr>)"
proof -
  have "same_core (destroy_roots (m\<lparr>stack := fs\<rparr>)) m" "same_core (destroy_groups (m\<lparr>stack := fs\<rparr>)) m" "same_core (m\<lparr>stack := fs\<rparr>) m"
    using assms(2,3) by (simp_all add: same_core_def core_def destroy_roots_def destroy_groups_def take_ended_def split: list.split)
  then show "tree_inv (destroy_roots (m\<lparr>stack := fs\<rparr>))" "tree_inv (destroy_groups (m\<lparr>stack := fs\<rparr>))" "tree_inv (m\<lparr>stack := fs\<rparr>)"
    using coreI [OF assms(1)] by blast+
qed

text \<open>Every turn of the runtime's own code keeps the invariant.\<close>

fun internal :: "frame \<Rightarrow> bool" where
  "internal (Run t) = False"
| "internal (Action n) = False"
| "internal (Destroy n) = False"
| "internal f = True"

lemma run_frame_inv:
  assumes "tree_inv m" "stack m = f # fs" "internal f"
  shows "tree_inv (run_frame f (m\<lparr>stack := fs\<rparr>))"
proof (cases f)
  case (AwaitedEnded t s b)
  moreover have "kind_at m t = Task" using tree_invD(5) [OF assms(1)] assms(2) AwaitedEnded by (simp add: frames_ok_def)
  ultimately show ?thesis using awaited_ended_inv [OF assms(1,2), of t] by simp
qed (use assms on_child_complete_inv [OF assms(1)] count_off_inv [OF assms(1)] cancelling_inv [OF assms(1)] cancel_step_inv [OF assms(1)]
  settle_inv [OF assms(1,2)] start_children_inv [OF assms(1)] abandon_step_inv [OF assms(1)] leave_inv [OF assms(1)] destroy_inv [OF assms(1,2)] in auto)

end
