(* ===== verification/Task_Outcome.thy ===== *)
theory Task_Outcome
  imports Task_Steps
begin

text \<open>
  What an aggregate records of its children agrees with how they ended: the second invariant of the task
  tree. Every operation but the two that decide keeps what it depends on.
\<close>

section \<open>What an aggregate was told of its children\<close>

text \<open>A child whose end the aggregate has been told of.\<close>

definition delivered :: "machine \<Rightarrow> nat \<Rightarrow> nat \<Rightarrow> bool" where
  "delivered m a c \<longleftrightarrow> owner m c = Some a \<and> c \<notin> set (children (nodes m a))"

definition told :: "node \<Rightarrow> nat \<Rightarrow> node \<Rightarrow> bool" where
  "told n c r \<longleftrightarrow>
     (state r = Failed \<longrightarrow> decision n = Error
        \<and> (if threw r then exception n \<noteq> None else if kind n = TaskGroup then c \<in> set (errors n) else errors n \<noteq> []))
     \<and> (state r = Cancelled \<and> kind n \<noteq> TaskGroup \<longrightarrow> decided n)
     \<and> (state r = Succeeded \<and> kind n = WhenAny \<longrightarrow> decided n)"

definition founded :: "machine \<Rightarrow> nat \<Rightarrow> bool" where
  "founded m a \<longleftrightarrow>
     (decision (nodes m a) = Error \<longrightarrow> (\<exists>c. delivered m a c \<and> state_at m c = Failed))
     \<and> (decision (nodes m a) = Cancel \<longrightarrow> kind_at m a \<noteq> TaskGroup \<and> (\<exists>c. delivered m a c \<and> state_at m c = Cancelled))
     \<and> (decision (nodes m a) = Resume \<longrightarrow> kind_at m a = TaskGroup
          \<or> kind_at m a = WhenAny \<and> (\<exists>w. winner (nodes m a) = Some w \<and> delivered m a w \<and> state_at m w = Succeeded))
     \<and> (\<forall>c. (c \<in> set (errors (nodes m a)) \<longrightarrow> delivered m a c \<and> state_at m c = Failed \<and> \<not> threw (nodes m c))
          \<and> (exception (nodes m a) = Some c \<longrightarrow> delivered m a c \<and> state_at m c = Failed \<and> threw (nodes m c)))"

definition outcomes_ok :: "machine \<Rightarrow> bool" where
  "outcomes_ok m \<longleftrightarrow> (\<forall>a. is_aggregate (kind_at m a) \<longrightarrow>
     (\<forall>c. delivered m a c \<longrightarrow> told (nodes m a) c (nodes m c)) \<and> founded m a
     \<and> (is_done (state_at m a) \<and> \<not> gone m a \<longrightarrow> state_at m a = settled_state (nodes m a)))"

text \<open>What every operation but \<^verbatim>\<open>child_completed\<close> and \<^verbatim>\<open>task_group::cancel\<close> keeps.\<close>

definition verdict :: "node \<Rightarrow> NodeKind \<times> Decision \<times> nat option \<times> nat option \<times> nat list" where
  "verdict n = (kind n, decision n, winner n, exception n, errors n)"

definition keeps :: "machine \<Rightarrow> machine \<Rightarrow> bool" where
  "keeps m m' \<longleftrightarrow> (\<forall>n. verdict (nodes m' n) = verdict (nodes m n) \<and> (cancel_requested (nodes m n) \<longrightarrow> cancel_requested (nodes m' n))
       \<and> (gone m n \<longrightarrow> gone m' n))
     \<and> (\<forall>a c. delivered m' a c = delivered m a c)
     \<and> (\<forall>a c. delivered m a c \<longrightarrow> state_at m' c = state_at m c \<and> threw (nodes m' c) = threw (nodes m c))
     \<and> (\<forall>a. is_aggregate (kind_at m a) \<and> \<not> gone m' a \<longrightarrow>
          state_at m' a = state_at m a \<and> (is_done (state_at m a) \<longrightarrow> cancel_requested (nodes m' a) = cancel_requested (nodes m a))
          \<or> \<not> is_done (state_at m' a) \<or> state_at m' a = settled_state (nodes m' a))"

lemma verdict_eq: "verdict n = verdict k \<longleftrightarrow> kind n = kind k \<and> decision n = decision k \<and> winner n = winner k
    \<and> exception n = exception k \<and> errors n = errors k"
  by (auto simp: verdict_def)

lemma keeps_refl [simp]: "keeps m m"
  by (simp add: keeps_def)

lemma keeps_outcomes:
  assumes "keeps m m'" "outcomes_ok m"
  shows "outcomes_ok m'"
  unfolding outcomes_ok_def
proof (intro allI impI)
  fix a assume a: "is_aggregate (kind_at m' a)"
  have v: "kind_at m' a = kind_at m a" "decision (nodes m' a) = decision (nodes m a)" "winner (nodes m' a) = winner (nodes m a)"
    "exception (nodes m' a) = exception (nodes m a)" "errors (nodes m' a) = errors (nodes m a)"
    "cancel_requested (nodes m a) \<Longrightarrow> cancel_requested (nodes m' a)" "gone m a \<Longrightarrow> gone m' a"
    using assms(1) by (simp_all add: keeps_def verdict_eq)
  have d: "delivered m' a c = delivered m a c" "delivered m a c \<Longrightarrow> state_at m' c = state_at m c"
    "delivered m a c \<Longrightarrow> threw (nodes m' c) = threw (nodes m c)" for c
    using assms(1) by (auto simp: keeps_def)
  from a v(1) assms(2) have o: "\<forall>c. delivered m a c \<longrightarrow> told (nodes m a) c (nodes m c)" "founded m a"
    "is_done (state_at m a) \<and> \<not> gone m a \<longrightarrow> state_at m a = settled_state (nodes m a)"
    by (simp_all add: outcomes_ok_def)
  have "\<forall>c. delivered m' a c \<longrightarrow> told (nodes m' a) c (nodes m' c)"
    using o(1) v d by (auto simp: told_def decided_def)
  moreover have "founded m' a"
    using o(2) unfolding founded_def d(1) v(1-5) by (auto simp: d(2,3))
  moreover have "is_done (state_at m' a) \<and> \<not> gone m' a \<longrightarrow> state_at m' a = settled_state (nodes m' a)"
    using o(3) v assms(1) a unfolding keeps_def by (auto simp: settled_state_def)
  ultimately show "(\<forall>c. delivered m' a c \<longrightarrow> told (nodes m' a) c (nodes m' c)) \<and> founded m' a
      \<and> (is_done (state_at m' a) \<and> \<not> gone m' a \<longrightarrow> state_at m' a = settled_state (nodes m' a))" by blast
qed

lemma keeps_trans:
  assumes "keeps m m'" "keeps m' m''"
  shows "keeps m m''"
  unfolding keeps_def
proof (intro conjI allI impI)
  fix n
  show "verdict (nodes m'' n) = verdict (nodes m n)" "cancel_requested (nodes m n) \<Longrightarrow> cancel_requested (nodes m'' n)"
    "gone m n \<Longrightarrow> gone m'' n"
    using assms by (simp_all add: keeps_def)
next
  fix a c
  show "delivered m'' a c = delivered m a c" using assms by (simp add: keeps_def)
  assume "delivered m a c"
  then show "state_at m'' c = state_at m c" "threw (nodes m'' c) = threw (nodes m c)"
    using assms unfolding keeps_def by metis+
next
  fix a assume a: "is_aggregate (kind_at m a) \<and> \<not> gone m'' a"
  have k: "kind_at m' a = kind_at m a" "decision (nodes m'' a) = decision (nodes m' a)" "\<not> gone m' a"
    using assms a by (auto simp: keeps_def verdict_eq)
  have 1: "state_at m' a = state_at m a \<and> (is_done (state_at m a) \<longrightarrow> cancel_requested (nodes m' a) = cancel_requested (nodes m a))
      \<or> \<not> is_done (state_at m' a) \<or> state_at m' a = settled_state (nodes m' a)"
    using assms(1) a k by (simp add: keeps_def)
  have 2: "state_at m'' a = state_at m' a \<and> (is_done (state_at m' a) \<longrightarrow> cancel_requested (nodes m'' a) = cancel_requested (nodes m' a))
      \<or> \<not> is_done (state_at m'' a) \<or> state_at m'' a = settled_state (nodes m'' a)"
    using assms(2) a k by (simp add: keeps_def)
  have s: "is_done (settled_state n)" for n by (simp add: settled_state_def)
  show "state_at m'' a = state_at m a \<and> (is_done (state_at m a) \<longrightarrow> cancel_requested (nodes m'' a) = cancel_requested (nodes m a))
      \<or> \<not> is_done (state_at m'' a) \<or> state_at m'' a = settled_state (nodes m'' a)"
  proof (cases "state_at m' a = settled_state (nodes m' a) \<and> state_at m'' a = state_at m' a")
    case True
    with 2 s k(2) show ?thesis by (auto simp: settled_state_def)
  qed (use 1 2 in auto)
qed


definition undelivered :: "machine \<Rightarrow> nat \<Rightarrow> bool" where
  "undelivered m n \<longleftrightarrow> (\<forall>a. \<not> delivered m a n)"

lemma undelivered_node: "tree_inv m \<Longrightarrow> kind_at m n \<noteq> Task \<or> \<not> is_done (state_at m n) \<Longrightarrow> undelivered m n"
  unfolding undelivered_def delivered_def using owned [OF tree_invD(9)] by blast

lemma keeps_undelivered: "keeps m m' \<Longrightarrow> undelivered m' n = undelivered m n"
  by (simp add: keeps_def undelivered_def)

lemma keeps_nodes: "nodes m' = nodes m \<Longrightarrow> owner m' = owner m \<Longrightarrow> gone m' = gone m \<Longrightarrow> keeps m m'"
  by (simp add: keeps_def delivered_def)

lemma undelivered_nodes [simp]:
  "undelivered (push fs m) n = undelivered m n" "undelivered (m\<lparr>stack := fs\<rparr>) n = undelivered m n"
  "undelivered (enter_resumption m) n = undelivered m n" "undelivered (m\<lparr>tasks := ts\<rparr>) n = undelivered m n"
  "undelivered (m\<lparr>deferred := ts\<rparr>) n = undelivered m n"
  by (simp_all add: undelivered_def delivered_def enter_resumption_def)

lemma keeps_set_node:
  assumes "verdict (f (nodes m n)) = verdict (nodes m n)" "set (children (f (nodes m n))) = set (children (nodes m n))"
    "cancel_requested (nodes m n) \<Longrightarrow> cancel_requested (f (nodes m n))"
    "undelivered m n \<or> state (f (nodes m n)) = state_at m n \<and> threw (f (nodes m n)) = threw (nodes m n)"
    "is_aggregate (kind_at m n) \<Longrightarrow> \<not> gone m n \<Longrightarrow>
       state (f (nodes m n)) = state_at m n \<and> (is_done (state_at m n) \<longrightarrow> cancel_requested (f (nodes m n)) = cancel_requested (nodes m n))
       \<or> \<not> is_done (state (f (nodes m n))) \<or> state (f (nodes m n)) = settled_state (f (nodes m n))"
  shows "keeps m (set_node n f m)"
  using assms by (auto simp: keeps_def delivered_def undelivered_def)

lemma undelivered_set_node [simp]: "set (children (f (nodes m n))) = set (children (nodes m n)) \<Longrightarrow> undelivered (set_node n f m) k = undelivered m k"
  by (auto simp: undelivered_def delivered_def)

lemma finish_keeps: "undelivered m t \<Longrightarrow> kind_at m t = Task \<Longrightarrow> keeps m (finish t s m)"
  by (auto simp: keeps_def finish_def Let_def delivered_def undelivered_def verdict_def split: option.split)

lemma enter_keeps: "keeps m (enter_resumption m)" "keeps m (push fs m)" "keeps m (m\<lparr>stack := fs\<rparr>)"
  by (rule keeps_nodes; simp add: enter_resumption_def)+

lemma enter_node [simp]: "nodes (enter_resumption m) = nodes m"
  by (simp add: enter_resumption_def)

lemma awaited_ended_keeps: "undelivered m t \<Longrightarrow> kind_at m t = Task \<Longrightarrow> keeps m (awaited_ended t s b m)"
  unfolding awaited_ended_def Let_def
  by (rule keeps_trans [OF keeps_set_node [of "\<lambda>n. n\<lparr>child := None\<rparr>" m t]])
    (auto simp: verdict_def finish_keeps enter_keeps)

lemma start_keeps:
  assumes "undelivered m t" "kind_at m t = Task"
  shows "keeps m (start t p m)"
  unfolding start_def Let_def
  by (rule keeps_trans [OF keeps_set_node [of "\<lambda>n. n\<lparr>parent := p\<rparr>" m t]])
    (use assms in \<open>auto simp: verdict_def intro!: finish_keeps keeps_trans [OF keeps_set_node enter_keeps(2)]\<close>)

lemma awaited_by_keeps: "undelivered m n \<Longrightarrow> keeps m (awaited_by n t m)"
  unfolding awaited_by_def
  by (rule keeps_trans [OF keeps_set_node [of "\<lambda>r. r\<lparr>parent := Some t, state := Running\<rparr>" m n] keeps_set_node])
    (auto simp: verdict_def)

lemma cancel_all_keeps: "keeps m (cancel_all a m)"
  unfolding cancel_all_def cancel_children_def
  by (rule keeps_trans [OF keeps_set_node [of "\<lambda>n. n\<lparr>pending := pending n + 1\<rparr>" m a] keeps_trans [OF enter_keeps(2) enter_keeps(2)]])
    (auto simp: verdict_def)

lemma cancel_keeps: "keeps m (cancel n m)"
proof (cases "is_done (state_at m n) \<or> cancel_requested (nodes m n)")
  case False
  have "keeps m (set_node n (\<lambda>r. r\<lparr>cancel_requested := True\<rparr>) m)"
    by (rule keeps_set_node) (use False in \<open>auto simp: verdict_def\<close>)
  moreover have "keeps (set_node n (\<lambda>r. r\<lparr>cancel_requested := True\<rparr>) m) (cancel n m)"
    using False by (auto simp: cancel_def Let_def enter_keeps intro: keeps_trans [OF enter_keeps(1) cancel_all_keeps] split: NodeKind.split option.split)
  ultimately show ?thesis by (rule keeps_trans)
qed (auto simp: cancel_def)

lemma settle_keeps:
  assumes "undelivered m a"
  shows "keeps m (settle_if_idle a m)"
proof -
  have "keeps m (set_node a (\<lambda>n. n\<lparr>state := settled_state n, parent := None\<rparr>) m)"
    by (rule keeps_set_node) (use assms in \<open>auto simp: verdict_def settled_state_def\<close>)
  moreover have "keeps m' (snd (take_ended a m'))" for m'
    unfolding take_ended_def snd_conv
    by (rule keeps_trans [OF keeps_nodes keeps_set_node]) (auto simp: verdict_def)
  ultimately show ?thesis
    by (auto simp: settle_if_idle_def Let_def split: option.split prod.split intro: keeps_trans enter_keeps)
       (metis (no_types, lifting) enter_keeps(2) keeps_trans snd_conv)
qed


lemma popped_keeps: "keeps (m\<lparr>stack := fs\<rparr>) m' \<longleftrightarrow> keeps m m'"
  by (simp add: keeps_def delivered_def)

lemma take_ended_keeps: "keeps m (snd (take_ended a m))"
  unfolding take_ended_def snd_conv
  by (rule keeps_trans [OF keeps_nodes keeps_set_node]) (auto simp: verdict_def)

lemma checkpoint_keeps:
  "undelivered m t \<Longrightarrow> kind_at m t = Task \<Longrightarrow> keeps m (go m) \<Longrightarrow> keeps m (checkpoint t m go)"
  by (simp add: checkpoint_def finish_keeps)

lemma end_task_keeps:
  assumes "undelivered m t" "kind_at m t = Task"
  shows "keeps m (end_task t e m)"
proof -
  have "keeps m (set_node t (\<lambda>n. n\<lparr>threw := True\<rparr>) m)"
    by (rule keeps_set_node) (use assms in \<open>auto simp: verdict_def\<close>)
  moreover have "keeps (set_node t (\<lambda>n. n\<lparr>threw := True\<rparr>) m) (finish t Failed (set_node t (\<lambda>n. n\<lparr>threw := True\<rparr>) m))"
    by (rule finish_keeps) (use assms in simp_all)
  ultimately show ?thesis
    using finish_keeps [OF assms] keeps_trans by (auto simp: end_task_def split: ending.split)
qed

lemma await_task_keeps:
  assumes "undelivered m t" "kind_at m t = Task" "undelivered m c" "kind_at m c = Task"
  shows "keeps m (await_task t c b h m)"
  unfolding await_task_def
proof (rule checkpoint_keeps [OF assms(1,2)])
  let ?a = "set_node c (\<lambda>n. n\<lparr>intercept := b, hook := h\<rparr>) m"
  let ?b = "set_node t (\<lambda>n. n\<lparr>child := Some c\<rparr>) ?a"
  have "keeps m ?a" by (rule keeps_set_node) (auto simp: verdict_def)
  moreover have "keeps ?a ?b" by (rule keeps_set_node) (auto simp: verdict_def)
  moreover have "keeps ?b (start c (Some t) ?b)" by (rule start_keeps) (use assms in simp_all)
  ultimately show "keeps m (start c (Some t) ?b)" using keeps_trans by blast
qed

lemma linked_keeps:
  assumes "\<And>c. c \<in> set cs \<Longrightarrow> owner m c = None" "ow = (\<lambda>c. if c \<in> set cs then Some a else owner m c)"
    "\<And>n. verdict (f n) = verdict n" "\<And>n. children (f n) = children n @ cs" "\<And>n. state (f n) = state n"
    "\<And>n. threw (f n) = threw n" "\<And>n. cancel_requested (f n) = cancel_requested n"
  shows "keeps m ((set_node a f m)\<lparr>owner := ow\<rparr>)"
  using assms by (auto simp: keeps_def delivered_def)

lemma arm_keeps:
  assumes "undelivered m t" "kind_at m t = Task" "undelivered m a" "list_all (idle m) cs"
  shows "keeps m (arm t a cs m)"
  unfolding arm_def Let_def
proof (rule checkpoint_keeps [OF assms(1,2)])
  let ?a = "awaited_by a t m"
  let ?f = "\<lambda>n. n\<lparr>pending := length cs + 1, children := children n @ cs\<rparr>"
  have "keeps ?a ((set_node a ?f ?a)\<lparr>owner := \<lambda>c. if c \<in> set cs then Some a else owner (set_node a ?f ?a) c\<rparr>)"
    by (rule linked_keeps) (use assms(4) in \<open>auto simp: list_all_iff idle_def awaited_by_def verdict_def\<close>)
  with awaited_by_keeps [OF assms(3)] show "keeps m (push [StartChildren a cs, Unpin a] ((set_node a ?f ?a)
      \<lparr>owner := \<lambda>c. if c \<in> set cs then Some a else owner (set_node a ?f ?a) c\<rparr>))"
    using keeps_trans enter_keeps(2) by blast
qed

lemma spawn_keeps:
  assumes "idle m c"
  shows "keeps m (snd (spawn a c m))"
proof (cases "decided (nodes m a) \<or> is_done (state_at m a)")
  case False
  let ?l = "(set_node a (\<lambda>n. n\<lparr>children := children n @ [c], pending := pending n + 1\<rparr>) m)\<lparr>owner := (owner m)(c := Some a)\<rparr>"
  have l: "keeps m ?l" by (rule linked_keeps [of "[c]"]) (use assms in \<open>auto simp: idle_def verdict_def\<close>)
  have k: "kind_at ?l c = Task" using assms by (auto simp: idle_def)
  have "undelivered ?l c" by (auto simp: undelivered_def delivered_def)
  then have "keeps (enter_resumption ?l) (start c (Some a) (enter_resumption ?l))"
    using k by (intro start_keeps) simp_all
  with l have "keeps m (start c (Some a) (enter_resumption ?l))" using keeps_trans enter_keeps(1) by blast
  with False show ?thesis by (simp add: spawn_def Let_def)
qed (simp add: spawn_def)

lemma join_keeps:
  assumes "undelivered m a" "\<not> is_done (state_at m a)"
  shows "keeps m (join t a m)"
proof -
  let ?b = "awaited_by a t m" and ?s = "set_node a (\<lambda>n. n\<lparr>state := settled_state n\<rparr>) m"
  have b: "keeps m ?b" by (rule awaited_by_keeps [OF assms(1)])
  have "keeps ?b (set_node a (\<lambda>n. n\<lparr>cancel_requested := True\<rparr>) ?b)"
    by (rule keeps_set_node) (auto simp: verdict_def awaited_by_def)
  with b have "keeps m (cancel_all a (set_node a (\<lambda>n. n\<lparr>cancel_requested := True\<rparr>) ?b))"
    using keeps_trans cancel_all_keeps by blast
  moreover have "keeps m ?s" by (rule keeps_set_node) (use assms(1) in \<open>auto simp: verdict_def settled_state_def\<close>)
  then have "keeps m (push fs (snd (take_ended a ?s)))" for fs
    using keeps_trans take_ended_keeps enter_keeps(2) by blast
  ultimately show ?thesis using b by (simp add: join_def await_children_def Let_def case_prod_beta)
qed

lemma leaf_keeps:
  assumes "undelivered m i" "undelivered m t" "kind_at m t = Task"
  shows "keeps m (attach t i m)" "keeps m (begin_wait t i m)"
  using awaited_by_keeps [OF assms(1)] keeps_trans [OF awaited_by_keeps [OF assms(1)] enter_keeps(2)]
    checkpoint_keeps [OF assms(2,3), of "awaited_by i t"]
  by (auto simp: attach_def begin_wait_def Let_def)

lemma complete_keeps:
  assumes "undelivered m i" "\<not> is_aggregate (kind_at m i)"
  shows "keeps m (complete i m)"
proof -
  have "keeps m (set_node i (\<lambda>n. n\<lparr>state := if cancel_requested n then Cancelled else Succeeded, parent := None\<rparr>) m)"
    by (rule keeps_set_node) (use assms in \<open>auto simp: verdict_def\<close>)
  then show ?thesis using keeps_trans enter_keeps(1,2) by (auto simp: complete_def split: option.split) blast
qed

lemma abandon_children_keeps: "keeps m (abandon_children a m)"
  by (auto simp: abandon_children_def keeps_def delivered_def verdict_def)

lemma abandon_step_keeps:
  assumes "tree_inv m" "stack m = Abandon a # fs"
  shows "keeps m (abandon_step a (m\<lparr>stack := fs\<rparr>))"
proof (cases "ended (nodes m a) \<noteq> []")
  case True
  have "keeps m (push gs (snd (take_ended a (m\<lparr>stack := fs\<rparr>))))" for gs
    using keeps_trans enter_keeps(2,3) take_ended_keeps by blast
  with True show ?thesis by (simp add: abandon_step_def case_prod_beta)
next
  case ended: False
  show ?thesis
  proof (cases "children (nodes m a)")
    case Nil
    with ended show ?thesis by (simp add: abandon_step_def enter_keeps)
  next
    case (Cons c cs)
    define x where "x = set_node c (\<lambda>n. n\<lparr>parent := None, hook := False, owned_by_loop := True\<rparr>)
      ((push [Abandon a] (set_node a (\<lambda>n. n\<lparr>children := remove1 c (children n)\<rparr>) (m\<lparr>stack := fs\<rparr>)))\<lparr>owner := (owner m)(c := None)\<rparr>)"
    have own: "c \<in> set (children (nodes m b)) \<Longrightarrow> owner m c = Some b" for b
      using member_aggregate [OF tree_invD(4) [OF assms(1)]] by blast
    have "owner m c = Some a" using own [of a] Cons by simp
    then have "keeps m x"
      using abandoned_child [OF assms, of c] Cons by (auto simp: x_def keeps_def delivered_def verdict_def)
    then have "keeps m (cancel c x)" using keeps_trans cancel_keeps by blast
    with ended Cons show ?thesis by (simp add: abandon_step_def Let_def x_def)
  qed
qed

lemma count_off_keeps:
  assumes "undelivered m a"
  shows "keeps m (count_off a c m)"
proof -
  define x where "x = (if kind_at m a = TaskGroup
     then set_node a (\<lambda>n. n\<lparr>ended := c # ended n\<rparr>)
       (if ended (nodes m a) = [] then m\<lparr>groups_with_ended := a # groups_with_ended m\<rparr> else m) else m)"
  have x: "keeps m x" by (auto simp: x_def keeps_def delivered_def verdict_def)
  have y: "keeps x (set_node a (\<lambda>n. n\<lparr>pending := pending n - 1\<rparr>) x)" by (rule keeps_set_node) (auto simp: verdict_def)
  have "undelivered x a" using keeps_undelivered [OF x] assms by simp
  then have "keeps (set_node a (\<lambda>n. n\<lparr>pending := pending n - 1\<rparr>) x) (settle_if_idle a (set_node a (\<lambda>n. n\<lparr>pending := pending n - 1\<rparr>) x))"
    by (intro settle_keeps) simp
  with x y show ?thesis unfolding count_off_def Let_def x_def using keeps_trans by blast
qed

lemma cancel_step_keeps: "keeps m (cancel_step a k m)"
proof (cases "children (nodes m a)")
  case (Cons c cs)
  have "keeps m (push [CancelChildren a (k - 1)] (set_node a (\<lambda>n. n\<lparr>children := cs @ [c]\<rparr>) m))"
    by (rule keeps_trans [OF keeps_set_node enter_keeps(2)]) (use Cons in \<open>auto simp: verdict_def\<close>)
  then show ?thesis using Cons keeps_trans cancel_keeps by (auto simp: cancel_step_def)
qed (simp add: cancel_step_def)


section \<open>The end of a child\<close>

text \<open>What \<^verbatim>\<open>child_completed\<close> makes of the aggregate.\<close>

definition judged :: "nat \<Rightarrow> node \<Rightarrow> node \<Rightarrow> node" where
  "judged c r n =
     (case state r of
        Failed \<Rightarrow> (take_failure c (threw r) n)\<lparr>decision := Error\<rparr>
      | Cancelled \<Rightarrow> if kind n \<noteq> TaskGroup \<and> \<not> decided n then n\<lparr>decision := Cancel\<rparr> else n
      | Succeeded \<Rightarrow> if kind n = WhenAny \<and> \<not> decided n then n\<lparr>winner := Some c, decision := Resume\<rparr> else n
      | _ \<Rightarrow> n)"

lemma decide_sels:
  "nodes (decide a d m) = (nodes m)(a := if decided (nodes m a) \<and> d \<noteq> Error then nodes m a else (nodes m a)\<lparr>decision := d\<rparr>)"
  "owner (decide a d m) = owner m" "gone (decide a d m) = gone m"
  by (simp_all add: decide_def cancel_children_def)

lemma child_completed_nodes:
  assumes "a \<noteq> c"
  shows "nodes (child_completed a c m) = (nodes m)(a := judged c (nodes m c) ((nodes m a)\<lparr>children := remove1 c (children (nodes m a))\<rparr>))"
    "owner (child_completed a c m) = owner m" "gone (child_completed a c m) = gone m"
proof -
  define u where "u = push [CountOff a c] (set_node a (\<lambda>n. n\<lparr>children := remove1 c (children n)\<rparr>) m)"
  have u: "nodes u = (nodes m)(a := (nodes m a)\<lparr>children := remove1 c (children (nodes m a))\<rparr>)" "owner u = owner m" "gone u = gone m"
    by (simp_all add: u_def)
  have c: "nodes u c = nodes m c" using assms by (simp add: u)
  have d: "decided ((nodes m a)\<lparr>winner := w, children := x\<rparr>) = decided (nodes m a)" "decided ((nodes m a)\<lparr>children := x, winner := w\<rparr>) = decided (nodes m a)"
    "decided ((nodes m a)\<lparr>children := x\<rparr>) = decided (nodes m a)" for w x by (simp_all add: decided_def)
  show "nodes (child_completed a c m) = (nodes m)(a := judged c (nodes m c) ((nodes m a)\<lparr>children := remove1 c (children (nodes m a))\<rparr>))"
    unfolding child_completed_def Let_def u_def [symmetric] judged_def c
    by (cases "state_at m c") (simp_all add: decide_sels u d)
  show "owner (child_completed a c m) = owner m" "gone (child_completed a c m) = gone m"
    unfolding child_completed_def Let_def u_def [symmetric] c
    by (cases "state_at m c"; simp add: decide_sels u)+
qed

lemma take_failure_fields [simp]:
  "errors (take_failure c b n) = (if b then errors n else if kind n = TaskGroup then errors n @ [c] else if errors n = [] then [c] else errors n)"
  "exception (take_failure c b n) = (if b \<and> exception n = None then Some c else exception n)"
  "winner (take_failure c b n) = winner n" "threw (take_failure c b n) = threw n"
  "cancel_requested (take_failure c b n) = cancel_requested n"
  by (simp_all add: take_failure_def)

lemma judged_sels [simp]:
  "kind (judged c r n) = kind n" "state (judged c r n) = state n" "cancel_requested (judged c r n) = cancel_requested n"
  "children (judged c r n) = children n" "threw (judged c r n) = threw n"
  "decision (judged c r n) = (if state r = Failed then Error else if decided n then decision n
     else if state r = Cancelled \<and> kind n \<noteq> TaskGroup then Cancel
     else if state r = Succeeded \<and> kind n = WhenAny then Resume else decision n)"
  "winner (judged c r n) = (if state r = Succeeded \<and> kind n = WhenAny \<and> \<not> decided n then Some c else winner n)"
  "errors (judged c r n) = (if state r = Failed then errors (take_failure c (threw r) n) else errors n)"
  "exception (judged c r n) = (if state r = Failed then exception (take_failure c (threw r) n) else exception n)"
  unfolding judged_def by (cases "state r"; simp)+

lemma judged_decision:
  "decision (judged c r n) = Error \<Longrightarrow> decision n = Error \<or> state r = Failed"
  "decision (judged c r n) = Cancel \<Longrightarrow> decision n = Cancel \<or> state r = Cancelled \<and> kind n \<noteq> TaskGroup"
  "decision (judged c r n) = Resume \<Longrightarrow> decision n = Resume \<and> winner (judged c r n) = winner n
     \<or> state r = Succeeded \<and> kind n = WhenAny \<and> winner (judged c r n) = Some c"
  "x \<in> set (errors (judged c r n)) \<Longrightarrow> x \<in> set (errors n) \<or> x = c \<and> state r = Failed \<and> \<not> threw r"
  "exception (judged c r n) = Some x \<Longrightarrow> exception n = Some x \<or> x = c \<and> state r = Failed \<and> threw r"
  by (auto simp: decided_def split: if_splits)

lemma judged_told: "is_done (state r) \<Longrightarrow> told (judged c r n) c r"
  unfolding told_def decided_def by (cases "state r") (simp_all add: decided_def)

lemma judged_still: "told n x k \<Longrightarrow> told (judged c r n) x k"
  unfolding told_def decided_def by (auto simp: decided_def)

lemma told_children [simp]: "told (n\<lparr>children := xs\<rparr>) c r = told n c r"
  by (simp add: told_def decided_def)

lemma child_completed_outcomes:
  assumes "tree_inv m" "outcomes_ok m" "stack m = Deliver a c # fs" "kind_at m a \<noteq> Task"
  shows "outcomes_ok (child_completed a c (m\<lparr>stack := fs\<rparr>))"
proof -
  note i = tree_invD [OF assms(1)]
  have c: "is_done (state_at m c)" "c \<in> set (children (nodes m a))" "is_aggregate (kind_at m a)"
    using frames_tail(5) [OF i(5) assms(3)] assms(4) by auto
  note k = member_aggregate [OF i(4) c(2)]
  have ac: "a \<noteq> c" using k by auto
  have d: "distinct (children (nodes m a))" using i(4) by (simp add: children_ok_def)
  have nd: "\<not> is_done (state_at m a)" by (rule held_running(2) [OF assms(1) c(3)]) (use c(2) length_pos_if_in_set in \<open>fastforce simp: held_def\<close>)
  define m' where "m' = child_completed a c (m\<lparr>stack := fs\<rparr>)"
  define n' where "n' = judged c (nodes m c) ((nodes m a)\<lparr>children := remove1 c (children (nodes m a))\<rparr>)"
  have n: "nodes m' = (nodes m)(a := n')" "owner m' = owner m" "gone m' = gone m"
    using child_completed_nodes [OF ac, of "m\<lparr>stack := fs\<rparr>"] by (simp_all add: m'_def n'_def)
  have del: "delivered m' b x \<longleftrightarrow> delivered m b x \<or> b = a \<and> x = c" for b x
    using k d c(2) by (auto simp: delivered_def n n'_def)
  have st: "state_at m' x = state_at m x" "threw (nodes m' x) = threw (nodes m x)" "kind_at m' x = kind_at m x" for x by (auto simp: n n'_def)
  have fa: "founded m a" "\<And>x. delivered m a x \<Longrightarrow> told (nodes m a) x (nodes m x)"
    using assms(2) c(3) by (auto simp: outcomes_ok_def)
  have told: "told (nodes m' b) x (nodes m' x)" if "is_aggregate (kind_at m b)" "delivered m' b x" for b x
  proof (cases "b = a")
    case True
    have "told n' x (nodes m x)"
      using that(2) True fa(2) judged_told c(1) judged_still unfolding del n'_def by auto
    moreover have "x \<noteq> a" using that(2) k owned [OF i(9)] c(3) by (auto simp: delivered_def n)
    ultimately show ?thesis using True by (simp add: n)
  next
    case False
    have "x \<noteq> a" using that(2) k owned [OF i(9), of a] c(3) by (auto simp: delivered_def n)
    with False that assms(2) show ?thesis by (auto simp: del n outcomes_ok_def)
  qed
  have "founded m' b" if "is_aggregate (kind_at m b)" for b
  proof (cases "b = a")
    case False
    then have "founded m' b = founded m b" unfolding founded_def st del by (simp add: n)
    with that assms(2) show ?thesis by (simp add: outcomes_ok_def)
  next
    case True
    note j = judged_decision [where c = c and r = "nodes m c" and n = "(nodes m a)\<lparr>children := remove1 c (children (nodes m a))\<rparr>", folded n'_def, simplified]
    have n': "nodes m' a = n'" by (simp add: n)
    have "founded m' a" unfolding founded_def st del unfolding n'
    proof (intro conjI impI allI)
      show "\<exists>x. (delivered m a x \<or> a = a \<and> x = c) \<and> state_at m x = Failed" if "decision n' = Error"
        using fa(1) j(1) [OF that] unfolding founded_def by blast
      show "kind_at m a \<noteq> TaskGroup" "\<exists>x. (delivered m a x \<or> a = a \<and> x = c) \<and> state_at m x = Cancelled" if "decision n' = Cancel"
        using fa(1) j(2) [OF that] unfolding founded_def by blast+
      show "kind_at m a = TaskGroup \<or> kind_at m a = WhenAny \<and> (\<exists>w. winner n' = Some w \<and> (delivered m a w \<or> a = a \<and> w = c) \<and> state_at m w = Succeeded)"
        if "decision n' = Resume"
        using fa(1) j(3) [OF that] unfolding founded_def by metis
      fix x
      show "delivered m a x \<or> a = a \<and> x = c" "state_at m x = Failed" "\<not> threw (nodes m x)" if "x \<in> set (errors n')"
        using fa(1) j(4) [OF that] unfolding founded_def by blast+
      show "delivered m a x \<or> a = a \<and> x = c" "state_at m x = Failed" "threw (nodes m x)" if "exception n' = Some x"
        using fa(1) j(5) [OF that] unfolding founded_def by blast+
    qed
    with True show ?thesis by simp
  qed
  moreover have "state_at m' b = settled_state (nodes m' b)" if "is_aggregate (kind_at m b)" "is_done (state_at m b)" "\<not> gone m b" for b
    using assms(2) that nd by (cases "b = a") (auto simp: outcomes_ok_def n)
  ultimately show ?thesis
    using told unfolding m'_def [symmetric] outcomes_ok_def st n(3) by blast
qed

lemma cancel_group_outcomes:
  assumes "outcomes_ok m" "kind_at m a = TaskGroup"
  shows "outcomes_ok (cancel_group a m)"
proof (cases "decided (nodes m a) \<or> is_done (state_at m a)")
  case False
  let ?m = "set_node a (\<lambda>n. n\<lparr>decision := Resume\<rparr>) m"
  have del: "delivered ?m b x = delivered m b x" for b x by (simp add: delivered_def)
  have t: "told ((nodes m a)\<lparr>decision := Resume\<rparr>) x r" if "told (nodes m a) x r" for x r
    using that False by (auto simp: told_def decided_def)
  have f: "founded ?m b" if "founded m b" for b
    using that assms(2) False unfolding founded_def del by (auto simp: decided_def)
  have "outcomes_ok ?m"
    unfolding outcomes_ok_def del
  proof (intro allI impI conjI)
    fix b assume b: "is_aggregate (kind_at ?m b)"
    then have o: "\<forall>c. delivered m b c \<longrightarrow> told (nodes m b) c (nodes m c)" "founded m b"
      "is_done (state_at m b) \<and> \<not> gone m b \<longrightarrow> state_at m b = settled_state (nodes m b)"
      using assms(1) by (auto simp: outcomes_ok_def split: if_splits)
    show "founded ?m b" by (rule f [OF o(2)])
    show "is_done (state_at ?m b) \<and> \<not> gone ?m b \<Longrightarrow> state_at ?m b = settled_state (nodes ?m b)" using o(3) False by (auto split: if_splits)
    show "told (nodes ?m b) c (nodes ?m c)" if "delivered m b c" for c
    proof -
      have "told (nodes ?m b) c (nodes m c)" using t that o(1) by auto
      then show ?thesis by (auto simp: told_def split: if_splits)
    qed
  qed
  moreover have "keeps ?m (cancel_group a m)"
    using False keeps_trans [OF enter_keeps(1) cancel_all_keeps] by (simp add: cancel_group_def)
  ultimately show ?thesis using keeps_outcomes by blast
qed (use assms(1) in \<open>simp add: cancel_group_def\<close>)


section \<open>The steps\<close>

lemma tasks_undelivered:
  assumes "tree_inv m" "stack m = f # fs" "resumes t f" "kind_at m t = Task"
  shows "undelivered m t"
  using undelivered_node [OF assms(1), of t] resumer(1) [OF assms] by simp

lemma run_frame_outcomes:
  assumes "tree_inv m" "outcomes_ok m" "stack m = f # fs" "internal f"
  shows "outcomes_ok (run_frame f (m\<lparr>stack := fs\<rparr>))"
proof -
  note i = tree_invD [OF assms(1)]
  note ft = frames_tail(5) [OF i(5) assms(3)]
  have k: "outcomes_ok m'" if "keeps (m\<lparr>stack := fs\<rparr>) m'" for m'
    using that assms(2) keeps_outcomes popped_keeps by blast
  have un: "undelivered (m\<lparr>stack := fs\<rparr>) n" if "kind_at m n \<noteq> Task \<or> \<not> is_done (state_at m n)" for n
    using undelivered_node [OF assms(1) that] by simp
  have pend: "keeps x (settle_if_idle a (set_node a (\<lambda>n. n\<lparr>pending := pending n - 1\<rparr>) x))" if "undelivered x a" for a x
    by (rule keeps_trans [OF keeps_set_node settle_keeps]) (use that in \<open>auto simp: verdict_def\<close>)
  show ?thesis
  proof (cases f)
    case (Deliver p c)
    show ?thesis
    proof (cases "kind_at m p = Task")
      case False
      then show ?thesis using child_completed_outcomes [OF assms(1,2), of p c fs] assms(3) Deliver by (simp add: on_child_complete_def)
    next
      case True
      then have u: "undelivered (m\<lparr>stack := fs\<rparr>) p" using tasks_undelivered [OF assms(1,3), of p] Deliver by simp
      have "keeps (m\<lparr>stack := fs\<rparr>) (finish p Failed (set_node p (\<lambda>n. n\<lparr>child := None\<rparr>) (m\<lparr>stack := fs\<rparr>)))"
        by (rule keeps_trans [OF keeps_set_node finish_keeps]) (use u True in \<open>auto simp: verdict_def\<close>)
      with u True Deliver show ?thesis
        by (auto simp: on_child_complete_def Let_def intro!: k awaited_ended_keeps)
    qed
  next
    case (AwaitedEnded t s b)
    then have "kind_at m t = Task" using ft by simp
    with tasks_undelivered [OF assms(1,3), of t] AwaitedEnded show ?thesis by (auto intro!: k awaited_ended_keeps)
  next
    case (CountOff a c)
    then have "kind_at m a \<noteq> Task" using ft by auto
    with CountOff un show ?thesis by (auto intro!: k count_off_keeps)
  next
    case (Unpin a)
    then have "kind_at m a \<noteq> Task" using ft by auto
    with Unpin un have "keeps (m\<lparr>stack := fs\<rparr>) (run_frame f (m\<lparr>stack := fs\<rparr>))" unfolding Unpin run_frame.simps by (intro pend) blast
    then show ?thesis by (rule k)
  next
    case (StartChildren a cs)
    show ?thesis
    proof (cases cs)
      case Nil
      with StartChildren k show ?thesis by (simp add: start_children_def)
    next
      case (Cons c ds)
      with ft StartChildren have c: "state_at m c = Pending" "c \<in> set (children (nodes m a))" by auto
      then have "kind_at m c = Task" using member_aggregate [OF i(4)] by blast
      then have "keeps (m\<lparr>stack := fs\<rparr>) (start c (Some a) (enter_resumption (push [StartChildren a ds] (m\<lparr>stack := fs\<rparr>))))"
        using un [of c] c(1) by (intro keeps_trans [OF enter_keeps(2) keeps_trans [OF enter_keeps(1) start_keeps]]) auto
      with Cons StartChildren show ?thesis by (auto simp: start_children_def intro!: k)
    qed
  next
    case (Abandon a)
    then show ?thesis using abandon_step_keeps [OF assms(1), of a fs] assms(3) keeps_outcomes assms(2) by simp
  next
    case Leave
    have "keeps (m\<lparr>stack := fs\<rparr>) (complete (hd (deferred m)) (push [Leave] (m\<lparr>stack := fs, deferred := tl (deferred m)\<rparr>)))" if ne: "deferred m \<noteq> []"
    proof -
      have "hd (deferred m) \<in> set (deferred m)" using ne by simp
      then have l: "is_leaf (kind_at m (hd (deferred m)))" using i(10) by (auto simp: roots_ok_def)
      then have n: "kind_at m (hd (deferred m)) \<noteq> Task" "\<not> is_aggregate (kind_at m (hd (deferred m)))" by (auto simp: is_leaf_def)
      show ?thesis
        by (rule keeps_trans [OF keeps_nodes complete_keeps]) (use n un in \<open>auto simp: undelivered_def delivered_def\<close>)
    qed
    moreover have "keeps (m\<lparr>stack := fs\<rparr>) (m\<lparr>stack := fs, resuming := False\<rparr>)" by (rule keeps_nodes) simp_all
    ultimately show ?thesis using Leave enter_keeps(2) by (auto simp: leave_resumption_def intro!: k)
  next
    case DestroyRoots
    have "keeps (m\<lparr>stack := fs\<rparr>) (push gs (m\<lparr>stack := fs, ended_roots := r\<rparr>))" for gs r by (rule keeps_nodes) simp_all
    with DestroyRoots enter_keeps(2) show ?thesis by (auto simp: destroy_roots_def intro!: k)
  next
    case DestroyGroups
    have "keeps (m\<lparr>stack := fs\<rparr>) (push gs (snd (take_ended a (m\<lparr>stack := fs\<rparr>))))" for gs a
      using keeps_trans enter_keeps(2) take_ended_keeps by blast
    with DestroyGroups enter_keeps(2) show ?thesis
      by (auto simp: destroy_groups_def case_prod_beta intro!: k split: list.split)
  qed (use assms(4) k cancel_keeps cancel_step_keeps in auto)
qed

end
