(* ===== verification/Task_Runs.thy ===== *)
theory Task_Runs
  imports Task_Outcome Transition
begin

text \<open>
  The transition system of the task tree: every operation, in any order code may call them, and both
  invariants in every state it reaches. \<^verbatim>\<open>perform\<close> is its steps as a function.
\<close>

section \<open>The steps\<close>

text \<open>
  What code may do. While the code of a coroutine runs (\<^verbatim>\<open>Run\<close> on top), it may end or await;
  while any code runs, also a destructor or what cancels a leaf, or none does and the loop polls, it
  may cancel, spawn, complete, schedule and let go. The preconditions are those the code asserts or
  documents: a task starts once, an aggregate and a leaf are awaited once, a group that goes is not in
  use.
\<close>

definition controlled :: "machine \<Rightarrow> bool" where
  "controlled m \<longleftrightarrow> (case stack m of [] \<Rightarrow> True | f # fs \<Rightarrow> \<not> internal f)"

definition usable :: "machine \<Rightarrow> nat \<Rightarrow> bool" where
  "usable m a \<longleftrightarrow> kind_at m a = TaskGroup \<and> (\<not> gone m a \<or> Abandon a \<in> set (stack m))"

inductive step :: "machine \<Rightarrow> machine \<Rightarrow> bool" where
  runtime: "stack m = f # fs \<Longrightarrow> internal f \<Longrightarrow> step m (run_frame f (m\<lparr>stack := fs\<rparr>))"
| returns: "stack m = f # fs \<Longrightarrow> f = Action n \<or> f = Destroy n \<Longrightarrow> step m (m\<lparr>stack := fs\<rparr>)"
| ends: "stack m = Run t # fs \<Longrightarrow> step m (end_task t e (m\<lparr>stack := fs\<rparr>))"
| awaits: "stack m = Run t # fs \<Longrightarrow> idle m c \<Longrightarrow> step m (await_task t c b h (m\<lparr>stack := fs\<rparr>))"
| arms: "stack m = Run t # fs \<Longrightarrow> is_when (kind_at m a) \<Longrightarrow> state_at m a = Pending \<Longrightarrow> cs \<noteq> [] \<Longrightarrow> distinct cs
    \<Longrightarrow> list_all (idle m) cs \<Longrightarrow> step m (arm t a cs (m\<lparr>stack := fs\<rparr>))"
| joins: "stack m = Run t # fs \<Longrightarrow> kind_at m a = TaskGroup \<Longrightarrow> state_at m a = Pending \<Longrightarrow> \<not> gone m a
    \<Longrightarrow> step m (join t a (m\<lparr>stack := fs\<rparr>))"
| attaches: "stack m = Run t # fs \<Longrightarrow> kind_at m i = SystemIO \<Longrightarrow> state_at m i = Pending
    \<Longrightarrow> step m (attach t i (m\<lparr>stack := fs\<rparr>))"
| waits: "stack m = Run t # fs \<Longrightarrow> kind_at m w = Waiter \<Longrightarrow> state_at m w = Pending
    \<Longrightarrow> step m (begin_wait t w (m\<lparr>stack := fs\<rparr>))"
| cancels: "controlled m \<Longrightarrow> kind_at m t = Task \<Longrightarrow> step m (cancel t m)"
| spawns: "controlled m \<Longrightarrow> usable m a \<Longrightarrow> idle m c \<Longrightarrow> step m (snd (spawn a c m))"
| cancels_group: "controlled m \<Longrightarrow> usable m a \<Longrightarrow> step m (cancel_group a m)"
| goes: "controlled m \<Longrightarrow> kind_at m a = TaskGroup \<Longrightarrow> \<not> gone m a \<Longrightarrow> parent (nodes m a) = None
    \<Longrightarrow> list_all (\<lambda>f. \<not> uses a f) (stack m) \<Longrightarrow> step m (abandon_children a m)"
| completes: "controlled m \<Longrightarrow> is_leaf (kind_at m i) \<Longrightarrow> state_at m i = Running \<Longrightarrow> i \<notin> set (deferred m) \<Longrightarrow> step m (complete i m)"
| defers: "controlled m \<Longrightarrow> is_leaf (kind_at m i) \<Longrightarrow> state_at m i = Running \<Longrightarrow> i \<notin> set (deferred m)
    \<Longrightarrow> step m (complete_deferred i m)"
| schedules: "controlled m \<Longrightarrow> idle m t \<Longrightarrow> step m (make_root t b m)"
| lets_go: "controlled m \<Longrightarrow> kind_at m t = Task \<Longrightarrow> scheduled (nodes m t) \<Longrightarrow> \<not> is_done (state_at m t) \<Longrightarrow> step m (let_go t m)"
| starts_root: "stack m = [] \<Longrightarrow> tasks m = t # ts \<Longrightarrow> step m (run_root t (m\<lparr>tasks := ts\<rparr>))"
| drains: "stack m = [] \<Longrightarrow> deferred m = i # is \<Longrightarrow> step m (complete i (m\<lparr>deferred := is\<rparr>))"
| polls: "stack m = [] \<Longrightarrow> step m (m\<lparr>has_current := b\<rparr>)"

text \<open>The state before any code runs: no node has been awaited. \<^verbatim>\<open>kinds\<close> tells the nodes
  code will make, \<^verbatim>\<open>caught\<close> the aggregates made to catch a cancel.\<close>

definition fresh :: "NodeKind \<Rightarrow> bool \<Rightarrow> node" where
  "fresh k b = \<lparr>kind = k, state = Pending, cancel_requested = False, intercept = b, parent = None, child = None, hook = False,
     threw = False, scheduled = False, owned_by_loop = False, children = [], pending = 0, winner = None, ended = [],
     decision = NoDecision, exception = None, errors = []\<rparr>"

definition initial :: "(nat \<Rightarrow> NodeKind) \<Rightarrow> (nat \<Rightarrow> bool) \<Rightarrow> machine" where
  "initial kinds caught = \<lparr>nodes = \<lambda>n. fresh (kinds n) (caught n), stack = [], resuming = False, ended_roots = [],
     groups_with_ended = [], tasks = [], deferred = [], has_current = False, owner = \<lambda>_. None, gone = \<lambda>_. False\<rparr>"

definition reachable :: "machine \<Rightarrow> bool" where
  "reachable m \<longleftrightarrow> (\<exists>kinds caught. step\<^sup>*\<^sup>* (initial kinds caught) m)"

lemma reachable_initial: "reachable (initial kinds caught)"
  unfolding reachable_def by blast

lemma reachable_next: "reachable m \<Longrightarrow> step m m' \<Longrightarrow> reachable m'"
  unfolding reachable_def by (meson rtranclp.rtrancl_into_rtrancl)

lemma tree_initial: "tree_inv (initial kinds caught)" "outcomes_ok (initial kinds caught)"
  by (simp_all add: tree_inv_def tree_defs initial_def fresh_def tally_def awaits_def held_def decided_def
      outcomes_ok_def delivered_def founded_def)

lemma usable_gone: "tree_inv m \<Longrightarrow> usable m a \<Longrightarrow> gone m a \<Longrightarrow> decided (nodes m a)"
  using tree_invD(5) by (fastforce simp: usable_def frames_ok_def decided_def)

lemma tree_step:
  assumes "tree_inv m" "step m m'"
  shows "tree_inv m'"
  using assms(2)
proof (cases rule: step.cases)
  case (spawns a c)
  show ?thesis
  proof (cases "gone m a")
    case True
    with usable_gone [OF assms(1)] spawns assms(1) show ?thesis by (simp add: spawn_def)
  next
    case False
    with spawn_inv [OF assms(1)] spawns show ?thesis by (simp add: usable_def)
  qed
next
  case (returns f fs n)
  with destroy_inv(3) [OF assms(1)] show ?thesis by auto
next
  case (drains i "is")
  note d = drain_inv [OF assms(1) drains(3)]
  with drains show ?thesis by (auto intro!: complete_inv)
next
  case (polls b)
  then have "same_core m' m" by (simp add: same_core_def)
  with assms(1) show ?thesis by (rule coreI)
next
  case (attaches t fs i)
  with attach_inv [OF assms(1)] show ?thesis by simp
next
  case (waits t fs w)
  with waited_inv [OF assms(1)] show ?thesis by simp
next
  case (cancels t)
  then show ?thesis by (auto intro!: cancel_inv [OF assms(1)])
qed (use assms(1) run_frame_inv end_task_inv await_task_inv arm_inv join_inv cancel_group_inv abandon_children_inv complete_inv
  complete_deferred_inv make_root_inv let_go_inv run_root_inv in \<open>auto simp: usable_def\<close>)

lemma step_outcomes:
  assumes "tree_inv m" "outcomes_ok m" "step m m'"
  shows "outcomes_ok m'"
proof -
  have k: "outcomes_ok x" if "keeps m x" for x using keeps_outcomes [OF that assms(2)] .
  have un: "undelivered m n" if "kind_at m n \<noteq> Task \<or> \<not> is_done (state_at m n)" for n
    using undelivered_node [OF assms(1) that] .
  have run: "undelivered (m\<lparr>stack := fs\<rparr>) t" "kind_at (m\<lparr>stack := fs\<rparr>) t = Task" if "stack m = Run t # fs" for t fs
    using running_top [OF assms(1) that] un [of t] by simp_all
  have id: "undelivered m c" "kind_at m c = Task" if "idle m c" for c
    using that un [of c] by (auto simp: idle_def)
  have kp: "outcomes_ok x" if "keeps (m\<lparr>stack := fs\<rparr>) x" for x fs using k [OF popped_keeps [THEN iffD1, OF that]] .
  show ?thesis using assms(3)
  proof (cases rule: step.cases)
    case (runtime f fs)
    with run_frame_outcomes [OF assms(1,2)] show ?thesis by simp
  next
    case (returns f fs n)
    then show ?thesis by (auto intro: k enter_keeps)
  next
    case (ends t fs e)
    then show ?thesis using run by (auto intro!: kp end_task_keeps)
  next
    case (awaits t fs c b h)
    then show ?thesis using run id by (auto intro!: kp await_task_keeps)
  next
    case (arms t fs a cs)
    then have "undelivered m a" by (intro un) (auto simp: is_when_def)
    moreover have "list_all (idle (m\<lparr>stack := fs\<rparr>)) cs" using arms by (simp add: list_all_iff idle_def)
    ultimately show ?thesis using arms run by (auto intro!: kp arm_keeps)
  next
    case (joins t fs a)
    then show ?thesis using un [of a] by (auto intro!: kp join_keeps)
  next
    case (attaches t fs i)
    then show ?thesis using un [of i] run by (auto intro!: kp leaf_keeps)
  next
    case (waits t fs w)
    then show ?thesis using un [of w] run by (auto intro!: kp leaf_keeps)
  next
    case (cancels_group a)
    with cancel_group_outcomes [OF assms(2)] show ?thesis by (simp add: usable_def)
  next
    case (completes i)
    then have "kind_at m i \<noteq> Task" "\<not> is_aggregate (kind_at m i)" by (auto simp: is_leaf_def)
    with completes un show ?thesis by (auto intro!: k complete_keeps)
  next
    case (defers i)
    then show ?thesis by (auto intro!: k keeps_nodes simp: complete_deferred_def)
  next
    case (schedules t b)
    then show ?thesis by (auto intro!: k simp: make_root_def keeps_def delivered_def verdict_def)
  next
    case (lets_go t)
    then show ?thesis unfolding let_go_def
      by (auto intro!: k keeps_trans [OF keeps_set_node cancel_keeps] simp: verdict_def)
  next
    case (starts_root t ts)
    then have t: "kind_at m t = Task" "state_at m t = Pending" using tree_invD(10) [OF assms(1)] by (auto simp: roots_ok_def)
    have "keeps m (run_root t (m\<lparr>tasks := ts\<rparr>))" unfolding run_root_def
      by (rule keeps_trans [OF keeps_nodes start_keeps]) (use t un [of t] in \<open>auto simp: enter_resumption_def undelivered_def delivered_def\<close>)
    with starts_root show ?thesis by (auto intro: k)
  next
    case (drains i "is")
    then have "is_leaf (kind_at m i)" using tree_invD(10) [OF assms(1)] by (auto simp: roots_ok_def)
    then have l: "kind_at m i \<noteq> Task" "\<not> is_aggregate (kind_at m i)" by (auto simp: is_leaf_def)
    have "keeps m (complete i (m\<lparr>deferred := is\<rparr>))"
      by (rule keeps_trans [OF keeps_nodes complete_keeps]) (use l un [of i] in \<open>auto simp: undelivered_def delivered_def\<close>)
    with drains show ?thesis by (auto intro: k)
  next
    case (polls b)
    then show ?thesis by (auto intro!: k keeps_nodes)
  qed (use k cancel_keeps spawn_keeps abandon_children_keeps in auto)
qed

interpretation tree: kept_invariant "\<lambda>m. \<exists>kinds caught. m = initial kinds caught" step "\<lambda>m. tree_inv m \<and> outcomes_ok m"
  by unfold_locales (use tree_initial tree_step step_outcomes in blast)+

lemma tree_reachable: "reachable m \<Longrightarrow> tree_inv m \<and> outcomes_ok m"
  unfolding reachable_def using tree.run_inv by blast

section \<open>Steps as a function\<close>

datatype action =
    Runtime
  | Return
  | End ending
  | AwaitTask nat bool bool
  | Arm nat "nat list"
  | Join nat
  | Attach nat
  | BeginWait nat
  | CancelTask nat
  | Spawn nat nat
  | CancelGroup nat
  | Go nat
  | Complete nat
  | Defer nat
  | Schedule nat bool
  | LetGo nat
  | StartRoot
  | Drain
  | Poll bool

definition provided :: "bool \<Rightarrow> 'a \<Rightarrow> 'a option" where
  "provided b x = (if b then Some x else None)"

definition in_task :: "machine \<Rightarrow> (nat \<Rightarrow> machine \<Rightarrow> machine option) \<Rightarrow> machine option" where
  "in_task m go = (case stack m of Run t # fs \<Rightarrow> go t (m\<lparr>stack := fs\<rparr>) | _ \<Rightarrow> None)"

fun perform :: "action \<Rightarrow> machine \<Rightarrow> machine option" where
  "perform Runtime m = (case stack m of f # fs \<Rightarrow> provided (internal f) (run_frame f (m\<lparr>stack := fs\<rparr>)) | [] \<Rightarrow> None)"
| "perform Return m = (case stack m of Action n # fs \<Rightarrow> Some (m\<lparr>stack := fs\<rparr>) | Destroy n # fs \<Rightarrow> Some (m\<lparr>stack := fs\<rparr>) | _ \<Rightarrow> None)"
| "perform (End e) m = in_task m (\<lambda>t m. Some (end_task t e m))"
| "perform (AwaitTask c b h) m = in_task m (\<lambda>t m. provided (idle m c) (await_task t c b h m))"
| "perform (Arm a cs) m = in_task m (\<lambda>t m. provided (is_when (kind_at m a) \<and> state_at m a = Pending \<and> cs \<noteq> [] \<and> distinct cs
     \<and> list_all (idle m) cs) (arm t a cs m))"
| "perform (Join a) m = in_task m (\<lambda>t m. provided (kind_at m a = TaskGroup \<and> state_at m a = Pending \<and> \<not> gone m a) (join t a m))"
| "perform (Attach i) m = in_task m (\<lambda>t m. provided (kind_at m i = SystemIO \<and> state_at m i = Pending) (attach t i m))"
| "perform (BeginWait w) m = in_task m (\<lambda>t m. provided (kind_at m w = Waiter \<and> state_at m w = Pending) (begin_wait t w m))"
| "perform (CancelTask t) m = provided (controlled m \<and> kind_at m t = Task) (cancel t m)"
| "perform (Spawn a c) m = provided (controlled m \<and> usable m a \<and> idle m c) (snd (spawn a c m))"
| "perform (CancelGroup a) m = provided (controlled m \<and> usable m a) (cancel_group a m)"
| "perform (Go a) m = provided (controlled m \<and> kind_at m a = TaskGroup \<and> \<not> gone m a \<and> parent (nodes m a) = None
     \<and> list_all (\<lambda>f. \<not> uses a f) (stack m)) (abandon_children a m)"
| "perform (Complete i) m = provided (controlled m \<and> is_leaf (kind_at m i) \<and> state_at m i = Running \<and> i \<notin> set (deferred m)) (complete i m)"
| "perform (Defer i) m = provided (controlled m \<and> is_leaf (kind_at m i) \<and> state_at m i = Running \<and> i \<notin> set (deferred m)) (complete_deferred i m)"
| "perform (Schedule t b) m = provided (controlled m \<and> idle m t) (make_root t b m)"
| "perform (LetGo t) m = provided (controlled m \<and> kind_at m t = Task \<and> scheduled (nodes m t) \<and> \<not> is_done (state_at m t)) (let_go t m)"
| "perform StartRoot m = (if stack m = [] then case tasks m of t # ts \<Rightarrow> Some (run_root t (m\<lparr>tasks := ts\<rparr>)) | [] \<Rightarrow> None else None)"
| "perform Drain m = (if stack m = [] then case deferred m of i # is \<Rightarrow> Some (complete i (m\<lparr>deferred := is\<rparr>)) | [] \<Rightarrow> None else None)"
| "perform (Poll b) m = provided (stack m = []) (m\<lparr>has_current := b\<rparr>)"

lemma perform_simps [simp]:
  "provided b x = Some y \<longleftrightarrow> b \<and> x = y"
  "in_task m go = Some m' \<longleftrightarrow> (\<exists>t fs. stack m = Run t # fs \<and> go t (m\<lparr>stack := fs\<rparr>) = Some m')"
  "idle (m\<lparr>stack := fs\<rparr>) = idle m"
  by (auto simp: provided_def in_task_def idle_def fun_eq_iff split: list.split frame.split)

lemma perform_step:
  assumes "perform x m = Some m'"
  shows "step m m'"
proof (cases x)
  case Return
  with assms show ?thesis by (auto split: list.splits frame.splits intro: step.returns)
qed (use assms in \<open>auto split: if_splits list.splits intro: step.intros\<close>)

fun perform_all :: "action list \<Rightarrow> machine \<Rightarrow> machine option" where
  "perform_all [] m = Some m"
| "perform_all (x # xs) m = (case perform x m of None \<Rightarrow> None | Some m' \<Rightarrow> perform_all xs m')"

lemma perform_all_reachable: "perform_all xs m = Some m' \<Longrightarrow> reachable m \<Longrightarrow> reachable m'"
proof (induction xs arbitrary: m)
  case (Cons x xs)
  from Cons.prems obtain k where k: "perform x m = Some k" "perform_all xs k = Some m'" by (auto split: option.splits)
  have "reachable k" by (rule reachable_next [OF Cons.prems(2) perform_step [OF k(1)]])
  with Cons.IH k(2) show ?case by blast
qed simp

end
