(* ===== verification/Task_Structure.thy ===== *)
theory Task_Structure
  imports Task_Runs
begin

text \<open>
  What the task tree promises, in every state any code can bring it to: an aggregate ends after its
  children and tells what became of them, a cancel reaches everything below the node it is called on,
  and no task is left behind when the code has returned to the loop.
\<close>

section \<open>Helpers\<close>

lemma settled_facts:
  assumes "reachable m" "is_aggregate (kind_at m a)" "is_done (state_at m a)"
  shows "children (nodes m a) = []" "\<forall>f\<in>set (stack m). \<not> holds a f"
    "owner m c = Some a \<longleftrightarrow> delivered m a c" "owner m c = Some a \<Longrightarrow> is_done (state_at m c)"
proof -
  have inv: "tree_inv m" using tree_reachable [OF assms(1)] by blast
  note i = tree_invD [OF inv]
  have h: "held m a = 0" using i(7) assms(2,3) by (simp add: settled_ok_def)
  then show c: "children (nodes m a) = []" "\<forall>f\<in>set (stack m). \<not> holds a f"
    by (simp_all add: held_def tally_def filter_empty_conv)
  then show "owner m c = Some a \<longleftrightarrow> delivered m a c" by (simp add: delivered_def)
  show "owner m c = Some a \<Longrightarrow> is_done (state_at m c)" using owned [OF i(9)] c(1) by fastforce
qed

definition awaited_from :: "machine \<Rightarrow> nat \<Rightarrow> nat \<Rightarrow> bool" where
  "awaited_from m c p \<longleftrightarrow> parent (nodes m c) = Some p"

lemma awaited_running: "tree_inv m \<Longrightarrow> awaited_from m c p \<Longrightarrow> state_at m c = Running"
  using tree_invD(2) by (auto simp: parents_ok_def awaited_from_def)

text \<open>The frames on which a cancel under way has not reached every node yet.\<close>

fun spreads :: "frame \<Rightarrow> bool" where
  "spreads (Cancelling n) = True"
| "spreads (CancelChildren a k) = True"
| "spreads (Abandon a) = True"
| "spreads f = False"

lemma cancel_passed:
  assumes "tree_inv m" "\<forall>f\<in>set (stack m). \<not> spreads f" "awaited_from m c p"
    "cancel_requested (nodes m p) \<or> is_aggregate (kind_at m p) \<and> decided (nodes m p)"
  shows "cancel_requested (nodes m c)"
proof -
  note i = tree_invD [OF assms(1)]
  have p: "parent (nodes m c) = Some p" using assms(3) by (simp add: awaited_from_def)
  have s: "CancelChildren p k \<notin> set (stack m)" "Abandon p \<notin> set (stack m)" "Cancelling c \<notin> set (stack m)" for k
    using assms(2) by fastforce+
  show ?thesis
  proof (cases "kind_at m p = Task")
    case True
    with i(8) p assms(4) s show ?thesis unfolding cancels_ok_def by auto
  next
    case False
    note a = parent_aggregate [OF i(2) p False]
    have "decided (nodes m p)" using assms(4) by (auto simp: decided_def)
    with i(8) a(1) s have "\<forall>c\<in>set (children (nodes m p)). reached m c" unfolding cancels_ok_def by blast
    with a(3,4) show ?thesis by (auto simp: reached_def)
  qed
qed

definition sample_kinds :: "nat \<Rightarrow> NodeKind" where
  "sample_kinds n = (if n < 4 then Task else if n = 4 then WhenAll else if n = 5 then WhenAny else if n = 6 then TaskGroup else SystemIO)"

text \<open>Runs: a \<^verbatim>\<open>when_all\<close> of two tasks, of which one fails; a task that joins a group of a task
  that waits for I/O and is cancelled.\<close>

definition failing_run :: "machine option" where
  "failing_run = perform_all [Schedule 0 False, StartRoot, Arm 4 [1, 2], Runtime, Attach 7, Runtime, End Erred, Runtime, Runtime, Runtime,
     Complete 7, Runtime, Runtime, Runtime, Return, Runtime, Runtime, Runtime, Runtime] (initial sample_kinds (\<lambda>_. False))"

definition joining_run :: "action list \<Rightarrow> machine option" where
  "joining_run xs = perform_all ([Schedule 0 False, StartRoot, Spawn 6 1, Attach 7, Join 6, Runtime] @ xs) (initial sample_kinds (\<lambda>_. False))"

lemma sample_reachable: "failing_run = Some m \<Longrightarrow> reachable m" "joining_run xs = Some m \<Longrightarrow> reachable m"
  unfolding failing_run_def joining_run_def using perform_all_reachable reachable_initial by blast+

section \<open>Children and their aggregate\<close>

text \<open>
  C5: An aggregate ends after its children: in every reachable state, once a
  \<^verbatim>\<open>when_all\<close>, a \<^verbatim>\<open>when_any\<close> or a \<^verbatim>\<open>task_group\<close> has settled, each task that was
  its child has ended, and no walk over its children and no child to be counted off is on the stack.
\<close>

theorem children_end_first:
  assumes "reachable m" "is_aggregate (kind_at m a)" "is_done (state_at m a)"
  shows "(\<forall>c. owner m c = Some a \<longrightarrow> is_done (state_at m c)) \<and> children (nodes m a) = [] \<and> (\<forall>f\<in>set (stack m). \<not> holds a f)"
  using settled_facts [OF assms] by blast

theorem children_end_first_witness:
  "case failing_run of None \<Rightarrow> False | Some m \<Rightarrow> owner m 1 = Some 4 \<and> is_done (state_at m 1) \<and> children (nodes m 4) = []"
proof -
  have "case failing_run of None \<Rightarrow> False | Some m \<Rightarrow> is_aggregate (kind_at m 4) \<and> is_done (state_at m 4) \<and> owner m 1 = Some 4"
    by code_simp
  then obtain m where m: "failing_run = Some m" "is_aggregate (kind_at m 4)" "is_done (state_at m 4)" "owner m 1 = Some 4"
    by (auto split: option.splits)
  from children_end_first [OF sample_reachable(1) [OF m(1)] m(2,3)] m(4) show ?thesis unfolding m(1) by simp
qed

text \<open>
  C1: An aggregate that has settled, and is still there, tells what became of its
  children: it failed exactly when a child failed, and holds an exception exactly when a child threw
  one; a \<^verbatim>\<open>when_all\<close> succeeded only if every child did; a \<^verbatim>\<open>when_any\<close> that had children
  succeeded only if its winner did; a group holds the errors of exactly the children that failed with
  one; and an aggregate ended cancelled only if it was cancelled or, unless it is a group, a child was.
\<close>

theorem aggregate_outcome:
  assumes "reachable m" "is_aggregate (kind_at m a)" "is_done (state_at m a)" "\<not> gone m a"
  shows "(state_at m a = Failed \<longleftrightarrow> (\<exists>c. owner m c = Some a \<and> state_at m c = Failed))
    \<and> (exception (nodes m a) \<noteq> None \<longleftrightarrow> (\<exists>c. owner m c = Some a \<and> state_at m c = Failed \<and> threw (nodes m c)))
    \<and> (kind_at m a = WhenAll \<and> state_at m a = Succeeded \<longrightarrow> (\<forall>c. owner m c = Some a \<longrightarrow> state_at m c = Succeeded))
    \<and> (kind_at m a = WhenAny \<and> state_at m a = Succeeded \<and> (\<exists>c. owner m c = Some a) \<longrightarrow>
        (\<exists>w. winner (nodes m a) = Some w \<and> owner m w = Some a \<and> state_at m w = Succeeded))
    \<and> (kind_at m a = TaskGroup \<longrightarrow>
        set (errors (nodes m a)) = {c. owner m c = Some a \<and> state_at m c = Failed \<and> \<not> threw (nodes m c)})
    \<and> (state_at m a = Cancelled \<longrightarrow> cancel_requested (nodes m a)
        \<or> kind_at m a \<noteq> TaskGroup \<and> (\<exists>c. owner m c = Some a \<and> state_at m c = Cancelled))"
proof -
  note d = settled_facts(3) [OF assms(1-3)] and e = settled_facts(4) [OF assms(1-3)]
  have o: "outcomes_ok m" using tree_reachable [OF assms(1)] by blast
  have told: "\<And>c. owner m c = Some a \<Longrightarrow> told (nodes m a) c (nodes m c)" and f: "founded m a"
    and s: "state_at m a = settled_state (nodes m a)"
    using o assms(2-4) d by (auto simp: outcomes_ok_def)
  have err: "decision (nodes m a) = Error \<longleftrightarrow> (\<exists>c. owner m c = Some a \<and> state_at m c = Failed)"
    using f told unfolding founded_def d [symmetric] told_def by blast
  have failed: "state_at m a = Failed \<longleftrightarrow> decision (nodes m a) = Error" unfolding s by (simp add: settled_state_def)
  have done_cases: "state_at m c = Succeeded \<or> state_at m c = Failed \<or> state_at m c = Cancelled" if "owner m c = Some a" for c
    using e [OF that] by (cases "state_at m c") auto
  have exc: "exception (nodes m a) \<noteq> None \<longleftrightarrow> (\<exists>c. owner m c = Some a \<and> state_at m c = Failed \<and> threw (nodes m c))"
  proof
    show "\<exists>c. owner m c = Some a \<and> state_at m c = Failed \<and> threw (nodes m c)" if "exception (nodes m a) \<noteq> None"
      using f that unfolding founded_def d [symmetric] by blast
    show "exception (nodes m a) \<noteq> None" if "\<exists>c. owner m c = Some a \<and> state_at m c = Failed \<and> threw (nodes m c)"
    proof -
      from that obtain c where "owner m c = Some a" "state_at m c = Failed" "threw (nodes m c)" by blast
      with told [of c] show ?thesis by (simp add: told_def)
    qed
  qed
  have dec: "decision (nodes m a) = Resume \<or> decision (nodes m a) = NoDecision" "\<not> cancel_requested (nodes m a)" if "state_at m a = Succeeded"
    using that unfolding s by (cases "decision (nodes m a)"; auto simp: settled_state_def split: if_splits)+
  have all: "state_at m c = Succeeded" if k: "kind_at m a = WhenAll" "state_at m a = Succeeded" "owner m c = Some a" for c
  proof -
    have "decision (nodes m a) = NoDecision" using f dec(1) [OF k(2)] k(1) unfolding founded_def by auto
    then show ?thesis using told [OF k(3)] done_cases [OF k(3)] dec(2) [OF k(2)] k(1) by (auto simp: told_def decided_def)
  qed
  have any: "\<exists>w. winner (nodes m a) = Some w \<and> owner m w = Some a \<and> state_at m w = Succeeded"
    if k: "kind_at m a = WhenAny" "state_at m a = Succeeded" "owner m c = Some a" for c
  proof -
    have "decision (nodes m a) = Resume"
      using told [OF k(3)] done_cases [OF k(3)] dec [OF k(2)] k(1) by (auto simp: told_def decided_def)
    then show ?thesis using f k(1) unfolding founded_def d [symmetric] by auto
  qed
  have group: "set (errors (nodes m a)) = {c. owner m c = Some a \<and> state_at m c = Failed \<and> \<not> threw (nodes m c)}" if "kind_at m a = TaskGroup"
  proof (intro set_eqI iffI)
    show "c \<in> {c. owner m c = Some a \<and> state_at m c = Failed \<and> \<not> threw (nodes m c)}" if "c \<in> set (errors (nodes m a))" for c
      using f that unfolding founded_def d [symmetric] by blast
    show "c \<in> set (errors (nodes m a))" if "c \<in> {c. owner m c = Some a \<and> state_at m c = Failed \<and> \<not> threw (nodes m c)}" for c
      using told [of c] that \<open>kind_at m a = TaskGroup\<close> by (auto simp: told_def)
  qed
  have canc: "cancel_requested (nodes m a) \<or> kind_at m a \<noteq> TaskGroup \<and> (\<exists>c. owner m c = Some a \<and> state_at m c = Cancelled)"
    if "state_at m a = Cancelled"
    using that f unfolding s founded_def d [symmetric] by (auto simp: settled_state_def split: if_splits)
  show ?thesis using failed err exc all any group canc by blast
qed

theorem aggregate_outcome_witness:
  "case failing_run of None \<Rightarrow> False | Some m \<Rightarrow> state_at m 4 = Failed \<and> owner m 2 = Some 4 \<and> state_at m 2 = Failed \<and> state_at m 1 = Cancelled"
proof -
  have "case failing_run of None \<Rightarrow> False | Some m \<Rightarrow> is_aggregate (kind_at m 4) \<and> is_done (state_at m 4) \<and> \<not> gone m 4
      \<and> owner m 2 = Some 4 \<and> state_at m 2 = Failed \<and> state_at m 1 = Cancelled"
    by code_simp
  then obtain m where m: "failing_run = Some m" "is_aggregate (kind_at m 4)" "is_done (state_at m 4)" "\<not> gone m 4"
      "owner m 2 = Some 4" "state_at m 2 = Failed" "state_at m 1 = Cancelled"
    by (auto split: option.splits)
  from aggregate_outcome [OF sample_reachable(1) [OF m(1)] m(2-4), THEN conjunct1] m(5-7) show ?thesis by (auto simp: m(1))
qed

section \<open>Cancels\<close>

text \<open>
  C4: A cancel reaches everything below: in every reachable state in which no walk of a
  cancel is under way, whatever a cancelled node waits for, however deep, has been cancelled, and so
  has every child that still runs of an aggregate whose outcome is decided, with what is below it.
\<close>

theorem cancel_reaches:
  assumes "reachable m" "\<forall>f\<in>set (stack m). \<not> spreads f" "(awaited_from m)\<^sup>+\<^sup>+ c n"
    "cancel_requested (nodes m n) \<or> is_aggregate (kind_at m n) \<and> decided (nodes m n)"
  shows "cancel_requested (nodes m c)"
proof -
  have inv: "tree_inv m" using tree_reachable [OF assms(1)] by blast
  from assms(3,4) show ?thesis
  proof (induction rule: converse_tranclp_induct)
    case (base y)
    then show ?case using cancel_passed [OF inv assms(2)] by blast
  next
    case (step y z)
    then show ?case using cancel_passed [OF inv assms(2) step(1)] by blast
  qed
qed

theorem cancel_reaches_witness:
  "case joining_run [CancelTask 0, Runtime, Runtime, Runtime, Return, Runtime, Runtime, Runtime] of None \<Rightarrow> False
   | Some m \<Rightarrow> stack m = [] \<and> state_at m 7 = Running \<and> cancel_requested (nodes m 7)"
proof -
  let ?r = "joining_run [CancelTask 0, Runtime, Runtime, Runtime, Return, Runtime, Runtime, Runtime]"
  have e: "case ?r of None \<Rightarrow> False | Some m \<Rightarrow> stack m = [] \<and> state_at m 7 = Running \<and> cancel_requested (nodes m 0)
      \<and> parent (nodes m 7) = Some 1 \<and> parent (nodes m 1) = Some 6 \<and> parent (nodes m 6) = Some 0"
    by code_simp
  have "cancel_requested (nodes m 7)" if r: "?r = Some m" for m
  proof -
    from e r have m: "stack m = []" "cancel_requested (nodes m 0)" "awaited_from m 7 1" "awaited_from m 1 6" "awaited_from m 6 0"
      by (auto simp: awaited_from_def)
    then have "(awaited_from m)\<^sup>+\<^sup>+ 7 0" by (meson tranclp.intros tranclp_into_tranclp2)
    then show ?thesis using cancel_reaches [of m 7 0] sample_reachable(2) [OF r] m(1,2) by simp
  qed
  with e show ?thesis by (auto split: option.splits)
qed

section \<open>Nothing is left behind\<close>

text \<open>
  C7: No wake-up is lost: in every reachable state in which the code has returned to
  the loop, each task that runs awaits a node that runs and will resume it, each aggregate that is
  awaited has a child that runs and will be counted off, and so, if no group is joined from below
  itself, a leaf that is still to complete is below every task that runs.
\<close>

theorem running_task_waits:
  assumes "reachable m" "stack m = []" "wfP (awaited_from m)" "kind_at m t = Task" "state_at m t = Running"
  shows "\<exists>i. is_leaf (kind_at m i) \<and> state_at m i = Running \<and> (awaited_from m)\<^sup>+\<^sup>+ i t"
proof -
  have inv: "tree_inv m" using tree_reachable [OF assms(1)] by blast
  note i = tree_invD [OF inv]
  have next_one: "\<exists>c. awaited_from m c n" if "state_at m n = Running" "\<not> is_leaf (kind_at m n)" for n
  proof (cases "kind_at m n = Task")
    case True
    then have "awaits m n" using i(1) that(1) assms(2) unfolding tasks_ok_def by (auto simp: tally_def split: if_splits)
    then show ?thesis by (auto simp: awaits_def awaited_from_def split: option.splits)
  next
    case False
    then have a: "is_aggregate (kind_at m n)" using that(2) not_task by blast
    have "parent (nodes m n) \<noteq> None" using i(3) False that(1) unfolding others_ok_def by blast
    then have "0 < pending (nodes m n)" "\<not> gone m n" using i(7) a unfolding settled_ok_def by blast+
    then have "children (nodes m n) \<noteq> []" using i(6) a assms(2) by (auto simp: pending_ok_def held_def tally_def)
    then obtain c where c: "c \<in> set (children (nodes m n))" by (meson list.set_sel(1))
    then show ?thesis using member_cases [OF i(4) c] assms(2) by (auto simp: awaited_from_def)
  qed
  have "state_at m n = Running \<Longrightarrow> \<exists>i. is_leaf (kind_at m i) \<and> state_at m i = Running \<and> (awaited_from m)\<^sup>*\<^sup>* i n" for n
    using assms(3)
  proof (induction n rule: wfp_induct_rule)
    case (less n)
    show ?case
    proof (cases "is_leaf (kind_at m n)")
      case False
      obtain c where c: "awaited_from m c n" using next_one less.prems False by blast
      with less.IH [OF c] awaited_running [OF inv c] show ?thesis by (meson rtranclp.rtrancl_into_rtrancl)
    qed (use less.prems in blast)
  qed
  with assms(4,5) show ?thesis by (metis kind_simps(7) rtranclpD)
qed

definition waiting_run :: "machine option" where
  "waiting_run = perform_all [Schedule 0 False, StartRoot, Attach 7, Runtime] (initial sample_kinds (\<lambda>_. False))"

lemma waiting_run_parents: "waiting_run = Some m \<Longrightarrow> parent (nodes m c) = (if c = 7 then Some 0 else None)"
  by (auto simp: waiting_run_def initial_def fresh_def sample_kinds_def provided_def controlled_def idle_def make_root_def set_node_def
      run_root_def start_def enter_resumption_def push_def in_task_def attach_def awaited_by_def Let_def leave_resumption_def anything_ended_def)

theorem running_task_waits_witness:
  "case waiting_run of None \<Rightarrow> False
   | Some m \<Rightarrow> state_at m 0 = Running \<and> (\<exists>i. is_leaf (kind_at m i) \<and> state_at m i = Running \<and> (awaited_from m)\<^sup>+\<^sup>+ i 0)"
proof -
  have "case waiting_run of None \<Rightarrow> False | Some m \<Rightarrow> stack m = [] \<and> kind_at m 0 = Task \<and> state_at m 0 = Running"
    by code_simp
  then obtain m where m: "waiting_run = Some m" "stack m = []" "kind_at m 0 = Task" "state_at m 0 = Running"
    by (auto split: option.splits)
  have "wfP (awaited_from m)"
    by (rule wfp_if_convertible_to_nat [of _ "\<lambda>n. if n = 7 then 0 else 1"])
      (use waiting_run_parents [OF m(1)] in \<open>auto simp: awaited_from_def split: if_splits\<close>)
  moreover have "reachable m" using m(1) perform_all_reachable reachable_initial unfolding waiting_run_def by blast
  ultimately show ?thesis using running_task_waits [of m 0] m(2-4) unfolding m(1) by simp
qed

end
