(* ===== verification/Cancellation.thy ===== *)
theory Cancellation
  imports Transition
begin

text \<open>
  Cancellation sources, tokens and callbacks (\<^verbatim>\<open>async/runtime/cancellation.h\<close>,
  \<^verbatim>\<open>cancellation.cpp\<close>). A source and its tokens share a state, here named by the source; its list of
  callbacks, whose pointers \<^verbatim>\<open>Linked_List\<close> verifies, is a list. A callback may cancel, register and
  deregister in the middle of the cancel that runs it, so the calls under way are part of the state, the
  innermost first. The waits on a source are waits on its event, modelled with the sync primitives.
\<close>

section \<open>State\<close>

datatype call = InCancel nat | InCallback nat

record CancellationState =
  fired :: bool
  callbacks :: "nat list"

text \<open>
  The states of the sources, of each callback the state whose list holds it, and the calls under way;
  beside them, what happened: the callbacks ever named, those run, those ever listed by each source, and
  those taken off by their registrations.
\<close>

record registry =
  sources :: "nat \<Rightarrow> CancellationState"
  node_state :: "nat \<Rightarrow> nat option"
  calls :: "call list"
  named :: "nat list"
  started :: "nat list"
  listed :: "nat \<Rightarrow> nat list"
  withdrawn :: "nat set"

definition set_source :: "nat \<Rightarrow> (CancellationState \<Rightarrow> CancellationState) \<Rightarrow> registry \<Rightarrow> registry" where
  "set_source s f w = w\<lparr>sources := (sources w)(s := f (sources w s))\<rparr>"

definition link :: "nat \<Rightarrow> nat \<Rightarrow> registry \<Rightarrow> registry" where
  "link s c w = (set_source s (\<lambda>r. r\<lparr>callbacks := callbacks r @ [c]\<rparr>) w)\<lparr>node_state := (node_state w)(c := Some s)\<rparr>"

definition unlink :: "nat \<Rightarrow> nat \<Rightarrow> registry \<Rightarrow> registry" where
  "unlink s c w = (set_source s (\<lambda>r. r\<lparr>callbacks := remove1 c (callbacks r)\<rparr>) w)\<lparr>node_state := (node_state w)(c := None)\<rparr>"

definition call_callback :: "nat \<Rightarrow> registry \<Rightarrow> registry" where
  "call_callback c w = w\<lparr>calls := InCallback c # calls w, started := started w @ [c]\<rparr>"

section \<open>Operations\<close>

text \<open>A registration goes, or another is assigned to it.\<close>

definition destroy_callback :: "nat \<Rightarrow> registry \<Rightarrow> registry" where
  "destroy_callback c w =
     (case node_state w c of Some s \<Rightarrow> (unlink s c w)\<lparr>withdrawn := insert c (withdrawn w)\<rparr> | None \<Rightarrow> w)"

definition token_cancelled :: "nat option \<Rightarrow> registry \<Rightarrow> bool" where
  "token_cancelled state w \<longleftrightarrow> (case state of Some s \<Rightarrow> fired (sources w s) | None \<Rightarrow> False)"

definition on_cancel :: "nat option \<Rightarrow> nat \<Rightarrow> registry \<Rightarrow> registry" where
  "on_cancel state c w =
     (case state of
        None \<Rightarrow> w
      | Some s \<Rightarrow>
          let w = w\<lparr>named := c # named w\<rparr> in
          if fired (sources w s) then call_callback c w
          else (link s c w)\<lparr>listed := (listed w)(s := listed w s @ [c])\<rparr>)"

text \<open>A cancel up to its loop, which a destructor calls too, and a turn of the loop.\<close>

definition cancel_source :: "nat \<Rightarrow> registry \<Rightarrow> registry" where
  "cancel_source s w =
     (if fired (sources w s) then w
      else (set_source s (\<lambda>r. r\<lparr>fired := True\<rparr>) w)\<lparr>calls := InCancel s # calls w\<rparr>)"

definition cancel_turn :: "nat \<Rightarrow> registry \<Rightarrow> registry" where
  "cancel_turn s w =
     (case callbacks (sources w s) of
        [] \<Rightarrow> w\<lparr>calls := tl (calls w)\<rparr>
      | c # _ \<Rightarrow> call_callback c (unlink s c w))"

section \<open>Runs\<close>

text \<open>Code runs where no call is under way, or in a callback.\<close>

definition in_code :: "registry \<Rightarrow> bool" where
  "in_code w \<longleftrightarrow> (case calls w of InCancel s # _ \<Rightarrow> False | _ \<Rightarrow> True)"

definition fresh_registry :: registry where
  "fresh_registry = \<lparr>sources = \<lambda>s. \<lparr>fired = False, callbacks = []\<rparr>, node_state = \<lambda>c. None, calls = [], named = [], started = [],
     listed = \<lambda>s. [], withdrawn = {}\<rparr>"

inductive source_step :: "registry \<Rightarrow> registry \<Rightarrow> bool" where
  register: "in_code w \<Longrightarrow> c \<notin> set (named w) \<Longrightarrow> source_step w (on_cancel state c w)"
| deregister: "in_code w \<Longrightarrow> source_step w (destroy_callback c w)"
| begin_cancel: "in_code w \<Longrightarrow> source_step w (cancel_source s w)"
| turn: "calls w = InCancel s # cs \<Longrightarrow> source_step w (cancel_turn s w)"
| finished: "calls w = InCallback c # cs \<Longrightarrow> source_step w (w\<lparr>calls := cs\<rparr>)"

section \<open>The invariant\<close>

abbreviation run_of :: "registry \<Rightarrow> nat \<Rightarrow> nat list" where
  "run_of w s \<equiv> filter (\<lambda>c. c \<in> set (listed w s)) (started w)"

abbreviation waiting :: "registry \<Rightarrow> nat \<Rightarrow> nat list" where
  "waiting w s \<equiv> callbacks (sources w s)"

abbreviation kept :: "registry \<Rightarrow> nat \<Rightarrow> nat list" where
  "kept w s \<equiv> filter (\<lambda>c. c \<notin> withdrawn w) (listed w s)"

definition names_ok :: "registry \<Rightarrow> bool" where
  "names_ok w \<longleftrightarrow> distinct (started w) \<and> set (started w) \<subseteq> set (named w) \<and> (\<forall>c\<in>withdrawn w. \<exists>s. c \<in> set (listed w s))
     \<and> (\<forall>s. distinct (listed w s) \<and> set (listed w s) \<subseteq> set (named w))
     \<and> (\<forall>s s' c. c \<in> set (listed w s) \<longrightarrow> c \<in> set (listed w s') \<longrightarrow> s = s')"

definition lists_ok :: "registry \<Rightarrow> bool" where
  "lists_ok w \<longleftrightarrow> (\<forall>s. run_of w s @ waiting w s = kept w s) \<and> (\<forall>c s. node_state w c = Some s \<longleftrightarrow> c \<in> set (waiting w s))"

definition firing_ok :: "registry \<Rightarrow> bool" where
  "firing_ok w \<longleftrightarrow> (\<forall>s. (\<not> fired (sources w s) \<longrightarrow> run_of w s = [] \<and> InCancel s \<notin> set (calls w))
     \<and> (fired (sources w s) \<longrightarrow> InCancel s \<notin> set (calls w) \<longrightarrow> waiting w s = []))"

definition cancel_inv :: "registry \<Rightarrow> bool" where
  "cancel_inv w \<longleftrightarrow> names_ok w \<and> lists_ok w \<and> firing_ok w"

lemmas inv_defs = cancel_inv_def names_ok_def lists_ok_def firing_ok_def

lemma waiting_listed:
  assumes "cancel_inv w" "c \<in> set (waiting w s)"
  shows "c \<in> set (listed w s)" "c \<notin> set (started w)" "c \<in> set (named w)" "s' \<noteq> s \<Longrightarrow> c \<notin> set (listed w s')" "c \<notin> withdrawn w"
proof -
  have eq: "run_of w s @ waiting w s = kept w s" and d: "distinct (listed w s)" using assms(1) by (auto simp: inv_defs)
  have "c \<in> set (kept w s)" using assms(2) by (metis Un_iff eq set_append)
  then show l: "c \<in> set (listed w s)" and "c \<notin> withdrawn w" by auto
  have "distinct (run_of w s @ waiting w s)" unfolding eq using d by simp
  with assms(2) l show "c \<notin> set (started w)" by auto
  show "c \<in> set (named w)" using l assms(1) by (auto simp: inv_defs)
  show "s' \<noteq> s \<Longrightarrow> c \<notin> set (listed w s')" using l assms(1) by (auto simp: inv_defs)
qed

lemma run_waiting: "cancel_inv w \<Longrightarrow> run_of w s @ waiting w s = kept w s"
  unfolding inv_defs by blast

lemma not_fired_waiting:
  assumes "cancel_inv w" "\<not> fired (sources w s)"
  shows "run_of w s = []" "waiting w s = kept w s"
proof -
  show "run_of w s = []" using assms unfolding inv_defs by blast
  then show "waiting w s = kept w s" using run_waiting [OF assms(1), of s] by (metis append_Nil)
qed

lemma fresh_inv: "cancel_inv fresh_registry"
  by (simp add: inv_defs fresh_registry_def)

lemma filter_new: "c \<notin> set xs \<Longrightarrow> filter (\<lambda>x. x = c \<or> P x) xs = filter P xs"
  by (induction xs) auto

lemma call_new_inv:
  assumes "cancel_inv w" "c \<notin> set (named w)"
  shows "cancel_inv (call_callback c (w\<lparr>named := c # named w\<rparr>))"
proof -
  have new: "c \<notin> set (started w)" "c \<notin> set (listed w s)" for s using assms by (auto simp: inv_defs)
  show ?thesis using assms new unfolding inv_defs call_callback_def by auto
qed

lemma link_new_inv:
  assumes "cancel_inv w" "c \<notin> set (named w)" "\<not> fired (sources w s)"
  shows "cancel_inv ((link s c (w\<lparr>named := c # named w\<rparr>))\<lparr>listed := (listed w)(s := listed w s @ [c])\<rparr>)"
proof -
  have new: "c \<notin> set (started w)" "c \<notin> set (listed w s')" "c \<notin> set (waiting w s')" for s'
    using assms waiting_listed(3) [OF assms(1)] by (auto simp: inv_defs)
  have "c \<notin> withdrawn w" using assms(1) new(2) unfolding inv_defs by blast
  moreover have "node_state w c \<noteq> Some s'" for s' using assms(1) new(3) by (auto simp: inv_defs)
  moreover note not_fired_waiting [OF assms(1,3)]
  ultimately show ?thesis
    using assms new unfolding inv_defs link_def set_source_def by (auto simp: filter_new) metis
qed

lemma on_cancel_inv:
  "cancel_inv w \<Longrightarrow> c \<notin> set (named w) \<Longrightarrow> cancel_inv (on_cancel state c w)"
  using call_new_inv link_new_inv by (cases state) (simp_all add: on_cancel_def Let_def)

lemma filter_remove1:
  "distinct xs \<Longrightarrow> filter (\<lambda>x. x \<noteq> c \<and> P x) xs = remove1 c (filter P xs)"
  by (induction xs) (auto simp: remove1_idem filter_id_conv intro: filter_cong)

lemma unlink_parts:
  assumes "cancel_inv w" "c \<in> set (waiting w s)"
  shows "distinct (waiting w s)" "waiting (unlink s c w) s' = (if s' = s then remove1 c (waiting w s) else waiting w s')"
    "node_state (unlink s c w) c' = Some s' \<longleftrightarrow> c' \<in> set (waiting (unlink s c w) s')"
proof -
  have "distinct (run_of w s @ waiting w s)" using assms(1) by (auto simp: inv_defs)
  then show d: "distinct (waiting w s)" by simp
  show eq: "waiting (unlink s c w) s' = (if s' = s then remove1 c (waiting w s) else waiting w s')"  for s'
    by (simp add: unlink_def set_source_def)
  have "c \<notin> set (waiting w s')" if "s' \<noteq> s"
    using assms that waiting_listed [OF assms(1)] by blast
  then show "node_state (unlink s c w) c' = Some s' \<longleftrightarrow> c' \<in> set (waiting (unlink s c w) s')"
    using assms(1) d unfolding eq by (auto simp: inv_defs unlink_def set_source_def)
qed

lemma destroy_callback_inv:
  assumes "cancel_inv w"
  shows "cancel_inv (destroy_callback c w)"
proof (cases "node_state w c")
  case (Some s)
  then have c: "c \<in> set (waiting w s)" using assms by (simp add: inv_defs)
  note w = waiting_listed [OF assms c] and parts = unlink_parts [OF assms c]
  let ?w = "(unlink s c w)\<lparr>withdrawn := insert c (withdrawn w)\<rparr>"
  have same: "listed ?w = listed w" "started ?w = started w" "named ?w = named w" "calls ?w = calls w"
    "fired (sources ?w s') = fired (sources w s')" for s' by (simp_all add: unlink_def set_source_def)
  have "run_of w s' @ waiting ?w s' = kept ?w s'" for s'
  proof -
    have "kept ?w s' = filter (\<lambda>x. x \<noteq> c \<and> x \<notin> withdrawn w) (listed w s')" by (simp add: same)
    also have "\<dots> = remove1 c (kept w s')" using assms by (intro filter_remove1) (simp add: inv_defs)
    also have "kept w s' = run_of w s' @ waiting w s'" using assms by (simp add: inv_defs)
    also have "remove1 c (run_of w s' @ waiting w s') = run_of w s' @ remove1 c (waiting w s')"
      using w(2) by (simp add: remove1_append)
    also have "remove1 c (waiting w s') = waiting ?w s'"
      using waiting_listed(1) [OF assms, of c s'] w(4) [of s'] parts(2) by (cases "s' = s") (auto intro: remove1_idem)
    finally show ?thesis by simp
  qed
  then have "lists_ok ?w" using parts(3) by (simp add: lists_ok_def same)
  moreover have "names_ok ?w" using assms w(1) unfolding inv_defs same by auto
  moreover have "waiting w s' = [] \<Longrightarrow> waiting ?w s' = []" for s' by (auto simp: parts(2))
  then have "firing_ok ?w" using assms unfolding cancel_inv_def firing_ok_def same by blast
  ultimately show ?thesis using Some by (simp add: destroy_callback_def cancel_inv_def)
qed (simp add: destroy_callback_def assms)

lemma cancel_source_inv:
  assumes "cancel_inv w"
  shows "cancel_inv (cancel_source s w)"
proof (cases "fired (sources w s)")
  case False
  with not_fired_waiting [OF assms False] assms show ?thesis
    by (auto simp: inv_defs cancel_source_def set_source_def)
qed (simp add: cancel_source_def assms)

lemma cancel_turn_inv:
  assumes "cancel_inv w" "calls w = InCancel s # cs"
  shows "cancel_inv (cancel_turn s w)"
proof (cases "waiting w s")
  case Nil
  then show ?thesis using assms by (auto simp: inv_defs cancel_turn_def)
next
  case (Cons c rest)
  then have c: "c \<in> set (waiting w s)" by simp
  note w = waiting_listed [OF assms(1) c] and parts = unlink_parts [OF assms(1) c]
  let ?w = "call_callback c (unlink s c w)"
  have same: "listed ?w = listed w" "started ?w = started w @ [c]" "named ?w = named w" "calls ?w = InCallback c # calls w"
    "withdrawn ?w = withdrawn w" "sources ?w = sources (unlink s c w)" "node_state ?w = node_state (unlink s c w)"
    "fired (sources (unlink s c w) s') = fired (sources w s')" for s' by (simp_all add: unlink_def set_source_def call_callback_def)
  have "run_of ?w s' @ waiting ?w s' = kept ?w s'" for s'
    using run_waiting [OF assms(1), of s'] w(1) w(4) [of s'] Cons by (cases "s' = s") (simp_all add: same parts(2))
  then have "lists_ok ?w" using parts(3) by (simp add: lists_ok_def same)
  moreover have "names_ok ?w" using assms(1) w(2,3) by (simp add: inv_defs same)
  moreover have "firing_ok ?w"
    using assms w(4) by (auto simp: cancel_inv_def firing_ok_def same parts(2))
  ultimately show ?thesis using Cons by (simp add: cancel_turn_def cancel_inv_def)
qed

lemma source_step_inv:
  assumes "cancel_inv w" "source_step w w'"
  shows "cancel_inv w'"
  using assms(2)
proof cases
  case (finished c cs)
  then show ?thesis using assms(1) by (auto simp: inv_defs)
qed (use assms(1) on_cancel_inv destroy_callback_inv cancel_source_inv cancel_turn_inv in auto)

interpretation source: kept_invariant "\<lambda>w. w = fresh_registry" source_step cancel_inv
  by unfold_locales (auto simp: fresh_inv intro: source_step_inv)

section \<open>Runs as a function\<close>

datatype move = Register "nat option" nat | Deregister nat | BeginCancel nat | Turn | Finish

fun make_move :: "move \<Rightarrow> registry \<Rightarrow> registry option" where
  "make_move (Register state c) w = (if in_code w \<and> c \<notin> set (named w) then Some (on_cancel state c w) else None)"
| "make_move (Deregister c) w = (if in_code w then Some (destroy_callback c w) else None)"
| "make_move (BeginCancel s) w = (if in_code w then Some (cancel_source s w) else None)"
| "make_move Turn w = (case calls w of InCancel s # _ \<Rightarrow> Some (cancel_turn s w) | _ \<Rightarrow> None)"
| "make_move Finish w = (case calls w of InCallback c # cs \<Rightarrow> Some (w\<lparr>calls := cs\<rparr>) | _ \<Rightarrow> None)"

fun make_moves :: "move list \<Rightarrow> registry \<Rightarrow> registry option" where
  "make_moves [] w = Some w"
| "make_moves (m # ms) w = (case make_move m w of Some w' \<Rightarrow> make_moves ms w' | None \<Rightarrow> None)"

lemma make_move_step: "make_move m w = Some w' \<Longrightarrow> source_step w w'"
  by (cases m) (auto intro: source_step.intros split: if_splits list.splits call.splits)

lemma make_moves_run: "make_moves ms w = Some w' \<Longrightarrow> source_step\<^sup>*\<^sup>* w w'"
  by (induction ms arbitrary: w)
    (auto split: option.splits intro: make_move_step converse_rtranclp_into_rtranclp)

section \<open>What callbacks are promised\<close>

lemma cancel_run_inv: "source_step\<^sup>*\<^sup>* fresh_registry w \<Longrightarrow> cancel_inv w"
  by (rule source.run_inv) auto

text \<open>
  C11: however callbacks cancel, register and deregister while a source cancels, a
  callback runs at most once, and not at all after its registration is gone; those a source lists run in
  the order they were registered, none before it fires, and all whose registrations stay once its cancel
  has returned.
\<close>

theorem callbacks_run_once:
  assumes "source_step\<^sup>*\<^sup>* fresh_registry w"
  shows "distinct (started w) \<and> set (started w) \<inter> withdrawn w = {}
     \<and> (\<forall>s. run_of w s @ waiting w s = kept w s \<and> (\<not> fired (sources w s) \<longrightarrow> run_of w s = [])
         \<and> (fired (sources w s) \<longrightarrow> InCancel s \<notin> set (calls w) \<longrightarrow> run_of w s = kept w s))"
proof -
  note inv = cancel_run_inv [OF assms]
  have "c \<notin> withdrawn w" if c: "c \<in> set (started w)" for c
  proof
    assume wd: "c \<in> withdrawn w"
    then obtain s where "c \<in> set (listed w s)" using inv unfolding inv_defs by blast
    with c have "c \<in> set (run_of w s)" by simp
    then have "c \<in> set (kept w s)" by (metis UnCI run_waiting [OF inv] set_append)
    with wd show False by simp
  qed
  moreover have "run_of w s = kept w s" if "fired (sources w s)" "InCancel s \<notin> set (calls w)" for s
  proof -
    have "waiting w s = []" using inv that unfolding inv_defs by blast
    with run_waiting [OF inv, of s] show ?thesis by (metis append_Nil2)
  qed
  moreover have "distinct (started w)" using inv by (simp add: inv_defs)
  ultimately show ?thesis using run_waiting [OF inv] not_fired_waiting(1) [OF inv] by blast
qed

definition sample_moves :: "move list" where
  "sample_moves = [Register (Some 0) 1, Register (Some 0) 2, Register (Some 0) 3, BeginCancel 0, Turn, Deregister 2,
     Register (Some 0) 4, Finish, Finish, Turn, Finish, Turn]"

theorem callbacks_run_once_witness:
  "run_of (the (make_moves sample_moves fresh_registry)) 0 = [1, 3]
   \<and> set (started (the (make_moves sample_moves fresh_registry))) \<inter> withdrawn (the (make_moves sample_moves fresh_registry)) = {}"
proof -
  obtain w where w: "make_moves sample_moves fresh_registry = Some w"
    by (simp add: sample_moves_def fresh_registry_def in_code_def on_cancel_def link_def set_source_def cancel_source_def
        cancel_turn_def call_callback_def unlink_def destroy_callback_def Let_def)
  from callbacks_run_once [OF make_moves_run [OF w]] have "set (started w) \<inter> withdrawn w = {}" by blast
  moreover have "run_of w 0 = [1, 3]"
    using w by (auto simp: sample_moves_def fresh_registry_def in_code_def on_cancel_def link_def set_source_def cancel_source_def
        cancel_turn_def call_callback_def unlink_def destroy_callback_def Let_def)
  ultimately show ?thesis by (simp add: w)
qed

end
