(* ===== verification/Opt_Table.thy ===== *)
theory Opt_Table
  imports Views "HOL-Library.List_Lexorder"
begin

text \<open>
  Option tables (\<^verbatim>\<open>include/kotatsu/cli/table\<close>, \<^verbatim>\<open>src/cli/table\<close>): the options of a
  command, how the parser matches an argument against them, and how it takes an argv apart. A view of
  the argv is its text; an element of the argv read as the rest of a group of short options is the argv
  with that element replaced. Indices count the elements of an argv, fewer than \<^verbatim>\<open>2 ^ 32\<close>.
\<close>

section \<open>Options\<close>

datatype OptionKind = Group | Input | Unknown | Flag | Joined | Separate | CommaJoined | MultiArg
  | JoinedOrSeparate | JoinedAndSeparate | RemainingArgs | RemainingArgsJoined

datatype RenderStyle = StyleCommaJoined | StyleJoined | StyleSeparate | StyleValues

definition RenderAsInput :: "32 word" where "RenderAsInput = 2"
definition RenderJoined :: "32 word" where "RenderJoined = 4"
definition RenderSeparate :: "32 word" where "RenderSeparate = 8"

text \<open>An option; its extra alias arguments are a list, and its texts for a usage are left out.\<close>

record Option =
  opt_prefixes :: "string list"
  prefixed_name :: string
  opt_id :: nat
  opt_kind :: OptionKind
  group_id :: nat
  alias_id :: nat
  alias_args :: "string list option"
  opt_flags :: "32 word"
  opt_visibility :: "32 word"
  num_args :: nat

definition has_no_prefix :: "Option \<Rightarrow> bool" where
  "has_no_prefix opt \<longleftrightarrow> length (opt_prefixes opt) = 0"

definition option_name :: "Option \<Rightarrow> string" where
  "option_name opt =
     (let prefix_length = (if has_no_prefix opt then 0 else length (hd (opt_prefixes opt)))
      in drop prefix_length (prefixed_name opt))"

definition unaliased_one :: "string list \<Rightarrow> string \<Rightarrow> nat \<Rightarrow> OptionKind \<Rightarrow> nat \<Rightarrow> nat \<Rightarrow> 32 word \<Rightarrow> 32 word \<Rightarrow> Option" where
  "unaliased_one prefixes name ident kind n grp flags vis =
     \<lparr>opt_prefixes = prefixes, prefixed_name = name, opt_id = ident, opt_kind = kind, group_id = grp, alias_id = 0,
      alias_args = None, opt_flags = flags, opt_visibility = vis, num_args = n\<rparr>"

definition unknown_option :: "nat \<Rightarrow> Option" where
  "unknown_option ident = unaliased_one [] ''<unknown>'' ident Unknown 0 0 0 1"

definition input_option :: "nat \<Rightarrow> Option" where
  "input_option ident = unaliased_one [] ''<input>'' ident Input 0 0 0 1"

definition alias_of :: "Option \<Rightarrow> nat \<Rightarrow> string list option \<Rightarrow> Option" where
  "alias_of opt origin_id origin_args = opt\<lparr>alias_args := origin_args, alias_id := origin_id mod 2 ^ 16\<rparr>"

record ParsedArg =
  pa_id :: nat
  pa_index :: nat
  next_index :: nat
  spelling :: string
  pa_values :: "string list"

definition cleared :: ParsedArg where
  "cleared = \<lparr>pa_id = 0, pa_index = 0, next_index = 0, spelling = [], pa_values = []\<rparr>"

definition add_value :: "ParsedArg \<Rightarrow> string \<Rightarrow> ParsedArg" where
  "add_value out v = out\<lparr>pa_values := pa_values out @ [v]\<rparr>"

section \<open>The table\<close>

record ParseOptions =
  grouped_short_options :: bool
  dash_dash_parsing :: bool
  dash_dash_packing :: bool
  greedy_unknown :: bool
  visibility :: "32 word"
  include_flags :: "32 word"
  exclude_flags :: "32 word"

definition default_options :: ParseOptions where
  "default_options = \<lparr>grouped_short_options = False, dash_dash_parsing = False, dash_dash_packing = False,
     greedy_unknown = False, visibility = - 1, include_flags = 0, exclude_flags = 0\<rparr>"

record OptTable =
  option_infos :: "Option list"
  prefixes_union :: "string list"
  prefix_chars :: "char list"
  input_option_id :: nat
  unknown_option_id :: nat
  first_searchable_index :: nat
  ignore_case :: bool
  tablegen_mode :: bool
  search_includes_input :: bool

text \<open>The constructor's loop over the options, then the prefixes, sets in order.\<close>

fun scan_infos :: "nat \<Rightarrow> bool \<Rightarrow> Option list \<Rightarrow> OptTable \<Rightarrow> OptTable" where
  "scan_infos i found [] t = t"
| "scan_infos i found (info # infos) t =
     (if opt_kind info = Input then scan_infos (i + 1) found infos (t\<lparr>input_option_id := opt_id info\<rparr>)
      else if opt_kind info = Unknown then scan_infos (i + 1) found infos (t\<lparr>unknown_option_id := opt_id info\<rparr>)
      else if opt_kind info \<noteq> Group \<and> \<not> found then scan_infos (i + 1) True infos (t\<lparr>first_searchable_index := i\<rparr>)
      else scan_infos (i + 1) found infos t)"

definition set_of :: "'a::linorder list \<Rightarrow> 'a list" where
  "set_of xs = remdups (sort xs)"

definition make_table :: "Option list \<Rightarrow> bool \<Rightarrow> string list \<Rightarrow> OptTable" where
  "make_table infos ignoring given =
     (let t = scan_infos 0 False infos
            \<lparr>option_infos = infos, prefixes_union = given, prefix_chars = [], input_option_id = 0, unknown_option_id = 0,
             first_searchable_index = 0, ignore_case = ignoring, tablegen_mode = False, search_includes_input = False\<rparr>;
          t = (if given = []
               then t\<lparr>prefixes_union := set_of (concat (map opt_prefixes (drop (first_searchable_index t) infos)))\<rparr> else t)
      in t\<lparr>prefix_chars := set_of (concat (prefixes_union t))\<rparr>)"

text \<open>A table for examples: a joined value, a separate one and two flags, in the order of their names.\<close>

definition sample_table :: OptTable where
  "sample_table = make_table [unknown_option 1, input_option 2, unaliased_one [''--''] ''--level='' 3 Joined 0 0 0 1,
     unaliased_one [''-''] ''-o'' 4 Separate 0 0 0 1, unaliased_one [''-''] ''-v'' 5 Flag 0 0 0 1, unaliased_one [''-''] ''-w'' 6 Flag 0 0 0 1] False []"

definition table_option :: "OptTable \<Rightarrow> nat \<Rightarrow> Option option" where
  "table_option t ident = (if ident = 0 then None else Some (option_infos t ! (ident - 1)))"

definition unaliased_option :: "OptTable \<Rightarrow> Option \<Rightarrow> Option" where
  "unaliased_option t opt = (case table_option t (alias_id opt) of Some als \<Rightarrow> als | None \<Rightarrow> opt)"

definition render_style :: "Option \<Rightarrow> RenderStyle" where
  "render_style opt =
     (if opt_flags opt AND RenderJoined \<noteq> 0 then StyleJoined
      else if opt_flags opt AND RenderSeparate \<noteq> 0 then StyleSeparate
      else case opt_kind opt of
        Group \<Rightarrow> StyleValues | Input \<Rightarrow> StyleValues | Unknown \<Rightarrow> StyleValues
      | Joined \<Rightarrow> StyleJoined | JoinedAndSeparate \<Rightarrow> StyleJoined
      | CommaJoined \<Rightarrow> StyleCommaJoined
      | _ \<Rightarrow> StyleSeparate)"

definition excludes :: "ParseOptions \<Rightarrow> Option \<Rightarrow> bool" where
  "excludes po opt \<longleftrightarrow> opt_visibility opt AND visibility po = 0
     \<or> include_flags po \<noteq> 0 \<and> opt_flags opt AND include_flags po = 0
     \<or> exclude_flags po \<noteq> 0 \<and> opt_flags opt AND exclude_flags po \<noteq> 0"

section \<open>Matching names\<close>

definition ltrim_all_of :: "string \<Rightarrow> char list \<Rightarrow> string" where
  "ltrim_all_of str prefixes = dropWhile (\<lambda>c. c \<in> set prefixes) str"

definition safe_tolower :: "char \<Rightarrow> char" where
  "safe_tolower c = (if between CHR ''A'' c CHR ''Z'' then to_char (uchar c + 32) else c)"

fun starts_with_insensitive :: "string \<Rightarrow> string \<Rightarrow> bool" where
  "starts_with_insensitive text [] = True"
| "starts_with_insensitive [] (p # prefix) = False"
| "starts_with_insensitive (c # text) (p # prefix) =
     (safe_tolower c = safe_tolower p \<and> starts_with_insensitive text prefix)"

section \<open>Accepting an argument\<close>

datatype AcceptResult = Matched | NoMatch | MissingValue

definition is_input :: "OptTable \<Rightarrow> string \<Rightarrow> bool" where
  "is_input t arg \<longleftrightarrow> arg = ''-'' \<or> \<not> list_ex (starts_with arg) (prefixes_union t)"

fun match_prefixes :: "string list \<Rightarrow> string \<Rightarrow> string \<Rightarrow> bool \<Rightarrow> nat" where
  "match_prefixes [] name str ignoring = 0"
| "match_prefixes (p # ps) name str ignoring =
     (if starts_with str p \<and> (if ignoring then starts_with_insensitive (drop (length p) str) name
          else starts_with (drop (length p) str) name)
      then length p + length name else match_prefixes ps name str ignoring)"

definition match_opt :: "Option \<Rightarrow> string \<Rightarrow> bool \<Rightarrow> nat" where
  "match_opt i str ignoring = match_prefixes (opt_prefixes i) (option_name i) str ignoring"

fun split_commas :: "string \<Rightarrow> string list" where
  "split_commas [] = [[]]"
| "split_commas (c # s) = (if c = CHR '','' then [] # split_commas s
     else case split_commas s of part # parts \<Rightarrow> (c # part) # parts | [] \<Rightarrow> [[c]])"

text \<open>
  A result, the index after it and what was parsed, as the code's reference arguments give them. The
  kinds no argument can match have no case in the code.
\<close>

definition accept_internal :: "Option \<Rightarrow> string list \<Rightarrow> string \<Rightarrow> nat \<Rightarrow> AcceptResult \<times> nat \<times> ParsedArg" where
  "accept_internal opt args spell index =
     (let spelling_sz = length spell; arg = args ! index; whole = (spelling_sz = length arg);
          rejected = cleared\<lparr>spelling := spell\<rparr>; out = rejected\<lparr>pa_index := index\<rparr>;
          separate = (if length args < index + 2 then (MissingValue, index + 2, out)
                      else (Matched, index + 2, add_value out (args ! (index + 1)))) in
      case opt_kind opt of
        Flag \<Rightarrow> if \<not> whole then (NoMatch, index, rejected) else (Matched, index + 1, out)
      | Joined \<Rightarrow> (Matched, index + 1, add_value out (drop spelling_sz arg))
      | CommaJoined \<Rightarrow> (Matched, index + 1, out\<lparr>pa_values := filter (\<lambda>part. part \<noteq> []) (split_commas (drop spelling_sz arg))\<rparr>)
      | Separate \<Rightarrow> if \<not> whole then (NoMatch, index, rejected) else separate
      | MultiArg \<Rightarrow>
          if \<not> whole then (NoMatch, index, rejected)
          else if length args < index + (1 + num_args opt) then (MissingValue, index + (1 + num_args opt), out)
          else (Matched, index + (1 + num_args opt), out\<lparr>pa_values := take (num_args opt) (drop (index + 1) args)\<rparr>)
      | JoinedOrSeparate \<Rightarrow>
          if \<not> whole then (Matched, index + 1, add_value out (drop spelling_sz arg)) else separate
      | JoinedAndSeparate \<Rightarrow>
          if length args < index + 2 then (MissingValue, index + 2, out)
          else (Matched, index + 2, add_value (add_value out (drop spelling_sz arg)) (args ! (index + 1)))
      | RemainingArgs \<Rightarrow>
          if \<not> whole then (NoMatch, index, rejected) else (Matched, length args, out\<lparr>pa_values := drop (index + 1) args\<rparr>)
      | RemainingArgsJoined \<Rightarrow>
          (Matched, length args, out\<lparr>pa_values := (if whole then [] else [drop spelling_sz arg]) @ drop (index + 1) args\<rparr>)
      | _ \<Rightarrow> (NoMatch, index, rejected))"

definition accept_opt :: "OptTable \<Rightarrow> Option \<Rightarrow> string list \<Rightarrow> string \<Rightarrow> bool \<Rightarrow> nat \<Rightarrow> AcceptResult \<times> nat \<times> ParsedArg" where
  "accept_opt t opt args spell grouped_short_option index =
     (case (if grouped_short_option \<and> opt_kind opt = Flag
            then (Matched, index, cleared\<lparr>spelling := spell, pa_index := index\<rparr>)
            else accept_internal opt args spell index) of
        (result, index, out) \<Rightarrow>
          if result \<noteq> Matched then (result, index, out)
          else let unaliased = unaliased_option t opt in
            if opt_id opt = opt_id unaliased then (Matched, index, out\<lparr>pa_id := opt_id opt\<rparr>)
            else let out = out\<lparr>pa_id := opt_id unaliased\<rparr> in
              if opt_kind opt \<noteq> Flag then (Matched, index, out)
              else let out = (case alias_args opt of Some vals \<Rightarrow> out\<lparr>pa_values := pa_values out @ vals\<rparr> | None \<Rightarrow> out);
                       out = (if opt_kind unaliased = Joined \<and> alias_args opt = None then add_value out [] else out)
                   in (Matched, index, out))"

section \<open>What a match takes\<close>

lemma starts_with_insensitive_length: "starts_with_insensitive s p \<Longrightarrow> length p \<le> length s"
  by (induction s p rule: starts_with_insensitive.induct) auto

lemma match_prefixes_length: "match_prefixes ps name str ignoring \<le> length str"
proof (induction ps)
  case (Cons p ps)
  have "length p + length name \<le> length str" if "starts_with str p" "length name \<le> length (drop (length p) str)"
    using that starts_with_length [of str p] by simp
  then show ?case
    using Cons by (auto dest: starts_with_insensitive_length starts_with_length)
qed simp

lemma match_opt_length: "match_opt i str ignoring \<le> length str"
  by (simp add: match_opt_def match_prefixes_length)

text \<open>The values an alias adds to a flag's.\<close>

definition alias_values :: "OptTable \<Rightarrow> Option \<Rightarrow> string list" where
  "alias_values t opt =
     (let unaliased = unaliased_option t opt in
      if opt_kind opt = Flag \<and> opt_id opt \<noteq> opt_id unaliased
      then case alias_args opt of Some vals \<Rightarrow> vals | None \<Rightarrow> if opt_kind unaliased = Joined then [[]] else []
      else [])"

text \<open>An option accepts within the argv, refuses in place, or misses a value past the end.\<close>

definition accept_range :: "string list \<Rightarrow> nat \<Rightarrow> AcceptResult \<times> nat \<times> ParsedArg \<Rightarrow> bool" where
  "accept_range args index r = (case r of (result, after, out) \<Rightarrow>
     case result of Matched \<Rightarrow> index < after \<and> after \<le> length args \<and> pa_index out = index
     | NoMatch \<Rightarrow> after = index
     | MissingValue \<Rightarrow> length args < after)"

lemma accept_internal_range:
  assumes "index < length args"
  shows "accept_range args index (accept_internal opt args spell index)"
  using assms by (cases "opt_kind opt")
    (simp_all add: accept_internal_def accept_range_def Let_def cleared_def add_value_def)

lemma accept_opt_eq:
  "accept_opt t opt args spell False index =
     (case accept_internal opt args spell index of (result, after, out) \<Rightarrow>
        if result = Matched
        then (Matched, after,
          out\<lparr>pa_id := opt_id (unaliased_option t opt), pa_values := pa_values out @ alias_values t opt\<rparr>)
        else (result, after, out))"
proof (cases "accept_internal opt args spell index")
  case (fields result after out)
  then show ?thesis
    by (cases out) (auto simp: accept_opt_def alias_values_def add_value_def Let_def split: option.splits)
qed

lemma accept_opt_range:
  assumes "index < length args"
  shows "accept_range args index (accept_opt t opt args spell False index)"
  using accept_internal_range [OF assms, of opt spell]
  by (auto simp: accept_opt_eq accept_range_def split: prod.splits AcceptResult.splits)

text \<open>The elements of an argv from one index to another, and their text.\<close>

definition argv_slice :: "string list \<Rightarrow> nat \<Rightarrow> nat \<Rightarrow> string list" where
  "argv_slice args i j = take (j - i) (drop i args)"

definition arg_text :: "ParsedArg \<Rightarrow> string" where
  "arg_text a = spelling a @ concat (pa_values a)"

definition without_commas :: "string \<Rightarrow> string" where
  "without_commas s = filter (\<lambda>c. c \<noteq> CHR '','') s"

lemma argv_slice_one: "i < length args \<Longrightarrow> argv_slice args i (Suc i) = [args ! i]"
  by (simp add: argv_slice_def take_Suc_conv_app_nth)

lemma argv_slice_cons: "i < length args \<Longrightarrow> i < j \<Longrightarrow> argv_slice args i j = args ! i # argv_slice args (Suc i) j"
  unfolding argv_slice_def by (metis Cons_nth_drop_Suc Suc_diff_Suc take_Suc_Cons)

lemma argv_slice_append: "i \<le> j \<Longrightarrow> j \<le> k \<Longrightarrow> argv_slice args i j @ argv_slice args j k = argv_slice args i k"
  using take_add [of "j - i" "k - j" "drop i args"] by (simp add: argv_slice_def)

lemma argv_slice_empty [simp]: "argv_slice args i i = []"
  by (simp add: argv_slice_def)

lemma argv_slice_end [simp]: "argv_slice args i (length args) = drop i args"
  by (simp add: argv_slice_def)

lemma without_commas_append [simp]: "without_commas (s @ t) = without_commas s @ without_commas t"
  by (simp add: without_commas_def)

lemma split_commas_not_Nil [simp]: "split_commas s \<noteq> []"
  by (induction s) (auto split: list.splits)

lemma concat_split_commas: "concat (split_commas s) = without_commas s"
  by (induction s) (auto simp: without_commas_def split: list.splits)

lemma concat_filter_not_Nil: "concat (filter (\<lambda>x. x \<noteq> []) xs) = concat xs"
  by (induction xs) auto

lemma without_commas_idem [simp]: "without_commas (without_commas s) = without_commas s"
  by (simp add: without_commas_def)

lemma accept_internal_text:
  assumes "index < length args" "n \<le> length (args ! index)"
    and "accept_internal opt args (take n (args ! index)) index = (Matched, after, out)"
  shows "without_commas (arg_text out) = without_commas (concat (argv_slice args index after))"
    and "opt_kind opt \<noteq> CommaJoined \<Longrightarrow> arg_text out = concat (argv_slice args index after)"
proof -
  have exact: "arg_text out = concat (argv_slice args index after)" if "opt_kind opt \<noteq> CommaJoined"
    using assms that unfolding accept_internal_def Let_def
    by (cases "opt_kind opt")
      (auto simp: arg_text_def cleared_def add_value_def argv_slice_cons argv_slice_def [of _ "Suc index"] take_Suc_conv_app_nth append_assoc [symmetric]
        simp del: append_assoc split: if_splits)
  then show "opt_kind opt \<noteq> CommaJoined \<Longrightarrow> arg_text out = concat (argv_slice args index after)" .
  show "without_commas (arg_text out) = without_commas (concat (argv_slice args index after))"
  proof (cases "opt_kind opt = CommaJoined")
    case True
    have "without_commas (args ! index) = without_commas (take n (args ! index)) @ without_commas (drop n (args ! index))"
      by (simp flip: without_commas_append)
    with True assms show ?thesis unfolding accept_internal_def Let_def
      by (auto simp: arg_text_def cleared_def argv_slice_one concat_filter_not_Nil concat_split_commas)
  qed (use exact in simp)
qed

end
