(* ===== verification/Opt_Scan.thy ===== *)
theory Opt_Scan
  imports Opt_Table
begin

text \<open>
  The search of an option table for the option an argument names (\<^verbatim>\<open>scan_and_accept\<close> of
  \<^verbatim>\<open>src/cli/table/table.cc\<close>): the longest match of all options, or, where the options are
  sorted by name, the first match from where a binary search ends.
\<close>

section \<open>Comparing names\<close>

text \<open>Whether \<^verbatim>\<open>char\<close> is signed is an argument.\<close>

definition char_value :: "bool \<Rightarrow> char \<Rightarrow> int" where
  "char_value sgn_char c = (if sgn_char \<and> 128 \<le> uchar c then int (uchar c) - 256 else int (uchar c))"

fun compare_insensitive :: "bool \<Rightarrow> string \<Rightarrow> string \<Rightarrow> int" where
  "compare_insensitive sgn_char [] [] = 0"
| "compare_insensitive sgn_char [] (b # t) = -1"
| "compare_insensitive sgn_char (a # s) [] = 1"
| "compare_insensitive sgn_char (a # s) (b # t) =
     (if safe_tolower a = safe_tolower b then compare_insensitive sgn_char s t
      else if char_value sgn_char (safe_tolower a) < char_value sgn_char (safe_tolower b) then -1 else 1)"

text \<open>
  \<^verbatim>\<open>str_cmp_opt_name\<close> without its case-sensitive fallback, which nothing asks for: a name sorts
  after the names it is a prefix of.
\<close>

definition str_cmp_opt_name :: "bool \<Rightarrow> string \<Rightarrow> string \<Rightarrow> int" where
  "str_cmp_opt_name sgn_char a b =
     (let min_sz = min (length a) (length b); res = compare_insensitive sgn_char (take min_sz a) (take min_sz b) in
      if res \<noteq> 0 then res else if length a = length b then 0 else if length a = min_sz then 1 else -1)"

definition opt_name_less :: "bool \<Rightarrow> Option \<Rightarrow> string \<Rightarrow> bool" where
  "opt_name_less sgn_char i name \<longleftrightarrow> str_cmp_opt_name sgn_char (option_name i) name < 0"

text \<open>\<^verbatim>\<open>std::lower_bound\<close> on the elements from \<^verbatim>\<open>first\<close>, \<^verbatim>\<open>count\<close> of them.\<close>

function lower_bound :: "('a \<Rightarrow> bool) \<Rightarrow> 'a list \<Rightarrow> nat \<Rightarrow> nat \<Rightarrow> nat" where
  "lower_bound below xs first count =
     (if count = 0 then first
      else let step = count div 2; it = first + step in
        if below (xs ! it) then lower_bound below xs (it + 1) (count - (step + 1))
        else lower_bound below xs first step)"
  by pat_completeness auto
termination
  by (relation "measure (\<lambda>(below, xs, first, count). count)") auto

declare lower_bound.simps [simp del]

section \<open>Scanning the options\<close>

definition search_range :: "OptTable \<Rightarrow> Option list" where
  "search_range t = drop (if search_includes_input t then 0 else first_searchable_index t) (option_infos t)"

record ScanResult =
  sr_result :: AcceptResult
  sr_out :: ParsedArg
  sr_new_index :: nat
  fallback_flag :: "Option option"

text \<open>The locals of the scan: its result so far, and the best match and the best that misses a value.\<close>

record scan_state =
  found :: ScanResult
  best_match_size :: nat
  best_index :: nat
  missing_match_size :: nat
  missing_index :: nat

definition scan_end :: "nat \<Rightarrow> scan_state \<Rightarrow> ScanResult" where
  "scan_end index s =
     (if 0 < best_match_size s then (found s)\<lparr>sr_result := Matched, sr_new_index := best_index s\<rparr>
      else if missing_match_size s \<noteq> 0
      then (found s)\<lparr>sr_result := MissingValue, sr_out := (sr_out (found s))\<lparr>pa_index := index\<rparr>, sr_new_index := missing_index s\<rparr>
      else found s)"

fun scan_loop :: "OptTable \<Rightarrow> string list \<Rightarrow> nat \<Rightarrow> bool \<Rightarrow> ParseOptions \<Rightarrow> Option list \<Rightarrow> scan_state \<Rightarrow> ScanResult" where
  "scan_loop t args index first_match po [] s = scan_end index s"
| "scan_loop t args index first_match po (it # its) s =
     (let arg_sz = match_opt it (args ! index) (ignore_case t) in
      if arg_sz = 0 \<or> excludes po it then scan_loop t args index first_match po its s
      else case accept_opt t it args (take arg_sz (args ! index)) False index of
        (a, try_index, try_out) \<Rightarrow>
          if a = Matched
          then if first_match then (found s)\<lparr>sr_result := Matched, sr_out := try_out, sr_new_index := try_index\<rparr>
               else scan_loop t args index first_match po its
                 (if best_match_size s < arg_sz
                  then s\<lparr>found := (found s)\<lparr>sr_out := try_out\<rparr>, best_match_size := arg_sz, best_index := try_index\<rparr> else s)
          else let s = (if arg_sz = 2 \<and> opt_kind it = Flag then s\<lparr>found := (found s)\<lparr>fallback_flag := Some it\<rparr>\<rparr> else s) in
            if try_index \<noteq> index
            then if first_match
                 then (found s)\<lparr>sr_result := MissingValue, sr_out := (sr_out (found s))\<lparr>pa_index := index\<rparr>, sr_new_index := try_index\<rparr>
                 else scan_loop t args index first_match po its
                   (if missing_match_size s < arg_sz then s\<lparr>missing_index := try_index, missing_match_size := arg_sz\<rparr> else s)
            else scan_loop t args index first_match po its s)"

definition scan_start :: "nat \<Rightarrow> scan_state" where
  "scan_start index = \<lparr>found = \<lparr>sr_result = NoMatch, sr_out = cleared, sr_new_index = 0, fallback_flag = None\<rparr>,
     best_match_size = 0, best_index = index, missing_match_size = 0, missing_index = index\<rparr>"

definition scan_and_accept :: "bool \<Rightarrow> OptTable \<Rightarrow> Option list \<Rightarrow> string list \<Rightarrow> nat \<Rightarrow> bool \<Rightarrow> ParseOptions \<Rightarrow> ScanResult" where
  "scan_and_accept sgn_char t opts args index first_match po =
     (let begin = (if tablegen_mode t
                   then lower_bound (\<lambda>i. opt_name_less sgn_char i (ltrim_all_of (args ! index) (prefix_chars t))) opts 0 (length opts)
                   else 0)
      in scan_loop t args index first_match po (drop begin opts) (scan_start index))"

section \<open>What a scan finds\<close>

text \<open>How much of an element an option matches.\<close>

definition match_size :: "OptTable \<Rightarrow> string list \<Rightarrow> nat \<Rightarrow> Option \<Rightarrow> nat" where
  "match_size t args index opt = match_opt opt (args ! index) (ignore_case t)"

text \<open>An option that takes part in the scan of an element, and what it makes of it.\<close>

definition eligible :: "OptTable \<Rightarrow> string list \<Rightarrow> nat \<Rightarrow> ParseOptions \<Rightarrow> Option \<Rightarrow> bool" where
  "eligible t args index po opt \<longleftrightarrow> match_size t args index opt \<noteq> 0 \<and> \<not> excludes po opt"

definition attempt :: "OptTable \<Rightarrow> string list \<Rightarrow> nat \<Rightarrow> Option \<Rightarrow> AcceptResult \<times> nat \<times> ParsedArg" where
  "attempt t args index opt = accept_opt t opt args (take (match_size t args index opt) (args ! index)) False index"

definition accepts :: "OptTable \<Rightarrow> string list \<Rightarrow> nat \<Rightarrow> ParseOptions \<Rightarrow> Option \<Rightarrow> bool" where
  "accepts t args index po opt \<longleftrightarrow> eligible t args index po opt \<and> fst (attempt t args index opt) = Matched"

definition misses :: "OptTable \<Rightarrow> string list \<Rightarrow> nat \<Rightarrow> ParseOptions \<Rightarrow> Option \<Rightarrow> bool" where
  "misses t args index po opt \<longleftrightarrow> eligible t args index po opt \<and> fst (attempt t args index opt) = MissingValue"

text \<open>The option a search for the longest match means: the first of the longest.\<close>

definition is_longest :: "OptTable \<Rightarrow> string list \<Rightarrow> nat \<Rightarrow> ParseOptions \<Rightarrow> Option list \<Rightarrow> nat \<Rightarrow> bool" where
  "is_longest t args index po opts i \<longleftrightarrow> i < length opts \<and> accepts t args index po (opts ! i)
     \<and> (\<forall>j<length opts. accepts t args index po (opts ! j) \<longrightarrow>
          match_size t args index (opts ! j) \<le> match_size t args index (opts ! i)
          \<and> (j < i \<longrightarrow> match_size t args index (opts ! j) < match_size t args index (opts ! i)))"

lemma attempt_range: "index < length args \<Longrightarrow> accept_range args index (attempt t args index opt)"
  by (simp add: attempt_def accept_opt_range)

lemma attempt_cases:
  assumes "index < length args"
  obtains (matched) after out where "attempt t args index opt = (Matched, after, out)" "index < after" "after \<le> length args"
      "pa_index out = index"
    | (missing) after out where "attempt t args index opt = (MissingValue, after, out)" "length args < after"
    | (refused) out where "attempt t args index opt = (NoMatch, index, out)"
  using attempt_range [OF assms, of t opt]
  by (cases "attempt t args index opt") (auto simp: accept_range_def split: AcceptResult.splits)

text \<open>The step of the loop over these.\<close>

lemma scan_loop_step:
  assumes "index < length args"
  shows "scan_loop t args index first_match po (it # its) s =
     (if \<not> eligible t args index po it then scan_loop t args index first_match po its s
      else let sz = match_size t args index it in
        case attempt t args index it of (a, try_index, try_out) \<Rightarrow>
          case a of
            Matched \<Rightarrow> if first_match then (found s)\<lparr>sr_result := Matched, sr_out := try_out, sr_new_index := try_index\<rparr>
              else scan_loop t args index first_match po its
                (if best_match_size s < sz
                 then s\<lparr>found := (found s)\<lparr>sr_out := try_out\<rparr>, best_match_size := sz, best_index := try_index\<rparr> else s)
          | MissingValue \<Rightarrow>
              let s = (if sz = 2 \<and> opt_kind it = Flag then s\<lparr>found := (found s)\<lparr>fallback_flag := Some it\<rparr>\<rparr> else s) in
              if first_match
              then (found s)\<lparr>sr_result := MissingValue, sr_out := (sr_out (found s))\<lparr>pa_index := index\<rparr>, sr_new_index := try_index\<rparr>
              else scan_loop t args index first_match po its
                (if missing_match_size s < sz then s\<lparr>missing_index := try_index, missing_match_size := sz\<rparr> else s)
          | NoMatch \<Rightarrow> scan_loop t args index first_match po its
              (if sz = 2 \<and> opt_kind it = Flag then s\<lparr>found := (found s)\<lparr>fallback_flag := Some it\<rparr>\<rparr> else s))"
  using assms
  by (cases rule: attempt_cases [OF assms, of t it])
    (auto simp: eligible_def match_size_def attempt_def Let_def)

declare scan_loop.simps(2) [simp del]

lemma is_longest_here:
  assumes "accepts t args index po it"
    and "\<And>x. x \<in> set its \<Longrightarrow> accepts t args index po x \<Longrightarrow> match_size t args index x \<le> match_size t args index it"
  shows "is_longest t args index po (it # its) 0"
  using assms by (auto simp: is_longest_def less_Suc_eq_0_disj)

lemma is_longest_later:
  assumes "is_longest t args index po its i"
    and "accepts t args index po it \<Longrightarrow> match_size t args index it < match_size t args index (its ! i)"
  shows "is_longest t args index po (it # its) (Suc i)"
  using assms by (auto simp: is_longest_def less_Suc_eq_0_disj)

text \<open>The result of a longest-match loop that starts with a best match so far.\<close>

definition longest_from :: "OptTable \<Rightarrow> string list \<Rightarrow> nat \<Rightarrow> ParseOptions \<Rightarrow> Option list \<Rightarrow> scan_state \<Rightarrow> ScanResult \<Rightarrow> bool" where
  "longest_from t args index po its s r \<longleftrightarrow>
     (if \<exists>x\<in>set its. accepts t args index po x \<and> best_match_size s < match_size t args index x
      then \<exists>i. is_longest t args index po its i \<and> best_match_size s < match_size t args index (its ! i)
        \<and> attempt t args index (its ! i) = (Matched, sr_new_index r, sr_out r) \<and> sr_result r = Matched
      else if 0 < best_match_size s
      then sr_result r = Matched \<and> sr_new_index r = best_index s \<and> sr_out r = sr_out (found s)
      else sr_result r \<noteq> Matched)"

lemma longest_from_cong:
  assumes "best_match_size s = best_match_size s'" "best_index s = best_index s'" "sr_out (found s) = sr_out (found s')"
  shows "longest_from t args index po its s r \<longleftrightarrow> longest_from t args index po its s' r"
  by (simp only: longest_from_def assms)

lemma longest_from_skip:
  assumes "longest_from t args index po its s r"
    and "accepts t args index po it \<Longrightarrow> match_size t args index it \<le> best_match_size s"
  shows "longest_from t args index po (it # its) s r"
proof (cases "\<exists>x\<in>set its. accepts t args index po x \<and> best_match_size s < match_size t args index x")
  case True
  with assms(1) obtain i where i: "is_longest t args index po its i" "best_match_size s < match_size t args index (its ! i)"
    "attempt t args index (its ! i) = (Matched, sr_new_index r, sr_out r)" "sr_result r = Matched"
    unfolding longest_from_def by (auto simp only: if_True)
  have "is_longest t args index po (it # its) (Suc i)"
    by (rule is_longest_later [OF i(1)]) (use assms(2) i(2) in simp)
  with True i show ?thesis unfolding longest_from_def by (auto intro!: exI [of _ "Suc i"])
next
  case False
  with assms show ?thesis unfolding longest_from_def by (auto simp: not_le split: if_splits)
qed

lemma longest_from_better:
  assumes "longest_from t args index po its s' r" "attempt t args index it = (Matched, best_index s', sr_out (found s'))"
    and "accepts t args index po it" "best_match_size s < match_size t args index it"
    and "best_match_size s' = match_size t args index it"
  shows "longest_from t args index po (it # its) s r"
proof (cases "\<exists>x\<in>set its. accepts t args index po x \<and> best_match_size s' < match_size t args index x")
  case True
  with assms(1) obtain i where i: "is_longest t args index po its i" "best_match_size s' < match_size t args index (its ! i)"
    "attempt t args index (its ! i) = (Matched, sr_new_index r, sr_out r)" "sr_result r = Matched"
    unfolding longest_from_def by (auto simp only: if_True)
  have "is_longest t args index po (it # its) (Suc i)"
    by (rule is_longest_later [OF i(1)]) (use assms(5) i(2) in simp)
  with i assms(3-5) show ?thesis unfolding longest_from_def by (auto intro!: exI [of _ "Suc i"])
next
  case False
  have "is_longest t args index po (it # its) 0"
    by (rule is_longest_here [OF assms(3)]) (use False assms(5) in \<open>auto simp: not_less\<close>)
  with False assms show ?thesis unfolding longest_from_def by (auto intro!: exI [of _ 0])
qed

lemma scan_loop_longest:
  assumes "index < length args" "sr_result (found s) = NoMatch"
  shows "longest_from t args index po its s (scan_loop t args index False po its s)"
  using assms(2)
proof (induction its arbitrary: s)
  case Nil
  then show ?case by (auto simp: longest_from_def scan_end_def)
next
  case (Cons it its)
  note step = scan_loop_step [OF assms(1), of t False po it its s]
  show ?case
  proof (cases "accepts t args index po it \<and> best_match_size s < match_size t args index it")
    case True
    then obtain after out where att: "attempt t args index it = (Matched, after, out)" and el: "eligible t args index po it"
      by (cases "attempt t args index it") (auto simp: accepts_def)
    let ?s = "s\<lparr>found := (found s)\<lparr>sr_out := out\<rparr>, best_match_size := match_size t args index it, best_index := after\<rparr>"
    have "scan_loop t args index False po (it # its) s = scan_loop t args index False po its ?s"
      using step att el True by (simp add: Let_def)
    with Cons.IH [of ?s] Cons.prems True att show ?thesis
      by (auto intro!: longest_from_better [where s' = ?s])
  next
    case False
    obtain s' where eq: "scan_loop t args index False po (it # its) s = scan_loop t args index False po its s'"
      and s': "best_match_size s' = best_match_size s" "best_index s' = best_index s" "sr_out (found s') = sr_out (found s)"
        "sr_result (found s') = sr_result (found s)"
      using step False
      by (cases rule: attempt_cases [OF assms(1), of t it])
        (auto simp: accepts_def Let_def split: if_splits)
    from Cons.IH [of s'] Cons.prems s' have "longest_from t args index po its s (scan_loop t args index False po (it # its) s)"
      unfolding eq by (simp add: longest_from_cong [of s' s])
    then show ?thesis by (rule longest_from_skip) (use False in auto)
  qed
qed

text \<open>A first-match loop stops at the first option that accepts or misses a value.\<close>

definition first_from :: "OptTable \<Rightarrow> string list \<Rightarrow> nat \<Rightarrow> ParseOptions \<Rightarrow> Option list \<Rightarrow> ScanResult \<Rightarrow> bool" where
  "first_from t args index po its r \<longleftrightarrow>
     (case dropWhile (\<lambda>x. \<not> accepts t args index po x \<and> \<not> misses t args index po x) its of
        [] \<Rightarrow> sr_result r = NoMatch
      | x # _ \<Rightarrow> if accepts t args index po x then attempt t args index x = (Matched, sr_new_index r, sr_out r) \<and> sr_result r = Matched
          else sr_result r = MissingValue)"

lemma scan_loop_first:
  assumes "index < length args" "sr_result (found s) = NoMatch" "best_match_size s = 0" "missing_match_size s = 0"
  shows "first_from t args index po its (scan_loop t args index True po its s)"
  using assms(2-)
proof (induction its arbitrary: s)
  case Nil
  then show ?case by (simp add: first_from_def scan_end_def)
next
  case (Cons it its)
  note step = scan_loop_step [OF assms(1), of t True po it its s]
  show ?case
  proof (cases "accepts t args index po it \<or> misses t args index po it")
    case True
    then show ?thesis
      by (cases rule: attempt_cases [OF assms(1), of t it])
        (auto simp: first_from_def step accepts_def misses_def Let_def)
  next
    case False
    obtain s' where eq: "scan_loop t args index True po (it # its) s = scan_loop t args index True po its s'"
      and s': "best_match_size s' = best_match_size s" "missing_match_size s' = missing_match_size s"
        "sr_result (found s') = sr_result (found s)"
      using step False
      by (cases rule: attempt_cases [OF assms(1), of t it])
        (auto simp: accepts_def misses_def Let_def split: if_splits)
    from Cons.IH [of s'] Cons.prems s' False show ?thesis by (simp add: eq first_from_def)
  qed
qed

text \<open>Options that all refuse the element leave the last flag of two characters that starts it.\<close>

definition starts_group :: "OptTable \<Rightarrow> string list \<Rightarrow> nat \<Rightarrow> ParseOptions \<Rightarrow> Option \<Rightarrow> bool" where
  "starts_group t args index po x \<longleftrightarrow> eligible t args index po x \<and> match_size t args index x = 2 \<and> opt_kind x = Flag"

lemma scan_loop_refused:
  assumes "index < length args" "\<forall>x\<in>set its. \<not> accepts t args index po x \<and> \<not> misses t args index po x"
    and "best_match_size s = 0" "missing_match_size s = 0"
  shows "scan_loop t args index first_match po its s =
    (case filter (starts_group t args index po) its of [] \<Rightarrow> found s | xs \<Rightarrow> (found s)\<lparr>fallback_flag := Some (last xs)\<rparr>)"
  using assms(2-)
proof (induction its arbitrary: s)
  case Nil
  then show ?case by (simp add: scan_end_def)
next
  case (Cons it its)
  show ?case
  proof (cases "eligible t args index po it")
    case True
    with Cons.prems(1) obtain out where att: "attempt t args index it = (NoMatch, index, out)"
      by (cases rule: attempt_cases [OF assms(1), of t it]) (auto simp: accepts_def misses_def)
    let ?s = "if match_size t args index it = 2 \<and> opt_kind it = Flag then s\<lparr>found := (found s)\<lparr>fallback_flag := Some it\<rparr>\<rparr> else s"
    have "scan_loop t args index first_match po (it # its) s = scan_loop t args index first_match po its ?s"
      using True att by (simp add: scan_loop_step [OF assms(1)] Let_def)
    then show ?thesis
      using Cons.IH [of ?s] Cons.prems True by (auto simp: starts_group_def split: list.splits)
  next
    case False
    then show ?thesis
      using Cons.IH [of s] Cons.prems by (simp add: scan_loop_step [OF assms(1)] starts_group_def)
  qed
qed

lemma first_from_no_match:
  "first_from t args index po its r \<Longrightarrow>
   sr_result r = NoMatch \<longleftrightarrow> (\<forall>x\<in>set its. \<not> accepts t args index po x \<and> \<not> misses t args index po x)"
  unfolding first_from_def dropWhile_eq_Nil_conv [symmetric] by (auto simp del: dropWhile_eq_Nil_conv split: list.split_asm if_split_asm)

section \<open>Sorted tables\<close>

lemma str_cmp_opt_name_simps [simp]:
  "str_cmp_opt_name sg [] [] = 0"
  "str_cmp_opt_name sg [] (b # t) = 1"
  "str_cmp_opt_name sg (a # s) [] = -1"
  "str_cmp_opt_name sg (a # s) (b # t) =
     (if safe_tolower a = safe_tolower b then str_cmp_opt_name sg s t
      else if char_value sg (safe_tolower a) < char_value sg (safe_tolower b) then -1 else 1)"
  by (auto simp: str_cmp_opt_name_def Let_def min_def)

lemma char_value_inj: "char_value sg a = char_value sg b \<longleftrightarrow> a = b"
proof
  assume eq: "char_value sg a = char_value sg b"
  have "x = y" if "x < 256" "y < 256"
    "(if sg \<and> 128 \<le> x then int x - 256 else int x) = (if sg \<and> 128 \<le> y then int y - 256 else int y)" for x y :: nat
    using that by (auto split: if_splits)
  from this [of "uchar a" "uchar b"] eq have "uchar a = uchar b" by (simp add: char_value_def)
  then show "a = b" by simp
qed simp

lemma str_cmp_opt_name_trans:
  "str_cmp_opt_name sg a b \<le> 0 \<Longrightarrow> str_cmp_opt_name sg b c < 0 \<Longrightarrow> str_cmp_opt_name sg a c < 0"
proof (induction a arbitrary: b c)
  case Nil
  then show ?case by (cases b) auto
next
  case (Cons x a)
  then obtain y b' where b: "b = y # b'" by (cases b; cases c) auto
  show ?case
  proof (cases c)
    case (Cons z c')
    with Cons.prems Cons.IH [of b' c'] b char_value_inj [of sg "safe_tolower x" "safe_tolower z"]
    show ?thesis by (auto split: if_splits)
  qed simp
qed

text \<open>\<^verbatim>\<open>std::lower_bound\<close> ends between the elements that are below and the others.\<close>

definition parts_at :: "('a \<Rightarrow> bool) \<Rightarrow> 'a list \<Rightarrow> nat \<Rightarrow> bool" where
  "parts_at below xs k \<longleftrightarrow> k \<le> length xs \<and> (\<forall>i<k. below (xs ! i)) \<and> (\<forall>i. k \<le> i \<longrightarrow> i < length xs \<longrightarrow> \<not> below (xs ! i))"

lemma lower_bound_parts:
  assumes mono: "\<And>i j. i \<le> j \<Longrightarrow> j < length xs \<Longrightarrow> below (xs ! j) \<Longrightarrow> below (xs ! i)"
    and "\<And>i. i < first \<Longrightarrow> below (xs ! i)" "\<And>i. first + count \<le> i \<Longrightarrow> i < length xs \<Longrightarrow> \<not> below (xs ! i)"
    and "first + count \<le> length xs"
  shows "parts_at below xs (lower_bound below xs first count)"
  using assms(2-)
proof (induction count arbitrary: first rule: less_induct)
  case (less count)
  let ?it = "first + count div 2"
  show ?case
  proof (cases "count = 0")
    case True
    with less.prems show ?thesis by (simp add: lower_bound.simps [of below xs first] parts_at_def)
  next
    case False
    then have it: "?it < length xs" using less.prems(3) by linarith
    show ?thesis
    proof (cases "below (xs ! ?it)")
      case True
      then have "parts_at below xs (lower_bound below xs (?it + 1) (count - (count div 2 + 1)))"
        using False it mono [of _ ?it] less.prems by (intro less.IH) auto
      with True False show ?thesis by (simp add: lower_bound.simps [of below xs first] Let_def)
    next
      case above: False
      then have "parts_at below xs (lower_bound below xs first (count div 2))"
        using False it mono [of ?it] less.prems by (intro less.IH) auto
      with above False show ?thesis by (simp add: lower_bound.simps [of below xs first] Let_def)
    qed
  qed
qed

text \<open>
  The tables the binary search is for: sorted by name, at most one name empty, prefixes made of the
  table's prefix characters, and no name that starts with one.
\<close>

definition opt_before :: "bool \<Rightarrow> Option \<Rightarrow> Option \<Rightarrow> bool" where
  "opt_before sg a b \<longleftrightarrow> str_cmp_opt_name sg (option_name a) (option_name b) \<le> 0 \<and> (option_name a \<noteq> [] \<or> option_name b \<noteq> [])"

definition plain_names :: "OptTable \<Rightarrow> Option list \<Rightarrow> bool" where
  "plain_names t opts \<longleftrightarrow> list_all (\<lambda>opt. list_all (\<lambda>p. set p \<subseteq> set (prefix_chars t)) (opt_prefixes opt)
     \<and> (option_name opt \<noteq> [] \<longrightarrow> safe_tolower (hd (option_name opt)) \<notin> set (map safe_tolower (prefix_chars t)))) opts"

lemma starts_with_insensitive_iff:
  "starts_with_insensitive s p \<longleftrightarrow> map safe_tolower (take (length p) s) = map safe_tolower p"
  by (induction s p rule: starts_with_insensitive.induct) auto

lemma match_prefixes_found:
  assumes "match_prefixes ps name str ignoring \<noteq> 0"
  obtains p s where "p \<in> set ps" "str = p @ s" "map safe_tolower (take (length name) s) = map safe_tolower name"
    "match_prefixes ps name str ignoring = length p + length name"
proof -
  from assms have "\<exists>p\<in>set ps. \<exists>s. str = p @ s \<and> map safe_tolower (take (length name) s) = map safe_tolower name
     \<and> match_prefixes ps name str ignoring = length p + length name"
  proof (induction ps)
    case (Cons q ps)
    then show ?case
      by (auto simp: starts_with_insensitive_iff starts_with_def [of "drop _ _"] split: if_splits) 
        (auto simp: starts_with_iff)
  qed simp
  with that show thesis by blast
qed

lemma match_opt_trimmed:
  assumes "match_opt opt str ignoring \<noteq> 0" "plain_names t opts" "opt \<in> set opts"
  defines "trimmed \<equiv> ltrim_all_of str (prefix_chars t)"
  shows "map safe_tolower (take (length (option_name opt)) trimmed) = map safe_tolower (option_name opt) \<and>
    match_opt opt str ignoring \<le> length str - length trimmed + length (option_name opt) \<and>
    (option_name opt \<noteq> [] \<longrightarrow> match_opt opt str ignoring = length str - length trimmed + length (option_name opt))"
proof -
  obtain p s where p: "p \<in> set (opt_prefixes opt)" "str = p @ s"
    "map safe_tolower (take (length (option_name opt)) s) = map safe_tolower (option_name opt)"
    "match_opt opt str ignoring = length p + length (option_name opt)"
    using assms(1) unfolding match_opt_def by (rule match_prefixes_found)
  have sub: "set p \<subseteq> set (prefix_chars t)"
    using assms(2,3) p(1) by (auto simp: plain_names_def list_all_iff)
  have trim: "trimmed = dropWhile (\<lambda>c. c \<in> set (prefix_chars t)) s"
    using sub unfolding trimmed_def ltrim_all_of_def p(2) by (subst dropWhile_append2) auto
  then have "length trimmed \<le> length s" by (simp add: length_dropWhile_le)
  moreover have "trimmed = s" if ne: "option_name opt \<noteq> []"
  proof -
    obtain c n where n: "option_name opt = c # n" using ne by (cases "option_name opt") auto
    then obtain d s' where s: "s = d # s'" using p(3) by (cases s) auto
    have "safe_tolower d \<notin> set (map safe_tolower (prefix_chars t))"
      using assms(2,3) p(3) n s by (auto simp: plain_names_def list_all_iff)
    then have "d \<notin> set (prefix_chars t)" by auto
    then show ?thesis by (simp add: trim s)
  qed
  ultimately show ?thesis using p by (cases "option_name opt = []") auto
qed

lemma str_cmp_prefix_not_less:
  "map safe_tolower (take (length n) s) = map safe_tolower n \<Longrightarrow> \<not> str_cmp_opt_name sg n s < 0"
proof (induction n arbitrary: s)
  case Nil
  then show ?case by (cases s) auto
next
  case (Cons c n)
  then show ?case by (cases s) auto
qed

lemma str_cmp_prefixes_length:
  "map safe_tolower (take (length m) s) = map safe_tolower m \<Longrightarrow> map safe_tolower (take (length n) s) = map safe_tolower n
   \<Longrightarrow> str_cmp_opt_name sg m n \<le> 0 \<Longrightarrow> length n \<le> length m"
proof (induction s arbitrary: m n)
  case (Cons c s)
  then show ?case by (cases m; cases n) auto
qed auto

lemma match_not_below:
  assumes "match_opt opt str ignoring \<noteq> 0" "plain_names t opts" "opt \<in> set opts"
  shows "\<not> opt_name_less sg opt (ltrim_all_of str (prefix_chars t))"
  using match_opt_trimmed [OF assms] by (simp add: opt_name_less_def str_cmp_prefix_not_less)

lemma match_sorted_le:
  assumes "match_opt a str ignoring \<noteq> 0" "match_opt b str ignoring \<noteq> 0" "plain_names t opts"
    and "a \<in> set opts" "b \<in> set opts" "opt_before sg a b"
  shows "match_opt b str ignoring \<le> match_opt a str ignoring"
proof -
  note a = match_opt_trimmed [OF assms(1,3,4)] and b = match_opt_trimmed [OF assms(2,3,5)]
  have le: "length (option_name b) \<le> length (option_name a)"
    using str_cmp_prefixes_length a b assms(6) by (auto simp: opt_before_def)
  then have "option_name a \<noteq> []" using assms(6) by (auto simp: opt_before_def)
  with a b le show ?thesis by linarith
qed

lemma sorted_below_mono:
  assumes "sorted_wrt (opt_before sg) opts" "i \<le> j" "j < length opts" "opt_name_less sg (opts ! j) name"
  shows "opt_name_less sg (opts ! i) name"
proof (cases "i = j")
  case False
  then have "opt_before sg (opts ! i) (opts ! j)" using assms by (auto intro: sorted_wrt_nth_less)
  with assms(4) show ?thesis
    by (auto simp: opt_before_def opt_name_less_def intro: str_cmp_opt_name_trans)
qed (use assms in simp)

text \<open>The binary search skips only options that do not match: the first match is the whole table's.\<close>

lemma tablegen_scan_first:
  assumes "index < length args" "tablegen_mode t" "sorted_wrt (opt_before sg) opts" "plain_names t opts"
  shows "first_from t args index po opts (scan_and_accept sg t opts args index True po)"
proof -
  let ?name = "ltrim_all_of (args ! index) (prefix_chars t)"
  let ?k = "lower_bound (\<lambda>i. opt_name_less sg i ?name) opts 0 (length opts)"
  let ?r = "scan_and_accept sg t opts args index True po"
  let ?p = "\<lambda>x. \<not> accepts t args index po x \<and> \<not> misses t args index po x"
  have "parts_at (\<lambda>i. opt_name_less sg i ?name) opts ?k"
    by (rule lower_bound_parts) (auto intro: sorted_below_mono [OF assms(3)])
  then have below: "opt_name_less sg x ?name" if "x \<in> set (take ?k opts)" for x
    using that by (auto simp: parts_at_def in_set_conv_nth)
  have skip: "?p x" if "x \<in> set (take ?k opts)" for x
  proof -
    have "match_opt x (args ! index) (ignore_case t) = 0"
      using match_not_below [OF _ assms(4) in_set_takeD [OF that]] below [OF that] by blast
    then show ?thesis by (simp add: accepts_def misses_def eligible_def match_size_def)
  qed
  have "first_from t args index po (drop ?k opts) ?r"
    using assms(2) scan_loop_first [OF assms(1), of "scan_start index" t po "drop ?k opts"]
    by (simp add: scan_and_accept_def Let_def scan_start_def)
  moreover have "dropWhile ?p (take ?k opts @ drop ?k opts) = dropWhile ?p (drop ?k opts)"
    by (rule dropWhile_append2) (rule skip)
  ultimately show ?thesis by (simp add: first_from_def)
qed

lemma scan_loop_no_match:
  assumes "index < length args" "sr_result (found s) = NoMatch"
  shows "sr_result (scan_loop t args index False po its s) = NoMatch \<longleftrightarrow> best_match_size s = 0 \<and> missing_match_size s = 0
     \<and> (\<forall>x\<in>set its. \<not> accepts t args index po x \<and> \<not> misses t args index po x)"
  using assms(2)
proof (induction its arbitrary: s)
  case Nil
  then show ?case by (simp add: scan_end_def)
next
  case (Cons it its)
  then show ?case
    by (cases rule: attempt_cases [OF assms(1), of t it])
      (auto simp: scan_loop_step [OF assms(1)] accepts_def misses_def eligible_def Let_def)
qed

lemma is_longest_unique:
  assumes "is_longest t args index po opts i" "is_longest t args index po opts j"
  shows "i = j"
proof (rule ccontr)
  assume "i \<noteq> j"
  then consider "i < j" | "j < i" by linarith
  then show False using assms unfolding is_longest_def by cases (metis leD)+
qed

lemma first_is_longest:
  assumes "first_from t args index po opts r" "sr_result r = Matched" "sorted_wrt (opt_before sg) opts" "plain_names t opts"
  shows "\<exists>i. is_longest t args index po opts i \<and> attempt t args index (opts ! i) = (Matched, sr_new_index r, sr_out r)"
proof -
  let ?p = "\<lambda>x. \<not> accepts t args index po x \<and> \<not> misses t args index po x"
  let ?i = "length (takeWhile ?p opts)"
  obtain x xs where dw: "dropWhile ?p opts = x # xs" and acc: "accepts t args index po x"
    and att: "attempt t args index x = (Matched, sr_new_index r, sr_out r)"
    using assms(1,2) unfolding first_from_def by (auto split: list.splits if_splits)
  have split: "opts = takeWhile ?p opts @ x # xs" using dw by (metis takeWhile_dropWhile_id)
  then have i: "?i < length opts" "opts ! ?i = x"
    by (metis length_append length_Cons less_add_same_cancel1 zero_less_Suc) (metis nth_append_length split)
  have early: "\<not> accepts t args index po (opts ! j)" if "j < ?i" for j
    using nth_mem [OF that] takeWhile_nth [OF that] by (auto dest: set_takeWhileD)
  have late: "match_size t args index (opts ! j) \<le> match_size t args index x"
    if "j < length opts" "accepts t args index po (opts ! j)" for j
  proof (cases "j = ?i")
    case False
    then have "opt_before sg x (opts ! j)"
      using early [of j] that i sorted_wrt_nth_less [OF assms(3), of ?i j] by (cases "j < ?i") auto
    then show ?thesis
      using match_sorted_le [OF _ _ assms(4)] that i acc
      by (auto simp: match_size_def accepts_def eligible_def)
  qed (use i in simp)
  have "is_longest t args index po opts ?i"
    using i acc late early by (auto simp: is_longest_def)
  with att i show ?thesis by auto
qed

lemma longest_scan:
  assumes "index < length args" "\<not> tablegen_mode t"
  defines "r \<equiv> \<lambda>sg opts po. scan_and_accept sg t opts args index False po"
  shows "(sr_result (r sg opts po) = Matched \<longleftrightarrow> (\<exists>opt\<in>set opts. accepts t args index po opt))
     \<and> (sr_result (r sg opts po) = Matched \<longrightarrow> (\<exists>i. is_longest t args index po opts i
          \<and> attempt t args index (opts ! i) = (Matched, sr_new_index (r sg opts po), sr_out (r sg opts po))))
     \<and> (sr_result (r sg opts po) = NoMatch \<longleftrightarrow>
          (\<forall>opt\<in>set opts. \<not> accepts t args index po opt \<and> \<not> misses t args index po opt))"
proof -
  have r: "r sg opts po = scan_loop t args index False po opts (scan_start index)"
    using assms(2) by (simp add: r_def scan_and_accept_def)
  have start: "sr_result (found (scan_start index)) = NoMatch" by (simp add: scan_start_def)
  have pos: "accepts t args index po x \<and> 0 < match_size t args index x \<longleftrightarrow> accepts t args index po x" for x
    by (auto simp: accepts_def eligible_def)
  have "best_match_size (scan_start index) = 0" "missing_match_size (scan_start index) = 0" by (simp_all add: scan_start_def)
  then show ?thesis
    using scan_loop_longest [OF assms(1) start, of t po opts] scan_loop_no_match [OF assms(1) start, of t po opts]
    unfolding r longest_from_def by (auto simp: pos split: if_splits)
qed

lemma tablegen_off [simp]:
  "accepts (t\<lparr>tablegen_mode := b\<rparr>) = accepts t" "misses (t\<lparr>tablegen_mode := b\<rparr>) = misses t"
  "is_longest (t\<lparr>tablegen_mode := b\<rparr>) = is_longest t" "attempt (t\<lparr>tablegen_mode := b\<rparr>) = attempt t"
proof -
  have un: "unaliased_option (t\<lparr>tablegen_mode := b\<rparr>) = unaliased_option t"
    by (rule ext) (simp add: unaliased_option_def table_option_def)
  have size: "match_size (t\<lparr>tablegen_mode := b\<rparr>) = match_size t"
    by (intro ext) (simp add: match_size_def)
  then have elig: "eligible (t\<lparr>tablegen_mode := b\<rparr>) = eligible t"
    by (intro ext) (simp add: eligible_def)
  show att: "attempt (t\<lparr>tablegen_mode := b\<rparr>) = attempt t"
    by (intro ext) (simp add: attempt_def accept_opt_eq alias_values_def un size split: prod.split)
  show acc: "accepts (t\<lparr>tablegen_mode := b\<rparr>) = accepts t" by (intro ext) (simp add: accepts_def elig att)
  show "misses (t\<lparr>tablegen_mode := b\<rparr>) = misses t" by (intro ext) (simp add: misses_def elig att)
  show "is_longest (t\<lparr>tablegen_mode := b\<rparr>) = is_longest t" by (intro ext) (simp add: is_longest_def acc size)
qed

text \<open>In a sorted table, the first match from where the search ends is the longest match of all.\<close>

lemma tablegen_scan:
  assumes "index < length args" "tablegen_mode t" "sorted_wrt (opt_before sg) opts" "plain_names t opts"
  defines "fast \<equiv> \<lambda>po. scan_and_accept sg t opts args index True po"
    and "slow \<equiv> \<lambda>po. scan_and_accept sg (t\<lparr>tablegen_mode := False\<rparr>) opts args index False po"
  shows "sr_result (fast po) = Matched \<Longrightarrow> sr_result (slow po) = Matched \<and> sr_new_index (slow po) = sr_new_index (fast po)
      \<and> sr_out (slow po) = sr_out (fast po)"
    and "sr_result (fast po) = NoMatch \<Longrightarrow> sr_result (slow po) = NoMatch"
proof -
  have off: "\<not> tablegen_mode (t\<lparr>tablegen_mode := False\<rparr>)" by simp
  note slow = longest_scan [OF assms(1) off, of sg opts po, folded slow_def, simplified]
  note first = tablegen_scan_first [OF assms(1-4), of po, folded fast_def]
  show "sr_result (slow po) = Matched \<and> sr_new_index (slow po) = sr_new_index (fast po) \<and> sr_out (slow po) = sr_out (fast po)"
    if m: "sr_result (fast po) = Matched"
  proof -
    obtain i where i: "is_longest t args index po opts i"
      "attempt t args index (opts ! i) = (Matched, sr_new_index (fast po), sr_out (fast po))"
      using first_is_longest [OF first m assms(3,4)] by blast
    then have "sr_result (slow po) = Matched"
      using slow by (auto simp: is_longest_def)
    with slow obtain j where "is_longest t args index po opts j"
      "attempt t args index (opts ! j) = (Matched, sr_new_index (slow po), sr_out (slow po))" by blast
    with i \<open>sr_result (slow po) = Matched\<close> show ?thesis by (auto dest: is_longest_unique)
  qed
  show "sr_result (slow po) = NoMatch" if "sr_result (fast po) = NoMatch"
    using first that slow
    by (auto simp: first_from_def dropWhile_eq_Nil_conv split: list.splits if_splits)
qed

text \<open>
  A scan for the longest match finds an option exactly if some option accepts the element,
  and then gives what the first of the longest matches makes of it; it finds none exactly if every option
  refuses the element.
\<close>

lemma scan_longest:
  assumes "index < length args" "\<not> tablegen_mode t"
  shows "let r = scan_and_accept sg t opts args index False po in
     (sr_result r = Matched \<longleftrightarrow> (\<exists>opt\<in>set opts. accepts t args index po opt))
     \<and> (sr_result r = Matched \<longrightarrow>
          (\<exists>i. is_longest t args index po opts i \<and> attempt t args index (opts ! i) = (Matched, sr_new_index r, sr_out r)))
     \<and> (sr_result r = NoMatch \<longleftrightarrow>
          (\<forall>opt\<in>set opts. \<not> accepts t args index po opt \<and> \<not> misses t args index po opt))"
  using longest_scan [OF assms, of sg opts po] unfolding Let_def .

lemma scan_longest_witness:
  "\<exists>i. is_longest sample_table [''-v'', ''x''] 0 default_options (search_range sample_table) i"
proof -
  have "(0::nat) < length [''-v'', ''x'']" "\<not> tablegen_mode sample_table" by code_simp+
  from scan_longest [OF this, of True "search_range sample_table" default_options]
  have "accepts sample_table [''-v'', ''x''] 0 default_options (unaliased_one [''-''] ''-v'' 5 Flag 0 0 0 1) \<longrightarrow>
      unaliased_one [''-''] ''-v'' 5 Flag 0 0 0 1 \<in> set (search_range sample_table) \<longrightarrow> ?thesis" by (auto simp: Let_def)
  moreover have "accepts sample_table [''-v'', ''x''] 0 default_options (unaliased_one [''-''] ''-v'' 5 Flag 0 0 0 1)" by code_simp
  moreover have "unaliased_one [''-''] ''-v'' 5 Flag 0 0 0 1 \<in> set (search_range sample_table)" by code_simp
  ultimately show ?thesis by blast
qed

end
