(* ===== verification/Cli_Error.thy ===== *)
theory Cli_Error
  imports Views
begin

text \<open>
  The errors of a command line (\<^verbatim>\<open>include/kotatsu/cli/error.h\<close>, \<^verbatim>\<open>src/cli/error.cc\<close>):
  what an error says, and how it is rendered, with the elements of the argv at fault marked under a line
  cut to a width. Sizes count bytes.
\<close>

section \<open>Errors\<close>

datatype ErrorKind = UnknownOption | MissingValueError | InvalidValue | UnexpectedArgument | MissingRequired | Conflict
  | UnknownSubcommand | MissingSubcommand

record Error =
  err_kind :: ErrorKind
  err_message :: string
  err_argv :: "string list"
  err_begin :: nat
  err_end :: nat
  subcommands :: "string list"
  suggestion :: string

definition error_at :: "ErrorKind \<Rightarrow> string \<Rightarrow> string list \<Rightarrow> nat \<Rightarrow> nat \<Rightarrow> Error" where
  "error_at kind message argv b e =
     \<lparr>err_kind = kind, err_message = message, err_argv = argv, err_begin = b, err_end = e, subcommands = [], suggestion = []\<rparr>"

record Style =
  color :: bool
  help_column :: nat
  argv_width :: nat

section \<open>The line of an argv\<close>

text \<open>The argv elements joined by spaces, and where each starts in the line.\<close>

fun join_step :: "string \<times> nat list \<Rightarrow> string list \<Rightarrow> string \<times> nat list" where
  "join_step joined [] = joined"
| "join_step (line, starts) (argument # argv) =
     (let line = (if starts \<noteq> [] then line @ '' '' else line)
      in join_step (line @ argument, starts @ [length line]) argv)"

definition join_argv :: "string list \<Rightarrow> string \<times> nat list" where
  "join_argv argv = join_step ([], []) argv"

record Excerpt =
  ex_line :: string
  marker_start :: nat
  marker_width :: nat

definition ellipsis :: string where
  "ellipsis = ''...''"

text \<open>Where the window on a line starts, and how much of the line is before the mark at least.\<close>

definition context_before_marker :: "nat \<Rightarrow> nat" where
  "context_before_marker max_width =
     (let between_ellipses = (if 2 * length ellipsis < max_width then max_width - 2 * length ellipsis else 0)
      in min 16 (if between_ellipses = 0 then 0 else between_ellipses - 1))"

definition window_start :: "string \<Rightarrow> nat \<Rightarrow> nat \<Rightarrow> nat" where
  "window_start line start max_width =
     (if length line \<le> start then length line - (max_width - length ellipsis)
      else if context_before_marker max_width < start then start - context_before_marker max_width
      else 0)"

definition excerpt :: "string \<Rightarrow> nat \<Rightarrow> nat \<Rightarrow> nat \<Rightarrow> Excerpt" where
  "excerpt line start width max_width =
     (if max_width = 0 \<or> length line \<le> max_width then \<lparr>ex_line = line, marker_start = start, marker_width = width\<rparr>
      else if max_width \<le> length ellipsis then \<lparr>ex_line = take max_width ellipsis, marker_start = 0, marker_width = 1\<rparr>
      else
        let content_start = window_start line start max_width;
            crop_left = (0 < content_start);
            available = (if crop_left then max_width - length ellipsis else max_width);
            content_end = min (length line) (content_start + available);
            crop_right = (content_end < length line);
            (available, content_end, crop_right) =
              (if crop_right
               then if length ellipsis < available
                    then (available - length ellipsis, content_start + (available - length ellipsis), True)
                    else (available, content_end, False)
               else (available, content_end, False));
            content_start = (if content_end = length line then length line - available else content_start);
            cut = (if crop_left then ellipsis else []) @ take (content_end - content_start) (drop content_start line)
              @ (if crop_right then ellipsis else []);
            visible_start = (if start \<le> content_start then 0 else start - content_start);
            visible_width = (if start < content_end then content_end - max start content_start else 0)
        in \<lparr>ex_line = cut, marker_start = (if crop_left then length ellipsis else 0) + visible_start,
            marker_width = max 1 (min width visible_width)\<rparr>)"

section \<open>Rendering\<close>

definition ansi :: "string \<Rightarrow> string" where
  "ansi code = CHR 0x1B # CHR ''['' # code @ ''m''"

definition paint :: "string \<Rightarrow> string \<Rightarrow> string" where
  "paint code s = (if s = [] then [] else ansi code @ s @ ansi ''0'')"

definition highlight :: "string \<Rightarrow> nat \<Rightarrow> nat \<Rightarrow> string \<Rightarrow> string" where
  "highlight s start width code =
     (if length s \<le> start then s
      else let width = min width (length s - start)
        in take start s @ ansi code @ take width (drop start s) @ ansi ''0'' @ drop (start + width) s)"

definition said :: "Error \<Rightarrow> string" where
  "said e = (if suggestion e = [] then err_message e
     else err_message e @ ''; did you mean '' @ [CHR 0x27] @ suggestion e @ [CHR 0x27, CHR ''?''])"

text \<open>The elements an error marks: the first, one past the last, and the mark they give in the line.\<close>

definition first_marked :: "Error \<Rightarrow> nat" where
  "first_marked e = min (err_begin e) (length (err_argv e))"

definition last_marked :: "Error \<Rightarrow> nat" where
  "last_marked e = max (min (err_end e) (length (err_argv e))) (first_marked e + 1)"

definition marker :: "Error \<Rightarrow> nat \<times> nat" where
  "marker e =
     (case join_argv (err_argv e) of (line, starts) \<Rightarrow>
        if first_marked e = length (err_argv e) then (length line, 1)
        else let start = starts ! first_marked e; l = last_marked e - 1
          in (start, max 1 (starts ! l + length (err_argv e ! l) - start)))"

definition shown :: "Error \<Rightarrow> nat \<Rightarrow> Excerpt" where
  "shown e width = (case marker e of (start, w) \<Rightarrow> excerpt (fst (join_argv (err_argv e))) start w width)"

definition bar :: string where
  "bar = [CHR 0xE2, CHR 0x94, CHR 0x82]"

definition arrow :: string where
  "arrow = [CHR 0xE2, CHR 0x95, CHR 0xB0, CHR 0xE2, CHR 0x94, CHR 0x80, CHR 0xE2, CHR 0x96, CHR 0xB6]"

definition newline_char :: char where
  "newline_char = CHR 0x0A"

definition render_error :: "Error \<Rightarrow> Style \<Rightarrow> string" where
  "render_error e style =
     (if err_argv e = []
      then if color style then paint ''1;38;5;203'' ''error'' @ '' '' @ paint ''1'' (said e) else said e
      else
        let first = first_marked e; at_end = (first = length (err_argv e)); ex = shown e (argv_width style) in
        if \<not> color style
        then (if at_end then ''at end of argv'' else ''at argv['' @ decimal first @ '']'') @ '':'' @ newline_char # ''  ''
          @ ex_line ex @ newline_char # ''  '' @ replicate (marker_start ex) CHR '' '' @ ''^''
          @ replicate (marker_width ex - 1) CHR ''~'' @ newline_char # ''  '' @ said e
        else paint ''1;38;5;203'' ''error'' @ '' ''
          @ paint ''39'' (if at_end then ''[argv[end]]'' else ''[argv['' @ decimal first @ '']]'') @ newline_char
          # paint ''39'' bar @ newline_char # paint ''39'' bar @ '' ''
          @ highlight (ex_line ex) (marker_start ex) (marker_width ex) ''1;38;5;117'' @ newline_char
          # paint ''39'' bar @ '' '' @ replicate (marker_start ex) CHR '' '' @ paint ''1;38;5;204'' arrow @ '' '' @ paint ''1'' (said e))"

section \<open>The excerpt\<close>

lemma length_ellipsis [simp]: "length ellipsis = 3"
  by (simp add: ellipsis_def)

lemma context_bounds:
  "context_before_marker w \<le> w - 7" "w \<le> 6 \<Longrightarrow> context_before_marker w = 0"
  by (auto simp: context_before_marker_def Let_def)

text \<open>The window an excerpt shows, and what it leaves out on either side.\<close>

definition windowed :: "string \<Rightarrow> nat \<Rightarrow> nat \<Rightarrow> nat \<Rightarrow> Excerpt \<Rightarrow> nat \<Rightarrow> nat \<Rightarrow> bool \<Rightarrow> bool \<Rightarrow> bool" where
  "windowed line start width max_width ex from to left right \<longleftrightarrow> from \<le> to \<and> to \<le> length line
     \<and> ex_line ex = (if left then ellipsis else []) @ take (to - from) (drop from line) @ (if right then ellipsis else [])
     \<and> length (ex_line ex) \<le> max_width
     \<and> marker_start ex = (if left then 3 else 0) + (start - from)
     \<and> marker_width ex = max 1 (min width (to - start))
     \<and> (start < length line \<longrightarrow> from \<le> start \<and> start < to) \<and> (length line \<le> start \<longrightarrow> to = length line \<and> \<not> right)"

lemma excerpt_windowed_early:
  assumes "3 < w" "w < length line" "start < length line" "start \<le> context_before_marker w"
  shows "windowed line start width w (excerpt line start width w) 0 (w - 3) False True"
proof -
  have "start < w - 3" using assms(1,4) context_bounds [of w] by linarith
  moreover have "window_start line start w = 0" using assms by (simp add: window_start_def)
  ultimately show ?thesis using assms by (auto simp: excerpt_def Let_def windowed_def)
qed

lemma excerpt_windowed_late:
  assumes "3 < w" "w < length line" "start < length line" "context_before_marker w < start"
  shows "\<exists>from to right. windowed line start width w (excerpt line start width w) from to True right"
proof -
  let ?c = "context_before_marker w" and ?n = "length line"
  have c: "?c \<le> w - 7" "w \<le> 6 \<Longrightarrow> ?c = 0" by (rule context_bounds)+
  have ws: "window_start line start w = start - ?c" "0 < start - ?c" using assms by (simp_all add: window_start_def)
  consider (whole) "?n \<le> start - ?c + (w - 3)" | (both) "start - ?c + (w - 3) < ?n" "6 < w" | (narrow) "start - ?c + (w - 3) < ?n" "w \<le> 6"
    by linarith
  then show ?thesis
  proof cases
    case whole
    have start: "?n - (w - 3) \<le> start" using whole assms ws(2) by linarith
    have "excerpt line start width w = \<lparr>ex_line = ellipsis @ drop (?n - (w - 3)) line,
        marker_start = 3 + (start - (?n - (w - 3))), marker_width = max 1 (min width (?n - start))\<rparr>"
      using assms(1-3) ws start whole by (simp add: excerpt_def Let_def max_def min_def Suc_le_eq)
    then have "windowed line start width w (excerpt line start width w) (?n - (w - 3)) ?n True False"
      using assms start by (simp add: windowed_def)
    then show ?thesis by blast
  next
    case both
    define s where "s = start - ?c"
    have s: "window_start line start w = s" "0 < s" "min ?n (s + (w - 3)) = s + (w - 3)" "s + (w - 3) < ?n" "3 < w - 3"
      "w - 3 - 3 = w - 6" "s + (w - 6) \<noteq> ?n" "start < s + (w - 6)" "max start s = start" "s \<le> start"
      "w \<noteq> 0" "\<not> ?n \<le> w" "\<not> w \<le> 3"
      using assms ws c both by (simp_all add: s_def)
    have "excerpt line start width w = \<lparr>ex_line = ellipsis @ take (s + (w - 6) - s) (drop s line) @ ellipsis,
        marker_start = 3 + (start - s), marker_width = max 1 (min width (s + (w - 6) - start))\<rparr>"
      unfolding excerpt_def Let_def s(1) length_ellipsis by (simp only: s if_True if_False simp_thms prod.case) simp
    then have "windowed line start width w (excerpt line start width w) s (s + (w - 6)) True True"
      using s assms(3) by (simp add: windowed_def)
    then show ?thesis by blast
  next
    case narrow
    have s: "window_start line start w = start" "0 < start" "min ?n (start + (w - 3)) = start + (w - 3)" "start + (w - 3) < ?n"
      "\<not> 3 < w - 3" "start + (w - 3) \<noteq> ?n" "start < start + (w - 3)" "start \<le> start" "w \<noteq> 0" "\<not> ?n \<le> w" "\<not> w \<le> 3"
      using assms ws c narrow by simp_all
    have "excerpt line start width w = \<lparr>ex_line = ellipsis @ take (start + (w - 3) - start) (drop start line) @ [],
        marker_start = 3 + 0, marker_width = max 1 (min width (start + (w - 3) - start))\<rparr>"
      unfolding excerpt_def Let_def s(1) length_ellipsis by (simp only: s if_True if_False simp_thms prod.case max.idem)
    then have "windowed line start width w (excerpt line start width w) start (start + (w - 3)) True False"
      using s assms(3) by (simp add: windowed_def)
    then show ?thesis by blast
  qed
qed

lemma excerpt_windowed_end:
  assumes "3 < w" "w < length line" "length line \<le> start"
  shows "windowed line start width w (excerpt line start width w) (length line - (w - 3)) (length line) True False"
proof -
  have "window_start line start w = length line - (w - 3)" using assms by (simp add: window_start_def)
  then show ?thesis using assms by (auto simp: excerpt_def Let_def windowed_def)
qed

lemma excerpt_windowed:
  assumes "3 < w" "w < length line"
  shows "\<exists>from to left right. windowed line start width w (excerpt line start width w) from to left right"
  using excerpt_windowed_early [OF assms] excerpt_windowed_late [OF assms] excerpt_windowed_end [OF assms]
  by (metis not_le)

text \<open>What is under the mark of a window is what was marked.\<close>

lemma windowed_mark:
  assumes "windowed line start width w ex from to left right" "start < length line" "start + width \<le> length line" "0 < width"
  shows "marker_start ex + marker_width ex \<le> length (ex_line ex)" "0 < marker_width ex" "marker_width ex \<le> width"
    "take (marker_width ex) (drop (marker_start ex) (ex_line ex)) = take (marker_width ex) (drop start line)"
proof -
  have b: "from \<le> start" "start < to" "to \<le> length line" using assms(1,2) by (auto simp: windowed_def)
  have w: "marker_width ex = min width (to - start)" using assms(1,4) b by (auto simp: windowed_def)
  show "0 < marker_width ex" "marker_width ex \<le> width" using w b assms(4) by auto
  have "length (ex_line ex) = (if left then 3 else 0) + (to - from) + (if right then 3 else 0)"
    "marker_start ex = (if left then 3 else 0) + (start - from)"
    using assms(1) b by (simp_all add: windowed_def)
  then show "marker_start ex + marker_width ex \<le> length (ex_line ex)" using b w by (simp split: if_splits)
  have "drop (marker_start ex) (ex_line ex) = drop (start - from) (take (to - from) (drop from line)) @ (if right then ellipsis else [])"
    using assms(1) b by (auto simp: windowed_def)
  moreover have "drop (start - from) (take (to - from) (drop from line)) = take (to - start) (drop start line)"
    using b by (simp add: drop_take)
  ultimately show "take (marker_width ex) (drop (marker_start ex) (ex_line ex)) = take (marker_width ex) (drop start line)"
    using b w assms(3) by (simp add: min_def) linarith
qed

section \<open>What an error marks\<close>

fun spaced :: "string list \<Rightarrow> string" where
  "spaced [] = []"
| "spaced [a] = a"
| "spaced (a # as) = a @ '' '' @ spaced as"

lemma spaced_snoc: "spaced (as @ [a]) = (if as = [] then a else spaced as @ '' '' @ a)"
  by (induction as rule: spaced.induct) auto

lemma spaced_append: "as \<noteq> [] \<Longrightarrow> bs \<noteq> [] \<Longrightarrow> spaced (as @ bs) = spaced as @ '' '' @ spaced bs"
proof (induction as rule: spaced.induct)
  case (2 a)
  then show ?case by (cases bs) auto
qed auto

lemma join_step_spaced:
  "join_step (spaced as, map (\<lambda>i. length (spaced (take i as)) + (if i = 0 then 0 else 1)) [0..<length as]) bs
   = (spaced (as @ bs), map (\<lambda>i. length (spaced (take i (as @ bs))) + (if i = 0 then 0 else 1)) [0..<length (as @ bs)])"
proof (induction bs arbitrary: as)
  case (Cons b bs)
  let ?start = "\<lambda>cs i. length (spaced (take i cs)) + (if i = 0 then 0 else 1)"
  have starts: "map (?start (as @ [b])) [0..<length (as @ [b])]
      = map (?start as) [0..<length as] @ [length (spaced as) + (if as = [] then 0 else 1)]"
    by (auto intro: map_cong)
  have "join_step (spaced as, map (?start as) [0..<length as]) (b # bs)
      = join_step (spaced (as @ [b]), map (?start (as @ [b])) [0..<length (as @ [b])]) bs"
    unfolding starts by (cases "as = []") (simp_all add: spaced_snoc)
  with Cons [of "as @ [b]"] show ?case by simp
qed simp

lemma join_argv_spaced:
  "join_argv argv = (spaced argv, map (\<lambda>i. length (spaced (take i argv)) + (if i = 0 then 0 else 1)) [0..<length argv])"
  using join_step_spaced [of "[]" argv] by (simp add: join_argv_def)

text \<open>The mark of an error covers the elements at fault, joined by spaces.\<close>

definition fault :: "Error \<Rightarrow> string list" where
  "fault e = drop (first_marked e) (take (last_marked e) (err_argv e))"

definition before_element :: "string list \<Rightarrow> nat \<Rightarrow> string" where
  "before_element argv i = (if i = 0 then [] else spaced (take i argv) @ '' '')"

lemma spaced_from:
  assumes "i < j" "j \<le> length argv"
  shows "spaced (take j argv) = before_element argv i @ spaced (drop i (take j argv))"
proof (cases "i = 0")
  case False
  have "take j argv = take i argv @ drop i (take j argv)" using assms by (metis append_take_drop_id less_imp_le min.absorb2 take_take min.commute)
  moreover have "take i argv \<noteq> []" "drop i (take j argv) \<noteq> []" using assms False by auto
  ultimately show ?thesis using False spaced_append by (metis append.assoc before_element_def)
qed (simp add: before_element_def)

lemma join_argv_starts: "i < length argv \<Longrightarrow> snd (join_argv argv) ! i = length (before_element argv i)"
  by (simp add: join_argv_spaced before_element_def)

lemma marker_fault:
  assumes "first_marked e < length (err_argv e)"
  obtains before after where "fst (marker e) = length before" "snd (marker e) = max 1 (length (spaced (fault e)))"
    "spaced (err_argv e) = before @ spaced (fault e) @ after"
proof
  let ?argv = "err_argv e" and ?i = "first_marked e" and ?j = "last_marked e"
  have ij: "?i < ?j" "?j \<le> length ?argv" using assms by (auto simp: last_marked_def first_marked_def)
  have upto: "spaced (take ?j ?argv) = before_element ?argv ?i @ spaced (fault e)"
    using spaced_from [OF ij] by (simp add: fault_def)
  have "spaced (take ?j ?argv) = before_element ?argv (?j - 1) @ ?argv ! (?j - 1)"
    using spaced_from [of "?j - 1" ?j ?argv] ij by (simp add: take_Suc_conv_app_nth drop_take hd_drop_conv_nth flip: hd_drop_conv_nth)
  then have last: "length (before_element ?argv (?j - 1)) + length (?argv ! (?j - 1)) = length (spaced (take ?j ?argv))"
    by simp
  have join: "join_argv ?argv = (spaced ?argv, snd (join_argv ?argv))" by (simp add: join_argv_spaced)
  have mk: "marker e = (length (before_element ?argv ?i), max 1 (length (spaced (fault e))))"
    using assms ij last upto join_argv_starts [of ?i ?argv] join_argv_starts [of "?j - 1" ?argv]
    by (subst marker_def, subst join) (simp add: Let_def)
  then show "fst (marker e) = length (before_element ?argv ?i)" "snd (marker e) = max 1 (length (spaced (fault e)))" by simp_all
  have "spaced ?argv = spaced (take ?j ?argv) @ (if ?j = length ?argv then [] else '' '' @ spaced (drop ?j ?argv))"
    using spaced_append [of "take ?j ?argv" "drop ?j ?argv"] ij assms by (cases "?argv = []") auto
  then show "spaced ?argv = before_element ?argv ?i @ spaced (fault e) @ (if ?j = length ?argv then [] else '' '' @ spaced (drop ?j ?argv))"
    using upto by simp
qed

lemma shown_cases:
  obtains (whole) "w = 0 \<or> length (spaced (err_argv e)) \<le> w"
      "shown e w = \<lparr>ex_line = spaced (err_argv e), marker_start = fst (marker e), marker_width = snd (marker e)\<rparr>"
    | (narrow) "0 < w" "w \<le> 3"
    | (cut) lo hi left right where "3 < w" "w < length (spaced (err_argv e))"
      "windowed (spaced (err_argv e)) (fst (marker e)) (snd (marker e)) w (shown e w) lo hi left right"
proof -
  have sh: "shown e w = excerpt (spaced (err_argv e)) (fst (marker e)) (snd (marker e)) w"
    by (simp add: shown_def join_argv_spaced case_prod_beta)
  consider "w = 0 \<or> length (spaced (err_argv e)) \<le> w" | "0 < w" "w \<le> 3" | "3 < w" "w < length (spaced (err_argv e))"
    by linarith
  then show thesis
  proof cases
    case 1
    then show ?thesis using whole sh by (simp add: excerpt_def)
  next
    case 2
    then show ?thesis by (rule narrow)
  next
    case 3
    then show ?thesis using excerpt_windowed [OF 3] cut unfolding sh by blast
  qed
qed

lemma marked_text:
  assumes "3 < w \<or> w = 0" "first_marked e < length (err_argv e)" "spaced (fault e) \<noteq> []"
  shows "0 < marker_width (shown e w)" "marker_start (shown e w) + marker_width (shown e w) \<le> length (ex_line (shown e w))"
    "take (marker_width (shown e w)) (drop (marker_start (shown e w)) (ex_line (shown e w)))
     = take (marker_width (shown e w)) (spaced (fault e))"
    "marker_width (shown e w) \<le> length (spaced (fault e))"
    "w = 0 \<or> length (spaced (err_argv e)) \<le> w \<Longrightarrow> marker_width (shown e w) = length (spaced (fault e))"
proof -
  obtain before after where m: "fst (marker e) = length before" "snd (marker e) = max 1 (length (spaced (fault e)))"
    and line: "spaced (err_argv e) = before @ spaced (fault e) @ after" using marker_fault [OF assms(2)] by blast
  have mw: "snd (marker e) = length (spaced (fault e))" using m(2) assms(3) by (simp add: max_def Suc_le_eq)
  have "0 < marker_width (shown e w) \<and> marker_start (shown e w) + marker_width (shown e w) \<le> length (ex_line (shown e w))
    \<and> take (marker_width (shown e w)) (drop (marker_start (shown e w)) (ex_line (shown e w)))
       = take (marker_width (shown e w)) (spaced (fault e))
    \<and> marker_width (shown e w) \<le> length (spaced (fault e))
    \<and> (w = 0 \<or> length (spaced (err_argv e)) \<le> w \<longrightarrow> marker_width (shown e w) = length (spaced (fault e)))"
  proof (cases rule: shown_cases [of w e])
    case whole
    then show ?thesis using m mw line assms(3) by simp
  next
    case narrow
    then show ?thesis using assms(1) by auto
  next
    case (cut lo hi left right)
    have "fst (marker e) < length (spaced (err_argv e))" "fst (marker e) + snd (marker e) \<le> length (spaced (err_argv e))"
      "0 < snd (marker e)" using m(1) mw line assms(3) by auto
    note mark = windowed_mark [OF cut(3) this]
    have "take (marker_width (shown e w)) (drop (fst (marker e)) (spaced (err_argv e)))
        = take (marker_width (shown e w)) (spaced (fault e))"
      using mark(3) by (simp add: line m(1) mw)
    with mark mw cut(1,2) show ?thesis by simp
  qed
  then show "0 < marker_width (shown e w)" "marker_start (shown e w) + marker_width (shown e w) \<le> length (ex_line (shown e w))"
    "take (marker_width (shown e w)) (drop (marker_start (shown e w)) (ex_line (shown e w)))
     = take (marker_width (shown e w)) (spaced (fault e))"
    "marker_width (shown e w) \<le> length (spaced (fault e))"
    "w = 0 \<or> length (spaced (err_argv e)) \<le> w \<Longrightarrow> marker_width (shown e w) = length (spaced (fault e))"
    by blast+
qed

lemma shown_line:
  assumes "3 < w \<or> w = 0"
  shows "w \<noteq> 0 \<Longrightarrow> length (ex_line (shown e w)) \<le> w"
    "w = 0 \<or> length (spaced (err_argv e)) \<le> w \<Longrightarrow> ex_line (shown e w) = spaced (err_argv e)"
    "first_marked e = length (err_argv e) \<Longrightarrow> marker_start (shown e w) = length (ex_line (shown e w)) \<and> marker_width (shown e w) = 1"
proof -
  have at_end: "fst (marker e) = length (spaced (err_argv e)) \<and> snd (marker e) = 1" if "first_marked e = length (err_argv e)"
    using that by (simp add: marker_def join_argv_spaced)
  show "w \<noteq> 0 \<Longrightarrow> length (ex_line (shown e w)) \<le> w"
    "w = 0 \<or> length (spaced (err_argv e)) \<le> w \<Longrightarrow> ex_line (shown e w) = spaced (err_argv e)"
    "first_marked e = length (err_argv e) \<Longrightarrow> marker_start (shown e w) = length (ex_line (shown e w)) \<and> marker_width (shown e w) = 1"
    by (cases rule: shown_cases [of w e]; use assms at_end in \<open>auto simp: windowed_def\<close>)+
qed

text \<open>
  C26: the line an error is shown with is no wider than asked, and unless it is only an
  ellipsis, the mark under it is within the line, starts at the first element at fault and covers its text
  and that of the elements after it, all of it where the line is not cut; for an error at the end of the
  argv, the mark follows the line.
\<close>

theorem error_marks_fault:
  assumes "w = 0 \<or> 3 < w"
  shows "let ex = shown e w; mark = take (marker_width ex) (drop (marker_start ex) (ex_line ex)) in
     (w \<noteq> 0 \<longrightarrow> length (ex_line ex) \<le> w)
     \<and> (first_marked e < length (err_argv e) \<longrightarrow> spaced (fault e) \<noteq> [] \<longrightarrow>
          mark \<noteq> [] \<and> length mark = marker_width ex \<and> starts_with (spaced (fault e)) mark
          \<and> (w = 0 \<or> length (spaced (err_argv e)) \<le> w \<longrightarrow> ex_line ex = spaced (err_argv e) \<and> mark = spaced (fault e)))
     \<and> (first_marked e = length (err_argv e) \<longrightarrow> marker_start ex = length (ex_line ex) \<and> marker_width ex = 1)"
proof -
  have w: "3 < w \<or> w = 0" using assms by blast
  note line = shown_line [OF w, of e] and mark = marked_text [OF w, of e]
  let ?ex = "shown e w"
  have "starts_with (spaced (fault e)) (take n (spaced (fault e)))" for n by (simp add: starts_with_def min_def)
  then show ?thesis using line mark unfolding Let_def by (auto simp: min_def)
qed

theorem error_marks_fault_witness:
  "let ex = shown (error_at MissingValueError ''missing argument value'' [''-v'', ''-o''] 1 2) 96
   in take (marker_width ex) (drop (marker_start ex) (ex_line ex)) = ''-o''"
proof -
  let ?e = "error_at MissingValueError ''missing argument value'' [''-v'', ''-o''] 1 2"
  have "(96::nat) = 0 \<or> 3 < (96::nat)" by simp
  note marks = error_marks_fault [OF this, of ?e, unfolded Let_def]
  have "first_marked ?e < length (err_argv ?e)" "spaced (fault ?e) \<noteq> []" "length (spaced (err_argv ?e)) \<le> 96"
    by code_simp+
  with marks have "take (marker_width (shown ?e 96)) (drop (marker_start (shown ?e 96)) (ex_line (shown ?e 96))) = spaced (fault ?e)"
    by blast
  also have "\<dots> = ''-o''" by code_simp
  finally show ?thesis unfolding Let_def .
qed

end
