(* ===== verification/Opt_Parse.thy ===== *)
theory Opt_Parse
  imports Opt_Scan Cli_Error
begin

text \<open>
  The parse of an argv against an option table (\<^verbatim>\<open>parse_step\<close>,
  \<^verbatim>\<open>parse_step_grouped\<close> and \<^verbatim>\<open>ParseIter\<close> of \<^verbatim>\<open>src/cli/table/table.cc\<close>).
\<close>

section \<open>Unknown options\<close>

definition joins_value :: "OptionKind \<Rightarrow> bool" where
  "joins_value k \<longleftrightarrow> k = Joined \<or> k = CommaJoined \<or> k = JoinedOrSeparate \<or> k = JoinedAndSeparate \<or> k = RemainingArgsJoined"

definition is_known_option :: "Option list \<Rightarrow> string \<Rightarrow> OptTable \<Rightarrow> ParseOptions \<Rightarrow> bool" where
  "is_known_option opts arg t po \<longleftrightarrow> list_ex (\<lambda>s. let arg_sz = match_opt s arg (ignore_case t) in
     arg_sz \<noteq> 0 \<and> (arg_sz = length arg \<or> joins_value (opt_kind s)) \<and> \<not> excludes po s) opts"

function consume_unknown_values :: "OptTable \<Rightarrow> Option list \<Rightarrow> string list \<Rightarrow> nat \<Rightarrow> ParsedArg \<Rightarrow> ParseOptions \<Rightarrow> nat \<times> ParsedArg" where
  "consume_unknown_values t opts args index out po =
     (if length args \<le> index then (index, out)
      else let next = args ! index in
        if next = ''--'' \<or> \<not> is_input t next \<and> is_known_option opts next t po then (index, out)
        else consume_unknown_values t opts args (index + 1) (add_value out next) po)"
  by pat_completeness auto
termination
  by (relation "measure (\<lambda>(t, opts, args, index, out, po). length args - index)") auto

declare consume_unknown_values.simps [simp del]

section \<open>A step\<close>

definition taken :: "nat \<Rightarrow> string \<Rightarrow> nat \<Rightarrow> ParsedArg" where
  "taken ident spell index = cleared\<lparr>pa_id := ident, spelling := spell, pa_index := index\<rparr>"

definition unknown_step :: "OptTable \<Rightarrow> string list \<Rightarrow> nat \<Rightarrow> ParseOptions \<Rightarrow> nat \<times> ParsedArg" where
  "unknown_step t args index po =
     (let str = args ! index; out = taken (unknown_option_id t) str index in
      if greedy_unknown po \<and> str \<noteq> ''--'' then consume_unknown_values t (search_range t) args (index + 1) out po
      else (index + 1, out))"

definition parse_step :: "bool \<Rightarrow> OptTable \<Rightarrow> string list \<Rightarrow> nat \<Rightarrow> ParseOptions \<Rightarrow> AcceptResult \<times> nat \<times> ParsedArg" where
  "parse_step sgn_char t args index po =
     (let str = args ! index in
      if is_input t str then (Matched, index + 1, taken (input_option_id t) str index)
      else let scan = scan_and_accept sgn_char t (search_range t) args index (tablegen_mode t) po in
        if sr_result scan = Matched then (Matched, sr_new_index scan, sr_out scan)
        else if sr_result scan = MissingValue then (MissingValue, sr_new_index scan, cleared\<lparr>pa_index := index\<rparr>)
        else if str ! 0 = CHR ''/'' then (Matched, index + 1, taken (input_option_id t) str index)
        else (Matched, unknown_step t args index po))"

definition parse_step_grouped :: "bool \<Rightarrow> OptTable \<Rightarrow> string list \<Rightarrow> nat \<Rightarrow> ParseOptions \<Rightarrow> (AcceptResult \<times> nat \<times> ParsedArg) \<times> string" where
  "parse_step_grouped sgn_char t args index po =
     (let str = args ! index in
      if is_input t str then ((Matched, index + 1, taken (input_option_id t) str index), [])
      else let scan = scan_and_accept sgn_char t (search_range t) args index True po in
        if sr_result scan = Matched then ((Matched, sr_new_index scan, sr_out scan), [])
        else if sr_result scan = MissingValue then ((MissingValue, sr_new_index scan, cleared\<lparr>pa_index := index\<rparr>), [])
        else case fallback_flag scan of
          Some flag \<Rightarrow>
            if str ! 2 = CHR ''='' then ((Matched, index + 1, taken (unknown_option_id t) str index), [])
            else (case accept_opt t flag args (take 2 str) True index of (_, index, out) \<Rightarrow> (Matched, index, out), drop 2 str)
        | None \<Rightarrow>
            if 1 < length str \<and> str ! 1 \<noteq> CHR ''-'' then
              if 2 < length str then ((Matched, index, taken (unknown_option_id t) (take 2 str) index), drop 2 str)
              else ((Matched, index + 1, taken (unknown_option_id t) (take 2 str) index), [])
            else ((Matched, unknown_step t args index po), []))"


section \<open>The parse\<close>

text \<open>What \<^verbatim>\<open>ParseIter\<close> keeps beside its arguments and its current result.\<close>

record iter =
  it_index :: nat
  group_buf :: string
  past_dash_dash :: bool

definition take_input :: "OptTable \<Rightarrow> string list \<Rightarrow> iter \<Rightarrow> (Error + ParsedArg) option \<times> iter" where
  "take_input t args it =
     (let index = it_index it in
      (Some (Inr ((taken (input_option_id t) (args ! index) index)\<lparr>next_index := index + 1\<rparr>)), it\<lparr>it_index := index + 1\<rparr>))"

definition pack_rest :: "OptTable \<Rightarrow> string list \<Rightarrow> iter \<Rightarrow> (Error + ParsedArg) option \<times> iter" where
  "pack_rest t args it =
     (let index = it_index it in
      (Some (Inr ((taken (input_option_id t) ''--'' index)
         \<lparr>pa_values := drop (index + 1) args, next_index := length args\<rparr>)), it\<lparr>it_index := length args\<rparr>))"

text \<open>
  What a group leaves is read behind a dash; its values are views of the same text in the element, so
  that rebasing them keeps what they say.
\<close>

definition take_step :: "bool \<Rightarrow> OptTable \<Rightarrow> string list \<Rightarrow> ParseOptions \<Rightarrow> iter \<Rightarrow> (Error + ParsedArg) option \<times> iter" where
  "take_step sgn_char t args po it =
     (let index = it_index it;
          step = (if \<not> grouped_short_options po then (parse_step sgn_char t args index po, [])
                  else parse_step_grouped sgn_char t (if group_buf it = [] then args else args[index := group_buf it]) index po) in
      case step of ((result, index, out), rest) \<Rightarrow>
        let it = (if grouped_short_options po then it\<lparr>group_buf := if rest = [] then [] else CHR ''-'' # rest\<rparr> else it) in
        (Some (if result = MissingValue
               then Inl (error_at MissingValueError ''missing argument value'' args (pa_index out) (pa_index out + 1))
               else Inr (out\<lparr>next_index := index\<rparr>)), it\<lparr>it_index := index\<rparr>))"

text \<open>\<^verbatim>\<open>ParseIter::advance\<close>: no result once every element is used.\<close>

function advance :: "bool \<Rightarrow> OptTable \<Rightarrow> string list \<Rightarrow> ParseOptions \<Rightarrow> iter \<Rightarrow> (Error + ParsedArg) option \<times> iter" where
  "advance sgn_char t args po it =
     (if length args \<le> it_index it then (None, it)
      else if \<not> past_dash_dash it \<and> dash_dash_parsing po \<and> args ! it_index it = ''--'' then
        let it = it\<lparr>past_dash_dash := True\<rparr> in
        if dash_dash_packing po then pack_rest t args it
        else advance sgn_char t args po (it\<lparr>it_index := it_index it + 1\<rparr>)
      else if past_dash_dash it then take_input t args it
      else take_step sgn_char t args po it)"
  by pat_completeness auto
termination
  by (relation "measure (\<lambda>(sgn_char, t, args, po, it). length args - it_index it)") auto

declare advance.simps [simp del]

section \<open>The parse ends\<close>

text \<open>What is left to read: the elements, and of a group the rest of it.\<close>

definition left_of :: "string list \<Rightarrow> iter \<Rightarrow> nat \<times> nat" where
  "left_of args it = (length args - it_index it,
     if group_buf it = [] then if it_index it < length args then length (args ! it_index it) else 0 else length (group_buf it))"

lemma starts_group_length:
  assumes "index < length args" "starts_group t args index po x" "\<not> accepts t args index po x"
  shows "2 < length (args ! index)"
proof -
  have "match_size t args index x \<noteq> length (args ! index)"
    using assms by (auto simp: starts_group_def accepts_def attempt_def accept_opt_eq accept_internal_def Let_def)
  then show ?thesis
    using assms(2) match_opt_length [of x "args ! index" "ignore_case t"] by (simp add: starts_group_def match_size_def)
qed

definition search_begin :: "bool \<Rightarrow> OptTable \<Rightarrow> Option list \<Rightarrow> string \<Rightarrow> nat" where
  "search_begin sg t opts str = (if tablegen_mode t
     then lower_bound (\<lambda>i. opt_name_less sg i (ltrim_all_of str (prefix_chars t))) opts 0 (length opts) else 0)"

lemma scan_first:
  assumes "index < length args"
  shows "first_from t args index po (drop (search_begin sg t opts (args ! index)) opts)
     (scan_and_accept sg t opts args index True po)"
  using scan_loop_first [OF assms, of "scan_start index"]
  by (simp add: scan_and_accept_def search_begin_def Let_def scan_start_def)

lemma scan_loop_missing:
  assumes "index < length args" "sr_result (found s) = NoMatch" "0 < missing_match_size s \<Longrightarrow> length args < missing_index s"
    and "sr_result (scan_loop t args index fm po its s) = MissingValue"
  shows "length args < sr_new_index (scan_loop t args index fm po its s)"
  using assms(2-)
proof (induction its arbitrary: s)
  case Nil
  then show ?case by (auto simp: scan_end_def split: if_splits)
next
  case (Cons it its)
  obtain a after out where att: "attempt t args index it = (a, after, out)" by (cases "attempt t args index it")
  then have "a = MissingValue \<Longrightarrow> length args < after"
    using attempt_range [OF assms(1), of t it] by (simp add: accept_range_def)
  note rest = this Cons.prems
  show ?case
  proof (cases fm)
    case True
    show ?thesis
      using rest True
      by (cases a) (auto simp: att scan_loop_step [OF assms(1)] Let_def intro!: Cons.IH [unfolded iffD2 [OF eq_True True]] split: if_splits)
  next
    case False
    show ?thesis
      using rest False
      by (cases a) (auto simp: att scan_loop_step [OF assms(1)] Let_def intro!: Cons.IH [unfolded iffD2 [OF eq_False False]] split: if_splits)
  qed
qed

lemma scan_matched:
  assumes "index < length args" "sr_result (scan_and_accept sg t opts args index fm po) = Matched"
  obtains x where "x \<in> set opts" "accepts t args index po x"
    "attempt t args index x = (Matched, sr_new_index (scan_and_accept sg t opts args index fm po),
       sr_out (scan_and_accept sg t opts args index fm po))"
proof -
  define its where "its = drop (search_begin sg t opts (args ! index)) opts"
  let ?r = "scan_and_accept sg t opts args index fm po"
  have r: "?r = scan_loop t args index fm po its (scan_start index)"
    by (simp add: scan_and_accept_def search_begin_def its_def Let_def)
  have "\<exists>x\<in>set its. accepts t args index po x \<and> attempt t args index x = (Matched, sr_new_index ?r, sr_out ?r)"
  proof (cases fm)
    case True
    with scan_first [OF assms(1), of t po sg opts] assms(2) show ?thesis
      unfolding first_from_def its_def
      by (auto split: list.split_asm if_split_asm simp del: dropWhile_eq_Nil_conv)
         (metis dropWhile_eq_Nil_conv list.set_intros(1) set_dropWhileD)
  next
    case False
    with scan_loop_longest [OF assms(1), of "scan_start index" t po its] assms(2) show ?thesis
      unfolding r longest_from_def
      by (auto simp: scan_start_def is_longest_def split: if_splits intro: nth_mem)
  qed
  with that show thesis unfolding its_def by (metis in_set_dropD)
qed

lemma scan_missing:
  assumes "index < length args" "sr_result (scan_and_accept sg t opts args index fm po) = MissingValue"
  shows "length args < sr_new_index (scan_and_accept sg t opts args index fm po)"
  using assms scan_loop_missing [OF assms(1), of "scan_start index"]
  by (simp add: scan_and_accept_def Let_def scan_start_def)

lemma scan_matched_range:
  assumes "index < length args" "sr_result (scan_and_accept sg t opts args index fm po) = Matched"
  shows "index < sr_new_index (scan_and_accept sg t opts args index fm po)"
    "sr_new_index (scan_and_accept sg t opts args index fm po) \<le> length args"
    "pa_index (sr_out (scan_and_accept sg t opts args index fm po)) = index"
proof -
  obtain x where "attempt t args index x = (Matched, sr_new_index (scan_and_accept sg t opts args index fm po),
       sr_out (scan_and_accept sg t opts args index fm po))"
    using scan_matched [OF assms] by blast
  then show "index < sr_new_index (scan_and_accept sg t opts args index fm po)"
    "sr_new_index (scan_and_accept sg t opts args index fm po) \<le> length args"
    "pa_index (sr_out (scan_and_accept sg t opts args index fm po)) = index"
    using attempt_range [OF assms(1), of t x] by (simp_all add: accept_range_def)
qed

lemma consume_unknown_values_takes:
  assumes "index \<le> length args"
  shows "\<exists>after. index \<le> after \<and> after \<le> length args \<and> consume_unknown_values t opts args index out po
     = (after, out\<lparr>pa_values := pa_values out @ argv_slice args index after\<rparr>)"
  using assms
proof (induction "length args - index" arbitrary: index out)
  case 0
  then show ?case by (auto simp: consume_unknown_values.simps [of t opts args index] intro!: exI [of _ index])
next
  case (Suc n)
  then have lt: "index < length args" by linarith
  let ?stop = "args ! index = ''--'' \<or> \<not> is_input t (args ! index) \<and> is_known_option opts (args ! index) t po"
  show ?case
  proof (cases ?stop)
    case True
    then show ?thesis
      using lt by (auto simp: consume_unknown_values.simps [of t opts args index] Let_def intro!: exI [of _ index])
  next
    case False
    have "n = length args - Suc index" using Suc.hyps(2) by linarith
    then obtain after where "Suc index \<le> after" "after \<le> length args"
      "consume_unknown_values t opts args (Suc index) (add_value out (args ! index)) po
       = (after, (add_value out (args ! index))\<lparr>pa_values := pa_values (add_value out (args ! index)) @ argv_slice args (Suc index) after\<rparr>)"
      using Suc.hyps(1) [of "Suc index" "add_value out (args ! index)"] lt by auto
    with False lt show ?thesis
      by (auto simp: consume_unknown_values.simps [of t opts args index] Let_def add_value_def argv_slice_cons intro!: exI [of _ after])
  qed
qed

text \<open>A step takes elements from its index on, or misses a value past the end.\<close>

definition step_range :: "string list \<Rightarrow> nat \<Rightarrow> AcceptResult \<times> nat \<times> ParsedArg \<Rightarrow> bool" where
  "step_range args index r \<longleftrightarrow> accept_range args index r \<and> fst r \<noteq> NoMatch \<and> pa_index (snd (snd r)) = index"

lemma step_range_one: "index < length args \<Longrightarrow> step_range args index (Matched, Suc index, taken ident spell index)"
  by (simp add: step_range_def accept_range_def taken_def)

lemma unknown_step_range:
  assumes "index < length args"
  shows "step_range args index (Matched, unknown_step t args index po)"
proof -
  obtain after where "Suc index \<le> after" "after \<le> length args" and
    "consume_unknown_values t (search_range t) args (Suc index) (taken (unknown_option_id t) (args ! index) index) po
     = (after, (taken (unknown_option_id t) (args ! index) index)\<lparr>pa_values := pa_values (taken (unknown_option_id t) (args ! index) index)
          @ argv_slice args (Suc index) after\<rparr>)"
    using consume_unknown_values_takes [of "Suc index" args t "search_range t"
        "taken (unknown_option_id t) (args ! index) index" po] assms by auto
  with assms show ?thesis by (simp add: unknown_step_def Let_def step_range_def accept_range_def taken_def)
qed

lemma scan_step_range:
  assumes "index < length args" "scan = scan_and_accept sg t opts args index fm po"
  shows "sr_result scan = Matched \<Longrightarrow> step_range args index (Matched, sr_new_index scan, sr_out scan)"
    and "sr_result scan = MissingValue \<Longrightarrow> step_range args index (MissingValue, sr_new_index scan, cleared\<lparr>pa_index := index\<rparr>)"
  using assms scan_matched_range [OF assms(1), of sg t opts fm po] scan_missing [OF assms(1), of sg t opts fm po]
  by (simp_all add: step_range_def accept_range_def)

lemma parse_step_range:
  assumes "index < length args"
  shows "step_range args index (parse_step sg t args index po)"
  using assms scan_step_range [OF assms refl]
  by (simp add: parse_step_def Let_def step_range_one unknown_step_range)

text \<open>A step of a grouped parse may instead leave the rest of a group, shorter than the group.\<close>

definition group_left :: "string list \<Rightarrow> nat \<Rightarrow> (AcceptResult \<times> nat \<times> ParsedArg) \<times> string \<Rightarrow> bool" where
  "group_left args index r \<longleftrightarrow> 2 < length (args ! index) \<and> snd r = drop 2 (args ! index) \<and> fst (fst r) = Matched
     \<and> fst (snd (fst r)) = index \<and> pa_index (snd (snd (fst r))) = index"

lemma scan_fallback:
  assumes "index < length args" "sr_result (scan_and_accept sg t opts args index True po) = NoMatch"
    and "fallback_flag (scan_and_accept sg t opts args index True po) = Some flag"
  shows "flag \<in> set opts" "starts_group t args index po flag" "2 < length (args ! index)"
proof -
  define its where "its = drop (search_begin sg t opts (args ! index)) opts"
  have none: "\<forall>x\<in>set its. \<not> accepts t args index po x \<and> \<not> misses t args index po x"
    using first_from_no_match [OF scan_first [OF assms(1), of t po sg opts]] assms(2) by (simp add: its_def)
  have "scan_and_accept sg t opts args index True po
     = (case filter (starts_group t args index po) its of [] \<Rightarrow> found (scan_start index)
        | xs \<Rightarrow> (found (scan_start index))\<lparr>fallback_flag := Some (last xs)\<rparr>)"
    using scan_loop_refused [OF assms(1) none, of "scan_start index" True]
    by (simp add: scan_and_accept_def search_begin_def its_def Let_def scan_start_def)
  with assms(3) have "filter (starts_group t args index po) its \<noteq> []" "flag = last (filter (starts_group t args index po) its)"
    by (auto simp: scan_start_def split: list.splits)
  then have "flag \<in> set (filter (starts_group t args index po) its)" using last_in_set by metis
  then have flag: "flag \<in> set its" "starts_group t args index po flag" by auto
  then show "starts_group t args index po flag" "flag \<in> set opts" by (auto simp: its_def dest: in_set_dropD)
  show "2 < length (args ! index)" using starts_group_length [OF assms(1) flag(2)] none flag(1) by blast
qed

lemma accept_grouped_flag:
  assumes "opt_kind opt = Flag"
  shows "\<exists>out. accept_opt t opt args spell True index = (Matched, index, out) \<and> pa_index out = index"
  using assms by (auto simp: accept_opt_def Let_def add_value_def split: option.splits)

lemma parse_step_grouped_range:
  assumes "index < length args"
  shows "group_left args index (parse_step_grouped sg t args index po)
     \<or> snd (parse_step_grouped sg t args index po) = [] \<and> step_range args index (fst (parse_step_grouped sg t args index po))"
proof -
  let ?scan = "scan_and_accept sg t (search_range t) args index True po"
  consider (input) "is_input t (args ! index)"
    | (matched) "\<not> is_input t (args ! index)" "sr_result ?scan = Matched"
    | (missing) "\<not> is_input t (args ! index)" "sr_result ?scan = MissingValue"
    | (flag) flag where "\<not> is_input t (args ! index)" "sr_result ?scan = NoMatch" "fallback_flag ?scan = Some flag"
    | (none) "\<not> is_input t (args ! index)" "sr_result ?scan = NoMatch" "fallback_flag ?scan = None"
    by (cases "sr_result ?scan"; cases "fallback_flag ?scan") auto
  then show ?thesis
  proof cases
    case (flag f)
    note f = scan_fallback [OF assms flag(2,3)]
    from f(2) obtain out where "accept_opt t f args (take 2 (args ! index)) True index = (Matched, index, out)" "pa_index out = index"
      using accept_grouped_flag unfolding starts_group_def by blast
    with flag f(3) assms show ?thesis
      by (simp add: parse_step_grouped_def Let_def group_left_def step_range_one)
  next
    case none
    then show ?thesis
      using assms step_range_one [OF assms, of "unknown_option_id t" "take 2 (args ! index)"] unknown_step_range [OF assms, of t po]
      by (cases "1 < length (args ! index) \<and> args ! index ! 1 \<noteq> CHR ''-''"; cases "2 < length (args ! index)")
        (simp_all add: parse_step_grouped_def Let_def group_left_def taken_def)
  qed (use assms scan_step_range [OF assms refl] in \<open>simp_all add: parse_step_grouped_def Let_def step_range_one\<close>)
qed

lemma take_step_left:
  assumes "it_index it < length args"
  shows "(left_of args (snd (take_step sg t args po it)), left_of args it) \<in> less_than <*lex*> less_than"
proof -
  have later: "(left_of args it', left_of args it) \<in> less_than <*lex*> less_than"
    if "step_range args' (it_index it) r" "length args' = length args" "it_index it' = fst (snd r)" for it' r args'
    using that assms by (cases r) (auto simp: left_of_def step_range_def accept_range_def split: AcceptResult.splits)
  show ?thesis
  proof (cases "grouped_short_options po")
    case False
    obtain result after out where step: "parse_step sg t args (it_index it) po = (result, after, out)"
      by (cases "parse_step sg t args (it_index it) po")
    show ?thesis
      by (rule later [OF parse_step_range [OF assms, of sg t po]]) (simp_all add: take_step_def False step Let_def)
  next
    case True
    let ?args = "if group_buf it = [] then args else args[it_index it := group_buf it]"
    obtain result after out rest where step: "parse_step_grouped sg t ?args (it_index it) po = ((result, after, out), rest)"
      by (metis prod.exhaust)
    have idx: "it_index it < length ?args" using assms by simp
    have it': "snd (take_step sg t args po it) = it\<lparr>group_buf := if rest = [] then [] else CHR ''-'' # rest, it_index := after\<rparr>"
      using True step by (simp add: take_step_def Let_def)
    show ?thesis
    proof (cases "group_left ?args (it_index it) ((result, after, out), rest)")
      case left: True
      then show ?thesis using assms by (auto simp: it' left_of_def group_left_def)
    next
      case False
      with parse_step_grouped_range [OF idx, of sg t po] have "step_range ?args (it_index it) (result, after, out)"
        unfolding step by simp
      then show ?thesis by (rule later) (simp_all add: it')
    qed
  qed
qed

lemma advance_left:
  assumes "fst (advance sg t args po it) \<noteq> None"
  shows "(left_of args (snd (advance sg t args po it)), left_of args it) \<in> less_than <*lex*> less_than"
  using assms
proof (induction sg t args po it rule: advance.induct)
  case (1 sg t args po it)
  let ?it = "it\<lparr>past_dash_dash := True\<rparr>"
  have jump: "(left_of args it', left_of args it) \<in> less_than <*lex*> less_than"
    if "it_index it < it_index it'" "it_index it < length args" for it'
    using that by (auto simp: left_of_def)
  consider (input) "past_dash_dash it"
    | (pack) "\<not> past_dash_dash it" "dash_dash_parsing po" "args ! it_index it = ''--''" "dash_dash_packing po"
    | (skip) "\<not> past_dash_dash it" "dash_dash_parsing po" "args ! it_index it = ''--''" "\<not> dash_dash_packing po"
    | (step) "\<not> past_dash_dash it" "\<not> (dash_dash_parsing po \<and> args ! it_index it = ''--'')"
    by blast
  moreover have lt: "it_index it < length args"
    using "1.prems" by (auto simp: advance.simps [of sg t args po it] split: if_splits)
  ultimately show ?case
  proof cases
    case input
    with lt show ?thesis by (simp add: advance.simps [of sg t args po it] take_input_def Let_def jump)
  next
    case pack
    with lt show ?thesis by (simp add: advance.simps [of sg t args po it] pack_rest_def Let_def jump)
  next
    case skip
    with lt have eq: "advance sg t args po it = advance sg t args po (?it\<lparr>it_index := it_index ?it + 1\<rparr>)"
      by (subst advance.simps) (simp add: Let_def)
    have "(left_of args (snd (advance sg t args po it)), left_of args (?it\<lparr>it_index := it_index ?it + 1\<rparr>)) \<in> less_than <*lex*> less_than"
      unfolding eq by (rule "1.IH") (use lt skip "1.prems" eq in auto)
    then show ?thesis
      using jump [of "?it\<lparr>it_index := it_index ?it + 1\<rparr>"] lt transD [OF trans_lex_prod [OF trans_less_than trans_less_than]] by auto
  next
    case step
    with lt take_step_left [OF lt, of sg t po] show ?thesis by (auto simp: advance.simps [of sg t args po it])
  qed
qed

lemma advance_left_of:
  "(Some x, it') = advance sg t args po it \<Longrightarrow> (left_of args it', left_of args it) \<in> less_than <*lex*> less_than"
  by (drule sym) (use advance_left [of sg t args po it] in simp)

function parse_from :: "bool \<Rightarrow> OptTable \<Rightarrow> string list \<Rightarrow> ParseOptions \<Rightarrow> iter \<Rightarrow> (Error + ParsedArg) list" where
  "parse_from sgn_char t args po it =
     (case advance sgn_char t args po it of (None, _) \<Rightarrow> [] | (Some r, it') \<Rightarrow> r # parse_from sgn_char t args po it')"
  by pat_completeness auto
termination
  by (relation "inv_image (less_than <*lex*> less_than) (\<lambda>(sgn_char, t, args, po, it). left_of args it)")
    (auto dest: advance_left_of)

declare parse_from.simps [simp del]

definition parse :: "bool \<Rightarrow> OptTable \<Rightarrow> string list \<Rightarrow> ParseOptions \<Rightarrow> (Error + ParsedArg) list" where
  "parse sgn_char t args po = parse_from sgn_char t args po \<lparr>it_index = 0, group_buf = [], past_dash_dash = False\<rparr>"

text \<open>Induction over the advances of a parse.\<close>

lemma iter_induct [case_names 1]:
  assumes "\<And>it. (\<And>r it'. advance sg t args po it = (Some r, it') \<Longrightarrow> P it') \<Longrightarrow> P it"
  shows "P it"
proof (induction "left_of args it" arbitrary: it rule: wf_induct_rule [OF wf_lex_prod [OF wf_less_than wf_less_than]])
  case (1 it)
  then show ?case using advance_left_of [of _ _ sg t args po it] by (metis assms)
qed

end
