(* ===== verification/Opt_Cover.thy ===== *)
theory Opt_Cover
  imports Opt_Parse
begin

text \<open>
  What the parse of an argv against an option table promises: it accounts for every element of the argv,
  and a sorted table parses by binary search as it does by the longest match.
\<close>

section \<open>The argv is covered\<close>

text \<open>
  The inputs the elements from an index on are, each by itself.
\<close>

definition inputs_from :: "OptTable \<Rightarrow> string list \<Rightarrow> nat \<Rightarrow> (Error + ParsedArg) list" where
  "inputs_from t args i =
     map (\<lambda>j. Inr ((taken (input_option_id t) (args ! j) j)\<lparr>next_index := Suc j\<rparr>)) [i..<length args]"

text \<open>
  Arguments that follow each other through an argv from an index on, each with its text, up to the end
  or to the error of a missing value. The text is read by \<^verbatim>\<open>f\<close>. Where \<^verbatim>\<open>--\<close> ends the options
  (\<^verbatim>\<open>dashes\<close>), one in the place of an argument stands for nothing itself, and what follows it
  is inputs.
\<close>

fun tiles :: "(string \<Rightarrow> string) \<Rightarrow> OptTable \<Rightarrow> bool \<Rightarrow> string list \<Rightarrow> nat \<Rightarrow> (Error + ParsedArg) list \<Rightarrow> bool" where
  "tiles f t dashes args i rs =
     (if dashes \<and> i < length args \<and> args ! i = ''--'' then rs = inputs_from t args (Suc i)
      else case rs of
        [] \<Rightarrow> i = length args
      | Inr a # rs \<Rightarrow> pa_index a = i \<and> i < next_index a \<and> next_index a \<le> length args
          \<and> f (arg_text a) = f (concat (argv_slice args i (next_index a))) \<and> tiles f t dashes args (next_index a) rs
      | Inl e # rs \<Rightarrow> i < length args \<and> rs = []
          \<and> e = error_at MissingValueError ''missing argument value'' args i (i + 1))"

declare tiles.simps [simp del]

text \<open>Whether a parse skips \<^verbatim>\<open>--\<close> and takes the rest as inputs.\<close>

definition skips_dashes :: "ParseOptions \<Rightarrow> bool" where
  "skips_dashes po \<longleftrightarrow> dash_dash_parsing po \<and> \<not> dash_dash_packing po"

text \<open>A list of comma-separated values keeps its text up to the commas.\<close>

definition reads_text :: "(string \<Rightarrow> string) \<Rightarrow> OptTable \<Rightarrow> bool" where
  "reads_text f t \<longleftrightarrow> f = without_commas \<or> f = (\<lambda>s. s) \<and> list_all (\<lambda>opt. opt_kind opt \<noteq> CommaJoined) (search_range t)"

definition no_alias_args :: "OptTable \<Rightarrow> bool" where
  "no_alias_args t \<longleftrightarrow> list_all (\<lambda>opt. alias_args opt = None) (search_range t)"

lemma attempt_text:
  assumes "index < length args" "attempt t args index x = (Matched, after, out)" "x \<in> set (search_range t)"
    and "no_alias_args t" "reads_text f t"
  shows "f (arg_text out) = f (concat (argv_slice args index after))"
proof -
  let ?n = "match_size t args index x"
  obtain out' where acc: "accept_internal x args (take ?n (args ! index)) index = (Matched, after, out')"
    and out: "arg_text out = arg_text out'"
    using assms(2-4)
    by (cases "accept_internal x args (take ?n (args ! index)) index")
      (auto simp: attempt_def accept_opt_eq alias_values_def arg_text_def no_alias_args_def list_all_iff Let_def split: if_splits)
  have n: "?n \<le> length (args ! index)" by (simp add: match_size_def match_opt_length)
  show ?thesis
    using assms(3,5) accept_internal_text [OF assms(1) n acc] by (auto simp: out reads_text_def list_all_iff)
qed

lemma arg_text_taken [simp]: "arg_text (taken ident s index) = s"
  by (simp add: arg_text_def taken_def cleared_def)

lemma argv_slice_cons_text:
  assumes "index < length args" "Suc index \<le> after"
  shows "args ! index @ concat (argv_slice args (Suc index) after) = concat (argv_slice args index after)"
  using assms by (simp add: argv_slice_cons [of index])

lemma unknown_step_text:
  assumes "index < length args" "unknown_step t args index po = (after, out)"
  shows "arg_text out = concat (argv_slice args index after)"
  using assms(2) consume_unknown_values_takes [of "Suc index" args t "search_range t"
      "taken (unknown_option_id t) (args ! index) index" po] assms(1)
  by (auto simp: unknown_step_def Let_def argv_slice_one arg_text_def taken_def cleared_def argv_slice_cons_text split: if_splits)

lemma parse_step_text:
  assumes "index < length args" "no_alias_args t" "reads_text f t" "parse_step sg t args index po = (Matched, after, out)"
  shows "f (arg_text out) = f (concat (argv_slice args index after))"
proof -
  let ?scan = "scan_and_accept sg t (search_range t) args index (tablegen_mode t) po"
  show ?thesis
  proof (cases "\<not> is_input t (args ! index) \<and> sr_result ?scan = Matched")
    case True
    with assms(4) have "after = sr_new_index ?scan" "out = sr_out ?scan" by (auto simp: parse_step_def Let_def)
    with scan_matched [OF assms(1), of sg t "search_range t" "tablegen_mode t" po] True assms(1-3)
    show ?thesis by (metis attempt_text)
  next
    case False
    then show ?thesis
      using assms(1,4) unknown_step_text [OF assms(1), of t po]
      by (auto simp: parse_step_def Let_def argv_slice_one split: if_splits)
  qed
qed

lemma parse_from_done:
  "length args \<le> it_index it \<Longrightarrow> parse_from sg t args po it = []"
  by (simp add: parse_from.simps [of sg t args po it] advance.simps [of sg t args po it])

lemma parse_from_Some:
  "advance sg t args po it = (Some r, it') \<Longrightarrow> parse_from sg t args po it = r # parse_from sg t args po it'"
  by (simp add: parse_from.simps [of sg t args po it])

lemma parse_from_past:
  assumes "past_dash_dash it"
  shows "parse_from sg t args po it = inputs_from t args (it_index it)"
  using assms
proof (induction it rule: iter_induct [where sg = sg and t = t and args = args and po = po])
  case (1 it)
  show ?case
  proof (cases "it_index it < length args")
    case True
    with 1(2) have adv: "advance sg t args po it = (Some (Inr ((taken (input_option_id t) (args ! it_index it) (it_index it))
        \<lparr>next_index := Suc (it_index it)\<rparr>)), it\<lparr>it_index := Suc (it_index it)\<rparr>)"
      by (simp add: advance.simps [of sg t args po it] take_input_def Let_def)
    show ?thesis
      using 1(1) [OF adv] 1(2) True by (simp add: parse_from_Some [OF adv] inputs_from_def upt_rec [of "it_index it"])
  qed (simp add: parse_from_done inputs_from_def)
qed

text \<open>What one advance of an ungrouped parse gives before the options end, or that it skips a \<^verbatim>\<open>--\<close>.\<close>

lemma advance_cases:
  assumes "it_index it < length args" "\<not> grouped_short_options po" "\<not> past_dash_dash it"
  obtains (skip) "parse_from sg t args po it = inputs_from t args (Suc (it_index it))"
        "skips_dashes po" "args ! it_index it = ''--''"
    | (pack) "advance sg t args po it = pack_rest t args (it\<lparr>past_dash_dash := True\<rparr>)" "args ! it_index it = ''--''"
        "\<not> skips_dashes po"
    | (matched) after out where "parse_step sg t args (it_index it) po = (Matched, after, out)"
        "advance sg t args po it = (Some (Inr (out\<lparr>next_index := after\<rparr>)), it\<lparr>it_index := after\<rparr>)"
        "\<not> (skips_dashes po \<and> args ! it_index it = ''--'')"
    | (missing) after where "length args < after" "advance sg t args po it
        = (Some (Inl (error_at MissingValueError ''missing argument value'' args (it_index it) (it_index it + 1))), it\<lparr>it_index := after\<rparr>)"
        "\<not> (skips_dashes po \<and> args ! it_index it = ''--'')"
proof -
  let ?dashes = "dash_dash_parsing po \<and> args ! it_index it = ''--''"
  show thesis
  proof (cases ?dashes)
    case True
    show thesis
    proof (cases "dash_dash_packing po")
      case pk: True
      with True assms have "advance sg t args po it = pack_rest t args (it\<lparr>past_dash_dash := True\<rparr>)"
        by (simp add: advance.simps [of sg t args po it] Let_def)
      with True pk show thesis by (intro pack) (simp_all add: skips_dashes_def)
    next
      case pk: False
      let ?it = "it\<lparr>past_dash_dash := True, it_index := Suc (it_index it)\<rparr>"
      have "advance sg t args po it = advance sg t args po ?it"
        using True pk assms by (subst advance.simps) (simp add: Let_def)
      then have "parse_from sg t args po it = parse_from sg t args po ?it"
        by (simp add: parse_from.simps [of sg t args po it] parse_from.simps [of sg t args po ?it])
      with True pk parse_from_past [of ?it] show thesis by (intro skip) (simp_all add: skips_dashes_def)
    qed
  next
    case False
    then have dashes: "\<not> (skips_dashes po \<and> args ! it_index it = ''--'')" by (auto simp: skips_dashes_def)
    have step: "advance sg t args po it = take_step sg t args po it"
      using advance.simps [of sg t args po it] assms False by auto
    obtain result after out where s: "parse_step sg t args (it_index it) po = (result, after, out)"
      by (cases "parse_step sg t args (it_index it) po")
    with step dashes parse_step_range [OF assms(1), of sg t po] assms(2) show thesis
      by (cases result) (auto simp: take_step_def step_range_def accept_range_def intro: matched missing)
  qed
qed

lemma parse_from_tiles:
  assumes "\<not> grouped_short_options po" "no_alias_args t" "reads_text f t"
    and "it_index it \<le> length args" "\<not> past_dash_dash it"
  shows "tiles f t (skips_dashes po) args (it_index it) (parse_from sg t args po it)"
  using assms(4,5)
proof (induction it rule: iter_induct [where sg = sg and t = t and args = args and po = po])
  case (1 it)
  show ?case
  proof (cases "it_index it = length args")
    case False
    then have lt: "it_index it < length args" using 1(2) by simp
    show ?thesis
      using lt assms(1) 1(3)
    proof (cases rule: advance_cases [where sg = sg and t = t])
      case skip
      with lt show ?thesis by (simp add: tiles.simps [of f])
    next
      case pack
      then have adv: "advance sg t args po it = (Some (Inr ((taken (input_option_id t) ''--'' (it_index it))
          \<lparr>pa_values := drop (it_index it + 1) args, next_index := length args\<rparr>)), it\<lparr>past_dash_dash := True, it_index := length args\<rparr>)"
        by (simp add: pack_rest_def Let_def)
      have "arg_text ((taken (input_option_id t) ''--'' (it_index it))\<lparr>pa_values := drop (it_index it + 1) args, next_index := length args\<rparr>)
          = concat (drop (it_index it) args)"
        using pack(2) lt argv_slice_cons_text [OF lt, of "length args"] by (simp add: arg_text_def taken_def)
      then show ?thesis
        using lt pack(3) by (simp add: parse_from_Some [OF adv] parse_from_done tiles.simps [of f] taken_def cleared_def)
    next
      case (matched after out)
      then have rng: "it_index it < after" "after \<le> length args" "pa_index out = it_index it"
        using parse_step_range [OF lt, of sg t po] by (simp_all add: step_range_def accept_range_def)
      with 1(1) [OF matched(2)] 1(3) parse_step_text [OF lt assms(2,3) matched(1)] matched(3) show ?thesis
        by (auto simp: parse_from_Some [OF matched(2)] arg_text_def tiles.simps [of f t _ args "it_index it"])
    next
      case (missing after)
      then show ?thesis using lt by (auto simp: parse_from_Some [OF missing(2)] parse_from_done tiles.simps [of f])
    qed
  qed (simp add: parse_from_done tiles.simps [of f])
qed

text \<open>
  C9: a parse without groups of short options, of a table whose aliases add no values, gives
  arguments that follow each other through the whole argv, each at its index, up to where the next one
  starts, with a spelling and values that are the text of its elements (up to the commas of lists of
  values), or ends with the error of the option that misses its value. The one element it passes over is
  a \<^verbatim>\<open>--\<close> that ends the options, where the parse looks for one and does not pack what follows
  into one argument: the elements behind it are inputs, one argument each.
\<close>

theorem parse_covers:
  assumes "\<not> grouped_short_options po" "no_alias_args t"
  shows "tiles without_commas t (dash_dash_parsing po \<and> \<not> dash_dash_packing po) args 0 (parse sg t args po)
     \<and> (list_all (\<lambda>opt. opt_kind opt \<noteq> CommaJoined) (search_range t) \<longrightarrow>
        tiles (\<lambda>s. s) t (dash_dash_parsing po \<and> \<not> dash_dash_packing po) args 0 (parse sg t args po))"
  using parse_from_tiles [OF assms, of _ "\<lparr>it_index = 0, group_buf = [], past_dash_dash = False\<rparr>" args sg]
  by (simp add: parse_def reads_text_def skips_dashes_def)

text \<open>The options the commands of the library are parsed with, when no field takes the rest.\<close>

definition dash_options :: ParseOptions where
  "dash_options = default_options\<lparr>dash_dash_parsing := True\<rparr>"

theorem parse_covers_witness:
  "tiles (\<lambda>s. s) sample_table True [''-v'', ''--level=3'', ''-o'', ''x'', ''--'', ''-u''] 0
     (parse True sample_table [''-v'', ''--level=3'', ''-o'', ''x'', ''--'', ''-u''] dash_options)"
proof -
  have "\<not> grouped_short_options dash_options" "no_alias_args sample_table"
    "dash_dash_parsing dash_options" "\<not> dash_dash_packing dash_options"
    "list_all (\<lambda>opt. opt_kind opt \<noteq> CommaJoined) (search_range sample_table)" by code_simp+
  with parse_covers [OF this(1,2)] show ?thesis by simp
qed

section \<open>Sorted tables\<close>

lemma tablegen_off_tables [simp]:
  "search_range (t\<lparr>tablegen_mode := b\<rparr>) = search_range t" "is_input (t\<lparr>tablegen_mode := b\<rparr>) = is_input t"
  "is_known_option opts str (t\<lparr>tablegen_mode := b\<rparr>) = is_known_option opts str t"
  by (simp_all add: search_range_def is_input_def is_known_option_def fun_eq_iff)

lemma consume_unknown_values_tablegen [simp]:
  "consume_unknown_values (t\<lparr>tablegen_mode := b\<rparr>) opts args index out po = consume_unknown_values t opts args index out po"
proof (induction t opts args index out po rule: consume_unknown_values.induct)
  case (1 t opts args index out po)
  show ?case
    using 1 consume_unknown_values.simps [of t opts args index out po]
      consume_unknown_values.simps [of "t\<lparr>tablegen_mode := b\<rparr>" opts args index out po]
    by (auto simp: Let_def)
qed

definition binary_searchable :: "bool \<Rightarrow> OptTable \<Rightarrow> bool" where
  "binary_searchable sg t \<longleftrightarrow> tablegen_mode t \<and> sorted_wrt (opt_before sg) (search_range t) \<and> plain_names t (search_range t)"

lemma parse_step_tablegen:
  assumes "index < length args" "binary_searchable sg t" "fst (parse_step sg t args index po) \<noteq> MissingValue"
  shows "parse_step sg (t\<lparr>tablegen_mode := False\<rparr>) args index po = parse_step sg t args index po"
proof -
  have mode: "tablegen_mode t" and "sorted_wrt (opt_before sg) (search_range t)" "plain_names t (search_range t)"
    using assms(2) by (simp_all add: binary_searchable_def)
  note scan = tablegen_scan [OF assms(1) this, of po]
  show ?thesis
  proof (cases "sr_result (scan_and_accept sg t (search_range t) args index True po)")
    case Matched
    with scan(1) mode show ?thesis by (simp add: parse_step_def Let_def)
  next
    case NoMatch
    with scan(2) mode show ?thesis by (simp add: parse_step_def unknown_step_def Let_def)
  next
    case MissingValue
    with assms(3) mode show ?thesis by (auto simp: parse_step_def Let_def split: if_splits)
  qed
qed

lemma take_step_tablegen:
  assumes "binary_searchable sg t" "\<not> grouped_short_options po" "it_index it < length args"
    and "\<forall>e. fst (take_step sg t args po it) \<noteq> Some (Inl e)"
  shows "take_step sg (t\<lparr>tablegen_mode := False\<rparr>) args po it = take_step sg t args po it"
proof -
  have "fst (parse_step sg t args (it_index it) po) \<noteq> MissingValue"
    using assms(2,4) by (cases "parse_step sg t args (it_index it) po") (auto simp: take_step_def Let_def)
  with parse_step_tablegen [OF assms(3,1)] assms(2) show ?thesis by (simp add: take_step_def)
qed

lemma advance_tablegen:
  assumes "binary_searchable sg t" "\<not> grouped_short_options po" "\<forall>e. fst (advance sg t args po it) \<noteq> Some (Inl e)"
  shows "advance sg (t\<lparr>tablegen_mode := False\<rparr>) args po it = advance sg t args po it"
  using assms
proof (induction sg t args po it rule: advance.induct)
  case (1 sg t args po it)
  note eqs = advance.simps [of sg t args po it] advance.simps [of sg "t\<lparr>tablegen_mode := False\<rparr>" args po it]
  have parts: "take_input (t\<lparr>tablegen_mode := False\<rparr>) args i = take_input t args i"
    "pack_rest (t\<lparr>tablegen_mode := False\<rparr>) args i = pack_rest t args i" for i
    by (simp_all add: take_input_def pack_rest_def)
  let ?dashes = "\<not> past_dash_dash it \<and> dash_dash_parsing po \<and> args ! it_index it = ''--''"
  show ?case
  proof (cases "it_index it < length args \<and> \<not> (?dashes \<and> \<not> dash_dash_packing po)")
    case True
    with 1(2-4) take_step_tablegen [OF 1(2,3)] eqs parts show ?thesis
      by (cases ?dashes; cases "past_dash_dash it") (auto simp: Let_def)
  next
    case False
    with 1 eqs show ?thesis by (cases "length args \<le> it_index it") (auto simp: Let_def)
  qed
qed

lemma parse_from_tablegen:
  assumes "binary_searchable sg t" "\<not> grouped_short_options po" "list_all (\<lambda>r. \<not> isl r) (parse_from sg t args po it)"
  shows "parse_from sg (t\<lparr>tablegen_mode := False\<rparr>) args po it = parse_from sg t args po it"
  using assms(3)
proof (induction it rule: iter_induct [where sg = sg and t = t and args = args and po = po])
  case (1 it)
  obtain r it' where adv: "advance sg t args po it = (r, it')" by (cases "advance sg t args po it")
  with 1(2) have "\<forall>e. fst (advance sg t args po it) \<noteq> Some (Inl e)"
    by (auto simp: parse_from.simps [of sg t args po it])
  note off = advance_tablegen [OF assms(1,2) this]
  show ?case
  proof (cases r)
    case None
    with off adv show ?thesis by (simp add: parse_from.simps [of _ _ _ _ it])
  next
    case (Some x)
    with adv have "advance sg t args po it = (Some x, it')" by simp
    with 1(1) [OF this] 1(2) off show ?thesis by (simp add: parse_from_Some)
  qed
qed

text \<open>
  C10: where the options are sorted by name, as the names of a generated table are, and no
  name starts with a character of a prefix, a parse that searches them by bisection and takes the first
  match gives what the longest match of all options gives, unless it reports a missing value.
\<close>

theorem tablegen_parse:
  assumes "binary_searchable sg t" "\<not> grouped_short_options po" "list_all (\<lambda>r. \<not> isl r) (parse sg t args po)"
  shows "parse sg (t\<lparr>tablegen_mode := False\<rparr>) args po = parse sg t args po"
  using assms unfolding parse_def by (rule parse_from_tablegen)

theorem tablegen_parse_witness:
  "parse True (sample_table\<lparr>tablegen_mode := True, tablegen_mode := False\<rparr>) [''-v'', ''--level=3'', ''-o'', ''x''] default_options
     = parse True (sample_table\<lparr>tablegen_mode := True\<rparr>) [''-v'', ''--level=3'', ''-o'', ''x''] default_options"
proof (rule tablegen_parse)
  show "binary_searchable True (sample_table\<lparr>tablegen_mode := True\<rparr>)" by code_simp
  show "\<not> grouped_short_options default_options" by code_simp
  show "list_all (\<lambda>r. \<not> isl r) (parse True (sample_table\<lparr>tablegen_mode := True\<rparr>) [''-v'', ''--level=3'', ''-o'', ''x''] default_options)"
    by code_simp
qed

end
