(* ===== verification/Opt_Render.thy ===== *)
theory Opt_Render
  imports Opt_Cover
begin

text \<open>
  What an option table gives beside its parse (\<^verbatim>\<open>src/cli/table/table.cc\<close>,
  \<^verbatim>\<open>src/cli/table/option.cc\<close>): the option an argument names, and the argv fragments a parsed
  argument is written with. What a callback is given is the list of its calls.
\<close>

section \<open>Finding and rendering\<close>

definition find_option :: "bool \<Rightarrow> OptTable \<Rightarrow> string \<Rightarrow> 32 word \<Rightarrow> Option option" where
  "find_option sgn_char t argument vis =
     (let arg_str = (if ends_with argument ''='' then argument @ ''placeholder'' else argument);
          scan = scan_and_accept sgn_char t (search_range t) [arg_str, ''placeholder''] 0 False (default_options\<lparr>visibility := vis\<rparr>) in
      if sr_result scan = Matched then table_option t (pa_id (sr_out scan)) else None)"

fun join_commas :: "string list \<Rightarrow> string" where
  "join_commas [] = []"
| "join_commas [v] = v"
| "join_commas (v # vs) = v @ CHR '','' # join_commas vs"

definition render :: "OptTable \<Rightarrow> ParsedArg \<Rightarrow> string list" where
  "render t arg =
     (case table_option t (pa_id arg) of
        None \<Rightarrow> spelling arg # pa_values arg
      | Some opt \<Rightarrow>
          if opt_kind opt = Input \<or> opt_kind opt = Unknown then spelling arg # pa_values arg
          else if opt_flags opt AND RenderAsInput \<noteq> 0 then pa_values arg
          else let name = prefixed_name (unaliased_option t opt) in
            case render_style opt of
              StyleValues \<Rightarrow> pa_values arg
            | StyleJoined \<Rightarrow> (case pa_values arg of [] \<Rightarrow> [name] | v # vs \<Rightarrow> (name @ v) # vs)
            | StyleSeparate \<Rightarrow> name # pa_values arg
            | StyleCommaJoined \<Rightarrow> [name @ join_commas (pa_values arg)])"

text \<open>Whether an option is part of another or of a group; groups that contain each other do not end.\<close>

partial_function (option) matches :: "OptTable \<Rightarrow> Option \<Rightarrow> nat \<Rightarrow> bool option" where
  "matches t opt ident =
     (case table_option t (alias_id opt) of
        Some als \<Rightarrow> matches t als ident
      | None \<Rightarrow>
          if opt_id opt = ident then Some True
          else case table_option t (group_id opt) of Some g \<Rightarrow> matches t g ident | None \<Rightarrow> Some False)"

section \<open>Rendering an argv\<close>

text \<open>
  Options that are written one way only: one prefix, no alias, no flag that changes the style, and a kind
  whose values are always joined, always separate, or both.
\<close>

definition written_once :: "OptTable \<Rightarrow> Option \<Rightarrow> bool" where
  "written_once t opt \<longleftrightarrow> table_option t (opt_id opt) = Some opt \<and> alias_id opt = 0 \<and>
     length (opt_prefixes opt) = 1 \<and> starts_with (prefixed_name opt) (hd (opt_prefixes opt))
     \<and> opt_flags opt AND RenderAsInput = 0 \<and> opt_flags opt AND RenderJoined = 0 \<and> opt_flags opt AND RenderSeparate = 0
     \<and> opt_kind opt \<in> {Flag, Joined, Separate, MultiArg, JoinedAndSeparate, RemainingArgs}"

definition plain_id :: "OptTable \<Rightarrow> nat \<Rightarrow> bool" where
  "plain_id t ident \<longleftrightarrow> (case table_option t ident of None \<Rightarrow> True | Some opt \<Rightarrow> opt_kind opt = Input \<or> opt_kind opt = Unknown)"

definition canonical :: "OptTable \<Rightarrow> bool" where
  "canonical t \<longleftrightarrow> \<not> ignore_case t \<and> plain_id t (input_option_id t) \<and> plain_id t (unknown_option_id t)
     \<and> list_all (written_once t) (search_range t)"

lemma render_plain: "plain_id t (pa_id a) \<Longrightarrow> render t a = spelling a # pa_values a"
  by (auto simp: render_def plain_id_def split: option.splits)

lemma written_once_match:
  assumes "written_once t x" "match_opt x str False \<noteq> 0"
  shows "take (match_opt x str False) str = prefixed_name x"
proof -
  obtain p where p: "opt_prefixes x = [p]" using assms(1) by (auto simp: written_once_def length_Suc_conv)
  then have name: "prefixed_name x = p @ option_name x"
    using assms(1) by (auto simp: written_once_def option_name_def has_no_prefix_def starts_with_iff)
  show ?thesis
    using assms(2) p name by (auto simp: match_opt_def starts_with_iff split: if_splits)
qed

lemma render_written_once:
  assumes "written_once t x" "pa_id out = opt_id x"
  shows "render t out = (if opt_kind x = Joined \<or> opt_kind x = JoinedAndSeparate
     then case pa_values out of [] \<Rightarrow> [prefixed_name x] | v # vs \<Rightarrow> (prefixed_name x @ v) # vs
     else prefixed_name x # pa_values out)"
proof -
  have "unaliased_option t x = x" using assms(1) by (simp add: written_once_def unaliased_option_def table_option_def [of t 0])
  then show ?thesis
    using assms by (auto simp: render_def written_once_def render_style_def Let_def)
qed

lemma render_attempt:
  assumes "index < length args" "canonical t" "x \<in> set (search_range t)" "match_size t args index x \<noteq> 0"
    and "attempt t args index x = (Matched, after, out)"
  shows "render t out = argv_slice args index after"
proof -
  let ?n = "match_size t args index x"
  have once: "written_once t x" and ic: "\<not> ignore_case t" using assms(2,3) by (auto simp: canonical_def list_all_iff)
  then have un: "unaliased_option t x = x" by (simp add: written_once_def unaliased_option_def table_option_def [of t 0])
  obtain out' where acc: "accept_internal x args (take ?n (args ! index)) index = (Matched, after, out')"
    and out: "out = out'\<lparr>pa_id := opt_id x\<rparr>"
    using assms(5) un
    by (cases "accept_internal x args (take ?n (args ! index)) index")
      (auto simp: attempt_def accept_opt_eq alias_values_def Let_def split: if_splits)
  have name: "prefixed_name x = take ?n (args ! index)"
    using written_once_match [OF once] assms(4) ic by (simp add: match_size_def)
  have n: "?n \<le> length (args ! index)" by (simp add: match_size_def match_opt_length)
  show ?thesis
    using acc once n assms(1) unfolding render_written_once [OF once, of out, unfolded out, simplified, folded out] name
    by (cases "opt_kind x")
      (auto simp: out accept_internal_def written_once_def Let_def cleared_def add_value_def argv_slice_cons argv_slice_def [of _ "Suc index"]
        take_Suc_conv_app_nth split: if_splits)
qed

lemma render_next_index [simp]: "render t (a\<lparr>next_index := n\<rparr>) = render t a"
  by (simp add: render_def Let_def split: option.split RenderStyle.split)

lemma render_taken:
  "plain_id t ident \<Longrightarrow> render t ((taken ident s index)\<lparr>pa_values := vs\<rparr>) = s # vs"
  by (simp add: render_plain taken_def)

lemma taken_no_values: "taken ident s index = (taken ident s index)\<lparr>pa_values := []\<rparr>"
  by (simp add: taken_def cleared_def)

lemma render_unknown_step:
  assumes "index < length args" "canonical t" "unknown_step t args index po = (after, out)"
  shows "render t out = argv_slice args index after"
proof -
  have "plain_id t (unknown_option_id t)" using assms(2) by (simp add: canonical_def)
  then have taken: "render t ((taken (unknown_option_id t) (args ! index) index)\<lparr>pa_values := vs\<rparr>) = args ! index # vs" for vs
    by (rule render_taken)
  show ?thesis
    using assms(1,3) taken taken [of "[]", folded taken_no_values]
      consume_unknown_values_takes [of "Suc index" args t "search_range t" "taken (unknown_option_id t) (args ! index) index" po]
    by (auto simp: unknown_step_def Let_def argv_slice_one argv_slice_cons [of index] taken_def cleared_def split: if_splits)
qed

lemma render_parse_step:
  assumes "index < length args" "canonical t" "parse_step sg t args index po = (Matched, after, out)"
  shows "render t out = argv_slice args index after"
proof -
  let ?scan = "scan_and_accept sg t (search_range t) args index (tablegen_mode t) po"
  show ?thesis
  proof (cases "\<not> is_input t (args ! index) \<and> sr_result ?scan = Matched")
    case True
    then have "after = sr_new_index ?scan" "out = sr_out ?scan" using assms(3) by (auto simp: parse_step_def Let_def)
    with scan_matched [OF assms(1), of sg t "search_range t" "tablegen_mode t" po] True obtain x
      where "x \<in> set (search_range t)" "accepts t args index po x" "attempt t args index x = (Matched, after, out)" by metis
    then show ?thesis using render_attempt [OF assms(1,2)] by (simp add: accepts_def eligible_def)
  next
    case False
    have "plain_id t (input_option_id t)" using assms(2) by (simp add: canonical_def)
    from render_taken [OF this, of "[]" "args ! index" index, folded taken_no_values] False
    show ?thesis
      using assms(1,3) render_unknown_step [OF assms(1,2)]
      by (auto simp: parse_step_def Let_def argv_slice_one split: if_splits)
  qed
qed

lemma render_inputs:
  assumes "canonical t"
  shows "concat (map (\<lambda>r. render t (projr r)) (inputs_from t args i)) = drop i args"
proof -
  have "plain_id t (input_option_id t)" using assms by (simp add: canonical_def)
  from render_taken [OF this, of "[]", folded taken_no_values]
  have "concat (map (\<lambda>r. render t (projr r)) (inputs_from t args i)) = map ((!) args) [i..<length args]"
    by (simp add: inputs_from_def comp_def concat_map_singleton)
  also have "\<dots> = drop i args" using arg_cong [OF map_nth [of args], of "drop i"] by (simp add: drop_map)
  finally show ?thesis .
qed

text \<open>
  The argv from an index on, less the \<^verbatim>\<open>--\<close> a parse skips, if it does: what is before is rendered by
  the arguments before, what is behind by the inputs.
\<close>

definition renders :: "OptTable \<Rightarrow> bool \<Rightarrow> string list \<Rightarrow> nat \<Rightarrow> (Error + ParsedArg) list \<Rightarrow> bool" where
  "renders t dashes args i rs \<longleftrightarrow> concat (map (\<lambda>r. render t (projr r)) rs) = drop i args
       \<and> (dashes \<longrightarrow> list_all (\<lambda>r. args ! pa_index (projr r) \<noteq> ''--'') rs)
     \<or> (\<exists>before after opts. dashes \<and> drop i args = before @ ''--'' # after
          \<and> rs = opts @ inputs_from t args (Suc (i + length before))
          \<and> concat (map (\<lambda>r. render t (projr r)) opts) = before
          \<and> concat (map (\<lambda>r. render t (projr r)) rs) = before @ after)"

lemma renders_skip:
  "dashes \<Longrightarrow> drop i args = before @ ''--'' # after \<Longrightarrow> rs = opts @ inputs_from t args (Suc (i + length before))
   \<Longrightarrow> concat (map (\<lambda>r. render t (projr r)) opts) = before \<Longrightarrow> concat (map (\<lambda>r. render t (projr r)) rs) = before @ after
   \<Longrightarrow> renders t dashes args i rs"
  unfolding renders_def by blast

lemma renders_cons:
  assumes "renders t dashes args j rs" "i \<le> j" "j \<le> length args" "render t a = argv_slice args i j"
    "dashes \<Longrightarrow> args ! pa_index a \<noteq> ''--''"
  shows "renders t dashes args i (Inr a # rs)"
proof -
  have d: "drop i args = argv_slice args i j @ drop j args" using argv_slice_append [OF assms(2,3), of args] by simp
  have "length (argv_slice args i j) = j - i" using assms(2,3) by (simp add: argv_slice_def)
  then have len: "i + (length (argv_slice args i j) + n) = j + n" for n using assms(2) by simp
  have skip: "renders t dashes args i (Inr a # rs)"
    if "dashes" "drop j args = before @ ''--'' # after" "rs = opts @ inputs_from t args (Suc (j + length before))"
      "concat (map (\<lambda>r. render t (projr r)) opts) = before" "concat (map (\<lambda>r. render t (projr r)) rs) = before @ after"
    for before after opts
    using that d assms(4)
    by (intro renders_skip [of dashes i args "argv_slice args i j @ before" after _ "Inr a # opts"]) (simp_all add: len)
  show ?thesis
    using assms(1) skip d assms(4,5) unfolding renders_def [of t dashes args j] by (auto simp: renders_def)
qed

lemma parse_from_render:
  assumes "\<not> grouped_short_options po" "canonical t"
    and "it_index it \<le> length args" "\<not> past_dash_dash it" "list_all (\<lambda>r. \<not> isl r) (parse_from sg t args po it)"
  shows "renders t (skips_dashes po) args (it_index it) (parse_from sg t args po it)"
  using assms(3-5)
proof (induction it rule: iter_induct [where sg = sg and t = t and args = args and po = po])
  case (1 it)
  have input: "plain_id t (input_option_id t)" using assms(2) by (simp add: canonical_def)
  show ?case
  proof (cases "it_index it = length args")
    case False
    then have lt: "it_index it < length args" using 1(2) by simp
    show ?thesis
      using lt assms(1) 1(3)
    proof (cases rule: advance_cases [where sg = sg and t = t])
      case skip
      have "drop (it_index it) args = [] @ ''--'' # drop (Suc (it_index it)) args"
        using skip(3) lt by (simp add: Cons_nth_drop_Suc [symmetric])
      with skip render_inputs [OF assms(2)] show ?thesis
        by (intro renders_skip [of _ _ _ "[]" "drop (Suc (it_index it)) args" _ "[]"]) simp_all
    next
      case pack
      have adv: "advance sg t args po it = (Some (Inr ((taken (input_option_id t) ''--'' (it_index it))
          \<lparr>pa_values := drop (it_index it + 1) args, next_index := length args\<rparr>)), it\<lparr>past_dash_dash := True, it_index := length args\<rparr>)"
        using pack by (simp add: pack_rest_def Let_def)
      show ?thesis
        using lt input pack(2)
        by (simp add: parse_from_Some [OF adv] parse_from_done renders_def render_taken Cons_nth_drop_Suc [symmetric] pack(3))
    next
      case (matched after out)
      then have rng: "it_index it \<le> after" "after \<le> length args" "pa_index out = it_index it"
        using parse_step_range [OF lt, of sg t po] by (simp_all add: step_range_def accept_range_def)
      have "renders t (skips_dashes po) args after (parse_from sg t args po (it\<lparr>it_index := after\<rparr>))"
        using 1(1) [OF matched(2)] 1(3,4) rng by (simp add: parse_from_Some [OF matched(2)])
      then show ?thesis
        unfolding parse_from_Some [OF matched(2)]
        by (rule renders_cons) (use rng matched(3) render_parse_step [OF lt assms(2) matched(1)] in auto)
    next
      case (missing after)
      with 1(4) show ?thesis by (simp add: parse_from_Some [OF missing(2)])
    qed
  qed (simp add: parse_from_done renders_def)
qed

text \<open>
  C23: where every option is written one way only, rendering the arguments an argv parses as
  without groups of short options, inputs and unknown options among them, gives the argv back. Where the
  parse takes \<^verbatim>\<open>--\<close> for the end of the options and does not pack what follows, no argument starts at
  one; or else the one that ended the options is not rendered: what the arguments before it render is
  what stands before it, and the inputs after it render what stands behind.
\<close>

theorem render_parse:
  assumes "canonical t" "\<not> grouped_short_options po" "list_all (\<lambda>r. \<not> isl r) (parse sg t args po)"
  shows "concat (map (\<lambda>r. render t (projr r)) (parse sg t args po)) = args
       \<and> (dash_dash_parsing po \<and> \<not> dash_dash_packing po \<longrightarrow>
            list_all (\<lambda>r. args ! pa_index (projr r) \<noteq> ''--'') (parse sg t args po))
     \<or> (\<exists>before after opts. dash_dash_parsing po \<and> \<not> dash_dash_packing po \<and> args = before @ ''--'' # after
          \<and> parse sg t args po = opts @ inputs_from t args (Suc (length before))
          \<and> concat (map (\<lambda>r. render t (projr r)) opts) = before
          \<and> concat (map (\<lambda>r. render t (projr r)) (parse sg t args po)) = before @ after)"
  using parse_from_render [OF assms(2,1), of "\<lparr>it_index = 0, group_buf = [], past_dash_dash = False\<rparr>" args sg] assms(3)
  by (simp add: parse_def renders_def skips_dashes_def)

theorem render_parse_witness:
  "concat (map (\<lambda>r. render sample_table (projr r))
     (parse True sample_table [''-v'', ''--level=3'', ''-o'', ''x'', ''-u''] default_options)) = [''-v'', ''--level=3'', ''-o'', ''x'', ''-u'']"
proof -
  have "canonical sample_table" "\<not> grouped_short_options default_options" "\<not> dash_dash_parsing default_options"
    "list_all (\<lambda>r. \<not> isl r) (parse True sample_table [''-v'', ''--level=3'', ''-o'', ''x'', ''-u''] default_options)"
    by code_simp+
  with render_parse [OF this(1,2,4)] show ?thesis by simp
qed

end
