(* ===== verification/Opt_Group.thy ===== *)
theory Opt_Group
  imports Opt_Cover
begin

text \<open>
  Groups of short options: an element \<^verbatim>\<open>-abc\<close> that names no option parses as the flags
  \<^verbatim>\<open>-a\<close>, \<^verbatim>\<open>-b\<close> and \<^verbatim>\<open>-c\<close>, wherever it is in the argv, and leaves nothing of itself
  behind for the elements that follow.
\<close>

section \<open>Flags of one letter\<close>

definition is_flag_of :: "Option \<Rightarrow> char \<Rightarrow> bool" where
  "is_flag_of x c \<longleftrightarrow> opt_kind x = Flag \<and> option_name x = [c] \<and> opt_prefixes x \<noteq> [] \<and> hd (opt_prefixes x) = ''-''"

definition flag_of :: "OptTable \<Rightarrow> ParseOptions \<Rightarrow> char \<Rightarrow> Option option" where
  "flag_of t po c = find (\<lambda>x. is_flag_of x c \<and> \<not> excludes po x) (search_range t)"

text \<open>No other option of the table can match an element that starts with the flag.\<close>

definition begins_like :: "Option \<Rightarrow> char \<Rightarrow> bool" where
  "begins_like x c \<longleftrightarrow> list_ex (\<lambda>p. starts_with [CHR ''-'', c] (take 2 (p @ option_name x))) (opt_prefixes x)"

definition flag_letter :: "OptTable \<Rightarrow> ParseOptions \<Rightarrow> char \<Rightarrow> bool" where
  "flag_letter t po c \<longleftrightarrow> c \<noteq> CHR ''-'' \<and> c \<noteq> CHR ''='' \<and> flag_of t po c \<noteq> None
     \<and> list_all (\<lambda>x. Some x = flag_of t po c \<or> excludes po x \<or> \<not> begins_like x c) (search_range t)"

text \<open>What a flag parses as, wherever it is.\<close>

definition flag_arg :: "OptTable \<Rightarrow> Option \<Rightarrow> string \<Rightarrow> nat \<Rightarrow> ParsedArg" where
  "flag_arg t f spell index = cleared\<lparr>spelling := spell, pa_index := index, pa_id := opt_id (unaliased_option t f), pa_values := alias_values t f\<rparr>"

text \<open>A result without its place in the argv, and without the argv an error quotes.\<close>

definition unplaced_arg :: "ParsedArg \<Rightarrow> ParsedArg" where
  "unplaced_arg a = a\<lparr>pa_index := 0, next_index := 0\<rparr>"

definition unplaced :: "Error + ParsedArg \<Rightarrow> Error + ParsedArg" where
  "unplaced r = map_sum (\<lambda>e. e\<lparr>err_argv := [], err_begin := 0, err_end := 0\<rparr>) unplaced_arg r"

definition grouping :: "OptTable \<Rightarrow> ParseOptions \<Rightarrow> bool" where
  "grouping t po \<longleftrightarrow> grouped_short_options po \<and> \<not> ignore_case t \<and> \<not> tablegen_mode t \<and> ''-'' \<in> set (prefixes_union t)"

lemma accept_flag_grouped:
  "opt_kind f = Flag \<Longrightarrow> accept_opt t f args spell True index = (Matched, index, flag_arg t f spell index)"
  by (auto simp: accept_opt_def flag_arg_def alias_values_def add_value_def cleared_def Let_def split: option.splits)

lemma accept_flag_whole:
  "opt_kind f = Flag \<Longrightarrow> length spell = length (args ! index)
   \<Longrightarrow> accept_opt t f args spell False index = (Matched, Suc index, flag_arg t f spell index)"
  by (simp add: accept_opt_eq accept_internal_def flag_arg_def cleared_def Let_def)

lemma flag_match:
  assumes "is_flag_of f c"
  shows "match_opt f (CHR ''-'' # c # s) ignoring = 2"
  using assms by (cases "opt_prefixes f") (auto simp: is_flag_of_def match_opt_def starts_with_def)

lemma match_prefixes_exact:
  "match_prefixes ps name str False \<noteq> 0 \<Longrightarrow> \<exists>p\<in>set ps. \<exists>r. str = p @ name @ r"
proof (induction ps)
  case (Cons p ps)
  show ?case
  proof (cases "starts_with str p \<and> starts_with (drop (length p) str) name")
    case True
    then show ?thesis by (auto simp: starts_with_iff)
  next
    case False
    with Cons show ?thesis by auto
  qed
qed simp

lemma match_begins_like:
  assumes "match_opt x (CHR ''-'' # c # s) False \<noteq> 0"
  shows "begins_like x c"
proof -
  obtain p r where "p \<in> set (opt_prefixes x)" "CHR ''-'' # c # s = p @ option_name x @ r"
    using match_prefixes_exact assms unfolding match_opt_def by blast
  moreover have "take (length (take 2 q)) (take 2 (q @ r)) = take 2 q" for q r :: string by (simp add: min_def)
  ultimately have "starts_with [CHR ''-'', c] (take 2 (p @ option_name x))"
    using arg_cong [of "CHR ''-'' # c # s" _ "take 2"] unfolding starts_with_def
    by (metis append.assoc numeral_2_eq_2 take0 take_Suc_Cons)
  with \<open>p \<in> set (opt_prefixes x)\<close> show ?thesis by (auto simp: begins_like_def list_ex_iff)
qed

lemma flag_letter_found:
  assumes "flag_letter t po c"
  obtains f where "flag_of t po c = Some f" "f \<in> set (search_range t)" "is_flag_of f c" "\<not> excludes po f"
    "\<And>x. x \<in> set (search_range t) \<Longrightarrow> x = f \<or> excludes po x \<or> \<not> begins_like x c"
proof -
  obtain f where f: "flag_of t po c = Some f" using assms by (auto simp: flag_letter_def)
  then have "f \<in> set (search_range t)" "is_flag_of f c" "\<not> excludes po f"
    by (auto simp: flag_of_def find_Some_iff in_set_conv_nth)
  moreover have "x = f \<or> excludes po x \<or> \<not> begins_like x c" if "x \<in> set (search_range t)" for x
    using assms that f by (auto simp: flag_letter_def list_all_iff)
  ultimately show thesis using that f by blast
qed

text \<open>Of the options, only the flag takes part in the scan of an element that starts with it.\<close>

lemma only_flag_eligible:
  assumes "flag_letter t po c" "flag_of t po c = Some f" "\<not> ignore_case t" "args ! index = CHR ''-'' # c # s"
  shows "f \<in> set (search_range t)" "opt_kind f = Flag" "match_size t args index f = 2"
    "x \<in> set (search_range t) \<Longrightarrow> eligible t args index po x \<longleftrightarrow> x = f"
proof -
  obtain g where g: "flag_of t po c = Some g" "g \<in> set (search_range t)" "is_flag_of g c" "\<not> excludes po g"
    "\<And>x. x \<in> set (search_range t) \<Longrightarrow> x = g \<or> excludes po x \<or> \<not> begins_like x c"
    using flag_letter_found [OF assms(1)] by blast
  then have [simp]: "g = f" using assms(2) by simp
  show "f \<in> set (search_range t)" "opt_kind f = Flag" using g by (simp_all add: is_flag_of_def)
  show sz: "match_size t args index f = 2" using g flag_match by (simp add: match_size_def assms(4))
  show "eligible t args index po x \<longleftrightarrow> x = f" if "x \<in> set (search_range t)"
    using g(4) sz g(5) [OF that] match_begins_like [of x c s] assms(3,4) by (auto simp: eligible_def match_size_def)
qed

lemma first_from_only:
  assumes "first_from t args index po its r" "f \<in> set its" "accepts t args index po f"
    and "\<And>x. x \<in> set its \<Longrightarrow> accepts t args index po x \<or> misses t args index po x \<Longrightarrow> x = f"
  shows "attempt t args index f = (Matched, sr_new_index r, sr_out r) \<and> sr_result r = Matched"
proof -
  let ?p = "\<lambda>x. \<not> accepts t args index po x \<and> \<not> misses t args index po x"
  have ne: "dropWhile ?p its \<noteq> []" using assms(2,3) by (auto simp: dropWhile_eq_Nil_conv)
  then obtain y ys where dw: "dropWhile ?p its = y # ys" by (meson list.exhaust)
  then have "y \<in> set its" "\<not> ?p y" using hd_dropWhile [OF ne] set_dropWhileD [of y ?p its] by auto
  then have "y = f" using assms(4) by blast
  with assms(1,3) dw show ?thesis by (simp add: first_from_def)
qed

lemma flag_step:
  assumes "flag_letter t po c" "flag_of t po c = Some f" "grouping t po" "index < length args" "args ! index = [CHR ''-'', c]"
  shows "parse_step_grouped sg t args index po = ((Matched, Suc index, flag_arg t f [CHR ''-'', c] index), [])"
proof -
  let ?r = "scan_and_accept sg t (search_range t) args index True po"
  have mode: "\<not> ignore_case t" "\<not> tablegen_mode t" using assms(3) by (simp_all add: grouping_def)
  note only = only_flag_eligible [OF assms(1,2) mode(1) assms(5)]
  have att: "attempt t args index f = (Matched, Suc index, flag_arg t f [CHR ''-'', c] index)"
    using only(2,3) assms(5) by (simp add: attempt_def accept_flag_whole)
  then have acc: "accepts t args index po f" using only(1,4) by (simp add: accepts_def)
  have "first_from t args index po (search_range t) ?r"
    using scan_first [OF assms(4), of t po sg "search_range t"] mode(2) by (simp add: search_begin_def)
  then have "attempt t args index f = (Matched, sr_new_index ?r, sr_out ?r) \<and> sr_result ?r = Matched"
    by (rule first_from_only) (use only acc in \<open>auto simp: accepts_def misses_def\<close>)
  moreover have "\<not> is_input t (args ! index)"
    using assms(3,5) by (auto simp: grouping_def is_input_def list_ex_iff starts_with_def intro!: bexI [of _ "''-''"])
  ultimately show ?thesis using att by (simp add: parse_step_grouped_def Let_def)
qed

lemma not_input: "grouping t po \<Longrightarrow> str = CHR ''-'' # c # s \<Longrightarrow> \<not> is_input t str"
  by (auto simp: grouping_def is_input_def list_ex_iff starts_with_def intro!: bexI [of _ "''-''"])

lemma group_step:
  assumes "flag_letter t po c" "flag_of t po c = Some f" "grouping t po" "index < length args"
    and "args ! index = CHR ''-'' # c # d # s" "d \<noteq> CHR ''=''"
  shows "parse_step_grouped sg t args index po = ((Matched, index, flag_arg t f [CHR ''-'', c] index), d # s)"
proof -
  let ?opts = "search_range t"
  have mode: "\<not> ignore_case t" "\<not> tablegen_mode t" using assms(3) by (simp_all add: grouping_def)
  note only = only_flag_eligible [OF assms(1,2) mode(1) assms(5)]
  have "fst (attempt t args index f) = NoMatch"
    using only(2,3) assms(5) by (simp add: attempt_def accept_opt_eq accept_internal_def Let_def)
  then have none: "\<forall>x\<in>set ?opts. \<not> accepts t args index po x \<and> \<not> misses t args index po x"
    using only(4) by (auto simp: accepts_def misses_def)
  have flags: "starts_group t args index po x \<longleftrightarrow> x = f" if "x \<in> set ?opts" for x
    using only(2,3) only(4) [OF that] by (auto simp: starts_group_def)
  then obtain x xs where xs: "filter (starts_group t args index po) ?opts = x # xs"
    using only(1) by (cases "filter (starts_group t args index po) ?opts") (auto simp: filter_empty_conv)
  have "last (x # xs) \<in> set (filter (starts_group t args index po) ?opts)" unfolding xs by (rule last_in_set) simp
  then have "last (x # xs) = f" using flags by auto
  with xs have "scan_and_accept sg t ?opts args index True po = (found (scan_start index))\<lparr>fallback_flag := Some f\<rparr>"
    using scan_loop_refused [OF assms(4) none, of "scan_start index" True] mode(2)
    by (simp add: scan_and_accept_def Let_def scan_start_def)
  then show ?thesis
    using not_input [OF assms(3,5)] assms(5,6) only(2)
    by (simp add: parse_step_grouped_def Let_def scan_start_def accept_flag_grouped)
qed

section \<open>The elements before\<close>

text \<open>
  What a grouped parse makes of an argv from an index on does not depend on the elements before: the
  same elements behind others parse the same, but for their places.
\<close>

lemma unplaced_arg_upd [simp]:
  "unplaced_arg (a\<lparr>pa_index := n\<rparr>) = unplaced_arg a" "unplaced_arg (a\<lparr>next_index := n\<rparr>) = unplaced_arg a"
  "unplaced_arg (taken ident s n) = taken ident s 0" "unplaced_arg cleared = cleared"
  "unplaced_arg (a\<lparr>pa_values := vs\<rparr>) = (unplaced_arg a)\<lparr>pa_values := vs\<rparr>"
  "unplaced_arg (a\<lparr>pa_id := ident\<rparr>) = (unplaced_arg a)\<lparr>pa_id := ident\<rparr>"
  "pa_values (unplaced_arg a) = pa_values a"
  by (simp_all add: unplaced_arg_def taken_def cleared_def)

definition moved_step :: "nat \<Rightarrow> AcceptResult \<times> nat \<times> ParsedArg \<Rightarrow> AcceptResult \<times> nat \<times> ParsedArg \<Rightarrow> bool" where
  "moved_step n r r' \<longleftrightarrow> fst r' = fst r \<and> fst (snd r') = n + fst (snd r) \<and> unplaced_arg (snd (snd r')) = unplaced_arg (snd (snd r))"

lemma accept_internal_moved:
  "moved_step (length pre) (accept_internal opt args spell i) (accept_internal opt (pre @ args) spell (length pre + i))"
  by (cases "opt_kind opt")
    (auto simp: accept_internal_def moved_step_def unplaced_arg_def add_value_def nth_append Let_def)

lemma accept_opt_moved:
  "moved_step (length pre) (accept_opt t opt args spell False i) (accept_opt t opt (pre @ args) spell False (length pre + i))"
proof -
  obtain a after out where r: "accept_internal opt args spell i = (a, after, out)" by (metis prod_cases3)
  obtain a' after' out' where r': "accept_internal opt (pre @ args) spell (length pre + i) = (a', after', out')" by (metis prod_cases3)
  have m: "a' = a" "after' = length pre + after" "unplaced_arg out' = unplaced_arg out"
    using accept_internal_moved [of pre opt args spell i] by (simp_all add: r r' moved_step_def)
  have "pa_values out' = pa_values out" using m(3) unplaced_arg_upd(7) by metis
  with m show ?thesis by (simp add: accept_opt_eq r r' moved_step_def)
qed

definition moved_scan :: "nat \<Rightarrow> ScanResult \<Rightarrow> ScanResult \<Rightarrow> bool" where
  "moved_scan n r r' \<longleftrightarrow> sr_result r' = sr_result r \<and> fallback_flag r' = fallback_flag r
     \<and> (sr_result r \<noteq> NoMatch \<longrightarrow> moved_step n (sr_result r, sr_new_index r, sr_out r) (sr_result r', sr_new_index r', sr_out r'))"

definition still_open :: "scan_state \<Rightarrow> bool" where
  "still_open s \<longleftrightarrow> sr_result (found s) = NoMatch \<and> best_match_size s = 0 \<and> missing_match_size s = 0"

lemma scan_loop_moved:
  assumes "still_open s" "still_open s'" "found s' = found s"
  shows "moved_scan (length pre) (scan_loop t args i True po its s) (scan_loop t (pre @ args) (length pre + i) True po its s')"
  using assms
proof (induction its arbitrary: s s')
  case Nil
  then show ?case by (simp add: scan_end_def moved_scan_def still_open_def)
next
  case (Cons x its)
  let ?n = "match_opt x (args ! i) (ignore_case t)"
  obtain a after out where r: "accept_opt t x args (take ?n (args ! i)) False i = (a, after, out)" by (metis prod_cases3)
  obtain a' after' out' where r': "accept_opt t x (pre @ args) (take ?n (args ! i)) False (length pre + i) = (a', after', out')"
    by (metis prod_cases3)
  have m: "a' = a" "after' = length pre + after" "unplaced_arg out' = unplaced_arg out"
    using accept_opt_moved [of pre t x args "take ?n (args ! i)" i] by (simp_all add: r r' moved_step_def)
  have IH: "moved_scan (length pre) (scan_loop t args i True po its (s\<lparr>found := (found s)\<lparr>fallback_flag := g\<rparr>\<rparr>))
      (scan_loop t (pre @ args) (length pre + i) True po its (s'\<lparr>found := (found s)\<lparr>fallback_flag := g\<rparr>\<rparr>))" for g
    using Cons.prems by (intro Cons.IH) (simp_all add: still_open_def)
  show ?case
    using IH Cons.IH [OF Cons.prems] Cons.prems(3) m by (simp add: scan_loop.simps(2) [of t _ _ True] r r' Let_def moved_scan_def moved_step_def)
qed

lemma scan_moved:
  "moved_scan (length pre) (scan_and_accept sg t opts args i True po) (scan_and_accept sg t opts (pre @ args) (length pre + i) True po)"
  unfolding scan_and_accept_def Let_def nth_append_length_plus
  by (rule scan_loop_moved) (simp_all add: scan_start_def still_open_def)

lemma consume_unknown_values_moved:
  assumes "unplaced_arg out' = unplaced_arg out"
  shows "moved_step (length pre) (Matched, consume_unknown_values t opts args i out po)
     (Matched, consume_unknown_values t opts (pre @ args) (length pre + i) out' po)"
  using assms
proof (induction t opts args i out po arbitrary: out' rule: consume_unknown_values.induct)
  case (1 t opts args i out po)
  have v: "unplaced_arg (add_value out' (args ! i)) = unplaced_arg (add_value out (args ! i))"
    using "1.prems" unplaced_arg_upd(7) [of out] unplaced_arg_upd(7) [of out'] by (simp add: add_value_def)
  show ?case
    using 1 v consume_unknown_values.simps [of t opts args i out po]
      consume_unknown_values.simps [of t opts "pre @ args" "length pre + i" out' po]
    by (auto simp: Let_def moved_step_def)
qed

lemma unknown_step_moved:
  "moved_step (length pre) (Matched, unknown_step t args i po) (Matched, unknown_step t (pre @ args) (length pre + i) po)"
  using consume_unknown_values_moved [of "taken (unknown_option_id t) (args ! i) (length pre + i)"
      "taken (unknown_option_id t) (args ! i) i" pre t "search_range t" args "Suc i" po]
  by (simp add: unknown_step_def Let_def moved_step_def)

lemma parse_step_grouped_moved:
  "moved_step (length pre) (fst (parse_step_grouped sg t args i po)) (fst (parse_step_grouped sg t (pre @ args) (length pre + i) po))
   \<and> snd (parse_step_grouped sg t (pre @ args) (length pre + i) po) = snd (parse_step_grouped sg t args i po)"
proof -
  let ?scan = "scan_and_accept sg t (search_range t) args i True po"
  let ?scan' = "scan_and_accept sg t (search_range t) (pre @ args) (length pre + i) True po"
  have m: "sr_result ?scan' = sr_result ?scan" "fallback_flag ?scan' = fallback_flag ?scan"
    "sr_result ?scan \<noteq> NoMatch \<Longrightarrow> moved_step (length pre) (sr_result ?scan, sr_new_index ?scan, sr_out ?scan)
       (sr_result ?scan', sr_new_index ?scan', sr_out ?scan')"
    using scan_moved [of pre sg t "search_range t" args i po] unfolding moved_scan_def by blast+
  have accepted: "moved_step (length pre) (case accept_opt t f args s True i of (_, index, out) \<Rightarrow> (Matched, index, out))
      (case accept_opt t f (pre @ args) s True (length pre + i) of (_, index, out) \<Rightarrow> (Matched, index, out))" for f s
  proof (cases "opt_kind f = Flag")
    case True
    then show ?thesis by (simp add: accept_flag_grouped moved_step_def flag_arg_def)
  next
    case False
    then have "accept_opt t f a s True j = accept_opt t f a s False j" for a j by (simp add: accept_opt_def)
    then show ?thesis using accept_opt_moved [of pre t f args s i] by (auto simp: moved_step_def split: prod.splits)
  qed
  consider (input) "is_input t (args ! i)"
    | (found) "\<not> is_input t (args ! i)" "sr_result ?scan \<noteq> NoMatch"
    | (flag) f where "\<not> is_input t (args ! i)" "sr_result ?scan = NoMatch" "fallback_flag ?scan = Some f"
    | (none) "\<not> is_input t (args ! i)" "sr_result ?scan = NoMatch" "fallback_flag ?scan = None" by blast
  then show ?thesis
  proof cases
    case input
    then show ?thesis by (simp add: parse_step_grouped_def Let_def moved_step_def)
  next
    case found
    then show ?thesis using m(1) m(3) [OF found(2)]
      by (cases "sr_result ?scan") (simp_all add: parse_step_grouped_def Let_def moved_step_def)
  next
    case (flag f)
    with m(1,2) accepted [of f "take 2 (args ! i)"] show ?thesis
      by (simp add: parse_step_grouped_def Let_def moved_step_def)
  next
    case none
    with m(1,2) unknown_step_moved [of pre t args i po] show ?thesis
      by (simp add: parse_step_grouped_def Let_def moved_step_def)
  qed
qed

definition moved :: "nat \<Rightarrow> iter \<Rightarrow> iter" where
  "moved n it = it\<lparr>it_index := n + it_index it\<rparr>"

lemma moved_sels [simp]:
  "it_index (moved n it) = n + it_index it" "group_buf (moved n it) = group_buf it" "past_dash_dash (moved n it) = past_dash_dash it"
  by (simp_all add: moved_def)

lemma take_step_grouped:
  assumes "grouped_short_options po" "args' = (if group_buf it = [] then args else args[it_index it := group_buf it])"
    and "parse_step_grouped sg t args' (it_index it) po = ((a, after, out), rest)"
  shows "take_step sg t args po it =
     (Some (if a = MissingValue
            then Inl (error_at MissingValueError ''missing argument value'' args (pa_index out) (pa_index out + 1))
            else Inr (out\<lparr>next_index := after\<rparr>)),
      it\<lparr>group_buf := if rest = [] then [] else CHR ''-'' # rest, it_index := after\<rparr>)"
  using assms by (simp add: take_step_def Let_def)

lemma take_step_moved:
  assumes "grouped_short_options po"
  shows "snd (take_step sg t (pre @ args) po (moved (length pre) it)) = moved (length pre) (snd (take_step sg t args po it))
    \<and> map_option unplaced (fst (take_step sg t (pre @ args) po (moved (length pre) it))) = map_option unplaced (fst (take_step sg t args po it))"
proof -
  let ?i = "it_index it" and ?b = "group_buf it"
  let ?args = "if ?b = [] then args else args[?i := ?b]"
  have args: "pre @ ?args = (if group_buf (moved (length pre) it) = [] then pre @ args
      else (pre @ args)[it_index (moved (length pre) it) := group_buf (moved (length pre) it)])"
    by (simp add: list_update_append)
  obtain a after out rest where r: "parse_step_grouped sg t ?args ?i po = ((a, after, out), rest)" by (metis prod.exhaust)
  obtain a' after' out' rest'
    where r': "parse_step_grouped sg t (pre @ ?args) (it_index (moved (length pre) it)) po = ((a', after', out'), rest')"
    by (metis prod.exhaust)
  have m: "a' = a" "after' = length pre + after" "unplaced_arg out' = unplaced_arg out" "rest' = rest"
    using parse_step_grouped_moved [of pre sg t ?args ?i po] r' by (simp_all add: r moved_step_def)
  show ?thesis
    using m by (simp add: take_step_grouped [OF assms refl r] take_step_grouped [OF assms args r'])
      (simp add: moved_def unplaced_def error_at_def)
qed

lemma advance_moved:
  assumes "grouped_short_options po"
  shows "snd (advance sg t (pre @ args) po (moved (length pre) it)) = moved (length pre) (snd (advance sg t args po it))
    \<and> map_option unplaced (fst (advance sg t (pre @ args) po (moved (length pre) it))) = map_option unplaced (fst (advance sg t args po it))"
  using assms
proof (induction sg t args po it rule: advance.induct)
  case (1 sg t args po it)
  note eqs = advance.simps [of sg t args po it] advance.simps [of sg t "pre @ args" po "moved (length pre) it"]
  have moved_upd: "(moved n i)\<lparr>past_dash_dash := b\<rparr> = moved n (i\<lparr>past_dash_dash := b\<rparr>)"
    "(moved n i)\<lparr>it_index := Suc (n + k)\<rparr> = moved n (i\<lparr>it_index := Suc k\<rparr>)" for n i k b
    by (simp_all add: moved_def)
  let ?dashes = "\<not> past_dash_dash it \<and> dash_dash_parsing po \<and> args ! it_index it = ''--''"
  consider (ended) "length args \<le> it_index it"
    | (skip) "it_index it < length args" ?dashes "\<not> dash_dash_packing po"
    | (pack) "it_index it < length args" ?dashes "dash_dash_packing po"
    | (input) "it_index it < length args" "past_dash_dash it"
    | (step) "it_index it < length args" "\<not> ?dashes" "\<not> past_dash_dash it" by linarith
  then show ?case
  proof cases
    case skip
    let ?it = "it\<lparr>past_dash_dash := True, it_index := Suc (it_index it)\<rparr>"
    have "advance sg t args po it = advance sg t args po ?it"
      "advance sg t (pre @ args) po (moved (length pre) it) = advance sg t (pre @ args) po (moved (length pre) ?it)"
      unfolding eqs using skip by (simp_all add: Let_def moved_upd)
    with "1.IH" [OF _ _ refl] skip "1.prems" show ?thesis by simp
  next
    case pack
    then show ?thesis unfolding eqs by (simp add: Let_def pack_rest_def unplaced_def moved_def)
  next
    case input
    then show ?thesis unfolding eqs by (simp add: Let_def take_input_def unplaced_def moved_def)
  next
    case step
    then have "advance sg t args po it = take_step sg t args po it"
      "advance sg t (pre @ args) po (moved (length pre) it) = take_step sg t (pre @ args) po (moved (length pre) it)"
      unfolding eqs by auto
    with take_step_moved [OF "1.prems"] show ?thesis by simp
  qed (simp add: eqs)
qed

lemma parse_from_moved:
  assumes "grouped_short_options po"
  shows "map unplaced (parse_from sg t (pre @ args) po (moved (length pre) it)) = map unplaced (parse_from sg t args po it)"
proof (induction it rule: iter_induct [where sg = sg and t = t and args = args and po = po])
  case (1 it)
  obtain r it' where adv: "advance sg t args po it = (r, it')" by (cases "advance sg t args po it")
  obtain r' where adv': "advance sg t (pre @ args) po (moved (length pre) it) = (r', moved (length pre) it')"
    and r': "map_option unplaced r' = map_option unplaced r"
    using advance_moved [OF assms, of sg t pre args it] adv by (metis fst_conv snd_conv prod.collapse)
  show ?case
  proof (cases r)
    case None
    with adv adv' r' show ?thesis by (simp add: parse_from.simps [of _ _ _ _ it] parse_from.simps [of _ _ "pre @ args"])
  next
    case (Some x)
    then obtain x' where "r' = Some x'" "unplaced x' = unplaced x" using r' by (cases r') auto
    with 1 [of x it'] adv adv' Some show ?thesis by (simp add: parse_from_Some)
  qed
qed

section \<open>A group and its flags\<close>

abbreviation short_option :: "char \<Rightarrow> string" where
  "short_option c \<equiv> [CHR ''-'', c]"

abbreviation at_element :: "nat \<Rightarrow> iter" where
  "at_element i \<equiv> \<lparr>it_index = i, group_buf = [], past_dash_dash = False\<rparr>"

text \<open>The flags of a group at an index: all at its element, and the last one goes on behind it.\<close>

definition flag_result :: "OptTable \<Rightarrow> ParseOptions \<Rightarrow> nat \<Rightarrow> nat \<Rightarrow> char \<Rightarrow> Error + ParsedArg" where
  "flag_result t po i after c = Inr ((flag_arg t (the (flag_of t po c)) (short_option c) i)\<lparr>next_index := after\<rparr>)"

definition group_flags :: "OptTable \<Rightarrow> ParseOptions \<Rightarrow> nat \<Rightarrow> string \<Rightarrow> (Error + ParsedArg) list" where
  "group_flags t po i cs = map (flag_result t po i i) (butlast cs) @ [flag_result t po i (Suc i) (last cs)]"

lemma unplaced_flag [simp]: "unplaced (flag_result t po i after c) = flag_result t po 0 0 c"
  by (simp add: flag_result_def unplaced_def unplaced_arg_def flag_arg_def cleared_def)

lemma advance_grouped:
  assumes "grouping t po" "it_index it < length args" "\<not> past_dash_dash it" "args ! it_index it \<noteq> ''--''"
    and "args' = (if group_buf it = [] then args else args[it_index it := group_buf it])"
    and "parse_step_grouped sg t args' (it_index it) po = ((Matched, after, out), rest)"
  shows "parse_from sg t args po it = Inr (out\<lparr>next_index := after\<rparr>)
     # parse_from sg t args po (it\<lparr>group_buf := if rest = [] then [] else CHR ''-'' # rest, it_index := after\<rparr>)"
proof -
  have "advance sg t args po it = take_step sg t args po it"
    using assms(2-4) by (simp add: advance.simps [of sg t args po it])
  with assms(1,5,6) show ?thesis
    by (intro parse_from_Some) (simp add: take_step_def Let_def grouping_def)
qed

lemma parse_group:
  assumes "grouping t po" "i < length args" "args ! i \<noteq> ''--''"
    and "list_all (flag_letter t po) cs" "cs \<noteq> []" "(if buf = [] then args ! i else buf) = CHR ''-'' # cs"
  shows "parse_from sg t args po \<lparr>it_index = i, group_buf = buf, past_dash_dash = False\<rparr>
     = group_flags t po i cs @ parse_from sg t args po (at_element (Suc i))"
  using assms(4-)
proof (induction cs arbitrary: buf)
  case (Cons c cs)
  let ?it = "\<lparr>it_index = i, group_buf = buf, past_dash_dash = False\<rparr>"
  obtain f where f: "flag_of t po c = Some f" using Cons.prems(1) by (auto simp: flag_letter_def)
  have c: "flag_letter t po c" using Cons.prems(1) by simp
  let ?args = "if buf = [] then args else args[i := buf]"
  have args: "i < length ?args" "?args ! i = CHR ''-'' # c # cs" using Cons.prems(3) assms(2) by (auto split: if_splits)
  have args': "?args = (if group_buf ?it = [] then args else args[it_index ?it := group_buf ?it])" by simp
  show ?case
  proof (cases cs)
    case Nil
    have step: "parse_step_grouped sg t ?args (it_index ?it) po = ((Matched, Suc i, flag_arg t f (short_option c) i), [])"
      using flag_step [OF c f assms(1) args(1)] args(2) Nil by simp
    show ?thesis
      using advance_grouped [OF assms(1) _ _ _ args' step] assms(2,3) f Nil by (simp add: group_flags_def flag_result_def)
  next
    case (Cons d ds)
    have d: "d \<noteq> CHR ''=''" using \<open>list_all _ (c # cs)\<close> Cons by (simp add: flag_letter_def)
    have step: "parse_step_grouped sg t ?args (it_index ?it) po = ((Matched, i, flag_arg t f (short_option c) i), cs)"
      using group_step [OF c f assms(1) args(1) _ d] args(2) Cons by simp
    show ?thesis
      using advance_grouped [OF assms(1) _ _ _ args' step] assms(2,3) f Cons
        Cons.IH [of "CHR ''-'' # cs"] \<open>list_all _ (c # cs)\<close>
      by (simp add: group_flags_def flag_result_def)
  qed
qed simp

lemma parse_flags:
  assumes "grouping t po" "list_all (flag_letter t po) cs"
  shows "map unplaced (parse_from sg t (pre @ map short_option cs @ post) po (at_element (length pre)))
     = map (flag_result t po 0 0) cs
       @ map unplaced (parse_from sg t (pre @ map short_option cs @ post) po (at_element (length pre + length cs)))"
  using assms(2)
proof (induction cs arbitrary: pre)
  case (Cons c cs)
  let ?args = "pre @ map short_option (c # cs) @ post"
  obtain f where f: "flag_of t po c = Some f" using Cons.prems by (auto simp: flag_letter_def)
  have c: "flag_letter t po c" "c \<noteq> CHR ''-''" using Cons.prems by (simp_all add: flag_letter_def)
  have args': "?args = (if group_buf (at_element (length pre)) = [] then ?args
      else ?args[it_index (at_element (length pre)) := group_buf (at_element (length pre))])" by simp
  have step: "parse_step_grouped sg t ?args (it_index (at_element (length pre))) po
      = ((Matched, Suc (length pre), flag_arg t f (short_option c) (length pre)), [])"
    using flag_step [OF c(1) f assms(1), of "length pre" ?args] by (simp add: nth_append)
  have "parse_from sg t ?args po (at_element (length pre))
      = flag_result t po (length pre) (Suc (length pre)) c # parse_from sg t ?args po (at_element (Suc (length pre)))"
    using advance_grouped [OF assms(1) _ _ _ args' step] c(2) f by (simp add: flag_result_def nth_append)
  with Cons.IH [of "pre @ [short_option c]"] Cons.prems show ?case by simp
qed simp

text \<open>
  C24: with grouped short options, where a parse gets to an element \<^verbatim>\<open>-abc\<close> made of
  letters that each name one flag, and that no other option can match, it gives the flags in their
  order, each as the flag's option, or the option it is an alias for, under its own spelling, and goes on
  at the next element with nothing left of the group. In place of the element, the flags written one by
  one give the same, them and whatever follows, but for the places in the argv. That holds behind any
  elements, and with none before it is a parse from its start.
\<close>

theorem grouped_flags:
  assumes "grouping t po" "list_all (flag_letter t po) cs" "cs \<noteq> []"
  shows "parse_from sg t (pre @ (CHR ''-'' # cs) # post) po (at_element (length pre))
       = group_flags t po (length pre) cs @ parse_from sg t (pre @ (CHR ''-'' # cs) # post) po (at_element (Suc (length pre)))
     \<and> map unplaced (parse_from sg t (pre @ (CHR ''-'' # cs) # post) po (at_element (length pre)))
       = map unplaced (parse_from sg t (pre @ map short_option cs @ post) po (at_element (length pre)))
     \<and> map unplaced (parse sg t ((CHR ''-'' # cs) # post) po) = map unplaced (parse sg t (map short_option cs @ post) po)"
proof -
  have word: "CHR ''-'' # cs \<noteq> ''--''" using assms(2) by (cases cs) (auto simp: flag_letter_def)
  have g: "grouped_short_options po" using assms(1) by (simp add: grouping_def)
  have group: "parse_from sg t (pre @ (CHR ''-'' # cs) # post) po (at_element (length pre))
      = group_flags t po (length pre) cs @ parse_from sg t (pre @ (CHR ''-'' # cs) # post) po (at_element (Suc (length pre)))" for pre
    using assms word by (intro parse_group) simp_all
  have flags: "map unplaced (group_flags t po i cs) = map (flag_result t po 0 0) cs" for i
    using arg_cong [OF append_butlast_last_id [OF assms(3)], of "map (flag_result t po 0 0)"]
    by (simp add: group_flags_def comp_def)
  have past: "map unplaced (parse_from sg t (front @ post) po (at_element (length front))) = map unplaced (parse_from sg t post po (at_element 0))" for front
    using parse_from_moved [OF g, of sg t "front" post "at_element 0"] by (simp add: moved_def)
  have same: "map unplaced (parse_from sg t (pre @ (CHR ''-'' # cs) # post) po (at_element (length pre)))
      = map unplaced (parse_from sg t (pre @ map short_option cs @ post) po (at_element (length pre)))" for pre
    unfolding group parse_flags [OF assms(1,2)] map_append flags
    using past [of "pre @ [CHR ''-'' # cs]"] past [of "pre @ map short_option cs"] by simp
  show ?thesis using group same same [of "[]"] by (simp add: parse_def)
qed

theorem grouped_flags_witness:
  "map unplaced (parse True sample_table [''-vw'', ''-o'', ''x'', ''-w''] (default_options\<lparr>grouped_short_options := True\<rparr>))
     = map unplaced (parse True sample_table [''-v'', ''-w'', ''-o'', ''x'', ''-w''] (default_options\<lparr>grouped_short_options := True\<rparr>))"
proof -
  have "grouping sample_table (default_options\<lparr>grouped_short_options := True\<rparr>)"
    "list_all (flag_letter sample_table (default_options\<lparr>grouped_short_options := True\<rparr>)) ''vw''" by code_simp+
  from grouped_flags [OF this, of True "[]" "[''-o'', ''x'', ''-w'']"] show ?thesis by simp
qed

end
