(* ===== verification/Cli_Suggest.thy ===== *)
theory Cli_Suggest
  imports Views
begin

text \<open>
  The name an error offers for an unknown option or subcommand (\<^verbatim>\<open>edit_distance\<close> and
  \<^verbatim>\<open>closest\<close> of \<^verbatim>\<open>src/cli/parse.cc\<close>): the distance computed in a table is the least
  number of edits, and the name offered is the nearest.
\<close>

section \<open>The distance and the closest name\<close>

definition edit_init :: "string \<Rightarrow> string \<Rightarrow> nat list list" where
  "edit_init a b =
     (let d = replicate (length a + 1) (replicate (length b + 1) 0);
          d = foldl (\<lambda>d i. d[i := (d ! i)[0 := i]]) d [0..<length a + 1]
      in foldl (\<lambda>d j. d[0 := (d ! 0)[j := j]]) d [0..<length b + 1])"

definition edit_cell :: "string \<Rightarrow> string \<Rightarrow> nat list list \<Rightarrow> nat \<Rightarrow> nat \<Rightarrow> nat" where
  "edit_cell a b d i j =
     (let cost = (if a ! (i - 1) = b ! (j - 1) then 0 else 1);
          n = min (min (d ! (i - 1) ! j + 1) (d ! i ! (j - 1) + 1)) (d ! (i - 1) ! (j - 1) + cost)
      in if 1 < i \<and> 1 < j \<and> a ! (i - 1) = b ! (j - 2) \<and> a ! (i - 2) = b ! (j - 1)
         then min n (d ! (i - 2) ! (j - 2) + 1) else n)"

definition edit_row :: "string \<Rightarrow> string \<Rightarrow> nat list list \<Rightarrow> nat \<Rightarrow> nat list list" where
  "edit_row a b d i = foldl (\<lambda>d j. d[i := (d ! i)[j := edit_cell a b d i j]]) d [1..<length b + 1]"

definition edit_distance :: "string \<Rightarrow> string \<Rightarrow> nat" where
  "edit_distance a b = foldl (edit_row a b) (edit_init a b) [1..<length a + 1] ! length a ! length b"

definition without_suffix :: "string \<Rightarrow> string" where
  "without_suffix name = (if ends_with name ''='' \<or> ends_with name '':'' \<or> ends_with name '','' then butlast name else name)"

fun closest_loop :: "string \<Rightarrow> string list \<Rightarrow> nat \<Rightarrow> string \<Rightarrow> string" where
  "closest_loop word [] best_distance best = best"
| "closest_loop word (spelling # names) best_distance best =
     (let name = without_suffix spelling; distance = edit_distance word name in
      if distance < best_distance then closest_loop word names distance name
      else closest_loop word names best_distance best)"

definition stem :: "string \<Rightarrow> string" where
  "stem word = dropWhile (\<lambda>c. c = CHR ''-'' \<or> c = CHR ''/'') word"

definition closest :: "string \<Rightarrow> string list \<Rightarrow> string" where
  "closest word names = closest_loop word names (length (stem word) div 3 + 1) []"

section \<open>Edits\<close>

text \<open>One text made of another, left to right, by insertions, deletions, substitutions and swaps.\<close>

inductive edits :: "string \<Rightarrow> string \<Rightarrow> nat \<Rightarrow> bool" where
  none: "edits [] [] 0"
| keep: "edits a b n \<Longrightarrow> edits (a @ [c]) (b @ [c]) n"
| delete: "edits a b n \<Longrightarrow> edits (a @ [c]) b (Suc n)"
| insert: "edits a b n \<Longrightarrow> edits a (b @ [c]) (Suc n)"
| replace: "edits a b n \<Longrightarrow> edits (a @ [c]) (b @ [d]) (Suc n)"
| swap: "edits a b n \<Longrightarrow> edits (a @ [c, d]) (b @ [d, c]) (Suc n)"

text \<open>The least number of them, of reversed texts.\<close>

fun least_edits :: "string \<Rightarrow> string \<Rightarrow> nat" where
  "least_edits [] b = length b"
| "least_edits (x # a) [] = Suc (length a)"
| "least_edits (x # a) (y # b) =
     (let n = min (min (least_edits a (y # b) + 1) (least_edits (x # a) b + 1)) (least_edits a b + (if x = y then 0 else 1)) in
      case (a, b) of (x2 # a2, y2 # b2) \<Rightarrow> if x = y2 \<and> x2 = y then min n (least_edits a2 b2 + 1) else n | _ \<Rightarrow> n)"

lemma least_edits_Nil: "least_edits a [] = length a"
  by (cases a) auto

declare least_edits.simps(3) [simp del]

lemma swap_le:
  "(case (a, b) of (x2 # a2, y2 # b2) \<Rightarrow> if P x2 y2 then min n (f a2 b2) else n | _ \<Rightarrow> n) \<le> (n :: nat)"
  by (auto split: list.split)

lemma least_edits_min:
  "least_edits (x # a) (y # b) \<le> least_edits a (y # b) + 1" "least_edits (x # a) (y # b) \<le> least_edits (x # a) b + 1"
  "least_edits (x # a) (y # b) \<le> least_edits a b + (if x = y then 0 else 1)"
proof -
  have "least_edits (x # a) (y # b)
      \<le> min (min (least_edits a (y # b) + 1) (least_edits (x # a) b + 1)) (least_edits a b + (if x = y then 0 else 1))"
    unfolding least_edits.simps(3) [of x a y b] Let_def by (rule swap_le)
  then show "least_edits (x # a) (y # b) \<le> least_edits a (y # b) + 1" "least_edits (x # a) (y # b) \<le> least_edits (x # a) b + 1"
    "least_edits (x # a) (y # b) \<le> least_edits a b + (if x = y then 0 else 1)"
    by (simp_all only: min.bounded_iff)
qed

lemma least_edits_steps:
  "least_edits (c # a) (c # b) \<le> least_edits a b" "least_edits (c # a) b \<le> Suc (least_edits a b)"
  "least_edits a (c # b) \<le> Suc (least_edits a b)" "least_edits (c # a) (d # b) \<le> Suc (least_edits a b)"
  "least_edits (d # c # a) (c # d # b) \<le> Suc (least_edits a b)"
proof -
  show "least_edits (c # a) (c # b) \<le> least_edits a b" "least_edits (c # a) (d # b) \<le> Suc (least_edits a b)"
    using least_edits_min(3) [of c a c b] least_edits_min(3) [of c a d b] by (auto split: if_splits)
  show "least_edits (c # a) b \<le> Suc (least_edits a b)"
    using least_edits_min(1) [of c a] by (cases b) (simp_all add: least_edits_Nil)
  show "least_edits a (c # b) \<le> Suc (least_edits a b)"
    using least_edits_min(2) [of _ _ c b] by (cases a) simp_all
  show "least_edits (d # c # a) (c # d # b) \<le> Suc (least_edits a b)"
    by (simp add: least_edits.simps(3) [of d "c # a" c] Let_def)
qed

lemma least_edits_le: "edits a b n \<Longrightarrow> least_edits (rev a) (rev b) \<le> n"
  by (induction rule: edits.induct) (auto intro: order_trans least_edits_steps)

text \<open>The least number is one of the ways to reach it.\<close>

lemma least_edits_cases:
  "least_edits (x # a) (y # b) \<in> {least_edits a (y # b) + 1, least_edits (x # a) b + 1, least_edits a b + (if x = y then 0 else 1)}
   \<or> (\<exists>a2 b2. a = y # a2 \<and> b = x # b2 \<and> least_edits (x # a) (y # b) = least_edits a2 b2 + 1)"
  unfolding least_edits.simps(3) [of x a y b] Let_def by (cases a; cases b) (auto simp: min_def)

lemma edits_lengths: "edits (rev a) [] (length a)" "edits [] (rev b) (length b)"
  by (induction a, auto intro: edits.none edits.delete) (induction b, auto intro: edits.none edits.insert)

lemma least_edits_reached: "edits (rev a) (rev b) (least_edits a b)"
proof (induction a b rule: least_edits.induct)
  case (3 x a y b)
  let ?n = "least_edits (x # a) (y # b)"
  from least_edits_cases [of x a y b]
  consider "?n = Suc (least_edits a (y # b))" | "?n = Suc (least_edits (x # a) b)" | "x = y" "?n = least_edits a b"
    | "?n = Suc (least_edits a b)" | a2 b2 where "a = y # a2" "b = x # b2" "?n = Suc (least_edits a2 b2)"
    by (auto split: if_splits)
  then show ?case
  proof cases
    case 5
    with "3.IH" show ?thesis using edits.swap [of "rev a2" "rev b2" _ y x] by simp
  qed (use "3.IH" in \<open>auto intro: edits.intros\<close>)
qed (auto intro: edits_lengths edits.delete)

section \<open>The table\<close>

text \<open>The entry of the table for a prefix of each text.\<close>

definition entry :: "string \<Rightarrow> string \<Rightarrow> nat \<Rightarrow> nat \<Rightarrow> nat" where
  "entry a b i j = least_edits (rev (take i a)) (rev (take j b))"

lemma entry_0 [simp]: "j \<le> length b \<Longrightarrow> entry a b 0 j = j" "i \<le> length a \<Longrightarrow> entry a b i 0 = i"
  by (simp_all add: entry_def least_edits_Nil)

lemma entry_Suc:
  assumes "i < length a" "j < length b"
  shows "entry a b (Suc i) (Suc j) =
    (let n = min (min (entry a b i (Suc j) + 1) (entry a b (Suc i) j + 1)) (entry a b i j + (if a ! i = b ! j then 0 else 1)) in
     if 0 < i \<and> 0 < j \<and> a ! i = b ! (j - 1) \<and> a ! (i - 1) = b ! j then min n (entry a b (i - 1) (j - 1) + 1) else n)"
proof -
  have i: "rev (take (Suc i) a) = a ! i # rev (take i a)" and j: "rev (take (Suc j) b) = b ! j # rev (take j b)"
    using assms by (simp_all add: take_Suc_conv_app_nth)
  have i2: "rev (take i a) = a ! (i - 1) # rev (take (i - 1) a)" if "0 < i"
    using that assms by (cases i) (simp_all add: take_Suc_conv_app_nth)
  have j2: "rev (take j b) = b ! (j - 1) # rev (take (j - 1) b)" if "0 < j"
    using that assms by (cases j) (simp_all add: take_Suc_conv_app_nth)
  show ?thesis
    unfolding entry_def i j least_edits.simps(3) Let_def
    by (cases "0 < i"; cases "0 < j") (simp_all add: i2 j2)
qed

definition filled :: "string \<Rightarrow> string \<Rightarrow> nat \<Rightarrow> nat \<Rightarrow> nat list list \<Rightarrow> bool" where
  "filled a b i k d \<longleftrightarrow> length d = length a + 1 \<and> (\<forall>i'\<le>length a. length (d ! i') = length b + 1)
     \<and> (\<forall>i'<i. \<forall>j\<le>length b. d ! i' ! j = entry a b i' j) \<and> (\<forall>j<k. d ! i ! j = entry a b i j)
     \<and> (\<forall>i'. i \<le> i' \<longrightarrow> i' \<le> length a \<longrightarrow> d ! i' ! 0 = i')"

lemma filled_cell:
  assumes "filled a b i k d" "1 \<le> i" "i \<le> length a" "1 \<le> k" "k \<le> length b"
  shows "filled a b i (Suc k) (d[i := (d ! i)[k := edit_cell a b d i k]])"
proof -
  obtain i' k' where ik: "i = Suc i'" "k = Suc k'" using assms(2,4) by (cases i; cases k) auto
  have up: "d ! i' ! j = entry a b i' j" if "j \<le> length b" for j using assms(1) that ik by (simp add: filled_def)
  have up2: "d ! (i' - 1) ! j = entry a b (i' - 1) j" if "j \<le> length b" "0 < i'" for j
    using assms(1) that ik by (simp add: filled_def)
  have here: "d ! i ! k' = entry a b i k'" using assms(1) ik by (simp add: filled_def)
  have "edit_cell a b d i k =
      (let n = min (min (d ! i' ! k + 1) (d ! i ! k' + 1)) (d ! i' ! k' + (if a ! i' = b ! k' then 0 else 1)) in
       if 0 < i' \<and> 0 < k' \<and> a ! i' = b ! (k' - 1) \<and> a ! (i' - 1) = b ! k' then min n (d ! (i' - 1) ! (k' - 1) + 1) else n)"
    by (simp add: edit_cell_def ik Let_def numeral_2_eq_2)
  also have "\<dots> = entry a b i k"
  proof -
    have k': "k \<le> length b" "k' \<le> length b" "k' - 1 \<le> length b" "i' < length a" "k' < length b" using assms ik by auto
    show ?thesis
      unfolding up [OF k'(1)] up [OF k'(2)] here Let_def
      using up2 [OF k'(3)] entry_Suc [OF k'(4,5)] unfolding ik Let_def by argo
  qed
  finally have "edit_cell a b d i k = entry a b i k" .
  moreover have "i < length d" "k < length (d ! i)" using assms by (simp_all add: filled_def less_Suc_eq_le)
  ultimately show ?thesis using assms by (auto simp: filled_def nth_list_update less_Suc_eq)
qed

lemma filled_row:
  assumes "filled a b i 1 d" "1 \<le> i" "i \<le> length a"
  shows "filled a b i (length b + 1) (edit_row a b d i)"
proof -
  have "filled a b i (Suc n) (foldl (\<lambda>d j. d[i := (d ! i)[j := edit_cell a b d i j]]) d [1..<Suc n])" if "n \<le> length b" for n
    using that
  proof (induction n)
    case (Suc n)
    then show ?case using filled_cell [OF Suc.IH assms(2,3)] by simp
  qed (use assms in simp)
  from this [of "length b"] show ?thesis by (simp add: edit_row_def)
qed

lemma filled_next:
  assumes "filled a b i (length b + 1) d" "i < length a"
  shows "filled a b (Suc i) 1 d"
  using assms by (simp add: filled_def less_Suc_eq_le le_less [of _ i] all_conj_distrib)

lemma edit_init_columns:
  assumes "n \<le> length d"
  defines "e \<equiv> \<lambda>n. foldl (\<lambda>d i. d[i := (d ! i)[0 := i]]) d [0..<n]"
  shows "length (e n) = length d \<and> (\<forall>i<length d. e n ! i = (if i < n then (d ! i)[0 := i] else d ! i))"
  using assms(1)
proof (induction n)
  case (Suc n)
  then show ?case by (auto simp: e_def nth_list_update)
qed (simp add: e_def)

lemma edit_init_rows:
  fixes d :: "nat list list"
  assumes "n \<le> length (d ! 0)" "0 < length d"
  defines "e \<equiv> \<lambda>n. foldl (\<lambda>d j. d[0 := (d ! 0)[j := j]]) d [0..<n]"
  shows "length (e n) = length d \<and> length (e n ! 0) = length (d ! 0) \<and> (\<forall>j<n. e n ! 0 ! j = j)
     \<and> (\<forall>i. 0 < i \<longrightarrow> i < length d \<longrightarrow> e n ! i = d ! i)"
  using assms(1,2)
proof (induction n)
  case (Suc n)
  then show ?case by (auto simp: e_def nth_list_update less_Suc_eq)
qed (simp add: e_def)

lemma edit_init_filled: "filled a b 0 (length b + 1) (edit_init a b)"
proof -
  define m n where "m = length a + 1" and "n = length b + 1"
  define c where "c = foldl (\<lambda>d i. d[i := (d ! i)[0 := i]]) (replicate m (replicate n (0::nat))) [0..<m]"
  have c: "length c = m" "\<And>i. i < m \<Longrightarrow> c ! i = (replicate n 0)[0 := i]"
    using edit_init_columns [of m "replicate m (replicate n 0)"] by (simp_all add: c_def)
  have d: "edit_init a b = foldl (\<lambda>d j. d[0 := (d ! 0)[j := j]]) c [0..<n]"
    by (simp add: edit_init_def c_def m_def n_def Let_def)
  have pos: "0 < m" "0 < n" by (simp_all add: m_def n_def)
  note e = edit_init_rows [of n c, folded d]
  have len: "length (edit_init a b) = m" "length (edit_init a b ! i) = n" if "i < m" for i
    using e c pos that by (cases "i = 0"; simp)+
  have col: "edit_init a b ! i ! 0 = i" if "i < m" for i using e c pos that by (cases "i = 0") simp_all
  have row: "edit_init a b ! 0 ! j = j" if "j < n" for j using e c pos that by simp
  show ?thesis
    using len col row pos unfolding filled_def m_def n_def by (auto simp: less_Suc_eq_le)
qed

lemma edit_distance_entry: "edit_distance a b = entry a b (length a) (length b)"
proof -
  have "filled a b n (length b + 1) (foldl (edit_row a b) (edit_init a b) [1..<Suc n])" if "n \<le> length a" for n
    using that
  proof (induction n)
    case 0
    then show ?case using edit_init_filled by simp
  next
    case (Suc n)
    then show ?case using filled_row [OF filled_next] by simp
  qed
  from this [of "length a"] show ?thesis by (simp add: edit_distance_def filled_def)
qed

lemma edit_distance_least: "edits a b (edit_distance a b)" "edits a b n \<Longrightarrow> edit_distance a b \<le> n"
  using least_edits_reached [of "rev a" "rev b"] least_edits_le [of a b n]
  by (simp_all add: edit_distance_entry entry_def)

section \<open>The nearest name\<close>

abbreviation distance_to :: "string \<Rightarrow> string \<Rightarrow> nat" where
  "distance_to word spelling \<equiv> edit_distance word (without_suffix spelling)"

definition nearest :: "string \<Rightarrow> string list \<Rightarrow> nat \<Rightarrow> bool" where
  "nearest word names i \<longleftrightarrow> i < length names \<and> (\<forall>j<length names. distance_to word (names ! i) \<le> distance_to word (names ! j)
     \<and> (j < i \<longrightarrow> distance_to word (names ! i) < distance_to word (names ! j)))"

lemma closest_loop_nearest:
  "(\<forall>s\<in>set names. bound \<le> distance_to word s) \<and> closest_loop word names bound best = best
   \<or> (\<exists>i. nearest word names i \<and> distance_to word (names ! i) < bound
        \<and> closest_loop word names bound best = without_suffix (names ! i))"
proof (induction names arbitrary: bound best)
  case (Cons s names)
  let ?d = "distance_to word s"
  have later: "\<exists>i. nearest word (s # names) i \<and> distance_to word ((s # names) ! i) < bound \<and> r = without_suffix ((s # names) ! i)"
    if ex: "\<exists>i. nearest word names i \<and> distance_to word (names ! i) < x \<and> r = without_suffix (names ! i)" and x: "x \<le> ?d" "x \<le> bound" for x r
  proof -
    obtain i where i: "nearest word names i" "distance_to word (names ! i) < x" "r = without_suffix (names ! i)" using ex by blast
    then have "nearest word (s # names) (Suc i)" using x(1) by (auto simp: nearest_def less_Suc_eq_0_disj)
    with i x(2) show ?thesis by (intro exI [of _ "Suc i"]) simp
  qed
  show ?case
  proof (cases "?d < bound")
    case True
    have eq: "closest_loop word (s # names) bound best = closest_loop word names ?d (without_suffix s)" using True by (simp add: Let_def)
    from Cons [of ?d "without_suffix s"] show ?thesis
    proof
      assume far: "(\<forall>s'\<in>set names. ?d \<le> distance_to word s') \<and> closest_loop word names ?d (without_suffix s) = without_suffix s"
      then have "nearest word (s # names) 0" by (auto simp: nearest_def less_Suc_eq_0_disj)
      with far True eq show ?thesis by (intro disjI2 exI [of _ 0]) simp
    qed (use later [of ?d] True eq in simp)
  next
    case False
    then have eq: "closest_loop word (s # names) bound best = closest_loop word names bound best" by (simp add: Let_def)
    from Cons [of bound best] show ?thesis
      using False later [of bound] unfolding eq by (elim disjE) simp_all
  qed
qed simp

text \<open>
  C25: the name offered for a word is one that the fewest insertions, deletions,
  substitutions and swaps of neighbours make of it, the first such, where these are at most a third of the
  word past its prefix; where every name needs more, none is offered.
\<close>

theorem closest_nearest:
  "closest word names = [] \<and> (\<forall>i<length names. \<forall>n. edits word (without_suffix (names ! i)) n \<longrightarrow> length (stem word) div 3 < n)
   \<or> (\<exists>i<length names. \<exists>k\<le>length (stem word) div 3. closest word names = without_suffix (names ! i)
        \<and> edits word (without_suffix (names ! i)) k
        \<and> (\<forall>j<length names. \<forall>n. edits word (without_suffix (names ! j)) n \<longrightarrow> k \<le> n \<and> (j < i \<longrightarrow> k < n)))"
proof -
  let ?third = "length (stem word) div 3"
  consider (far) "\<forall>s\<in>set names. Suc ?third \<le> distance_to word s" "closest word names = []"
    | (near) i where "nearest word names i" "distance_to word (names ! i) \<le> ?third" "closest word names = without_suffix (names ! i)"
    using closest_loop_nearest [of names "Suc ?third" word "[]"] by (auto simp: closest_def less_Suc_eq_le)
  then show ?thesis
  proof cases
    case far
    have "?third < n" if "i < length names" "edits word (without_suffix (names ! i)) n" for i n
      using far(1) edit_distance_least(2) [OF that(2)] that(1) nth_mem [OF that(1)] by fastforce
    with far show ?thesis by blast
  next
    case (near i)
    let ?k = "distance_to word (names ! i)"
    have "?k \<le> n \<and> (j < i \<longrightarrow> ?k < n)" if "j < length names" "edits word (without_suffix (names ! j)) n" for j n
      using near(1) that(1) edit_distance_least(2) [OF that(2)] unfolding nearest_def by (meson le_trans less_le_trans)
    with near edit_distance_least(1) [of word] show ?thesis unfolding nearest_def by blast
  qed
qed

theorem closest_nearest_witness: "\<exists>k\<le>2. edits ''--verbos'' ''--verbose'' k"
proof -
  let ?names = "[''--level='', ''--verbose'']"
  have c: "closest ''--verbos'' ?names = ''--verbose''" "length (stem ''--verbos'') div 3 = 2" by code_simp+
  have w: "without_suffix ''--level='' = ''--level''" "without_suffix ''--verbose'' = ''--verbose''" by code_simp+
  from closest_nearest [of "''--verbos''" ?names] c
  obtain i k where i: "i < length ?names" "k \<le> 2" "''--verbose'' = without_suffix (?names ! i)"
    "edits ''--verbos'' (without_suffix (?names ! i)) k" by auto
  then have "i = 0 \<or> i = 1" by auto
  with i w show ?thesis by auto
qed

end
