(* ===== verification/Spec2Isabelle.thy ===== *)
theory Spec2Isabelle
  imports Utf16 Cmd Transport Path Uri Lsp_Position Sync_Steps Glob_Pattern Task_Structure Cancellation Opt_Render Opt_Group Cli_Suggest
begin

text \<open>
  A verification library for kotatsu, a C++ library for command line tools and language servers:
  an async runtime over libuv with an HTTP and an IPC layer on it, and beside them text encodings,
  paths, command lines, glob patterns, codecs and a test framework.

  \<^bold>\<open>What is modelled.\<close> The parts with logic of their own that does not live in a system call, a
  library or the C++ compiler. Each theory models one part, in the order of the code, and states
  and proves what makes it correct; file names are those under \<^verbatim>\<open>src/\<close>.

  \<^item> \<^verbatim>\<open>Prelude\<close>, \<^verbatim>\<open>Views\<close>: bytes, string views and the library functions on them.
  \<^item> \<^verbatim>\<open>Swar\<close>: the word-at-a-time byte scans of \<^verbatim>\<open>support/swar.h\<close>, on 64-bit words and both
    byte orders, equal to their bytewise meaning.
  \<^item> \<^verbatim>\<open>Utf8\<close>, \<^verbatim>\<open>Utf16\<close>: \<^verbatim>\<open>support/utf8.h\<close> and \<^verbatim>\<open>support/utf16.h\<close>. The decoder
    accepts exactly the encodings of code points; validation, repair and the conversions to and from
    UTF-16 are correct against that, lone surrogates (WTF-8) included.
  \<^item> \<^verbatim>\<open>Naming\<close>: the naming policies of \<^verbatim>\<open>support/naming.h\<close>.
  \<^item> \<^verbatim>\<open>Framing\<close>, \<^verbatim>\<open>Transport\<close>: message frames (\<^verbatim>\<open>ipc/framing.h\<close>), the parser as a
    state machine fed with pieces of a stream, and the transports that read and write them
    (\<^verbatim>\<open>ipc/transport.cpp\<close>, \<^verbatim>\<open>ipc/blocking_client.cpp\<close>). Both transports are instances of
    one interface, a locale of sources of messages, over which the reading loop is verified:
    what is written is read, however the bytes are cut, and when a write fails midway what went out
    whole.
  \<^item> \<^verbatim>\<open>Cmd\<close>: quoting and splitting command lines and expanding response files
    (\<^verbatim>\<open>sys/cmd.h\<close>), with round trips for both shells through a locale of readable quotings,
    and the termination of the expansion for any files, circular ones included.
  \<^item> \<^verbatim>\<open>Path\<close>: \<^verbatim>\<open>fs/path.cpp\<close> in both styles; normalization in place equals
    its specification, is idempotent, and \<^verbatim>\<open>resolve\<close> inverts \<^verbatim>\<open>relative\<close>.
  \<^item> \<^verbatim>\<open>Uri\<close>: \<^verbatim>\<open>ipc/lsp/uri.cpp\<close>; parsing, percent-encoding and file paths round-trip.
  \<^item> \<^verbatim>\<open>Lsp_Text\<close>, \<^verbatim>\<open>Lsp_Position\<close>: the units and positions of the Language Server
    Protocol (\<^verbatim>\<open>ipc/lsp/text.cpp\<close>, \<^verbatim>\<open>ipc/lsp/position.h\<close>): offsets and positions
    round-trip in every encoding, keep their order, and every shortcut the code takes (stepping
    back to the lead byte, skipping ASCII lines, knowing only sizes) gives what reading the whole
    text gives.
  \<^item> \<^verbatim>\<open>Glob\<close>, \<^verbatim>\<open>Glob_Match\<close>: glob patterns (\<^verbatim>\<open>support/glob_pattern.cpp\<close>).
    \<^verbatim>\<open>Glob\<close> holds \<^verbatim>\<open>create\<close>: the literal prefix, the braces, the compiler of an arm
    and the choice of a mode; \<^verbatim>\<open>Glob_Match\<close> the matchers. \<^verbatim>\<open>Backtrack\<close> is the argument
    both matchers rest on, that going back to the latest star alone loses no match: a locale with
    two interpretations, for the tokens of a segment (\<^verbatim>\<open>Glob_Match\<close>) and the segments of a path
    (\<^verbatim>\<open>Glob_Segments\<close>). \<^verbatim>\<open>Glob_Arms\<close> shows the plans and modes equal to the segment
    program, \<^verbatim>\<open>Glob_Compile\<close> what the compiler promises, \<^verbatim>\<open>Glob_Create\<close> that the prefix
    and the braces may be split off, and \<^verbatim>\<open>Glob_Pattern\<close> that a created pattern matches what its
    brace expansions do, with \<^verbatim>\<open>escape\<close> and \<^verbatim>\<open>split_root\<close>.
  \<^item> \<^verbatim>\<open>Linked_List\<close>: the four intrusive doubly linked lists of the async runtime, their pointers
    over a store, implement lists; one locale, four interpretations.
  \<^item> \<^verbatim>\<open>Sync\<close>, \<^verbatim>\<open>Sync_Steps\<close>: the mutex, semaphore, event and condition variable of the
    runtime (\<^verbatim>\<open>async/runtime/sync.h\<close>), the waits on them, and what cancels and event loops do
    to those. \<^verbatim>\<open>Sync\<close> holds the operations and the invariant each preserves;
    \<^verbatim>\<open>Sync_Steps\<close> the transition system of all of them, and mutual exclusion, the absence of
    lost wakeups, what every way out of a wait holds, and, over runs counted by the turns a loop
    takes with any steps between them, that a loop resumes woken tasks in order and that a mutex
    handed on stays with the task it went to until that task's turn.

  \<^item> \<^verbatim>\<open>Task_Tree\<close>: tasks, \<^verbatim>\<open>when_all\<close>, \<^verbatim>\<open>when_any\<close>, \<^verbatim>\<open>task_group\<close> and
    leaves (\<^verbatim>\<open>async/runtime/node.cpp\<close>, \<^verbatim>\<open>task.h\<close>, \<^verbatim>\<open>when.h\<close>,
    \<^verbatim>\<open>task_group.h\<close>), with the call stack as part of the state, since an operation may run a
    coroutine that calls another in its middle. \<^verbatim>\<open>Task_Inv\<close> holds the invariant;
    \<^verbatim>\<open>Task_Inv\<close>, \<^verbatim>\<open>Task_Aggregates\<close> and \<^verbatim>\<open>Task_Release\<close> that each elementary
    change keeps it, \<^verbatim>\<open>Task_Ops\<close> and \<^verbatim>\<open>Task_Steps\<close> that each operation does;
    \<^verbatim>\<open>Task_Outcome\<close> a second invariant, that what an aggregate records of its children is what
    became of them. \<^verbatim>\<open>Task_Runs\<close> is the transition system of all operations, in any order, and
    \<^verbatim>\<open>Task_Structure\<close> what follows in every state it reaches: an aggregate ends after its
    children with the outcome they give it, a cancel reaches everything below, and no task that runs
    is left with nothing to wait for.
  \<^item> \<^verbatim>\<open>Transition\<close>: invariants of transition systems, a locale with three interpretations, for
    the sync primitives, the task tree and cancellation. \<^verbatim>\<open>Node_State\<close> is what both share.

  \<^item> \<^verbatim>\<open>Cancellation\<close>: cancellation sources and the callbacks of their tokens
    (\<^verbatim>\<open>async/runtime/cancellation.cpp\<close>), which may cancel, register and deregister while a source
    runs them: each runs once, in order, or not at all once its registration is gone.
  \<^item> \<^verbatim>\<open>Opt_Table\<close>, \<^verbatim>\<open>Opt_Scan\<close>, \<^verbatim>\<open>Opt_Parse\<close>: the option tables of
    \<^verbatim>\<open>cli/table\<close>: what an option makes of an argument, the search of a table for the option an
    argument names, and the parse of an argv, which ends whatever the argv is. \<^verbatim>\<open>Opt_Cover\<close>: the
    parse accounts for every element, a \<^verbatim>\<open>--\<close> that ends the options included, and a sorted table
    searched by bisection parses as by the longest match. \<^verbatim>\<open>Opt_Group\<close>: a group of short options
    parses as its flags, wherever it is, and what follows as it does behind them.
    \<^verbatim>\<open>Opt_Render\<close>: rendering inverts parsing.
  \<^item> \<^verbatim>\<open>Cli_Error\<close>, \<^verbatim>\<open>Cli_Suggest\<close>: the errors of a command line and the mark under
    their argv (\<^verbatim>\<open>cli/error.cc\<close>), and the name offered for an unknown one
    (\<^verbatim>\<open>cli/parse.cc\<close>): the nearest by the least number of edits.

  \<^bold>\<open>How.\<close> A string view or string is a list of bytes; a position in it is an offset or the rest of
  the text. A struct is a record, an enum a datatype, \<^verbatim>\<open>std::optional\<close> an option and
  \<^verbatim>\<open>std::expected\<close> a sum with the error on the left. Stateful code takes and returns its
  state. Sizes and offsets are natural numbers, as they count bytes in memory; words are kept at
  their width where the code computes with their bits (scans, the bitmap of lines, the count of
  woken waits), and casts to 32 bits are reductions modulo \<^verbatim>\<open>2 ^ 32\<close>, with texts under 4 GiB a
  hypothesis. Whether the program is built for Windows, the byte order, and whether
  \<^verbatim>\<open>char\<close> is signed are arguments.

  \<^bold>\<open>Loops.\<close> Every loop is a recursive function with its termination proved, but for two kinds. The
  reading loops over a stream, the loops of the glob matchers and the one over the brace choices are
  partial functions into options, shown to give a result. The loop
  that wakes all waiters has fuel, the number of waiters at its start, shown to empty the queue. The
  loop that drains what an event loop has deferred is no function: the tasks it resumes run between
  its turns, so each turn is a step among others.

  \<^bold>\<open>Parameters.\<close> What a response file holds is a function of its name. The bytes and errors a stream
  or a pipe brings are lists. How a stream ends a write is a function of the bytes and of what went out
  before: sent, or failed with any number of its first bytes gone out. The theorems hold for all of
  them.

  \<^bold>\<open>Not modelled.\<close> Code that is mostly calls: libuv (\<^verbatim>\<open>async/io\<close>), libcurl (\<^verbatim>\<open>http\<close>),
  the file system (\<^verbatim>\<open>fs\<close>, apart from paths), processes and the system (\<^verbatim>\<open>sys\<close>, apart
  from command lines). Code that runs in the compiler: reflection (\<^verbatim>\<open>meta\<close>) and the codecs over
  it (\<^verbatim>\<open>codec\<close>). Generated data (\<^verbatim>\<open>ipc/lsp/protocol.h\<close>) and the test framework
  (\<^verbatim>\<open>zest\<close>). Of the command
  line interface, what reads declared structs: commands are built by reflection and filled through a
  codec.
\<close>

end
